(* ===== verification/GoStrings.thy ===== *)
theory GoStrings imports Prelude begin

text \<open>
  Go strings as byte strings. A Go string is a sequence of bytes, an Isabelle \<open>string\<close> a
  list of 8-bit characters, so offsets, lengths and slices agree byte for byte. The
  functions of Go's package strings that the program calls are defined here once.
\<close>

section \<open>Bytes\<close>

definition byte :: "char \<Rightarrow> nat" where
  "byte c = of_char c"

definition in_range :: "nat \<Rightarrow> nat \<Rightarrow> char \<Rightarrow> bool" where
  "in_range lo hi c \<longleftrightarrow> lo \<le> byte c \<and> byte c \<le> hi"

definition is_digit :: "char \<Rightarrow> bool" where "is_digit = in_range 48 57"
definition is_upper :: "char \<Rightarrow> bool" where "is_upper = in_range 65 90"
definition is_lower :: "char \<Rightarrow> bool" where "is_lower = in_range 97 122"

definition digit_val :: "char \<Rightarrow> nat" where "digit_val c = byte c - 48"
definition upper_val :: "char \<Rightarrow> nat" where "upper_val c = byte c - 65"

definition digit_char :: "nat \<Rightarrow> char" where "digit_char d = char_of (48 + d)"
definition upper_char :: "nat \<Rightarrow> char" where "upper_char d = char_of (65 + d)"

lemma byte_inj: "byte a = byte b \<longleftrightarrow> a = b"
  by (simp add: byte_def)

lemma byte_bound [simp]: "byte c < 256"
  by (simp add: byte_def)

lemma byte_char_of [simp]: "n < 256 \<Longrightarrow> byte (char_of n) = n"
  by (simp add: byte_def of_char_of)

lemma is_digit_digit_char [simp]: "d < 10 \<Longrightarrow> is_digit (digit_char d)"
  by (simp add: is_digit_def in_range_def digit_char_def)

lemma digit_val_digit_char [simp]: "d < 10 \<Longrightarrow> digit_val (digit_char d) = d"
  by (simp add: digit_val_def digit_char_def)

lemma digit_val_less: "is_digit c \<Longrightarrow> digit_val c < 10"
  by (auto simp: is_digit_def in_range_def digit_val_def)

lemma digit_val_inj: "is_digit a \<Longrightarrow> is_digit b \<Longrightarrow> digit_val a = digit_val b \<longleftrightarrow> a = b"
  by (auto simp: is_digit_def in_range_def digit_val_def byte_inj [symmetric])

lemma digit_char_digit_val: "is_digit c \<Longrightarrow> digit_char (digit_val c) = c"
  by (simp add: digit_val_inj [symmetric] digit_val_less)

lemma upper_val_less: "is_upper c \<Longrightarrow> upper_val c < 26"
  by (auto simp: is_upper_def in_range_def upper_val_def)

lemma upper_val_inj: "is_upper a \<Longrightarrow> is_upper b \<Longrightarrow> upper_val a = upper_val b \<longleftrightarrow> a = b"
  by (auto simp: is_upper_def in_range_def upper_val_def byte_inj [symmetric])

lemma digit_not_upper: "is_digit c \<Longrightarrow> \<not> is_upper c"
  by (auto simp: is_digit_def is_upper_def in_range_def)

section \<open>Prefixes, suffixes, search\<close>

fun has_prefix :: "string \<Rightarrow> string \<Rightarrow> bool" where
  "has_prefix s [] = True"
| "has_prefix [] (p # ps) = False"
| "has_prefix (c # s) (p # ps) = (c = p \<and> has_prefix s ps)"

lemma has_prefix_iff: "has_prefix s p \<longleftrightarrow> (\<exists>t. s = p @ t)"
  by (induction s p rule: has_prefix.induct) auto

definition has_suffix :: "string \<Rightarrow> string \<Rightarrow> bool" where
  "has_suffix s p \<longleftrightarrow> has_prefix (rev s) (rev p)"

lemma has_suffix_iff: "has_suffix s p \<longleftrightarrow> (\<exists>t. s = t @ p)"
proof -
  have "has_suffix s p \<longleftrightarrow> (\<exists>t. rev s = rev p @ t)"
    by (simp add: has_suffix_def has_prefix_iff)
  also have "\<dots> \<longleftrightarrow> (\<exists>t. s = t @ p)"
    by (metis rev_append rev_rev_ident)
  finally show ?thesis .
qed

text \<open>\<open>strings.Contains\<close> and \<open>strings.Index\<close>.\<close>

fun index_from :: "string \<Rightarrow> string \<Rightarrow> nat \<Rightarrow> nat option" where
  "index_from [] p i = (if p = [] then Some i else None)"
| "index_from (c # s) p i = (if has_prefix (c # s) p then Some i else index_from s p (Suc i))"

definition str_index :: "string \<Rightarrow> string \<Rightarrow> nat option" where
  "str_index s p = index_from s p 0"

definition contains :: "string \<Rightarrow> string \<Rightarrow> bool" where
  "contains s p \<longleftrightarrow> str_index s p \<noteq> None"

lemma index_from_Some: "index_from s p i = Some j \<Longrightarrow> \<exists>a b. s = a @ p @ b \<and> j = i + length a"
proof (induction s p i rule: index_from.induct)
  case (1 p i)
  then show ?case by (auto split: if_splits)
next
  case (2 c s p i)
  show ?case
  proof (cases "has_prefix (c # s) p")
    case True
    then obtain t where t: "c # s = p @ t" by (auto simp: has_prefix_iff)
    from True 2 have "j = i" by simp
    with t show ?thesis by (intro exI [of _ "[]"] exI [of _ t]) simp
  next
    case False
    with 2 obtain a b where "s = a @ p @ b" and "j = Suc i + length a" by auto
    then show ?thesis by (intro exI [of _ "c # a"] exI [of _ b]) auto
  qed
qed

lemma index_from_None: "index_from s p i = None \<longleftrightarrow> \<not> (\<exists>a b. s = a @ p @ b)"
proof (induction s p i rule: index_from.induct)
  case (1 p i)
  then show ?case by auto
next
  case (2 c s p i)
  have "(\<exists>a b. c # s = a @ p @ b) \<longleftrightarrow> has_prefix (c # s) p \<or> (\<exists>a b. s = a @ p @ b)"
    (is "?l \<longleftrightarrow> ?r")
  proof
    assume ?l
    then obtain a b where e: "c # s = a @ p @ b" by auto
    then show ?r by (cases a) (auto simp: has_prefix_iff)
  next
    assume ?r
    then show ?l by (auto simp: has_prefix_iff) (metis append_Cons append_Nil)+
  qed
  with 2 show ?case by auto
qed

lemma contains_iff: "contains s p \<longleftrightarrow> (\<exists>a b. s = a @ p @ b)"
  using index_from_None [of s p 0] by (auto simp: contains_def str_index_def)

text \<open>Go compares strings byte by byte.\<close>

fun str_le :: "string \<Rightarrow> string \<Rightarrow> bool" where
  "str_le [] t = True"
| "str_le (c # s) [] = False"
| "str_le (c # s) (d # t) = (byte c < byte d \<or> (c = d \<and> str_le s t))"

text \<open>\<open>strings.IndexByte\<close>, with None for -1, and the slice \<open>d[:n]\<close>, with None for the panic.\<close>

fun index_byte :: "string \<Rightarrow> char \<Rightarrow> nat option" where
  "index_byte [] c = None"
| "index_byte (d # s) c = (if d = c then Some 0 else map_option Suc (index_byte s c))"

definition slice_to :: "nat \<Rightarrow> string \<Rightarrow> string option" where
  "slice_to n s = (if n \<le> length s then Some (take n s) else None)"

lemma index_byte_Some: "index_byte s c = Some i \<Longrightarrow> i < length s \<and> s ! i = c"
  by (induction s arbitrary: i) (auto split: if_splits)

lemma index_byte_None: "index_byte s c = None \<longleftrightarrow> c \<notin> set s"
  by (induction s) auto

lemma index_byte_nth: "distinct s \<Longrightarrow> i < length s \<Longrightarrow> index_byte s (s ! i) = Some i"
  by (induction s arbitrary: i) (auto simp: nth_Cons split: nat.splits)

section \<open>Trimming and case\<close>

text \<open>
  \<open>strings.TrimSpace\<close> removes the white space of Unicode at both ends; these are the UTF-8
  encodings of every code point for which \<open>unicode.IsSpace\<close> holds.
\<close>

definition space_encodings :: "nat list list" where
  "space_encodings =
     [[9], [10], [11], [12], [13], [32], [194, 133], [194, 160], [225, 154, 128]] @
     map (\<lambda>b. [226, 128, b]) [128, 129, 130, 131, 132, 133, 134, 135, 136, 137, 138, 168, 169, 175] @
     [[226, 129, 159], [227, 128, 128]]"

fun strip_bytes :: "string \<Rightarrow> nat list \<Rightarrow> string option" where
  "strip_bytes s [] = Some s"
| "strip_bytes [] (b # bs) = None"
| "strip_bytes (c # s) (b # bs) = (if byte c = b then strip_bytes s bs else None)"

fun strip_any :: "nat list list \<Rightarrow> string \<Rightarrow> string option" where
  "strip_any [] s = None"
| "strip_any (e # es) s = (case strip_bytes s e of Some t \<Rightarrow> Some t | None \<Rightarrow> strip_any es s)"

lemma strip_bytes_length: "strip_bytes s bs = Some t \<Longrightarrow> length s = length bs + length t"
  by (induction s bs rule: strip_bytes.induct) (auto split: if_splits)

lemma strip_any_length:
  "strip_any es s = Some t \<Longrightarrow> \<forall>e \<in> set es. e \<noteq> [] \<Longrightarrow> length t < length s"
  by (induction es s rule: strip_any.induct)
    (auto split: option.splits dest!: strip_bytes_length)

function trim_while :: "nat list list \<Rightarrow> string \<Rightarrow> string" where
  "trim_while es s =
     (case strip_any (filter (\<lambda>e. e \<noteq> []) es) s of None \<Rightarrow> s | Some t \<Rightarrow> trim_while es t)"
  by pat_completeness auto
termination
  by (relation "measure (\<lambda>(es, s). length s)") (auto dest: strip_any_length)

declare trim_while.simps [simp del]

definition trim_space :: "string \<Rightarrow> string" where
  "trim_space s = rev (trim_while (map rev space_encodings) (rev (trim_while space_encodings s)))"

lemma trim_while_id: "strip_any (filter (\<lambda>e. e \<noteq> []) es) s = None \<Longrightarrow> trim_while es s = s"
  by (subst trim_while.simps) simp

definition printable :: "char \<Rightarrow> bool" where
  "printable c \<longleftrightarrow> 33 \<le> byte c \<and> byte c < 128"

lemma printable_alnum [simp]: "is_digit c \<Longrightarrow> printable c" "is_upper c \<Longrightarrow> printable c" "is_lower c \<Longrightarrow> printable c"
  by (auto simp: printable_def is_digit_def is_upper_def is_lower_def in_range_def)

lemma strip_any_printable:
  "printable c \<Longrightarrow> strip_any (filter (\<lambda>e. e \<noteq> []) space_encodings) (c # s) = None"
  "printable c \<Longrightarrow> strip_any (filter (\<lambda>e. e \<noteq> []) (map rev space_encodings)) (c # s) = None"
  by (auto simp: printable_def space_encodings_def)

lemma strip_any_Nil:
  "strip_any (filter (\<lambda>e. e \<noteq> []) space_encodings) [] = None"
  "strip_any (filter (\<lambda>e. e \<noteq> []) (map rev space_encodings)) [] = None"
  by (auto simp: space_encodings_def)

lemma trim_space_id:
  assumes "s = [] \<or> printable (hd s) \<and> printable (last s)"
  shows "trim_space s = s"
proof -
  have l: "trim_while space_encodings s = s"
    using assms by (cases s) (auto intro!: trim_while_id simp: strip_any_printable strip_any_Nil)
  have r: "trim_while (map rev space_encodings) (rev s) = rev s"
    using assms
    by (cases s rule: rev_cases) (auto intro!: trim_while_id simp: strip_any_printable strip_any_Nil)
  show ?thesis by (simp add: trim_space_def l r)
qed

text \<open>
  \<open>strings.ToUpper\<close> and \<open>strings.ToLower\<close>. ASCII letters are mapped byte by byte; of the
  code points beyond ASCII the ones whose image is an ASCII letter are written out (dotless i
  and long s for ToUpper, dotted capital I and the Kelvin sign for ToLower), since only these
  can turn into a byte the program inspects; every other byte is kept, where Go replaces it
  by other bytes beyond ASCII.
\<close>

definition upper1 :: "char \<Rightarrow> char" where
  "upper1 c = (if is_lower c then char_of (byte c - 32) else c)"

definition lower1 :: "char \<Rightarrow> char" where
  "lower1 c = (if is_upper c then char_of (byte c + 32) else c)"

fun to_upper :: "string \<Rightarrow> string" where
  "to_upper [] = []"
| "to_upper [c] = [upper1 c]"
| "to_upper (c # d # s) =
     (if byte c = 196 \<and> byte d = 177 then CHR ''I'' # to_upper s
      else if byte c = 197 \<and> byte d = 191 then CHR ''S'' # to_upper s
      else upper1 c # to_upper (d # s))"

fun to_lower :: "string \<Rightarrow> string" where
  "to_lower [] = []"
| "to_lower [c] = [lower1 c]"
| "to_lower [c, d] =
     (if byte c = 196 \<and> byte d = 176 then ''i'' else [lower1 c, lower1 d])"
| "to_lower (c # d # e # s) =
     (if byte c = 196 \<and> byte d = 176 then CHR ''i'' # to_lower (e # s)
      else if byte c = 226 \<and> byte d = 132 \<and> byte e = 170 then CHR ''k'' # to_lower s
      else lower1 c # to_lower (d # e # s))"

definition ascii :: "string \<Rightarrow> bool" where
  "ascii s \<longleftrightarrow> (\<forall>c \<in> set s. byte c < 128)"

lemma to_upper_ascii: "ascii s \<Longrightarrow> to_upper s = map upper1 s"
  by (induction s rule: to_upper.induct) (auto simp: ascii_def)

lemma to_lower_ascii: "ascii s \<Longrightarrow> to_lower s = map lower1 s"
  by (induction s rule: to_lower.induct) (auto simp: ascii_def)

text \<open>Strings of digits and capital letters are already in the form the validators compare.\<close>

definition alnum_upper :: "string \<Rightarrow> bool" where
  "alnum_upper s \<longleftrightarrow> (\<forall>c \<in> set s. is_digit c \<or> is_upper c)"

lemma alnum_upper_upper1: "is_digit c \<or> is_upper c \<Longrightarrow> upper1 c = c"
  by (auto simp: upper1_def is_digit_def is_upper_def is_lower_def in_range_def)

lemma alnum_upper_norm:
  assumes "alnum_upper s"
  shows "to_upper s = s" and "trim_space s = s"
proof -
  have "ascii s"
    using assms by (fastforce simp: alnum_upper_def ascii_def is_digit_def is_upper_def in_range_def)
  then show "to_upper s = s"
    using assms by (auto simp: to_upper_ascii alnum_upper_def alnum_upper_upper1 intro!: map_idI)
  show "trim_space s = s"
  proof (cases "s = []")
    case True
    then show ?thesis by (intro trim_space_id) simp
  next
    case False
    moreover have "\<forall>c \<in> set s. printable c"
      using assms by (auto simp: alnum_upper_def)
    ultimately show ?thesis by (intro trim_space_id) simp
  qed
qed

lemma alnum_upper_update:
  "alnum_upper s \<Longrightarrow> is_digit c \<or> is_upper c \<Longrightarrow> alnum_upper (s[i := c])"
  using set_update_subset_insert [of s i c] by (auto simp: alnum_upper_def)

section \<open>Filtering, joining, splitting, numerals\<close>

text \<open>\<open>strings.Map\<close> with a callback that deletes the given ASCII bytes.\<close>

definition remove_bytes :: "string \<Rightarrow> string \<Rightarrow> string" where
  "remove_bytes bad s = filter (\<lambda>c. c \<notin> set bad) s"

fun str_join :: "string \<Rightarrow> string list \<Rightarrow> string" where
  "str_join sep [] = []"
| "str_join sep [x] = x"
| "str_join sep (x # y # zs) = x @ sep @ str_join sep (y # zs)"

text \<open>\<open>strings.Split\<close> with a one-byte separator.\<close>

fun str_split :: "char \<Rightarrow> string \<Rightarrow> string list" where
  "str_split sep [] = [[]]"
| "str_split sep (c # s) =
     (if c = sep then [] # str_split sep s
      else (case str_split sep s of [] \<Rightarrow> [[c]] | x # xs \<Rightarrow> (c # x) # xs))"

lemma str_split_nonempty: "str_split sep s \<noteq> []"
  by (cases s) (auto split: list.splits)

lemma str_split_no_sep: "sep \<notin> set s \<Longrightarrow> str_split sep s = [s]"
  by (induction s) auto

lemma str_split_append:
  "sep \<notin> set a \<Longrightarrow> str_split sep (a @ sep # b) = a # str_split sep b"
  by (induction a) auto

lemma str_split_join:
  "xs \<noteq> [] \<Longrightarrow> \<forall>x \<in> set xs. sep \<notin> set x \<Longrightarrow> str_split sep (str_join [sep] xs) = xs"
  by (induction "[sep]" xs rule: str_join.induct) (auto simp: str_split_no_sep str_split_append)

text \<open>\<open>strconv.Itoa\<close> on a natural number.\<close>

fun itoa :: "nat \<Rightarrow> string" where
  "itoa n = (if n < 10 then [digit_char n] else itoa (n div 10) @ [digit_char (n mod 10)])"

declare itoa.simps [simp del]

lemma itoa_nonempty [simp]: "itoa n \<noteq> []"
  by (subst itoa.simps) simp

lemma itoa_digits: "c \<in> set (itoa n) \<Longrightarrow> is_digit c"
proof (induction n rule: itoa.induct)
  case (1 n)
  then show ?case
    by (subst (asm) itoa.simps) (auto split: if_splits)
qed

fun dec_val :: "nat \<Rightarrow> string \<Rightarrow> nat" where
  "dec_val acc [] = acc"
| "dec_val acc (c # s) = dec_val (acc * 10 + digit_val c) s"

lemma dec_val_append: "dec_val acc (s @ t) = dec_val (dec_val acc s) t"
  by (induction s arbitrary: acc) auto

lemma dec_val_itoa: "dec_val 0 (itoa n) = n"
proof (induction n rule: itoa.induct)
  case (1 n)
  then show ?case
    by (subst itoa.simps) (auto simp: dec_val_append)
qed

lemma itoa_inj: "itoa m = itoa n \<longleftrightarrow> m = n"
  using dec_val_itoa by metis

end
