(* ===== verification/UTF8.thy ===== *)
theory UTF8 imports GoStrings begin

text \<open>
  Go's view of a byte string as a sequence of runes: \<open>utf8.DecodeRuneInString\<close> (a byte that
  does not begin a valid encoding is a one-byte RuneError), the \<open>range\<close> loop over a string,
  and \<open>utf8.EncodeRune\<close>. The lemmas give the round trip and what it says of lengths.
\<close>

definition rune_error :: nat where
  "rune_error = 65533"

definition byte_between :: "nat \<Rightarrow> nat \<Rightarrow> char \<Rightarrow> bool" where
  "byte_between lo hi c \<longleftrightarrow> lo \<le> byte c \<and> byte c \<le> hi"

text \<open>The value of a continuation byte.\<close>

definition cont :: "char \<Rightarrow> nat" where
  "cont c = byte c - 128"

text \<open>The ranges of the second byte of three- and four-byte encodings.\<close>

definition second3 :: "nat \<Rightarrow> char \<Rightarrow> bool" where
  "second3 b0 c = byte_between (if b0 = 224 then 160 else 128) (if b0 = 237 then 159 else 191) c"

definition second4 :: "nat \<Rightarrow> char \<Rightarrow> bool" where
  "second4 b0 c = byte_between (if b0 = 240 then 144 else 128) (if b0 = 244 then 143 else 191) c"

definition decode2 :: "nat \<Rightarrow> string \<Rightarrow> nat \<times> nat" where
  "decode2 b0 s =
     (case s of c1 # _ \<Rightarrow>
        (if byte_between 128 191 c1 then ((b0 - 192) * 64 + cont c1, 2) else (rune_error, 1))
      | _ \<Rightarrow> (rune_error, 1))"

definition decode3 :: "nat \<Rightarrow> string \<Rightarrow> nat \<times> nat" where
  "decode3 b0 s =
     (case s of c1 # c2 # _ \<Rightarrow>
        (if second3 b0 c1 \<and> byte_between 128 191 c2
         then ((b0 - 224) * 4096 + cont c1 * 64 + cont c2, 3) else (rune_error, 1))
      | _ \<Rightarrow> (rune_error, 1))"

definition decode4 :: "nat \<Rightarrow> string \<Rightarrow> nat \<times> nat" where
  "decode4 b0 s =
     (case s of c1 # c2 # c3 # _ \<Rightarrow>
        (if second4 b0 c1 \<and> byte_between 128 191 c2 \<and> byte_between 128 191 c3
         then ((b0 - 240) * 262144 + cont c1 * 4096 + cont c2 * 64 + cont c3, 4) else (rune_error, 1))
      | _ \<Rightarrow> (rune_error, 1))"

fun decode_rune :: "string \<Rightarrow> nat \<times> nat" where
  "decode_rune [] = (rune_error, 0)"
| "decode_rune (c0 # s) =
     (let b0 = byte c0 in
      if b0 < 128 then (b0, 1)
      else if b0 < 194 then (rune_error, 1)
      else if b0 < 224 then decode2 b0 s
      else if b0 < 240 then decode3 b0 s
      else if b0 < 245 then decode4 b0 s
      else (rune_error, 1))"

definition rune_width :: "string \<Rightarrow> nat" where
  "rune_width s = snd (decode_rune s)"

lemma rune_width_pos: "s \<noteq> [] \<Longrightarrow> 0 < rune_width s"
  by (cases s) (auto simp: rune_width_def decode2_def decode3_def decode4_def Let_def split: list.splits)

lemma rune_width_le: "rune_width s \<le> length s"
  by (cases s) (auto simp: rune_width_def decode2_def decode3_def decode4_def Let_def split: list.splits)

text \<open>The iterations of \<open>for i, r := range s\<close>: byte offset, rune, width.\<close>

function range_from :: "nat \<Rightarrow> string \<Rightarrow> (nat \<times> nat \<times> nat) list" where
  "range_from i s =
     (if s = [] then []
      else (i, decode_rune s) # range_from (i + rune_width s) (drop (rune_width s) s))"
  by pat_completeness auto
termination
  by (relation "measure (\<lambda>(i, s). length s)") (use rune_width_pos in auto)

declare range_from.simps [simp del]

definition range_runes :: "string \<Rightarrow> (nat \<times> nat \<times> nat) list" where
  "range_runes s = range_from 0 s"

definition runes :: "string \<Rightarrow> nat list" where
  "runes s = map (\<lambda>x. fst (snd x)) (range_runes s)"

definition rune_count :: "string \<Rightarrow> nat" where
  "rune_count s = length (range_runes s)"

text \<open>\<open>utf8.EncodeRune\<close>: surrogates and values out of range become RuneError.\<close>

definition byte_char :: "nat \<Rightarrow> char" where
  "byte_char n = char_of n"

definition valid_rune :: "nat \<Rightarrow> bool" where
  "valid_rune r \<longleftrightarrow> r < 55296 \<or> 57344 \<le> r \<and> r < 1114112"

definition encode_rune :: "nat \<Rightarrow> string" where
  "encode_rune r0 =
     (let r = (if valid_rune r0 then r0 else rune_error) in
      if r < 128 then [byte_char r]
      else if r < 2048 then [byte_char (192 + r div 64), byte_char (128 + r mod 64)]
      else if r < 65536 then
        [byte_char (224 + r div 4096), byte_char (128 + r div 64 mod 64), byte_char (128 + r mod 64)]
      else
        [byte_char (240 + r div 262144), byte_char (128 + r div 4096 mod 64),
         byte_char (128 + r div 64 mod 64), byte_char (128 + r mod 64)])"

lemma byte_byte_char [simp]: "n < 256 \<Longrightarrow> byte (byte_char n) = n"
  by (simp add: byte_char_def)

lemma decode_encode3:
  assumes "valid_rune r" "2048 \<le> r" "r < 65536"
  shows "decode_rune (encode_rune r @ s) = (r, length (encode_rune r))"
proof -
  define c where "c = r mod 64"
  define b where "b = r div 64 mod 64"
  define a where "a = r div 4096"
  have "r div 64 div 64 = a" by (simp add: a_def flip: div_mult2_eq)
  then have q: "r div 64 = a * 64 + b" by (metis b_def div_mult_mod_eq)
  then have dec: "r = (a * 64 + b) * 64 + c" by (metis c_def div_mult_mod_eq)
  have lt: "b < 64" "c < 64" by (simp_all add: b_def c_def)
  have a16: "a < 16" "a = 0 \<Longrightarrow> 32 \<le> b" "a = 13 \<Longrightarrow> b < 32"
    using dec lt assms by (auto simp: valid_rune_def)
  have e: "encode_rune r = [byte_char (224 + a), byte_char (128 + b), byte_char (128 + c)]"
    using assms by (simp add: encode_rune_def a_def b_def c_def)
  have s3: "second3 (224 + a) (byte_char (128 + b))" using a16 lt
    by (auto simp: second3_def byte_between_def)
  show ?thesis
    unfolding e using a16 lt s3 dec by (simp add: decode3_def byte_between_def cont_def Let_def)
qed

lemma decode_encode4:
  assumes "65536 \<le> r" "r < 1114112"
  shows "decode_rune (encode_rune r @ s) = (r, length (encode_rune r))"
proof -
  define d where "d = r mod 64"
  define c where "c = r div 64 mod 64"
  define b where "b = r div 4096 mod 64"
  define a where "a = r div 262144"
  have "r div 64 div 64 = r div 4096" "r div 4096 div 64 = a" by (simp_all add: a_def flip: div_mult2_eq)
  then have q: "r div 64 = r div 4096 * 64 + c" "r div 4096 = a * 64 + b"
    by (metis b_def c_def div_mult_mod_eq)+
  then have dec: "r = ((a * 64 + b) * 64 + c) * 64 + d" by (metis d_def div_mult_mod_eq)
  have lt: "b < 64" "c < 64" "d < 64" by (simp_all add: b_def c_def d_def)
  have a5: "a < 5" "a = 0 \<Longrightarrow> 16 \<le> b" "a = 4 \<Longrightarrow> b < 16"
    using dec lt assms by auto
  have "valid_rune r" using assms by (simp add: valid_rune_def)
  then have e: "encode_rune r = [byte_char (240 + a), byte_char (128 + b), byte_char (128 + c), byte_char (128 + d)]"
    using assms by (simp add: encode_rune_def a_def b_def c_def d_def)
  have s4: "second4 (240 + a) (byte_char (128 + b))" using a5 lt
    by (auto simp: second4_def byte_between_def)
  show ?thesis
    unfolding e using a5 lt s4 dec by (simp add: decode4_def byte_between_def cont_def Let_def)
qed

lemma decode_encode:
  assumes "valid_rune r"
  shows "decode_rune (encode_rune r @ s) = (r, length (encode_rune r))"
proof -
  consider "r < 128" | "128 \<le> r" "r < 2048" | "2048 \<le> r" "r < 65536" | "65536 \<le> r" by linarith
  then show ?thesis
  proof cases
    case 1
    then show ?thesis using assms by (simp add: encode_rune_def)
  next
    case 2
    have "r div 64 < 32" "2 \<le> r div 64" using 2 by auto
    with 2 show ?thesis
      using assms by (simp add: encode_rune_def decode2_def byte_between_def cont_def Let_def)
  next
    case 3
    then show ?thesis using decode_encode3 assms by blast
  next
    case 4
    then show ?thesis using decode_encode4 assms by (simp add: valid_rune_def)
  qed
qed

lemma encode_nonempty [simp]: "encode_rune r \<noteq> []"
  by (simp add: encode_rune_def Let_def)

definition utf8_encode :: "nat list \<Rightarrow> string" where
  "utf8_encode rs = concat (map encode_rune rs)"

lemma range_from_cons:
  "valid_rune r \<Longrightarrow> range_from i (encode_rune r @ s) =
     (i, r, length (encode_rune r)) # range_from (i + length (encode_rune r)) s"
  by (subst range_from.simps) (simp add: rune_width_def decode_encode)

lemma range_from_Nil [simp]: "range_from i [] = []"
  by (simp add: range_from.simps)

lemma runes_encode:
  assumes "\<forall>r \<in> set rs. valid_rune r"
  shows "map (\<lambda>x. fst (snd x)) (range_from i (utf8_encode rs)) = rs"
  using assms by (induction rs arbitrary: i) (simp_all add: utf8_encode_def range_from_cons)

lemma range_from_widths: "sum_list (map (\<lambda>x. snd (snd x)) (range_from i s)) = length s"
proof (induction i s rule: range_from.induct)
  case (1 i s)
  then show ?case
    using rune_width_le [of s] by (subst range_from.simps) (auto simp: rune_width_def)
qed

lemma decode_ascii: "byte c < 128 \<Longrightarrow> decode_rune (c # s) = (byte c, 1)"
  by simp

end
