(* ===== verification/Validators.thy ===== *)
theory Validators imports GoStrings begin

text \<open>
  The check-digit validators of \<open>pii/detect/validators.go\<close>: Luhn and the payment card
  networks, the Chinese resident identity number and the credit code. The lemmas show what
  the check digits are for: a single wrong character (for the weighted schemes also two
  swapped neighbours) is detected. The locale weighted_check is the shared argument.
\<close>

section \<open>Luhn and payment cards\<close>

definition luhn_digit :: "nat \<Rightarrow> nat \<Rightarrow> nat" where
  "luhn_digit pos v = (if pos mod 2 = 1 then (if v * 2 > 9 then v * 2 - 9 else v * 2) else v)"

text \<open>The loop of LuhnValid, from the last byte to the first; None is its \<open>return false\<close>.\<close>

fun luhn_loop :: "string \<Rightarrow> nat \<Rightarrow> nat \<Rightarrow> nat option" where
  "luhn_loop [] pos acc = Some acc"
| "luhn_loop (c # cs) pos acc =
     (if \<not> is_digit c then None
      else luhn_loop cs (Suc pos) (acc + luhn_digit pos (digit_val c)))"

definition LuhnValid :: "string \<Rightarrow> bool" where
  "LuhnValid digits =
     (if length digits < 2 then False
      else case luhn_loop (rev digits) 0 0 of None \<Rightarrow> False | Some acc \<Rightarrow> acc mod 10 = 0)"

definition BankCardLuhnValid :: "string \<Rightarrow> bool" where
  "BankCardLuhnValid digits =
     (if length digits < 12 \<or> length digits > 19 then False else LuhnValid digits)"

text \<open>
  A network is its name, the lengths it issues and its prefix test. A prefix test slices the
  number; None is the panic of a slice beyond the end.
\<close>

definition between2 :: "nat \<Rightarrow> string \<Rightarrow> string \<Rightarrow> string \<Rightarrow> bool option" where
  "between2 n lo hi d = map_option (\<lambda>p. str_le lo p \<and> str_le p hi) (slice_to n d)"

definition one_of :: "nat \<Rightarrow> string list \<Rightarrow> string \<Rightarrow> bool option" where
  "one_of n ps d = map_option (\<lambda>p. p \<in> set ps) (slice_to n d)"

text \<open>Go's short-circuit \<open>||\<close> and \<open>if a { return true }; return b\<close> over tests that can panic.\<close>

fun or_else :: "bool option \<Rightarrow> bool option \<Rightarrow> bool option" where
  "or_else None b = None"
| "or_else (Some True) b = Some True"
| "or_else (Some False) b = b"

record card_network =
  cn_name :: string
  cn_lengths :: "nat list"
  cn_match :: "string \<Rightarrow> bool option"

definition cardNetworks :: "card_network list" where
  "cardNetworks =
    [\<lparr>cn_name = ''Visa'', cn_lengths = [13, 16, 19],
       cn_match = (\<lambda>d. case d of [] \<Rightarrow> None | c # _ \<Rightarrow> Some (c = CHR ''4''))\<rparr>,
     \<lparr>cn_name = ''Mastercard'', cn_lengths = [16],
       cn_match = (\<lambda>d. or_else (between2 2 ''51'' ''55'' d) (between2 4 ''2221'' ''2720'' d))\<rparr>,
     \<lparr>cn_name = ''Amex'', cn_lengths = [15],
       cn_match = one_of 2 [''34'', ''37'']\<rparr>,
     \<lparr>cn_name = ''UnionPay'', cn_lengths = [16, 17, 18, 19],
       cn_match = one_of 2 [''62'']\<rparr>,
     \<lparr>cn_name = ''JCB'', cn_lengths = [16, 17, 18, 19],
       cn_match = between2 4 ''3528'' ''3589''\<rparr>,
     \<lparr>cn_name = ''Diners'', cn_lengths = [14, 16, 19],
       cn_match = (\<lambda>d. or_else (one_of 2 [''36'', ''38'', ''39''] d) (between2 3 ''300'' ''305'' d))\<rparr>,
     \<lparr>cn_name = ''Discover'', cn_lengths = [16, 19],
       cn_match = (\<lambda>d. or_else (or_else (one_of 4 [''6011''] d) (one_of 2 [''65''] d))
                               (between2 6 ''622126'' ''622925'' d))\<rparr>,
     \<lparr>cn_name = ''Maestro'', cn_lengths = [12, 13, 14, 15, 16, 17, 18, 19],
       cn_match = one_of 4 [''5018'', ''5020'', ''5038'', ''6304'', ''6759'', ''6761'', ''6762'', ''6763'']\<rparr>]"

fun network_known :: "card_network list \<Rightarrow> string \<Rightarrow> bool option" where
  "network_known [] d = Some False"
| "network_known (n # ns) d =
     (case cn_match n d of
        None \<Rightarrow> None
      | Some False \<Rightarrow> network_known ns d
      | Some True \<Rightarrow> if length d \<in> set (cn_lengths n) then Some True else network_known ns d)"

definition cardNetworkKnown :: "string \<Rightarrow> bool option" where
  "cardNetworkKnown d = network_known cardNetworks d"

fun network_name :: "card_network list \<Rightarrow> string \<Rightarrow> string option" where
  "network_name [] d = Some []"
| "network_name (n # ns) d =
     (case cn_match n d of
        None \<Rightarrow> None
      | Some False \<Rightarrow> network_name ns d
      | Some True \<Rightarrow> if length d \<in> set (cn_lengths n) then Some (cn_name n) else network_name ns d)"

definition CardNetwork :: "string \<Rightarrow> string option" where
  "CardNetwork d = network_name cardNetworks d"

definition BankCardValid :: "string \<Rightarrow> bool option" where
  "BankCardValid d =
     (if length d < 12 \<or> length d > 19 then Some False
      else if \<not> (\<forall>c \<in> set d. is_digit c) then Some False
      else case cardNetworkKnown d of
             None \<Rightarrow> None
           | Some known \<Rightarrow> if \<not> known then Some False else Some (LuhnValid d))"

section \<open>Weighted check characters\<close>

text \<open>\<open>\<Sum> f(v[i]) * w[i]\<close> over the positions that have a weight.\<close>

fun wsum :: "(char \<Rightarrow> nat) \<Rightarrow> string \<Rightarrow> nat list \<Rightarrow> nat" where
  "wsum f (c # cs) (w # ws) = f c * w + wsum f cs ws"
| "wsum f cs ws = 0"

definition idWeights :: "nat list" where
  "idWeights = [7, 9, 10, 5, 8, 4, 2, 1, 6, 3, 7, 9, 10, 5, 8, 4, 2]"

definition idCheckChars :: string where
  "idCheckChars = ''10X98765432''"

definition CNIDCardValid :: "string \<Rightarrow> bool" where
  "CNIDCardValid value =
     (let v = to_upper (trim_space value) in
      if length v \<noteq> 18 then False
      else if \<not> (\<forall>c \<in> set (take 17 v). is_digit c) then False
      else let month = digit_val (v ! 10) * 10 + digit_val (v ! 11);
               day = digit_val (v ! 12) * 10 + digit_val (v ! 13) in
           if month < 1 \<or> month > 12 \<or> day < 1 \<or> day > 31 then False
           else let acc = wsum digit_val (take 17 v) idWeights in
                v ! 17 = idCheckChars ! (acc mod 11))"

definition usccChars :: string where
  "usccChars = ''0123456789ABCDEFGHJKLMNPQRTUWXY''"

definition usccWeights :: "nat list" where
  "usccWeights = [1, 3, 9, 27, 19, 26, 16, 17, 20, 29, 25, 13, 8, 24, 10, 30, 28]"

fun uscc_sum :: "string \<Rightarrow> nat list \<Rightarrow> nat \<Rightarrow> nat option" where
  "uscc_sum (c # cs) (w # ws) acc =
     (case index_byte usccChars c of None \<Rightarrow> None | Some idx \<Rightarrow> uscc_sum cs ws (acc + idx * w))"
| "uscc_sum cs ws acc = Some acc"

definition CNUSCCValid :: "string \<Rightarrow> bool" where
  "CNUSCCValid value =
     (let v = to_upper (trim_space value) in
      if length v \<noteq> 18 then False
      else case uscc_sum (take 17 v) usccWeights 0 of
             None \<Rightarrow> False
           | Some acc \<Rightarrow>
               (if index_byte usccChars (v ! 17) = None then False
                else usccChars ! ((31 - acc mod 31) mod 31) = v ! 17))"

definition stripSeparators :: "string \<Rightarrow> string" where
  "stripSeparators s = filter (\<lambda>c. c \<noteq> CHR '' '' \<and> c \<noteq> CHR ''-'') s"

section \<open>What a weighted check character detects\<close>

text \<open>
  The contract of a weighted check: the characters have distinct values below the modulus,
  the weights and the differences of neighbouring weights are units, and distinct remainders
  have distinct check characters.
\<close>

locale weighted_check =
  fixes val :: "char \<Rightarrow> nat" and alphabet :: "char set" and ws :: "nat list"
    and p :: nat and check :: "nat \<Rightarrow> char"
  assumes val_less: "c \<in> alphabet \<Longrightarrow> val c < p"
    and val_inj: "inj_on val alphabet"
    and ws_coprime: "w \<in> set ws \<Longrightarrow> coprime (int w) (int p)"
    and ws_adjacent: "Suc i < length ws \<Longrightarrow> coprime (int (ws ! i) - int (ws ! Suc i)) (int p)"
    and check_inj: "inj_on check {..<p}"
begin

lemma wsum_update:
  "length v = length us \<Longrightarrow> i < length v \<Longrightarrow>
   int (wsum val (v[i := c]) us) = int (wsum val v us) + (int (val c) - int (val (v ! i))) * int (us ! i)"
proof (induction v us arbitrary: i rule: wsum.induct [where ?a0.0 = val])
  case (1 d cs w us)
  then show ?case by (cases i) (auto simp: algebra_simps)
qed auto

lemma diff_not_dvd:
  assumes "a \<in> alphabet" "b \<in> alphabet" "a \<noteq> b"
  shows "\<not> int p dvd int (val a) - int (val b)"
proof
  assume d: "int p dvd int (val a) - int (val b)"
  have "val a \<noteq> val b" using val_inj assms by (auto dest: inj_onD)
  moreover have "\<bar>int (val a) - int (val b)\<bar> < int p"
    using val_less [OF assms(1)] val_less [OF assms(2)] by linarith
  ultimately show False
    using d dvd_imp_le_int [of "int (val a) - int (val b)" "int p"] by auto
qed

lemma check_neq:
  assumes "0 < p" "int x = int y + d" "\<not> int p dvd d"
  shows "check (x mod p) \<noteq> check (y mod p)"
proof
  assume "check (x mod p) = check (y mod p)"
  then have "x mod p = y mod p"
    using check_inj \<open>0 < p\<close> by (auto dest!: inj_onD)
  then have "int x mod int p = int y mod int p" by (metis zmod_int)
  then have "int p dvd int x - int y" by (simp add: mod_eq_dvd_iff)
  with assms show False by simp
qed

lemma single_error:
  assumes "length v = length ws" "set v \<subseteq> alphabet" "i < length v" "c \<in> alphabet" "c \<noteq> v ! i"
  shows "check (wsum val (v[i := c]) ws mod p) \<noteq> check (wsum val v ws mod p)"
proof (rule check_neq [OF _ wsum_update])
  have "v ! i \<in> alphabet" using assms by (auto dest: nth_mem)
  then have nd: "\<not> int p dvd int (val c) - int (val (v ! i))"
    using assms by (intro diff_not_dvd) auto
  show "0 < p" using val_less [OF assms(4)] by simp
  have "coprime (int p) (int (ws ! i))"
    using ws_coprime [of "ws ! i"] assms by (simp add: coprime_commute)
  with nd show "\<not> int p dvd (int (val c) - int (val (v ! i))) * int (ws ! i)"
    by (simp add: coprime_dvd_mult_left_iff)
qed (use assms in simp_all)

lemma transposition_error:
  assumes "length v = length ws" "set v \<subseteq> alphabet" "Suc i < length v" "v ! i \<noteq> v ! Suc i"
  shows "check (wsum val (v[i := v ! Suc i, Suc i := v ! i]) ws mod p) \<noteq> check (wsum val v ws mod p)"
proof -
  let ?a = "v ! i" and ?b = "v ! Suc i"
  let ?d = "(int (val ?b) - int (val ?a)) * (int (ws ! i) - int (ws ! Suc i))"
  have al: "?a \<in> alphabet" "?b \<in> alphabet"
    using assms nth_mem [of i v] nth_mem [of "Suc i" v] by auto
  have "int (wsum val (v[i := ?b, Suc i := ?a]) ws) =
      int (wsum val (v[i := ?b]) ws) + (int (val ?a) - int (val ?b)) * int (ws ! Suc i)"
    using wsum_update [of "v[i := ?b]" ws "Suc i" ?a] assms by simp
  also have "\<dots> = int (wsum val v ws) + ?d"
    using wsum_update [of v ws i ?b] assms by (simp add: algebra_simps)
  finally have e: "int (wsum val (v[i := ?b, Suc i := ?a]) ws) = int (wsum val v ws) + ?d" .
  have "\<not> int p dvd int (val ?b) - int (val ?a)"
    using al assms(4) by (intro diff_not_dvd) auto
  moreover have "coprime (int p) (int (ws ! i) - int (ws ! Suc i))"
    using ws_adjacent [of i] assms by (simp add: coprime_commute)
  ultimately have "\<not> int p dvd ?d"
    by (simp add: coprime_dvd_mult_left_iff)
  moreover have "0 < p" using val_less [OF al(1)] by simp
  ultimately show ?thesis using check_neq [OF _ e] by blast
qed

end

section \<open>The interpretations: resident identity number and credit code\<close>

definition usccIndex :: "char \<Rightarrow> nat" where
  "usccIndex c = (case index_byte usccChars c of None \<Rightarrow> 0 | Some i \<Rightarrow> i)"

definition usccCheck :: "nat \<Rightarrow> char" where
  "usccCheck r = usccChars ! ((31 - r) mod 31)"

definition units_mod :: "int list \<Rightarrow> int \<Rightarrow> bool" where
  "units_mod us p \<longleftrightarrow> (\<forall>u \<in> set us. coprime u p) \<and>
     (\<forall>i \<in> set [0..<length us - 1]. coprime (us ! i - us ! Suc i) p)"

lemma units_mod_weight: "units_mod (map int ws) p \<Longrightarrow> w \<in> set ws \<Longrightarrow> coprime (int w) p"
  by (simp add: units_mod_def)

lemma units_mod_adjacent:
  "units_mod (map int ws) p \<Longrightarrow> Suc i < length ws \<Longrightarrow> coprime (int (ws ! i) - int (ws ! Suc i)) p"
  by (auto simp: units_mod_def dest!: bspec [of _ _ i])

lemma units_idWeights: "units_mod (map int idWeights) 11"
  by code_simp

lemma units_usccWeights: "units_mod (map int usccWeights) 31"
  by code_simp

lemmas units_facts =
  units_mod_weight [OF units_idWeights] units_mod_adjacent [OF units_idWeights]
  units_mod_weight [OF units_usccWeights] units_mod_adjacent [OF units_usccWeights]

lemma inj_on_below: "distinct (map f [0..<n]) \<Longrightarrow> inj_on f {..<n}"
  by (simp add: distinct_map lessThan_atLeast0)

lemma inj_on_digit_val: "inj_on digit_val {c. is_digit c}"
  by (auto simp: inj_on_def digit_val_inj)

interpretation cnid: weighted_check digit_val "{c. is_digit c}" idWeights 11 "\<lambda>r. idCheckChars ! r"
proof unfold_locales
  show "inj_on ((!) idCheckChars) {..<11}" by (rule inj_on_below) code_simp
qed (auto simp: inj_on_digit_val units_facts dest: digit_val_less)

lemma usccIndex_less: "c \<in> set usccChars \<Longrightarrow> usccIndex c < 31"
proof -
  have "\<forall>c \<in> set usccChars. usccIndex c < 31" by code_simp
  then show "c \<in> set usccChars \<Longrightarrow> usccIndex c < 31" by blast
qed

interpretation uscc: weighted_check usccIndex "set usccChars" usccWeights 31 usccCheck
proof unfold_locales
  have "distinct (map usccIndex usccChars)" by code_simp
  then show "inj_on usccIndex (set usccChars)" by (simp add: distinct_map)
  show "inj_on usccCheck {..<31}" by (rule inj_on_below) code_simp
qed (auto simp: usccIndex_less units_facts)

section \<open>Properties\<close>

subsection \<open>Luhn\<close>

fun luhn_total :: "nat \<Rightarrow> string \<Rightarrow> nat" where
  "luhn_total pos [] = 0"
| "luhn_total pos (c # cs) = luhn_digit pos (digit_val c) + luhn_total (Suc pos) cs"

lemma luhn_loop_total:
  "luhn_loop cs pos acc =
     (if \<forall>c \<in> set cs. is_digit c then Some (acc + luhn_total pos cs) else None)"
  by (induction cs pos acc rule: luhn_loop.induct) auto

lemma luhn_total_update:
  "i < length cs \<Longrightarrow>
   luhn_total pos (cs[i := c]) + luhn_digit (pos + i) (digit_val (cs ! i)) =
   luhn_total pos cs + luhn_digit (pos + i) (digit_val c)"
proof (induction cs arbitrary: pos i)
  case (Cons d cs)
  show ?case
  proof (cases i)
    case (Suc j)
    with Cons.IH [of j "Suc pos"] Cons.prems show ?thesis by simp
  qed simp
qed simp

lemma luhn_digit_less: "d < 10 \<Longrightarrow> luhn_digit pos d < 10"
  by (auto simp: luhn_digit_def)

lemma luhn_digit_inj:
  assumes "a < 10" "b < 10" "luhn_digit pos a = luhn_digit pos b"
  shows "a = b"
  using assms by (auto simp: luhn_digit_def split: if_splits; presburger)

lemma LuhnValid_iff:
  "LuhnValid v \<longleftrightarrow> 2 \<le> length v \<and> (\<forall>c \<in> set v. is_digit c) \<and> luhn_total 0 (rev v) mod 10 = 0"
  by (auto simp: LuhnValid_def luhn_loop_total)

text \<open>A number that passes LuhnValid fails it as soon as one of its digits is replaced by another digit.\<close>

theorem luhn_single_digit_error:
  assumes "LuhnValid v" "i < length v" "is_digit c" "c \<noteq> v ! i"
  shows "\<not> LuhnValid (v[i := c])"
proof -
  define cs where "cs = rev v"
  define j where "j = length v - Suc i"
  have j: "j < length cs" "cs ! j = v ! i" "rev (v[i := c]) = cs[j := c]"
    using assms by (auto simp: cs_def j_def rev_nth rev_update)
  have d: "is_digit (v ! i)" using assms by (auto simp: LuhnValid_iff)
  let ?a = "luhn_digit j (digit_val (v ! i))" and ?b = "luhn_digit j (digit_val c)"
  have "?a \<noteq> ?b"
    using d assms luhn_digit_inj digit_val_less digit_val_inj by metis
  moreover have "?a < 10" "?b < 10"
    using d assms(3) by (auto intro: luhn_digit_less digit_val_less)
  moreover have "luhn_total 0 (cs[j := c]) + ?a = luhn_total 0 cs + ?b"
    using luhn_total_update [of j cs 0 c] j by simp
  moreover have "luhn_total 0 cs mod 10 = 0"
    using assms(1) by (simp add: LuhnValid_iff cs_def)
  ultimately have "luhn_total 0 (cs[j := c]) mod 10 \<noteq> 0" by presburger
  then show ?thesis using j by (simp add: LuhnValid_iff)
qed

theorem luhn_single_digit_error_witness:
  "LuhnValid ''79927398713'' \<and> \<not> LuhnValid (''79927398713''[3 := CHR ''5''])"
proof -
  have v: "LuhnValid ''79927398713''" by code_simp
  have "is_digit (CHR ''5'')" by code_simp
  then show ?thesis using luhn_single_digit_error [OF v, of 3 "CHR ''5''"] v by simp
qed

subsection \<open>Payment cards\<close>

lemma slice_to_short [simp]: "n \<le> length d \<Longrightarrow> slice_to n d = Some (take n d)"
  by (simp add: slice_to_def)

lemma or_else_Some: "(\<exists>x. a = Some x) \<Longrightarrow> (\<exists>y. b = Some y) \<Longrightarrow> \<exists>z. or_else a b = Some z"
  by (cases "(a, b)" rule: or_else.cases) auto

lemma network_match_total:
  "6 \<le> length d \<Longrightarrow> n \<in> set cardNetworks \<Longrightarrow> \<exists>b. cn_match n d = Some b"
  by (cases d) (auto simp: cardNetworks_def between2_def one_of_def intro!: or_else_Some)

lemma network_known_total:
  "(\<And>n. n \<in> set ns \<Longrightarrow> \<exists>b. cn_match n d = Some b) \<Longrightarrow> \<exists>k. network_known ns d = Some k"
  by (induction ns) (fastforce split: option.splits bool.splits)+

lemma network_known_name:
  "network_known ns d = Some True \<Longrightarrow>
   \<exists>n \<in> set ns. network_name ns d = Some (cn_name n) \<and> cn_match n d = Some True \<and> length d \<in> set (cn_lengths n)"
  by (induction ns) (auto split: option.splits bool.splits if_splits)

lemma network_name_unknown: "network_known ns d = Some False \<Longrightarrow> network_name ns d = Some []"
  by (induction ns) (auto split: option.splits bool.splits if_splits)

text \<open>BankCardValid never panics on any string, although its prefix tests slice the number; it
  accepts exactly the 12 to 19 digit strings that pass Luhn and whose prefix and length belong
  to a network, and for these CardNetwork reports that network by name.\<close>

lemma BankCardValid_total:
  "\<exists>b. BankCardValid d = Some b \<and>
     (b \<longleftrightarrow> 12 \<le> length d \<and> length d \<le> 19 \<and> LuhnValid d \<and>
        (\<exists>n \<in> set cardNetworks. CardNetwork d = Some (cn_name n) \<and>
           cn_match n d = Some True \<and> length d \<in> set (cn_lengths n)))"
proof (cases "12 \<le> length d \<and> length d \<le> 19 \<and> (\<forall>c \<in> set d. is_digit c)")
  case False
  then show ?thesis by (auto simp: BankCardValid_def LuhnValid_iff)
next
  case True
  then obtain k where k: "network_known cardNetworks d = Some k"
    using network_known_total [of cardNetworks d] network_match_total [of d] by auto
  have name: "[] \<noteq> cn_name n" if "n \<in> set cardNetworks" for n
    using that by (auto simp: cardNetworks_def)
  show ?thesis
  proof (cases k)
    case True
    then show ?thesis
      using k \<open>12 \<le> length d \<and> _\<close> network_known_name [of cardNetworks d]
      by (auto simp: BankCardValid_def cardNetworkKnown_def CardNetwork_def)
  next
    case False
    then show ?thesis
      using k \<open>12 \<le> length d \<and> _\<close> network_name_unknown [of cardNetworks d] name
      by (auto simp: BankCardValid_def cardNetworkKnown_def CardNetwork_def)
  qed
qed

subsection \<open>Resident identity number and credit code\<close>

lemma CNIDCardValid_iff:
  assumes "alnum_upper v"
  shows "CNIDCardValid v \<longleftrightarrow> length v = 18 \<and> (\<forall>c \<in> set (take 17 v). is_digit c) \<and>
    (let m = digit_val (v ! 10) * 10 + digit_val (v ! 11);
         d = digit_val (v ! 12) * 10 + digit_val (v ! 13) in 1 \<le> m \<and> m \<le> 12 \<and> 1 \<le> d \<and> d \<le> 31) \<and>
    v ! 17 = idCheckChars ! (wsum digit_val (take 17 v) idWeights mod 11)"
  using alnum_upper_norm [OF assms] by (auto simp: CNIDCardValid_def Let_def not_less)

lemma length_idWeights [simp]: "length idWeights = 17"
  by (simp add: idWeights_def)

lemma length_usccWeights [simp]: "length usccWeights = 17"
  by (simp add: usccWeights_def)

text \<open>CNIDCardValid (GB 11643) detects every single wrong character of a valid number and
  every swap of two different neighbouring digits among the first seventeen.\<close>

theorem CNIDCardValid_detects:
  assumes "CNIDCardValid v" "alnum_upper v"
  shows "(\<forall>i c. i < 18 \<longrightarrow> is_digit c \<or> is_upper c \<longrightarrow> c \<noteq> v ! i \<longrightarrow> \<not> CNIDCardValid (v[i := c])) \<and>
    (\<forall>i. Suc i < 17 \<longrightarrow> v ! i \<noteq> v ! Suc i \<longrightarrow> \<not> CNIDCardValid (v[i := v ! Suc i, Suc i := v ! i]))"
proof (intro conjI allI impI)
  let ?t = "take 17 v"
  note v = assms(1) [unfolded CNIDCardValid_iff [OF assms(2)]]
  have t: "length ?t = length idWeights" "set ?t \<subseteq> {c. is_digit c}"
    using v by auto
  {
    fix i c
    assume i: "i < 18" and c: "is_digit c \<or> is_upper c" "c \<noteq> v ! i"
    have a: "alnum_upper (v[i := c])"
      using assms(2) c(1) by (rule alnum_upper_update)
    show "\<not> CNIDCardValid (v[i := c])"
    proof
      assume "CNIDCardValid (v[i := c])"
      note w = this [unfolded CNIDCardValid_iff [OF a]]
      show False
      proof (cases "i = 17")
        case True
        then show False using v w c by (simp add: take_update_cancel)
      next
        case False
        with i have i: "i < 17" by simp
        then have "take 17 (v[i := c]) = ?t[i := c]" by (simp add: take_update_swap)
        moreover have "is_digit c"
        proof -
          have "c \<in> set (take 17 (v[i := c]))"
            using i v by (auto simp: in_set_conv_nth intro!: exI [of _ i])
          then show ?thesis using w by blast
        qed
        ultimately show False
          using cnid.single_error [OF t, of i c] i c v w by simp
      qed
    qed
  }
  fix i
  assume i: "Suc i < 17" "v ! i \<noteq> v ! Suc i"
  let ?v = "v[i := v ! Suc i, Suc i := v ! i]"
  have "alnum_upper ?v"
    using assms(2) i v by (intro alnum_upper_update) (auto simp: alnum_upper_def)
  moreover have "take 17 ?v = ?t[i := ?t ! Suc i, Suc i := ?t ! i]"
    using i by (simp add: take_update_swap)
  ultimately show "\<not> CNIDCardValid ?v"
    using cnid.transposition_error [OF t, of i] i v by (simp add: CNIDCardValid_iff)
qed

theorem CNIDCardValid_detects_witness:
  "CNIDCardValid ''11010519491231002X'' \<and> \<not> CNIDCardValid ''11010519491231003X''"
proof -
  let ?v = "''11010519491231002X''"
  have v: "CNIDCardValid ?v" by code_simp
  have a: "alnum_upper ?v" by code_simp
  have c: "is_digit (CHR ''3'')" by code_simp
  have "\<not> CNIDCardValid (?v[16 := CHR ''3''])"
    by (rule CNIDCardValid_detects [OF v a, THEN conjunct1, rule_format]) (use c in simp_all)
  then show ?thesis using v by simp
qed

lemma uscc_sum_Some:
  "uscc_sum cs ws acc = Some r \<Longrightarrow> length cs = length ws \<Longrightarrow>
   set cs \<subseteq> set usccChars \<and> r = acc + wsum usccIndex cs ws"
proof (induction cs ws acc rule: uscc_sum.induct)
  case (1 c cs w ws acc)
  then obtain k where k: "index_byte usccChars c = Some k" by (auto split: option.splits)
  then have "c \<in> set usccChars" "usccIndex c = k"
    using index_byte_None [of usccChars c] by (auto simp: usccIndex_def)
  with 1 k show ?case by simp
qed auto

lemma CNUSCCValid_D:
  assumes "alnum_upper v" "CNUSCCValid v"
  shows "length v = 18 \<and> set (take 17 v) \<subseteq> set usccChars \<and>
    v ! 17 = usccCheck (wsum usccIndex (take 17 v) usccWeights mod 31)"
  using assms alnum_upper_norm [OF assms(1)] uscc_sum_Some [of "take 17 v" usccWeights 0]
  by (auto simp: CNUSCCValid_def usccCheck_def Let_def split: if_splits option.splits)

text \<open>CNUSCCValid (GB 32100) detects every single wrong character of a valid credit code and
  every swap of two different neighbours among the first seventeen characters.\<close>

theorem CNUSCCValid_detects:
  assumes "CNUSCCValid v" "alnum_upper v"
  shows "(\<forall>i c. i < 18 \<longrightarrow> is_digit c \<or> is_upper c \<longrightarrow> c \<noteq> v ! i \<longrightarrow> \<not> CNUSCCValid (v[i := c])) \<and>
    (\<forall>i. Suc i < 17 \<longrightarrow> v ! i \<noteq> v ! Suc i \<longrightarrow> \<not> CNUSCCValid (v[i := v ! Suc i, Suc i := v ! i]))"
proof (intro conjI allI impI)
  let ?t = "take 17 v"
  note v = CNUSCCValid_D [OF assms(2,1)]
  have t: "length ?t = length usccWeights" "set ?t \<subseteq> set usccChars"
    using v by auto
  {
    fix i c
    assume i: "i < 18" and c: "is_digit c \<or> is_upper c" "c \<noteq> v ! i"
    show "\<not> CNUSCCValid (v[i := c])"
    proof
      assume "CNUSCCValid (v[i := c])"
      note w = CNUSCCValid_D [OF alnum_upper_update [OF assms(2) c(1)] this]
      show False
      proof (cases "i = 17")
        case True
        then show False using v w c by (simp add: take_update_cancel)
      next
        case False
        with i have i: "i < 17" by simp
        then have u: "take 17 (v[i := c]) = ?t[i := c]" by (simp add: take_update_swap)
        have "c \<in> set (take 17 (v[i := c]))"
          using i v by (auto simp: in_set_conv_nth intro!: exI [of _ i])
        then have "c \<in> set usccChars" using w by blast
        with u show False
          using uscc.single_error [OF t, of i c] i c v w by simp
      qed
    qed
  }
  fix i
  assume i: "Suc i < 17" "v ! i \<noteq> v ! Suc i"
  let ?v = "v[i := v ! Suc i, Suc i := v ! i]"
  have a: "alnum_upper ?v"
    using assms(2) i v by (intro alnum_upper_update) (auto simp: alnum_upper_def)
  moreover have "take 17 ?v = ?t[i := ?t ! Suc i, Suc i := ?t ! i]"
    using i by (simp add: take_update_swap)
  ultimately show "\<not> CNUSCCValid ?v"
    using uscc.transposition_error [OF t, of i] i v CNUSCCValid_D [OF a] by auto
qed

theorem CNUSCCValid_detects_witness:
  "CNUSCCValid ''91110108MA01ABCD71'' \<and> \<not> CNUSCCValid ''91110108MA01ABCD91''"
proof -
  let ?v = "''91110108MA01ABCD71''"
  have v: "CNUSCCValid ?v" by code_simp
  have a: "alnum_upper ?v" by code_simp
  have c: "is_digit (CHR ''9'')" by code_simp
  have "\<not> CNUSCCValid (?v[16 := CHR ''9''])"
    by (rule CNUSCCValid_detects [OF v a, THEN conjunct1, rule_format]) (use c in simp_all)
  then show ?thesis using v by simp
qed

end
