(* ===== verification/ValidatorsEU.thy ===== *)
theory ValidatorsEU imports Validators begin

text \<open>
  The European validators of \<open>pii/detect/validators_eu.go\<close>: IBAN, Codice Fiscale,
  Steuer-ID and DNI, with the error classes their check characters detect.
\<close>

section \<open>IBAN\<close>

definition ibanLengths :: "(string \<times> nat) list" where
  "ibanLengths =
    [(''AD'', 24), (''AE'', 23), (''AL'', 28), (''AT'', 20), (''AZ'', 28), (''BA'', 20), (''BE'', 16),
     (''BG'', 22), (''BH'', 22), (''BR'', 29), (''BY'', 28), (''CH'', 21), (''CR'', 22), (''CY'', 28),
     (''CZ'', 24), (''DE'', 22), (''DK'', 18), (''DO'', 28), (''EE'', 20), (''EG'', 29), (''ES'', 24),
     (''FI'', 18), (''FO'', 18), (''FR'', 27), (''GB'', 22), (''GE'', 22), (''GI'', 23), (''GL'', 18),
     (''GR'', 27), (''GT'', 28), (''HR'', 21), (''HU'', 28), (''IE'', 22), (''IL'', 23), (''IQ'', 23),
     (''IS'', 26), (''IT'', 27), (''JO'', 30), (''KW'', 30), (''KZ'', 20), (''LB'', 28), (''LC'', 32),
     (''LI'', 21), (''LT'', 20), (''LU'', 20), (''LV'', 21), (''LY'', 25), (''MC'', 27), (''MD'', 24),
     (''ME'', 22), (''MK'', 19), (''MR'', 27), (''MT'', 31), (''MU'', 30), (''NL'', 18), (''NO'', 15),
     (''PK'', 24), (''PL'', 28), (''PS'', 29), (''PT'', 25), (''QA'', 29), (''RO'', 24), (''RS'', 22),
     (''SA'', 24), (''SC'', 31), (''SE'', 24), (''SI'', 19), (''SK'', 24), (''SM'', 27), (''ST'', 25),
     (''SV'', 28), (''TL'', 23), (''TN'', 24), (''TR'', 26), (''UA'', 29), (''VA'', 22), (''VG'', 24),
     (''XK'', 20)]"

fun iban_loop :: "string \<Rightarrow> nat \<Rightarrow> nat option" where
  "iban_loop [] remainder = Some remainder"
| "iban_loop (c # cs) remainder =
     (if is_digit c then iban_loop cs ((remainder * 10 + digit_val c) mod 97)
      else if is_upper c then iban_loop cs ((remainder * 100 + (upper_val c + 10)) mod 97)
      else None)"

definition IBANValid :: "string \<Rightarrow> bool" where
  "IBANValid value =
     (let v = to_upper (remove_bytes '' -'' (trim_space value)) in
      if length v < 15 \<or> length v > 34 then False
      else case map_of ibanLengths (take 2 v) of
             None \<Rightarrow> False
           | Some want \<Rightarrow>
               if length v \<noteq> want then False
               else if \<not> (is_upper (v ! 0) \<and> is_digit (v ! 2) \<and> is_upper (v ! 1) \<and> is_digit (v ! 3))
               then False
               else case iban_loop (drop 4 v @ take 4 v) 0 of
                      None \<Rightarrow> False
                    | Some remainder \<Rightarrow> remainder = 1)"

section \<open>Italy, Germany, Spain\<close>

definition cfOddValues :: "(char \<times> nat) list" where
  "cfOddValues =
     zip ''0123456789'' [1, 0, 5, 7, 9, 13, 15, 17, 19, 21] @
     zip ''ABCDEFGHIJ'' [1, 0, 5, 7, 9, 13, 15, 17, 19, 21] @
     zip ''KLMNOPQRST'' [2, 4, 18, 20, 11, 3, 6, 8, 12, 14] @
     zip ''UVWXYZ'' [16, 10, 22, 25, 24, 23]"

definition cfEvenValue :: "char \<Rightarrow> nat option" where
  "cfEvenValue c =
     (if is_digit c then Some (digit_val c) else if is_upper c then Some (upper_val c) else None)"

text \<open>The loop over the first fifteen characters; \<open>i\<close> counts from 0, so even indices are odd positions.\<close>

fun cf_sum :: "string \<Rightarrow> nat \<Rightarrow> nat \<Rightarrow> nat option" where
  "cf_sum [] i acc = Some acc"
| "cf_sum (c # cs) i acc =
     (case (if i mod 2 = 0 then map_of cfOddValues c else cfEvenValue c) of
        None \<Rightarrow> None
      | Some w \<Rightarrow> cf_sum cs (Suc i) (acc + w))"

definition ItalyCodiceFiscaleValid :: "string \<Rightarrow> bool" where
  "ItalyCodiceFiscaleValid value =
     (let v = to_upper (trim_space value) in
      if length v \<noteq> 16 then False
      else if \<not> (\<forall>c \<in> set v. is_digit c \<or> is_upper c) then False
      else case cf_sum (take 15 v) 0 0 of
             None \<Rightarrow> False
           | Some acc \<Rightarrow> v ! 15 = upper_char (acc mod 26))"

fun run3 :: "char \<Rightarrow> string \<Rightarrow> bool" where
  "run3 t (a # b # c # s) = ((a = t \<and> b = t \<and> c = t) \<or> run3 t (b # c # s))"
| "run3 t s = False"

text \<open>The loop over \<open>counts\<close>, digit by digit; False is its \<open>return false\<close>.\<close>

fun german_scan :: "string \<Rightarrow> nat list \<Rightarrow> nat \<Rightarrow> nat \<Rightarrow> bool" where
  "german_scan s [] repeated triples = (repeated = 1 \<and> triples \<le> 1)"
| "german_scan s (d # ds) repeated triples =
     (let n = count_list s (digit_char d) in
      if n = 2 then german_scan s ds (repeated + 1) triples
      else if n = 3 then
        (if run3 (digit_char d) s then False else german_scan s ds (repeated + 1) (triples + 1))
      else if n > 3 then False
      else german_scan s ds repeated triples)"

definition germanTaxIDStructureValid :: "string \<Rightarrow> bool" where
  "germanTaxIDStructureValid first10 = german_scan first10 [0, 1, 2, 3, 4, 5, 6, 7, 8, 9] 0 0"

definition german_step :: "nat \<Rightarrow> nat \<Rightarrow> nat" where
  "german_step product d =
     (let s = (d + product) mod 10; s' = (if s = 0 then 10 else s) in (2 * s') mod 11)"

fun german_product :: "string \<Rightarrow> nat \<Rightarrow> nat" where
  "german_product [] product = product"
| "german_product (c # cs) product = german_product cs (german_step product (digit_val c))"

definition germanTaxIDCheckDigit :: "string \<Rightarrow> char" where
  "germanTaxIDCheckDigit first10 =
     (let check = 11 - german_product first10 10 in
      digit_char (if check = 10 then 0 else check))"

definition GermanyTaxIDValid :: "string \<Rightarrow> bool" where
  "GermanyTaxIDValid value =
     (let v = remove_bytes '' /-'' (trim_space value) in
      if length v \<noteq> 11 then False
      else if \<not> (\<forall>c \<in> set v. is_digit c) then False
      else if v ! 0 = CHR ''0'' then False
      else if \<not> germanTaxIDStructureValid (take 10 v) then False
      else v ! 10 = germanTaxIDCheckDigit (take 10 v))"

definition dniLetters :: string where
  "dniLetters = ''TRWAGMYFPDXBNJZSQVHLCKE''"

fun dni_number :: "string \<Rightarrow> nat \<Rightarrow> nat option" where
  "dni_number [] n = Some n"
| "dni_number (c # cs) n = (if is_digit c then dni_number cs (n * 10 + digit_val c) else None)"

definition SpainDNIValid :: "string \<Rightarrow> bool" where
  "SpainDNIValid value =
     (let v = to_upper (remove_bytes '' -'' (trim_space value)) in
      if length v \<noteq> 9 then False
      else let rest = take 7 (drop 1 v);
               digits = (if v ! 0 = CHR ''X'' then CHR ''0'' # rest
                         else if v ! 0 = CHR ''Y'' then CHR ''1'' # rest
                         else if v ! 0 = CHR ''Z'' then CHR ''2'' # rest
                         else take 8 v) in
           case dni_number digits 0 of
             None \<Rightarrow> False
           | Some n \<Rightarrow>
               (if \<not> is_upper (v ! 8) then False else v ! 8 = dniLetters ! (n mod 23)))"

definition dniWeights :: "nat list" where
  "dniWeights = [10000000, 1000000, 100000, 10000, 1000, 100, 10, 1]"

lemma units_dniWeights: "units_mod (map int dniWeights) 23"
proof -
  have "map int dniWeights = [10000000, 1000000, 100000, 10000, 1000, 100, 10, 1]"
    by (simp add: dniWeights_def)
  moreover have "units_mod [10000000, 1000000, 100000, 10000, 1000, 100, 10, 1] 23"
    by code_simp
  ultimately show ?thesis by simp
qed

interpretation dni: weighted_check digit_val "{c. is_digit c}" dniWeights 23 "\<lambda>r. dniLetters ! r"
proof unfold_locales
  show "inj_on ((!) dniLetters) {..<23}" by (rule inj_on_below) code_simp
qed (auto simp: inj_on_digit_val units_mod_weight [OF units_dniWeights] units_mod_adjacent [OF units_dniWeights] dest: digit_val_less)

subsection \<open>IBAN\<close>

text \<open>The number that an IBAN's characters spell, a letter as two digits.\<close>

fun iban_digits :: "string \<Rightarrow> string" where
  "iban_digits [] = []"
| "iban_digits (c # cs) =
     (if is_digit c then [c] else itoa (upper_val c + 10)) @ iban_digits cs"

lemma dec_val_acc: "dec_val acc s = acc * 10 ^ length s + dec_val 0 s"
proof (induction s arbitrary: acc)
  case (Cons c s)
  from Cons [of "acc * 10 + digit_val c"] Cons [of "digit_val c"] show ?case
    by (simp add: algebra_simps)
qed simp

lemma itoa_two_digits: "10 \<le> n \<Longrightarrow> n < 100 \<Longrightarrow> itoa n = [digit_char (n div 10), digit_char (n mod 10)]"
  by (subst itoa.simps, subst itoa.simps) simp

lemma dec_val_letter: "n < 26 \<Longrightarrow> dec_val acc (itoa (n + 10)) = acc * 100 + (n + 10)"
proof -
  assume n: "n < 26"
  have "itoa (n + 10) = [digit_char ((n + 10) div 10), digit_char ((n + 10) mod 10)]"
    by (rule itoa_two_digits) (use n in simp_all)
  moreover have "(n + 10) div 10 < 10" using n by simp
  ultimately have "dec_val acc (itoa (n + 10)) = (acc * 10 + (n + 10) div 10) * 10 + (n + 10) mod 10"
    by (simp del: div_add_self2 mod_add_self2)
  also have "\<dots> = acc * 100 + (10 * ((n + 10) div 10) + (n + 10) mod 10)"
    by (simp only: algebra_simps)
  finally show ?thesis by (simp only: mult_div_mod_eq)
qed

lemma iban_loop_number:
  "alnum_upper s \<Longrightarrow> iban_loop s acc = Some (if s = [] then acc else dec_val acc (iban_digits s) mod 97)"
proof (induction s arbitrary: acc)
  case (Cons c cs)
  have al: "alnum_upper cs" and c: "is_digit c \<or> is_upper c"
    using Cons.prems by (auto simp: alnum_upper_def)
  define acc' where "acc' = (if is_digit c then acc * 10 + digit_val c else acc * 100 + (upper_val c + 10))"
  have step: "iban_loop (c # cs) acc = iban_loop cs (acc' mod 97)"
    using c by (auto simp: acc'_def)
  have d: "dec_val acc (iban_digits (c # cs)) = dec_val acc' (iban_digits cs)"
    using c by (auto simp: acc'_def dec_val_append dec_val_letter upper_val_less)
  have "dec_val (acc' mod 97) t mod 97 = dec_val acc' t mod 97" for t
    by (subst (1 2) dec_val_acc) (metis mod_add_left_eq mod_mult_left_eq)
  then show ?case
    using Cons.IH [OF al, of "acc' mod 97"] step d by (cases cs) auto
qed simp



subsection \<open>German tax number\<close>

definition german_scaled :: "nat \<Rightarrow> nat" where
  "german_scaled s = (2 * (if s = 0 then 10 else s)) mod 11"

lemma german_step_scaled: "german_step product d = german_scaled ((d + product) mod 10)"
  by (simp add: german_step_def german_scaled_def Let_def)

lemma german_scaled_range: "s < 10 \<Longrightarrow> german_scaled s \<in> {1..10}"
proof -
  have "\<forall>s \<in> set [0..<10]. 1 \<le> german_scaled s \<and> german_scaled s \<le> 10" by code_simp
  then show "s < 10 \<Longrightarrow> german_scaled s \<in> {1..10}" by simp
qed

lemma german_scaled_inj: "inj_on german_scaled {..<10}"
  by (rule inj_on_below) code_simp

lemma german_step_range: "german_step product d \<in> {1..10}"
  unfolding german_step_scaled by (rule german_scaled_range) simp

lemma german_step_inj:
  assumes "german_step p a = german_step q b"
  shows "(a + p) mod 10 = (b + q) mod 10"
  using assms inj_onD [OF german_scaled_inj, of "(a + p) mod 10" "(b + q) mod 10"]
  by (simp add: german_step_scaled)

lemma add_mod_cancel: "(a + p) mod m = (b + p) mod m \<Longrightarrow> a mod m = b mod (m :: nat)"
  by (auto simp: nat_mod_eq_iff algebra_simps)

lemma german_step_inj_digit: "a < 10 \<Longrightarrow> b < 10 \<Longrightarrow> german_step p a = german_step p b \<Longrightarrow> a = b"
  using add_mod_cancel [of a p 10 b] german_step_inj [of p a p b] by simp

lemma german_step_inj_product:
  assumes "p \<in> {1..10}" "q \<in> {1..10}" "german_step p a = german_step q a"
  shows "p = q"
proof -
  have "(p + a) mod 10 = (q + a) mod 10"
    using german_step_inj [OF assms(3)] by (simp add: add.commute)
  then have m: "p mod 10 = q mod 10" by (rule add_mod_cancel)
  have r: "x mod 10 = (if x = 10 then 0 else x)" if "x \<in> {1..10}" for x :: nat
    using that by auto
  show ?thesis
    using m assms(1,2) unfolding r [OF assms(1)] r [OF assms(2)] by (auto split: if_splits)
qed

lemma german_product_range: "p \<in> {1..10} \<Longrightarrow> german_product s p \<in> {1..10}"
proof (induction s arbitrary: p)
  case (Cons c s)
  show ?case unfolding german_product.simps by (rule Cons.IH [OF german_step_range])
qed simp

lemma german_product_inj:
  "p \<in> {1..10} \<Longrightarrow> q \<in> {1..10} \<Longrightarrow> german_product s p = german_product s q \<Longrightarrow> p = q"
proof (induction s arbitrary: p q)
  case (Cons c s)
  then have "german_step p (digit_val c) = german_step q (digit_val c)"
    using Cons.IH [OF german_step_range german_step_range] by simp
  with Cons.prems(1,2) show ?case by (rule german_step_inj_product)
qed simp

lemma german_product_update:
  assumes "p \<in> {1..10}" "i < length s" "is_digit (s ! i)" "is_digit c" "c \<noteq> s ! i"
  shows "german_product (s[i := c]) p \<noteq> german_product s p"
  using assms
proof (induction s arbitrary: p i)
  case (Cons d s)
  show ?case
  proof (cases i)
    case 0
    with Cons.prems have "german_step p (digit_val c) \<noteq> german_step p (digit_val d)"
      using german_step_inj_digit digit_val_inj digit_val_less by (metis nth_Cons_0)
    with 0 show ?thesis
      using german_product_inj [OF german_step_range german_step_range] by auto
  next
    case (Suc j)
    with Cons.prems Cons.IH [OF german_step_range, of j p "digit_val d"] show ?thesis by simp
  qed
qed simp

definition german_check_value :: "nat \<Rightarrow> nat" where
  "german_check_value p = (if 11 - p = 10 then 0 else 11 - p)"

lemma german_check_value_less: "p \<in> {1..10} \<Longrightarrow> german_check_value p < 10"
  by (auto simp: german_check_value_def)

lemma german_check_value_inj:
  "p \<in> {1..10} \<Longrightarrow> q \<in> {1..10} \<Longrightarrow> german_check_value p = german_check_value q \<Longrightarrow> p = q"
  by (auto simp: german_check_value_def split: if_splits)

lemma germanTaxIDCheckDigit_alt:
  "germanTaxIDCheckDigit s = digit_char (german_check_value (german_product s 10))"
  by (simp add: germanTaxIDCheckDigit_def german_check_value_def Let_def)

lemma german_product_10: "german_product s 10 \<in> {1..10}"
  by (rule german_product_range) simp

lemma germanTaxIDCheckDigit_inj:
  assumes "germanTaxIDCheckDigit s = germanTaxIDCheckDigit t"
  shows "german_product s 10 = german_product t 10"
proof (rule german_check_value_inj [OF german_product_10 german_product_10])
  show "german_check_value (german_product s 10) = german_check_value (german_product t 10)"
    using arg_cong [OF assms, of digit_val]
    unfolding germanTaxIDCheckDigit_alt
    by (simp only: digit_val_digit_char german_check_value_less [OF german_product_10])
qed

text \<open>The structural rule as the standard states it.\<close>

definition german_structure :: "string \<Rightarrow> bool" where
  "german_structure s \<longleftrightarrow>
     (\<exists>!d. d < 10 \<and> 2 \<le> count_list s (digit_char d)) \<and>
     (\<forall>d < 10. count_list s (digit_char d) \<le> 3) \<and>
     (\<forall>d < 10. count_list s (digit_char d) = 3 \<longrightarrow> \<not> run3 (digit_char d) s)"

definition german_repeats :: "string \<Rightarrow> nat list \<Rightarrow> nat list" where
  "german_repeats s ds = filter (\<lambda>d. 2 \<le> count_list s (digit_char d)) ds"

lemma german_scan_iff:
  "german_scan s ds r t \<longleftrightarrow>
     (\<forall>d \<in> set ds. count_list s (digit_char d) \<le> 3 \<and>
        (count_list s (digit_char d) = 3 \<longrightarrow> \<not> run3 (digit_char d) s)) \<and>
     r + length (german_repeats s ds) = 1 \<and>
     t + length (filter (\<lambda>d. count_list s (digit_char d) = 3) ds) \<le> 1"
  by (induction s ds r t rule: german_scan.induct)
    (auto simp: german_repeats_def Let_def split: if_splits)

lemma length_filter_one:
  assumes "distinct xs"
  shows "length (filter P xs) = 1 \<longleftrightarrow> (\<exists>!x. x \<in> set xs \<and> P x)"
proof -
  have "length (filter P xs) = card {x \<in> set xs. P x}"
    using assms by (metis distinct_card distinct_filter set_filter)
  moreover have "card {x \<in> set xs. P x} = 1 \<longleftrightarrow> (\<exists>x. {x \<in> set xs. P x} = {x})"
    by (rule card_1_singleton_iff [simplified One_nat_def [symmetric]])
  moreover have "(\<exists>x. {x \<in> set xs. P x} = {x}) \<longleftrightarrow> (\<exists>!x. x \<in> set xs \<and> P x)"
    by (auto simp: set_eq_iff) metis
  ultimately show ?thesis by simp
qed

lemma digits10: "set [0, 1, 2, 3, 4, 5, 6, 7, 8, 9 :: nat] = {d. d < 10}"
proof -
  have "[0, 1, 2, 3, 4, 5, 6, 7, 8, 9 :: nat] = [0..<10]" by code_simp
  then show ?thesis by auto
qed

lemma filter_le_filter: "(\<And>x. P x \<Longrightarrow> Q x) \<Longrightarrow> length (filter P xs) \<le> length (filter Q xs)"
  by (induction xs) (auto intro: le_SucI)

lemma german_structure_iff: "germanTaxIDStructureValid s \<longleftrightarrow> german_structure s"
proof -
  let ?ds = "[0, 1, 2, 3, 4, 5, 6, 7, 8, 9 :: nat]"
  let ?n = "length (german_repeats s ?ds)"
  let ?t = "length (filter (\<lambda>d. count_list s (digit_char d) = 3) ?ds)"
  have le: "?t \<le> ?n"
    unfolding german_repeats_def by (rule filter_le_filter) simp
  have one: "?n = 1 \<longleftrightarrow> (\<exists>!d. d \<in> set ?ds \<and> 2 \<le> count_list s (digit_char d))"
    unfolding german_repeats_def by (rule length_filter_one) code_simp
  have "0 + ?n = 1 \<and> 0 + ?t \<le> 1 \<longleftrightarrow> ?n = 1" using le by linarith
  then have "germanTaxIDStructureValid s \<longleftrightarrow> (\<forall>d \<in> set ?ds. count_list s (digit_char d) \<le> 3 \<and>
      (count_list s (digit_char d) = 3 \<longrightarrow> \<not> run3 (digit_char d) s)) \<and>
      (\<exists>!d. d \<in> set ?ds \<and> 2 \<le> count_list s (digit_char d))"
    unfolding germanTaxIDStructureValid_def german_scan_iff one by (simp only: one)
  then show ?thesis
    unfolding digits10 german_structure_def mem_Collect_eq ball_conj_distrib Ball_def by blast
qed

lemma GermanyTaxIDValid_iff:
  assumes "\<forall>d \<in> set v. is_digit d"
  shows "GermanyTaxIDValid v \<longleftrightarrow> length v = 11 \<and> v ! 0 \<noteq> CHR ''0'' \<and>
    germanTaxIDStructureValid (take 10 v) \<and> v ! 10 = germanTaxIDCheckDigit (take 10 v)"
proof -
  have "alnum_upper v" using assms by (simp add: alnum_upper_def)
  moreover have "remove_bytes '' /-'' v = v"
    using assms by (auto simp: remove_bytes_def is_digit_def in_range_def byte_def intro!: filter_True)
  ultimately show ?thesis
    using assms alnum_upper_norm [of v] by (simp add: GermanyTaxIDValid_def)
qed

text \<open>germanTaxIDStructureValid is the rule of the standard (exactly one digit occurs two or
  three times, the others at most once, and three equal digits are not in a row), and
  GermanyTaxIDValid detects every single wrong digit: no two valid numbers differ in one place.\<close>

theorem GermanyTaxID_correct:
  assumes "GermanyTaxIDValid v" "\<forall>d \<in> set v. is_digit d" "i < 11" "is_digit c" "c \<noteq> v ! i"
  shows "german_structure (take 10 v) \<and> \<not> GermanyTaxIDValid (v[i := c])"
proof -
  note v = assms(1) [unfolded GermanyTaxIDValid_iff [OF assms(2)]]
  have dw: "\<forall>d \<in> set (v[i := c]). is_digit d"
    using assms(2,4) set_update_subset_insert [of v i c] by blast
  have "\<not> GermanyTaxIDValid (v[i := c])"
  proof
    assume "GermanyTaxIDValid (v[i := c])"
    note w = this [unfolded GermanyTaxIDValid_iff [OF dw]]
    show False
    proof (cases "i = 10")
      case True
      with v w assms(5) show False by (simp add: take_update_cancel)
    next
      case False
      with assms(3) have i: "i < 10" by simp
      then have t: "take 10 (v[i := c]) = (take 10 v)[i := c]" by (simp add: take_update_swap)
      have "is_digit (v ! i)" using assms(2) v i by simp
      then have "german_product ((take 10 v)[i := c]) 10 \<noteq> german_product (take 10 v) 10"
        using i v assms(4,5) by (intro german_product_update) simp_all
      moreover have "germanTaxIDCheckDigit (take 10 (v[i := c])) = germanTaxIDCheckDigit (take 10 v)"
        using v w i by simp
      ultimately show False
        using t germanTaxIDCheckDigit_inj by metis
    qed
  qed
  with v show ?thesis by (simp add: german_structure_iff)
qed

theorem GermanyTaxID_correct_witness:
  "GermanyTaxIDValid ''86095742719'' \<and> german_structure (take 10 ''86095742719'') \<and>
   \<not> GermanyTaxIDValid (''86095742719''[3 := CHR ''8''])"
proof -
  have v: "GermanyTaxIDValid ''86095742719''" by code_simp
  have "\<forall>d \<in> set ''86095742719''. is_digit d" "is_digit (CHR ''8'')" by code_simp+
  then show ?thesis
    using v GermanyTaxID_correct [OF v, of 3 "CHR ''8''"] by simp
qed

subsection \<open>Spanish identity number\<close>

lemma dni_number_dec:
  "dni_number s n = (if \<forall>c \<in> set s. is_digit c then Some (dec_val n s) else None)"
  by (induction s n rule: dni_number.induct) auto

lemma dec_val_powers: "dec_val 0 s = wsum digit_val s (map (\<lambda>k. 10 ^ k) (rev [0..<length s]))"
proof (induction s)
  case (Cons c s)
  then show ?case using dec_val_acc [of "digit_val c" s] by simp
qed simp

lemma dec_val_wsum: "length s = 8 \<Longrightarrow> dec_val 0 s = wsum digit_val s dniWeights"
  by (simp add: dec_val_powers dniWeights_def upt_rec)

lemma SpainDNIValid_national:
  assumes "alnum_upper v" "length v = 9" "\<forall>c \<in> set (take 8 v). is_digit c"
  shows "SpainDNIValid v \<longleftrightarrow> v ! 8 = dniLetters ! (wsum digit_val (take 8 v) dniWeights mod 23)"
proof -
  have r: "remove_bytes '' -'' v = v"
    using assms(1)
    by (auto simp: remove_bytes_def alnum_upper_def is_digit_def is_upper_def in_range_def byte_def
        intro!: filter_True)
  have "v ! 0 \<in> set (take 8 v)"
    using assms(2) by (auto simp: in_set_conv_nth intro!: exI [of _ 0])
  then have d: "is_digit (v ! 0)" using assms(3) by blast
  have nz: "v ! 0 \<noteq> CHR ''X''" "v ! 0 \<noteq> CHR ''Y''" "v ! 0 \<noteq> CHR ''Z''"
    using d by (auto simp: is_digit_def in_range_def byte_def)
  have up: "\<forall>k < 23. is_upper (dniLetters ! k)"
  proof -
    have "\<forall>k \<in> set [0..<23]. is_upper (dniLetters ! k)" by code_simp
    then show ?thesis by simp
  qed
  have w: "dec_val 0 (take 8 v) = wsum digit_val (take 8 v) dniWeights"
    using assms(2) by (intro dec_val_wsum) simp
  show ?thesis
    using assms(2,3) alnum_upper_norm [OF assms(1)] r nz up w
    by (auto simp: SpainDNIValid_def dni_number_dec)
qed

text \<open>SpainDNIValid detects every single wrong digit and every swap of two different
  neighbouring digits in a valid national number of eight digits and a letter.\<close>

theorem SpainDNIValid_detects:
  assumes "SpainDNIValid v" "alnum_upper v" "length v = 9" "\<forall>c \<in> set (take 8 v). is_digit c"
  shows "(\<forall>i c. i < 8 \<longrightarrow> is_digit c \<longrightarrow> c \<noteq> v ! i \<longrightarrow> \<not> SpainDNIValid (v[i := c])) \<and>
    (\<forall>i. Suc i < 8 \<longrightarrow> v ! i \<noteq> v ! Suc i \<longrightarrow> \<not> SpainDNIValid (v[i := v ! Suc i, Suc i := v ! i]))"
proof (intro conjI allI impI)
  let ?t = "take 8 v"
  have t: "length ?t = length dniWeights" "set ?t \<subseteq> {c. is_digit c}"
    using assms(3,4) by (auto simp: dniWeights_def)
  note v = assms(1) [unfolded SpainDNIValid_national [OF assms(2,3,4)]]
  {
    fix i c
    assume i: "i < 8" and c: "is_digit c" "c \<noteq> v ! i"
    have a: "alnum_upper (v[i := c])"
      using assms(2) by (rule alnum_upper_update) (use c in simp)
    have e: "take 8 (v[i := c]) = ?t[i := c]" using i by (simp add: take_update_swap)
    have d: "\<forall>x \<in> set (take 8 (v[i := c])). is_digit x"
      unfolding e using assms(4) c set_update_subset_insert [of ?t i c] by blast
    show "\<not> SpainDNIValid (v[i := c])"
      using SpainDNIValid_national [OF a _ d] e dni.single_error [OF t, of i c] i c v assms(3) by simp
  }
  fix i
  assume i: "Suc i < 8" "v ! i \<noteq> v ! Suc i"
  let ?v = "v[i := v ! Suc i, Suc i := v ! i]"
  have a: "alnum_upper ?v"
    using assms(2,3) i by (intro alnum_upper_update) (auto simp: alnum_upper_def)
  have e: "take 8 ?v = ?t[i := ?t ! Suc i, Suc i := ?t ! i]"
    using i by (simp add: take_update_swap)
  have m: "?t ! i \<in> set ?t" "?t ! Suc i \<in> set ?t" using i assms(3) by (auto simp del: nth_take)
  have d: "\<forall>x \<in> set (take 8 ?v). is_digit x"
    unfolding e using assms(4) m
    by (blast dest: set_update_subset_insert [THEN subsetD])
  show "\<not> SpainDNIValid ?v"
    using SpainDNIValid_national [OF a _ d] e dni.transposition_error [OF t, of i] i v assms(3) by simp
qed

theorem SpainDNIValid_detects_witness:
  "SpainDNIValid ''12345678Z'' \<and> \<not> SpainDNIValid ''12345677Z''"
proof -
  let ?v = "''12345678Z''"
  have a: "alnum_upper ?v" by code_simp
  have d: "\<forall>c \<in> set (take 8 ?v). is_digit c" by code_simp
  have c: "is_digit (CHR ''7'')" by code_simp
  have v: "SpainDNIValid ?v"
    by (subst SpainDNIValid_national [OF a _ d])
      (simp_all add: dniWeights_def dniLetters_def digit_val_def byte_def)
  have "\<not> SpainDNIValid (?v[7 := CHR ''7''])"
    by (rule SpainDNIValid_detects [OF v a _ d, THEN conjunct1, rule_format]) (use c in simp_all)
  then show ?thesis using v by simp
qed

end
