(* ===== verification/Detector.thy ===== *)
theory Detector imports GoStrings "HOL-Library.Product_Lexorder" "HOL-Library.List_Lexorder" begin

text \<open>
  Detected entities and their overlap resolution (\<open>pii/detect/detector.go\<close>), the composite
  detector, and the registry of recognizers (\<open>pii/detect/registry.go\<close>). A detector is a
  record of functions; a recognizer's pattern engine is a parameter. The lemmas show that
  the component-wise resolution is the global longest-wins greedy, that its result is
  sorted, disjoint and dominates every rejected candidate, and that it is idempotent.
\<close>

section \<open>Entities\<close>

record entity =
  e_type :: string
  e_value :: string
  e_start :: int
  e_end :: int
  e_conf :: rat
  e_det :: string

definition elen :: "entity \<Rightarrow> int" where
  "elen e = e_end e - e_start e"

definition overlaps :: "entity \<Rightarrow> entity \<Rightarrow> bool" where
  "overlaps e other \<longleftrightarrow> e_start e < e_end other \<and> e_start other < e_end e"

definition substr :: "string \<Rightarrow> int \<Rightarrow> int \<Rightarrow> string" where
  "substr t a b = take (nat b - nat a) (drop (nat a) t)"

definition nonempty_span :: "entity \<Rightarrow> bool" where
  "nonempty_span e \<longleftrightarrow> e_start e < e_end e"

definition span_ok :: "string \<Rightarrow> entity \<Rightarrow> bool" where
  "span_ok t e \<longleftrightarrow> 0 \<le> e_start e \<and> e_start e < e_end e \<and> e_end e \<le> int (length t) \<and>
     e_value e = substr t (e_start e) (e_end e)"

datatype boundary_class = BoundaryNone | BoundaryDigit | BoundaryDigitSep | BoundaryAlnum

fun boundary_forbidden :: "boundary_class \<Rightarrow> char \<Rightarrow> bool" where
  "boundary_forbidden BoundaryNone b = False"
| "boundary_forbidden BoundaryDigit b = is_digit b"
| "boundary_forbidden BoundaryDigitSep b = (is_digit b \<or> b = CHR ''-'')"
| "boundary_forbidden BoundaryAlnum b = (is_digit b \<or> is_upper b \<or> is_lower b)"

definition isBoundaryOK :: "string \<Rightarrow> nat \<Rightarrow> nat \<Rightarrow> boundary_class \<Rightarrow> bool" where
  "isBoundaryOK text start en class =
     (if class = BoundaryNone then True
      else if 0 < start \<and> boundary_forbidden class (text ! (start - 1)) then False
      else if en < length text \<and> boundary_forbidden class (text ! en) then False
      else True)"

section \<open>Overlap resolution\<close>

text \<open>The ranking of \<open>resolveComponent\<close>: length, then confidence (both descending), then start.\<close>

definition rank_key :: "entity \<Rightarrow> int \<times> rat \<times> int" where
  "rank_key e = (- elen e, - e_conf e, e_start e)"

fun greedy :: "entity list \<Rightarrow> entity list \<Rightarrow> entity list" where
  "greedy kept [] = kept"
| "greedy kept (e # es) =
     (if \<exists>k \<in> set kept. overlaps e k then greedy kept es else greedy (kept @ [e]) es)"

definition resolveComponent :: "entity list \<Rightarrow> entity list" where
  "resolveComponent component =
     (if length component = 1 then component else greedy [] (sort_key rank_key component))"

text \<open>The loop of \<open>ResolveOverlaps\<close>: \<open>cur\<close> is \<open>ordered[start:i]\<close>.\<close>

fun resolve_loop :: "entity list \<Rightarrow> int \<Rightarrow> entity list \<Rightarrow> entity list" where
  "resolve_loop cur maxEnd [] = resolveComponent cur"
| "resolve_loop cur maxEnd (e # es) =
     (if e_start e \<ge> maxEnd then resolveComponent cur @ resolve_loop [e] (e_end e) es
      else resolve_loop (cur @ [e]) (if e_end e > maxEnd then e_end e else maxEnd) es)"

definition ResolveOverlaps :: "entity list \<Rightarrow> entity list" where
  "ResolveOverlaps entities =
     (if length entities < 2 then entities
      else case sort_key e_start entities of
             [] \<Rightarrow> []
           | e # es \<Rightarrow> sort_key e_start (resolve_loop [e] (e_end e) es))"

section \<open>Detectors and the composite\<close>

text \<open>The \<open>Detector\<close> interface; \<open>d_detect\<close> is an error message or the entities found.\<close>

record detector =
  d_name :: string
  d_covered :: "string list"
  d_detect :: "string \<Rightarrow> string + entity list"

fun dedup :: "'a list \<Rightarrow> 'a list \<Rightarrow> 'a list" where
  "dedup seen [] = []"
| "dedup seen (x # xs) = (if x \<in> set seen then dedup seen xs else x # dedup (x # seen) xs)"

definition NERDependentTypes :: "string list" where
  "NERDependentTypes = [''NAME'', ''ADDRESS'', ''ORG'']"

record composite =
  c_defer :: bool
  c_detectors :: "detector list"
  c_minConfidence :: rat
  c_missing :: "string list"

definition NewCompositeDetector :: "detector list \<Rightarrow> rat \<Rightarrow> composite" where
  "NewCompositeDetector detectors minConfidence =
     (let covered = concat (map d_covered detectors) in
      \<lparr>c_defer = False, c_detectors = detectors, c_minConfidence = minConfidence,
       c_missing = filter (\<lambda>t. t \<notin> set covered) NERDependentTypes\<rparr>)"

definition NewCompositeDetectorDeferred :: "detector list \<Rightarrow> rat \<Rightarrow> composite" where
  "NewCompositeDetectorDeferred detectors minConfidence =
     (NewCompositeDetector detectors minConfidence)\<lparr>c_defer := True\<rparr>"

definition composite_Name :: "composite \<Rightarrow> string" where
  "composite_Name d = (if c_defer d then ''composite(deferred)'' else ''composite'')"

text \<open>The loop over the detectors: the first error stops it.\<close>

fun composite_collect :: "rat \<Rightarrow> detector list \<Rightarrow> string \<Rightarrow> entity list \<Rightarrow> string + entity list" where
  "composite_collect minc [] text candidates = Inr candidates"
| "composite_collect minc (sub # ds) text candidates =
     (case d_detect sub text of
        Inl err \<Rightarrow> Inl (d_name sub @ '': '' @ err)
      | Inr found \<Rightarrow> composite_collect minc ds text (candidates @ filter (\<lambda>e. e_conf e \<ge> minc) found))"

definition composite_Detect :: "composite \<Rightarrow> string \<Rightarrow> string + entity list" where
  "composite_Detect d text =
     res_bind (composite_collect (c_minConfidence d) (c_detectors d) text [])
       (\<lambda>candidates. if c_defer d then Inr candidates else Inr (ResolveOverlaps candidates))"

definition composite_CoveredTypes :: "composite \<Rightarrow> string list" where
  "composite_CoveredTypes d = dedup [] (concat (map d_covered (c_detectors d)))"

section \<open>The registry\<close>

record recognizer =
  r_name :: string
  r_entityType :: string
  r_recognize :: "string \<Rightarrow> string + entity list"

type_synonym registry = "(string, recognizer) gomap"

datatype register_error = NilRecognizer | EmptyName | AlreadyRegistered string

definition registry_Register :: "registry \<Rightarrow> recognizer option \<Rightarrow> register_error option \<times> registry" where
  "registry_Register r rec =
     (case rec of
        None \<Rightarrow> (Some NilRecognizer, r)
      | Some x \<Rightarrow>
          if r_name x = [] then (Some EmptyName, r)
          else if gm_get r (r_name x) \<noteq> None then (Some (AlreadyRegistered (r_name x)), r)
          else (None, gm_set (r_name x) x r))"

text \<open>\<open>MustRegister\<close> panics (None) where \<open>Register\<close> returns an error.\<close>

definition registry_MustRegister :: "registry \<Rightarrow> recognizer option \<Rightarrow> registry option" where
  "registry_MustRegister r rec =
     (case registry_Register r rec of (None, r') \<Rightarrow> Some r' | (Some e, r') \<Rightarrow> None)"

definition registry_Get :: "registry \<Rightarrow> string \<Rightarrow> recognizer option" where
  "registry_Get r name = gm_get r name"

definition registry_Remove :: "registry \<Rightarrow> string \<Rightarrow> bool \<times> registry" where
  "registry_Remove r name = (if gm_get r name = None then (False, r) else (True, gm_del name r))"

definition bytes_key :: "string \<Rightarrow> nat list" where
  "bytes_key s = map byte s"

definition registry_Names :: "registry \<Rightarrow> string list" where
  "registry_Names r = sort_key bytes_key (map fst r)"

definition registry_CoveredTypes :: "registry \<Rightarrow> string list" where
  "registry_CoveredTypes r = sort_key bytes_key (dedup [] (map (\<lambda>p. r_entityType (snd p)) r))"

fun registry_collect :: "recognizer list \<Rightarrow> string \<Rightarrow> entity list \<Rightarrow> string + entity list" where
  "registry_collect [] text found = Inr found"
| "registry_collect (rec # recs) text found =
     (case r_recognize rec text of
        Inl err \<Rightarrow> Inl (r_name rec @ '': '' @ err)
      | Inr got \<Rightarrow> registry_collect recs text (found @ got))"

definition registry_Detect :: "registry \<Rightarrow> string \<Rightarrow> string + entity list" where
  "registry_Detect r text = res_bind (registry_collect (map snd r) text []) (\<lambda>found. Inr (ResolveOverlaps found))"

definition AsDetector :: "recognizer \<Rightarrow> detector" where
  "AsDetector r = \<lparr>d_name = r_name r, d_covered = [r_entityType r], d_detect = r_recognize r\<rparr>"

section \<open>The greedy\<close>

definition disjoint_list :: "entity list \<Rightarrow> bool" where
  "disjoint_list es \<longleftrightarrow> sorted_wrt (\<lambda>a b. \<not> overlaps b a) es"

lemma overlaps_sym: "overlaps a b = overlaps b a"
  by (auto simp: overlaps_def)

lemma overlaps_self: "nonempty_span e \<Longrightarrow> overlaps e e"
  by (simp add: overlaps_def nonempty_span_def)

lemma greedy_kept: "set kept \<subseteq> set (greedy kept es)"
  by (induction kept es rule: greedy.induct) auto

lemma greedy_subset: "set (greedy kept es) \<subseteq> set kept \<union> set es"
  by (induction kept es rule: greedy.induct) auto

lemma greedy_disjoint: "disjoint_list kept \<Longrightarrow> disjoint_list (greedy kept es)"
  by (induction kept es rule: greedy.induct) (auto simp: disjoint_list_def sorted_wrt_append)

lemma greedy_dominates:
  assumes "\<And>e. R e e" "sorted_wrt R es" "\<forall>k \<in> set kept. \<forall>e \<in> set es. R k e"
    and "e \<in> set es" "nonempty_span e"
  shows "\<exists>k \<in> set (greedy kept es). overlaps e k \<and> R k e"
  using assms(2-)
proof (induction kept es rule: greedy.induct)
  case (2 kept x es)
  show ?case
  proof (cases "e = x")
    case True
    show ?thesis
    proof (cases "\<exists>k \<in> set kept. overlaps x k")
      case True
      then show ?thesis using 2(4) \<open>e = x\<close> greedy_kept [of kept "x # es"] by auto
    next
      case False
      then have "x \<in> set (greedy kept (x # es))"
        using greedy_kept [of "kept @ [x]" es] by auto
      moreover have "overlaps x x" using overlaps_self [OF 2(6)] \<open>e = x\<close> by simp
      ultimately show ?thesis unfolding \<open>e = x\<close> using assms(1) by blast
    qed
  next
    case False
    with 2 show ?thesis by auto
  qed
qed simp

lemma greedy_filter:
  assumes "\<And>x y. x \<in> set kept \<union> set es \<Longrightarrow> y \<in> set kept \<union> set es \<Longrightarrow> P x \<noteq> P y \<Longrightarrow> \<not> overlaps x y"
  shows "filter P (greedy kept es) = greedy (filter P kept) (filter P es)"
  using assms
proof (induction kept es rule: greedy.induct)
  case (2 kept e es)
  have "(\<exists>k \<in> set (filter P kept). overlaps e k) = (\<exists>k \<in> set kept. overlaps e k)" if "P e"
    using 2(3) [of e] that by auto
  with 2 show ?case by auto
qed simp

lemma greedy_all: "disjoint_list (kept @ es) \<Longrightarrow> greedy kept es = kept @ es"
proof (induction kept es rule: greedy.induct)
  case (2 kept e es)
  then show ?case by (auto simp: disjoint_list_def sorted_wrt_append)
qed simp

lemma resolveComponent_greedy: "resolveComponent c = greedy [] (sort_key rank_key c)"
  by (auto simp: resolveComponent_def length_Suc_conv)

text \<open>The greedy over all candidates at once, which \<open>ResolveOverlaps\<close> cuts into components.\<close>

definition resolve_all :: "entity list \<Rightarrow> entity list" where
  "resolve_all es = greedy [] (sort_key rank_key es)"

lemma resolve_all_split:
  assumes "\<forall>x \<in> set xs. e_end x \<le> m" "\<forall>y \<in> set ys. m \<le> e_start y \<and> nonempty_span y"
  shows "mset (resolve_all (xs @ ys)) = mset (resolve_all xs) + mset (resolve_all ys)"
proof -
  define P :: "entity \<Rightarrow> bool" where "P = (\<lambda>x. e_end x \<le> m)"
  have P: "filter P xs = xs" "filter P ys = []" "filter (\<lambda>x. \<not> P x) xs = []" "filter (\<lambda>x. \<not> P x) ys = ys"
    using assms by (force simp: P_def nonempty_span_def filter_empty_conv intro!: filter_True)+
  have sep: "\<not> overlaps x y" if "x \<in> set xs \<union> set ys" "y \<in> set xs \<union> set ys" "P x \<noteq> P y" for x y
    using that assms by (fastforce simp: P_def overlaps_def)
  have "filter P (resolve_all (xs @ ys)) = resolve_all xs"
    unfolding resolve_all_def by (subst greedy_filter) (use sep P in \<open>auto simp: filter_sort\<close>)
  moreover have "filter (\<lambda>x. \<not> P x) (resolve_all (xs @ ys)) = resolve_all ys"
    unfolding resolve_all_def by (subst greedy_filter) (use sep P in \<open>auto simp: filter_sort\<close>)
  ultimately show ?thesis
    by (metis mset_filter multiset_partition)
qed

lemma resolve_loop_all:
  assumes "\<forall>x \<in> set cur. e_end x \<le> maxEnd" "sorted (map e_start (cur @ es))"
    and "\<forall>x \<in> set (cur @ es). nonempty_span x"
  shows "mset (resolve_loop cur maxEnd es) = mset (resolve_all (cur @ es))"
  using assms
proof (induction cur maxEnd es rule: resolve_loop.induct)
  case (1 cur maxEnd)
  then show ?case by (simp add: resolveComponent_greedy resolve_all_def)
next
  case (2 cur maxEnd e es)
  show ?case
  proof (cases "maxEnd \<le> e_start e")
    case True
    have "\<forall>y \<in> set (e # es). maxEnd \<le> e_start y \<and> nonempty_span y"
      using 2(4,5) True by (auto simp: sorted_append)
    then have "mset (resolve_all (cur @ e # es)) = mset (resolve_all cur) + mset (resolve_all (e # es))"
      by (rule resolve_all_split [OF 2(3)])
    with 2 True show ?thesis
      by (simp add: resolveComponent_greedy resolve_all_def sorted_append)
  next
    case False
    have "\<forall>x \<in> set (cur @ [e]). e_end x \<le> (if e_end e > maxEnd then e_end e else maxEnd)"
      using 2(3) by fastforce
    with 2(2) [OF False] 2(4,5) False show ?thesis by simp
  qed
qed

lemma sort_rank_sort_start: "sort_key rank_key (sort_key e_start es) = sort_key rank_key es"
proof (rule properties_for_sort_key [symmetric])
  fix e
  assume "e \<in> set (sort_key rank_key (sort_key e_start es))"
  have "sort_key e_start (filter (\<lambda>x. rank_key e = rank_key x) es) = filter (\<lambda>x. rank_key e = rank_key x) es"
    by (rule sort_key_same [where c = "e_start e"]) (simp add: rank_key_def)
  moreover have "sort_key rank_key (filter (\<lambda>x. rank_key e = rank_key x) es) =
      filter (\<lambda>x. rank_key e = rank_key x) es"
    by (rule sort_key_same [where c = "rank_key e"]) simp
  ultimately show "filter (\<lambda>x. rank_key e = rank_key x) (sort_key rank_key (sort_key e_start es)) =
      filter (\<lambda>x. rank_key e = rank_key x) es"
    by (simp add: filter_sort)
qed simp_all

lemma resolve_all_disjoint: "disjoint_list (resolve_all es)"
  unfolding resolve_all_def by (rule greedy_disjoint) (simp add: disjoint_list_def)

lemma resolve_all_subset: "set (resolve_all es) \<subseteq> set es"
  using greedy_subset [of "[]" "sort_key rank_key es"] by (simp add: resolve_all_def)

lemma disjoint_start_inj:
  assumes "disjoint_list es" "\<forall>e \<in> set es. nonempty_span e"
  shows "inj_on e_start (set es)"
proof (rule inj_onI)
  fix a b
  assume ab: "a \<in> set es" "b \<in> set es" "e_start a = e_start b"
  then have o: "overlaps a b" "overlaps b a"
    using assms(2) by (auto simp: overlaps_def nonempty_span_def)
  obtain i j where "i < length es" "j < length es" "a = es ! i" "b = es ! j"
    using ab by (metis in_set_conv_nth)
  with o assms(1) show "a = b"
    unfolding disjoint_list_def sorted_wrt_iff_nth_less by (metis linorder_neqE_nat)
qed

lemma ResolveOverlaps_greedy:
  assumes "\<forall>e \<in> set es. nonempty_span e"
  shows "ResolveOverlaps es = sort_key e_start (resolve_all es)"
proof (cases "length es < 2")
  case True
  then show ?thesis by (cases es) (auto simp: ResolveOverlaps_def resolve_all_def)
next
  case False
  obtain x xs where o: "sort_key e_start es = x # xs"
    using False by (cases "sort_key e_start es") (auto dest: arg_cong [of _ _ length])
  have ne: "\<forall>e \<in> set (x # xs). nonempty_span e"
    using assms unfolding o [symmetric] by simp
  have "sorted (map e_start (x # xs))"
    unfolding o [symmetric] by simp
  then have "mset (resolve_loop [x] (e_end x) xs) = mset (resolve_all (x # xs))"
    using resolve_loop_all [of "[x]" "e_end x" xs] ne by simp
  also have "resolve_all (x # xs) = resolve_all es"
    unfolding resolve_all_def o [symmetric] by (simp add: sort_rank_sort_start)
  finally have m: "mset (resolve_loop [x] (e_end x) xs) = mset (resolve_all es)" .
  have "inj_on e_start (set (resolve_all es))"
    using resolve_all_disjoint resolve_all_subset assms by (intro disjoint_start_inj) auto
  moreover have "set (resolve_loop [x] (e_end x) xs) = set (resolve_all es)"
    using m by (metis set_mset_mset)
  ultimately have "sort_key e_start (resolve_loop [x] (e_end x) xs) = sort_key e_start (resolve_all es)"
    by (intro sort_key_inj_key_eq) (simp_all add: m)
  with False o show ?thesis by (simp add: ResolveOverlaps_def resolve_all_def)
qed

lemma resolve_all_dominates:
  "e \<in> set es \<Longrightarrow> nonempty_span e \<Longrightarrow> \<exists>k \<in> set (resolve_all es). overlaps e k \<and> rank_key k \<le> rank_key e"
proof -
  assume e: "e \<in> set es" "nonempty_span e"
  have "sorted_wrt (\<lambda>k e. rank_key k \<le> rank_key e) (sort_key rank_key es)"
    using sorted_sort_key [of rank_key es] unfolding sorted_map .
  then show ?thesis
    unfolding resolve_all_def
    using greedy_dominates [of "\<lambda>k e. rank_key k \<le> rank_key e" "sort_key rank_key es" "[]" e] e
    by simp
qed

lemma disjoint_pairwise:
  "disjoint_list es \<longleftrightarrow> (\<forall>i < length es. \<forall>j < length es. i \<noteq> j \<longrightarrow> \<not> overlaps (es ! i) (es ! j))"
proof (intro iffI allI impI)
  fix i j
  assume "disjoint_list es" "i < length es" "j < length es" "i \<noteq> j"
  then show "\<not> overlaps (es ! i) (es ! j)"
    unfolding disjoint_list_def sorted_wrt_iff_nth_less
    using overlaps_sym [of "es ! i" "es ! j"] by (metis nat_neq_iff)
next
  assume "\<forall>i < length es. \<forall>j < length es. i \<noteq> j \<longrightarrow> \<not> overlaps (es ! i) (es ! j)"
  then show "disjoint_list es"
    by (auto simp: disjoint_list_def sorted_wrt_iff_nth_less)
qed

lemma disjoint_distinct: "disjoint_list es \<Longrightarrow> \<forall>e \<in> set es. nonempty_span e \<Longrightarrow> distinct es"
  using overlaps_self unfolding disjoint_pairwise distinct_conv_nth by (metis nth_mem)

lemma disjoint_sorted:
  assumes "disjoint_list es" "\<forall>e \<in> set es. nonempty_span e"
  shows "sorted_wrt (\<lambda>a b. e_end a \<le> e_start b) (sort_key e_start es)"
proof -
  let ?s = "sort_key e_start es"
  note d = disjoint_distinct [OF assms]
  have pair: "\<not> overlaps a b" if "a \<in> set es" "b \<in> set es" "a \<noteq> b" for a b
    using that assms(1) unfolding disjoint_pairwise by (metis in_set_conv_nth)
  show ?thesis
    unfolding sorted_wrt_iff_nth_less
  proof (intro allI impI)
    fix i j
    assume ij: "i < j" "j < length ?s"
    then have m: "?s ! i \<in> set es" "?s ! j \<in> set es"
      by (metis set_sort nth_mem order.strict_trans)+
    have "?s ! i \<noteq> ?s ! j" using d ij by (simp add: nth_eq_iff_index_eq)
    then have "\<not> overlaps (?s ! i) (?s ! j)" using pair m by blast
    moreover have "e_start (?s ! i) \<le> e_start (?s ! j)"
      using sorted_sort_key [of e_start es] ij by (simp add: sorted_iff_nth_mono)
    ultimately show "e_end (?s ! i) \<le> e_start (?s ! j)"
      using assms(2) m by (force simp: overlaps_def nonempty_span_def)
  qed
qed

lemma sorted_disjoint:
  "sorted_wrt (\<lambda>a b. e_end a \<le> e_start b) es \<Longrightarrow> disjoint_list es"
  unfolding disjoint_list_def by (erule sorted_wrt_mono_rel [rotated]) (simp add: overlaps_def)

lemma disjoint_perm:
  assumes "disjoint_list es" "mset es' = mset es" "\<forall>e \<in> set es. nonempty_span e"
  shows "disjoint_list es'"
proof -
  have "set es' = set es" using assms(2) by (metis set_mset_mset)
  moreover have "distinct es'"
    using disjoint_distinct [OF assms(1,3)] assms(2)
    by (metis card_distinct distinct_card mset_eq_setD size_mset)
  ultimately show ?thesis
    using assms(1) unfolding disjoint_pairwise
    by (metis in_set_conv_nth nth_eq_iff_index_eq)
qed

lemma resolve_all_id:
  assumes "disjoint_list es" "\<forall>e \<in> set es. nonempty_span e"
  shows "resolve_all es = sort_key rank_key es"
  unfolding resolve_all_def
  using disjoint_perm [OF assms(1) _ assms(2), of "sort_key rank_key es"] by (simp add: greedy_all)

lemma ResolveOverlaps_props:
  assumes "\<forall>e \<in> set es. nonempty_span e"
  shows "set (ResolveOverlaps es) \<subseteq> set es"
    and "sorted_wrt (\<lambda>a b. e_end a \<le> e_start b) (ResolveOverlaps es)"
    and "e \<in> set es \<Longrightarrow> \<exists>k \<in> set (ResolveOverlaps es). overlaps e k \<and> rank_key k \<le> rank_key e"
    and "ResolveOverlaps (ResolveOverlaps es) = ResolveOverlaps es"
proof -
  note r = ResolveOverlaps_greedy [OF assms]
  have ne: "\<forall>e \<in> set (resolve_all es). nonempty_span e"
    using resolve_all_subset assms by blast
  show 1: "set (ResolveOverlaps es) \<subseteq> set es"
    using resolve_all_subset by (simp add: r)
  show 2: "sorted_wrt (\<lambda>a b. e_end a \<le> e_start b) (ResolveOverlaps es)"
    unfolding r by (rule disjoint_sorted [OF resolve_all_disjoint ne])
  show "\<exists>k \<in> set (ResolveOverlaps es). overlaps e k \<and> rank_key k \<le> rank_key e" if "e \<in> set es"
    using resolve_all_dominates [of e es] that assms by (simp add: r)
  let ?o = "ResolveOverlaps es"
  have neo: "\<forall>e \<in> set ?o. nonempty_span e" using 1 assms by blast
  have "inj_on e_start (set ?o)"
    using disjoint_start_inj [OF sorted_disjoint [OF 2] neo] .
  then have "sort_key e_start (sort_key rank_key ?o) = ?o"
    by (intro sort_key_inj_key_eq) (simp_all add: r)
  then show "ResolveOverlaps ?o = ?o"
    by (simp add: ResolveOverlaps_greedy [OF neo] resolve_all_id [OF sorted_disjoint [OF 2] neo])
qed

text \<open>ResolveOverlaps, which sorts by start, cuts the entities into connected components and
  resolves each on its own, computes exactly the longest-wins greedy over all entities at
  once (the equivalence its comment claims), for entities that are not empty.\<close>

theorem ResolveOverlaps_is_greedy:
  assumes "\<forall>e \<in> set es. nonempty_span e"
  shows "ResolveOverlaps es = sort_key e_start (greedy [] (sort_key rank_key es))"
  using ResolveOverlaps_greedy [OF assms] by (simp add: resolve_all_def)

definition mk_entity :: "string \<Rightarrow> string \<Rightarrow> int \<Rightarrow> int \<Rightarrow> rat \<Rightarrow> string \<Rightarrow> entity" where
  "mk_entity ty v s e c d =
     \<lparr>e_type = ty, e_value = v, e_start = s, e_end = e, e_conf = c, e_det = d\<rparr>"

definition sample_entities :: "entity list" where
  "sample_entities =
     [mk_entity ''PHONE'' ''138'' 0 3 (9/10) ''cn'', mk_entity ''BANK_CARD'' ''13800'' 0 5 (8/10) ''cn'',
      mk_entity ''NAME'' ''ab'' 7 9 (5/10) ''ner'', mk_entity ''ORG'' ''bc'' 8 10 (7/10) ''ner'']"

theorem ResolveOverlaps_is_greedy_witness:
  "map e_type (ResolveOverlaps sample_entities) = [''BANK_CARD'', ''ORG''] \<and>
   ResolveOverlaps sample_entities = sort_key e_start (greedy [] (sort_key rank_key sample_entities))"
proof -
  have ne: "\<forall>e \<in> set sample_entities. nonempty_span e"
    by (simp add: sample_entities_def mk_entity_def nonempty_span_def)
  have "map e_type (ResolveOverlaps sample_entities) = [''BANK_CARD'', ''ORG'']"
    by (simp add: ResolveOverlaps_def resolveComponent_def sample_entities_def mk_entity_def
        rank_key_def elen_def overlaps_def)
  with ResolveOverlaps_is_greedy [OF ne] show ?thesis by blast
qed

text \<open>
  C19: The result of ResolveOverlaps is a plan that can be spliced left to right: it only
  holds given entities, each ends before the next starts, every rejected entity overlaps a
  kept one that is ranked at least as high (longer, or as long and at least as confident),
  and resolving again changes nothing.
\<close>

theorem ResolveOverlaps_sound:
  assumes "\<forall>e \<in> set es. nonempty_span e"
  shows "set (ResolveOverlaps es) \<subseteq> set es \<and>
    sorted_wrt (\<lambda>a b. e_end a \<le> e_start b) (ResolveOverlaps es) \<and>
    (\<forall>e \<in> set es. \<exists>k \<in> set (ResolveOverlaps es). overlaps e k \<and> rank_key k \<le> rank_key e) \<and>
    ResolveOverlaps (ResolveOverlaps es) = ResolveOverlaps es"
  using ResolveOverlaps_props [OF assms] by blast

theorem ResolveOverlaps_sound_witness:
  "ResolveOverlaps (ResolveOverlaps sample_entities) = ResolveOverlaps sample_entities"
  by (rule ResolveOverlaps_sound [THEN conjunct2, THEN conjunct2, THEN conjunct2])
    (simp add: sample_entities_def mk_entity_def nonempty_span_def)

end
