(* ===== verification/RateLimit.thy ===== *)
theory RateLimit imports GoStrings begin

text \<open>
  The sliding-window token limiter of \<open>internal/ratelimit/window.go\<close>: reservations are
  charged to one of sixty time buckets on admission, refunded on \<open>Commit\<close> and \<open>Release\<close>,
  and swept when they expire. Time is a parameter (\<open>now\<close>, nanoseconds since the Unix epoch);
  token counts are 64-bit integers with their wrap-around; the mutex makes each operation
  one step of the state.
\<close>

section \<open>State\<close>

record limits =
  l_tokens :: int
  l_window :: int
  l_maxConcurrent :: int
  l_ttl :: int

definition normalized :: "limits \<Rightarrow> limits" where
  "normalized l =
     (let l = (if l_window l \<le> 0 then l\<lparr>l_window := 60 * 10 ^ 9\<rparr> else l) in
      if l_ttl l \<le> 0 then l\<lparr>l_ttl := 600 * 10 ^ 9\<rparr> else l)"

record reservation =
  rv_id :: string
  rv_subject :: string
  rv_reserved :: int
  rv_issued :: int
  rv_slot :: int
  rv_start :: int

record usage =
  u_input :: int
  u_output :: int

definition usage_Total :: "usage \<Rightarrow> int" where
  "usage_Total u = wrap64 (u_input u + u_output u)"

record bucket =
  b_start :: int
  b_tokens :: int

definition empty_bucket :: bucket where
  "empty_bucket = \<lparr>b_start = 0, b_tokens = 0\<rparr>"

record subject_state =
  s_buckets :: "bucket list"
  s_inflight :: int
  s_res :: "(string, reservation) gomap"

record limiter =
  lm_limits :: "(string, limits) gomap"
  lm_fallback :: limits
  lm_states :: "(string, subject_state) gomap"
  lm_buckets :: nat
  lm_seq :: nat

datatype limit_error =
    NegativeTokens
  | ConcurrencyExceeded
  | QuotaExceeded
  | UnknownReservation
  | Panicked

definition defaultBuckets :: nat where
  "defaultBuckets = 60"

section \<open>Operations\<close>

definition NewLimiter :: "limits \<Rightarrow> limiter" where
  "NewLimiter fallback =
     \<lparr>lm_limits = [], lm_fallback = normalized fallback, lm_states = [],
      lm_buckets = defaultBuckets, lm_seq = 0\<rparr>"

definition SetLimits :: "limiter \<Rightarrow> string \<Rightarrow> limits \<Rightarrow> limiter" where
  "SetLimits l subject lims = l\<lparr>lm_limits := gm_set subject (normalized lims) (lm_limits l)\<rparr>"

definition limitsFor :: "limiter \<Rightarrow> string \<Rightarrow> limits" where
  "limitsFor l subject =
     (case gm_get (lm_limits l) subject of Some lm \<Rightarrow> lm | None \<Rightarrow> lm_fallback l)"

definition fresh_state :: "nat \<Rightarrow> subject_state" where
  "fresh_state n = \<lparr>s_buckets = replicate n empty_bucket, s_inflight = 0, s_res = []\<rparr>"

text \<open>\<open>stateFor\<close> also stores a state it creates; the callers below store it with their own update.\<close>

definition stateFor :: "limiter \<Rightarrow> string \<Rightarrow> subject_state" where
  "stateFor l subject =
     (case gm_get (lm_states l) subject of
        Some st \<Rightarrow> st
      | None \<Rightarrow> fresh_state (lm_buckets l))"

definition bucketSpan :: "limiter \<Rightarrow> limits \<Rightarrow> int" where
  "bucketSpan l lm = go_div (l_window lm) (int (lm_buckets l))"

text \<open>\<open>currentUsage\<close> resets the buckets that left the window and adds up the rest.\<close>

definition expire :: "int \<Rightarrow> bucket \<Rightarrow> bucket" where
  "expire cutoff b = (if b_start b \<le> cutoff then empty_bucket else b)"

fun usage_loop :: "int \<Rightarrow> bucket list \<Rightarrow> int \<Rightarrow> int" where
  "usage_loop cutoff [] acc = acc"
| "usage_loop cutoff (b # bs) acc =
     (if b_start b \<le> cutoff then usage_loop cutoff bs acc
      else usage_loop cutoff bs (wrap64 (acc + b_tokens b)))"

definition currentUsage :: "subject_state \<Rightarrow> limits \<Rightarrow> int \<Rightarrow> int \<times> subject_state" where
  "currentUsage st lm now =
     (let cutoff = now - l_window lm in
      (usage_loop cutoff (s_buckets st) 0, st\<lparr>s_buckets := map (expire cutoff) (s_buckets st)\<rparr>))"

text \<open>
  \<open>Time.Truncate\<close> rounds down to a multiple of the bspan since Go's zero time (1 January of
  year 1), not since the Unix epoch; the two are 62135596800 seconds apart.
\<close>

definition zero_time_offset :: int where
  "zero_time_offset = 62135596800 * 10 ^ 9"

definition time_truncate :: "int \<Rightarrow> int \<Rightarrow> int" where
  "time_truncate now bspan = (if bspan \<le> 0 then now else now - (now + zero_time_offset) mod bspan)"

text \<open>\<open>charge\<close>; None is the panic of a division by zero or of a negative index.\<close>

definition charge ::
    "limiter \<Rightarrow> subject_state \<Rightarrow> limits \<Rightarrow> int \<Rightarrow> int \<Rightarrow> (int \<times> int \<times> subject_state) option" where
  "charge l st lm now tokens =
     (let bspan = bucketSpan l lm in
      if bspan = 0 then None
      else
        let slot = go_mod (go_div now bspan) (int (lm_buckets l));
            start = time_truncate now bspan in
        if slot < 0 \<or> slot \<ge> int (length (s_buckets st)) then None
        else
          let b = s_buckets st ! nat slot;
              b' = (if b_start b \<noteq> start then \<lparr>b_start = start, b_tokens = 0\<rparr> else b);
              b'' = b'\<lparr>b_tokens := wrap64 (b_tokens b' + tokens)\<rparr> in
          Some (slot, start, st\<lparr>s_buckets := (s_buckets st)[nat slot := b'']\<rparr>))"

definition refund :: "subject_state \<Rightarrow> int \<Rightarrow> int \<Rightarrow> int \<Rightarrow> subject_state" where
  "refund st slot start tokens =
     (if slot < 0 \<or> slot \<ge> int (length (s_buckets st)) then st
      else
        let b = s_buckets st ! nat slot in
        if b_start b \<noteq> start then st
        else
          let t = wrap64 (b_tokens b - tokens);
              b' = b\<lparr>b_tokens := (if t < 0 then 0 else t)\<rparr> in
          st\<lparr>s_buckets := (s_buckets st)[nat slot := b']\<rparr>)"

text \<open>What settling a reservation does to the subject: shared by the sweep, \<open>Commit\<close>, \<open>Release\<close>.\<close>

definition settle :: "subject_state \<Rightarrow> string \<Rightarrow> reservation \<Rightarrow> subject_state" where
  "settle st rid r =
     (let n = s_inflight st - 1;
          st' = st\<lparr>s_res := gm_del rid (s_res st), s_inflight := (if n < 0 then 0 else n)\<rparr> in
      refund st' (rv_slot r) (rv_start r) (rv_reserved r))"

fun sweep_loop :: "(string \<times> reservation) list \<Rightarrow> limits \<Rightarrow> int \<Rightarrow> subject_state \<Rightarrow> subject_state" where
  "sweep_loop [] lm now st = st"
| "sweep_loop ((rid, r) # rs) lm now st =
     (if time_sub now (rv_issued r) < l_ttl lm then sweep_loop rs lm now st
      else sweep_loop rs lm now (settle st rid r))"

definition sweepExpiredLocked :: "subject_state \<Rightarrow> limits \<Rightarrow> int \<Rightarrow> subject_state" where
  "sweepExpiredLocked st lm now = sweep_loop (s_res st) lm now st"

definition put_state :: "limiter \<Rightarrow> string \<Rightarrow> subject_state \<Rightarrow> limiter" where
  "put_state l subject st = l\<lparr>lm_states := gm_set subject st (lm_states l)\<rparr>"

definition reservation_id :: "string \<Rightarrow> nat \<Rightarrow> string" where
  "reservation_id subject seq = subject @ ''#'' @ itoa seq"

text \<open>\<open>seq\<close> is a 64-bit unsigned counter.\<close>

definition next_seq :: "nat \<Rightarrow> nat" where
  "next_seq seq = nat ((int seq + 1) mod 2 ^ 64)"

lemma next_seq_Suc: "n < 2 ^ 64 - 1 \<Longrightarrow> next_seq n = Suc n"
proof -
  assume "n < 2 ^ 64 - 1"
  then have "int n + 1 < 2 ^ 64" by simp
  then show ?thesis by (simp add: next_seq_def mod_pos_pos_trivial nat_add_distrib)
qed

definition Reserve ::
    "limiter \<Rightarrow> string \<Rightarrow> int \<Rightarrow> int \<Rightarrow> int \<Rightarrow> (limit_error + reservation) \<times> limiter" where
  "Reserve l subject maxTokens promptTokens now =
     (if maxTokens < 0 \<or> promptTokens < 0 then (Inl NegativeTokens, l)
      else
        let lm = limitsFor l subject;
            st = sweepExpiredLocked (stateFor l subject) lm now in
        if l_maxConcurrent lm > 0 \<and> s_inflight st \<ge> l_maxConcurrent lm
        then (Inl ConcurrencyExceeded, put_state l subject st)
        else
          let reserve = wrap64 (promptTokens + maxTokens);
              (used, st) = (if l_tokens lm > 0 then currentUsage st lm now else (0, st)) in
          if l_tokens lm > 0 \<and> wrap64 (used + reserve) > l_tokens lm
          then (Inl QuotaExceeded, put_state l subject st)
          else
            let seq = next_seq (lm_seq l);
                l' = l\<lparr>lm_seq := seq\<rparr> in
            case charge l st lm now reserve of
              None \<Rightarrow> (Inl Panicked, put_state l' subject st)
            | Some (slot, start, st) \<Rightarrow>
                let r = \<lparr>rv_id = reservation_id subject seq, rv_subject = subject, rv_reserved = reserve,
                         rv_issued = now, rv_slot = slot, rv_start = start\<rparr>;
                    st = st\<lparr>s_res := gm_set (rv_id r) r (s_res st), s_inflight := s_inflight st + 1\<rparr> in
                (Inr r, put_state l' subject st))"

definition Commit :: "limiter \<Rightarrow> reservation option \<Rightarrow> usage \<Rightarrow> int \<Rightarrow> limit_error option \<times> limiter" where
  "Commit l ro actual now =
     (case ro of
        None \<Rightarrow> (Some UnknownReservation, l)
      | Some r \<Rightarrow>
          let lm = limitsFor l (rv_subject r) in
          case gm_get (lm_states l) (rv_subject r) of
            None \<Rightarrow> (Some UnknownReservation, l)
          | Some st \<Rightarrow>
              if gm_get (s_res st) (rv_id r) = None then (Some UnknownReservation, l)
              else
                let st = settle st (rv_id r) r in
                case charge l st lm now (usage_Total actual) of
                  None \<Rightarrow> (Some Panicked, put_state l (rv_subject r) st)
                | Some (slot, start, st) \<Rightarrow> (None, put_state l (rv_subject r) st))"

definition Release :: "limiter \<Rightarrow> reservation option \<Rightarrow> limit_error option \<times> limiter" where
  "Release l ro =
     (case ro of
        None \<Rightarrow> (Some UnknownReservation, l)
      | Some r \<Rightarrow>
          case gm_get (lm_states l) (rv_subject r) of
            None \<Rightarrow> (Some UnknownReservation, l)
          | Some st \<Rightarrow>
              if gm_get (s_res st) (rv_id r) = None then (Some UnknownReservation, l)
              else (None, put_state l (rv_subject r) (settle st (rv_id r) r)))"

definition Snapshot :: "limiter \<Rightarrow> string \<Rightarrow> int \<Rightarrow> (int \<times> int \<times> int) \<times> limiter" where
  "Snapshot l subject now =
     (let lm = limitsFor l subject in
      case gm_get (lm_states l) subject of
        None \<Rightarrow> ((0, 0, l_tokens lm), l)
      | Some st \<Rightarrow>
          let (used, st') = currentUsage st lm now in
          ((used, s_inflight st, l_tokens lm), put_state l subject st'))"

text \<open>One tick of the janitor.\<close>

definition janitor_tick :: "limiter \<Rightarrow> int \<Rightarrow> limiter" where
  "janitor_tick l now =
     l\<lparr>lm_states := map (\<lambda>(subject, st). (subject, sweepExpiredLocked st (limitsFor l subject) now)) (lm_states l)\<rparr>"

section \<open>The invariant\<close>

text \<open>
  What holds of a subject's state between operations: sixty buckets, one reservation per
  identifier, each under an identifier that this limiter issued to this subject, and the
  in-flight counter is the number of open reservations.
\<close>

definition res_ok :: "nat \<Rightarrow> string \<Rightarrow> string \<times> reservation \<Rightarrow> bool" where
  "res_ok seq subject p \<longleftrightarrow> rv_id (snd p) = fst p \<and> rv_subject (snd p) = subject \<and>
     (\<exists>m. 1 \<le> m \<and> m \<le> seq \<and> fst p = reservation_id subject m)"

definition st_inv :: "nat \<Rightarrow> nat \<Rightarrow> string \<Rightarrow> subject_state \<Rightarrow> bool" where
  "st_inv n seq subject st \<longleftrightarrow> length (s_buckets st) = n \<and> gm_wf (s_res st) \<and>
     s_inflight st = int (length (s_res st)) \<and> (\<forall>p \<in> set (s_res st). res_ok seq subject p)"

definition lm_inv :: "limiter \<Rightarrow> bool" where
  "lm_inv l \<longleftrightarrow> gm_wf (lm_states l) \<and>
     (\<forall>subject st. gm_get (lm_states l) subject = Some st \<longrightarrow> st_inv (lm_buckets l) (lm_seq l) subject st)"

lemma st_inv_fresh: "st_inv n seq subject (fresh_state n)"
  by (simp add: st_inv_def fresh_state_def)

lemma lm_inv_stateFor: "lm_inv l \<Longrightarrow> st_inv (lm_buckets l) (lm_seq l) subject (stateFor l subject)"
  by (auto simp: lm_inv_def stateFor_def st_inv_fresh split: option.splits)

lemma st_inv_seq: "st_inv n seq subject st \<Longrightarrow> seq \<le> seq' \<Longrightarrow> st_inv n seq' subject st"
  by (force simp: st_inv_def res_ok_def)

lemma lm_inv_put:
  assumes "lm_inv l" "st_inv (lm_buckets l) (lm_seq l) subject st"
  shows "lm_inv (put_state l subject st)"
  using assms by (auto simp: lm_inv_def put_state_def gm_get_set)

lemma refund_simps [simp]:
  "s_res (refund st slot start t) = s_res st"
  "s_inflight (refund st slot start t) = s_inflight st"
  "length (s_buckets (refund st slot start t)) = length (s_buckets st)"
  by (simp_all add: refund_def Let_def)

lemma settle_res [simp]: "s_res (settle st rid r) = gm_del rid (s_res st)"
  by (simp add: settle_def Let_def)

lemma settle_inv:
  assumes "st_inv n seq subject st" "gm_get (s_res st) rid = Some r'"
  shows "st_inv n seq subject (settle st rid r)"
  using assms gm_del_length [of "s_res st" rid r']
  by (auto simp: st_inv_def settle_def Let_def gm_del_mem)

lemma sweep_loop_inv:
  assumes "st_inv n seq subject st" "gm_wf rs" "\<forall>(rid, r) \<in> set rs. gm_get (s_res st) rid = Some r"
  shows "st_inv n seq subject (sweep_loop rs lm now st)"
  using assms
proof (induction rs lm now st rule: sweep_loop.induct)
  case (2 rid r rs lm now st)
  have "gm_wf rs" using 2(4) by (simp add: gm_wf_def)
  moreover have "\<forall>(i, q) \<in> set rs. gm_get (s_res (settle st rid r)) i = Some q"
    using 2(4,5) by (force simp: gm_wf_def gm_get_del)
  ultimately show ?case
    using 2(1) 2(2) [OF _ settle_inv [OF 2(3)]] 2(3,5) by simp
qed simp

lemma sweep_inv: "st_inv n seq subject st \<Longrightarrow> st_inv n seq subject (sweepExpiredLocked st lm now)"
  unfolding sweepExpiredLocked_def
  by (rule sweep_loop_inv) (auto simp: st_inv_def gm_get_in)

lemma currentUsage_inv:
  "st_inv n seq subject st \<Longrightarrow> st_inv n seq subject (snd (currentUsage st lm now))"
  by (simp add: st_inv_def currentUsage_def Let_def)

lemma charge_inv:
  "charge l st lm now t = Some (slot, start, st') \<Longrightarrow> st_inv n seq subject st \<Longrightarrow> st_inv n seq subject st'"
  by (auto simp: charge_def Let_def st_inv_def split: if_splits)

lemma charge_res:
  "charge l st lm now t = Some (slot, start, st') \<Longrightarrow>
   s_res st' = s_res st \<and> s_inflight st' = s_inflight st"
  by (auto simp: charge_def Let_def split: if_splits)

lemma reservation_id_inj: "reservation_id subject m = reservation_id subject k \<longleftrightarrow> m = k"
  by (simp add: reservation_id_def itoa_inj)

lemma st_inv_add:
  assumes "st_inv n seq subject st" "rv_id r = reservation_id subject (Suc seq)" "rv_subject r = subject"
  shows "st_inv n (Suc seq) subject
    (st\<lparr>s_res := gm_set (rv_id r) r (s_res st), s_inflight := s_inflight st + 1\<rparr>)"
proof -
  have "gm_get (s_res st) (rv_id r) = None"
  proof (rule ccontr)
    assume "gm_get (s_res st) (rv_id r) \<noteq> None"
    then obtain q where "(rv_id r, q) \<in> set (s_res st)" by (auto dest: map_of_SomeD)
    then show False
      using assms by (auto simp: st_inv_def res_ok_def reservation_id_inj)
  qed
  then show ?thesis
    using assms by (force simp: st_inv_def gm_set_fresh res_ok_def gm_wf_def map_of_eq_None_iff)
qed

lemma put_seq: "(put_state l subject st)\<lparr>lm_seq := n\<rparr> = put_state (l\<lparr>lm_seq := n\<rparr>) subject st"
  by (simp add: put_state_def)

lemma lm_inv_seq: "lm_inv l \<Longrightarrow> lm_seq l \<le> n \<Longrightarrow> lm_inv (l\<lparr>lm_seq := n\<rparr>)"
  by (auto simp: lm_inv_def intro: st_inv_seq)

text \<open>The state from which \<open>Reserve\<close> charges, after the sweep and the usage scan.\<close>

definition reserve_base :: "limiter \<Rightarrow> string \<Rightarrow> int \<Rightarrow> subject_state" where
  "reserve_base l subject now =
     (let lm = limitsFor l subject; st = sweepExpiredLocked (stateFor l subject) lm now in
      if l_tokens lm > 0 then snd (currentUsage st lm now) else st)"

definition reserve_swept :: "limiter \<Rightarrow> string \<Rightarrow> int \<Rightarrow> subject_state" where
  "reserve_swept l subject now = sweepExpiredLocked (stateFor l subject) (limitsFor l subject) now"

definition reserve_used :: "limiter \<Rightarrow> string \<Rightarrow> int \<Rightarrow> int" where
  "reserve_used l subject now = fst (currentUsage (reserve_swept l subject now) (limitsFor l subject) now)"

definition admit :: "limiter \<Rightarrow> string \<Rightarrow> int \<Rightarrow> int \<Rightarrow> (limit_error + reservation) \<times> limiter" where
  "admit l subject reserve now =
     (let seq = next_seq (lm_seq l); l' = l\<lparr>lm_seq := seq\<rparr>; st = reserve_base l subject now in
      case charge l st (limitsFor l subject) now reserve of
        None \<Rightarrow> (Inl Panicked, put_state l' subject st)
      | Some (slot, start, st) \<Rightarrow>
          let r = \<lparr>rv_id = reservation_id subject seq, rv_subject = subject, rv_reserved = reserve,
                   rv_issued = now, rv_slot = slot, rv_start = start\<rparr> in
          (Inr r, put_state l' subject
             (st\<lparr>s_res := gm_set (rv_id r) r (s_res st), s_inflight := s_inflight st + 1\<rparr>)))"

lemma Reserve_unfold:
  "Reserve l subject maxTokens promptTokens now =
     (let lm = limitsFor l subject; reserve = wrap64 (promptTokens + maxTokens) in
      if maxTokens < 0 \<or> promptTokens < 0 then (Inl NegativeTokens, l)
      else if l_maxConcurrent lm > 0 \<and> s_inflight (reserve_swept l subject now) \<ge> l_maxConcurrent lm
      then (Inl ConcurrencyExceeded, put_state l subject (reserve_swept l subject now))
      else if l_tokens lm > 0 \<and> wrap64 (reserve_used l subject now + reserve) > l_tokens lm
      then (Inl QuotaExceeded, put_state l subject (reserve_base l subject now))
      else admit l subject reserve now)"
  by (simp add: Reserve_def admit_def reserve_base_def reserve_swept_def reserve_used_def Let_def
      case_prod_unfold split: option.split)

lemma reserve_swept_inv:
  "lm_inv l \<Longrightarrow> st_inv (lm_buckets l) (lm_seq l) subject (reserve_swept l subject now)"
  by (simp add: reserve_swept_def sweep_inv lm_inv_stateFor)

lemma reserve_base_inv:
  "lm_inv l \<Longrightarrow> st_inv (lm_buckets l) (lm_seq l) subject (reserve_base l subject now)"
  by (simp add: reserve_base_def Let_def currentUsage_inv sweep_inv lm_inv_stateFor)

lemma admit_inv:
  assumes "lm_inv l" "lm_seq l < 2 ^ 64 - 1"
  shows "lm_inv (snd (admit l subject reserve now))"
proof -
  have seq: "next_seq (lm_seq l) = Suc (lm_seq l)" using assms(2) by (rule next_seq_Suc)
  note base = reserve_base_inv [OF assms(1), of subject now]
  have l': "lm_inv (l\<lparr>lm_seq := Suc (lm_seq l)\<rparr>)" by (rule lm_inv_seq [OF assms(1)]) simp
  show ?thesis
  proof (cases "charge l (reserve_base l subject now) (limitsFor l subject) now reserve")
    case None
    then show ?thesis
      using lm_inv_put [OF l', of subject] st_inv_seq [OF base] by (simp add: admit_def Let_def seq)
  next
    case (Some x)
    obtain slot start st where x: "x = (slot, start, st)" by (cases x)
    have "st_inv (lm_buckets l) (lm_seq l) subject st"
      using charge_inv [OF Some [unfolded x] base] .
    from st_inv_add [OF this, of "\<lparr>rv_id = reservation_id subject (Suc (lm_seq l)), rv_subject = subject,
        rv_reserved = reserve, rv_issued = now, rv_slot = slot, rv_start = start\<rparr>"]
    show ?thesis
      using Some x by (auto simp: admit_def Let_def seq intro!: lm_inv_put [OF l'])
  qed
qed

lemma Reserve_inv:
  assumes "lm_inv l" "lm_seq l < 2 ^ 64 - 1"
  shows "lm_inv (snd (Reserve l subject maxTokens promptTokens now))"
  using admit_inv [OF assms] lm_inv_put [OF assms(1) reserve_swept_inv [OF assms(1)]]
    lm_inv_put [OF assms(1) reserve_base_inv [OF assms(1)]] assms(1)
  by (simp add: Reserve_unfold Let_def)

lemma Commit_inv: "lm_inv l \<Longrightarrow> lm_inv (snd (Commit l ro actual now))"
  by (auto simp: Commit_def Let_def lm_inv_def split: option.splits
      intro!: lm_inv_put [unfolded lm_inv_def] settle_inv elim!: charge_inv)

lemma Release_inv: "lm_inv l \<Longrightarrow> lm_inv (snd (Release l ro))"
  by (auto simp: Release_def Let_def lm_inv_def split: option.splits
      intro!: lm_inv_put [unfolded lm_inv_def] settle_inv)

lemma Snapshot_inv: "lm_inv l \<Longrightarrow> lm_inv (snd (Snapshot l subject now))"
  using currentUsage_inv
  by (auto simp: Snapshot_def Let_def case_prod_unfold lm_inv_def split: option.splits
      intro!: lm_inv_put [unfolded lm_inv_def])

lemma SetLimits_inv: "lm_inv l \<Longrightarrow> lm_inv (SetLimits l subject lims)"
  by (simp add: SetLimits_def lm_inv_def)

lemma map_of_map_state:
  "map_of (map (\<lambda>(k, v). (k, f k v)) m) k = map_option (f k) (map_of m k)"
  by (induction m) auto

lemma janitor_inv: "lm_inv l \<Longrightarrow> lm_inv (janitor_tick l now)"
  by (auto simp: janitor_tick_def lm_inv_def map_of_map_state sweep_inv gm_wf_def o_def case_prod_unfold)

lemma NewLimiter_inv: "lm_inv (NewLimiter fallback)"
  by (simp add: NewLimiter_def lm_inv_def)

lemmas lm_inv_ops [inv_intros] =
  Reserve_inv Commit_inv Release_inv Snapshot_inv SetLimits_inv janitor_inv

section \<open>Reachable limiters\<close>

text \<open>
  The limiters that the operations reach from \<open>NewLimiter\<close>, in any order, with any arguments
  and clock readings. The bound on the sequence number leaves out only the wrap-around of
  the 64-bit counter.
\<close>

inductive lm_reach :: "limiter \<Rightarrow> bool" where
  reach_new: "lm_reach (NewLimiter fallback)"
| reach_set: "lm_reach l \<Longrightarrow> lm_reach (SetLimits l subject lims)"
| reach_reserve: "lm_reach l \<Longrightarrow> lm_seq l < 2 ^ 64 - 1 \<Longrightarrow>
    lm_reach (snd (Reserve l subject maxTokens promptTokens now))"
| reach_commit: "lm_reach l \<Longrightarrow> lm_reach (snd (Commit l ro actual now))"
| reach_release: "lm_reach l \<Longrightarrow> lm_reach (snd (Release l ro))"
| reach_snapshot: "lm_reach l \<Longrightarrow> lm_reach (snd (Snapshot l subject now))"
| reach_tick: "lm_reach l \<Longrightarrow> lm_reach (janitor_tick l now)"

lemma lm_reach_inv: "lm_reach l \<Longrightarrow> lm_inv l"
  by (induction rule: lm_reach.induct) (auto intro: inv_intros NewLimiter_inv)

lemma admit_buckets: "lm_buckets (snd (admit l subject t now)) = lm_buckets l"
  by (simp add: admit_def Let_def put_state_def case_prod_unfold split: option.split)

lemma lm_reach_buckets: "lm_reach l \<Longrightarrow> lm_buckets l = 60"
proof (induction rule: lm_reach.induct)
  case (reach_reserve l subject maxTokens promptTokens now)
  then show ?case by (simp add: Reserve_unfold Let_def admit_buckets put_state_def)
next
  case (reach_commit l ro actual now)
  then show ?case
    by (auto simp: Commit_def Let_def put_state_def split: option.split)
qed (auto simp: NewLimiter_def defaultBuckets_def SetLimits_def Release_def Snapshot_def
    janitor_tick_def put_state_def case_prod_unfold Let_def split: option.split)

text \<open>
  C14: In every reachable limiter, whatever the order of operations, the in-flight counter of a
  subject is exactly its number of open reservations (the clamp at zero never hides a
  miscount), every open reservation is stored under its own identifier, which the limiter
  issued to this subject, and each subject has its sixty buckets.
\<close>

theorem limiter_invariant:
  assumes "lm_reach l" "gm_get (lm_states l) subject = Some st"
  shows "s_inflight st = int (length (s_res st)) \<and> distinct (map fst (s_res st)) \<and>
    length (s_buckets st) = 60 \<and> (\<forall>p \<in> set (s_res st). res_ok (lm_seq l) subject p)"
proof -
  have "st_inv (lm_buckets l) (lm_seq l) subject st"
    using lm_reach_inv [OF assms(1)] assms(2) by (simp add: lm_inv_def)
  then show ?thesis
    using lm_reach_buckets [OF assms(1)] by (simp add: st_inv_def gm_wf_def)
qed

definition demo_limits :: limits where
  "demo_limits = \<lparr>l_tokens = 100, l_window = 60 * 10 ^ 9, l_maxConcurrent = 2, l_ttl = 10 ^ 12\<rparr>"

text \<open>A limiter after one admission, at one minute past the epoch.\<close>

definition demo_limiter :: limiter where
  "demo_limiter = snd (Reserve (NewLimiter demo_limits) ''t'' 70 10 (60 * 10 ^ 9))"

lemma demo_reach: "lm_reach demo_limiter"
  unfolding demo_limiter_def by (intro lm_reach.intros) (simp add: NewLimiter_def)

theorem limiter_invariant_witness:
  "(case gm_get (lm_states demo_limiter) ''t'' of
      Some st \<Rightarrow> s_inflight st = 1 \<and> s_inflight st = int (length (s_res st))
    | None \<Rightarrow> False)"
proof -
  have s: "(case gm_get (lm_states demo_limiter) ''t'' of Some st \<Rightarrow> s_inflight st = 1 | None \<Rightarrow> False)"
    by code_simp
  then obtain st where st: "gm_get (lm_states demo_limiter) ''t'' = Some st" "s_inflight st = 1"
    by (auto split: option.splits)
  from limiter_invariant [OF demo_reach st(1)] st show ?thesis by simp
qed

text \<open>Admission respects the concurrency bound and registers what it admits: when Reserve
  succeeds in a reachable limiter, the reservation carries a fresh identifier, is open
  afterwards, and the subject has at most MaxConcurrent reservations open.\<close>

theorem Reserve_admission:
  assumes "lm_reach l" "lm_seq l < 2 ^ 64 - 1"
    and "Reserve l subject maxTokens promptTokens now = (Inr r, l')"
  shows "gm_get (s_res (stateFor l subject)) (rv_id r) = None \<and>
    gm_get (s_res (stateFor l' subject)) (rv_id r) = Some r \<and> rv_subject r = subject \<and>
    (0 < l_maxConcurrent (limitsFor l subject) \<longrightarrow>
      int (length (s_res (stateFor l' subject))) \<le> l_maxConcurrent (limitsFor l subject))"
proof -
  let ?t = "wrap64 (promptTokens + maxTokens)"
  note inv = lm_reach_inv [OF assms(1)]
  have a: "admit l subject ?t now = (Inr r, l')"
    and c: "0 < l_maxConcurrent (limitsFor l subject) \<Longrightarrow>
      s_inflight (reserve_swept l subject now) < l_maxConcurrent (limitsFor l subject)"
    using assms(3) by (auto simp: Reserve_unfold Let_def split: if_splits)
  obtain slot start st where ch: "charge l (reserve_base l subject now) (limitsFor l subject) now ?t =
      Some (slot, start, st)"
    using a by (auto simp: admit_def Let_def split: option.splits)
  note st = charge_inv [OF ch reserve_base_inv [OF inv]] charge_res [OF ch]
  have base: "s_inflight (reserve_base l subject now) = s_inflight (reserve_swept l subject now)"
    by (simp add: reserve_base_def reserve_swept_def currentUsage_def Let_def)
  have r: "rv_id r = reservation_id subject (Suc (lm_seq l))" "rv_subject r = subject"
    and l': "stateFor l' subject =
      st\<lparr>s_res := gm_set (rv_id r) r (s_res st), s_inflight := s_inflight st + 1\<rparr>"
    using a ch next_seq_Suc [OF assms(2)]
    by (auto simp: admit_def Let_def put_state_def stateFor_def gm_get_set)
  have fresh: "gm_get (s_res s) (rv_id r) = None" if "st_inv n (lm_seq l) subject s" for n s
  proof (rule ccontr)
    assume "gm_get (s_res s) (rv_id r) \<noteq> None"
    then obtain q where "(rv_id r, q) \<in> set (s_res s)" by (auto dest: map_of_SomeD)
    then show False using that r by (auto simp: st_inv_def res_ok_def reservation_id_inj)
  qed
  have "length (s_res (stateFor l' subject)) = Suc (length (s_res st))"
    unfolding l' using fresh [OF st(1)] by (simp add: gm_set_fresh)
  moreover have "int (length (s_res st)) = s_inflight (reserve_swept l subject now)"
    using st base by (simp add: st_inv_def)
  ultimately show ?thesis
    using c fresh [OF lm_inv_stateFor [OF inv]] r l' by (auto simp: gm_get_set)
qed

theorem Reserve_admission_witness:
  "(case Reserve demo_limiter ''t'' 5 5 (61 * 10 ^ 9) of
      (Inr r, l') \<Rightarrow> gm_get (s_res (stateFor l' ''t'')) (rv_id r) = Some r
    | _ \<Rightarrow> False)"
proof -
  have "is_ok (fst (Reserve demo_limiter ''t'' 5 5 (61 * 10 ^ 9)))" by code_simp
  then obtain r l' where R: "Reserve demo_limiter ''t'' 5 5 (61 * 10 ^ 9) = (Inr r, l')"
    by (cases "Reserve demo_limiter ''t'' 5 5 (61 * 10 ^ 9)") (auto simp: is_ok_iff)
  have "lm_seq demo_limiter < 2 ^ 64 - 1"
  proof -
    have "lm_seq demo_limiter = 1" by code_simp
    then show ?thesis by simp
  qed
  from Reserve_admission [OF demo_reach this R] R show ?thesis by simp
qed

text \<open>A reservation is settled at most once: after a successful Commit or Release, committing
  or releasing it again, at any later time, is refused and changes nothing, so the refund
  happens once.\<close>

theorem settled_once:
  assumes "fst (Commit l (Some r) u now) = None \<and> l' = snd (Commit l (Some r) u now) \<or>
           fst (Release l (Some r)) = None \<and> l' = snd (Release l (Some r))"
  shows "Commit l' (Some r) u' now' = (Some UnknownReservation, l') \<and>
         Release l' (Some r) = (Some UnknownReservation, l')"
proof -
  have "\<exists>st. gm_get (lm_states l') (rv_subject r) = Some st \<and> gm_get (s_res st) (rv_id r) = None"
    using assms
    by (auto simp: Commit_def Release_def Let_def put_state_def gm_simps charge_res
        split: option.splits if_splits)
  then show ?thesis by (auto simp: Commit_def Release_def)
qed

theorem settled_once_witness:
  "(let r = (case fst (Reserve (NewLimiter demo_limits) ''t'' 70 10 (60 * 10 ^ 9)) of Inr r \<Rightarrow> r);
        l' = snd (Release demo_limiter (Some r)) in
    fst (Release demo_limiter (Some r)) = None \<and> Release l' (Some r) = (Some UnknownReservation, l'))"
proof -
  let ?r = "case fst (Reserve (NewLimiter demo_limits) ''t'' 70 10 (60 * 10 ^ 9)) of Inr r \<Rightarrow> r"
  have "fst (Release demo_limiter (Some ?r)) = None" by code_simp
  then show ?thesis
    using settled_once [of demo_limiter ?r undefined undefined "snd (Release demo_limiter (Some ?r))"]
    unfolding Let_def by blast
qed

text \<open>A request whose prompt and declared maximum add up to more than the largest int64 is
  never refused for tokens: the addition wraps to a negative number, so the quota does not
  bound it, whatever the quota and the usage so far.\<close>

theorem Reserve_overflow_passes_quota:
  assumes "0 \<le> maxTokens" "maxTokens \<le> int64_max" "0 \<le> promptTokens" "promptTokens \<le> int64_max"
    and "int64_max < promptTokens + maxTokens"
    and "0 \<le> reserve_used l subject now" "reserve_used l subject now \<le> l_tokens (limitsFor l subject)"
    and "l_tokens (limitsFor l subject) \<le> int64_max"
  shows "fst (Reserve l subject maxTokens promptTokens now) \<noteq> Inl QuotaExceeded"
proof -
  let ?s = "promptTokens + maxTokens"
  have "wrap64 ?s = ?s - 2 ^ 64"
  proof -
    have "0 \<le> ?s - 2 ^ 63" "?s - 2 ^ 63 < 2 ^ 64" using assms by (auto simp: int64_max_def)
    then have "(?s - 2 ^ 63) mod 2 ^ 64 = ?s - 2 ^ 63" by (rule mod_pos_pos_trivial)
    moreover have "?s + 2 ^ 63 = ?s - 2 ^ 63 + 2 ^ 64" by simp
    ultimately have "(?s + 2 ^ 63) mod 2 ^ 64 = ?s - 2 ^ 63" by (simp only: mod_add_self2)
    then show ?thesis by (simp add: wrap64_def)
  qed
  moreover have "wrap64 (reserve_used l subject now + (?s - 2 ^ 64)) = reserve_used l subject now + (?s - 2 ^ 64)"
    using assms by (intro wrap64_id) (auto simp: int64_def int64_min_def int64_max_def)
  ultimately have "\<not> wrap64 (reserve_used l subject now + wrap64 ?s) > l_tokens (limitsFor l subject)"
    using assms by (simp add: int64_max_def)
  moreover have "fst (admit l subject t now) \<noteq> Inl QuotaExceeded" for t
    by (simp add: admit_def Let_def case_prod_unfold split: option.split)
  ultimately show ?thesis
    using assms(1,3) by (simp add: Reserve_unfold Let_def)
qed

theorem Reserve_overflow_passes_quota_witness:
  "fst (Reserve (NewLimiter demo_limits) ''t'' int64_max 1 (60 * 10 ^ 9)) \<noteq> Inl QuotaExceeded \<and>
   fst (fst (Snapshot (snd (Reserve (NewLimiter demo_limits) ''t'' int64_max 1 (60 * 10 ^ 9))) ''t'' (60 * 10 ^ 9)))
     = int64_min"
proof -
  let ?l = "NewLimiter demo_limits"
  have u: "reserve_used ?l ''t'' (60 * 10 ^ 9) = 0" by code_simp
  have q: "l_tokens (limitsFor ?l ''t'') = 100" by code_simp
  have "fst (Reserve ?l ''t'' int64_max 1 (60 * 10 ^ 9)) \<noteq> Inl QuotaExceeded"
    by (rule Reserve_overflow_passes_quota) (simp_all only: u q, simp_all add: int64_max_def)
  moreover have "fst (fst (Snapshot (snd (Reserve ?l ''t'' int64_max 1 (60 * 10 ^ 9))) ''t'' (60 * 10 ^ 9))) = int64_min"
    by code_simp
  ultimately show ?thesis by blast
qed

definition seven_minutes :: limits where
  "seven_minutes = \<lparr>l_tokens = 100, l_window = 420 * 10 ^ 9, l_maxConcurrent = 0, l_ttl = 10 ^ 12\<rparr>"

text \<open>The slot of a bucket counts spans since the Unix epoch and its start since Go's zero
  time. With a window of seven minutes the two disagree: a charge three seconds later falls
  into the same slot with another start and erases the earlier one, so 120 tokens are
  admitted within four seconds against a quota of 100, and the usage reads 80.\<close>

theorem misaligned_window_loses_tokens:
  shows "(let l0 = NewLimiter seven_minutes;
        (r1, l1) = Reserve l0 ''t'' 40 0 (701 * 10 ^ 9);
        (r2, l2) = Reserve l1 ''t'' 40 0 (704 * 10 ^ 9);
        (r3, l3) = Reserve l2 ''t'' 40 0 (705 * 10 ^ 9) in
    is_ok r1 \<and> is_ok r2 \<and> is_ok r3 \<and> fst (Snapshot l3 ''t'' (705 * 10 ^ 9)) = (80, 3, 100))"
  by code_simp

end
