(* ===== verification/RateLedger.thy ===== *)
theory RateLedger imports RateLimit begin

text \<open>
  The limiter refines a ledger: when the bucket width divides Go's zero-time offset and the
  window is sixty widths, the sixty buckets are exactly a ledger of the tokens charged per
  period, so \<open>currentUsage\<close> is the sum over the last sixty periods and an admission keeps
  that sum within the quota. The locale aligned_window holds the argument; the interpretation
  is the default window of a minute.
\<close>

definition window_sum :: "(int \<Rightarrow> int) \<Rightarrow> int \<Rightarrow> int" where
  "window_sum L k = sum L {k - 59..k}"

definition slot_of :: "int \<Rightarrow> nat" where
  "slot_of k = nat (k mod 60)"

text \<open>The buckets \<open>bs\<close> represent the ledger \<open>L\<close>, the last charge being in period \<open>p\<close>.\<close>

definition rep ::
    "int \<Rightarrow> bucket list \<Rightarrow> (int \<Rightarrow> int) \<Rightarrow> int \<Rightarrow> bool" where
  "rep w bs L p \<longleftrightarrow> length bs = 60 \<and> 60 \<le> p \<and>
     (\<forall>i < 60. bs ! i = empty_bucket \<or> (\<exists>k \<le> p. b_start (bs ! i) = w * k \<and> slot_of k = i)) \<and>
     (\<forall>k. p - 60 < k \<longrightarrow> k \<le> p \<longrightarrow>
        (if b_start (bs ! slot_of k) = w * k then b_tokens (bs ! slot_of k) = L k else L k = 0)) \<and>
     (\<forall>k > p. L k = 0)"

definition live_sum :: "int \<Rightarrow> bucket list \<Rightarrow> int" where
  "live_sum cutoff bs = sum_list (map (\<lambda>b. if b_start b \<le> cutoff then 0 else b_tokens b) bs)"

definition bounded :: "(int \<Rightarrow> int) \<Rightarrow> bool" where
  "bounded L \<longleftrightarrow> (\<forall>k. 0 \<le> L k \<and> L k \<le> int64_max)"

definition res_rep ::
    "int \<Rightarrow> int \<Rightarrow> reservation \<Rightarrow> bool" where
  "res_rep w p r \<longleftrightarrow> 0 \<le> rv_reserved r \<and> rv_reserved r \<le> int64_max \<and>
     (\<exists>k. 0 < k \<and> k \<le> p \<and> rv_slot r = k mod 60 \<and> rv_start r = w * k)"

definition st_rep ::
    "int \<Rightarrow> subject_state \<Rightarrow> (int \<Rightarrow> int) \<Rightarrow> int \<Rightarrow> bool" where
  "st_rep w st L p \<longleftrightarrow> rep w (s_buckets st) L p \<and> bounded L \<and> (\<forall>q \<in> set (s_res st). res_rep w p (snd q))"

definition spec_settle ::
    "int \<Rightarrow> reservation \<Rightarrow> (int \<Rightarrow> int) \<Rightarrow> int \<Rightarrow> int" where
  "spec_settle w r L = (let k = rv_start r div w in L(k := max 0 (L k - rv_reserved r)))"

fun spec_sweep ::
    "int \<Rightarrow> (string \<times> reservation) list \<Rightarrow> limits \<Rightarrow> int \<Rightarrow> (int \<Rightarrow> int) \<Rightarrow> int \<Rightarrow> int" where
  "spec_sweep w [] lm now L = L"
| "spec_sweep w ((rid, r) # rs) lm now L =
     (if time_sub now (rv_issued r) < l_ttl lm then spec_sweep w rs lm now L
      else spec_sweep w rs lm now (spec_settle w r L))"

text \<open>The ledger of a subject in a limiter, with the last charge no later than period \<open>p\<close>.\<close>

definition ledger ::
    "int \<Rightarrow> limiter \<Rightarrow> string \<Rightarrow> (int \<Rightarrow> int) \<Rightarrow> int \<Rightarrow> bool" where
  "ledger w l subject L p \<longleftrightarrow> lm_buckets l = 60 \<and> l_window (limitsFor l subject) = 60 * w \<and>
     st_rep w (stateFor l subject) L p"

text \<open>The ledger after the sweep that every \<open>Reserve\<close> starts with.\<close>

definition swept ::
    "int \<Rightarrow> limiter \<Rightarrow> string \<Rightarrow> int \<Rightarrow> (int \<Rightarrow> int) \<Rightarrow> int \<Rightarrow> int" where
  "swept w l subject now L = spec_sweep w (s_res (stateFor l subject)) (limitsFor l subject) now L"

locale aligned_window =
  fixes w :: int
  assumes w_pos: "0 < w" and w_aligned: "w dvd zero_time_offset"
begin

lemma truncate_eq: "time_truncate now w = w * (now div w)"
proof -
  have "(now + zero_time_offset) mod w = now mod w"
    using w_aligned by (metis add.right_neutral dvd_imp_mod_0 mod_add_right_eq)
  then show ?thesis
    using w_pos by (simp add: time_truncate_def minus_mod_eq_mult_div)
qed

lemma slot_less [simp]: "slot_of k < 60"
  by (simp add: slot_of_def)

lemma slot_window: "slot_of k = slot_of j \<Longrightarrow> \<bar>k - j\<bar> < 60 \<Longrightarrow> k = j"
proof -
  assume a: "slot_of k = slot_of j" "\<bar>k - j\<bar> < 60"
  then have "k mod 60 = j mod 60" by (simp add: slot_of_def nat_eq_iff2)
  then have "60 dvd k - j" by (simp add: mod_eq_dvd_iff)
  with a(2) show ?thesis using dvd_imp_le_int [of "k - j" 60] by auto
qed

lemma rep_length: "rep w bs L p \<Longrightarrow> length bs = 60"
  by (simp add: rep_def)

lemma repI:
  assumes "length bs = 60" "60 \<le> p"
    and "\<And>i. i < 60 \<Longrightarrow> bs ! i = empty_bucket \<or> (\<exists>k \<le> p. b_start (bs ! i) = w * k \<and> slot_of k = i)"
    and "\<And>k. p - 60 < k \<Longrightarrow> k \<le> p \<Longrightarrow>
        if b_start (bs ! slot_of k) = w * k then b_tokens (bs ! slot_of k) = L k else L k = 0"
    and "\<And>k. p < k \<Longrightarrow> L k = 0"
  shows "rep w bs L p"
  using assms unfolding rep_def by blast

lemma rep_future: "rep w bs L p \<Longrightarrow> p < k \<Longrightarrow> L k = 0"
  by (simp add: rep_def)

lemma rep_late: "rep w bs L p \<Longrightarrow> 60 \<le> p"
  by (simp add: rep_def)

lemma rep_start:
  assumes "rep w bs L p" "b_start (bs ! slot_of k) = w * k" "0 < k"
  shows "k \<le> p"
proof -
  have "bs ! slot_of k \<noteq> empty_bucket" using assms w_pos by (auto simp: empty_bucket_def)
  then obtain j where "j \<le> p" "b_start (bs ! slot_of k) = w * j"
    using assms(1) unfolding rep_def by (metis slot_less)
  with assms w_pos show ?thesis by simp
qed

lemma rep_advance:
  assumes "rep w bs L p" "p \<le> q"
  shows "rep w bs L q"
proof -
  have "if b_start (bs ! slot_of k) = w * k then b_tokens (bs ! slot_of k) = L k else L k = 0"
    if "q - 60 < k" "k \<le> q" for k
  proof (cases "k \<le> p")
    case True
    then show ?thesis using assms that unfolding rep_def by auto
  next
    case False
    then have "b_start (bs ! slot_of k) \<noteq> w * k"
      using rep_start [OF assms(1), of k] assms(1) by (auto simp: rep_def)
    with False assms show ?thesis by (auto simp: rep_def)
  qed
  with assms show ?thesis unfolding rep_def by (meson order.trans order.strict_trans1)
qed

lemma live_iff: "w * k \<le> now - 60 * w \<longleftrightarrow> k \<le> now div w - 60"
proof -
  have "k + 60 \<le> now div w \<longleftrightarrow> (k + 60) * w \<le> now" by (rule le_div_iff [OF w_pos])
  then show ?thesis by (simp add: algebra_simps)
qed

lemma rep_expire:
  assumes "rep w bs L (now div w)"
  shows "rep w (map (expire (now - 60 * w)) bs) L (now div w)"
proof -
  let ?e = "expire (now - 60 * w)"
  have len: "length bs = 60" using assms by (rule rep_length)
  have "?e (bs ! i) = empty_bucket \<or> (\<exists>k \<le> now div w. b_start (?e (bs ! i)) = w * k \<and> slot_of k = i)" if "i < 60" for i
    using assms that by (auto simp: rep_def expire_def)
  moreover have "if b_start (?e (bs ! slot_of k)) = w * k then b_tokens (?e (bs ! slot_of k)) = L k else L k = 0"
    if k: "now div w - 60 < k" "k \<le> now div w" for k
  proof -
    have "\<not> w * k \<le> now - 60 * w" using k by (simp add: live_iff)
    moreover have "0 < w * k" using assms k w_pos by (simp add: rep_def)
    ultimately show ?thesis
      using assms k unfolding rep_def expire_def by (auto simp: empty_bucket_def)
  qed
  ultimately show ?thesis using assms len by (simp add: rep_def)
qed

lemma rep_charge:
  assumes r: "rep w bs L p" and t: "int64 (L p + t)"
  defines "b \<equiv> bs ! slot_of p"
  defines "b' \<equiv> (if b_start b \<noteq> w * p then \<lparr>b_start = w * p, b_tokens = 0\<rparr> else b)"
  shows "rep w (bs[slot_of p := b'\<lparr>b_tokens := wrap64 (b_tokens b' + t)\<rparr>]) (L(p := L p + t)) p"
proof -
  let ?n = "b'\<lparr>b_tokens := wrap64 (b_tokens b' + t)\<rparr>"
  have len: "length bs = 60" using r by (rule rep_length)
  have "b_tokens b' = L p"
    using r unfolding rep_def b'_def b_def by auto
  then have n: "b_start ?n = w * p" "b_tokens ?n = L p + t"
    using t by (simp_all add: b'_def wrap64_id)
  have B: "bs[slot_of p := ?n] ! i = empty_bucket \<or> (\<exists>k \<le> p. b_start (bs[slot_of p := ?n] ! i) = w * k \<and> slot_of k = i)"
    if "i < 60" for i
    using r n len that by (cases "i = slot_of p") (auto simp: rep_def)
  have W: "if b_start (bs[slot_of p := ?n] ! slot_of k) = w * k
      then b_tokens (bs[slot_of p := ?n] ! slot_of k) = (L(p := L p + t)) k else (L(p := L p + t)) k = 0"
    if k: "p - 60 < k" "k \<le> p" for k
  proof (cases "k = p")
    case True
    then show ?thesis using n len by simp
  next
    case False
    then have "slot_of k \<noteq> slot_of p" using slot_window [of k p] k by auto
    then show ?thesis using r k False unfolding rep_def by simp
  qed
  show ?thesis
    by (rule repI [OF _ rep_late [OF r] B W]) (use len rep_future [OF r] in simp_all)
qed

lemma rep_refund:
  assumes r: "rep w (s_buckets st) L p" and k0: "k0 \<le> p" "0 < k0" and t: "int64 (L k0 - t)" "0 \<le> t"
  shows "rep w (s_buckets (refund st (k0 mod 60) (w * k0) t)) (L(k0 := max 0 (L k0 - t))) p"
proof -
  let ?b = "s_buckets st ! slot_of k0"
  let ?L = "L(k0 := max 0 (L k0 - t))"
  have len: "length (s_buckets st) = 60" using r by (rule rep_length)
  have s: "nat (k0 mod 60) = slot_of k0" "0 \<le> k0 mod 60" "k0 mod 60 < 60" by (simp_all add: slot_of_def)
  show ?thesis
  proof (cases "b_start ?b = w * k0")
    case False
    then have "L k0 = 0 \<or> k0 \<le> p - 60" using r k0 unfolding rep_def by (auto split: if_splits)
    then have "rep w (s_buckets st) ?L p"
      using r k0 t(2) unfolding rep_def by (auto split: if_splits)
    with False s len show ?thesis by (simp add: refund_def Let_def)
  next
    case True
    let ?n = "?b\<lparr>b_tokens := (if wrap64 (b_tokens ?b - t) < 0 then 0 else wrap64 (b_tokens ?b - t))\<rparr>"
    have e: "s_buckets (refund st (k0 mod 60) (w * k0) t) = (s_buckets st)[slot_of k0 := ?n]"
    proof -
      have "\<not> (k0 mod 60 < 0 \<or> k0 mod 60 \<ge> int (length (s_buckets st)))" using s(2,3) len by linarith
      then show ?thesis unfolding refund_def s(1) Let_def using True by simp
    qed
    have B: "(s_buckets st)[slot_of k0 := ?n] ! i = empty_bucket \<or>
        (\<exists>k \<le> p. b_start ((s_buckets st)[slot_of k0 := ?n] ! i) = w * k \<and> slot_of k = i)" if "i < 60" for i
      using r True len that k0 by (cases "i = slot_of k0") (auto simp: rep_def)
    have W: "if b_start ((s_buckets st)[slot_of k0 := ?n] ! slot_of k) = w * k
        then b_tokens ((s_buckets st)[slot_of k0 := ?n] ! slot_of k) = ?L k else ?L k = 0"
      if k: "p - 60 < k" "k \<le> p" for k
    proof (cases "k = k0")
      case True
      moreover have "b_tokens ?b = L k0"
        using r k \<open>b_start ?b = w * k0\<close> True unfolding rep_def by (auto split: if_splits)
      ultimately show ?thesis using \<open>b_start ?b = w * k0\<close> len t by (auto simp: wrap64_id)
    next
      case False
      show ?thesis
      proof (cases "slot_of k = slot_of k0")
        case True
        then have "b_start ?b \<noteq> w * k" using False \<open>b_start ?b = w * k0\<close> w_pos by simp
        then have "L k = 0" using r k True unfolding rep_def by (auto split: if_splits)
        with True False \<open>b_start ?b \<noteq> w * k\<close> len show ?thesis by simp
      next
        case ne: False
        then show ?thesis using r k False unfolding rep_def by auto
      qed
    qed
    show ?thesis
      unfolding e by (rule repI [OF _ rep_late [OF r] B W]) (use len k0 rep_future [OF r] in auto)
  qed
qed

lemma live_sum_nonneg:
  "\<forall>b \<in> set bs. cutoff < b_start b \<longrightarrow> 0 \<le> b_tokens b \<Longrightarrow> 0 \<le> live_sum cutoff bs"
  unfolding live_sum_def by (rule sum_list_nonneg) auto

lemma usage_loop_live:
  assumes "\<forall>b \<in> set bs. cutoff < b_start b \<longrightarrow> 0 \<le> b_tokens b" "0 \<le> acc"
    and "acc + live_sum cutoff bs \<le> int64_max"
  shows "usage_loop cutoff bs acc = acc + live_sum cutoff bs"
  using assms
proof (induction cutoff bs acc rule: usage_loop.induct)
  case (2 cutoff b bs acc)
  have l: "live_sum cutoff (b # bs) = (if b_start b \<le> cutoff then 0 else b_tokens b) + live_sum cutoff bs"
    by (simp add: live_sum_def)
  have "0 \<le> live_sum cutoff bs" using 2(3) by (intro live_sum_nonneg) simp
  then have "int64 (acc + b_tokens b)" if "\<not> b_start b \<le> cutoff"
    using 2(3,4,5) that l by (simp add: int64_def int64_min_def)
  with 2 l show ?case by (auto simp: wrap64_id)
qed (simp add: live_sum_def)

lemma rep_live_bucket:
  assumes r: "rep w bs L (now div w)" and k: "now div w - 60 < k" "k \<le> now div w"
  shows "(if b_start (bs ! slot_of k) \<le> now - 60 * w then 0 else b_tokens (bs ! slot_of k)) = L k"
proof (cases "b_start (bs ! slot_of k) = w * k")
  case True
  moreover have "\<not> w * k \<le> now - 60 * w" using k by (simp add: live_iff)
  ultimately show ?thesis using r k unfolding rep_def by auto
next
  case False
  then have "L k = 0" using r k unfolding rep_def by auto
  moreover have "b_start (bs ! slot_of k) \<le> now - 60 * w"
  proof (rule ccontr)
    assume c: "\<not> b_start (bs ! slot_of k) \<le> now - 60 * w"
    have "w * 0 \<le> now - 60 * w" using rep_late [OF r] by (subst live_iff) simp
    with c have "bs ! slot_of k \<noteq> empty_bucket" by (auto simp: empty_bucket_def)
    then obtain j where j: "j \<le> now div w" "b_start (bs ! slot_of k) = w * j" "slot_of j = slot_of k"
      using r unfolding rep_def by (metis slot_less)
    with c have "\<not> j \<le> now div w - 60" using live_iff by simp
    with j k have "j = k" by (intro slot_window) auto
    with j False show False by simp
  qed
  ultimately show ?thesis by simp
qed

lemma rep_live:
  assumes r: "rep w bs L (now div w)"
  shows "live_sum (now - 60 * w) bs = window_sum L (now div w)"
proof -
  let ?K = "now div w"
  define g where "g = (\<lambda>i :: nat. ?K - (?K - int i) mod 60)"
  have g: "?K - 60 < g i" "g i \<le> ?K" for i
    by (simp_all add: g_def)
  have sg: "slot_of (g i) = i" if "i < 60" for i
  proof -
    have "g i mod 60 = (?K - (?K - int i)) mod 60"
      unfolding g_def by (rule mod_diff_right_eq)
    then show ?thesis using that by (simp add: slot_of_def)
  qed
  have gs: "g (slot_of k) = k" if "?K - 59 \<le> k" "k \<le> ?K" for k
  proof (rule slot_window)
    show "slot_of (g (slot_of k)) = slot_of k" by (rule sg) simp
    show "\<bar>g (slot_of k) - k\<bar> < 60" using g [of "slot_of k"] that by auto
  qed
  have "live_sum (now - 60 * w) bs = (\<Sum>i = 0..<60. if b_start (bs ! i) \<le> now - 60 * w then 0 else b_tokens (bs ! i))"
    by (simp add: live_sum_def sum_list_sum_nth rep_length [OF r])
  also have "\<dots> = (\<Sum>i = 0..<60. L (g i))"
  proof (rule sum.cong [OF refl])
    fix i
    assume "i \<in> {0..<60 :: nat}"
    then have i: "i < 60" by simp
    show "(if b_start (bs ! i) \<le> now - 60 * w then 0 else b_tokens (bs ! i)) = L (g i)"
      using rep_live_bucket [OF r g(1) g(2), of i] unfolding sg [OF i] .
  qed
  also have "\<dots> = sum L {?K - 59..?K}"
  proof (rule sum.reindex_bij_witness [where i = slot_of and j = g])
    fix i
    show "g i \<in> {?K - 59..?K}" using g [of i] by simp
    show "slot_of (g i) = i" if "i \<in> {0..<60}" using that by (simp add: sg)
  qed (simp_all add: gs)
  finally show ?thesis by (simp add: window_sum_def)
qed

lemma st_rep_settle:
  assumes "st_rep w st L p" "res_rep w p r"
  shows "st_rep w (settle st rid r) (spec_settle w r L) p"
proof -
  obtain k where k: "0 < k" "k \<le> p" "rv_slot r = k mod 60" "rv_start r = w * k"
    and t: "0 \<le> rv_reserved r" "rv_reserved r \<le> int64_max"
    using assms(2) by (auto simp: res_rep_def)
  have d: "rv_start r div w = k" using k w_pos by simp
  let ?st = "st\<lparr>s_res := gm_del rid (s_res st),
    s_inflight := (if s_inflight st - 1 < 0 then 0 else s_inflight st - 1)\<rparr>"
  have b: "0 \<le> L k" "L k \<le> int64_max" using assms(1) by (auto simp: st_rep_def bounded_def)
  have i: "int64 (L k - rv_reserved r)" using b t by (simp add: int64_def int64_min_def int64_max_def)
  have "rep w (s_buckets (refund ?st (k mod 60) (w * k) (rv_reserved r))) (L(k := max 0 (L k - rv_reserved r))) p"
    by (rule rep_refund) (use assms k t i in \<open>auto simp: st_rep_def\<close>)
  moreover have "max 0 (L k - rv_reserved r) \<le> int64_max"
    using b t by (simp add: int64_max_def)
  then have "bounded (L(k := max 0 (L k - rv_reserved r)))"
    using assms(1) by (auto simp: st_rep_def bounded_def)
  ultimately show ?thesis
    using assms(1) k d by (auto simp: st_rep_def settle_def spec_settle_def Let_def gm_del_mem)
qed

lemma st_rep_sweep:
  "st_rep w st L p \<Longrightarrow> \<forall>q \<in> set rs. res_rep w p (snd q) \<Longrightarrow>
   st_rep w (sweep_loop rs lm now st) (spec_sweep w rs lm now L) p"
proof (induction rs arbitrary: st L)
  case (Cons q rs)
  then show ?case by (cases q) (simp add: st_rep_settle)
qed simp

lemma res_rep_advance: "res_rep w p r \<Longrightarrow> p \<le> q \<Longrightarrow> res_rep w q r"
  unfolding res_rep_def by (meson order.trans)

lemma st_rep_advance: "st_rep w st L p \<Longrightarrow> p \<le> q \<Longrightarrow> st_rep w st L q"
  by (auto simp: st_rep_def rep_advance intro: res_rep_advance)

lemma st_rep_expire:
  "st_rep w st L (now div w) \<Longrightarrow> st_rep w (st\<lparr>s_buckets := map (expire (now - 60 * w)) (s_buckets st)\<rparr>) L (now div w)"
  by (simp add: st_rep_def rep_expire)

lemma st_rep_usage:
  assumes r: "st_rep w st L (now div w)" and le: "window_sum L (now div w) \<le> int64_max"
  shows "usage_loop (now - 60 * w) (s_buckets st) 0 = window_sum L (now div w)"
proof -
  let ?bs = "s_buckets st"
  have rp: "rep w ?bs L (now div w)" and b: "\<And>k. 0 \<le> L k" using r by (auto simp: st_rep_def bounded_def)
  have "0 \<le> b_tokens x" if x: "x \<in> set ?bs" "now - 60 * w < b_start x" for x
  proof -
    have "w * 0 \<le> now - 60 * w" using rep_late [OF rp] by (subst live_iff) simp
    with x(2) have ne: "x \<noteq> empty_bucket" by (auto simp: empty_bucket_def)
    obtain i where i: "i < 60" "x = ?bs ! i" using x rep_length [OF rp] by (auto simp: in_set_conv_nth)
    then obtain k where k: "k \<le> now div w" "b_start x = w * k" "slot_of k = i"
      using rp ne unfolding rep_def by metis
    with x(2) have "now div w - 60 < k" using live_iff [of k now] by simp
    with rep_live_bucket [OF rp this k(1)] x(2) i k b [of k] show ?thesis by simp
  qed
  then show ?thesis
    using usage_loop_live [of ?bs "now - 60 * w" 0] le rep_live [OF rp] by simp
qed

lemma st_rep_charge:
  assumes r: "st_rep w st L (now div w)" and l: "lm_buckets l = 60" "l_window lm = 60 * w"
    and t: "0 \<le> t" "L (now div w) + t \<le> int64_max"
  shows "\<exists>st'. charge l st lm now t = Some (now div w mod 60, w * (now div w), st') \<and>
    st_rep w st' (L(now div w := L (now div w) + t)) (now div w) \<and>
    s_res st' = s_res st \<and> s_inflight st' = s_inflight st"
proof -
  let ?K = "now div w"
  have rp: "rep w (s_buckets st) L ?K" and b: "bounded L" using r by (auto simp: st_rep_def)
  have K: "0 \<le> ?K" using rep_late [OF rp] by simp
  then have n: "0 \<le> now" using w_pos by (simp add: pos_imp_zdiv_nonneg_iff)
  have bs: "bucketSpan l lm = w" using l w_pos by (simp add: bucketSpan_def go_div_nonneg)
  have s: "go_mod (go_div now w) (int (lm_buckets l)) = ?K mod 60"
    using n K w_pos l by (simp add: go_div_nonneg go_mod_nonneg)
  have nn: "nat (?K mod 60) = slot_of ?K" by (simp add: slot_of_def)
  have ok: "\<not> (?K mod 60 < 0 \<or> ?K mod 60 \<ge> int (length (s_buckets st)))"
    using rep_length [OF rp] pos_mod_bound [of 60 ?K] pos_mod_sign [of 60 ?K] by linarith
  have "0 \<le> L ?K" using b by (simp add: bounded_def)
  then have i: "int64 (L ?K + t)" using t by (simp add: int64_def int64_min_def)
  let ?b = "s_buckets st ! slot_of ?K"
  let ?b' = "if b_start ?b \<noteq> w * ?K then \<lparr>b_start = w * ?K, b_tokens = 0\<rparr> else ?b"
  let ?st = "st\<lparr>s_buckets := (s_buckets st)[slot_of ?K := ?b'\<lparr>b_tokens := wrap64 (b_tokens ?b' + t)\<rparr>]\<rparr>"
  have "charge l st lm now t = Some (?K mod 60, w * ?K, ?st)"
    using w_pos ok unfolding charge_def Let_def bs s truncate_eq nn by simp
  moreover have "bounded (L(?K := L ?K + t))" using b t by (simp add: bounded_def)
  then have "st_rep w ?st (L(?K := L ?K + t)) ?K"
    using rep_charge [OF rp i] r by (simp add: st_rep_def)
  ultimately show ?thesis by simp
qed

lemma ledger_put:
  "ledger w l subject L p \<Longrightarrow> st_rep w st L' q \<Longrightarrow> ledger w (put_state (l\<lparr>lm_seq := n\<rparr>) subject st) subject L' q"
  "ledger w l subject L p \<Longrightarrow> st_rep w st L' q \<Longrightarrow> ledger w (put_state l subject st) subject L' q"
  by (auto simp: ledger_def put_state_def limitsFor_def stateFor_def gm_get_set split: option.splits)

lemma ledger_reserve_base:
  assumes "ledger w l subject L p" "p \<le> now div w"
  shows "st_rep w (reserve_swept l subject now) (swept w l subject now L) (now div w)"
    and "st_rep w (reserve_base l subject now) (swept w l subject now L) (now div w)"
proof -
  have "st_rep w (stateFor l subject) L (now div w)"
    using assms by (auto simp: ledger_def intro: st_rep_advance)
  then show s: "st_rep w (reserve_swept l subject now) (swept w l subject now L) (now div w)"
    unfolding reserve_swept_def swept_def sweepExpiredLocked_def
    by (rule st_rep_sweep) (use \<open>st_rep w (stateFor l subject) L (now div w)\<close> in \<open>simp add: st_rep_def\<close>)
  then show "st_rep w (reserve_base l subject now) (swept w l subject now L) (now div w)"
    using st_rep_expire [OF s] assms(1)
    by (simp add: reserve_base_def reserve_swept_def currentUsage_def Let_def ledger_def)
qed

lemma window_sum_charge: "window_sum (L(k := L k + t)) k = window_sum L k + t"
proof -
  have "window_sum M k = M k + sum M ({k - 59..k} - {k})" for M
    unfolding window_sum_def by (rule sum.remove) simp_all
  moreover have "sum (L(k := L k + t)) ({k - 59..k} - {k}) = sum L ({k - 59..k} - {k})"
    by (rule sum.cong) auto
  ultimately show ?thesis by simp
qed

lemma window_sum_ge: "bounded L \<Longrightarrow> L k \<le> window_sum L k"
  unfolding window_sum_def by (rule member_le_sum) (auto simp: bounded_def)

lemma admit_ledger:
  assumes l: "ledger w l subject L p" "p \<le> now div w"
    and t: "0 \<le> t" "window_sum (swept w l subject now L) (now div w) + t \<le> int64_max"
  shows "\<exists>r l'. admit l subject t now = (Inr r, l') \<and> rv_reserved r = t \<and>
    ledger w l' subject ((swept w l subject now L)(now div w := swept w l subject now L (now div w) + t)) (now div w)"
proof -
  let ?M = "swept w l subject now L" and ?K = "now div w"
  note base = ledger_reserve_base(2) [OF l]
  have b: "bounded ?M" using base by (simp add: st_rep_def)
  have "?M ?K + t \<le> int64_max" using window_sum_ge [OF b, of ?K] t by linarith
  then obtain st where st: "charge l (reserve_base l subject now) (limitsFor l subject) now t =
        Some (?K mod 60, w * ?K, st)" "st_rep w st (?M(?K := ?M ?K + t)) ?K"
    using st_rep_charge [OF base _ _ t(1), of l "limitsFor l subject"] l(1) by (auto simp: ledger_def)
  have K: "60 \<le> ?K" using base rep_late by (auto simp: st_rep_def)
  define r where "r = \<lparr>rv_id = reservation_id subject (next_seq (lm_seq l)), rv_subject = subject,
    rv_reserved = t, rv_issued = now, rv_slot = ?K mod 60, rv_start = w * ?K\<rparr>"
  have "0 \<le> window_sum ?M ?K" using b by (auto simp: window_sum_def bounded_def intro: sum_nonneg)
  then have "res_rep w ?K r"
    using t K by (auto simp: res_rep_def r_def intro!: exI [of _ ?K])
  then have "st_rep w (st\<lparr>s_res := gm_set (rv_id r) r (s_res st), s_inflight := s_inflight st + 1\<rparr>)
      (?M(?K := ?M ?K + t)) ?K"
    using st(2) by (auto simp: st_rep_def dest!: subsetD [OF gm_set_subset])
  from ledger_put(1) [OF l(1) this, of "next_seq (lm_seq l)"] show ?thesis
    using st(1) by (simp add: admit_def Let_def r_def put_state_def)
qed

lemma window_sum_nonneg: "bounded L \<Longrightarrow> 0 \<le> window_sum L k"
  unfolding window_sum_def by (rule sum_nonneg) (simp add: bounded_def)

lemma Reserve_ledger:
  assumes l: "ledger w l subject L p" "p \<le> now div w" and n: "0 \<le> maxTokens" "0 \<le> promptTokens"
    and t: "window_sum (swept w l subject now L) (now div w) + (promptTokens + maxTokens) \<le> int64_max"
  shows "let M = swept w l subject now L; K = now div w; t = promptTokens + maxTokens;
             quota = l_tokens (limitsFor l subject) in
    case Reserve l subject maxTokens promptTokens now of
      (Inl e, l') \<Rightarrow> ledger w l' subject M K \<and>
        (e = ConcurrencyExceeded \<or> e = QuotaExceeded \<and> 0 < quota \<and> quota < window_sum M K + t)
    | (Inr r, l') \<Rightarrow> ledger w l' subject (M(K := M K + t)) K \<and> rv_reserved r = t \<and>
        (0 < quota \<longrightarrow> window_sum (M(K := M K + t)) K \<le> quota)"
proof -
  let ?M = "swept w l subject now L" and ?K = "now div w" and ?t = "promptTokens + maxTokens"
  note sw = ledger_reserve_base [OF l]
  have b: "0 \<le> window_sum ?M ?K" using sw(1) by (intro window_sum_nonneg) (simp add: st_rep_def)
  have w1: "wrap64 ?t = ?t" using n t b by (intro wrap64_id) (simp add: int64_def int64_min_def)
  have used: "reserve_used l subject now = window_sum ?M ?K"
    using st_rep_usage [OF sw(1)] t n b l(1)
    by (simp add: reserve_used_def currentUsage_def Let_def ledger_def)
  have w2: "wrap64 (window_sum ?M ?K + ?t) = window_sum ?M ?K + ?t"
    using n t b by (intro wrap64_id) (simp add: int64_def int64_min_def)
  obtain r l' where a: "admit l subject ?t now = (Inr r, l')" "rv_reserved r = ?t"
      "ledger w l' subject (?M(?K := ?M ?K + ?t)) ?K"
    using admit_ledger [OF l _ t] n by auto
  show ?thesis
    using n a ledger_put(2) [OF l(1) sw(1)] ledger_put(2) [OF l(1) sw(2)]
    by (auto simp: Reserve_unfold Let_def w1 w2 used window_sum_charge not_less)
qed

lemma Release_ledger:
  assumes l: "ledger w l subject L p" and s: "gm_get (lm_states l) subject = Some st"
    and r: "gm_get (s_res st) (rv_id r) = Some r" "rv_subject r = subject"
  shows "\<exists>l'. Release l (Some r) = (None, l') \<and> ledger w l' subject (spec_settle w r L) p"
proof -
  have st: "stateFor l subject = st" using s by (simp add: stateFor_def)
  have "res_rep w p r"
    using l r(1) st by (auto simp: ledger_def st_rep_def dest!: map_of_SomeD)
  then have "st_rep w (settle st (rv_id r) r) (spec_settle w r L) p"
    using l st by (intro st_rep_settle) (simp_all add: ledger_def)
  from ledger_put(2) [OF l this] show ?thesis
    using s r by (simp add: Release_def)
qed

lemma Commit_ledger:
  assumes l: "ledger w l subject L p" "p \<le> now div w" and s: "gm_get (lm_states l) subject = Some st"
    and r: "gm_get (s_res st) (rv_id r) = Some r" "rv_subject r = subject"
    and t: "0 \<le> usage_Total u" "spec_settle w r L (now div w) + usage_Total u \<le> int64_max"
  shows "\<exists>l'. Commit l (Some r) u now = (None, l') \<and>
    ledger w l' subject ((spec_settle w r L)(now div w := spec_settle w r L (now div w) + usage_Total u)) (now div w)"
proof -
  have st: "stateFor l subject = st" using s by (simp add: stateFor_def)
  have "res_rep w p r"
    using l r(1) st by (auto simp: ledger_def st_rep_def dest!: map_of_SomeD)
  then have "st_rep w (settle st (rv_id r) r) (spec_settle w r L) p"
    using l(1) st by (intro st_rep_settle) (simp_all add: ledger_def)
  then have "st_rep w (settle st (rv_id r) r) (spec_settle w r L) (now div w)"
    using l(2) by (rule st_rep_advance)
  from st_rep_charge [OF this _ _ t, of l "limitsFor l subject"] obtain st' where
    c: "charge l (settle st (rv_id r) r) (limitsFor l subject) now (usage_Total u) =
        Some (now div w mod 60, w * (now div w), st')"
      "st_rep w st' ((spec_settle w r L)(now div w := spec_settle w r L (now div w) + usage_Total u)) (now div w)"
    using l(1) by (auto simp: ledger_def)
  from ledger_put(2) [OF l(1) c(2)] show ?thesis
    using s r c(1) by (simp add: Commit_def Let_def)
qed

end

interpretation minute: aligned_window "10 ^ 9"
  by unfold_locales (simp_all add: zero_time_offset_def)

section \<open>Properties\<close>

text \<open>
  C15: With aligned buckets, Reserve refines the ledger: it refuses on tokens exactly when the
  tokens charged in the last sixty periods and the new reservation exceed the quota, an
  admission charges the current period and leaves the sum of the window within the quota, and
  the buckets keep representing the ledger.
\<close>

theorem Reserve_refines_ledger:
  assumes "0 < w" "w dvd zero_time_offset" "ledger w l subject L p" "p \<le> now div w"
    and "0 \<le> maxTokens" "0 \<le> promptTokens"
    and "window_sum (swept w l subject now L) (now div w) + (promptTokens + maxTokens) \<le> int64_max"
  shows "let M = swept w l subject now L; K = now div w; t = promptTokens + maxTokens;
             quota = l_tokens (limitsFor l subject) in
    case Reserve l subject maxTokens promptTokens now of
      (Inl e, l') \<Rightarrow> ledger w l' subject M K \<and>
        (e = ConcurrencyExceeded \<or> e = QuotaExceeded \<and> 0 < quota \<and> quota < window_sum M K + t)
    | (Inr r, l') \<Rightarrow> ledger w l' subject (M(K := M K + t)) K \<and> rv_reserved r = t \<and>
        (0 < quota \<longrightarrow> window_sum (M(K := M K + t)) K \<le> quota)"
  using assms by (intro aligned_window.Reserve_ledger [OF aligned_window.intro])

definition sample_limits :: limits where
  "sample_limits = \<lparr>l_tokens = 100, l_window = 0, l_maxConcurrent = 2, l_ttl = 0\<rparr>"

theorem Reserve_refines_ledger_witness:
  "ledger (10 ^ 9) (NewLimiter sample_limits) ''t'' (\<lambda>k. 0) 60 \<and>
   (let M = swept (10 ^ 9) (NewLimiter sample_limits) ''t'' (60 * 10 ^ 9) (\<lambda>k. 0);
        K = 60 * 10 ^ 9 div 10 ^ 9; t = 10 + 70; quota = l_tokens (limitsFor (NewLimiter sample_limits) ''t'') in
    case Reserve (NewLimiter sample_limits) ''t'' 70 10 (60 * 10 ^ 9) of
      (Inl e, l') \<Rightarrow> ledger (10 ^ 9) l' ''t'' M K \<and>
        (e = ConcurrencyExceeded \<or> e = QuotaExceeded \<and> 0 < quota \<and> quota < window_sum M K + t)
    | (Inr r, l') \<Rightarrow> ledger (10 ^ 9) l' ''t'' (M(K := M K + t)) K \<and> rv_reserved r = t \<and>
        (0 < quota \<longrightarrow> window_sum (M(K := M K + t)) K \<le> quota))"
proof -
  let ?l = "NewLimiter sample_limits"
  have st: "stateFor ?l ''t'' = fresh_state 60"
    by (simp add: stateFor_def NewLimiter_def defaultBuckets_def)
  have l: "ledger (10 ^ 9) ?l ''t'' (\<lambda>k. 0) 60"
    unfolding ledger_def st
    by (auto simp: NewLimiter_def defaultBuckets_def limitsFor_def normalized_def
        sample_limits_def st_rep_def rep_def fresh_state_def bounded_def int64_max_def empty_bucket_def)
  have s: "swept (10 ^ 9) ?l ''t'' (60 * 10 ^ 9) (\<lambda>k. 0) = (\<lambda>k. 0)"
    unfolding swept_def st by (simp add: fresh_state_def)
  have "window_sum (swept (10 ^ 9) ?l ''t'' (60 * 10 ^ 9) (\<lambda>k. 0)) (60 * 10 ^ 9 div 10 ^ 9) + (10 + 70) \<le> int64_max"
    unfolding s by (simp add: window_sum_def int64_max_def)
  from Reserve_refines_ledger [OF _ _ l _ _ _ this] l show ?thesis
    by (simp add: zero_time_offset_def del: of_int_add)
qed

end
