(* ===== verification/Identity.thy ===== *)
theory Identity imports GoStrings begin

text \<open>
  The caller's identity, read from request headers (\<open>internal/identity/identity.go\<close>). An
  \<open>http.Header\<close> is a map from names to value lists; reading by a constant name finds the
  canonical key.
\<close>

section \<open>Standard library\<close>

type_synonym header = "(string, string list) gomap"

definition header_get :: "header \<Rightarrow> string \<Rightarrow> string" where
  "header_get h name = (case gm_get h name of Some (v # _) \<Rightarrow> v | _ \<Rightarrow> [])"

definition header_set :: "string \<Rightarrow> string \<Rightarrow> header \<Rightarrow> header" where
  "header_set name v h = gm_set name [v] h"

text \<open>\<open>textproto.CanonicalMIMEHeaderKey\<close>: names with other bytes than token bytes stay as they are.\<close>

definition token_byte :: "char \<Rightarrow> bool" where
  "token_byte c \<longleftrightarrow> is_digit c \<or> is_upper c \<or> is_lower c \<or> c \<in> set ''!#$%&*+-.^_`|~'' \<or> byte c = 39"

fun canon_loop :: "bool \<Rightarrow> string \<Rightarrow> string" where
  "canon_loop up [] = []"
| "canon_loop up (c # cs) =
     (if up then upper1 c else lower1 c) # canon_loop (c = CHR ''-'') cs"

definition canonical_header_key :: "string \<Rightarrow> string" where
  "canonical_header_key s = (if \<forall>c \<in> set s. token_byte c then canon_loop True s else s)"

text \<open>\<open>strconv.Atoi\<close>: an optional sign and digits, in the range of \<open>int\<close>.\<close>

definition atoi_digits :: "string \<Rightarrow> int option" where
  "atoi_digits s = (if s = [] \<or> \<not> (\<forall>c \<in> set s. is_digit c) then None else Some (int (dec_val 0 s)))"

definition atoi :: "string \<Rightarrow> int option" where
  "atoi s =
     (case (case s of
              c # cs \<Rightarrow> if c = CHR ''-'' then map_option uminus (atoi_digits cs)
                       else if c = CHR ''+'' then atoi_digits cs else atoi_digits s
            | [] \<Rightarrow> None) of
        None \<Rightarrow> None
      | Some n \<Rightarrow> if int64 n then Some n else None)"

definition trim_prefix :: "string \<Rightarrow> string \<Rightarrow> string" where
  "trim_prefix s p = (if has_prefix s p then drop (length p) s else s)"

definition int_itoa :: "int \<Rightarrow> string" where
  "int_itoa n = (if n < 0 then CHR ''-'' # itoa (nat (- n)) else itoa (nat n))"

section \<open>Identity\<close>

definition HeaderApp :: string where "HeaderApp = ''X-Workload-App''"
definition HeaderTask :: string where "HeaderTask = ''X-Workload-Task''"
definition HeaderTier :: string where "HeaderTier = ''X-Workload-Tier''"
definition HeaderTenant :: string where "HeaderTenant = ''X-Workload-Tenant''"
definition HeaderPriority :: string where "HeaderPriority = ''X-Workload-Priority''"
definition HeaderTrace :: string where "HeaderTrace = ''X-Request-Id''"
definition HeaderSession :: string where "HeaderSession = ''X-Session-Id''"
definition attrPrefix :: string where "attrPrefix = ''X-Workload-Attr-''"

datatype task_kind =
    TaskPlanning | TaskReasoning | TaskCodeGeneration | TaskToolOrchestration
  | TaskExtraction | TaskClassification | TaskSummarization | TaskTranslation
  | TaskRerank | TaskEmbeddingPrep | TaskUnknown

definition knownTasks :: "(string \<times> task_kind) list" where
  "knownTasks =
     [(''planning'', TaskPlanning), (''reasoning'', TaskReasoning),
      (''code_generation'', TaskCodeGeneration), (''tool_orchestration'', TaskToolOrchestration),
      (''extraction'', TaskExtraction), (''classification'', TaskClassification),
      (''summarization'', TaskSummarization), (''translation'', TaskTranslation),
      (''rerank'', TaskRerank), (''embedding_prep'', TaskEmbeddingPrep), (''unknown'', TaskUnknown)]"

fun task_string :: "task_kind \<Rightarrow> string" where
  "task_string TaskPlanning = ''planning''"
| "task_string TaskReasoning = ''reasoning''"
| "task_string TaskCodeGeneration = ''code_generation''"
| "task_string TaskToolOrchestration = ''tool_orchestration''"
| "task_string TaskExtraction = ''extraction''"
| "task_string TaskClassification = ''classification''"
| "task_string TaskSummarization = ''summarization''"
| "task_string TaskTranslation = ''translation''"
| "task_string TaskRerank = ''rerank''"
| "task_string TaskEmbeddingPrep = ''embedding_prep''"
| "task_string TaskUnknown = ''unknown''"

definition ParseTask :: "string \<Rightarrow> task_kind" where
  "ParseTask v = (case map_of knownTasks (to_lower (trim_space v)) of Some t \<Rightarrow> t | None \<Rightarrow> TaskUnknown)"

record identity =
  id_App :: string
  id_Task :: task_kind
  id_TierHint :: int
  id_Tenant :: string
  id_Priority :: int
  id_TraceID :: string
  id_SessionID :: string
  id_Attributes :: "(string, string) gomap"

definition Anonymous :: identity where
  "Anonymous = \<lparr>id_App = ''unknown'', id_Task = TaskUnknown, id_TierHint = 0, id_Tenant = ''default'',
     id_Priority = 5, id_TraceID = [], id_SessionID = [], id_Attributes = []\<rparr>"

fun firstNonEmpty :: "string list \<Rightarrow> string" where
  "firstNonEmpty [] = []"
| "firstNonEmpty (v # vs) = (let s = trim_space v in if s \<noteq> [] then s else firstNonEmpty vs)"

definition clamp :: "int \<Rightarrow> int \<Rightarrow> int \<Rightarrow> int" where
  "clamp v lo hi = (if v < lo then lo else if v > hi then hi else v)"

fun attr_loop :: "header \<Rightarrow> (string, string) gomap \<Rightarrow> (string, string) gomap" where
  "attr_loop [] attrs = attrs"
| "attr_loop ((name, values) # h) attrs =
     (case values of
        [] \<Rightarrow> attr_loop h attrs
      | v # _ \<Rightarrow>
          let key = canonical_header_key name in
          if has_prefix key attrPrefix
          then attr_loop h (gm_set (to_lower (drop (length attrPrefix) key)) v attrs)
          else attr_loop h attrs)"

definition tier_hint :: "string \<Rightarrow> int" where
  "tier_hint raw =
     (if raw = [] then 0
      else case atoi (trim_space (trim_prefix (to_lower raw) ''tier'')) of Some n \<Rightarrow> n | None \<Rightarrow> 0)"

definition header_priority :: "string \<Rightarrow> int" where
  "header_priority raw =
     (if raw = [] then 5 else case atoi raw of Some n \<Rightarrow> clamp n 0 9 | None \<Rightarrow> 5)"

definition FromHeaders :: "header \<Rightarrow> identity" where
  "FromHeaders h =
     \<lparr>id_App = firstNonEmpty [header_get h HeaderApp, ''unknown''],
      id_Task = ParseTask (header_get h HeaderTask),
      id_TierHint = tier_hint (trim_space (header_get h HeaderTier)),
      id_Tenant = firstNonEmpty [header_get h HeaderTenant, ''default''],
      id_Priority = header_priority (trim_space (header_get h HeaderPriority)),
      id_TraceID = header_get h HeaderTrace,
      id_SessionID = header_get h HeaderSession,
      id_Attributes = attr_loop h []\<rparr>"

definition ToHeaders :: "identity \<Rightarrow> header \<Rightarrow> header" where
  "ToHeaders i h =
     (let h = header_set HeaderApp (id_App i) h;
          h = header_set HeaderTask (task_string (id_Task i)) h;
          h = header_set HeaderTenant (id_Tenant i) h;
          h = header_set HeaderPriority (int_itoa (id_Priority i)) h;
          h = (if id_TierHint i > 0 then header_set HeaderTier (int_itoa (id_TierHint i)) h else h);
          h = (if id_TraceID i \<noteq> [] then header_set HeaderTrace (id_TraceID i) h else h) in
      fold (\<lambda>(k, v) h. header_set (canonical_header_key (attrPrefix @ k)) v h) (id_Attributes i) h)"

definition identity_String :: "identity \<Rightarrow> string" where
  "identity_String i = id_App i @ ''/'' @ task_string (id_Task i) @ ''@'' @ id_Tenant i @ ''(p'' @
     int_itoa (id_Priority i) @ '')''"

definition RateLimitSubject :: "identity \<Rightarrow> string" where
  "RateLimitSubject i = id_Tenant i @ ''/'' @ id_App i"

section \<open>Properties\<close>

lemma firstNonEmpty_nonempty: "d \<noteq> [] \<Longrightarrow> trim_space d = d \<Longrightarrow> firstNonEmpty [v, d] \<noteq> []"
  by (auto simp: Let_def)

lemma header_priority_range: "0 \<le> header_priority raw \<and> header_priority raw \<le> 9"
  by (auto simp: header_priority_def clamp_def split: option.split)

lemma trim_default: "trim_space ''unknown'' = ''unknown''" "trim_space ''default'' = ''default''"
  by code_simp+


lemma atoi_int_itoa:
  assumes "int64 n"
  shows "atoi (int_itoa n) = Some n"
proof -
  have d: "atoi_digits (itoa m) = Some (int m)" for m
    using itoa_digits by (auto simp: atoi_digits_def dec_val_itoa)
  obtain c cs where c: "itoa (nat n) = c # cs" by (cases "itoa (nat n)") auto
  have "is_digit c" using itoa_digits [of c "nat n"] c by simp
  then have ne: "c \<noteq> CHR ''-''" "c \<noteq> CHR ''+''" by (auto simp: is_digit_def in_range_def byte_def)
  show ?thesis
  proof (cases "n < 0")
    case True
    then show ?thesis using assms d by (simp add: atoi_def int_itoa_def)
  next
    case False
    then show ?thesis using assms d [of "nat n"] c ne by (simp add: atoi_def int_itoa_def)
  qed
qed

lemma digits_printable: "s \<noteq> [] \<Longrightarrow> \<forall>c \<in> set s. is_digit c \<Longrightarrow> trim_space s = s"
  by (rule trim_space_id) simp

lemma int_itoa_nonneg:
  assumes "0 \<le> n"
  shows "int_itoa n \<noteq> []" "trim_space (int_itoa n) = int_itoa n" "to_lower (int_itoa n) = int_itoa n"
    "trim_prefix (int_itoa n) ''tier'' = int_itoa n"
proof -
  let ?s = "itoa (nat n)"
  have d: "\<forall>c \<in> set ?s. is_digit c" using itoa_digits by blast
  have e: "int_itoa n = ?s" using assms by (simp add: int_itoa_def)
  show "int_itoa n \<noteq> []" "trim_space (int_itoa n) = int_itoa n"
    unfolding e using d by (simp_all add: digits_printable)
  have "ascii ?s" using d by (force simp: ascii_def is_digit_def in_range_def)
  moreover have "lower1 c = c" if "c \<in> set ?s" for c
    using d that by (auto simp: lower1_def is_digit_def is_upper_def in_range_def)
  ultimately show "to_lower (int_itoa n) = int_itoa n"
    unfolding e by (simp add: to_lower_ascii map_idI)
  obtain c cs where c: "?s = c # cs" by (cases ?s) auto
  then have "c \<noteq> CHR ''t''" using d by (auto simp: is_digit_def in_range_def byte_def)
  then show "trim_prefix (int_itoa n) ''tier'' = int_itoa n"
    unfolding e by (simp add: trim_prefix_def c)
qed

lemma header_priority_itoa: "0 \<le> n \<Longrightarrow> n \<le> 9 \<Longrightarrow> header_priority (int_itoa n) = n"
  using atoi_int_itoa [of n] int_itoa_nonneg [of n]
  by (simp add: header_priority_def clamp_def int64_def int64_min_def int64_max_def)

lemma tier_hint_itoa: "0 \<le> n \<Longrightarrow> int64 n \<Longrightarrow> tier_hint (int_itoa n) = n"
  using atoi_int_itoa [of n] int_itoa_nonneg [of n] by (simp add: tier_hint_def)

lemma ParseTask_string: "ParseTask (task_string t) = t"
  by (cases t; simp only: task_string.simps; code_simp)

lemma header_names_distinct:
  "distinct [HeaderApp, HeaderTask, HeaderTenant, HeaderPriority, HeaderTier, HeaderTrace, HeaderSession]"
  by code_simp

lemma header_names_plain:
  "\<forall>n \<in> set [HeaderApp, HeaderTask, HeaderTenant, HeaderPriority, HeaderTier, HeaderTrace].
     \<not> has_prefix (canonical_header_key n) attrPrefix"
  by code_simp

lemma attr_loop_plain:
  "\<forall>p \<in> set h. \<not> has_prefix (canonical_header_key (fst p)) attrPrefix \<Longrightarrow> attr_loop h attrs = attrs"
  by (induction h attrs rule: attr_loop.induct) (auto split: list.split)

lemma header_get_set: "header_get (header_set n v h) m = (if m = n then v else header_get h m)"
  by (simp add: header_get_def header_set_def gm_get_set)

lemma header_set_names: "fst ` set (header_set n v h) = insert n (fst ` set h)"
  by (simp add: header_set_def dom_update)

text \<open>An identity survives the way to a downstream service: FromHeaders reads back from the
  headers that ToHeaders wrote the application, task, tenant, priority, tier hint and trace;
  only the session identifier, which ToHeaders does not write, is lost.\<close>

theorem identity_roundtrip:
  assumes "trim_space (id_App i) = id_App i" "id_App i \<noteq> []"
    and "trim_space (id_Tenant i) = id_Tenant i" "id_Tenant i \<noteq> []"
    and "0 \<le> id_Priority i" "id_Priority i \<le> 9" "0 \<le> id_TierHint i" "int64 (id_TierHint i)"
    and "id_Attributes i = []"
  shows "FromHeaders (ToHeaders i []) = i\<lparr>id_SessionID := []\<rparr>"
proof -
  let ?h = "ToHeaders i []"
  note d = header_names_distinct
  have "fst ` set ?h \<subseteq> set [HeaderApp, HeaderTask, HeaderTenant, HeaderPriority, HeaderTier, HeaderTrace]"
    using assms(9) by (auto simp: ToHeaders_def Let_def header_set_names)
  then have a: "attr_loop ?h [] = []"
    using header_names_plain by (intro attr_loop_plain) blast
  have g: "header_get ?h HeaderApp = id_App i" "header_get ?h HeaderTask = task_string (id_Task i)"
      "header_get ?h HeaderTenant = id_Tenant i" "header_get ?h HeaderPriority = int_itoa (id_Priority i)"
      "header_get ?h HeaderTier = (if id_TierHint i > 0 then int_itoa (id_TierHint i) else [])"
      "header_get ?h HeaderTrace = id_TraceID i" "header_get ?h HeaderSession = []"
    using d assms(9) by (auto simp: ToHeaders_def Let_def header_get_set header_get_def [of "[]"])
  have t: "trim_space [] = []" by (rule trim_space_id) simp
  have "tier_hint (trim_space (header_get ?h HeaderTier)) = id_TierHint i"
    using assms(7,8) tier_hint_itoa int_itoa_nonneg(2) by (auto simp: g t tier_hint_def [of "[]"])
  then show ?thesis
    using assms a header_priority_itoa int_itoa_nonneg(2)
    by (simp add: FromHeaders_def g ParseTask_string Let_def)
qed

theorem identity_roundtrip_witness:
  "FromHeaders (ToHeaders (Anonymous\<lparr>id_TierHint := 2, id_SessionID := ''s1''\<rparr>) []) = Anonymous\<lparr>id_TierHint := 2\<rparr>"
  using identity_roundtrip [of "Anonymous\<lparr>id_TierHint := 2, id_SessionID := ''s1''\<rparr>"]
  by (simp add: Anonymous_def trim_default int64_def int64_min_def int64_max_def)

text \<open>The rate-limit subject joins tenant and application with a slash that both may contain,
  so two different tenants can be charged to one subject: the quotas that the comment calls
  isolated by tenant and application are shared.\<close>

theorem RateLimitSubject_collides:
  "\<exists>h1 h2. id_Tenant (FromHeaders h1) \<noteq> id_Tenant (FromHeaders h2) \<and>
     RateLimitSubject (FromHeaders h1) = RateLimitSubject (FromHeaders h2)"
proof (intro exI conjI)
  let ?h1 = "[(HeaderTenant, [''a/b'']), (HeaderApp, [''c''])]"
  let ?h2 = "[(HeaderTenant, [''a'']), (HeaderApp, [''b/c''])]"
  show "id_Tenant (FromHeaders ?h1) \<noteq> id_Tenant (FromHeaders ?h2)" by code_simp
  show "RateLimitSubject (FromHeaders ?h1) = RateLimitSubject (FromHeaders ?h2)" by code_simp
qed

end
