(* ===== verification/PathMatch.thy ===== *)
theory PathMatch imports UTF8 begin

text \<open>
  Go's \<open>path.Match\<close>, which the routing rules use for application patterns: chunks between
  stars, character classes, escapes, and the syntax check of the rest of the pattern when the
  match fails. None is \<open>ErrBadPattern\<close>.
\<close>

text \<open>\<open>scanChunk\<close>: whether stars precede, the chunk up to the next star, and the rest.\<close>

fun skip_stars :: "string \<Rightarrow> bool \<Rightarrow> bool \<times> string" where
  "skip_stars (c # p) star = (if c = CHR ''*'' then skip_stars p True else (star, c # p))"
| "skip_stars [] star = (star, [])"

fun scan_len :: "string \<Rightarrow> bool \<Rightarrow> nat" where
  "scan_len [] inrange = 0"
| "scan_len [c] inrange = (if c = CHR ''*'' \<and> \<not> inrange then 0 else 1)"
| "scan_len (c # d # p) inrange =
     (if byte c = 92 then 2 + scan_len p inrange
      else if c = CHR ''['' then 1 + scan_len (d # p) True
      else if c = CHR '']'' then 1 + scan_len (d # p) False
      else if c = CHR ''*'' \<and> \<not> inrange then 0
      else 1 + scan_len (d # p) inrange)"

definition scanChunk :: "string \<Rightarrow> bool \<times> string \<times> string" where
  "scanChunk pattern =
     (let (star, p) = skip_stars pattern False; n = scan_len p False in (star, take n p, drop n p))"

definition getEsc :: "string \<Rightarrow> (nat \<times> string) option" where
  "getEsc chunk =
     (case chunk of
        [] \<Rightarrow> None
      | c # cs \<Rightarrow>
          if c = CHR ''-'' \<or> c = CHR '']'' then None
          else
            let chunk = (if byte c = 92 then cs else chunk) in
            if chunk = [] then None
            else
              let (r, n) = decode_rune chunk in
              if r = rune_error \<and> n = 1 then None
              else if drop n chunk = [] then None else Some (r, drop n chunk))"

lemma getEsc_shorter:
  assumes "getEsc chunk = Some (r, c)"
  shows "length c < length chunk"
proof -
  obtain d cs where d: "chunk = d # cs" using assms by (cases chunk) (simp_all add: getEsc_def)
  define k where "k = (if byte d = 92 then cs else chunk)"
  have k: "k \<noteq> []" "c = drop (rune_width k) k"
    using assms unfolding getEsc_def d
    by (auto simp: k_def d rune_width_def Let_def case_prod_unfold split: if_splits)
  have "length c < length k" using k rune_width_pos [OF k(1)] by simp
  also have "length k \<le> length chunk" by (simp add: k_def d)
  finally show ?thesis .
qed

text \<open>The ranges of a class: the result is the rest of the chunk and whether the rune is in one.\<close>

function class_loop :: "string \<Rightarrow> nat \<Rightarrow> bool \<Rightarrow> nat \<Rightarrow> (string \<times> bool) option" where
  "class_loop chunk r matched nrange =
     (if chunk \<noteq> [] \<and> hd chunk = CHR '']'' \<and> nrange > 0 then Some (tl chunk, matched)
      else case getEsc chunk of
             None \<Rightarrow> None
           | Some (lo, c1) \<Rightarrow>
               if hd c1 = CHR ''-'' then
                 (case getEsc (tl c1) of
                    None \<Rightarrow> None
                  | Some (hi, c2) \<Rightarrow> class_loop c2 r (matched \<or> lo \<le> r \<and> r \<le> hi) (Suc nrange))
               else class_loop c1 r (matched \<or> r = lo) (Suc nrange))"
  by pat_completeness auto
termination
  by (relation "measure (\<lambda>(chunk, r, m, n). length chunk)") (auto dest!: getEsc_shorter)

declare class_loop.simps [simp del]

lemma class_loop_shorter: "class_loop chunk r m n = Some (c, b) \<Longrightarrow> length c < length chunk"
proof (induction chunk r m n arbitrary: c b rule: class_loop.induct)
  case (1 chunk r m n)
  show ?case
  proof (cases "chunk \<noteq> [] \<and> hd chunk = CHR '']'' \<and> n > 0")
    case True
    then show ?thesis using 1(3) by (cases chunk) (auto simp: class_loop.simps)
  next
    case False
    then obtain lo c1 where lo: "getEsc chunk = Some (lo, c1)"
      using 1(3) by (subst (asm) class_loop.simps) (auto split: option.splits)
    note s1 = getEsc_shorter [OF lo]
    show ?thesis
    proof (cases "hd c1 = CHR ''-''")
      case True
      then obtain hi c2 where hi: "getEsc (tl c1) = Some (hi, c2)"
        using 1(3) False lo by (subst (asm) class_loop.simps) (auto split: option.splits)
      have "length c < length c2"
        using 1(1) [OF False lo refl True hi refl, of c b] 1(3) False lo True hi
        by (subst (asm) (2) class_loop.simps) simp
      then show ?thesis using s1 getEsc_shorter [OF hi] by simp
    next
      case ne: False
      have "length c < length c1"
        using 1(2) [OF False lo refl ne, of c b] 1(3) False lo ne
        by (subst (asm) (2) class_loop.simps) simp
      then show ?thesis using s1 by simp
    qed
  qed
qed

text \<open>\<open>matchChunk\<close>: None is a bad pattern, Some None a failed match, else the rest of the name.\<close>

function matchChunk :: "string \<Rightarrow> string \<Rightarrow> bool \<Rightarrow> string option option" where
  "matchChunk [] s failed = Some (if failed then None else Some s)"
| "matchChunk (c # chunk) s failed0 =
     (let failed = failed0 \<or> s = [] in
      if c = CHR ''['' then
        (let (r, n) = (if failed then (0, 0) else decode_rune s);
             negated = (chunk \<noteq> [] \<and> hd chunk = CHR ''^'');
             chunk' = (if negated then tl chunk else chunk) in
         case class_loop chunk' r False 0 of
           None \<Rightarrow> None
         | Some (rest, matched) \<Rightarrow> matchChunk rest (drop n s) (failed \<or> matched = negated))
      else if c = CHR ''?'' then
        (if failed then matchChunk chunk s True
         else matchChunk chunk (drop (rune_width s) s) (hd s = CHR ''/''))
      else if byte c = 92 then
        (case chunk of
           [] \<Rightarrow> None
         | d # chunk' \<Rightarrow>
             (if failed then matchChunk chunk' s True
              else matchChunk chunk' (tl s) (d \<noteq> hd s)))
      else (if failed then matchChunk chunk s True else matchChunk chunk (tl s) (c \<noteq> hd s)))"
  by pat_completeness auto
termination
  by (relation "measure (\<lambda>(chunk, s, f). length chunk)")
    (auto dest!: class_loop_shorter split: if_splits)

text \<open>The retry of a chunk after a star: skip one byte more each time, but no slash.\<close>

fun star_loop :: "string \<Rightarrow> string \<Rightarrow> bool \<Rightarrow> string option option" where
  "star_loop chunk [] last_chunk = Some None"
| "star_loop chunk (c # name) last_chunk =
     (if c = CHR ''/'' then Some None
      else case matchChunk chunk name False of
             None \<Rightarrow> None
           | Some None \<Rightarrow> star_loop chunk name last_chunk
           | Some (Some t) \<Rightarrow>
               if last_chunk \<and> t \<noteq> [] then star_loop chunk name last_chunk else Some (Some t))"

lemma skip_stars_length: "length (snd (skip_stars p star)) \<le> length p"
  by (induction p star rule: skip_stars.induct) auto

lemma skip_stars_shorter: "p \<noteq> [] \<Longrightarrow> hd p = CHR ''*'' \<Longrightarrow> length (snd (skip_stars p star)) < length p"
  using skip_stars_length by (cases p) (auto simp: less_Suc_eq_le)

lemma scan_len_pos: "p \<noteq> [] \<Longrightarrow> hd p \<noteq> CHR ''*'' \<Longrightarrow> 0 < scan_len p inrange"
  by (cases "(p, inrange)" rule: scan_len.cases) auto

lemma skip_stars_id: "p = [] \<or> hd p \<noteq> CHR ''*'' \<Longrightarrow> skip_stars p star = (star, p)"
  by (cases p) auto

lemma scanChunk_shorter:
  assumes "pattern \<noteq> []" "scanChunk pattern = (star, chunk, rest)"
  shows "length rest < length pattern"
proof (cases "hd pattern = CHR ''*''")
  case True
  then show ?thesis
    using assms skip_stars_shorter [OF assms(1), of False]
    by (auto simp: scanChunk_def Let_def split: prod.splits)
next
  case False
  then show ?thesis
    using assms scan_len_pos [OF assms(1) False, of False]
    by (cases pattern) (auto simp: scanChunk_def Let_def skip_stars_id)
qed

text \<open>The syntax check of the remaining pattern: True when every chunk is well formed.\<close>

function rest_ok :: "string \<Rightarrow> bool" where
  "rest_ok pattern =
     (if pattern = [] then True
      else let (star, chunk, rest) = scanChunk pattern in
           if matchChunk chunk [] False = None then False else rest_ok rest)"
  by pat_completeness auto
termination
  by (relation "measure length") (auto dest: scanChunk_shorter [OF _ sym])

function path_match :: "string \<Rightarrow> string \<Rightarrow> bool option" where
  "path_match pattern name =
     (if pattern = [] then Some (name = [])
      else
        let (star, chunk, rest) = scanChunk pattern in
        if star \<and> chunk = [] then Some (CHR ''/'' \<notin> set name)
        else case matchChunk chunk name False of
               None \<Rightarrow> None
             | Some first \<Rightarrow>
                 (case first of
                    Some t \<Rightarrow>
                      if t = [] \<or> rest \<noteq> [] then path_match rest t
                      else (case (if star then star_loop chunk name (rest = []) else Some None) of
                              None \<Rightarrow> None
                            | Some (Some t') \<Rightarrow> path_match rest t'
                            | Some None \<Rightarrow> if rest_ok rest then Some False else None)
                  | None \<Rightarrow>
                      (case (if star then star_loop chunk name (rest = []) else Some None) of
                         None \<Rightarrow> None
                       | Some (Some t') \<Rightarrow> path_match rest t'
                       | Some None \<Rightarrow> if rest_ok rest then Some False else None)))"
  by pat_completeness auto
termination
  by (relation "measure (\<lambda>(p, n). length p)") (auto dest: scanChunk_shorter [OF _ sym])

declare rest_ok.simps [simp del] path_match.simps [simp del]

end
