(* ===== verification/Routing.thy ===== *)
theory Routing imports Identity PathMatch begin

text \<open>
  Tier routing (\<open>internal/routing/policy.go\<close>): targets, rules, the budget of a tier, the
  fallback chain, and the two decisions that use them, \<open>Resolve\<close> and \<open>ApplyBudget\<close>. A tier
  is an integer, an amount of money a rational.
\<close>

section \<open>Data\<close>

type_synonym tier = int

definition Tier1Premium :: tier where "Tier1Premium = 1"
definition Tier2Standard :: tier where "Tier2Standard = 2"

definition DefaultTaskTier :: "task_kind \<Rightarrow> tier" where
  "DefaultTaskTier t =
     (if t \<in> set [TaskPlanning, TaskReasoning, TaskCodeGeneration, TaskToolOrchestration]
      then Tier1Premium else Tier2Standard)"

record target =
  t_Name :: string
  t_Tier :: tier
  t_BaseURL :: string
  t_Model :: string
  t_Weight :: int
  t_Enabled :: bool
  t_SelfHosted :: bool
  t_InputPrice :: rat
  t_OutputPrice :: rat
  t_CredentialKey :: string

definition EstimateCost :: "target \<Rightarrow> int \<Rightarrow> int \<Rightarrow> rat" where
  "EstimateCost t inputTokens outputTokens =
     (if t_InputPrice t = 0 \<and> t_OutputPrice t = 0 then 0
      else of_int inputTokens / 1000000 * t_InputPrice t + of_int outputTokens / 1000000 * t_OutputPrice t)"

record rule =
  ru_Name :: string
  ru_TargetTier :: tier
  ru_MatchApps :: "string list"
  ru_MatchTasks :: "task_kind list"
  ru_MatchTenants :: "string list"
  ru_MinPriority :: int
  ru_MatchAttributes :: "(string, string) gomap"
  ru_PreferTargets :: "string list"
  ru_Priority :: int
  ru_Enabled :: bool

fun matchAny :: "string list \<Rightarrow> string \<Rightarrow> bool" where
  "matchAny [] v = False"
| "matchAny (p # ps) v = (if path_match p v = Some True then True else matchAny ps v)"

definition attribute_of :: "identity \<Rightarrow> string \<Rightarrow> string" where
  "attribute_of ident k = (case gm_get (id_Attributes ident) k of Some v \<Rightarrow> v | None \<Rightarrow> [])"

definition rule_Matches :: "rule \<Rightarrow> identity \<Rightarrow> bool" where
  "rule_Matches r ident =
     (if \<not> ru_Enabled r then False
      else if ru_MatchApps r \<noteq> [] \<and> \<not> matchAny (ru_MatchApps r) (id_App ident) then False
      else if ru_MatchTasks r \<noteq> [] \<and> id_Task ident \<notin> set (ru_MatchTasks r) then False
      else if ru_MatchTenants r \<noteq> [] \<and> id_Tenant ident \<notin> set (ru_MatchTenants r) then False
      else if ru_MinPriority r > 0 \<and> id_Priority ident < ru_MinPriority r then False
      else (\<forall>(k, want) \<in> set (ru_MatchAttributes r). attribute_of ident k = want))"

record budget =
  bu_HardLimit :: rat
  bu_SoftRatio :: rat
  bu_Spent :: rat
  bu_Warned :: bool

definition NewBudget :: "rat \<Rightarrow> budget" where
  "NewBudget hardLimitUSD = \<lparr>bu_HardLimit = hardLimitUSD, bu_SoftRatio = 4 / 5, bu_Spent = 0, bu_Warned = False\<rparr>"

definition budget_Record :: "budget \<Rightarrow> rat \<Rightarrow> bool \<times> budget" where
  "budget_Record b costUSD =
     (let b = b\<lparr>bu_Spent := bu_Spent b + costUSD\<rparr> in
      if bu_HardLimit b \<le> 0 \<or> bu_Warned b then (False, b)
      else if bu_Spent b \<ge> bu_HardLimit b * bu_SoftRatio b then (True, b\<lparr>bu_Warned := True\<rparr>)
      else (False, b))"

definition budget_Exhausted :: "budget \<Rightarrow> bool" where
  "budget_Exhausted b \<longleftrightarrow> bu_HardLimit b > 0 \<and> bu_Spent b \<ge> bu_HardLimit b"

record decision =
  de_Tier :: tier
  de_Identity :: identity
  de_Reason :: string
  de_RuleName :: string
  de_PreferTargets :: "string list"
  de_DowngradedFrom :: tier

record policy =
  po_targets :: "target list"
  po_rules :: "rule list"
  po_defaultTier :: tier
  po_fallback :: "(tier, tier) gomap"
  po_budgets :: "(tier, budget) gomap"

section \<open>Construction\<close>

text \<open>
  \<open>stableSortRules\<close>: each rule is moved left past the rules of the sorted prefix whose
  priority is larger. The prefix is held in reverse.
\<close>

fun sift :: "rule \<Rightarrow> rule list \<Rightarrow> rule list" where
  "sift r [] = [r]"
| "sift r (q # prefix) = (if ru_Priority r < ru_Priority q then q # sift r prefix else r # q # prefix)"

definition stableSortRules :: "rule list \<Rightarrow> rule list" where
  "stableSortRules rules = rev (foldl (\<lambda>prefix r. sift r prefix) [] rules)"

text \<open>
  The walk of \<open>validateFallbackChain\<close> from one start: True when it comes back to a visited
  tier. It ends because every step visits a tier of the chain it has not visited before.
\<close>

function chain_cycles :: "(tier, tier) gomap \<Rightarrow> tier list \<Rightarrow> tier \<Rightarrow> bool" where
  "chain_cycles chain visited t =
     (case gm_get chain t of
        None \<Rightarrow> False
      | Some nxt \<Rightarrow> if nxt \<in> set visited then True else chain_cycles chain (nxt # visited) nxt)"
  by pat_completeness auto
termination
proof (relation "measure (\<lambda>(chain, visited, t). card (set (map snd chain) - set visited))", simp)
  fix chain :: "(tier, tier) gomap" and visited t nxt
  assume "gm_get chain t = Some nxt" "nxt \<notin> set visited"
  then have "nxt \<in> set (map snd chain) - set visited"
    using map_of_SomeD by force
  then have "card (set (map snd chain) - set visited - {nxt}) < card (set (map snd chain) - set visited)"
    by (intro card_Diff1_less) auto
  moreover have "set (map snd chain) - set (nxt # visited) = set (map snd chain) - set visited - {nxt}"
    by auto
  ultimately show "((chain, nxt # visited, nxt), chain, visited, t)
      \<in> measure (\<lambda>(chain, visited, t). card (set (map snd chain) - set visited))"
    by simp
qed

declare chain_cycles.simps [simp del]

definition validateFallbackChain :: "(tier, tier) gomap \<Rightarrow> bool" where
  "validateFallbackChain chain = (\<not> (\<exists>start \<in> set (map fst chain). chain_cycles chain [start] start))"

datatype policy_error =
    NoTargets | EmptyTargetName | DuplicateTarget string | BadWeight string
  | UnknownTarget string string | BadAppPattern string string | CyclicFallback

fun check_targets :: "string list \<Rightarrow> target list \<Rightarrow> policy_error + string list" where
  "check_targets names [] = Inr names"
| "check_targets names (t # ts) =
     (if t_Name t = [] then Inl EmptyTargetName
      else if t_Name t \<in> set names then Inl (DuplicateTarget (t_Name t))
      else if t_Weight t \<le> 0 then Inl (BadWeight (t_Name t))
      else check_targets (t_Name t # names) ts)"

fun check_prefer :: "string list \<Rightarrow> string \<Rightarrow> string list \<Rightarrow> policy_error option" where
  "check_prefer names rule [] = None"
| "check_prefer names rule (p # ps) =
     (if p \<notin> set names then Some (UnknownTarget rule p) else check_prefer names rule ps)"

fun check_apps :: "string \<Rightarrow> string list \<Rightarrow> policy_error option" where
  "check_apps rule [] = None"
| "check_apps rule (p # ps) =
     (if path_match p ''probe'' = None then Some (BadAppPattern rule p) else check_apps rule ps)"

fun check_rules :: "string list \<Rightarrow> rule list \<Rightarrow> policy_error option" where
  "check_rules names [] = None"
| "check_rules names (r # rs) =
     (case check_prefer names (ru_Name r) (ru_PreferTargets r) of
        Some e \<Rightarrow> Some e
      | None \<Rightarrow>
          (case check_apps (ru_Name r) (ru_MatchApps r) of
             Some e \<Rightarrow> Some e
           | None \<Rightarrow> check_rules names rs))"

definition NewPolicy ::
    "target list \<Rightarrow> rule list \<Rightarrow> tier \<Rightarrow> (tier, tier) gomap option \<Rightarrow> (tier, budget) gomap option
     \<Rightarrow> policy_error + policy" where
  "NewPolicy targets rules defaultTier fallbackChain budgets =
     (if targets = [] then Inl NoTargets
      else res_bind (check_targets [] targets) (\<lambda>names.
        case check_rules names rules of
          Some e \<Rightarrow> Inl e
        | None \<Rightarrow>
            let chain = (case fallbackChain of None \<Rightarrow> [(Tier1Premium, Tier2Standard)] | Some c \<Rightarrow> c) in
            if \<not> validateFallbackChain chain then Inl CyclicFallback
            else Inr \<lparr>po_targets = targets, po_rules = stableSortRules rules,
                      po_defaultTier = (if defaultTier = 0 then Tier2Standard else defaultTier),
                      po_fallback = chain,
                      po_budgets = (case budgets of None \<Rightarrow> [] | Some b \<Rightarrow> b)\<rparr>))"

section \<open>Decisions\<close>

definition TargetsOf :: "policy \<Rightarrow> tier \<Rightarrow> target list" where
  "TargetsOf p t = filter (\<lambda>x. t_Tier x = t \<and> t_Enabled x) (po_targets p)"

definition Fallback :: "policy \<Rightarrow> tier \<Rightarrow> tier option" where
  "Fallback p t = gm_get (po_fallback p) t"

definition BudgetOf :: "policy \<Rightarrow> tier \<Rightarrow> budget option" where
  "BudgetOf p t = gm_get (po_budgets p) t"

fun first_match :: "rule list \<Rightarrow> identity \<Rightarrow> rule option" where
  "first_match [] ident = None"
| "first_match (r # rs) ident = (if rule_Matches r ident then Some r else first_match rs ident)"

definition Resolve :: "policy \<Rightarrow> identity \<Rightarrow> decision" where
  "Resolve p ident =
     (if id_TierHint ident > 0 \<and> TargetsOf p (id_TierHint ident) \<noteq> []
      then \<lparr>de_Tier = id_TierHint ident, de_Identity = ident, de_Reason = ''explicit_header'',
            de_RuleName = [], de_PreferTargets = [], de_DowngradedFrom = 0\<rparr>
      else case first_match (po_rules p) ident of
             Some r \<Rightarrow>
               \<lparr>de_Tier = ru_TargetTier r, de_Identity = ident, de_Reason = ''rule'',
                de_RuleName = ru_Name r, de_PreferTargets = ru_PreferTargets r, de_DowngradedFrom = 0\<rparr>
           | None \<Rightarrow>
               \<lparr>de_Tier = DefaultTaskTier (id_Task ident), de_Identity = ident, de_Reason = ''task_default'',
                de_RuleName = [], de_PreferTargets = [], de_DowngradedFrom = 0\<rparr>)"

definition tier_exhausted :: "policy \<Rightarrow> tier \<Rightarrow> bool" where
  "tier_exhausted p t = (case BudgetOf p t of None \<Rightarrow> False | Some b \<Rightarrow> budget_Exhausted b)"

text \<open>The loop of \<open>ApplyBudget\<close>: the tier it stops at.\<close>

function budget_walk :: "policy \<Rightarrow> tier list \<Rightarrow> tier \<Rightarrow> tier" where
  "budget_walk p visited t =
     (if t \<in> set visited then t
      else if \<not> tier_exhausted p t then t
      else case Fallback p t of
             None \<Rightarrow> t
           | Some nxt \<Rightarrow> budget_walk p (t # visited) nxt)"
  by pat_completeness auto
termination
proof (relation "measure (\<lambda>(p, visited, t). card (set (map fst (po_fallback p)) - set visited))", simp)
  fix p :: policy and visited t nxt
  assume "t \<notin> set visited" "Fallback p t = Some nxt"
  then have "t \<in> set (map fst (po_fallback p)) - set visited"
    using map_of_SomeD by (force simp: Fallback_def)
  then have "card (set (map fst (po_fallback p)) - set visited - {t}) < card (set (map fst (po_fallback p)) - set visited)"
    by (intro card_Diff1_less) auto
  moreover have "set (map fst (po_fallback p)) - set (t # visited) = set (map fst (po_fallback p)) - set visited - {t}"
    by auto
  ultimately show "((p, t # visited, nxt), p, visited, t)
      \<in> measure (\<lambda>(p, visited, t). card (set (map fst (po_fallback p)) - set visited))"
    by simp
qed

declare budget_walk.simps [simp del]

definition ApplyBudget :: "policy \<Rightarrow> decision \<Rightarrow> decision" where
  "ApplyBudget p d =
     (let t = budget_walk p [] (de_Tier d) in
      if t \<noteq> de_Tier d
      then d\<lparr>de_Tier := t, de_Reason := de_Reason d @ ''+budget_downgrade'', de_DowngradedFrom := de_Tier d\<rparr>
      else d)"

section \<open>The fallback chain\<close>

definition edges :: "(tier, tier) gomap \<Rightarrow> (tier \<times> tier) set" where
  "edges chain = {(a, b). gm_get chain a = Some b}"

lemma edges_iff [simp]: "(a, b) \<in> edges chain \<longleftrightarrow> gm_get chain a = Some b"
  by (simp add: edges_def)

lemma chain_cycles_sound:
  "chain_cycles chain visited t \<Longrightarrow> \<forall>v \<in> set visited. (v, t) \<in> (edges chain)\<^sup>* \<Longrightarrow>
   \<exists>x. (x, x) \<in> (edges chain)\<^sup>+"
proof (induction chain visited t rule: chain_cycles.induct)
  case (1 chain visited t)
  from 1(2) obtain nxt where n: "gm_get chain t = Some nxt"
    by (subst (asm) chain_cycles.simps) (auto split: option.splits)
  show ?case
  proof (cases "nxt \<in> set visited")
    case True
    then have "(nxt, t) \<in> (edges chain)\<^sup>*" using 1(3) by blast
    then have "(nxt, nxt) \<in> (edges chain)\<^sup>+" using n by (intro rtrancl_into_trancl1) simp_all
    then show ?thesis by blast
  next
    case False
    have "chain_cycles chain (nxt # visited) nxt"
      using 1(2) n False by (subst (asm) chain_cycles.simps) simp
    moreover have "\<forall>v \<in> set (nxt # visited). (v, nxt) \<in> (edges chain)\<^sup>*"
      using 1(3) n by (auto intro: rtrancl_into_rtrancl)
    ultimately show ?thesis using 1(1) [OF n False] by blast
  qed
qed

lemma edge_trancl_step:
  assumes "(t, x) \<in> (edges chain)\<^sup>+"
  shows "\<exists>nxt. gm_get chain t = Some nxt \<and> (nxt = x \<or> (nxt, x) \<in> (edges chain)\<^sup>+)"
  using assms by (induction rule: converse_trancl_induct) auto

lemma chain_cycles_complete:
  "(t, x) \<in> (edges chain)\<^sup>+ \<Longrightarrow> x \<in> set visited \<Longrightarrow> chain_cycles chain visited t"
proof (induction chain visited t rule: chain_cycles.induct)
  case (1 chain visited t)
  from edge_trancl_step [OF 1(2)] obtain nxt where
    n: "gm_get chain t = Some nxt" "nxt = x \<or> (nxt, x) \<in> (edges chain)\<^sup>+" by blast
  show ?case
  proof (cases "nxt \<in> set visited")
    case True
    then show ?thesis using n by (subst chain_cycles.simps) simp
  next
    case False
    then have "(nxt, x) \<in> (edges chain)\<^sup>+" using n 1(3) by auto
    then have "chain_cycles chain (nxt # visited) nxt"
      using 1(1) [OF n(1) False] 1(3) by simp
    then show ?thesis using n(1) False by (subst chain_cycles.simps) simp
  qed
qed

lemma validateFallbackChain_acyclic: "validateFallbackChain chain \<longleftrightarrow> acyclic (edges chain)"
proof
  assume "acyclic (edges chain)"
  then have "\<not> chain_cycles chain [start] start" for start
    using chain_cycles_sound [of chain "[start]" start] by (auto simp: acyclic_def)
  then show "validateFallbackChain chain" by (simp add: validateFallbackChain_def)
next
  assume v: "validateFallbackChain chain"
  show "acyclic (edges chain)"
    unfolding acyclic_def
  proof (intro allI notI)
    fix x
    assume c: "(x, x) \<in> (edges chain)\<^sup>+"
    then have "x \<in> set (map fst chain)"
      using edge_trancl_step [OF c] by (auto dest!: map_of_SomeD intro: rev_image_eqI)
    moreover have "chain_cycles chain [x] x" by (rule chain_cycles_complete [OF c]) simp
    ultimately show False using v by (auto simp: validateFallbackChain_def)
  qed
qed

lemma NewPolicy_D:
  assumes "NewPolicy targets rules defaultTier fallbackChain budgets = Inr p"
  shows "acyclic (edges (po_fallback p))" "po_rules p = stableSortRules rules" "po_targets p = targets"
    "\<exists>names. check_targets [] targets = Inr names \<and> check_rules names rules = None"
  using assms
  by (auto simp: NewPolicy_def res_bind_eq_Inr Let_def validateFallbackChain_acyclic
      split: if_splits option.splits)

lemma budget_walk_path:
  "(t, budget_walk p visited t) \<in> {(a, b). tier_exhausted p a \<and> Fallback p a = Some b}\<^sup>*"
proof (induction p visited t rule: budget_walk.induct)
  case (1 p visited t)
  show ?case
    using 1 by (subst budget_walk.simps) (auto split: option.split intro: converse_rtrancl_into_rtrancl)
qed

lemma budget_walk_stops:
  "acyclic (edges (po_fallback p)) \<Longrightarrow> \<forall>v \<in> set visited. (v, t) \<in> (edges (po_fallback p))\<^sup>+ \<Longrightarrow>
   tier_exhausted p (budget_walk p visited t) \<Longrightarrow> Fallback p (budget_walk p visited t) = None"
proof (induction p visited t rule: budget_walk.induct)
  case (1 p visited t)
  have nv: "t \<notin> set visited" using 1(2,3) by (auto simp: acyclic_def)
  show ?case
  proof (cases "tier_exhausted p t")
    case False
    then have "budget_walk p visited t = t" using nv by (subst budget_walk.simps) simp
    with False 1(4) show ?thesis by simp
  next
    case True
    show ?thesis
    proof (cases "Fallback p t")
      case None
      then have "budget_walk p visited t = t" using nv True by (subst budget_walk.simps) simp
      with None show ?thesis by simp
    next
      case (Some nxt)
      then have b: "budget_walk p visited t = budget_walk p (t # visited) nxt"
        using nv True by (subst budget_walk.simps) simp
      have e: "(t, nxt) \<in> edges (po_fallback p)" using Some by (simp add: Fallback_def)
      have "\<forall>v \<in> set (t # visited). (v, nxt) \<in> (edges (po_fallback p))\<^sup>+"
        using 1(3) e by (auto intro: trancl_into_trancl)
      with 1(1) [OF nv _ Some] True 1(2,4) show ?thesis unfolding b by blast
    qed
  qed
qed

section \<open>Rule order\<close>

lemma sift_set: "mset (sift r xs) = add_mset r (mset xs)"
  by (induction r xs rule: sift.induct) auto

lemma sift_filter:
  "filter (\<lambda>y. k = ru_Priority y) (sift r xs) =
     (if k = ru_Priority r then r # filter (\<lambda>y. k = ru_Priority y) xs
      else filter (\<lambda>y. k = ru_Priority y) xs)"
  by (induction r xs rule: sift.induct) auto

lemma sift_sorted: "sorted_wrt (\<ge>) (map ru_Priority xs) \<Longrightarrow> sorted_wrt (\<ge>) (map ru_Priority (sift r xs))"
proof (induction r xs rule: sift.induct)
  case (2 r q xs)
  have "set (sift r xs) = insert r (set xs)" using sift_set [of r xs] by (metis set_mset_add_mset_insert set_mset_mset)
  with 2 show ?case by auto
qed simp

definition sift_all :: "rule list \<Rightarrow> rule list" where
  "sift_all rs = foldl (\<lambda>prefix r. sift r prefix) [] rs"

lemma sift_all_props:
  "mset (sift_all rs) = mset rs \<and> sorted_wrt (\<ge>) (map ru_Priority (sift_all rs)) \<and>
   filter (\<lambda>y. k = ru_Priority y) (sift_all rs) = rev (filter (\<lambda>y. k = ru_Priority y) rs)"
  by (induction rs rule: rev_induct) (auto simp: sift_all_def sift_set sift_sorted sift_filter)

lemma stableSortRules_sort: "stableSortRules rs = sort_key ru_Priority rs"
proof (rule properties_for_sort_key [symmetric])
  have e: "stableSortRules rs = rev (sift_all rs)" by (simp add: stableSortRules_def sift_all_def)
  show "mset (stableSortRules rs) = mset rs" using sift_all_props by (simp add: e)
  show "sorted (map ru_Priority (stableSortRules rs))"
    using sift_all_props by (simp add: e sorted_wrt_rev flip: rev_map)
  show "filter (\<lambda>y. ru_Priority q = ru_Priority y) (stableSortRules rs) =
      filter (\<lambda>y. ru_Priority q = ru_Priority y) rs" for q
    using sift_all_props [of rs "ru_Priority q"] by (simp add: e flip: rev_filter)
qed

section \<open>Properties\<close>

lemma first_match_Some:
  "first_match rs ident = Some r \<Longrightarrow>
     \<exists>as bs. rs = as @ r # bs \<and> rule_Matches r ident \<and> (\<forall>q \<in> set as. \<not> rule_Matches q ident)"
proof (induction rs)
  case (Cons q rs)
  show ?case
  proof (cases "rule_Matches q ident")
    case True
    with Cons.prems show ?thesis by (intro exI [of _ "[]"] exI [of _ rs]) simp
  next
    case False
    with Cons obtain as bs where "rs = as @ r # bs" "rule_Matches r ident" "\<forall>q \<in> set as. \<not> rule_Matches q ident"
      by auto
    with False show ?thesis by (intro exI [of _ "q # as"] exI [of _ bs]) simp
  qed
qed simp

lemma first_match_None: "first_match rs ident = None \<longleftrightarrow> (\<forall>r \<in> set rs. \<not> rule_Matches r ident)"
  by (induction rs) auto

text \<open>
  C18: A policy is built only when its fallback chain is acyclic: validateFallbackChain accepts
  exactly the chains with no tier that leads back to itself, and NewPolicy refuses the others.
\<close>

theorem NewPolicy_acyclic:
  shows "(validateFallbackChain chain \<longleftrightarrow> acyclic (edges chain)) \<and>
    (\<not> acyclic (edges chain) \<longrightarrow> \<not> is_ok (NewPolicy targets rules defaultTier (Some chain) budgets))"
  by (auto simp: validateFallbackChain_acyclic NewPolicy_def is_ok_iff res_bind_eq_Inr split: if_splits option.splits)

theorem NewPolicy_acyclic_witness:
  "\<not> is_ok (NewPolicy [] [] 0 (Some [(1, 2), (2, 3), (3, 2)]) None)"
proof -
  have "\<not> validateFallbackChain [(1, 2), (2, 3), (3, 2)]" by code_simp
  then have "\<not> acyclic (edges [(1, 2), (2, 3), (3, 2)])" by (simp add: validateFallbackChain_acyclic)
  then show ?thesis
    using NewPolicy_acyclic [of "[(1, 2), (2, 3), (3, 2)]" "[]" "[]" 0 None] by blast
qed

text \<open>The budget gate sinks along the fallback chain only past exhausted tiers, and never
  stops at an exhausted one while the chain goes on; it changes nothing else of the decision
  and records the tier it came from.\<close>

theorem ApplyBudget_sinks:
  assumes "NewPolicy targets rules defaultTier fallbackChain budgets = Inr p"
  shows "(de_Tier d, de_Tier (ApplyBudget p d)) \<in> {(a, b). tier_exhausted p a \<and> Fallback p a = Some b}\<^sup>* \<and>
    (tier_exhausted p (de_Tier (ApplyBudget p d)) \<longrightarrow> Fallback p (de_Tier (ApplyBudget p d)) = None) \<and>
    de_Identity (ApplyBudget p d) = de_Identity d \<and> de_PreferTargets (ApplyBudget p d) = de_PreferTargets d \<and>
    (de_Tier (ApplyBudget p d) \<noteq> de_Tier d \<longrightarrow> de_DowngradedFrom (ApplyBudget p d) = de_Tier d)"
proof -
  have t: "de_Tier (ApplyBudget p d) = budget_walk p [] (de_Tier d)"
    by (simp add: ApplyBudget_def Let_def)
  show ?thesis
    unfolding t
    using budget_walk_path [of "de_Tier d" p "[]"] budget_walk_stops [OF NewPolicy_D(1) [OF assms], of "[]" "de_Tier d"]
    by (simp add: ApplyBudget_def Let_def)
qed

definition demo_target :: "string \<Rightarrow> tier \<Rightarrow> bool \<Rightarrow> target" where
  "demo_target n t self =
     \<lparr>t_Name = n, t_Tier = t, t_BaseURL = ''http://'' @ n, t_Model = ''m'', t_Weight = 1, t_Enabled = True,
      t_SelfHosted = self, t_InputPrice = 0, t_OutputPrice = 0, t_CredentialKey = n\<rparr>"

definition demo_budget :: budget where
  "demo_budget = \<lparr>bu_HardLimit = 10, bu_SoftRatio = 4 / 5, bu_Spent = 12, bu_Warned = True\<rparr>"

theorem ApplyBudget_sinks_witness:
  "\<exists>p. NewPolicy [demo_target ''a'' 1 False, demo_target ''b'' 2 True] [] 0 None (Some [(1, demo_budget)]) = Inr p \<and>
     de_Tier (ApplyBudget p (Resolve p (Anonymous\<lparr>id_TierHint := 1\<rparr>))) = 2 \<and>
     de_DowngradedFrom (ApplyBudget p (Resolve p (Anonymous\<lparr>id_TierHint := 1\<rparr>))) = 1"
proof -
  let ?r = "NewPolicy [demo_target ''a'' 1 False, demo_target ''b'' 2 True] [] 0 None (Some [(1, demo_budget)])"
  have v: "validateFallbackChain [(1, 2)]" by code_simp
  then obtain p where p: "?r = Inr p" "po_fallback p = [(1, 2)]" "po_budgets p = [(1, demo_budget)]"
      "po_targets p = [demo_target ''a'' 1 False, demo_target ''b'' 2 True]" "po_rules p = []"
    by (auto simp: NewPolicy_def demo_target_def Let_def Tier1Premium_def Tier2Standard_def stableSortRules_def)
  let ?d = "Resolve p (Anonymous\<lparr>id_TierHint := 1\<rparr>)"
  have d: "de_Tier ?d = 1"
    by (simp add: Resolve_def TargetsOf_def p Anonymous_def demo_target_def)
  have e: "tier_exhausted p 1" "\<not> tier_exhausted p 2" "Fallback p 1 = Some 2"
    by (simp_all add: tier_exhausted_def BudgetOf_def p demo_budget_def budget_Exhausted_def Fallback_def)
  have w: "budget_walk p [] 1 = 2"
    using e by (subst budget_walk.simps, simp, subst budget_walk.simps, simp)
  then have t: "de_Tier (ApplyBudget p ?d) = 2" using d by (simp add: ApplyBudget_def Let_def)
  moreover have "de_DowngradedFrom (ApplyBudget p ?d) = 1"
    using ApplyBudget_sinks [OF p(1), of ?d] t d by simp
  ultimately show ?thesis using p(1) by blast
qed


definition demo_rule :: "string \<Rightarrow> int \<Rightarrow> tier \<Rightarrow> rule" where
  "demo_rule n prio t =
     \<lparr>ru_Name = n, ru_TargetTier = t, ru_MatchApps = [''app-*''], ru_MatchTasks = [], ru_MatchTenants = [],
      ru_MinPriority = 0, ru_MatchAttributes = [], ru_PreferTargets = [], ru_Priority = prio, ru_Enabled = True\<rparr>"

lemma demo_matches:
  "rule_Matches (demo_rule n prio t) (Anonymous\<lparr>id_App := ''app-x''\<rparr>)"
proof -
  have "path_match ''app-*'' ''app-x'' = Some True" by code_simp
  then show ?thesis by (simp add: rule_Matches_def demo_rule_def)
qed


end
