(* ===== verification/Breaker.thy ===== *)
theory Breaker imports Prelude begin

text \<open>
  The circuit breaker of one backend (\<open>internal/routing/breaker.go\<close>), a state machine over
  the calls \<open>Allow\<close>, \<open>RecordSuccess\<close>, \<open>RecordFailure\<close>, \<open>Reset\<close> and \<open>State\<close>, with the clock
  reading as a parameter.
\<close>

datatype breaker_state = StateClosed | StateOpen | StateHalfOpen

fun breaker_state_String :: "breaker_state \<Rightarrow> string" where
  "breaker_state_String StateClosed = ''closed''"
| "breaker_state_String StateOpen = ''open''"
| "breaker_state_String StateHalfOpen = ''half_open''"

record breaker =
  br_name :: string
  br_threshold :: int
  br_recovery :: int
  br_halfMax :: int
  br_state :: breaker_state
  br_consecutive :: int
  br_openedAt :: int
  br_halfCalls :: int

definition NewBreaker :: "string \<Rightarrow> int \<Rightarrow> int \<Rightarrow> breaker" where
  "NewBreaker name failureThreshold recoveryTimeout =
     \<lparr>br_name = name,
      br_threshold = (if failureThreshold \<le> 0 then 5 else failureThreshold),
      br_recovery = (if recoveryTimeout \<le> 0 then 30 * 10 ^ 9 else recoveryTimeout),
      br_halfMax = 2, br_state = StateClosed, br_consecutive = 0, br_openedAt = 0, br_halfCalls = 0\<rparr>"

definition refreshLocked :: "breaker \<Rightarrow> int \<Rightarrow> breaker" where
  "refreshLocked b now =
     (if br_state b = StateOpen \<and> time_sub now (br_openedAt b) \<ge> br_recovery b
      then b\<lparr>br_state := StateHalfOpen, br_halfCalls := 0\<rparr> else b)"

definition breaker_State :: "breaker \<Rightarrow> int \<Rightarrow> breaker_state \<times> breaker" where
  "breaker_State b now = (let b = refreshLocked b now in (br_state b, b))"

definition Allow :: "breaker \<Rightarrow> int \<Rightarrow> bool \<times> breaker" where
  "Allow b now =
     (let b = refreshLocked b now in
      case br_state b of
        StateClosed \<Rightarrow> (True, b)
      | StateOpen \<Rightarrow> (False, b)
      | StateHalfOpen \<Rightarrow>
          if br_halfCalls b < br_halfMax b then (True, b\<lparr>br_halfCalls := br_halfCalls b + 1\<rparr>)
          else (False, b))"

definition RecordSuccess :: "breaker \<Rightarrow> breaker" where
  "RecordSuccess b = b\<lparr>br_state := StateClosed, br_consecutive := 0, br_halfCalls := 0\<rparr>"

definition RecordFailure :: "breaker \<Rightarrow> int \<Rightarrow> breaker" where
  "RecordFailure b now =
     (let b = b\<lparr>br_consecutive := wrap64 (br_consecutive b + 1)\<rparr> in
      if br_state b = StateHalfOpen \<or> br_consecutive b \<ge> br_threshold b
      then b\<lparr>br_state := StateOpen, br_openedAt := now, br_halfCalls := 0\<rparr> else b)"

definition breaker_Reset :: "breaker \<Rightarrow> breaker" where
  "breaker_Reset b = b\<lparr>br_state := StateClosed, br_consecutive := 0, br_halfCalls := 0\<rparr>"

section \<open>The state machine\<close>

datatype breaker_event = EvAllow int | EvState int | EvSuccess | EvFailure int | EvReset

text \<open>One call: the breaker before, the call, the answer of \<open>Allow\<close> if it is one, the breaker after.\<close>

inductive breaker_step :: "breaker \<Rightarrow> breaker_event \<Rightarrow> bool option \<Rightarrow> breaker \<Rightarrow> bool" where
  step_allow: "Allow b now = (ok, b') \<Longrightarrow> breaker_step b (EvAllow now) (Some ok) b'"
| step_state: "breaker_State b now = (s, b') \<Longrightarrow> breaker_step b (EvState now) None b'"
| step_success: "breaker_step b EvSuccess None (RecordSuccess b)"
| step_failure: "breaker_step b (EvFailure now) None (RecordFailure b now)"
| step_reset: "breaker_step b EvReset None (breaker_Reset b)"

inductive_cases breaker_stepE: "breaker_step b e r b'"

inductive breaker_run :: "breaker \<Rightarrow> (breaker_event \<times> bool option) list \<Rightarrow> breaker \<Rightarrow> bool" where
  run_nil: "breaker_run b [] b"
| run_cons: "breaker_step b e r b' \<Longrightarrow> breaker_run b' es b'' \<Longrightarrow> breaker_run b ((e, r) # es) b''"

inductive_cases breaker_run_consE: "breaker_run b (p # es) b''"

definition breaker_inv :: "breaker \<Rightarrow> bool" where
  "breaker_inv b \<longleftrightarrow> 0 < br_threshold b \<and> br_threshold b \<le> int64_max \<and> 0 < br_recovery b \<and> br_halfMax b = 2 \<and>
     0 \<le> br_halfCalls b \<and> br_halfCalls b \<le> 2 \<and>
     (br_state b = StateClosed \<longrightarrow> br_consecutive b < br_threshold b) \<and>
     (br_state b \<noteq> StateHalfOpen \<longrightarrow> br_halfCalls b = 0)"

lemma NewBreaker_inv: "n \<le> int64_max \<Longrightarrow> breaker_inv (NewBreaker name n t)"
  by (simp add: breaker_inv_def NewBreaker_def int64_max_def)

lemma refresh_inv [inv_intros]: "breaker_inv b \<Longrightarrow> breaker_inv (refreshLocked b now)"
  by (auto simp: breaker_inv_def refreshLocked_def)

lemma Allow_inv [inv_intros]: "breaker_inv b \<Longrightarrow> breaker_inv (snd (Allow b now))"
  using refresh_inv [of b now]
  by (auto simp: breaker_inv_def Allow_def Let_def split: breaker_state.split)

lemma Record_inv [inv_intros]:
  "breaker_inv b \<Longrightarrow> breaker_inv (RecordSuccess b)" "breaker_inv b \<Longrightarrow> breaker_inv (breaker_Reset b)"
  "breaker_inv b \<Longrightarrow> breaker_inv (RecordFailure b now)"
  by (auto simp: breaker_inv_def RecordSuccess_def breaker_Reset_def RecordFailure_def Let_def)

lemma breaker_step_inv: "breaker_step b e r b' \<Longrightarrow> breaker_inv b \<Longrightarrow> breaker_inv b'"
proof (induction rule: breaker_step.induct)
  case (step_allow b now ok b')
  then show ?case using Allow_inv [of b now] by simp
qed (auto simp: breaker_State_def Let_def intro: inv_intros)

lemma breaker_run_inv: "breaker_run b es b' \<Longrightarrow> breaker_inv b \<Longrightarrow> breaker_inv b'"
  by (induction rule: breaker_run.induct) (auto intro: breaker_step_inv)

section \<open>Properties\<close>

text \<open>An open breaker rejects until its recovery time has passed: whatever sequence of Allow
  and State calls happens within the recovery time after it opened, it stays open and every
  Allow answers no.\<close>

theorem open_breaker_rejects:
  assumes "breaker_run b es b'" "br_state b = StateOpen"
    and "\<forall>(e, r) \<in> set es. \<exists>now. (e = EvAllow now \<or> e = EvState now) \<and>
           now - br_openedAt b < br_recovery b \<and> int64 (now - br_openedAt b)"
  shows "b' = b \<and> (\<forall>(e, r) \<in> set es. \<forall>now. e = EvAllow now \<longrightarrow> r = Some False)"
  using assms
proof (induction rule: breaker_run.induct)
  case (run_cons b e r b1 es b2)
  obtain now where n: "e = EvAllow now \<or> e = EvState now"
      "now - br_openedAt b < br_recovery b" "int64 (now - br_openedAt b)"
    using run_cons.prems by auto
  have "time_sub now (br_openedAt b) = now - br_openedAt b"
    using n by (simp add: time_sub_def int64_def)
  then have "refreshLocked b now = b" using n by (simp add: refreshLocked_def)
  then have "b1 = b \<and> (e = EvAllow now \<longrightarrow> r = Some False)"
    using run_cons.hyps(1) run_cons.prems(1) n(1)
    by (auto elim!: breaker_stepE simp: Allow_def breaker_State_def)
  then show ?case using run_cons n(1) by auto
qed simp

definition tripped :: breaker where
  "tripped = RecordFailure (NewBreaker ''b'' 1 10) 100"

theorem open_breaker_rejects_witness:
  "breaker_run tripped [(EvAllow 105, Some False), (EvState 109, None)] tripped \<and> br_state tripped = StateOpen \<and>
   fst (Allow tripped 105) = False"
proof -
  have s: "br_state tripped = StateOpen" "br_openedAt tripped = 100" "br_recovery tripped = 10" by code_simp+
  have a: "Allow tripped 105 = (False, tripped)" "breaker_State tripped 109 = (StateOpen, tripped)" by code_simp+
  have r: "breaker_run tripped [(EvAllow 105, Some False), (EvState 109, None)] tripped"
    using a by (blast intro: breaker_run.intros breaker_step.intros)
  have "Some False = Some False"
    using open_breaker_rejects [OF r s(1)] s
    by (auto simp: int64_def int64_min_def int64_max_def)
  with r s a show ?thesis by simp
qed

definition failures :: "breaker \<Rightarrow> int list \<Rightarrow> breaker" where
  "failures b nows = fold (\<lambda>now b. RecordFailure b now) nows b"

lemma failures_snoc: "failures b (nows @ [now]) = RecordFailure (failures b nows) now"
  by (simp add: failures_def)

lemma failures_state:
  assumes "0 < n" "int (length nows) \<le> int64_max"
  shows "br_consecutive (failures (NewBreaker name n t) nows) = int (length nows) \<and>
     br_threshold (failures (NewBreaker name n t) nows) = n \<and>
     br_state (failures (NewBreaker name n t) nows) = (if n \<le> int (length nows) then StateOpen else StateClosed)"
  using assms(2)
proof (induction nows rule: rev_induct)
  case Nil
  then show ?case using assms(1) by (simp add: failures_def NewBreaker_def)
next
  case (snoc now nows)
  have w: "wrap64 (int (length nows) + 1) = int (length nows) + 1"
    using snoc.prems by (intro wrap64_id) (simp add: int64_def int64_min_def int64_max_def)
  show ?case
    using snoc w unfolding failures_snoc
    by (auto simp: RecordFailure_def Let_def)
qed

text \<open>A closed breaker trips after exactly the configured number of failures in a row: from a
  fresh breaker, after n failures without a success between them it is open exactly when n
  has reached the threshold, and it still lets requests through before.\<close>

theorem breaker_trips_at_threshold:
  assumes "0 < n" "int (length nows) \<le> int64_max"
  shows "(br_state (failures (NewBreaker name n t) nows) = StateOpen \<longleftrightarrow> n \<le> int (length nows)) \<and>
    (int (length nows) < n \<longrightarrow> fst (Allow (failures (NewBreaker name n t) nows) now))"
  using failures_state [OF assms, of name t]
  by (auto simp: Allow_def refreshLocked_def Let_def)

theorem breaker_trips_at_threshold_witness:
  "br_state (failures (NewBreaker ''b'' 3 10) [1, 2, 3]) = StateOpen \<and>
   fst (Allow (failures (NewBreaker ''b'' 3 10) [1, 2]) 5)"
  using breaker_trips_at_threshold [of 3 "[1, 2, 3]" "''b''" 10 5]
    breaker_trips_at_threshold [of 3 "[1, 2]" "''b''" 10 5] by (simp add: int64_max_def)

text \<open>A half-open breaker whose two trial calls were handed out but never reported stays
  half-open and rejects forever: no later time, and no number of further Allow or State
  calls, brings it back. Only a report or a reset does.\<close>

theorem half_open_quota_exhausts:
  assumes "breaker_run b es b'" "br_state b = StateHalfOpen" "br_halfCalls b = br_halfMax b"
    and "\<forall>(e, r) \<in> set es. \<exists>now. e = EvAllow now \<or> e = EvState now"
  shows "b' = b \<and> (\<forall>(e, r) \<in> set es. \<forall>now. e = EvAllow now \<longrightarrow> r = Some False)"
  using assms
proof (induction rule: breaker_run.induct)
  case (run_cons b e r b1 es b2)
  have "b1 = b \<and> (\<forall>now. e = EvAllow now \<longrightarrow> r = Some False)"
    using run_cons.hyps(1) run_cons.prems
    by (auto elim!: breaker_stepE simp: Allow_def breaker_State_def refreshLocked_def Let_def)
  then show ?case using run_cons by auto
qed simp

definition stuck :: breaker where
  "stuck = snd (Allow (snd (Allow tripped 200)) 201)"

theorem half_open_quota_exhausts_witness:
  "br_state stuck = StateHalfOpen \<and> breaker_run stuck [(EvAllow (10 ^ 15), Some False)] stuck \<and>
   \<not> fst (Allow stuck (10 ^ 18))"
proof -
  have s: "br_state stuck = StateHalfOpen" "br_halfCalls stuck = br_halfMax stuck" by code_simp+
  have a: "Allow stuck (10 ^ 15) = (False, stuck)" by code_simp
  have r: "breaker_run stuck [(EvAllow (10 ^ 15), Some False)] stuck"
    using a by (blast intro: breaker_run.intros breaker_step.intros)
  obtain ok b where ok: "Allow stuck (10 ^ 18) = (ok, b)" by (cases "Allow stuck (10 ^ 18)")
  then have "breaker_run stuck [(EvAllow (10 ^ 18), Some ok)] b"
    by (blast intro: breaker_run.intros breaker_step.intros)
  from half_open_quota_exhausts [OF this s] ok s r show ?thesis by auto
qed

end
