(* ===== verification/GpuLoad.thy ===== *)
theory GpuLoad imports Prelude begin

text \<open>
  Back-pressure from GPU metrics (\<open>gpuload/admission.go\<close>): the state of one backend, the
  pressure computed at each update, and the admission decision by priority. Metric values are
  floats that a backend may report as NaN or infinite, so they are modelled with these values.
\<close>

datatype gofloat = Fin rat | PosInf | NegInf | NaN

fun fl_ge :: "gofloat \<Rightarrow> gofloat \<Rightarrow> bool" where
  "fl_ge (Fin a) (Fin b) = (b \<le> a)"
| "fl_ge NaN b = False"
| "fl_ge a NaN = False"
| "fl_ge PosInf b = True"
| "fl_ge a PosInf = False"
| "fl_ge a NegInf = True"
| "fl_ge NegInf b = False"

definition fl_gt :: "gofloat \<Rightarrow> gofloat \<Rightarrow> bool" where
  "fl_gt a b \<longleftrightarrow> fl_ge a b \<and> \<not> fl_ge b a"

datatype pressure = PressureNormal | PressureElevated | PressureCritical | PressureUnknown

fun pressure_String :: "pressure \<Rightarrow> string" where
  "pressure_String PressureNormal = ''normal''"
| "pressure_String PressureElevated = ''elevated''"
| "pressure_String PressureCritical = ''critical''"
| "pressure_String PressureUnknown = ''unknown''"

record thresholds =
  th_KVElevated :: gofloat
  th_KVCritical :: gofloat
  th_WaitingElevated :: int
  th_WaitingCritical :: int
  th_PreemptionWindow :: int
  th_StaleAfter :: int

definition DefaultThresholds :: thresholds where
  "DefaultThresholds =
     \<lparr>th_KVElevated = Fin (3 / 4), th_KVCritical = Fin (9 / 10), th_WaitingElevated = 8,
      th_WaitingCritical = 32, th_PreemptionWindow = 30 * 10 ^ 9, th_StaleAfter = 15 * 10 ^ 9\<rparr>"

record snapshot =
  sn_Running :: int
  sn_Waiting :: int
  sn_KVCacheUsage :: gofloat
  sn_PrefixHits :: gofloat
  sn_PrefixQueries :: gofloat
  sn_Preemptions :: gofloat
  sn_Valid :: bool

definition invalid_snapshot :: snapshot where
  "invalid_snapshot = \<lparr>sn_Running = 0, sn_Waiting = 0, sn_KVCacheUsage = Fin 0, sn_PrefixHits = Fin 0,
     sn_PrefixQueries = Fin 0, sn_Preemptions = Fin 0, sn_Valid = False\<rparr>"

definition QueueDepth :: "snapshot \<Rightarrow> int" where
  "QueueDepth s = sn_Running s + sn_Waiting s"

text \<open>A zero \<open>time.Time\<close> is None.\<close>

record gpu_state =
  gs_name :: string
  gs_th :: thresholds
  gs_snapshot :: snapshot
  gs_updatedAt :: "int option"
  gs_lastPreemption :: gofloat
  gs_preemptedAt :: "int option"
  gs_pressure :: pressure

definition gpu_NewState :: "string \<Rightarrow> thresholds \<Rightarrow> gpu_state" where
  "gpu_NewState name th =
     \<lparr>gs_name = name, gs_th = th, gs_snapshot = invalid_snapshot, gs_updatedAt = None,
      gs_lastPreemption = Fin 0, gs_preemptedAt = None, gs_pressure = PressureUnknown\<rparr>"

definition since :: "int \<Rightarrow> int option \<Rightarrow> int" where
  "since now t = (case t of None \<Rightarrow> int64_max | Some t \<Rightarrow> time_sub now t)"

definition computeLocked :: "gpu_state \<Rightarrow> int \<Rightarrow> pressure" where
  "computeLocked s now =
     (let snap = gs_snapshot s; th = gs_th s in
      if \<not> sn_Valid snap then PressureUnknown
      else if since now (gs_updatedAt s) > th_StaleAfter th then PressureUnknown
      else if gs_preemptedAt s \<noteq> None \<and> since now (gs_preemptedAt s) < th_PreemptionWindow th
      then PressureCritical
      else if fl_ge (sn_KVCacheUsage snap) (th_KVCritical th) \<or> sn_Waiting snap \<ge> th_WaitingCritical th
      then PressureCritical
      else if fl_ge (sn_KVCacheUsage snap) (th_KVElevated th) \<or> sn_Waiting snap \<ge> th_WaitingElevated th
      then PressureElevated
      else PressureNormal)"

definition gpu_Update :: "gpu_state \<Rightarrow> snapshot \<Rightarrow> int \<Rightarrow> gpu_state" where
  "gpu_Update s snap now =
     (let prevPreemptions = gs_lastPreemption s;
          hadPrev = (gs_updatedAt s \<noteq> None);
          s = s\<lparr>gs_snapshot := snap, gs_updatedAt := Some now\<rparr>;
          s = (if sn_Valid snap then
                 let s = (if hadPrev \<and> fl_gt (sn_Preemptions snap) prevPreemptions
                          then s\<lparr>gs_preemptedAt := Some now\<rparr> else s) in
                 s\<lparr>gs_lastPreemption := sn_Preemptions snap\<rparr>
               else s) in
      s\<lparr>gs_pressure := computeLocked s now\<rparr>)"

record gpu_decision =
  gd_Admit :: bool
  gd_Pressure :: pressure
  gd_RetryAfter :: int

definition refuse :: "pressure \<Rightarrow> int \<Rightarrow> gpu_decision" where
  "refuse p seconds = \<lparr>gd_Admit = False, gd_Pressure = p, gd_RetryAfter = seconds * 10 ^ 9\<rparr>"

definition admit_now :: "pressure \<Rightarrow> gpu_decision" where
  "admit_now p = \<lparr>gd_Admit = True, gd_Pressure = p, gd_RetryAfter = 0\<rparr>"

definition gpu_Admit :: "gpu_state \<Rightarrow> int \<Rightarrow> gpu_decision" where
  "gpu_Admit s priority =
     (let p = gs_pressure s in
      case p of
        PressureNormal \<Rightarrow> admit_now p
      | PressureElevated \<Rightarrow> if priority \<ge> 4 then admit_now p else refuse p 2
      | PressureCritical \<Rightarrow> if priority \<ge> 8 then admit_now p else refuse p 10
      | PressureUnknown \<Rightarrow> if priority \<ge> 4 then admit_now p else refuse p 5)"

type_synonym gpu_registry = "(string, gpu_state) gomap"

definition gpu_Register :: "gpu_registry \<Rightarrow> string \<Rightarrow> thresholds \<Rightarrow> gpu_state \<times> gpu_registry" where
  "gpu_Register r name th =
     (case gm_get r name of
        Some st \<Rightarrow> (st, r)
      | None \<Rightarrow> (gpu_NewState name th, gm_set name (gpu_NewState name th) r))"

definition gpu_Get :: "gpu_registry \<Rightarrow> string \<Rightarrow> gpu_state option" where
  "gpu_Get r name = gm_get r name"

section \<open>Properties\<close>

text \<open>How loaded a pressure level is, Unknown being treated as Elevated.\<close>

fun severity :: "pressure \<Rightarrow> nat" where
  "severity PressureNormal = 0"
| "severity PressureElevated = 1"
| "severity PressureUnknown = 1"
| "severity PressureCritical = 2"

text \<open>Admission is monotone: a request that is admitted stays admitted when its priority is
  higher or the pressure lower, the emergency channel (priority 8 and 9) is never closed, and
  every refusal tells the client to wait at least two seconds.\<close>

theorem gpu_Admit_monotone:
  shows "(p \<le> q \<longrightarrow> severity (gs_pressure s') \<le> severity (gs_pressure s) \<longrightarrow>
      gd_Admit (gpu_Admit s p) \<longrightarrow> gd_Admit (gpu_Admit s' q)) \<and>
    (8 \<le> p \<longrightarrow> gd_Admit (gpu_Admit s p)) \<and>
    (\<not> gd_Admit (gpu_Admit s p) \<longrightarrow> 2 * 10 ^ 9 \<le> gd_RetryAfter (gpu_Admit s p))"
  by (cases "gs_pressure s"; cases "gs_pressure s'")
    (auto simp: gpu_Admit_def admit_now_def refuse_def Let_def)

theorem gpu_Admit_monotone_witness:
  "gd_Admit (gpu_Admit (gpu_NewState ''a'' DefaultThresholds) 8)"
  using gpu_Admit_monotone [of 8 9 "gpu_NewState ''a'' DefaultThresholds" "gpu_NewState ''a'' DefaultThresholds"]
  by simp

text \<open>The staleness threshold has no effect: a pressure is only computed while an update is
  being stored, when its age is zero, so two backends that differ in StaleAfter alone always
  report the same pressure, however long ago the last update was.\<close>

theorem StaleAfter_has_no_effect:
  assumes "0 \<le> a" "0 \<le> b"
    and "gs_th s = (gs_th s')\<lparr>th_StaleAfter := a\<rparr>" "th_StaleAfter (gs_th s') = b"
    and "gs_updatedAt s = gs_updatedAt s'" "gs_lastPreemption s = gs_lastPreemption s'"
    and "gs_preemptedAt s = gs_preemptedAt s'"
  shows "gs_pressure (gpu_Update s snap now) = gs_pressure (gpu_Update s' snap now) \<and>
    gpu_Admit (gpu_Update s snap now) priority = gpu_Admit (gpu_Update s' snap now) priority"
proof -
  have z: "since now (Some now) = 0" by (simp add: since_def time_sub_def int64_min_def int64_max_def)
  have "gs_pressure (gpu_Update s snap now) = gs_pressure (gpu_Update s' snap now)"
    using assms by (simp add: gpu_Update_def computeLocked_def z Let_def)
  then show ?thesis by (simp add: gpu_Admit_def)
qed

definition calm :: snapshot where
  "calm = invalid_snapshot\<lparr>sn_Valid := True\<rparr>"

theorem StaleAfter_has_no_effect_witness:
  "gs_pressure (gpu_Update (gpu_NewState ''a'' DefaultThresholds) calm 0) =
   gs_pressure (gpu_Update (gpu_NewState ''a'' (DefaultThresholds\<lparr>th_StaleAfter := 1\<rparr>)) calm 0) \<and>
   gpu_Admit (gpu_Update (gpu_NewState ''a'' DefaultThresholds) calm 0) 0 = admit_now PressureNormal"
proof -
  have "gpu_Admit (gpu_Update (gpu_NewState ''a'' DefaultThresholds) calm 0) 0 = admit_now PressureNormal"
    by code_simp
  then show ?thesis
    using StaleAfter_has_no_effect [of "15 * 10 ^ 9" 1 "gpu_NewState ''a'' DefaultThresholds"
        "gpu_NewState ''a'' (DefaultThresholds\<lparr>th_StaleAfter := 1\<rparr>)" calm 0 0]
    by (simp add: gpu_NewState_def DefaultThresholds_def)
qed

end
