(* ===== verification/Affinity.thy ===== *)
theory Affinity imports Prelude begin

text \<open>
  Prefix-affine routing on a consistent-hash ring with bounded loads
  (\<open>internal/affinity/prefix.go\<close>). The node hash (SHA-256 of member and index) is a parameter
  \<open>hn\<close>; loads are counters, the load factor a rational.
\<close>

definition virtualNodes :: nat where
  "virtualNodes = 128"

record ring =
  rg_nodes :: "(nat \<times> string) list"
  rg_members :: "string list"
  rg_loads :: "(string, int) gomap"
  rg_loadFactor :: rat
  rg_inflight :: int

definition member_nodes :: "(string \<Rightarrow> nat \<Rightarrow> nat) \<Rightarrow> string \<Rightarrow> (nat \<times> string) list" where
  "member_nodes hn m = map (\<lambda>i. (hn m i, m)) [0..<virtualNodes]"

fun add_loads :: "string list \<Rightarrow> (string, int) gomap \<Rightarrow> (string, int) gomap" where
  "add_loads [] loads = loads"
| "add_loads (m # ms) loads =
     add_loads ms (case gm_get loads m of None \<Rightarrow> gm_set m 0 loads | Some _ \<Rightarrow> loads)"

definition Rebuild :: "(string \<Rightarrow> nat \<Rightarrow> nat) \<Rightarrow> ring \<Rightarrow> string list \<Rightarrow> ring" where
  "Rebuild hn r members =
     r\<lparr>rg_members := members,
       rg_nodes := sort_key fst (concat (map (member_nodes hn) members)),
       rg_loads := filter (\<lambda>p. fst p \<in> set members) (add_loads members (rg_loads r))\<rparr>"

definition NewRing :: "(string \<Rightarrow> nat \<Rightarrow> nat) \<Rightarrow> string list \<Rightarrow> rat \<Rightarrow> ring" where
  "NewRing hn members loadFactor =
     Rebuild hn \<lparr>rg_nodes = [], rg_members = [], rg_loads = [],
       rg_loadFactor = (if loadFactor < 1 then 5 / 4 else loadFactor), rg_inflight = 0\<rparr> members"

text \<open>\<open>eligible\<close> is None for Go's nil map; a member that the map does not hold is not eligible.\<close>

definition is_eligible :: "(string, bool) gomap option \<Rightarrow> string \<Rightarrow> bool" where
  "is_eligible eligible m = (case eligible of None \<Rightarrow> True | Some e \<Rightarrow> gm_get e m = Some True)"

definition capacity_for :: "ring \<Rightarrow> nat \<Rightarrow> int" where
  "capacity_for r eligibleCount = \<lfloor>of_int (rg_inflight r) / of_nat eligibleCount * rg_loadFactor r\<rfloor> + 1"

fun pick_loop ::
    "ring \<Rightarrow> (string, bool) gomap option \<Rightarrow> int \<Rightarrow> nat \<Rightarrow> string list \<Rightarrow> (nat \<times> string) list \<Rightarrow> string option" where
  "pick_loop r eligible capacity n seen [] = None"
| "pick_loop r eligible capacity n seen ((h, m) # nodes) =
     (if m \<in> set seen then pick_loop r eligible capacity n seen nodes
      else if \<not> is_eligible eligible m then pick_loop r eligible capacity n (m # seen) nodes
      else if (case gm_get (rg_loads r) m of Some load \<Rightarrow> load < capacity | None \<Rightarrow> False) then Some m
      else if length (m # seen) \<ge> n then None
      else pick_loop r eligible capacity n (m # seen) nodes)"

fun first_eligible :: "(string, bool) gomap option \<Rightarrow> (nat \<times> string) list \<Rightarrow> string" where
  "first_eligible eligible [] = []"
| "first_eligible eligible ((h, m) # nodes) = (if is_eligible eligible m then m else first_eligible eligible nodes)"

text \<open>The nodes from the key's position round the ring; \<open>sort.Search\<close> finds the position.\<close>

definition from_key :: "(nat \<times> string) list \<Rightarrow> nat \<Rightarrow> (nat \<times> string) list" where
  "from_key nodes key =
     dropWhile (\<lambda>x. fst x < key) nodes @ takeWhile (\<lambda>x. fst x < key) nodes"

definition Pick :: "ring \<Rightarrow> nat \<Rightarrow> (string, bool) gomap option \<Rightarrow> string" where
  "Pick r key eligible =
     (if rg_nodes r = [] then []
      else
        let n = length (filter (is_eligible eligible) (rg_members r)) in
        if n = 0 then []
        else
          let nodes = from_key (rg_nodes r) key in
          case pick_loop r eligible (capacity_for r n) n [] nodes of
            Some m \<Rightarrow> m
          | None \<Rightarrow> first_eligible eligible nodes)"

definition ring_Acquire :: "ring \<Rightarrow> string \<Rightarrow> ring" where
  "ring_Acquire r m =
     (case gm_get (rg_loads r) m of
        Some load \<Rightarrow> r\<lparr>rg_loads := gm_set m (load + 1) (rg_loads r), rg_inflight := rg_inflight r + 1\<rparr>
      | None \<Rightarrow> r)"

definition ring_Release :: "ring \<Rightarrow> string \<Rightarrow> ring" where
  "ring_Release r m =
     (case gm_get (rg_loads r) m of
        None \<Rightarrow> r
      | Some load \<Rightarrow>
          r\<lparr>rg_loads := gm_set m (if load - 1 < 0 then 0 else load - 1) (rg_loads r),
            rg_inflight := (if rg_inflight r - 1 < 0 then 0 else rg_inflight r - 1)\<rparr>)"

definition ring_Load :: "ring \<Rightarrow> string \<Rightarrow> int" where
  "ring_Load r m = (case gm_get (rg_loads r) m of Some load \<Rightarrow> load | None \<Rightarrow> 0)"

section \<open>Properties\<close>

definition ring_wf :: "ring \<Rightarrow> bool" where
  "ring_wf r \<longleftrightarrow> snd ` set (rg_nodes r) = set (rg_members r) \<and>
     (\<forall>m \<in> set (rg_members r). gm_get (rg_loads r) m \<noteq> None)"

lemma add_loads_get:
  "m \<in> set ms \<or> gm_get loads m \<noteq> None \<Longrightarrow> gm_get (add_loads ms loads) m \<noteq> None"
  by (induction ms loads rule: add_loads.induct) (auto simp: gm_get_set split: option.split)

lemma map_of_filter_key: "P k \<Longrightarrow> map_of (filter (\<lambda>p. P (fst p)) m) k = map_of m k"
  by (induction m) auto

lemma Rebuild_wf: "ring_wf (Rebuild hn r members)"
proof -
  have "gm_get (filter (\<lambda>p. fst p \<in> set members) (add_loads members (rg_loads r))) m \<noteq> None"
    if "m \<in> set members" for m
    using that add_loads_get [of m members "rg_loads r"]
    by (simp add: map_of_filter_key [where P = "\<lambda>x. x \<in> set members"])
  moreover have "snd ` set (member_nodes hn m) = {m}" for m
  proof -
    have "0 < virtualNodes" by (simp add: virtualNodes_def)
    then show ?thesis by (simp add: member_nodes_def image_image image_constant_conv)
  qed
  then have "snd ` set (concat (map (member_nodes hn) members)) = set members"
    by (simp add: image_UN)
  ultimately show ?thesis by (simp add: ring_wf_def Rebuild_def)
qed

lemma from_key_set: "set (from_key nodes key) = set nodes"
  unfolding from_key_def by (metis set_append sup_commute takeWhile_dropWhile_id)

lemma pick_loop_eligible:
  "pick_loop r eligible capacity n seen nodes = Some m \<Longrightarrow>
   m \<in> snd ` set nodes \<and> is_eligible eligible m \<and> ring_Load r m < capacity"
  by (induction r eligible capacity n seen nodes rule: pick_loop.induct)
    (auto simp: ring_Load_def split: if_splits option.splits)

lemma first_eligible_found:
  "\<exists>x \<in> set nodes. is_eligible eligible (snd x) \<Longrightarrow>
   first_eligible eligible nodes \<in> snd ` set nodes \<and> is_eligible eligible (first_eligible eligible nodes)"
  by (induction eligible nodes rule: first_eligible.induct) auto

lemma Pick_eligible:
  assumes "ring_wf r" "\<exists>m \<in> set (rg_members r). is_eligible eligible m"
  shows "Pick r key eligible \<in> set (rg_members r) \<and> is_eligible eligible (Pick r key eligible)"
proof -
  let ?ns = "from_key (rg_nodes r) key"
  let ?n = "length (filter (is_eligible eligible) (rg_members r))"
  have s: "snd ` set ?ns = set (rg_members r)" using assms(1) by (simp add: ring_wf_def from_key_set)
  have ne: "rg_nodes r \<noteq> []" using assms by (auto simp: ring_wf_def)
  have n: "?n \<noteq> 0" using assms(2) by (auto simp: filter_empty_conv)
  have "\<exists>x \<in> set ?ns. is_eligible eligible (snd x)"
    using assms(2) unfolding s [symmetric] by auto
  from first_eligible_found [OF this] pick_loop_eligible s ne n show ?thesis
    unfolding Pick_def Let_def by (auto split: option.split)
qed

text \<open>
  With every member eligible the search stops only after all members were seen, so it finds a
  member below the capacity when there is one.
\<close>

lemma pick_loop_all:
  assumes "distinct seen" "\<forall>m \<in> set seen. capacity \<le> ring_Load r m"
    and "\<forall>x \<in> set nodes. gm_get (rg_loads r) (snd x) \<noteq> None"
    and "card (set seen \<union> snd ` set nodes) = n"
    and "pick_loop r None capacity n seen nodes = None"
  shows "\<forall>x \<in> set nodes. capacity \<le> ring_Load r (snd x)"
  using assms
proof (induction nodes arbitrary: seen)
  case (Cons x nodes)
  obtain h m where x: "x = (h, m)" by (cases x)
  show ?case
  proof (cases "m \<in> set seen")
    case True
    then have "set seen \<union> snd ` set (x # nodes) = set seen \<union> snd ` set nodes" using x by auto
    with Cons True show ?thesis by (simp add: x)
  next
    case False
    obtain load where load: "gm_get (rg_loads r) m = Some load" using Cons.prems(3) x by auto
    have ge: "capacity \<le> load"
      using Cons.prems(5) False load by (auto simp: x is_eligible_def split: if_splits)
    have u: "set seen \<union> snd ` set (x # nodes) = set (m # seen) \<union> snd ` set nodes" using x by auto
    have full: "\<forall>q \<in> set (m # seen). capacity \<le> ring_Load r q"
      using Cons.prems(2) ge load by (auto simp: ring_Load_def)
    show ?thesis
    proof (cases "length (m # seen) \<ge> n")
      case True
      have "card (set (m # seen)) = length (m # seen)"
        using Cons.prems(1) False by (simp add: distinct_card)
      moreover have "card (set (m # seen)) \<le> card (set (m # seen) \<union> snd ` set nodes)"
        by (intro card_mono) auto
      moreover have "card (set (m # seen) \<union> snd ` set nodes) = n"
        using Cons.prems(4) unfolding u .
      ultimately have "card (set (m # seen)) = card (set (m # seen) \<union> snd ` set nodes)" using True by linarith
      then have "set (m # seen) = set (m # seen) \<union> snd ` set nodes"
        by (intro card_subset_eq) auto
      then show ?thesis using full x by auto
    next
      case go: False
      have "pick_loop r None capacity n (m # seen) nodes = None"
        using Cons.prems(5) False go load ge by (auto simp: x is_eligible_def split: if_splits)
      then have "\<forall>y \<in> set nodes. capacity \<le> ring_Load r (snd y)"
        using Cons.IH [of "m # seen"] Cons.prems(1,3,4) False full u by simp
      then show ?thesis using full x by simp
    qed
  qed
qed simp

text \<open>The mean of the loads is below the capacity, so some member is.\<close>

lemma capacity_above_mean:
  assumes "0 < n" "1 \<le> rg_loadFactor r" "0 \<le> rg_inflight r"
  shows "rg_inflight r < int n * capacity_for r n"
proof -
  let ?avg = "of_int (rg_inflight r) / of_nat n :: rat"
  have "0 \<le> ?avg" using assms by simp
  then have "?avg \<le> ?avg * rg_loadFactor r" using assms(2) by (metis mult.right_neutral mult_left_mono)
  also have "\<dots> < of_int (capacity_for r n)" by (simp add: capacity_for_def) linarith
  finally have "of_int (rg_inflight r) < of_nat n * (of_int (capacity_for r n) :: rat)"
    using assms(1) by (simp add: divide_less_eq mult.commute)
  then have "(of_int (rg_inflight r) :: rat) < of_int (int n * capacity_for r n)" by simp
  then show ?thesis by (simp only: of_int_less_iff)
qed

lemma member_below_capacity:
  assumes "distinct ms" "ms \<noteq> []" "1 \<le> rg_loadFactor r" "0 \<le> rg_inflight r"
    and "sum_list (map (ring_Load r) ms) \<le> rg_inflight r"
  shows "\<exists>m \<in> set ms. ring_Load r m < capacity_for r (length ms)"
proof (rule ccontr)
  assume "\<not> ?thesis"
  then have "\<forall>m \<in> set ms. capacity_for r (length ms) \<le> ring_Load r m" by auto
  then have "sum_list (map (\<lambda>_. capacity_for r (length ms)) ms) \<le> sum_list (map (ring_Load r) ms)"
    by (intro sum_list_mono) auto
  then have "int (length ms) * capacity_for r (length ms) \<le> rg_inflight r"
    using assms(5) by (simp add: sum_list_triv)
  then show False using capacity_above_mean [of "length ms" r] assms by auto
qed


text \<open>A small ring for the witnesses: hashes by member and index.\<close>

definition demo_ring :: "(string, int) gomap \<Rightarrow> int \<Rightarrow> ring" where
  "demo_ring loads n =
     \<lparr>rg_nodes = [(10, ''a''), (20, ''b''), (30, ''c'')], rg_members = [''a'', ''b'', ''c''], rg_loads = loads,
      rg_loadFactor = 5 / 4, rg_inflight = n\<rparr>"


text \<open>With an ineligible member on the ring the bound is lost: the search counts ineligible
  members as seen and stops early, so it returns an eligible member at six times the mean
  load while another eligible member is idle.\<close>

theorem Pick_ignores_idle_member:
  shows "(let r = demo_ring [(''a'', 0), (''b'', 6), (''c'', 0)] 6;
        e = Some [(''b'', True), (''c'', True)] in
    Pick r 5 e = ''b'' \<and> is_eligible e ''c'' \<and> ring_Load r ''c'' = 0 \<and>
    capacity_for r 2 = 4 \<and> ring_Load r ''b'' = 6)"
  by (simp add: demo_ring_def Pick_def from_key_def is_eligible_def ring_Load_def capacity_for_def floor_eq_iff Let_def)

text \<open>
  A member that leaves the ring takes its counter with it but not its share of the total: the
  releases that follow are ignored, so the total stays above the sum of the loads.
\<close>

lemma departed_member_leaks_inflight:
  assumes "m \<notin> set members"
  shows "ring_Release (Rebuild hn r members) m = Rebuild hn r members"
    "rg_inflight (ring_Release (Rebuild hn r members) m) = rg_inflight r"
proof -
  have "gm_get (filter (\<lambda>p. fst p \<in> set members) al) m = None" for al :: "(string, int) gomap"
    using assms by (auto simp: map_of_eq_None_iff)
  then show "ring_Release (Rebuild hn r members) m = Rebuild hn r members"
    by (simp add: ring_Release_def Rebuild_def)
  then show "rg_inflight (ring_Release (Rebuild hn r members) m) = rg_inflight r"
    by (simp add: Rebuild_def)
qed

end
