(* ===== verification/Lifecycle.thy ===== *)
theory Lifecycle imports Prelude begin

text \<open>
  Orderly shutdown (\<open>internal/lifecycle\<close>): the phase, the tracker of requests in flight, the
  shutdown sequence, and the snapshot file. Atomic counters make each call one step; the
  waits and the file system are what the sequence observes.
\<close>

section \<open>Phases\<close>

datatype phase = PhaseServing | PhaseDraining | PhaseClosing | PhaseStopped

fun phase_rank :: "phase \<Rightarrow> nat" where
  "phase_rank PhaseServing = 0"
| "phase_rank PhaseDraining = 1"
| "phase_rank PhaseClosing = 2"
| "phase_rank PhaseStopped = 3"

lemma phase_rank_inj: "phase_rank p = phase_rank q \<longleftrightarrow> p = q"
  by (cases p; cases q) auto

instantiation phase :: linorder
begin

definition less_eq_phase :: "phase \<Rightarrow> phase \<Rightarrow> bool" where
  "less_eq_phase p q = (phase_rank p \<le> phase_rank q)"

definition less_phase :: "phase \<Rightarrow> phase \<Rightarrow> bool" where
  "less_phase p q = (phase_rank p < phase_rank q)"

instance
  by standard (auto simp: less_eq_phase_def less_phase_def phase_rank_inj)

end

fun phase_String :: "phase \<Rightarrow> string" where
  "phase_String PhaseServing = ''serving''"
| "phase_String PhaseDraining = ''draining''"
| "phase_String PhaseClosing = ''closing''"
| "phase_String PhaseStopped = ''stopped''"

text \<open>\<open>Advance\<close>: the compare-and-swap loop; one successful swap is one step.\<close>

definition state_Advance :: "phase \<Rightarrow> phase \<Rightarrow> bool \<times> phase" where
  "state_Advance cur p = (if p \<le> cur then (False, cur) else (True, p))"

definition Healthy :: "phase \<Rightarrow> bool" where
  "Healthy cur \<longleftrightarrow> cur = PhaseServing"

definition AcceptingNew :: "phase \<Rightarrow> bool" where
  "AcceptingNew cur \<longleftrightarrow> cur = PhaseServing \<or> cur = PhaseDraining"

definition HealthHandler :: "phase \<Rightarrow> int \<times> string" where
  "HealthHandler cur =
     (if Healthy cur then (200, ''ok'') else (503, ''draining: '' @ phase_String cur))"

section \<open>The tracker\<close>

text \<open>
  \<open>Enter\<close> hands out a closure guarded by a \<open>sync.Once\<close>: here a token, with its streaming flag,
  whose first \<open>Done\<close> takes effect. \<open>tr_zero\<close> is the zero channel: its generation and
  whether it is closed.
\<close>

record tracker =
  tr_total :: int
  tr_streaming :: int
  tr_tokens :: "(nat, bool) gomap"
  tr_next :: nat
  tr_gen :: nat
  tr_closed :: bool

definition NewTracker :: tracker where
  "NewTracker = \<lparr>tr_total = 0, tr_streaming = 0, tr_tokens = [], tr_next = 0, tr_gen = 0, tr_closed = False\<rparr>"

definition tracker_Enter :: "tracker \<Rightarrow> bool \<Rightarrow> nat \<times> tracker" where
  "tracker_Enter t streaming =
     (tr_next t,
      t\<lparr>tr_total := tr_total t + 1,
        tr_streaming := (if streaming then tr_streaming t + 1 else tr_streaming t),
        tr_tokens := gm_set (tr_next t) streaming (tr_tokens t),
        tr_next := tr_next t + 1\<rparr>)"

definition signalZero :: "tracker \<Rightarrow> tracker" where
  "signalZero t = t\<lparr>tr_closed := True\<rparr>"

definition tracker_Done :: "tracker \<Rightarrow> nat \<Rightarrow> tracker" where
  "tracker_Done t token =
     (case gm_get (tr_tokens t) token of
        None \<Rightarrow> t
      | Some streaming \<Rightarrow>
          let t = (if streaming then t\<lparr>tr_streaming := tr_streaming t - 1\<rparr> else t);
              t = t\<lparr>tr_total := tr_total t - 1, tr_tokens := gm_del token (tr_tokens t)\<rparr> in
          if tr_total t = 0 then signalZero t else t)"

definition resetZero :: "tracker \<Rightarrow> tracker" where
  "resetZero t = t\<lparr>tr_gen := tr_gen t + 1, tr_closed := False\<rparr>"

text \<open>
  \<open>WaitZero\<close> up to its select: it answers at once when nothing is in flight, else it waits on
  the channel it just made (\<open>Inr\<close> the generation).
\<close>

definition WaitZero_begin :: "tracker \<Rightarrow> (bool + nat) \<times> tracker" where
  "WaitZero_begin t =
     (if tr_total t = 0 then (Inl True, t)
      else let t = resetZero t in
        if tr_total t = 0 then (Inl True, t) else (Inr (tr_gen t), t))"

text \<open>A waiter on generation \<open>g\<close> is woken when that channel is closed.\<close>

definition woken :: "tracker \<Rightarrow> nat \<Rightarrow> bool" where
  "woken t g \<longleftrightarrow> tr_gen t = g \<and> tr_closed t"

inductive tracker_reach :: "tracker \<Rightarrow> bool" where
  tr_new: "tracker_reach NewTracker"
| tr_enter: "tracker_reach t \<Longrightarrow> tracker_reach (snd (tracker_Enter t streaming))"
| tr_done: "tracker_reach t \<Longrightarrow> tracker_reach (tracker_Done t token)"
| tr_wait: "tracker_reach t \<Longrightarrow> tracker_reach (snd (WaitZero_begin t))"

definition tracker_inv :: "tracker \<Rightarrow> bool" where
  "tracker_inv t \<longleftrightarrow> gm_wf (tr_tokens t) \<and> tr_total t = int (length (tr_tokens t)) \<and>
     tr_streaming t = int (length (filter snd (tr_tokens t))) \<and>
     (\<forall>p \<in> set (tr_tokens t). fst p < tr_next t)"

lemma gm_del_filter_snd:
  "gm_wf m \<Longrightarrow> gm_get m k = Some b \<Longrightarrow>
   int (length (filter snd (gm_del k m))) = int (length (filter snd m)) - (if b then 1 else 0)"
proof (induction m)
  case (Cons p m)
  obtain a c where p: "p = (a, c)" by (cases p)
  show ?case
  proof (cases "a = k")
    case True
    with Cons.prems p have "k \<notin> fst ` set m" by (auto simp: gm_wf_def)
    then have "gm_del k m = m" by (auto simp: AList.delete_eq case_prod_unfold intro!: filter_True)
    with True p Cons.prems show ?thesis by auto
  next
    case False
    with Cons p show ?thesis by (auto simp: gm_wf_def)
  qed
qed simp

lemma Enter_inv: "tracker_inv t \<Longrightarrow> tracker_inv (snd (tracker_Enter t streaming))"
proof -
  assume i: "tracker_inv t"
  then have "tr_next t \<notin> fst ` set (tr_tokens t)" by (auto simp: tracker_inv_def)
  then have "gm_get (tr_tokens t) (tr_next t) = None" by (simp add: map_of_eq_None_iff)
  then have "gm_set (tr_next t) streaming (tr_tokens t) = tr_tokens t @ [(tr_next t, streaming)]"
    by (rule gm_set_fresh)
  with i \<open>tr_next t \<notin> _\<close> show ?thesis
    by (auto simp: tracker_inv_def tracker_Enter_def gm_wf_def less_Suc_eq)
qed

lemma Done_inv: "tracker_inv t \<Longrightarrow> tracker_inv (tracker_Done t token)"
proof (cases "gm_get (tr_tokens t) token")
  case (Some streaming)
  assume i: "tracker_inv t"
  then have l: "int (length (gm_del token (tr_tokens t))) = int (length (tr_tokens t)) - 1"
    using gm_del_length [of "tr_tokens t" token streaming] Some by (simp add: tracker_inv_def)
  show ?thesis
    using i Some l gm_del_filter_snd [of "tr_tokens t" token streaming]
    by (auto simp: tracker_inv_def tracker_Done_def signalZero_def Let_def gm_del_mem)
qed (simp add: tracker_Done_def)

lemma Wait_inv: "tracker_inv t \<Longrightarrow> tracker_inv (snd (WaitZero_begin t))"
  by (simp add: WaitZero_begin_def resetZero_def tracker_inv_def Let_def)

lemma NewTracker_inv: "tracker_inv NewTracker"
  by (simp add: NewTracker_def tracker_inv_def)

lemma tracker_reach_inv: "tracker_reach t \<Longrightarrow> tracker_inv t"
  by (induction rule: tracker_reach.induct) (auto intro: NewTracker_inv Enter_inv Done_inv Wait_inv)

section \<open>Shutdown\<close>

record shutdown_options =
  so_Drain :: int
  so_Grace :: int
  so_Force :: int
  so_Poll :: int

definition options_Validate :: "shutdown_options \<Rightarrow> bool" where
  "options_Validate o1 =
     (if so_Drain o1 < 0 \<or> so_Grace o1 < 0 \<or> so_Force o1 < 0 then False
      else if so_Grace o1 = 0 then False else True)"

definition options_Total :: "shutdown_options \<Rightarrow> int" where
  "options_Total o1 = wrap64 (wrap64 (so_Drain o1 + so_Grace o1) + so_Force o1)"

text \<open>
  What one run observes from outside: the requests in flight after the grace wait, the
  snapshot collected (None also when there is no collector or store), and whether saving it
  succeeded.
\<close>

record 'snap observation =
  ob_remaining :: int
  ob_collected :: "'snap option"
  ob_saved :: bool

record shutdown_result =
  sr_Graceful :: bool
  sr_Abandoned :: int
  sr_StateSaved :: bool

definition advance_hook :: "phase \<Rightarrow> phase \<Rightarrow> phase \<times> phase list" where
  "advance_hook cur p = (let (ok, cur') = state_Advance cur p in (cur', if ok then [p] else []))"

definition persist :: "'snap observation \<Rightarrow> bool" where
  "persist ob = (case ob_collected ob of None \<Rightarrow> False | Some _ \<Rightarrow> ob_saved ob)"

text \<open>The result of \<open>Run\<close>, the phase it leaves and the phases it reported to \<open>OnPhase\<close>.\<close>

definition shutdown_Run :: "phase \<Rightarrow> 'snap observation \<Rightarrow> shutdown_result \<times> phase \<times> phase list" where
  "shutdown_Run cur ob =
     (let (cur, h1) = advance_hook cur PhaseDraining;
          (cur, h2) = advance_hook cur PhaseClosing;
          graceful = \<not> ob_remaining ob > 0;
          abandoned = (if ob_remaining ob > 0 then ob_remaining ob else 0);
          (cur, h3) = advance_hook cur PhaseStopped;
          saved = persist ob in
      (\<lparr>sr_Graceful = graceful, sr_Abandoned = abandoned, sr_StateSaved = saved\<rparr>, cur, h1 @ h2 @ h3))"

section \<open>The snapshot file\<close>

text \<open>
  The state store writes a temporary file and renames it. A file system is a map from paths
  to contents; a crash may leave any prefix of the temporary file. \<open>enc\<close> and \<open>dec\<close> stand for
  \<open>encoding/json\<close> on the snapshot.
\<close>

type_synonym filesystem = "(string, string) gomap"

record stored =
  sd_version :: int
  sd_saved_at :: int
  sd_instance :: string
  sd_budget :: "(string, rat) gomap"
  sd_used :: "(string, int) gomap"

definition SnapshotVersion :: int where
  "SnapshotVersion = 1"

definition stamp :: "stored \<Rightarrow> int \<Rightarrow> stored" where
  "stamp s now = s\<lparr>sd_version := SnapshotVersion, sd_saved_at := now\<rparr>"

definition tmp_path :: "string \<Rightarrow> string" where
  "tmp_path path = path @ ''.tmp''"

text \<open>The file systems that a crash during \<open>Save\<close> can leave, in the order of the calls.\<close>

inductive save_crash :: "string \<Rightarrow> string \<Rightarrow> filesystem \<Rightarrow> filesystem \<Rightarrow> bool" for path data where
  crash_before: "save_crash path data fs fs"
| crash_writing: "has_data = take n data \<Longrightarrow> save_crash path data fs (gm_set (tmp_path path) has_data fs)"
| crash_after: "save_crash path data fs (gm_set path data (gm_del (tmp_path path) (gm_set (tmp_path path) data fs)))"

inductive_cases save_crashE: "save_crash path data fs fs'"

definition file_Save :: "(stored \<Rightarrow> string) \<Rightarrow> string \<Rightarrow> filesystem \<Rightarrow> stored \<Rightarrow> int \<Rightarrow> filesystem" where
  "file_Save enc path fs s now =
     (let data = enc (stamp s now);
          fs = gm_set (tmp_path path) data fs in
      gm_set path data (gm_del (tmp_path path) fs))"

datatype load_error = ParseFailed | VersionMismatch int

definition file_Load :: "(string \<Rightarrow> stored option) \<Rightarrow> string \<Rightarrow> filesystem \<Rightarrow> load_error + stored option" where
  "file_Load dec path fs =
     (case gm_get fs path of
        None \<Rightarrow> Inr None
      | Some data \<Rightarrow>
          (case dec data of
             None \<Rightarrow> Inl ParseFailed
           | Some s \<Rightarrow>
               if sd_version s \<noteq> SnapshotVersion then Inl (VersionMismatch (sd_version s)) else Inr (Some s)))"

section \<open>Properties\<close>

text \<open>The tracker counts exactly: in every reachable state the requests in flight are the
  tokens handed out and not yet done, the streaming count is those of them that stream, and
  calling a token's Done again changes nothing.\<close>

theorem tracker_counts:
  assumes "tracker_reach t"
  shows "tr_total t = int (length (tr_tokens t)) \<and> tr_streaming t = int (length (filter snd (tr_tokens t))) \<and>
    0 \<le> tr_streaming t \<and> tr_streaming t \<le> tr_total t \<and>
    tracker_Done (tracker_Done t token) token = tracker_Done t token"
proof -
  note i = tracker_reach_inv [OF assms]
  have "gm_get (tr_tokens (tracker_Done t token)) token = None"
    by (auto simp: tracker_Done_def signalZero_def Let_def gm_get_del split: option.split)
  then have "tracker_Done (tracker_Done t token) token = tracker_Done t token"
    by (simp add: tracker_Done_def [of "tracker_Done t token"])
  then show ?thesis using i by (auto simp: tracker_inv_def)
qed

definition busy_tracker :: tracker where
  "busy_tracker = snd (tracker_Enter (snd (tracker_Enter NewTracker True)) False)"

lemma busy_reach: "tracker_reach busy_tracker"
  unfolding busy_tracker_def by (intro tracker_reach.intros)

theorem tracker_counts_witness:
  "tr_total busy_tracker = 2 \<and> tr_streaming busy_tracker = 1 \<and> tr_streaming busy_tracker \<le> tr_total busy_tracker"
proof -
  have "tr_total busy_tracker = 2" "tr_streaming busy_tracker = 1" by code_simp+
  then show ?thesis using tracker_counts [OF busy_reach, of 0] by simp
qed

inductive tracker_moves :: "tracker \<Rightarrow> tracker \<Rightarrow> bool" where
  moves_refl: "tracker_moves t t"
| moves_enter: "tracker_moves t u \<Longrightarrow> tracker_moves t (snd (tracker_Enter u streaming))"
| moves_done: "tracker_moves t u \<Longrightarrow> tracker_moves t (tracker_Done u token)"

lemma moves_wait:
  "tracker_moves t u \<Longrightarrow> tr_total t \<noteq> 0 \<Longrightarrow> tracker_inv t \<Longrightarrow>
   tracker_inv u \<and> tr_gen u = tr_gen t \<and> (tr_total u = 0 \<longrightarrow> tr_closed u)"
proof (induction rule: tracker_moves.induct)
  case (moves_enter t u streaming)
  then have i: "tracker_inv u" by blast
  moreover have "tr_total (snd (tracker_Enter u streaming)) \<noteq> 0"
    using i by (auto simp: tracker_Enter_def tracker_inv_def)
  ultimately show ?case using moves_enter Enter_inv by (auto simp: tracker_Enter_def)
next
  case (moves_done t u token)
  then show ?case
    using Done_inv by (auto simp: tracker_Done_def signalZero_def Let_def split: option.split)
qed simp



text \<open>A shutdown run always ends in the stopped phase, reports exactly the phases above the
  one it started from, in order and each once (a second run reports none), claims to be
  graceful exactly when it abandons no request, and refuses new requests from the closing
  phase on.\<close>

theorem shutdown_Run_phases:
  shows "(case shutdown_Run cur ob of (res, cur', hooks) \<Rightarrow>
      cur' = PhaseStopped \<and> hooks = filter (\<lambda>p. cur < p) [PhaseDraining, PhaseClosing, PhaseStopped] \<and>
      (sr_Graceful res = (sr_Abandoned res = 0)) \<and>
      snd (snd (shutdown_Run cur' ob')) = [] \<and> \<not> AcceptingNew cur')"
  by (cases cur) (auto simp: shutdown_Run_def advance_hook_def state_Advance_def less_eq_phase_def
      less_phase_def AcceptingNew_def Let_def)


definition demo_stored :: stored where
  "demo_stored = \<lparr>sd_version = 0, sd_saved_at = 0, sd_instance = ''i'', sd_budget = [], sd_used = []\<rparr>"

text \<open>An encoder and decoder that know one snapshot.\<close>

definition demo_enc :: "stored \<Rightarrow> string" where
  "demo_enc s = (if s = stamp demo_stored 7 then ''{7}'' else ''{}'')"

definition demo_dec :: "string \<Rightarrow> stored option" where
  "demo_dec d = (if d = ''{7}'' then Some (stamp demo_stored 7) else None)"


end
