(* ===== verification/Gateway.thy ===== *)
theory Gateway imports Routing Breaker GpuLoad Affinity Lifecycle RateLimit begin

text \<open>
  The request path of the gateway (\<open>internal/proxy/handler.go\<close>): candidate collection along
  the fallback chain, dispatch with failover, and \<open>ServeHTTP\<close> from the lifecycle check to the
  budget. Reading and parsing the request, the redactor, the upstream's answers and the
  streamed usage are what the handler observes (record env); every component's state is
  threaded, and each call to an upstream is logged with the body sent.
\<close>

section \<open>State and observations\<close>

record stats =
  st_Requests :: int
  st_Rejected :: int
  st_Upstream5xx :: int
  st_ClientAbort :: int
  st_LeakBlocked :: int
  st_GPUShed :: int
  st_PrefixPinned :: int
  st_Failover :: int
  st_ShutdownRejected :: int

record gateway =
  gw_policy :: policy
  gw_breakers :: "(string, breaker) gomap"
  gw_gpu :: "gpu_registry option"
  gw_ring :: "ring option"
  gw_limiter :: limiter
  gw_phase :: "phase option"
  gw_tracker :: "tracker option"
  gw_hasRedactor :: bool
  gw_always :: bool
  gw_stats :: stats

record candidate =
  ca_target :: target
  ca_pinned :: bool

record request =
  rq_identity :: identity
  rq_body :: string
  rq_readable :: bool
  rq_json :: bool
  rq_stream :: bool
  rq_maxTokens :: int
  rq_prefix :: "nat option"

datatype outcome = BuildFailed | CredentialFailed | Cancelled | Unreachable | Status int

record env =
  ev_pickTime :: int
  ev_reserveTime :: int
  ev_commitTime :: int
  ev_dispatchTime :: "nat \<Rightarrow> int"
  ev_vaultOk :: bool
  ev_redact :: "string \<Rightarrow> string option"
  ev_leaks :: "string \<Rightarrow> bool"
  ev_outcome :: "nat \<Rightarrow> outcome"
  ev_usage :: usage

section \<open>Candidates\<close>

text \<open>The loop over one tier's pool: the targets that pass, and the breakers after their \<open>Allow\<close>.\<close>

fun eligible_loop ::
    "gateway \<Rightarrow> bool \<Rightarrow> int \<Rightarrow> target list \<Rightarrow> (string, breaker) gomap \<Rightarrow> target list \<times> (string, breaker) gomap" where
  "eligible_loop g skipCritical now [] brs = ([], brs)"
| "eligible_loop g skipCritical now (t # ts) brs =
     (let (ok, brs) = (case gm_get brs (t_Name t) of
                         None \<Rightarrow> (True, brs)
                       | Some b \<Rightarrow> let (ok, b') = Allow b now in (ok, gm_set (t_Name t) b' brs)) in
      if \<not> ok then eligible_loop g skipCritical now ts brs
      else
        let critical = (skipCritical \<and>
              (case gw_gpu g of
                 None \<Rightarrow> False
               | Some reg \<Rightarrow> (case gpu_Get reg (t_Name t) of
                                None \<Rightarrow> False | Some st \<Rightarrow> gs_pressure st = PressureCritical))) in
        if critical then eligible_loop g skipCritical now ts brs
        else let (es, brs) = eligible_loop g skipCritical now ts brs in (t # es, brs))"

definition target_named :: "target list \<Rightarrow> string \<Rightarrow> target option" where
  "target_named ts n = find (\<lambda>t. t_Name t = n) (rev ts)"

fun unseen :: "string list \<Rightarrow> string list \<Rightarrow> target list \<Rightarrow> target list \<times> string list" where
  "unseen names seen [] = ([], seen)"
| "unseen names seen (t # ts) =
     (if t_Name t \<in> set names \<and> t_Name t \<notin> set seen
      then let (rest, seen) = unseen names (t_Name t # seen) ts in (t # rest, seen)
      else unseen names seen ts)"

text \<open>The candidates one tier contributes: the pinned one first, then configuration order.\<close>

definition tier_candidates ::
    "gateway \<Rightarrow> nat option \<Rightarrow> target list \<Rightarrow> target list \<Rightarrow> string list \<Rightarrow> candidate list \<times> string list" where
  "tier_candidates g prefix pool eligible seen =
     (let names = map t_Name eligible;
          pin = (case (gw_ring g, prefix) of
                   (Some r, Some key) \<Rightarrow>
                     if eligible = [] then None
                     else let n = Pick r key (Some (map (\<lambda>n. (n, True)) names)) in
                       if n = [] then None else target_named eligible n
                 | _ \<Rightarrow> None);
          out = (case pin of None \<Rightarrow> [] | Some t \<Rightarrow> [\<lparr>ca_target = t, ca_pinned = True\<rparr>]);
          seen = (case pin of None \<Rightarrow> seen | Some t \<Rightarrow> t_Name t # seen);
          (rest, seen) = unseen names seen pool in
      (out @ map (\<lambda>t. \<lparr>ca_target = t, ca_pinned = False\<rparr>) rest, seen))"

function collect_loop ::
    "gateway \<Rightarrow> nat option \<Rightarrow> bool \<Rightarrow> int \<Rightarrow> tier list \<Rightarrow> tier \<Rightarrow> string list \<Rightarrow> (string, breaker) gomap
     \<Rightarrow> candidate list \<times> (string, breaker) gomap" where
  "collect_loop g prefix skipCritical now visited t seen brs =
     (if t \<in> set visited then ([], brs)
      else
        let pool = TargetsOf (gw_policy g) t;
            (es, brs) = eligible_loop g skipCritical now pool brs;
            (out, seen) = tier_candidates g prefix pool es seen in
        case Fallback (gw_policy g) t of
          None \<Rightarrow> (out, brs)
        | Some nxt \<Rightarrow>
            let (more, brs) = collect_loop g prefix skipCritical now (t # visited) nxt seen brs in
            (out @ more, brs))"
  by pat_completeness auto
termination
proof (relation "measure (\<lambda>(g, p, s, n, visited, t, seen, brs).
    card (set (map fst (po_fallback (gw_policy g))) - set visited))", simp)
  fix g :: gateway and prefix skipCritical now visited t seen brs nxt
    and pool x es brs' y out seen'
  assume "t \<notin> set visited" "Fallback (gw_policy g) t = Some nxt"
  let ?D = "set (map fst (po_fallback (gw_policy g)))"
  have "t \<in> ?D - set visited"
    using \<open>t \<notin> _\<close> \<open>Fallback _ _ = _\<close> map_of_SomeD by (force simp: Fallback_def)
  then have "card (?D - set visited - {t}) < card (?D - set visited)"
    by (intro card_Diff1_less) auto
  moreover have "?D - set (t # visited) = ?D - set visited - {t}" by auto
  ultimately show "((g, prefix, skipCritical, now, t # visited, nxt, seen', brs'),
      g, prefix, skipCritical, now, visited, t, seen, brs)
      \<in> measure (\<lambda>(g, p, s, n, visited, t, seen, brs).
          card (set (map fst (po_fallback (gw_policy g))) - set visited))"
    by simp
qed

declare collect_loop.simps [simp del]

definition collectFrom :: "gateway \<Rightarrow> decision \<Rightarrow> nat option \<Rightarrow> bool \<Rightarrow> int \<Rightarrow> candidate list \<times> gateway" where
  "collectFrom g d prefix skipCritical now =
     (let (out, brs) = collect_loop g prefix skipCritical now [] (de_Tier d) [] (gw_breakers g) in
      (out, g\<lparr>gw_breakers := brs\<rparr>))"

definition pickCandidates :: "gateway \<Rightarrow> decision \<Rightarrow> nat option \<Rightarrow> int \<Rightarrow> candidate list \<times> gateway" where
  "pickCandidates g d prefix now =
     (let (out, g) = collectFrom g d prefix True now in
      if out \<noteq> [] then (out, g) else collectFrom g d prefix False now)"

section \<open>Dispatch\<close>

datatype dispatch_error = CredentialUnavailable | ContextCanceled | AllFailed

definition with_breaker :: "gateway \<Rightarrow> string \<Rightarrow> (breaker \<Rightarrow> breaker) \<Rightarrow> gateway" where
  "with_breaker g n f =
     (case gm_get (gw_breakers g) n of
        None \<Rightarrow> g
      | Some b \<Rightarrow> g\<lparr>gw_breakers := gm_set n (f b) (gw_breakers g)\<rparr>)"

definition bump :: "(stats \<Rightarrow> stats) \<Rightarrow> gateway \<Rightarrow> gateway" where
  "bump f g = g\<lparr>gw_stats := f (gw_stats g)\<rparr>"

text \<open>The loop of \<open>dispatch\<close>; the log holds what was sent, to whom.\<close>

fun dispatch_loop ::
    "gateway \<Rightarrow> env \<Rightarrow> nat \<Rightarrow> candidate list \<Rightarrow> string
     \<Rightarrow> (dispatch_error + int \<times> target) \<times> (target \<times> string) list \<times> gateway" where
  "dispatch_loop g ev i [] body = (Inl AllFailed, [], g)"
| "dispatch_loop g ev i (c # cs) body =
     (let t = ca_target c in
      case ev_outcome ev i of
        BuildFailed \<Rightarrow> dispatch_loop g ev (Suc i) cs body
      | CredentialFailed \<Rightarrow> (Inl CredentialUnavailable, [], g)
      | Cancelled \<Rightarrow> (Inl ContextCanceled, [(t, body)], g)
      | Unreachable \<Rightarrow>
          let g = with_breaker g (t_Name t) (\<lambda>b. RecordFailure b (ev_dispatchTime ev i));
              (r, sent, g) = dispatch_loop g ev (Suc i) cs body in
          (r, (t, body) # sent, g)
      | Status code \<Rightarrow>
          if code \<ge> 500 then
            let g = bump (\<lambda>s. s\<lparr>st_Upstream5xx := st_Upstream5xx s + 1\<rparr>) g;
                g = with_breaker g (t_Name t) (\<lambda>b. RecordFailure b (ev_dispatchTime ev i)) in
            if cs \<noteq> [] then
              let (r, sent, g) = dispatch_loop g ev (Suc i) cs body in (r, (t, body) # sent, g)
            else (Inr (code, t), [(t, body)], bump (\<lambda>s. s\<lparr>st_Failover := st_Failover s + int i\<rparr>) g)
          else
            let g = with_breaker g (t_Name t) RecordSuccess;
                g = (if 0 < i then bump (\<lambda>s. s\<lparr>st_Failover := st_Failover s + 1\<rparr>) g else g) in
            (Inr (code, t), [(t, body)], g))"

definition dispatch ::
    "gateway \<Rightarrow> env \<Rightarrow> candidate list \<Rightarrow> string
     \<Rightarrow> (dispatch_error + int \<times> target) \<times> (target \<times> string) list \<times> gateway" where
  "dispatch g ev candidates body = dispatch_loop g ev 0 candidates body"

section \<open>ServeHTTP\<close>

datatype response = Rejected int | Aborted | Answered int

definition estimatePromptTokens :: "string \<Rightarrow> int" where
  "estimatePromptTokens body = int (length body div 3)"

text \<open>Steps 5 to 10: redact, dispatch, stream, settle, account. The flag tells whether the reservation was settled.\<close>

definition redacting :: "gateway \<Rightarrow> target \<Rightarrow> bool" where
  "redacting g t \<longleftrightarrow> gw_hasRedactor g \<and> (gw_always g \<or> \<not> t_SelfHosted t)"

definition outbound :: "gateway \<Rightarrow> env \<Rightarrow> target \<Rightarrow> string \<Rightarrow> (response \<times> gateway) + string" where
  "outbound g ev t body =
     (if \<not> redacting g t then Inr body
      else if \<not> ev_vaultOk ev then Inl (Rejected 503, g)
      else case ev_redact ev body of
             None \<Rightarrow> Inl (Rejected 502, g)
           | Some clean \<Rightarrow>
               if ev_leaks ev clean
               then Inl (Rejected 502, bump (\<lambda>s. s\<lparr>st_LeakBlocked := st_LeakBlocked s + 1\<rparr>) g)
               else Inr clean)"

definition account :: "gateway \<Rightarrow> target \<Rightarrow> usage \<Rightarrow> gateway" where
  "account g t u =
     (if t_SelfHosted t then g
      else case BudgetOf (gw_policy g) (t_Tier t) of
             None \<Rightarrow> g
           | Some b \<Rightarrow>
               let b' = snd (budget_Record b (EstimateCost t (u_input u) (u_output u)));
                   p = gw_policy g in
               g\<lparr>gw_policy := p\<lparr>po_budgets := gm_set (t_Tier t) b' (po_budgets p)\<rparr>\<rparr>)"

definition serve_reserved ::
    "gateway \<Rightarrow> env \<Rightarrow> request \<Rightarrow> candidate list \<Rightarrow> reservation
     \<Rightarrow> response \<times> bool \<times> (target \<times> string) list \<times> gateway" where
  "serve_reserved g ev rq cands r =
     (case outbound g ev (ca_target (hd cands)) (rq_body rq) of
        Inl (resp, g) \<Rightarrow> (resp, False, [], g)
      | Inr body \<Rightarrow>
          (case dispatch g ev cands body of
             (Inl ContextCanceled, sent, g) \<Rightarrow>
               (Aborted, False, sent, bump (\<lambda>s. s\<lparr>st_ClientAbort := st_ClientAbort s + 1\<rparr>) g)
           | (Inl e, sent, g) \<Rightarrow> (Rejected 502, False, sent, g)
           | (Inr (code, t), sent, g) \<Rightarrow>
               let u = ev_usage ev;
                   (e, lm) = Commit (gw_limiter g) (Some r) u (ev_commitTime ev);
                   g = g\<lparr>gw_limiter := lm\<rparr> in
               (Answered code, True, sent, account g t u)))"

text \<open>Step 4 and the deferred release of an unsettled reservation.\<close>

definition serve_admitted ::
    "gateway \<Rightarrow> env \<Rightarrow> request \<Rightarrow> candidate list \<Rightarrow> response \<times> (target \<times> string) list \<times> gateway" where
  "serve_admitted g ev rq cands =
     (let maxTokens = (if rq_maxTokens rq \<le> 0 then 4096 else rq_maxTokens rq);
          (res, lm) = Reserve (gw_limiter g) (RateLimitSubject (rq_identity rq)) maxTokens
                        (estimatePromptTokens (rq_body rq)) (ev_reserveTime ev);
          g = g\<lparr>gw_limiter := lm\<rparr> in
      case res of
        Inl e \<Rightarrow> (Rejected 429, [], bump (\<lambda>s. s\<lparr>st_Rejected := st_Rejected s + 1\<rparr>) g)
      | Inr r \<Rightarrow>
          let (resp, settled, sent, g) = serve_reserved g ev rq cands r in
          (resp, sent,
           if settled then g else g\<lparr>gw_limiter := snd (Release (gw_limiter g) (Some r))\<rparr>))"

text \<open>Steps 2 and 3: route, shed by GPU pressure, count the pinned request on the ring.\<close>

definition gpu_refuses :: "gateway \<Rightarrow> string \<Rightarrow> int \<Rightarrow> bool" where
  "gpu_refuses g n priority =
     (case gw_gpu g of
        None \<Rightarrow> False
      | Some reg \<Rightarrow> (case gpu_Get reg n of None \<Rightarrow> False | Some st \<Rightarrow> \<not> gd_Admit (gpu_Admit st priority)))"

definition serve_routed ::
    "gateway \<Rightarrow> env \<Rightarrow> request \<Rightarrow> response \<times> (target \<times> string) list \<times> gateway" where
  "serve_routed g ev rq =
     (let d = ApplyBudget (gw_policy g) (Resolve (gw_policy g) (rq_identity rq));
          (cands, g) = pickCandidates g d (rq_prefix rq) (ev_pickTime ev) in
      case cands of
        [] \<Rightarrow> (Rejected 503, [], g)
      | c # _ \<Rightarrow>
          let n = t_Name (ca_target c);
              g = (if ca_pinned c then bump (\<lambda>s. s\<lparr>st_PrefixPinned := st_PrefixPinned s + 1\<rparr>) g else g) in
          if gpu_refuses g n (id_Priority (rq_identity rq))
          then (Rejected 429, [], bump (\<lambda>s. s\<lparr>st_GPUShed := st_GPUShed s + 1, st_Rejected := st_Rejected s + 1\<rparr>) g)
          else
            (case gw_ring g of
               Some ring \<Rightarrow>
                 if ca_pinned c then
                   let g = g\<lparr>gw_ring := Some (ring_Acquire ring n)\<rparr>;
                       (resp, sent, g) = serve_admitted g ev rq cands in
                   (resp, sent, g\<lparr>gw_ring := map_option (\<lambda>x. ring_Release x n) (gw_ring g)\<rparr>)
                 else serve_admitted g ev rq cands
             | None \<Rightarrow> serve_admitted g ev rq cands))"

definition ServeHTTP :: "gateway \<Rightarrow> env \<Rightarrow> request \<Rightarrow> response \<times> (target \<times> string) list \<times> gateway" where
  "ServeHTTP g ev rq =
     (let g = bump (\<lambda>s. s\<lparr>st_Requests := st_Requests s + 1\<rparr>) g in
      if (case gw_phase g of None \<Rightarrow> False | Some p \<Rightarrow> \<not> AcceptingNew p)
      then (Rejected 503, [],
            bump (\<lambda>s. s\<lparr>st_Rejected := st_Rejected s + 1, st_ShutdownRejected := st_ShutdownRejected s + 1\<rparr>) g)
      else if \<not> rq_readable rq then (Rejected 400, [], g)
      else if \<not> rq_json rq then (Rejected 400, [], g)
      else
        case gw_tracker g of
          None \<Rightarrow> serve_routed g ev rq
        | Some tr \<Rightarrow>
            let (token, tr) = tracker_Enter tr (rq_stream rq);
                (resp, sent, g) = serve_routed (g\<lparr>gw_tracker := Some tr\<rparr>) ev rq in
            (resp, sent, g\<lparr>gw_tracker := map_option (\<lambda>x. tracker_Done x token) (gw_tracker g)\<rparr>))"

section \<open>What the handler leaves alone\<close>

lemma with_breaker_fields [simp]:
  "gw_limiter (with_breaker g n f) = gw_limiter g" "gw_policy (with_breaker g n f) = gw_policy g"
  "gw_ring (with_breaker g n f) = gw_ring g" "gw_tracker (with_breaker g n f) = gw_tracker g"
  "gw_hasRedactor (with_breaker g n f) = gw_hasRedactor g" "gw_always (with_breaker g n f) = gw_always g"
  by (simp_all add: with_breaker_def split: option.split)

lemma bump_fields [simp]:
  "gw_limiter (bump f g) = gw_limiter g" "gw_policy (bump f g) = gw_policy g"
  "gw_ring (bump f g) = gw_ring g" "gw_tracker (bump f g) = gw_tracker g"
  "gw_hasRedactor (bump f g) = gw_hasRedactor g" "gw_always (bump f g) = gw_always g"
  "gw_phase (bump f g) = gw_phase g" "gw_breakers (bump f g) = gw_breakers g"
  by (simp_all add: bump_def)

lemma account_fields [simp]:
  "gw_limiter (account g t u) = gw_limiter g" "gw_ring (account g t u) = gw_ring g"
  "gw_tracker (account g t u) = gw_tracker g"
  by (simp_all add: account_def Let_def split: option.split)

lemma dispatch_fields:
  "dispatch_loop g ev i cs body = (r, sent, g') \<Longrightarrow>
   gw_limiter g' = gw_limiter g \<and> gw_ring g' = gw_ring g \<and> gw_tracker g' = gw_tracker g"
proof (induction cs arbitrary: g i r sent g')
  case (Cons c cs)
  show ?case
    using Cons.prems by (auto simp: Let_def split: outcome.splits if_splits prod.splits dest!: Cons.IH)
qed simp

lemma dispatch_sent_body:
  "dispatch_loop g ev i cs body = (r, sent, g') \<Longrightarrow>
   \<forall>(t, b) \<in> set sent. b = body \<and> t \<in> ca_target ` set cs"
proof (induction cs arbitrary: g i r sent g')
  case (Cons c cs)
  show ?case
    using Cons.prems by (auto simp: Let_def split: outcome.splits if_splits prod.splits dest!: Cons.IH)
qed simp

lemma outbound_limiter:
  "outbound g ev t body = Inl (resp, g') \<Longrightarrow>
   gw_limiter g' = gw_limiter g \<and> gw_ring g' = gw_ring g \<and> gw_tracker g' = gw_tracker g"
  by (auto simp: outbound_def split: if_splits option.splits)

lemma collectFrom_fields:
  "collectFrom g d prefix sk now = (cands, g') \<Longrightarrow> g' = g\<lparr>gw_breakers := gw_breakers g'\<rparr>"
  by (auto simp: collectFrom_def split: prod.splits)

lemma pickCandidates_fields:
  assumes "pickCandidates g d prefix now = (cands, g')"
  shows "g' = g\<lparr>gw_breakers := gw_breakers g'\<rparr>"
proof -
  obtain out g1 where o: "collectFrom g d prefix True now = (out, g1)" by fastforce
  note c1 = collectFrom_fields [OF o]
  show ?thesis
  proof (cases "out = []")
    case True
    then have "collectFrom g1 d prefix False now = (cands, g')"
      using assms o by (simp add: pickCandidates_def)
    from collectFrom_fields [OF this] c1 show ?thesis
      by (metis (no_types, lifting) gateway.select_convs(2) gateway.surjective gateway.update_convs(2))
  next
    case False
    then show ?thesis using assms o c1 by (simp add: pickCandidates_def)
  qed
qed

section \<open>Every exit settles what it took\<close>

definition open_ids :: "limiter \<Rightarrow> string \<Rightarrow> string set" where
  "open_ids l subject = fst ` set (s_res (stateFor l subject))"

lemma sweep_res: "set (s_res (sweep_loop rs lm now st)) \<subseteq> set (s_res st)"
  by (induction rs lm now st rule: sweep_loop.induct) (auto simp: gm_del_mem)

lemma reserve_res:
  "set (s_res (reserve_swept l subject now)) \<subseteq> set (s_res (stateFor l subject))"
  "set (s_res (reserve_base l subject now)) \<subseteq> set (s_res (stateFor l subject))"
proof -
  show 1: "set (s_res (reserve_swept l subject now)) \<subseteq> set (s_res (stateFor l subject))"
    unfolding reserve_swept_def sweepExpiredLocked_def by (rule sweep_res)
  then show "set (s_res (reserve_base l subject now)) \<subseteq> set (s_res (stateFor l subject))"
    by (simp add: reserve_base_def reserve_swept_def currentUsage_def Let_def)
qed

lemma stateFor_put [simp]: "stateFor (put_state l s st) s' = (if s' = s then st else stateFor l s')"
  by (simp add: stateFor_def put_state_def gm_get_set split: option.split)

lemma stateFor_seq [simp]: "stateFor (l\<lparr>lm_seq := n\<rparr>) s = stateFor l s"
  by (simp add: stateFor_def split: option.split)

lemma states_put [simp]: "gm_get (lm_states (put_state l s st)) s = Some st"
  by (simp add: put_state_def gm_get_set)

lemma open_ids_put:
  "open_ids (put_state l s st) s' = (if s' = s then fst ` set (s_res st) else open_ids l s')"
  "open_ids (l\<lparr>lm_seq := n\<rparr>) s' = open_ids l s'"
  by (simp_all add: open_ids_def)

lemma reserve_ids:
  "(a, b) \<in> set (s_res (reserve_swept l subject now)) \<Longrightarrow> a \<in> open_ids l subject"
  "(a, b) \<in> set (s_res (reserve_base l subject now)) \<Longrightarrow> a \<in> open_ids l subject"
  using reserve_res [of l subject now] by (force simp: open_ids_def)+

definition reserve_post :: "limiter \<Rightarrow> string \<Rightarrow> string \<Rightarrow> limit_error + reservation \<Rightarrow> limiter \<Rightarrow> bool" where
  "reserve_post l subject s res l' \<longleftrightarrow>
    (case res of
      Inl e \<Rightarrow> open_ids l' s \<subseteq> open_ids l s
    | Inr r \<Rightarrow> rv_subject r = subject \<and> gm_get (lm_states l') subject \<noteq> None \<and>
        gm_get (s_res (stateFor l' subject)) (rv_id r) = Some r \<and>
        open_ids l' s - (if s = subject then {rv_id r} else {}) \<subseteq> open_ids l s)"

lemma reserve_post_Inl: "open_ids l' s \<subseteq> open_ids l s \<Longrightarrow> reserve_post l subject s (Inl e) l'"
  by (simp add: reserve_post_def)

lemma admit_open:
  assumes "admit l subject t now = (res, l')"
  shows "reserve_post l subject s res l'"
proof (cases "charge l (reserve_base l subject now) (limitsFor l subject) now t")
  case None
  then show ?thesis
    using assms reserve_ids(2) [of _ _ l subject now]
    by (auto simp: admit_def Let_def open_ids_put intro!: reserve_post_Inl split: if_splits)
next
  case (Some x)
  obtain slot start st where x: "x = (slot, start, st)" by (cases x)
  have "s_res st = s_res (reserve_base l subject now)" using charge_res [OF Some [unfolded x]] by simp
  then have m: "(a, b) \<in> set (s_res st) \<Longrightarrow> a \<in> open_ids l subject" for a b
    using reserve_ids(2) [of a b l subject now] by simp
  show ?thesis
    using assms Some x m
    by (auto simp: reserve_post_def admit_def Let_def open_ids_put gm_get_set dom_update)
qed

lemma Reserve_open:
  assumes "Reserve l subject maxTokens promptTokens now = (res, l')"
  shows "reserve_post l subject s res l'"
  using assms admit_open [of l subject "wrap64 (promptTokens + maxTokens)" now res l' s] reserve_ids
  by (auto simp: Reserve_unfold Let_def open_ids_put split: if_splits intro!: reserve_post_Inl)

lemma settled_open:
  assumes "gm_get (lm_states l) (rv_subject r) = Some st" "gm_get (s_res st) (rv_id r) = Some r'"
  shows "open_ids (snd (Release l (Some r))) s = open_ids l s - (if s = rv_subject r then {rv_id r} else {})"
    and "open_ids (snd (Commit l (Some r) u now)) s = open_ids l s - (if s = rv_subject r then {rv_id r} else {})"
proof -
  have o: "open_ids l (rv_subject r) = fst ` set (s_res st)"
    using assms(1) by (simp add: open_ids_def stateFor_def)
  have d: "fst ` set (gm_del (rv_id r) (s_res st)) = fst ` set (s_res st) - {rv_id r}"
    by (auto simp: gm_del_mem)
  show "open_ids (snd (Release l (Some r))) s = open_ids l s - (if s = rv_subject r then {rv_id r} else {})"
    using assms o d by (simp add: Release_def open_ids_put)
  show "open_ids (snd (Commit l (Some r) u now)) s = open_ids l s - (if s = rv_subject r then {rv_id r} else {})"
    using assms o d by (auto simp: Commit_def Let_def open_ids_put charge_res split: option.splits)
qed

lemma serve_reserved_fields:
  assumes "serve_reserved g ev rq cands r = (resp, settled, sent, g')"
  shows "gw_ring g' = gw_ring g \<and> gw_tracker g' = gw_tracker g \<and>
    gw_limiter g' = (if settled then snd (Commit (gw_limiter g) (Some r) (ev_usage ev) (ev_commitTime ev))
                     else gw_limiter g)"
proof (cases "outbound g ev (ca_target (hd cands)) (rq_body rq)")
  case (Inl x)
  then show ?thesis
    using assms outbound_limiter by (cases x) (auto simp: serve_reserved_def)
next
  case (Inr body)
  obtain r1 sent1 g1 where d: "dispatch g ev cands body = (r1, sent1, g1)" by (cases "dispatch g ev cands body")
  have f: "gw_limiter g1 = gw_limiter g" "gw_ring g1 = gw_ring g" "gw_tracker g1 = gw_tracker g"
    using dispatch_fields [OF d [unfolded dispatch_def]] by simp_all
  show ?thesis
    using assms Inr d f
    by (auto simp: serve_reserved_def Let_def case_prod_unfold
        split: sum.splits dispatch_error.splits prod.splits)
qed

lemma serve_admitted_open:
  assumes "serve_admitted g ev rq cands = (resp, sent, g')"
  shows "open_ids (gw_limiter g') s \<subseteq> open_ids (gw_limiter g) s \<and>
    gw_ring g' = gw_ring g \<and> gw_tracker g' = gw_tracker g"
proof -
  let ?mt = "if rq_maxTokens rq \<le> 0 then 4096 else rq_maxTokens rq"
  obtain res lm where R: "Reserve (gw_limiter g) (RateLimitSubject (rq_identity rq)) ?mt
      (estimatePromptTokens (rq_body rq)) (ev_reserveTime ev) = (res, lm)" by fastforce
  note o = Reserve_open [OF R, of s, unfolded reserve_post_def]
  let ?g = "g\<lparr>gw_limiter := lm\<rparr>"
  show ?thesis
  proof (cases res)
    case (Inl e)
    then show ?thesis using assms R o by (auto simp: serve_admitted_def Let_def)
  next
    case (Inr r)
    obtain resp1 settled sent1 g1 where S: "serve_reserved ?g ev rq cands r = (resp1, settled, sent1, g1)"
      by (cases "serve_reserved ?g ev rq cands r") auto
    note f = serve_reserved_fields [OF S]
    have p: "rv_subject r = RateLimitSubject (rq_identity rq)"
        "gm_get (lm_states lm) (RateLimitSubject (rq_identity rq)) \<noteq> None"
        "gm_get (s_res (stateFor lm (RateLimitSubject (rq_identity rq)))) (rv_id r) = Some r"
      using o Inr by simp_all
    then obtain st where st: "gm_get (lm_states lm) (rv_subject r) = Some st" "gm_get (s_res st) (rv_id r) = Some r"
      by (auto simp: stateFor_def)
    note so = settled_open [OF st, where s = s]
    show ?thesis
      using assms R Inr S f o p(1) so by (auto simp: serve_admitted_def Let_def split: if_splits)
  qed
qed

lemma acquire_release:
  "0 \<le> ring_Load r m \<Longrightarrow> 0 \<le> rg_inflight r \<Longrightarrow>
   ring_Load (ring_Release (ring_Acquire r m) m) x = ring_Load r x \<and>
   rg_inflight (ring_Release (ring_Acquire r m) m) = rg_inflight r"
  by (auto simp: ring_Load_def ring_Release_def ring_Acquire_def gm_get_set split: option.split)

lemma serve_routed_open:
  assumes "serve_routed g ev rq = (resp, sent, g')"
  shows "open_ids (gw_limiter g') s \<subseteq> open_ids (gw_limiter g) s \<and> gw_tracker g' = gw_tracker g \<and>
    (gw_ring g = None \<longrightarrow> gw_ring g' = None) \<and>
    (\<forall>r. gw_ring g = Some r \<longrightarrow> 0 \<le> rg_inflight r \<longrightarrow> (\<forall>x. 0 \<le> ring_Load r x) \<longrightarrow>
      (\<exists>r'. gw_ring g' = Some r' \<and> rg_inflight r' = rg_inflight r \<and> (\<forall>x. ring_Load r' x = ring_Load r x)))"
proof -
  let ?d = "ApplyBudget (gw_policy g) (Resolve (gw_policy g) (rq_identity rq))"
  obtain cands g1 where P: "pickCandidates g ?d (rq_prefix rq) (ev_pickTime ev) = (cands, g1)" by fastforce
  have f: "gw_limiter g1 = gw_limiter g" "gw_ring g1 = gw_ring g" "gw_tracker g1 = gw_tracker g"
    using arg_cong [OF pickCandidates_fields [OF P], of gw_limiter]
      arg_cong [OF pickCandidates_fields [OF P], of gw_ring]
      arg_cong [OF pickCandidates_fields [OF P], of gw_tracker] by simp_all
  show ?thesis
  proof (cases cands)
    case Nil
    then show ?thesis using assms P f by (auto simp: serve_routed_def Let_def)
  next
    case (Cons c cs)
    let ?n = "t_Name (ca_target c)"
    let ?g = "if ca_pinned c then bump (\<lambda>s. s\<lparr>st_PrefixPinned := st_PrefixPinned s + 1\<rparr>) g1 else g1"
    have fg: "gw_limiter ?g = gw_limiter g" "gw_ring ?g = gw_ring g" "gw_tracker ?g = gw_tracker g"
      using f by simp_all
    show ?thesis
    proof (cases "gpu_refuses ?g ?n (id_Priority (rq_identity rq))")
      case True
      then show ?thesis using assms P Cons fg by (auto simp: serve_routed_def Let_def)
    next
      case False
      show ?thesis
      proof (cases "\<exists>r. gw_ring g = Some r \<and> ca_pinned c")
        case True
        then obtain r where r: "gw_ring g = Some r" "ca_pinned c" by blast
        let ?h = "?g\<lparr>gw_ring := Some (ring_Acquire r ?n)\<rparr>"
        obtain resp1 sent1 h' where S: "serve_admitted ?h ev rq cands = (resp1, sent1, h')"
          by (cases "serve_admitted ?h ev rq cands")
        have "g' = h'\<lparr>gw_ring := map_option (\<lambda>x. ring_Release x ?n) (gw_ring h')\<rparr>"
          using assms P Cons False r fg S by (auto simp: serve_routed_def Let_def)
        then show ?thesis
          using serve_admitted_open [OF S, of s] r fg acquire_release [of r ?n] by auto
      next
        case ring: False
        then have "serve_admitted ?g ev rq cands = (resp, sent, g')"
          using assms P Cons False fg by (auto simp: serve_routed_def Let_def split: option.splits)
        then show ?thesis using serve_admitted_open [of ?g ev rq cands resp sent g' s] fg by auto
      qed
    qed
  qed
qed

section \<open>What each exit guarantees\<close>

definition ring_sound :: "ring \<Rightarrow> bool" where
  "ring_sound r \<longleftrightarrow> 0 \<le> rg_inflight r \<and> (\<forall>x. 0 \<le> ring_Load r x)"

definition same_loads :: "ring option \<Rightarrow> ring option \<Rightarrow> bool" where
  "same_loads a b \<longleftrightarrow>
    (case (a, b) of
       (None, None) \<Rightarrow> True
     | (Some r, Some r') \<Rightarrow> rg_inflight r' = rg_inflight r \<and> (\<forall>x. ring_Load r' x = ring_Load r x)
     | _ \<Rightarrow> False)"

lemma same_loads_refl [simp]: "same_loads r r"
  by (simp add: same_loads_def split: option.split)

lemma serve_routed_balanced:
  assumes "serve_routed g ev rq = (resp, sent, g')" "\<forall>r. gw_ring g = Some r \<longrightarrow> ring_sound r"
  shows "open_ids (gw_limiter g') s \<subseteq> open_ids (gw_limiter g) s" "gw_tracker g' = gw_tracker g"
    "same_loads (gw_ring g) (gw_ring g')"
  using serve_routed_open [OF assms(1), of s] assms(2)
  by (auto simp: same_loads_def ring_sound_def split: option.splits)

lemma outbound_clean:
  "outbound g ev t body = Inr b \<Longrightarrow> redacting g t \<Longrightarrow> ev_redact ev body = Some b \<and> \<not> ev_leaks ev b"
  by (auto simp: outbound_def split: if_splits option.splits)

lemma serve_reserved_sent:
  assumes "serve_reserved g ev rq cands r = (resp, settled, sent, g')" "(t, b) \<in> set sent"
  shows "t \<in> ca_target ` set cands \<and> outbound g ev (ca_target (hd cands)) (rq_body rq) = Inr b"
proof (cases "outbound g ev (ca_target (hd cands)) (rq_body rq)")
  case (Inl x)
  then show ?thesis using assms by (cases x) (auto simp: serve_reserved_def)
next
  case (Inr body)
  obtain r1 sent1 g1 where d: "dispatch g ev cands body = (r1, sent1, g1)" by (cases "dispatch g ev cands body")
  have "sent = sent1"
    using assms(1) Inr d
    by (auto simp: serve_reserved_def Let_def case_prod_unfold split: sum.splits dispatch_error.splits prod.splits)
  then show ?thesis
    using dispatch_sent_body [OF d [unfolded dispatch_def]] assms(2) Inr by auto
qed

lemma outbound_limiter_update [simp]:
  "redacting (g\<lparr>gw_limiter := l\<rparr>) t = redacting g t" "redacting (g\<lparr>gw_ring := r\<rparr>) t = redacting g t"
  "redacting (bump f g) t = redacting g t" "redacting (g\<lparr>gw_tracker := tr\<rparr>) t = redacting g t"
  "redacting (g\<lparr>gw_breakers := br\<rparr>) t = redacting g t"
  by (simp_all add: redacting_def)

lemma outbound_Inr_cong:
  "gw_hasRedactor g = gw_hasRedactor h \<Longrightarrow> gw_always g = gw_always h \<Longrightarrow>
   (outbound g ev t body = Inr b) = (outbound h ev t body = Inr b)"
  by (auto simp: outbound_def redacting_def split: option.splits)

lemma serve_admitted_sent:
  assumes "serve_admitted g ev rq cands = (resp, sent, g')" "(t, b) \<in> set sent"
  shows "t \<in> ca_target ` set cands \<and> outbound g ev (ca_target (hd cands)) (rq_body rq) = Inr b"
proof -
  let ?mt = "if rq_maxTokens rq \<le> 0 then 4096 else rq_maxTokens rq"
  obtain res lm where R: "Reserve (gw_limiter g) (RateLimitSubject (rq_identity rq)) ?mt
      (estimatePromptTokens (rq_body rq)) (ev_reserveTime ev) = (res, lm)" by fastforce
  let ?g = "g\<lparr>gw_limiter := lm\<rparr>"
  show ?thesis
  proof (cases res)
    case (Inl e)
    then show ?thesis using assms R by (auto simp: serve_admitted_def Let_def)
  next
    case (Inr r)
    obtain resp1 settled sent1 g1 where S: "serve_reserved ?g ev rq cands r = (resp1, settled, sent1, g1)"
      by (cases "serve_reserved ?g ev rq cands r") auto
    have "sent = sent1" using assms(1) R Inr S by (auto simp: serve_admitted_def Let_def)
    with assms(2) have "(t, b) \<in> set sent1" by simp
    from serve_reserved_sent [OF S this] show ?thesis
      using outbound_Inr_cong [of ?g g] by simp
  qed
qed

lemma serve_routed_sent:
  assumes "serve_routed g ev rq = (resp, sent, g')" "(t, b) \<in> set sent"
  shows "\<exists>c cs g1. pickCandidates g (ApplyBudget (gw_policy g) (Resolve (gw_policy g) (rq_identity rq)))
            (rq_prefix rq) (ev_pickTime ev) = (c # cs, g1) \<and>
          t \<in> ca_target ` set (c # cs) \<and> outbound g ev (ca_target c) (rq_body rq) = Inr b"
proof -
  let ?d = "ApplyBudget (gw_policy g) (Resolve (gw_policy g) (rq_identity rq))"
  obtain cands g1 where P: "pickCandidates g ?d (rq_prefix rq) (ev_pickTime ev) = (cands, g1)" by fastforce
  have f: "gw_hasRedactor g1 = gw_hasRedactor g" "gw_always g1 = gw_always g" "gw_ring g1 = gw_ring g"
    using arg_cong [OF pickCandidates_fields [OF P], of gw_hasRedactor]
      arg_cong [OF pickCandidates_fields [OF P], of gw_always]
      arg_cong [OF pickCandidates_fields [OF P], of gw_ring] by simp_all
  obtain c cs where C: "cands = c # cs"
    using assms P by (cases cands) (auto simp: serve_routed_def Let_def)
  let ?n = "t_Name (ca_target c)"
  let ?g = "if ca_pinned c then bump (\<lambda>s. s\<lparr>st_PrefixPinned := st_PrefixPinned s + 1\<rparr>) g1 else g1"
  have ng: "\<not> gpu_refuses ?g ?n (id_Priority (rq_identity rq))"
    using assms P C by (auto simp: serve_routed_def Let_def)
  have "\<exists>h resp1 h'. serve_admitted h ev rq cands = (resp1, sent, h') \<and>
      gw_hasRedactor h = gw_hasRedactor g \<and> gw_always h = gw_always g"
  proof (cases "\<exists>r. gw_ring g = Some r \<and> ca_pinned c")
    case True
    then obtain r where r: "gw_ring g = Some r" "ca_pinned c" by blast
    let ?h = "?g\<lparr>gw_ring := Some (ring_Acquire r ?n)\<rparr>"
    obtain resp1 sent1 h' where S: "serve_admitted ?h ev rq cands = (resp1, sent1, h')"
      by (cases "serve_admitted ?h ev rq cands")
    have "sent = sent1"
      using assms(1) P C ng r f S by (auto simp: serve_routed_def Let_def)
    with S f show ?thesis by (intro exI [of _ ?h] exI [of _ resp1] exI [of _ h']) simp
  next
    case False
    then have "serve_admitted ?g ev rq cands = (resp, sent, g')"
      using assms P C ng f by (auto simp: serve_routed_def Let_def split: option.splits)
    with f show ?thesis by (intro exI [of _ ?g] exI [of _ resp] exI [of _ g']) simp
  qed
  then obtain h resp1 h' where S: "serve_admitted h ev rq cands = (resp1, sent, h')"
      and hh: "gw_hasRedactor h = gw_hasRedactor g" "gw_always h = gw_always g" by blast
  from serve_admitted_sent [OF S assms(2)] outbound_Inr_cong [OF hh] C
  have "t \<in> ca_target ` set (c # cs) \<and> outbound g ev (ca_target c) (rq_body rq) = Inr b" by simp
  with P C show ?thesis by blast
qed

lemma ServeHTTP_routed:
  assumes "ServeHTTP g ev rq = (resp, sent, g')" "sent \<noteq> []"
  shows "\<exists>h h'. serve_routed h ev rq = (resp, sent, h') \<and> gw_hasRedactor h = gw_hasRedactor g \<and>
      gw_always h = gw_always g"
proof -
  let ?b = "bump (\<lambda>s. s\<lparr>st_Requests := st_Requests s + 1\<rparr>) g"
  show ?thesis
  proof (cases "gw_tracker g")
    case None
    then have "serve_routed ?b ev rq = (resp, sent, g')"
      using assms by (auto simp: ServeHTTP_def Let_def split: if_splits option.splits)
    then show ?thesis by (intro exI [of _ ?b] exI [of _ g']) simp
  next
    case (Some tr)
    let ?h = "?b\<lparr>gw_tracker := Some (snd (tracker_Enter tr (rq_stream rq)))\<rparr>"
    obtain resp1 sent1 h' where S: "serve_routed ?h ev rq = (resp1, sent1, h')"
      by (cases "serve_routed ?h ev rq")
    then have "resp = resp1 \<and> sent = sent1"
      using assms Some by (auto simp: ServeHTTP_def Let_def tracker_Enter_def split: if_splits option.splits)
    with S show ?thesis by (intro exI [of _ ?h] exI [of _ h']) simp
  qed
qed

lemma Enter_Done:
  assumes "tracker_inv t" "tracker_Enter t b = (token, t1)"
  shows "tr_total (tracker_Done t1 token) = tr_total t \<and> tr_streaming (tracker_Done t1 token) = tr_streaming t \<and>
    tr_tokens (tracker_Done t1 token) = tr_tokens t"
proof -
  have n: "tr_next t \<notin> fst ` set (tr_tokens t)" using assms(1) by (auto simp: tracker_inv_def)
  then have g: "gm_get (tr_tokens t) (tr_next t) = None" by (simp add: map_of_eq_None_iff)
  then have s: "gm_set (tr_next t) b (tr_tokens t) = tr_tokens t @ [(tr_next t, b)]" by (rule gm_set_fresh)
  have d: "gm_del (tr_next t) (tr_tokens t @ [(tr_next t, b)]) = tr_tokens t"
    using n by (force simp: AList.delete_eq filter_id_conv)
  show ?thesis
    using assms(2) g s d
    by (auto simp: tracker_Enter_def tracker_Done_def signalZero_def Let_def map_add_def)
qed

section \<open>Properties\<close>

text \<open>
  C2: With a redactor and the always-redact setting, nothing raw leaves the gateway: whatever
  the upstreams answer and however many are tried, every body sent is the redactor's output
  for this request and passed the final leak scan.
\<close>

theorem always_redact_sends_clean:
  assumes "gw_hasRedactor g" "gw_always g" "ServeHTTP g ev rq = (resp, sent, g')"
  shows "\<forall>(t, b) \<in> set sent. ev_redact ev (rq_body rq) = Some b \<and> \<not> ev_leaks ev b"
proof (cases "sent = []")
  case False
  obtain h h' where h: "serve_routed h ev rq = (resp, sent, h')" "gw_hasRedactor h" "gw_always h"
    using ServeHTTP_routed [OF assms(3) False] assms by auto
  show ?thesis
  proof (clarify)
    fix t b assume "(t, b) \<in> set sent"
    from serve_routed_sent [OF h(1) this] obtain c :: candidate
      where "outbound h ev (ca_target c) (rq_body rq) = Inr b" by blast
    with h show "ev_redact ev (rq_body rq) = Some b \<and> \<not> ev_leaks ev b"
      by (intro outbound_clean) (auto simp: redacting_def)
  qed
qed simp

definition demo_policy :: policy where
  "demo_policy = \<lparr>po_targets = [demo_target ''local'' 1 True, demo_target ''cloud'' 2 False], po_rules = [],
     po_defaultTier = 2, po_fallback = [(1, 2)], po_budgets = []\<rparr>"

definition demo_stats :: stats where
  "demo_stats = \<lparr>st_Requests = 0, st_Rejected = 0, st_Upstream5xx = 0, st_ClientAbort = 0, st_LeakBlocked = 0,
     st_GPUShed = 0, st_PrefixPinned = 0, st_Failover = 0, st_ShutdownRejected = 0\<rparr>"

definition demo_gateway :: "bool \<Rightarrow> breaker \<Rightarrow> gateway" where
  "demo_gateway always b =
     \<lparr>gw_policy = demo_policy, gw_breakers = [(''cloud'', b)], gw_gpu = None, gw_ring = None,
      gw_limiter = NewLimiter \<lparr>l_tokens = 10 ^ 6, l_window = 60 * 10 ^ 9, l_maxConcurrent = 0, l_ttl = 60 * 10 ^ 9\<rparr>,
      gw_phase = Some PhaseServing, gw_tracker = Some NewTracker, gw_hasRedactor = True, gw_always = always,
      gw_stats = demo_stats\<rparr>"

text \<open>The first upstream is down, the second answers 200; the redactor masks.\<close>

definition demo_env :: "outcome \<Rightarrow> int \<Rightarrow> env" where
  "demo_env first t = \<lparr>ev_pickTime = t, ev_reserveTime = t, ev_commitTime = t, ev_dispatchTime = (\<lambda>i. t), ev_vaultOk = True,
     ev_redact = (\<lambda>s. Some ''masked''), ev_leaks = (\<lambda>s. False),
     ev_outcome = (\<lambda>i. if i = 0 then first else Status 200), ev_usage = \<lparr>u_input = 3, u_output = 4\<rparr>\<rparr>"

definition demo_request :: request where
  "demo_request = \<lparr>rq_identity = Anonymous\<lparr>id_TierHint := 1\<rparr>, rq_body = ''secret'', rq_readable = True, rq_json = True,
     rq_stream = True, rq_maxTokens = 10, rq_prefix = None\<rparr>"

theorem always_redact_sends_clean_witness:
  "\<exists>resp g'. ServeHTTP (demo_gateway True (NewBreaker ''cloud'' 1 10)) (demo_env Unreachable 5) demo_request
     = (resp, [(demo_target ''local'' 1 True, ''masked''), (demo_target ''cloud'' 2 False, ''masked'')], g') \<and>
     ev_redact (demo_env Unreachable 5) (rq_body demo_request) = Some ''masked''"
proof -
  let ?S = "ServeHTTP (demo_gateway True (NewBreaker ''cloud'' 1 10)) (demo_env Unreachable 5) demo_request"
  obtain resp sent g' where S: "?S = (resp, sent, g')" by (cases ?S)
  have "fst (snd ?S) = [(demo_target ''local'' 1 True, ''masked''), (demo_target ''cloud'' 2 False, ''masked'')]"
    by code_simp
  with S have e: "sent = [(demo_target ''local'' 1 True, ''masked''), (demo_target ''cloud'' 2 False, ''masked'')]"
    by simp
  from always_redact_sends_clean [OF _ _ S] e show ?thesis
    using S by (simp add: demo_gateway_def)
qed


text \<open>
  C1: Every exit of the handler settles what the request took: no reservation stays open that
  was not open before, the in-flight counts and tokens of the tracker are back to what they
  were, and so are the loads of the affinity ring.
\<close>

theorem ServeHTTP_balanced:
  assumes S: "ServeHTTP g ev rq = (resp, sent, g')"
    and T: "\<forall>t. gw_tracker g = Some t \<longrightarrow> tracker_inv t"
    and R: "\<forall>r. gw_ring g = Some r \<longrightarrow> ring_sound r"
  shows "open_ids (gw_limiter g') s \<subseteq> open_ids (gw_limiter g) s \<and> same_loads (gw_ring g) (gw_ring g') \<and>
    map_option (\<lambda>t. (tr_total t, tr_streaming t, tr_tokens t)) (gw_tracker g') =
    map_option (\<lambda>t. (tr_total t, tr_streaming t, tr_tokens t)) (gw_tracker g)"
proof -
  let ?b = "bump (\<lambda>s. s\<lparr>st_Requests := st_Requests s + 1\<rparr>) g"
  let ?early = "(case gw_phase g of None \<Rightarrow> False | Some p \<Rightarrow> \<not> AcceptingNew p) \<or> \<not> rq_readable rq \<or> \<not> rq_json rq"
  show ?thesis
  proof (cases ?early)
    case True
    then have "gw_limiter g' = gw_limiter g \<and> gw_ring g' = gw_ring g \<and> gw_tracker g' = gw_tracker g"
      using S by (auto simp: ServeHTTP_def Let_def split: if_splits)
    then show ?thesis by simp
  next
    case ok: False
    show ?thesis
    proof (cases "gw_tracker g")
      case None
      then have "serve_routed ?b ev rq = (resp, sent, g')" using S ok by (auto simp: ServeHTTP_def Let_def)
      from serve_routed_balanced(1) [OF this, of s] serve_routed_balanced(2,3) [OF this] R None
      show ?thesis by simp
    next
      case (Some t)
      obtain token t1 where E: "tracker_Enter t (rq_stream rq) = (token, t1)" by fastforce
      obtain resp1 sent1 h' where H: "serve_routed (?b\<lparr>gw_tracker := Some t1\<rparr>) ev rq = (resp1, sent1, h')"
        by (cases "serve_routed (?b\<lparr>gw_tracker := Some t1\<rparr>) ev rq")
      then have "g' = h'\<lparr>gw_tracker := map_option (\<lambda>x. tracker_Done x token) (gw_tracker h')\<rparr>"
        using S ok Some E by (auto simp: ServeHTTP_def Let_def)
      then show ?thesis
        using serve_routed_balanced(1) [OF H, of s] serve_routed_balanced(2,3) [OF H] R T Some Enter_Done [OF _ E]
        by simp
    qed
  qed
qed

theorem ServeHTTP_balanced_witness:
  "open_ids (gw_limiter (snd (snd (ServeHTTP (demo_gateway True (NewBreaker ''cloud'' 1 10)) (demo_env Unreachable 5)
     demo_request)))) (RateLimitSubject (rq_identity demo_request)) = {}"
proof -
  let ?g = "demo_gateway True (NewBreaker ''cloud'' 1 10)"
  let ?S = "ServeHTTP ?g (demo_env Unreachable 5) demo_request"
  obtain resp sent g' where S: "?S = (resp, sent, g')" by (cases ?S)
  have "\<forall>t. gw_tracker ?g = Some t \<longrightarrow> tracker_inv t"
    by (simp add: demo_gateway_def NewTracker_inv)
  moreover have "\<forall>r. gw_ring ?g = Some r \<longrightarrow> ring_sound r" by (simp add: demo_gateway_def)
  ultimately have "open_ids (gw_limiter g') (RateLimitSubject (rq_identity demo_request))
      \<subseteq> open_ids (gw_limiter ?g) (RateLimitSubject (rq_identity demo_request))"
    using ServeHTTP_balanced [OF S] by blast
  also have "\<dots> = {}" by (simp add: demo_gateway_def open_ids_def stateFor_def NewLimiter_def fresh_state_def)
  finally show ?thesis using S by simp
qed

section \<open>Candidates: soundness\<close>

inductive falls_to :: "policy \<Rightarrow> tier \<Rightarrow> tier \<Rightarrow> bool" where
  here: "falls_to p t t"
| down: "Fallback p t = Some u \<Longrightarrow> falls_to p u v \<Longrightarrow> falls_to p t v"

lemma unseen_filter:
  "unseen names seen ts = (rest, seen') \<Longrightarrow> distinct (map t_Name ts) \<Longrightarrow>
   rest = filter (\<lambda>t. t_Name t \<in> set names \<and> t_Name t \<notin> set seen) ts \<and>
   set seen' = set seen \<union> t_Name ` set rest"
proof (induction ts arbitrary: seen seen' rest)
  case (Cons t ts)
  show ?case
  proof (cases "t_Name t \<in> set names \<and> t_Name t \<notin> set seen")
    case True
    obtain r s where r: "unseen names (t_Name t # seen) ts = (r, s)" by fastforce
    with True Cons.prems have e: "rest = t # r" "seen' = s" by auto
    have "filter (\<lambda>x. t_Name x \<in> set names \<and> t_Name x \<notin> set (t_Name t # seen)) ts =
        filter (\<lambda>x. t_Name x \<in> set names \<and> t_Name x \<notin> set seen) ts"
      using Cons.prems(2) by (intro filter_cong) (auto simp: image_iff)
    with Cons.IH [OF r] Cons.prems(2) True e show ?thesis by auto
  next
    case False
    then have "unseen names seen ts = (rest, seen')" using Cons.prems by auto
    from Cons.IH [OF this] Cons.prems(2) False show ?thesis by auto
  qed
qed simp

lemma target_named_mem: "target_named ts n = Some t \<Longrightarrow> t \<in> set ts \<and> t_Name t = n"
  unfolding target_named_def find_Some_iff by (metis nth_mem set_rev)

text \<open>The same relation with the tiers already visited kept out, the way the loop walks.\<close>

inductive falls_avoid :: "policy \<Rightarrow> tier set \<Rightarrow> tier \<Rightarrow> tier \<Rightarrow> bool" where
  stop: "t \<notin> V \<Longrightarrow> falls_avoid p V t t"
| walk: "t \<notin> V \<Longrightarrow> Fallback p t = Some n \<Longrightarrow> falls_avoid p (insert t V) n u \<Longrightarrow> falls_avoid p V t u"

lemma falls_avoid_mono: "falls_avoid p V t u \<Longrightarrow> W \<subseteq> V \<Longrightarrow> falls_avoid p W t u"
proof (induction arbitrary: W rule: falls_avoid.induct)
  case (walk t V p n u)
  then have "falls_avoid p (insert t W) n u" by (intro walk.IH) auto
  with walk show ?case by (blast intro: falls_avoid.walk)
qed (blast intro: falls_avoid.stop)

lemma falls_avoid_split:
  "falls_avoid p V n u \<Longrightarrow> falls_avoid p (insert t V) n u \<or> falls_avoid p V t u"
proof (induction rule: falls_avoid.induct)
  case (walk n V p m u)
  show ?case
  proof (cases "n = t")
    case True
    with walk show ?thesis by (blast intro: falls_avoid.walk)
  next
    case False
    with walk show ?thesis
      by (metis falls_avoid.walk falls_avoid_mono insertE insert_commute subset_insertI)
  qed
qed (metis falls_avoid.stop insertE)

lemma falls_avoid_iff: "falls_avoid p {} t u \<longleftrightarrow> falls_to p t u"
proof
  have "falls_avoid p V t u \<Longrightarrow> falls_to p t u" for V
    by (induction rule: falls_avoid.induct) (auto intro: falls_to.intros)
  then show "falls_avoid p {} t u \<Longrightarrow> falls_to p t u" .
  show "falls_to p t u \<Longrightarrow> falls_avoid p {} t u"
  proof (induction rule: falls_to.induct)
    case (down p t n v)
    from falls_avoid_split [OF down.IH, of t] show ?case
      using down.hyps by (auto intro: falls_avoid.walk)
  qed (simp add: falls_avoid.stop)
qed

lemma falls_avoid_visited: "t \<in> V \<Longrightarrow> \<not> falls_avoid p V t u"
  by (auto elim: falls_avoid.cases)

lemma falls_avoid_unfold:
  "t \<notin> V \<Longrightarrow> falls_avoid p V t u \<longleftrightarrow>
    u = t \<or> (\<exists>n. Fallback p t = Some n \<and> falls_avoid p (insert t V) n u)"
  by (auto intro: falls_avoid.intros elim: falls_avoid.cases)

definition target_ok :: "gateway \<Rightarrow> bool \<Rightarrow> int \<Rightarrow> (string, breaker) gomap \<Rightarrow> target \<Rightarrow> bool" where
  "target_ok g skipCritical now brs t \<longleftrightarrow>
     (\<forall>b. gm_get brs (t_Name t) = Some b \<longrightarrow> fst (Allow b now)) \<and>
     \<not> (skipCritical \<and> (\<exists>reg st. gw_gpu g = Some reg \<and> gpu_Get reg (t_Name t) = Some st \<and>
          gs_pressure st = PressureCritical))"

lemma target_ok_cong:
  "gm_get brs (t_Name t) = gm_get brs' (t_Name t) \<Longrightarrow> target_ok g sk now brs t = target_ok g sk now brs' t"
  by (simp add: target_ok_def)

lemma eligible_spec:
  "eligible_loop g sk now ts brs = (es, brs') \<Longrightarrow> distinct (map t_Name ts) \<Longrightarrow>
   es = filter (target_ok g sk now brs) ts \<and>
   (\<forall>n. n \<notin> t_Name ` set ts \<longrightarrow> gm_get brs' n = gm_get brs n)"
proof (induction ts arbitrary: brs brs' es)
  case (Cons t ts)
  let ?crit = "sk \<and> (case gw_gpu g of None \<Rightarrow> False | Some reg \<Rightarrow>
     (case gpu_Get reg (t_Name t) of None \<Rightarrow> False | Some st \<Rightarrow> gs_pressure st = PressureCritical))"
  obtain ok brs1 where o: "(case gm_get brs (t_Name t) of
        None \<Rightarrow> (True, brs)
      | Some b \<Rightarrow> let (ok, b') = Allow b now in (ok, gm_set (t_Name t) b' brs)) = (ok, brs1)" by fastforce
  have ok: "ok \<longleftrightarrow> (\<forall>b. gm_get brs (t_Name t) = Some b \<longrightarrow> fst (Allow b now))"
    using o by (auto simp: Let_def case_prod_unfold split: option.splits)
  have b1: "n \<noteq> t_Name t \<Longrightarrow> gm_get brs1 n = gm_get brs n" for n
    using o by (auto simp: Let_def case_prod_unfold gm_get_set split: option.splits)
  obtain es1 brs2 where r: "eligible_loop g sk now ts brs1 = (es1, brs2)" by fastforce
  have IH: "es1 = filter (target_ok g sk now brs1) ts"
      "\<forall>n. n \<notin> t_Name ` set ts \<longrightarrow> gm_get brs2 n = gm_get brs1 n"
    using Cons.IH [OF r] Cons.prems(2) by auto
  have c: "filter (target_ok g sk now brs1) ts = filter (target_ok g sk now brs) ts"
    using Cons.prems(2) b1 by (intro filter_cong refl target_ok_cong) (auto simp: image_iff)
  have tok: "target_ok g sk now brs t \<longleftrightarrow> ok \<and> \<not> ?crit"
    by (auto simp: target_ok_def ok split: option.splits)
  have "es = (if target_ok g sk now brs t then t # es1 else es1)" "brs' = brs2"
    using Cons.prems(1) o r tok by (auto simp: Let_def split: if_splits)
  with IH c b1 show ?case by auto
qed simp

lemma tier_spec:
  assumes T: "tier_candidates g prefix pool es seen = (out, seen')"
    and d: "distinct (map t_Name pool)" and e: "es = filter P pool"
    and f: "\<forall>t \<in> set pool. t_Name t \<notin> set seen"
  shows "ca_target ` set out = set es \<and> distinct (map (t_Name \<circ> ca_target) out) \<and>
    set seen' = set seen \<union> t_Name ` set es"
proof -
  have mem: "t \<in> set pool \<Longrightarrow> t_Name t \<in> t_Name ` set es \<longleftrightarrow> t \<in> set es" for t
    using d e by (auto simp: distinct_map inj_on_def)
  let ?pin = "case (gw_ring g, prefix) of
      (Some r, Some key) \<Rightarrow>
        if es = [] then None
        else let n = Pick r key (Some (map (\<lambda>n. (n, True)) (map t_Name es))) in
          if n = [] then None else target_named es n
    | _ \<Rightarrow> None"
  show ?thesis
  proof (cases ?pin)
    case None
    obtain rest s where u: "unseen (map t_Name es) seen pool = (rest, s)" by fastforce
    have r: "set rest = set es" "distinct (map t_Name rest)" "set s = set seen \<union> t_Name ` set rest"
      using unseen_filter [OF u d] f e mem d by (auto simp: distinct_map_filter)
    have "out = map (\<lambda>t. \<lparr>ca_target = t, ca_pinned = False\<rparr>) rest" "seen' = s"
      using T u None by (auto simp: tier_candidates_def Let_def)
    with r show ?thesis by (auto simp: image_image comp_def)
  next
    case (Some t)
    then have te: "t \<in> set es" using target_named_mem
      by (auto simp: Let_def split: option.splits if_splits)
    obtain rest s where u: "unseen (map t_Name es) (t_Name t # seen) pool = (rest, s)" by fastforce
    have eq: "x \<in> set pool \<Longrightarrow> t_Name x = t_Name t \<Longrightarrow> x = t" for x
      using d e te by (auto simp: distinct_map inj_on_def)
    have r: "set rest = set es - {t}" "distinct (map t_Name rest)" "set s = insert (t_Name t) (set seen) \<union> t_Name ` set rest"
      using unseen_filter [OF u d] f e mem d te eq by (auto simp: distinct_map_filter)
    have n: "t_Name t \<notin> t_Name ` set rest"
      using unseen_filter [OF u d] by auto
    have "out = \<lparr>ca_target = t, ca_pinned = True\<rparr> # map (\<lambda>t. \<lparr>ca_target = t, ca_pinned = False\<rparr>) rest" "seen' = s"
      using T u Some by (auto simp: tier_candidates_def Let_def)
    with r n te show ?thesis by (auto simp: image_image comp_def)
  qed
qed

lemma falls_avoid_end: "falls_avoid p V t u \<Longrightarrow> u \<notin> V"
  by (induction rule: falls_avoid.induct) auto

definition reachable_targets ::
    "gateway \<Rightarrow> bool \<Rightarrow> int \<Rightarrow> (string, breaker) gomap \<Rightarrow> tier set \<Rightarrow> tier \<Rightarrow> target set" where
  "reachable_targets g sk now brs V t =
     {x. \<exists>u. falls_avoid (gw_policy g) V t u \<and> x \<in> set (TargetsOf (gw_policy g) u) \<and> target_ok g sk now brs x}"

definition tier_fresh :: "gateway \<Rightarrow> tier set \<Rightarrow> string list \<Rightarrow> (string, breaker) gomap \<Rightarrow> (string, breaker) gomap \<Rightarrow> bool" where
  "tier_fresh g V seen brs brs0 \<longleftrightarrow>
     (\<forall>x \<in> set (po_targets (gw_policy g)). t_Tier x \<notin> V \<longrightarrow>
        t_Name x \<notin> set seen \<and> gm_get brs (t_Name x) = gm_get brs0 (t_Name x))"

lemma TargetsOf_tier: "x \<in> set (TargetsOf p u) \<Longrightarrow> x \<in> set (po_targets p) \<and> t_Tier x = u \<and> t_Enabled x"
  by (auto simp: TargetsOf_def)

lemma pair_filter: "P a \<Longrightarrow> \<not> P b \<Longrightarrow> {x \<in> {a, b}. P x} = {a}"
  by blast

lemma names_unique:
  "distinct (map t_Name ts) \<Longrightarrow> x \<in> set ts \<Longrightarrow> y \<in> set ts \<Longrightarrow> t_Name x = t_Name y \<Longrightarrow> x = y"
  by (auto simp: distinct_map inj_on_def)

lemma collect_spec:
  "collect_loop g prefix sk now visited t seen brs = (out, brs') \<Longrightarrow>
   distinct (map t_Name (po_targets (gw_policy g))) \<Longrightarrow> tier_fresh g (set visited) seen brs brs0 \<Longrightarrow>
   ca_target ` set out = reachable_targets g sk now brs0 (set visited) t \<and>
   distinct (map (t_Name \<circ> ca_target) out)"
proof (induction g prefix sk now visited t seen brs arbitrary: out brs' rule: collect_loop.induct)
  case (1 g prefix sk now visited t seen brs)
  let ?p = "gw_policy g"
  show ?case
  proof (cases "t \<in> set visited")
    case True
    then show ?thesis using "1.prems"(1)
      by (simp add: collect_loop.simps reachable_targets_def falls_avoid_visited)
  next
    case False
    let ?pool = "TargetsOf ?p t"
    obtain es brs1 where E: "eligible_loop g sk now ?pool brs = (es, brs1)" by fastforce
    obtain o1 seen1 where T: "tier_candidates g prefix ?pool es seen = (o1, seen1)" by fastforce
    have dp: "distinct (map t_Name ?pool)"
      using "1.prems"(2) by (simp add: TargetsOf_def distinct_map_filter)
    have fr: "x \<in> set ?pool \<Longrightarrow> t_Name x \<notin> set seen \<and> gm_get brs (t_Name x) = gm_get brs0 (t_Name x)" for x
      using "1.prems"(3) False TargetsOf_tier by (auto simp: tier_fresh_def)
    note es = eligible_spec [OF E dp]
    have ts: "ca_target ` set o1 = set es" "distinct (map (t_Name \<circ> ca_target) o1)"
        "set seen1 = set seen \<union> t_Name ` set es"
      using tier_spec [OF T dp conjunct1 [OF es]] fr by auto
    have es0: "set es = {x \<in> set ?pool. target_ok g sk now brs0 x}"
      using es fr target_ok_cong [of brs _ brs0 g sk now] by auto
    have other: "t_Name x \<notin> t_Name ` set ?pool"
      if "x \<in> set (po_targets ?p)" "t_Tier x \<noteq> t" for x
      using names_unique [OF "1.prems"(2) that(1)] that(2) TargetsOf_tier [of _ ?p t] by (metis imageE)
    have fresh1: "tier_fresh g (set (t # visited)) seen1 brs1 brs0"
      unfolding tier_fresh_def
    proof (intro ballI impI)
      fix x assume x: "x \<in> set (po_targets ?p)" "t_Tier x \<notin> set (t # visited)"
      then have "t_Name x \<notin> t_Name ` set ?pool" by (intro other) auto
      then have "t_Name x \<notin> t_Name ` set es" "gm_get brs1 (t_Name x) = gm_get brs (t_Name x)"
        using es0 conjunct2 [OF es] by auto
      moreover have "t_Name x \<notin> set seen \<and> gm_get brs (t_Name x) = gm_get brs0 (t_Name x)"
        using x "1.prems"(3) by (simp add: tier_fresh_def)
      ultimately show "t_Name x \<notin> set seen1 \<and> gm_get brs1 (t_Name x) = gm_get brs0 (t_Name x)"
        by (simp add: ts(3))
    qed
    show ?thesis
    proof (cases "Fallback ?p t")
      case None
      then have "out = o1" using "1.prems"(1) False E T by (simp add: collect_loop.simps)
      then show ?thesis
        using ts(1,2) es0 None falls_avoid_unfold [OF False, of ?p] by (auto simp: reachable_targets_def comp_def)
    next
      case (Some n)
      obtain more brs2 where M: "collect_loop g prefix sk now (t # visited) n seen1 brs1 = (more, brs2)" by fastforce
      have IH: "ca_target ` set more = reachable_targets g sk now brs0 (set (t # visited)) n"
          "distinct (map (t_Name \<circ> ca_target) more)"
        using "1.IH" [OF False refl E [symmetric] refl T [symmetric] refl Some M "1.prems"(2) fresh1]
        by (auto simp: comp_def)
      have o: "out = o1 @ more" using "1.prems"(1) False E T Some M by (simp add: collect_loop.simps)
      have "t_Name (ca_target c) \<noteq> t_Name (ca_target c')" if cc: "c \<in> set o1" "c' \<in> set more" for c c'
      proof -
        have a: "ca_target c \<in> set ?pool" using cc(1) ts(1) es0 by auto
        obtain u where u: "falls_avoid ?p (set (t # visited)) n u" "ca_target c' \<in> set (TargetsOf ?p u)"
          using cc(2) IH(1) by (auto simp: reachable_targets_def)
        then have "t_Name (ca_target c') \<notin> t_Name ` set ?pool"
          using falls_avoid_end [OF u(1)] TargetsOf_tier [OF u(2)] by (intro other) auto
        with a show ?thesis by (metis imageI)
      qed
      then have "distinct (map (t_Name \<circ> ca_target) out)" using o ts(2) IH(2) by auto
      moreover have "ca_target ` set out = reachable_targets g sk now brs0 (set visited) t"
        using o ts(1) es0 IH(1) Some falls_avoid_unfold [OF False, of ?p]
        by (auto simp: reachable_targets_def image_Un)
      ultimately show ?thesis by blast
    qed
  qed
qed

text \<open>
  C16: The candidate list of one pass is exact: its targets are the enabled targets of the
  decided tier and of every tier the fallback chain reaches from it whose breaker lets the
  call through (and, in the first pass, whose KV cache is not critical), each exactly once,
  whatever the affinity ring pins in front.
\<close>

theorem collectFrom_exact:
  assumes "collectFrom g d prefix skipCritical now = (cands, g')"
    and "distinct (map t_Name (po_targets (gw_policy g)))"
  shows "ca_target ` set cands =
      {x \<in> set (po_targets (gw_policy g)). t_Enabled x \<and> falls_to (gw_policy g) (de_Tier d) (t_Tier x) \<and>
         target_ok g skipCritical now (gw_breakers g) x} \<and>
    distinct (map (t_Name \<circ> ca_target) cands)"
proof -
  obtain brs where "collect_loop g prefix skipCritical now [] (de_Tier d) [] (gw_breakers g) = (cands, brs)"
    using assms(1) by (auto simp: collectFrom_def split: prod.splits)
  from collect_spec [OF this assms(2), of "gw_breakers g"]
  have "ca_target ` set cands = reachable_targets g skipCritical now (gw_breakers g) {} (de_Tier d)"
      "distinct (map (t_Name \<circ> ca_target) cands)"
    by (simp_all add: tier_fresh_def)
  then show ?thesis by (auto simp: reachable_targets_def falls_avoid_iff TargetsOf_def)
qed

theorem collectFrom_exact_witness:
  "\<exists>cands g'. collectFrom (demo_gateway True tripped) (Resolve demo_policy (rq_identity demo_request)) None True 105 = (cands, g') \<and>
     ca_target ` set cands = {demo_target ''local'' 1 True}"
proof -
  let ?g = "demo_gateway True tripped" and ?d = "Resolve demo_policy (rq_identity demo_request)"
  obtain cands g' where C: "collectFrom ?g ?d None True 105 = (cands, g')" by fastforce
  have d: "de_Tier ?d = 1"
    by (simp add: Resolve_def demo_policy_def demo_request_def TargetsOf_def demo_target_def Anonymous_def)
  have n: "distinct (map t_Name (po_targets (gw_policy ?g)))"
    by (simp add: demo_gateway_def demo_policy_def demo_target_def)
  have no: "\<not> fst (Allow tripped 105)" by code_simp
  let ?P = "\<lambda>x. t_Enabled x \<and> falls_to (gw_policy ?g) (de_Tier ?d) (t_Tier x) \<and>
      target_ok ?g True 105 (gw_breakers ?g) x"
  have p: "?P (demo_target ''local'' 1 True)"
    by (simp only: d) (simp add: demo_gateway_def demo_target_def target_ok_def falls_to.here)
  have q: "\<not> ?P (demo_target ''cloud'' 2 False)"
    using no by (simp add: demo_gateway_def demo_target_def target_ok_def)
  have t: "set (po_targets (gw_policy ?g)) = {demo_target ''local'' 1 True, demo_target ''cloud'' 2 False}"
    by (simp add: demo_gateway_def demo_policy_def)
  have "ca_target ` set cands = {demo_target ''local'' 1 True}"
    by (rule trans [OF conjunct1 [OF collectFrom_exact [OF C n]]], unfold t, rule pair_filter [where P = ?P, OF p q])
  with C show ?thesis by blast
qed

text \<open>Collecting candidates spends the trial calls of a half-open breaker even when the
  request never reaches its backend. Two requests served by the first candidate use up both
  trials of the recovered backend behind it; when the first candidate then fails, the
  recovered backend is not a candidate, and since nothing was sent to it nothing is ever
  reported and its breaker stays half-open.\<close>

theorem trial_calls_spent_without_dispatch:
  "let g1 = snd (snd (ServeHTTP (demo_gateway True tripped) (demo_env (Status 200) 200) demo_request));
       g2 = snd (snd (ServeHTTP g1 (demo_env (Status 200) 201) demo_request));
       (resp, sent, g3) = ServeHTTP g2 (demo_env Unreachable (10 ^ 15)) demo_request in
   resp = Rejected 502 \<and> map (t_Name \<circ> fst) sent = [''local''] \<and>
   map_option br_state (gm_get (gw_breakers g3) ''cloud'') = Some StateHalfOpen \<and>
   map_option (\<lambda>b. fst (Allow b (10 ^ 18))) (gm_get (gw_breakers g3) ''cloud'') = Some False"
  by code_simp

end
