(* ===== verification/Vault.thy ===== *)
theory Vault imports Detector "HOL-Library.Word" begin

text \<open>
  The session vaults (\<open>pii/anonymize/vault.go\<close>, the tenant check of \<open>tenant.go\<close>): a vault maps
  each typed value to a placeholder and back; the registry keeps one vault per tenant and
  session in 64 shards. Vaults are shared objects in Go, so the registry holds addresses into
  a store.
\<close>

unbundle bit_operations_syntax

section \<open>One vault\<close>

definition PlaceholderPrefix :: string where
  "PlaceholderPrefix = ''ANONYMIZED_''"

definition NUL :: char where
  "NUL = CHR 0x00"

record session_vault =
  sv_id :: string
  sv_ttl :: int
  sv_created :: int
  sv_forward :: "(string, string) gomap"
  sv_reverse :: "(string, string) gomap"
  sv_counters :: "(string, nat) gomap"

definition newSessionVault :: "string \<Rightarrow> int \<Rightarrow> int \<Rightarrow> session_vault" where
  "newSessionVault sid ttl now =
     \<lparr>sv_id = sid, sv_ttl = ttl, sv_created = now, sv_forward = [], sv_reverse = [], sv_counters = []\<rparr>"

definition placeholder :: "string \<Rightarrow> nat \<Rightarrow> string" where
  "placeholder typ idx = PlaceholderPrefix @ typ @ ''_'' @ itoa idx"

definition counter :: "session_vault \<Rightarrow> string \<Rightarrow> nat" where
  "counter v typ = (case gm_get (sv_counters v) typ of None \<Rightarrow> 0 | Some n \<Rightarrow> n)"

definition forward_key :: "string \<Rightarrow> string \<Rightarrow> string" where
  "forward_key typ val = typ @ [NUL] @ val"

definition PlaceholderFor :: "session_vault \<Rightarrow> entity \<Rightarrow> string \<times> session_vault" where
  "PlaceholderFor v e =
     (let key = forward_key (e_type e) (e_value e) in
      case gm_get (sv_forward v) key of
        Some p \<Rightarrow> (p, v)
      | None \<Rightarrow>
          let idx = counter v (e_type e);
              p = placeholder (e_type e) idx in
          (p, v\<lparr>sv_counters := gm_set (e_type e) (idx + 1) (sv_counters v),
                sv_forward := gm_set key p (sv_forward v),
                sv_reverse := gm_set p (e_value e) (sv_reverse v)\<rparr>))"

definition Vault_Resolve :: "session_vault \<Rightarrow> string \<Rightarrow> string option" where
  "Vault_Resolve v p = gm_get (sv_reverse v) (to_upper p)"

definition Vault_Size :: "session_vault \<Rightarrow> nat" where
  "Vault_Size v = length (sv_reverse v)"

definition Vault_Expired :: "session_vault \<Rightarrow> int \<Rightarrow> bool" where
  "Vault_Expired v now \<longleftrightarrow> time_sub now (sv_created v) \<ge> sv_ttl v"

definition Vault_Purge :: "session_vault \<Rightarrow> session_vault" where
  "Vault_Purge v = v\<lparr>sv_forward := [], sv_reverse := [], sv_counters := []\<rparr>"

text \<open>\<open>strings.LastIndexByte\<close>.\<close>

fun last_index_byte :: "string \<Rightarrow> char \<Rightarrow> nat option" where
  "last_index_byte [] c = None"
| "last_index_byte (d # s) c =
     (case last_index_byte s c of Some i \<Rightarrow> Some (Suc i) | None \<Rightarrow> if d = c then Some 0 else None)"

definition typeFromPlaceholder :: "string \<Rightarrow> string option" where
  "typeFromPlaceholder p =
     (if \<not> has_prefix p PlaceholderPrefix then None
      else let rest = drop (length PlaceholderPrefix) p in
        case last_index_byte rest CHR ''_'' of
          None \<Rightarrow> None
        | Some 0 \<Rightarrow> None
        | Some i \<Rightarrow> Some (take i rest))"

fun audit_loop :: "(string \<times> string) list \<Rightarrow> (string, nat) gomap \<Rightarrow> (string, nat) gomap" where
  "audit_loop [] counts = counts"
| "audit_loop ((p, val) # ps) counts =
     (case typeFromPlaceholder p of
        None \<Rightarrow> audit_loop ps counts
      | Some t \<Rightarrow> audit_loop ps (gm_set t ((case gm_get counts t of None \<Rightarrow> 0 | Some n \<Rightarrow> n) + 1) counts))"

definition AuditCounts :: "session_vault \<Rightarrow> (string, nat) gomap" where
  "AuditCounts v = audit_loop (sv_reverse v) []"

fun leak_loop :: "(string \<times> string) list \<Rightarrow> string \<Rightarrow> string list \<Rightarrow> string list" where
  "leak_loop [] payload seen = []"
| "leak_loop ((p, val) # ps) payload seen =
     (if val = [] \<or> \<not> contains payload val then leak_loop ps payload seen
      else case typeFromPlaceholder p of
             None \<Rightarrow> leak_loop ps payload seen
           | Some t \<Rightarrow> if t \<in> set seen then leak_loop ps payload seen
                       else t # leak_loop ps payload (t # seen))"

definition ScanLeak :: "session_vault \<Rightarrow> string \<Rightarrow> string list" where
  "ScanLeak v payload = leak_loop (sv_reverse v) payload []"

section \<open>The registry\<close>

definition vaultShards :: nat where
  "vaultShards = 64"

record session_ref =
  sr_tenant :: string
  sr_session :: string

record vault_registry =
  vr_shards :: "(string, nat) gomap list"
  vr_store :: "(nat, session_vault) gomap"
  vr_next :: nat
  vr_ttl :: int
  vr_max :: int

definition NewVaultRegistry :: "int \<Rightarrow> int \<Rightarrow> vault_registry" where
  "NewVaultRegistry ttl maxSessions =
     (let ttl = (if ttl \<le> 0 then 3600 * 10 ^ 9 else ttl);
          maxSessions = (if maxSessions \<le> 0 then 100000 else maxSessions) in
      \<lparr>vr_shards = replicate vaultShards [], vr_store = [], vr_next = 0, vr_ttl = ttl,
       vr_max = maxSessions div int vaultShards + 1\<rparr>)"

text \<open>The pattern of \<open>tenant.go\<close>: a letter or digit, then up to 63 letters, digits, \<open>_\<close>, \<open>.\<close>, \<open>-\<close>.\<close>

definition alnum :: "char \<Rightarrow> bool" where
  "alnum c \<longleftrightarrow> is_digit c \<or> is_upper c \<or> is_lower c"

definition ValidateTenant :: "string \<Rightarrow> bool" where
  "ValidateTenant t \<longleftrightarrow>
     (case t of
        [] \<Rightarrow> False
      | c # s \<Rightarrow> alnum c \<and> length s \<le> 63 \<and> (\<forall>d \<in> set s. alnum d \<or> d \<in> set ''_.-''))"

datatype vault_error = BadTenant | EmptySession | ShardFull

definition ref_Validate :: "session_ref \<Rightarrow> vault_error option" where
  "ref_Validate s =
     (if \<not> ValidateTenant (sr_tenant s) then Some BadTenant
      else if sr_session s = [] then Some EmptySession else None)"

definition ref_key :: "session_ref \<Rightarrow> string" where
  "ref_key s = sr_tenant s @ [NUL] @ sr_session s"

text \<open>32-bit FNV-1a.\<close>

definition fnv32a :: "string \<Rightarrow> 32 word" where
  "fnv32a s = foldl (\<lambda>h c. (h XOR of_nat (byte c)) * 16777619) 2166136261 s"

definition shardFor :: "string \<Rightarrow> nat" where
  "shardFor s = unat (fnv32a s) mod vaultShards"

definition vault_at :: "vault_registry \<Rightarrow> nat \<Rightarrow> session_vault" where
  "vault_at r a = (case gm_get (vr_store r) a of Some v \<Rightarrow> v | None \<Rightarrow> newSessionVault [] 0 0)"

definition purge_at :: "nat \<Rightarrow> vault_registry \<Rightarrow> vault_registry" where
  "purge_at a r = r\<lparr>vr_store := gm_set a (Vault_Purge (vault_at r a)) (vr_store r)\<rparr>"

definition set_shard :: "nat \<Rightarrow> (string, nat) gomap \<Rightarrow> vault_registry \<Rightarrow> vault_registry" where
  "set_shard i m r = r\<lparr>vr_shards := (vr_shards r)[i := m]\<rparr>"

text \<open>Purge and delete the entries of a shard that a condition selects; the number erased.\<close>

fun erase_loop :: "(string \<Rightarrow> session_vault \<Rightarrow> bool) \<Rightarrow> (string \<times> nat) list \<Rightarrow> nat \<Rightarrow> vault_registry \<Rightarrow> nat \<times> vault_registry" where
  "erase_loop P [] i r = (0, r)"
| "erase_loop P ((k, a) # es) i r =
     (if P k (vault_at r a)
      then let r = purge_at a r;
               r = set_shard i (gm_del k (vr_shards r ! i)) r;
               (n, r) = erase_loop P es i r in (Suc n, r)
      else erase_loop P es i r)"

definition erase_shard :: "(string \<Rightarrow> session_vault \<Rightarrow> bool) \<Rightarrow> nat \<Rightarrow> vault_registry \<Rightarrow> nat \<times> vault_registry" where
  "erase_shard P i r = erase_loop P (vr_shards r ! i) i r"

definition collectExpiredLocked :: "nat \<Rightarrow> int \<Rightarrow> vault_registry \<Rightarrow> vault_registry" where
  "collectExpiredLocked i now r = snd (erase_shard (\<lambda>k v. Vault_Expired v now) i r)"

text \<open>The tail of \<open>Get\<close>: sweep the shard, refuse when it is full, else create the vault.\<close>

definition get_fresh :: "vault_registry \<Rightarrow> string \<Rightarrow> nat \<Rightarrow> int \<Rightarrow> (vault_error + nat) \<times> vault_registry" where
  "get_fresh r key i now =
     (let r = collectExpiredLocked i now r in
      if int (length (vr_shards r ! i)) \<ge> vr_max r then (Inl ShardFull, r)
      else
        let a = vr_next r;
            r = r\<lparr>vr_store := gm_set a (newSessionVault key (vr_ttl r) now) (vr_store r), vr_next := a + 1\<rparr> in
        (Inr a, set_shard i (gm_set key a (vr_shards r ! i)) r))"

definition vaults_Get :: "vault_registry \<Rightarrow> session_ref \<Rightarrow> int \<Rightarrow> (vault_error + nat) \<times> vault_registry" where
  "vaults_Get r ref now =
     (case ref_Validate ref of
        Some e \<Rightarrow> (Inl e, r)
      | None \<Rightarrow>
          let key = ref_key ref; i = shardFor key in
          case gm_get (vr_shards r ! i) key of
            Some a \<Rightarrow>
              if \<not> Vault_Expired (vault_at r a) now then (Inr a, r)
              else
                let r = purge_at a r; r = set_shard i (gm_del key (vr_shards r ! i)) r in
                get_fresh r key i now
          | None \<Rightarrow> get_fresh r key i now)"

definition vaults_Drop :: "vault_registry \<Rightarrow> session_ref \<Rightarrow> vault_registry" where
  "vaults_Drop r ref =
     (let key = ref_key ref; i = shardFor key in
      case gm_get (vr_shards r ! i) key of
        Some a \<Rightarrow> set_shard i (gm_del key (vr_shards r ! i)) (purge_at a r)
      | None \<Rightarrow> r)"

text \<open>One pass over all shards, adding up what each erased.\<close>

definition erase_all :: "(string \<Rightarrow> session_vault \<Rightarrow> bool) \<Rightarrow> vault_registry \<Rightarrow> nat \<times> vault_registry" where
  "erase_all P r =
     fold (\<lambda>i (n, r). let (m, r) = erase_shard P i r in (n + m, r)) [0..<vaultShards] (0, r)"

definition PurgeAll :: "vault_registry \<Rightarrow> vault_registry" where
  "PurgeAll r = snd (erase_all (\<lambda>k v. True) r)"

definition PurgeTenant :: "vault_registry \<Rightarrow> string \<Rightarrow> (vault_error + nat) \<times> vault_registry" where
  "PurgeTenant r tenant =
     (if \<not> ValidateTenant tenant then (Inl BadTenant, r)
      else let (n, r) = erase_all (\<lambda>k v. has_prefix k (tenant @ [NUL])) r in (Inr n, r))"

definition ActiveTenants :: "vault_registry \<Rightarrow> nat" where
  "ActiveTenants r =
     length (remdups (concat (map (\<lambda>(k, a). case index_byte k NUL of Some j \<Rightarrow> [take j k] | None \<Rightarrow> [])
       (concat (vr_shards r)))))"

definition ActiveSessions :: "vault_registry \<Rightarrow> nat" where
  "ActiveSessions r = sum_list (map length (vr_shards r))"

text \<open>One tick of the janitor.\<close>

definition vault_janitor :: "vault_registry \<Rightarrow> int \<Rightarrow> vault_registry" where
  "vault_janitor r now = snd (erase_all (\<lambda>k v. Vault_Expired v now) r)"

text \<open>The holder of a vault pointer uses the vault.\<close>

definition vaults_PlaceholderFor :: "vault_registry \<Rightarrow> nat \<Rightarrow> entity \<Rightarrow> string \<times> vault_registry" where
  "vaults_PlaceholderFor r a e =
     (let (p, v) = PlaceholderFor (vault_at r a) e in (p, r\<lparr>vr_store := gm_set a v (vr_store r)\<rparr>))"

section \<open>Placeholders\<close>

definition type_name :: "string \<Rightarrow> bool" where
  "type_name t \<longleftrightarrow> t \<noteq> [] \<and> (\<forall>c \<in> set t. is_upper c \<or> c = CHR ''_'')"

lemma last_index_byte_None: "last_index_byte s c = None \<longleftrightarrow> c \<notin> set s"
  by (induction s) (auto split: option.splits)

lemma last_index_byte_append:
  "c \<notin> set t \<Longrightarrow> last_index_byte (s @ c # t) c = Some (length s)"
  by (induction s) (auto simp: last_index_byte_None split: option.split)

lemma underscore_itoa: "CHR ''_'' \<notin> set (itoa n)"
  using itoa_digits [of "CHR ''_''" n] by (auto simp: is_digit_def in_range_def byte_def)

lemma type_of_placeholder:
  "typeFromPlaceholder (placeholder t n) = (if t = [] then None else Some t)"
  using last_index_byte_append [OF underscore_itoa, of t n]
  by (simp add: typeFromPlaceholder_def placeholder_def has_prefix_iff split: nat.split)

lemma placeholder_inj: "placeholder t n = placeholder u m \<longleftrightarrow> t = u \<and> n = m"
proof
  assume e: "placeholder t n = placeholder u m"
  then have b: "t @ CHR ''_'' # itoa n = u @ CHR ''_'' # itoa m"
    by (simp add: placeholder_def)
  then have "length t = length u"
    using last_index_byte_append [OF underscore_itoa, of t n] last_index_byte_append [OF underscore_itoa, of u m]
    by simp
  with b show "t = u \<and> n = m" by (simp add: itoa_inj)
qed simp

lemma forward_key_inj:
  "NUL \<notin> set t \<Longrightarrow> NUL \<notin> set u \<Longrightarrow> forward_key t x = forward_key u y \<longleftrightarrow> t = u \<and> x = y"
  by (simp add: forward_key_def append_sep)

lemma upper_type_name: "type_name t \<Longrightarrow> to_upper (placeholder t n) = placeholder t n"
proof -
  assume t: "type_name t"
  have a: "byte c < 128 \<and> upper1 c = c" if "c \<in> set (placeholder t n)" for c
  proof -
    have "c \<in> set PlaceholderPrefix \<or> is_upper c \<or> c = CHR ''_'' \<or> is_digit c"
      using that t itoa_digits by (auto simp: placeholder_def type_name_def)
    moreover have "\<forall>c \<in> set PlaceholderPrefix. is_upper c \<or> c = CHR ''_''"
      by (simp add: PlaceholderPrefix_def is_upper_def in_range_def byte_def)
    ultimately show ?thesis
      by (auto simp: is_upper_def is_digit_def in_range_def upper1_def is_lower_def byte_def)
  qed
  then have "ascii (placeholder t n)" by (simp add: ascii_def)
  then show ?thesis using a by (simp add: to_upper_ascii map_idI)
qed

section \<open>The invariant of a vault\<close>

definition vault_inv :: "session_vault \<Rightarrow> bool" where
  "vault_inv v \<longleftrightarrow> gm_wf (sv_reverse v) \<and>
     (\<forall>k p. gm_get (sv_forward v) k = Some p \<longrightarrow>
        (\<exists>t x n. type_name t \<and> k = forward_key t x \<and> p = placeholder t n \<and> n < counter v t \<and>
           gm_get (sv_reverse v) p = Some x)) \<and>
     (\<forall>p x. gm_get (sv_reverse v) p = Some x \<longrightarrow>
        (\<exists>t n. type_name t \<and> p = placeholder t n \<and> n < counter v t \<and>
           gm_get (sv_forward v) (forward_key t x) = Some p))"

lemma vault_forwardD:
  "vault_inv v \<Longrightarrow> gm_get (sv_forward v) k = Some p \<Longrightarrow>
   \<exists>t x n. type_name t \<and> k = forward_key t x \<and> p = placeholder t n \<and> n < counter v t \<and>
     gm_get (sv_reverse v) p = Some x"
  by (simp add: vault_inv_def)

lemma vault_reverseD:
  "vault_inv v \<Longrightarrow> gm_get (sv_reverse v) p = Some x \<Longrightarrow>
   \<exists>t n. type_name t \<and> p = placeholder t n \<and> n < counter v t \<and>
     gm_get (sv_forward v) (forward_key t x) = Some p"
  by (simp add: vault_inv_def)

lemma newSessionVault_inv: "vault_inv (newSessionVault sid ttl now)"
  by (simp add: vault_inv_def newSessionVault_def)

lemma Vault_Purge_inv: "vault_inv (Vault_Purge v)"
  by (simp add: vault_inv_def Vault_Purge_def)

lemma type_name_NUL: "type_name t \<Longrightarrow> NUL \<notin> set t"
  by (auto simp: type_name_def NUL_def is_upper_def in_range_def byte_def)

lemma counter_set: "counter (v\<lparr>sv_counters := gm_set t n m, sv_forward := f, sv_reverse := r\<rparr>) u =
    (if u = t then n else counter (v\<lparr>sv_counters := m\<rparr>) u)"
  by (simp add: counter_def gm_get_set)

lemma PlaceholderFor_cases:
  assumes "PlaceholderFor v e = (p, v')"
  obtains (known) "gm_get (sv_forward v) (forward_key (e_type e) (e_value e)) = Some p" "v' = v"
    | (new) "gm_get (sv_forward v) (forward_key (e_type e) (e_value e)) = None"
      "p = placeholder (e_type e) (counter v (e_type e))"
      "v' = v\<lparr>sv_counters := gm_set (e_type e) (counter v (e_type e) + 1) (sv_counters v),
              sv_forward := gm_set (forward_key (e_type e) (e_value e)) p (sv_forward v),
              sv_reverse := gm_set p (e_value e) (sv_reverse v)\<rparr>"
  using assms by (auto simp: PlaceholderFor_def Let_def split: option.splits)

lemma fresh_placeholder:
  "vault_inv v \<Longrightarrow> gm_get (sv_reverse v) (placeholder t (counter v t)) = None"
  using vault_reverseD [of v "placeholder t (counter v t)"]
  by (cases "gm_get (sv_reverse v) (placeholder t (counter v t))") (auto simp: placeholder_inj)

lemma PlaceholderFor_inv:
  assumes i: "vault_inv v" and t: "type_name (e_type e)" and P: "PlaceholderFor v e = (p, v')"
  shows "vault_inv v'"
  using P
proof (cases rule: PlaceholderFor_cases)
  case new
  let ?t = "e_type e" and ?k = "forward_key (e_type e) (e_value e)"
  have fresh: "gm_get (sv_reverse v) p = None" using fresh_placeholder [OF i] new(2) by simp
  have c: "counter v' u = (if u = ?t then counter v ?t + 1 else counter v u)" for u
    unfolding new(3) counter_set by simp
  have f: "gm_get (sv_forward v') k = (if k = ?k then Some p else gm_get (sv_forward v) k)" for k
    by (simp add: new(3) gm_get_set)
  have r: "gm_get (sv_reverse v') q = (if q = p then Some (e_value e) else gm_get (sv_reverse v) q)" for q
    by (simp add: new(3) gm_get_set)
  have w: "gm_wf (sv_reverse v')" using i by (simp add: new(3) vault_inv_def)
  have fw: "\<exists>t x n. type_name t \<and> k = forward_key t x \<and> q = placeholder t n \<and> n < counter v' t \<and>
      gm_get (sv_reverse v') q = Some x" if "gm_get (sv_forward v') k = Some q" for k q
  proof (cases "k = ?k")
    case True
    then have "q = p" using that f by simp
    then show ?thesis using True t new(2) c r
      by (intro exI [of _ ?t] exI [of _ "e_value e"] exI [of _ "counter v ?t"]) simp
  next
    case False
    then have "gm_get (sv_forward v) k = Some q" using that f by simp
    from vault_forwardD [OF i this] obtain u x n where u: "type_name u" "k = forward_key u x"
        "q = placeholder u n" "n < counter v u" "gm_get (sv_reverse v) q = Some x" by blast
    then have "q \<noteq> p" using fresh by auto
    with u c r show ?thesis
      by (intro exI [of _ u] exI [of _ x] exI [of _ n]) auto
  qed
  have rv: "\<exists>t n. type_name t \<and> q = placeholder t n \<and> n < counter v' t \<and>
      gm_get (sv_forward v') (forward_key t x) = Some q" if "gm_get (sv_reverse v') q = Some x" for q x
  proof (cases "q = p")
    case True
    then have "x = e_value e" using that r by simp
    then show ?thesis using True t new(2) c f
      by (intro exI [of _ ?t] exI [of _ "counter v ?t"]) simp
  next
    case False
    then have "gm_get (sv_reverse v) q = Some x" using that r by simp
    from vault_reverseD [OF i this] obtain u n where u: "type_name u"
        "q = placeholder u n" "n < counter v u" "gm_get (sv_forward v) (forward_key u x) = Some q" by blast
    then have "forward_key u x \<noteq> ?k" using new(1) by auto
    with u c f show ?thesis
      by (intro exI [of _ u] exI [of _ n]) auto
  qed
  show ?thesis unfolding vault_inv_def using w fw rv by blast
qed (use i in simp)

text \<open>A placeholder once given out keeps resolving, and its key keeps mapping to it.\<close>

definition vault_le :: "session_vault \<Rightarrow> session_vault \<Rightarrow> bool" where
  "vault_le v w \<longleftrightarrow>
     (\<forall>k p. gm_get (sv_forward v) k = Some p \<longrightarrow> gm_get (sv_forward w) k = Some p) \<and>
     (\<forall>p x. gm_get (sv_reverse v) p = Some x \<longrightarrow> gm_get (sv_reverse w) p = Some x)"

lemma vault_le_refl [simp]: "vault_le v v"
  by (simp add: vault_le_def)

lemma vault_le_trans: "vault_le u v \<Longrightarrow> vault_le v w \<Longrightarrow> vault_le u w"
  by (simp add: vault_le_def)

lemma PlaceholderFor_le:
  assumes "vault_inv v" "PlaceholderFor v e = (p, v')"
  shows "vault_le v v'"
  using assms(2)
proof (cases rule: PlaceholderFor_cases)
  case new
  then show ?thesis
    using fresh_placeholder [OF assms(1), of "e_type e"] by (auto simp: vault_le_def gm_get_set)
qed simp

lemma PlaceholderFor_maps:
  assumes "vault_inv v" "type_name (e_type e)" "PlaceholderFor v e = (p, v')"
  shows "gm_get (sv_forward v') (forward_key (e_type e) (e_value e)) = Some p \<and>
    (\<exists>n. p = placeholder (e_type e) n) \<and> gm_get (sv_reverse v') p = Some (e_value e)"
  using assms(3)
proof (cases rule: PlaceholderFor_cases)
  case known
  from vault_forwardD [OF assms(1) known(1)] obtain t x n where
    "type_name t" "forward_key (e_type e) (e_value e) = forward_key t x" "p = placeholder t n"
    "gm_get (sv_reverse v) p = Some x" by blast
  with known assms(2) show ?thesis by (auto simp: forward_key_inj type_name_NUL)
qed (auto simp: gm_get_set)

lemma vault_forward_inj:
  assumes "vault_inv v" "gm_get (sv_forward v) k = Some p" "gm_get (sv_forward v) k' = Some p"
  shows "k = k'"
  using vault_forwardD [OF assms(1,2)] vault_forwardD [OF assms(1,3)] by (auto simp: placeholder_inj)

fun placeholders :: "session_vault \<Rightarrow> entity list \<Rightarrow> string list \<times> session_vault" where
  "placeholders v [] = ([], v)"
| "placeholders v (e # es) =
     (let (p, v) = PlaceholderFor v e; (ps, v) = placeholders v es in (p # ps, v))"

lemma placeholders_spec:
  "vault_inv v \<Longrightarrow> \<forall>e \<in> set es. type_name (e_type e) \<Longrightarrow> placeholders v es = (ps, w) \<Longrightarrow>
   vault_inv w \<and> vault_le v w \<and> length ps = length es \<and>
   (\<forall>i < length es. gm_get (sv_forward w) (forward_key (e_type (es ! i)) (e_value (es ! i))) = Some (ps ! i) \<and>
      (\<exists>n. ps ! i = placeholder (e_type (es ! i)) n) \<and> gm_get (sv_reverse w) (ps ! i) = Some (e_value (es ! i)))"
proof (induction es arbitrary: v ps)
  case (Cons e es)
  obtain p v1 where P: "PlaceholderFor v e = (p, v1)" by fastforce
  obtain qs w1 where Q: "placeholders v1 es = (qs, w1)" by fastforce
  have e: "ps = p # qs" "w1 = w" using Cons.prems(3) P Q by auto
  have t: "type_name (e_type e)" using Cons.prems(2) by simp
  have IH: "vault_inv w \<and> vault_le v1 w \<and> length qs = length es \<and>
     (\<forall>i < length es. gm_get (sv_forward w) (forward_key (e_type (es ! i)) (e_value (es ! i))) = Some (qs ! i) \<and>
      (\<exists>n. qs ! i = placeholder (e_type (es ! i)) n) \<and> gm_get (sv_reverse w) (qs ! i) = Some (e_value (es ! i)))"
    using Cons.IH [OF PlaceholderFor_inv [OF Cons.prems(1) t P]] Cons.prems(2) Q e by simp
  have "vault_le v w"
    using vault_le_trans [OF PlaceholderFor_le [OF Cons.prems(1) P]] IH by blast
  moreover have "gm_get (sv_forward w) (forward_key (e_type e) (e_value e)) = Some p \<and>
      (\<exists>n. p = placeholder (e_type e) n) \<and> gm_get (sv_reverse w) p = Some (e_value e)"
    using PlaceholderFor_maps [OF Cons.prems(1) t P] IH by (auto simp: vault_le_def)
  ultimately show ?case using IH e by (auto simp: nth_Cons split: nat.split)
qed simp

section \<open>Properties of a vault\<close>

text \<open>
  C9: The placeholders of a session are a faithful code of the values: whatever entities are
  redacted and in whatever order, every placeholder handed out still resolves to its own
  value at the end, and two entities share a placeholder exactly when they have the same type
  and the same value.
\<close>

theorem vault_roundtrip:
  assumes "placeholders (newSessionVault sid ttl now) es = (ps, v)"
    and "\<forall>e \<in> set es. type_name (e_type e)" "i < length es" "j < length es"
  shows "Vault_Resolve v (ps ! i) = Some (e_value (es ! i)) \<and>
    (ps ! i = ps ! j \<longleftrightarrow> e_type (es ! i) = e_type (es ! j) \<and> e_value (es ! i) = e_value (es ! j))"
proof -
  note sp = placeholders_spec [OF newSessionVault_inv assms(2,1)]
  have inv: "vault_inv v" using sp by blast
  have at: "gm_get (sv_forward v) (forward_key (e_type (es ! k)) (e_value (es ! k))) = Some (ps ! k)"
      "\<exists>n. ps ! k = placeholder (e_type (es ! k)) n" "gm_get (sv_reverse v) (ps ! k) = Some (e_value (es ! k))"
    if "k < length es" for k
    using sp that by simp_all
  note i = at [OF assms(3)] and j = at(1) [OF assms(4)]
  have t: "type_name (e_type (es ! i))" "type_name (e_type (es ! j))" using assms(2-4) by simp_all
  have "Vault_Resolve v (ps ! i) = Some (e_value (es ! i))"
  proof -
    obtain n where "ps ! i = placeholder (e_type (es ! i)) n" using i(2) by blast
    then have "to_upper (ps ! i) = ps ! i" using upper_type_name [OF t(1), of n] by metis
    then show ?thesis using i(3) by (simp add: Vault_Resolve_def)
  qed
  moreover have "ps ! i = ps ! j \<longleftrightarrow>
      forward_key (e_type (es ! i)) (e_value (es ! i)) = forward_key (e_type (es ! j)) (e_value (es ! j))"
  proof
    assume "ps ! i = ps ! j"
    with vault_forward_inj [OF inv i(1)] j show "forward_key (e_type (es ! i)) (e_value (es ! i)) = forward_key (e_type (es ! j)) (e_value (es ! j))"
      by simp
  next
    assume "forward_key (e_type (es ! i)) (e_value (es ! i)) = forward_key (e_type (es ! j)) (e_value (es ! j))"
    with i(1) j show "ps ! i = ps ! j" by (metis option.inject)
  qed
  ultimately show ?thesis using t by (simp add: forward_key_inj type_name_NUL)
qed

definition demo_entity :: "string \<Rightarrow> string \<Rightarrow> entity" where
  "demo_entity t x = \<lparr>e_type = t, e_value = x, e_start = 0, e_end = 1, e_conf = 1, e_det = ''d''\<rparr>"

theorem vault_roundtrip_witness:
  "let (ps, v) = placeholders (newSessionVault ''s'' 10 0)
         [demo_entity ''PHONE'' ''138'', demo_entity ''NAME'' ''138'', demo_entity ''PHONE'' ''138''] in
   Vault_Resolve v (ps ! 1) = Some ''138'' \<and> ps ! 0 = ps ! 2 \<and> ps ! 0 \<noteq> ps ! 1"
proof -
  let ?es = "[demo_entity ''PHONE'' ''138'', demo_entity ''NAME'' ''138'', demo_entity ''PHONE'' ''138'']"
  obtain ps v where P: "placeholders (newSessionVault ''s'' 10 0) ?es = (ps, v)" by fastforce
  have t: "\<forall>e \<in> set ?es. type_name (e_type e)"
    by (simp add: demo_entity_def type_name_def is_upper_def in_range_def byte_def)
  show ?thesis
    using P vault_roundtrip [OF P t, of 1 0] vault_roundtrip [OF P t, of 0 2] vault_roundtrip [OF P t, of 0 1]
    by (simp add: demo_entity_def)
qed

lemma leak_loop_spec:
  "set (leak_loop ps payload seen) =
     {t. \<exists>p x. (p, x) \<in> set ps \<and> x \<noteq> [] \<and> contains payload x \<and> typeFromPlaceholder p = Some t} - set seen \<and>
   distinct (leak_loop ps payload seen)"
proof (induction ps arbitrary: seen)
  case (Cons q ps)
  obtain p x where q: "q = (p, x)" by (cases q)
  show ?case
  proof (cases "x = [] \<or> \<not> contains payload x")
    case True
    then show ?thesis using Cons.IH [of seen] q by auto
  next
    case False
    then show ?thesis
      using Cons.IH [of seen] Cons.IH [of "the (typeFromPlaceholder p) # seen"] q
      by (cases "typeFromPlaceholder p") auto
  qed
qed simp

text \<open>The final leak scan is exact: on a vault in its invariant it reports, each once, the
  types of the registered non-empty values that occur in the payload, so it reports nothing
  exactly when the payload contains none of them.\<close>

theorem ScanLeak_exact:
  assumes "vault_inv v"
  shows "set (ScanLeak v payload) =
      {t. \<exists>x. x \<noteq> [] \<and> contains payload x \<and> gm_get (sv_forward v) (forward_key t x) \<noteq> None \<and> type_name t} \<and>
    distinct (ScanLeak v payload) \<and>
    (ScanLeak v payload = [] \<longleftrightarrow> (\<forall>p x. gm_get (sv_reverse v) p = Some x \<and> x \<noteq> [] \<longrightarrow> \<not> contains payload x))"
proof -
  have m: "(p, x) \<in> set (sv_reverse v) \<longleftrightarrow> gm_get (sv_reverse v) p = Some x" for p x
    using assms by (auto simp: vault_inv_def gm_wf_def)
  have ty: "gm_get (sv_reverse v) p = Some x \<Longrightarrow> \<exists>t. typeFromPlaceholder p = Some t \<and> type_name t \<and>
      gm_get (sv_forward v) (forward_key t x) = Some p" for p x
    using vault_reverseD [OF assms] by (fastforce simp: type_of_placeholder type_name_def)
  have bwd: "\<exists>p. gm_get (sv_reverse v) p = Some x \<and> typeFromPlaceholder p = Some t"
    if "gm_get (sv_forward v) (forward_key t x) = Some p" "type_name t" for t x p
  proof -
    from vault_forwardD [OF assms that(1)] obtain u y n where
      "type_name u" "forward_key t x = forward_key u y" "p = placeholder u n" "gm_get (sv_reverse v) p = Some y" by blast
    then show ?thesis using that(2) by (auto simp: forward_key_inj type_name_NUL type_of_placeholder type_name_def)
  qed
  have S: "set (ScanLeak v payload) =
      {t. \<exists>p x. gm_get (sv_reverse v) p = Some x \<and> x \<noteq> [] \<and> contains payload x \<and> typeFromPlaceholder p = Some t}"
    using leak_loop_spec [of "sv_reverse v" payload "[]"] by (simp add: ScanLeak_def m)
  have "set (ScanLeak v payload) =
      {t. \<exists>x. x \<noteq> [] \<and> contains payload x \<and> gm_get (sv_forward v) (forward_key t x) \<noteq> None \<and> type_name t}"
  proof (intro set_eqI iffI)
    fix t assume "t \<in> set (ScanLeak v payload)"
    then obtain p x where "gm_get (sv_reverse v) p = Some x" "x \<noteq> []" "contains payload x"
        "typeFromPlaceholder p = Some t" unfolding S by blast
    with ty [of p x] show "t \<in> {t. \<exists>x. x \<noteq> [] \<and> contains payload x \<and>
        gm_get (sv_forward v) (forward_key t x) \<noteq> None \<and> type_name t}" by auto
  next
    fix t assume "t \<in> {t. \<exists>x. x \<noteq> [] \<and> contains payload x \<and>
        gm_get (sv_forward v) (forward_key t x) \<noteq> None \<and> type_name t}"
    with bwd show "t \<in> set (ScanLeak v payload)" unfolding S by blast
  qed
  moreover have "ScanLeak v payload = [] \<longleftrightarrow> set (ScanLeak v payload) = {}" by simp
  moreover have "\<dots> \<longleftrightarrow> (\<forall>p x. gm_get (sv_reverse v) p = Some x \<and> x \<noteq> [] \<longrightarrow> \<not> contains payload x)"
    unfolding S using ty by fastforce
  ultimately show ?thesis
    using leak_loop_spec [of "sv_reverse v" payload "[]"] by (simp add: ScanLeak_def)
qed

theorem ScanLeak_exact_witness:
  "let v = snd (PlaceholderFor (newSessionVault ''s'' 10 0) (demo_entity ''PHONE'' ''138'')) in
   ScanLeak v ''call 138'' = [''PHONE''] \<and> ScanLeak v ''call ANONYMIZED_PHONE_0'' = []"
proof -
  let ?e = "demo_entity ''PHONE'' ''138''"
  obtain p v where P: "PlaceholderFor (newSessionVault ''s'' 10 0) ?e = (p, v)" by fastforce
  have t: "type_name (e_type ?e)"
    by (simp add: demo_entity_def type_name_def is_upper_def in_range_def byte_def)
  have i: "vault_inv v" by (rule PlaceholderFor_inv [OF newSessionVault_inv t P])
  have v: "sv_reverse v = [(placeholder ''PHONE'' 0, ''138'')]"
    using P by (auto simp: PlaceholderFor_def newSessionVault_def demo_entity_def counter_def Let_def)
  have c: "contains ''call 138'' ''138''" "\<not> contains ''call ANONYMIZED_PHONE_0'' ''138''" by code_simp+
  have "ScanLeak v ''call ANONYMIZED_PHONE_0'' = []"
    using ScanLeak_exact [OF i, of "''call ANONYMIZED_PHONE_0''"] v c by (simp split: if_splits)
  moreover have "ScanLeak v ''call 138'' = [''PHONE'']"
    using v c by (simp add: ScanLeak_def type_of_placeholder)
  ultimately show ?thesis using P by (simp add: Let_def)
qed

text \<open>The handler scans the encoded JSON body, where a value with a quote looks different.\<close>

lemma ScanLeak_misses_escaped:
  "ScanLeak (snd (PlaceholderFor (newSessionVault ''s'' 10 0) (demo_entity ''NAME'' [CHR ''a'', CHR 0x22, CHR ''b''])))
     [CHR 0x22, CHR ''a'', CHR 0x5C, CHR 0x22, CHR ''b'', CHR 0x22] = []"
  by code_simp

section \<open>Erasure in the registry\<close>

definition purge_blind :: "(string \<Rightarrow> session_vault \<Rightarrow> bool) \<Rightarrow> bool" where
  "purge_blind P \<longleftrightarrow> (\<forall>k v. P k (Vault_Purge v) = P k v)"

lemma Vault_Purge_twice [simp]: "Vault_Purge (Vault_Purge v) = Vault_Purge v"
  by (simp add: Vault_Purge_def)

lemma Vault_Purge_fields [simp]:
  "sv_id (Vault_Purge v) = sv_id v" "sv_ttl (Vault_Purge v) = sv_ttl v" "sv_created (Vault_Purge v) = sv_created v"
  by (simp_all add: Vault_Purge_def)

lemma vault_at_purge [simp]:
  "vault_at (purge_at a r) b = (if b = a then Vault_Purge (vault_at r a) else vault_at r b)"
  by (simp add: vault_at_def purge_at_def gm_get_set)

lemma vault_at_set_shard [simp]: "vault_at (set_shard i m r) b = vault_at r b"
  by (simp add: vault_at_def set_shard_def)

lemma purge_at_fields [simp]:
  "vr_shards (purge_at a r) = vr_shards r" "vr_next (purge_at a r) = vr_next r"
  "vr_ttl (purge_at a r) = vr_ttl r" "vr_max (purge_at a r) = vr_max r"
  by (simp_all add: purge_at_def)

lemma set_shard_fields [simp]:
  "vr_shards (set_shard i m r) = (vr_shards r)[i := m]" "vr_next (set_shard i m r) = vr_next r"
  "vr_ttl (set_shard i m r) = vr_ttl r" "vr_max (set_shard i m r) = vr_max r"
  by (simp_all add: set_shard_def)

definition doomed :: "(string \<Rightarrow> session_vault \<Rightarrow> bool) \<Rightarrow> vault_registry \<Rightarrow> string \<times> nat \<Rightarrow> bool" where
  "doomed P r q \<longleftrightarrow> P (fst q) (vault_at r (snd q))"

lemma doomed_purge [simp]: "purge_blind P \<Longrightarrow> doomed P (purge_at a r) q = doomed P r q"
  by (simp add: doomed_def purge_blind_def)

lemma doomed_set_shard [simp]: "doomed P (set_shard i m r) q = doomed P r q"
  by (simp add: doomed_def)

text \<open>What an erasure over a list of entries leaves of shard i.\<close>

definition erased ::
    "(string \<Rightarrow> session_vault \<Rightarrow> bool) \<Rightarrow> (string \<times> nat) set \<Rightarrow> vault_registry \<Rightarrow> nat \<Rightarrow> vault_registry \<Rightarrow> bool" where
  "erased P E r i r' \<longleftrightarrow>
     vr_shards r' = (vr_shards r)[i := filter (\<lambda>q. fst q \<notin> fst ` {q \<in> E. doomed P r q}) (vr_shards r ! i)] \<and>
     (\<forall>a. vault_at r' a = (if a \<in> snd ` {q \<in> E. doomed P r q} then Vault_Purge (vault_at r a) else vault_at r a)) \<and>
     vr_next r' = vr_next r \<and> vr_ttl r' = vr_ttl r \<and> vr_max r' = vr_max r"

lemma gm_del_filter: "gm_del k m = filter (\<lambda>q. fst q \<noteq> k) m"
  by (induction m) auto

lemma erase_loop_spec:
  "purge_blind P \<Longrightarrow> i < length (vr_shards r) \<Longrightarrow> erase_loop P es i r = (n, r') \<Longrightarrow>
   n = length (filter (doomed P r) es) \<and> erased P (set es) r i r'"
proof (induction es arbitrary: r r' n)
  case Nil
  then show ?case by (auto simp: erased_def)
next
  case (Cons q es)
  obtain k a where q: "q = (k, a)" by (cases q)
  show ?case
  proof (cases "doomed P r q")
    case True
    let ?r = "set_shard i (gm_del k (vr_shards r ! i)) (purge_at a r)"
    obtain m r1 where E: "erase_loop P es i ?r = (m, r1)" by fastforce
    then have n: "n = Suc m" "r1 = r'" using Cons.prems(3) q True by (auto simp: doomed_def Let_def)
    have d: "doomed P ?r = doomed P r" using Cons.prems(1) by (simp add: fun_eq_iff)
    have IH: "m = length (filter (doomed P r) es)" "erased P (set es) ?r i r'"
      using Cons.IH [OF Cons.prems(1) _ E] Cons.prems(2) d n by auto
    define S where "S = {p \<in> set es. doomed P r p}"
    have S: "{p \<in> set (q # es). doomed P r p} = insert q S" using True by (auto simp: S_def)
    note I = IH(2) [unfolded erased_def d, folded S_def]
    have "filter (\<lambda>p. fst p \<notin> fst ` S) (gm_del k (vr_shards r ! i)) =
        filter (\<lambda>p. fst p \<notin> fst ` insert q S) (vr_shards r ! i)"
      by (simp add: gm_del_filter q)
    then show ?thesis
      using I IH(1) n True Cons.prems(2) q unfolding erased_def S by auto
  next
    case False
    then have "erase_loop P es i r = (n, r')" using Cons.prems(3) q by (simp add: doomed_def)
    moreover have "{p \<in> set (q # es). doomed P r p} = {p \<in> set es. doomed P r p}" using False by auto
    ultimately show ?thesis
      using Cons.IH [OF Cons.prems(1,2)] False by (simp add: erased_def)
  qed
qed

text \<open>The same over all shards: what survives, what is purged, how many went.\<close>

definition survivors :: "(string \<Rightarrow> session_vault \<Rightarrow> bool) \<Rightarrow> vault_registry \<Rightarrow> (string \<times> nat) list \<Rightarrow> (string \<times> nat) list" where
  "survivors P r m = filter (\<lambda>q. \<not> doomed P r q) m"

definition swept_shards ::
    "(string \<Rightarrow> session_vault \<Rightarrow> bool) \<Rightarrow> nat set \<Rightarrow> vault_registry \<Rightarrow> vault_registry \<Rightarrow> bool" where
  "swept_shards P A r r' \<longleftrightarrow>
     vr_shards r' = map (\<lambda>i. if i \<in> A then survivors P r (vr_shards r ! i) else vr_shards r ! i) [0..<length (vr_shards r)] \<and>
     (\<forall>a. vault_at r' a = (if a \<in> snd ` {q. \<exists>i \<in> A. q \<in> set (vr_shards r ! i) \<and> doomed P r q}
                           then Vault_Purge (vault_at r a) else vault_at r a)) \<and>
     vr_next r' = vr_next r \<and> vr_ttl r' = vr_ttl r \<and> vr_max r' = vr_max r"

lemma erase_shard_spec:
  assumes "purge_blind P" "i < length (vr_shards r)" "gm_wf (vr_shards r ! i)" "erase_shard P i r = (n, r')"
  shows "n = length (filter (doomed P r) (vr_shards r ! i)) \<and> swept_shards P {i} r r'"
proof -
  have E: "n = length (filter (doomed P r) (vr_shards r ! i))" "erased P (set (vr_shards r ! i)) r i r'"
    using erase_loop_spec [OF assms(1,2) assms(4) [unfolded erase_shard_def]] by simp_all
  have "q \<in> set (vr_shards r ! i) \<Longrightarrow>
      fst q \<notin> fst ` {q \<in> set (vr_shards r ! i). doomed P r q} \<longleftrightarrow> \<not> doomed P r q" for q
    using assms(3) by (force simp: gm_wf_def distinct_map inj_on_def)
  then have "filter (\<lambda>q. fst q \<notin> fst ` {q \<in> set (vr_shards r ! i). doomed P r q}) (vr_shards r ! i) =
      survivors P r (vr_shards r ! i)"
    unfolding survivors_def by (intro filter_cong) simp_all
  then have "vr_shards r' = (vr_shards r)[i := survivors P r (vr_shards r ! i)]"
    using E(2) by (simp add: erased_def)
  then have "vr_shards r' = map (\<lambda>j. if j \<in> {i} then survivors P r (vr_shards r ! j) else vr_shards r ! j)
      [0..<length (vr_shards r)]"
    by (auto intro!: nth_equalityI simp: nth_list_update)
  with E show ?thesis by (simp add: swept_shards_def erased_def)
qed

lemma swept_doomed:
  assumes "purge_blind P" "swept_shards P A r r'"
  shows "doomed P r' q = doomed P r q"
  using assms by (auto simp: doomed_def swept_shards_def purge_blind_def)

lemma swept_step:
  assumes b: "purge_blind P" and A: "swept_shards P A r r1" and B: "swept_shards P {i} r1 r2" and i: "i \<notin> A" "i < length (vr_shards r)"
  shows "swept_shards P (insert i A) r r2"
proof -
  note d = swept_doomed [OF b A]
  have l: "length (vr_shards r1) = length (vr_shards r)" using A by (simp add: swept_shards_def)
  have s1: "j < length (vr_shards r) \<Longrightarrow>
      vr_shards r1 ! j = (if j \<in> A then survivors P r (vr_shards r ! j) else vr_shards r ! j)" for j
    using A by (simp add: swept_shards_def)
  have sv: "survivors P r1 m = survivors P r m" for m by (simp add: survivors_def d)
  have "vr_shards r2 = map (\<lambda>j. if j \<in> insert i A then survivors P r (vr_shards r ! j) else vr_shards r ! j)
      [0..<length (vr_shards r)]"
    using B i s1 by (auto simp: swept_shards_def l sv intro!: nth_equalityI)
  moreover have "vault_at r2 a =
      (if a \<in> snd ` {q. \<exists>j \<in> insert i A. q \<in> set (vr_shards r ! j) \<and> doomed P r q}
       then Vault_Purge (vault_at r a) else vault_at r a)" for a
  proof -
    have "snd ` {q. \<exists>j \<in> insert i A. q \<in> set (vr_shards r ! j) \<and> doomed P r q} =
        snd ` {q. \<exists>j \<in> A. q \<in> set (vr_shards r ! j) \<and> doomed P r q} \<union>
        snd ` {q. \<exists>j \<in> {i}. q \<in> set (vr_shards r1 ! j) \<and> doomed P r1 q}"
      using s1 [OF i(2)] i(1) d by auto
    then show ?thesis using A B by (simp add: swept_shards_def)
  qed
  ultimately show ?thesis using A B by (simp add: swept_shards_def)
qed

lemma erase_all_spec:
  assumes b: "purge_blind P" and l: "length (vr_shards r) = vaultShards"
    and w: "\<forall>m \<in> set (vr_shards r). gm_wf m" and E: "erase_all P r = (n, r')"
  shows "swept_shards P {..<vaultShards} r r' \<and> n = sum_list (map (\<lambda>m. length (filter (doomed P r) m)) (vr_shards r))"
proof -
  let ?f = "\<lambda>i (n, r). let (m, r) = erase_shard P i r in (n + m, r)"
  have "\<forall>n r'. fold ?f [0..<k] (0, r) = (n, r') \<longrightarrow>
      swept_shards P {..<k} r r' \<and> n = sum_list (map (\<lambda>m. length (filter (doomed P r) m)) (take k (vr_shards r)))"
    if "k \<le> vaultShards" for k
    using that
  proof (induction k)
    case 0
    show ?case by (auto simp: swept_shards_def map_nth)
  next
    case (Suc k)
    obtain n1 r1 where F: "fold ?f [0..<k] (0, r) = (n1, r1)" by fastforce
    have A: "swept_shards P {..<k} r r1"
      and n1: "n1 = sum_list (map (\<lambda>m. length (filter (doomed P r) m)) (take k (vr_shards r)))"
      using Suc F by auto
    have k: "k < length (vr_shards r)" using Suc.prems l by simp
    then have s: "vr_shards r1 ! k = vr_shards r ! k" "k < length (vr_shards r1)" using A by (simp_all add: swept_shards_def)
    obtain m r2 where M: "erase_shard P k r1 = (m, r2)" by fastforce
    have B: "m = length (filter (doomed P r1) (vr_shards r1 ! k))" "swept_shards P {k} r1 r2"
      using erase_shard_spec [OF b s(2) _ M] w k by (simp_all add: s)
    have "swept_shards P (insert k {..<k}) r r2" by (rule swept_step [OF b A B(2)]) (use k in simp_all)
    moreover have "doomed P r1 = doomed P r" using swept_doomed [OF b A] by (simp add: fun_eq_iff)
    ultimately show ?case
      using F M n1 B(1) s(1) k by (auto simp: lessThan_Suc take_Suc_conv_app_nth)
  qed
  from this [of vaultShards] E l show ?thesis by (simp add: erase_all_def)
qed

section \<open>The invariant of the registry\<close>

definition reg_inv :: "vault_registry \<Rightarrow> bool" where
  "reg_inv r \<longleftrightarrow> length (vr_shards r) = vaultShards \<and> 1 \<le> vr_max r \<and>
     (\<forall>i < vaultShards. gm_wf (vr_shards r ! i) \<and> int (length (vr_shards r ! i)) \<le> vr_max r \<and>
        (\<forall>(k, a) \<in> set (vr_shards r ! i). shardFor k = i \<and> a < vr_next r \<and> sv_id (vault_at r a) = k \<and>
           (\<exists>ref. ref_Validate ref = None \<and> k = ref_key ref)))"

definition lookup :: "vault_registry \<Rightarrow> session_ref \<Rightarrow> nat option" where
  "lookup r ref = gm_get (vr_shards r ! shardFor (ref_key ref)) (ref_key ref)"

lemma shardFor_less [simp]: "shardFor k < vaultShards"
  by (simp add: shardFor_def vaultShards_def)

lemma reg_invD:
  assumes "reg_inv r" "i < vaultShards"
  shows "gm_wf (vr_shards r ! i)" "int (length (vr_shards r ! i)) \<le> vr_max r"
    "(k, a) \<in> set (vr_shards r ! i) \<Longrightarrow> shardFor k = i \<and> a < vr_next r \<and> sv_id (vault_at r a) = k \<and>
       (\<exists>ref. ref_Validate ref = None \<and> k = ref_key ref)"
  using assms by (auto simp: reg_inv_def)

lemma reg_invI:
  assumes "length (vr_shards r) = vaultShards" "1 \<le> vr_max r"
    and "\<And>i. i < vaultShards \<Longrightarrow> gm_wf (vr_shards r ! i) \<and> int (length (vr_shards r ! i)) \<le> vr_max r"
    and "\<And>i k a. i < vaultShards \<Longrightarrow> (k, a) \<in> set (vr_shards r ! i) \<Longrightarrow>
       shardFor k = i \<and> a < vr_next r \<and> sv_id (vault_at r a) = k \<and> (\<exists>ref. ref_Validate ref = None \<and> k = ref_key ref)"
  shows "reg_inv r"
  using assms by (auto simp: reg_inv_def)

lemma lookup_mem: "lookup r ref = Some a \<Longrightarrow> (ref_key ref, a) \<in> set (vr_shards r ! shardFor (ref_key ref))"
  by (simp add: lookup_def map_of_SomeD)

lemma NewVaultRegistry_inv: "reg_inv (NewVaultRegistry ttl n)"
  by (rule reg_invI) (auto simp: NewVaultRegistry_def Let_def pos_imp_zdiv_nonneg_iff vaultShards_def)

lemma swept_shard:
  "swept_shards P A r r' \<Longrightarrow> i < length (vr_shards r) \<Longrightarrow>
   vr_shards r' ! i = (if i \<in> A then survivors P r (vr_shards r ! i) else vr_shards r ! i)"
  by (simp add: swept_shards_def)

lemma survivors_sub: "set (survivors P r m) \<subseteq> set m" "length (survivors P r m) \<le> length m"
  by (auto simp: survivors_def)

lemma survivors_wf: "gm_wf m \<Longrightarrow> gm_wf (survivors P r m)"
  by (simp add: survivors_def)

lemma swept_id: "swept_shards P A r r' \<Longrightarrow> sv_id (vault_at r' a) = sv_id (vault_at r a)"
  by (simp add: swept_shards_def)

lemma swept_inv:
  assumes S: "swept_shards P A r r'" and i: "reg_inv r"
  shows "reg_inv r'"
proof (rule reg_invI)
  have l: "length (vr_shards r) = vaultShards" using i by (simp add: reg_inv_def)
  show "length (vr_shards r') = vaultShards" "1 \<le> vr_max r'"
    using S i by (simp_all add: swept_shards_def reg_inv_def)
  show "gm_wf (vr_shards r' ! j) \<and> int (length (vr_shards r' ! j)) \<le> vr_max r'" if "j < vaultShards" for j
  proof -
    have "int (length (survivors P r (vr_shards r ! j))) \<le> int (length (vr_shards r ! j))"
      using survivors_sub(2) [where P = P] by (simp only: of_nat_le_iff)
    moreover have "vr_max r' = vr_max r" using S by (simp add: swept_shards_def)
    ultimately show ?thesis
      using swept_shard [OF S, of j] that l reg_invD(1,2) [OF i that] survivors_wf by auto
  qed
  show "shardFor k = j \<and> a < vr_next r' \<and> sv_id (vault_at r' a) = k \<and> (\<exists>ref. ref_Validate ref = None \<and> k = ref_key ref)"
    if "j < vaultShards" "(k, a) \<in> set (vr_shards r' ! j)" for j k a
  proof -
    have "(k, a) \<in> set (vr_shards r ! j)"
      using that swept_shard [OF S, of j] l by (auto simp: survivors_def split: if_splits)
    from reg_invD(3) [OF i that(1) this] swept_id [OF S, of a] S show ?thesis by (simp add: swept_shards_def)
  qed
qed

lemma blind_simps [simp]:
  "purge_blind (\<lambda>k v. True)" "purge_blind (\<lambda>k v. Q k)" "purge_blind (\<lambda>k v. Vault_Expired v now)"
  by (simp_all add: purge_blind_def Vault_Expired_def)

lemma erase_all_swept:
  assumes "reg_inv r" "purge_blind P" "erase_all P r = (n, r')"
  shows "swept_shards P {..<vaultShards} r r'"
    and "n = sum_list (map (\<lambda>m. length (filter (doomed P r) m)) (vr_shards r))"
proof -
  have "length (vr_shards r) = vaultShards" "\<forall>m \<in> set (vr_shards r). gm_wf m"
    using assms(1) by (auto simp: reg_inv_def in_set_conv_nth)
  from erase_all_spec [OF assms(2) this assms(3)]
  show "swept_shards P {..<vaultShards} r r'" "n = sum_list (map (\<lambda>m. length (filter (doomed P r) m)) (vr_shards r))"
    by simp_all
qed

lemma erase_one_swept:
  assumes "reg_inv r" "purge_blind P" "i < vaultShards"
  shows "swept_shards P {i} r (snd (erase_shard P i r))"
proof -
  have "i < length (vr_shards r)" using assms by (simp add: reg_inv_def)
  from conjunct2 [OF erase_shard_spec [OF assms(2) this reg_invD(1) [OF assms(1,3)] prod.collapse [symmetric]]]
  show ?thesis .
qed

lemma delete_inv:
  assumes i: "reg_inv r"
  shows "reg_inv (set_shard (shardFor key) (gm_del key (vr_shards r ! shardFor key)) (purge_at a r))" (is "reg_inv ?r")
proof (rule reg_invI)
  have l: "length (vr_shards r) = vaultShards" using i by (simp add: reg_inv_def)
  show "length (vr_shards ?r) = vaultShards" "1 \<le> vr_max ?r" using i by (simp_all add: reg_inv_def)
  have s: "vr_shards ?r ! j = (if j = shardFor key then gm_del key (vr_shards r ! j) else vr_shards r ! j)" for j
    using l by (simp add: nth_list_update)
  have le: "int (length (gm_del key m)) \<le> int (length m)" for m :: "(string \<times> nat) list"
    by (simp add: gm_del_filter)
  show "gm_wf (vr_shards ?r ! j) \<and> int (length (vr_shards ?r ! j)) \<le> vr_max ?r" if "j < vaultShards" for j
    using reg_invD(1,2) [OF i that] s le [of "vr_shards r ! j"] by auto
  show "shardFor k = j \<and> b < vr_next ?r \<and> sv_id (vault_at ?r b) = k \<and> (\<exists>ref. ref_Validate ref = None \<and> k = ref_key ref)"
    if "j < vaultShards" "(k, b) \<in> set (vr_shards ?r ! j)" for j k b
    using that s reg_invD(3) [OF i that(1), of k b] by (auto simp: gm_del_mem split: if_splits)
qed

lemma get_fresh_inv:
  assumes i: "reg_inv r" and v: "ref_Validate ref = None"
    and g: "get_fresh r (ref_key ref) (shardFor (ref_key ref)) now = (res, r')"
  shows "reg_inv r' \<and> (\<forall>a. res = Inr a \<longrightarrow> lookup r' ref = Some a \<and> vault_at r' a = newSessionVault (ref_key ref) (vr_ttl r) now)"
proof -
  let ?k = "ref_key ref" and ?i = "shardFor (ref_key ref)"
  let ?r = "collectExpiredLocked ?i now r"
  have S: "swept_shards (\<lambda>k v. Vault_Expired v now) {?i} r ?r"
    unfolding collectExpiredLocked_def by (rule erase_one_swept [OF i]) simp_all
  have i1: "reg_inv ?r" and ttl: "vr_ttl ?r = vr_ttl r" using swept_inv [OF S i] S by (simp_all add: swept_shards_def)
  show ?thesis
  proof (cases "int (length (vr_shards ?r ! ?i)) \<ge> vr_max ?r")
    case True
    then show ?thesis using g i1 by (auto simp: get_fresh_def Let_def)
  next
    case False
    let ?v = "newSessionVault ?k (vr_ttl r) now"
    let ?r2 = "?r\<lparr>vr_store := gm_set (vr_next ?r) ?v (vr_store ?r), vr_next := vr_next ?r + 1\<rparr>"
    have res: "res = Inr (vr_next ?r)" "r' = set_shard ?i (gm_set ?k (vr_next ?r) (vr_shards ?r ! ?i)) ?r2"
      using g False ttl by (simp_all add: get_fresh_def Let_def)
    have va: "vault_at r' a = (if a = vr_next ?r then ?v else vault_at ?r a)" for a
      by (simp add: res(2)) (simp add: vault_at_def gm_get_set)
    have l: "length (vr_shards ?r) = vaultShards" using i1 by (simp add: reg_inv_def)
    have s: "vr_shards r' ! j = (if j = ?i then gm_set ?k (vr_next ?r) (vr_shards ?r ! ?i) else vr_shards ?r ! j)" for j
      using l by (simp add: res(2) nth_list_update)
    have lk: "lookup r' ref = Some (vr_next ?r)" by (simp add: lookup_def s gm_get_set)
    have le: "length (gm_set ?k a m) \<le> length m + 1" for a and m :: "(string \<times> nat) list"
      by (induction m) auto
    have "reg_inv r'"
    proof (rule reg_invI)
      show "length (vr_shards r') = vaultShards" "1 \<le> vr_max r'" using l i1 by (simp_all add: res(2) reg_inv_def)
      have mx: "vr_max r' = vr_max ?r" by (simp add: res(2))
      have "int (length (gm_set ?k (vr_next ?r) (vr_shards ?r ! ?i))) \<le> vr_max ?r"
        using le [of "vr_next ?r" "vr_shards ?r ! ?i"] False by linarith
      then show "gm_wf (vr_shards r' ! j) \<and> int (length (vr_shards r' ! j)) \<le> vr_max r'" if "j < vaultShards" for j
        using reg_invD(1,2) [OF i1 that] s [of j] mx by auto
      show "shardFor k = j \<and> a < vr_next r' \<and> sv_id (vault_at r' a) = k \<and> (\<exists>ref. ref_Validate ref = None \<and> k = ref_key ref)"
        if j: "j < vaultShards" and m: "(k, a) \<in> set (vr_shards r' ! j)" for j k a
      proof (cases "j = ?i \<and> (k, a) = (?k, vr_next ?r)")
        case True
        then show ?thesis using v va by (auto simp: res(2) newSessionVault_def)
      next
        case False
        then have "(k, a) \<in> set (vr_shards ?r ! j)"
          using m s [of j] gm_set_subset [of ?k "vr_next ?r" "vr_shards ?r ! ?i"] by (auto split: if_splits)
        from reg_invD(3) [OF i1 j this] show ?thesis using va by (auto simp: res(2))
      qed
    qed
    then show ?thesis using res(1) lk va by simp
  qed
qed

lemma vaults_Get_inv:
  assumes i: "reg_inv r" and g: "vaults_Get r ref now = (res, r')"
  shows "reg_inv r' \<and> (\<forall>a. res = Inr a \<longrightarrow> ref_Validate ref = None \<and> lookup r' ref = Some a \<and> (r' = r \<and> lookup r ref = Some a \<or>
    vault_at r' a = newSessionVault (ref_key ref) (vr_ttl r) now))"
proof (cases "ref_Validate ref")
  case None
  let ?k = "ref_key ref" and ?i = "shardFor (ref_key ref)"
  show ?thesis
  proof (cases "gm_get (vr_shards r ! ?i) ?k")
    case n: None
    then have "get_fresh r ?k ?i now = (res, r')" using g None by (simp add: vaults_Get_def Let_def)
    from get_fresh_inv [OF i None this] None show ?thesis by auto
  next
    case (Some a)
    show ?thesis
    proof (cases "Vault_Expired (vault_at r a) now")
      case True
      let ?r = "set_shard ?i (gm_del ?k (vr_shards r ! ?i)) (purge_at a r)"
      have "get_fresh ?r ?k ?i now = (res, r')" using g None Some True by (simp add: vaults_Get_def Let_def)
      from get_fresh_inv [OF delete_inv [OF i] None this] None show ?thesis by auto
    next
      case False
      then show ?thesis using g None Some i by (auto simp: vaults_Get_def Let_def lookup_def)
    qed
  qed
next
  case (Some e)
  then show ?thesis using g i by (auto simp: vaults_Get_def)
qed

lemma vaults_Drop_inv: "reg_inv r \<Longrightarrow> reg_inv (vaults_Drop r ref)"
  by (simp add: vaults_Drop_def Let_def delete_inv split: option.split)

lemma sv_id_PlaceholderFor: "sv_id (snd (PlaceholderFor v e)) = sv_id v"
  by (simp add: PlaceholderFor_def Let_def split: option.split)

lemma vaults_PlaceholderFor_inv:
  assumes "reg_inv r" shows "reg_inv (snd (vaults_PlaceholderFor r a e))"
proof -
  have "sv_id (vault_at (snd (vaults_PlaceholderFor r a e)) b) = sv_id (vault_at r b)" for b
    using sv_id_PlaceholderFor [of "vault_at r a" e]
    by (auto simp: vaults_PlaceholderFor_def Let_def case_prod_unfold vault_at_def gm_get_set)
  then show ?thesis using assms by (simp add: reg_inv_def vaults_PlaceholderFor_def case_prod_unfold Let_def)
qed

inductive reg_reach :: "vault_registry \<Rightarrow> bool" where
  rr_new: "reg_reach (NewVaultRegistry ttl n)"
| rr_get: "reg_reach r \<Longrightarrow> reg_reach (snd (vaults_Get r ref now))"
| rr_drop: "reg_reach r \<Longrightarrow> reg_reach (vaults_Drop r ref)"
| rr_purge: "reg_reach r \<Longrightarrow> reg_reach (PurgeAll r)"
| rr_tenant: "reg_reach r \<Longrightarrow> reg_reach (snd (PurgeTenant r t))"
| rr_janitor: "reg_reach r \<Longrightarrow> reg_reach (vault_janitor r now)"
| rr_use: "reg_reach r \<Longrightarrow> reg_reach (snd (vaults_PlaceholderFor r a e))"

lemma erase_all_inv: "reg_inv r \<Longrightarrow> purge_blind P \<Longrightarrow> reg_inv (snd (erase_all P r))"
  by (metis erase_all_swept(1) swept_inv prod.collapse)

lemma reach_inv: "reg_reach r \<Longrightarrow> reg_inv r"
proof (induction rule: reg_reach.induct)
  case (rr_get r ref now)
  then show ?case using vaults_Get_inv [of r ref now] by (metis prod.collapse)
next
  case (rr_tenant r t)
  have "reg_inv (snd (erase_all (\<lambda>k v. has_prefix k (t @ [NUL])) r))"
    by (rule erase_all_inv [OF rr_tenant.IH]) simp
  then show ?case using rr_tenant.IH by (auto simp: PurgeTenant_def case_prod_unfold Let_def)
qed (auto simp: PurgeAll_def vault_janitor_def NewVaultRegistry_inv vaults_Drop_inv vaults_PlaceholderFor_inv
    erase_all_inv)

lemma tenant_NUL: "ValidateTenant t \<Longrightarrow> NUL \<notin> set t"
  by (auto simp: ValidateTenant_def alnum_def NUL_def is_digit_def is_upper_def is_lower_def in_range_def byte_def
      split: list.splits)

lemma ref_key_inj:
  "ref_Validate a = None \<Longrightarrow> ref_Validate b = None \<Longrightarrow> ref_key a = ref_key b \<longleftrightarrow> a = b"
  using forward_key_inj [of "sr_tenant a" "sr_tenant b" "sr_session a" "sr_session b"]
  by (auto simp: ref_key_def forward_key_def ref_Validate_def tenant_NUL split: if_splits)

lemma lookup_id: "reg_inv r \<Longrightarrow> lookup r ref = Some a \<Longrightarrow> sv_id (vault_at r a) = ref_key ref"
  using reg_invD(3) [OF _ shardFor_less lookup_mem] by blast

section \<open>Properties of the registry\<close>

text \<open>
  C10: Sessions are isolated: in every reachable registry Get hands out the vault filed under
  that tenant and session and under no other, and a vault it had to create or replace starts
  empty. Two tenants using the same session identifier never share a vault.
\<close>

theorem sessions_isolated:
  assumes "reg_reach r" "vaults_Get r ref now = (Inr a, r')"
  shows "lookup r' ref = Some a \<and>
    (\<forall>other. ref_Validate other = None \<and> other \<noteq> ref \<longrightarrow> lookup r' other \<noteq> Some a) \<and>
    (lookup r ref \<noteq> Some a \<or> Vault_Expired (vault_at r a) now \<longrightarrow> sv_reverse (vault_at r' a) = [])"
proof -
  have i: "reg_inv r" by (rule reach_inv [OF assms(1)])
  note G = vaults_Get_inv [OF i assms(2)]
  have g: "reg_inv r'" "ref_Validate ref = None" "lookup r' ref = Some a" using G by auto
  have "lookup r' other \<noteq> Some a" if "ref_Validate other = None" "other \<noteq> ref" for other
    using lookup_id [OF g(1), of ref a] lookup_id [OF g(1), of other a] g that ref_key_inj by auto
  moreover have "sv_reverse (vault_at r' a) = []"
    if "lookup r ref \<noteq> Some a \<or> Vault_Expired (vault_at r a) now"
  proof (cases "vault_at r' a = newSessionVault (ref_key ref) (vr_ttl r) now")
    case False
    then have k: "r' = r" "lookup r ref = Some a" using G by auto
    then have x: "Vault_Expired (vault_at r a) now" using that by blast
    have "sv_reverse (vault_at r' a) = []"
    proof (rule ccontr)
      let ?i = "shardFor (ref_key ref)"
      let ?r = "set_shard ?i (gm_del (ref_key ref) (vr_shards r ! ?i)) (purge_at a r)"
      have "get_fresh ?r (ref_key ref) ?i now = (Inr a, r')"
        using assms(2) g(2) k(2) x by (simp add: vaults_Get_def Let_def lookup_def)
      from get_fresh_inv [OF delete_inv [OF i] g(2) this] False show False by simp
    qed
    then show ?thesis .
  qed (simp add: newSessionVault_def)
  ultimately show ?thesis using g(3) by blast
qed

text \<open>Erasing a tenant erases that tenant and nothing else: afterwards no session of the
  tenant is filed, every vault it had is empty (also for a request that still holds it),
  every other tenant's session still has its vault with the same content, and the reported
  number is the number of sessions that went.\<close>

theorem PurgeTenant_exact:
  assumes "reg_reach r" "PurgeTenant r t = (Inr n, r')" "ref_Validate ref = None"
  shows "(sr_tenant ref = t \<longrightarrow> lookup r' ref = None \<and>
      (\<forall>a. lookup r ref = Some a \<longrightarrow> sv_reverse (vault_at r' a) = [] \<and> sv_forward (vault_at r' a) = [])) \<and>
    (sr_tenant ref \<noteq> t \<longrightarrow> lookup r' ref = lookup r ref \<and>
      (\<forall>a. lookup r ref = Some a \<longrightarrow> vault_at r' a = vault_at r a)) \<and>
    ActiveSessions r = ActiveSessions r' + n"
proof -
  let ?P = "\<lambda>k v. has_prefix k (t @ [NUL])"
  have i: "reg_inv r" by (rule reach_inv [OF assms(1)])
  have t: "ValidateTenant t" and E: "erase_all ?P r = (n, r')"
    using assms(2) by (auto simp: PurgeTenant_def case_prod_unfold Let_def prod_eq_iff split: if_splits)
  have S: "swept_shards ?P {..<vaultShards} r r'" and n: "n = sum_list (map (\<lambda>m. length (filter (doomed ?P r) m)) (vr_shards r))"
    using erase_all_swept [OF i _ E] by simp_all
  have l: "length (vr_shards r) = vaultShards" using i by (simp add: reg_inv_def)
  have pre: "has_prefix (ref_key s) (t @ [NUL]) \<longleftrightarrow> sr_tenant s = t" if "ref_Validate s = None" for s
  proof
    assume "has_prefix (ref_key s) (t @ [NUL])"
    then obtain u where "forward_key (sr_tenant s) (sr_session s) = forward_key t u"
      by (auto simp: has_prefix_iff ref_key_def forward_key_def)
    then show "sr_tenant s = t"
      using that t by (auto simp: forward_key_inj tenant_NUL ref_Validate_def split: if_splits)
  qed (auto simp: has_prefix_iff ref_key_def)
  let ?k = "ref_key ref" and ?i = "shardFor (ref_key ref)"
  have sh: "vr_shards r' ! ?i = survivors ?P r (vr_shards r ! ?i)"
    using swept_shard [OF S] l by simp
  have d: "doomed ?P r (?k, a) \<longleftrightarrow> sr_tenant ref = t" for a using pre [OF assms(3)] by (simp add: doomed_def)
  have wf: "gm_wf (vr_shards r ! ?i)" by (rule reg_invD(1) [OF i shardFor_less])
  then have lk: "lookup r' ref = Some a \<longleftrightarrow> lookup r ref = Some a \<and> sr_tenant ref \<noteq> t" for a
    unfolding lookup_def sh gm_get_in [OF survivors_wf [OF wf], symmetric] gm_get_in [OF wf, symmetric]
    using d by (auto simp: survivors_def)
  have v: "vault_at r' a = (if sr_tenant ref = t then Vault_Purge (vault_at r a) else vault_at r a)"
    if a: "lookup r ref = Some a" for a
  proof -
    let ?D = "snd ` {q. \<exists>i \<in> {..<vaultShards}. q \<in> set (vr_shards r ! i) \<and> doomed ?P r q}"
    have "a \<in> ?D \<longleftrightarrow> sr_tenant ref = t"
    proof
      assume "a \<in> ?D"
      then obtain k j where q: "j < vaultShards" "(k, a) \<in> set (vr_shards r ! j)" "doomed ?P r (k, a)" by auto
      from reg_invD(3) [OF i q(1,2)] lookup_id [OF i a] have "k = ?k" by simp
      with q(3) d show "sr_tenant ref = t" by simp
    next
      assume "sr_tenant ref = t"
      with lookup_mem [OF a] d show "a \<in> ?D" by force
    qed
    then show ?thesis using S by (simp add: swept_shards_def)
  qed
  have "length m = length (survivors ?P r m) + length (filter (doomed ?P r) m)" for m
    using sum_length_filter_compl [of "doomed ?P r" m] by (simp add: survivors_def)
  then have "map length (vr_shards r) =
      map (\<lambda>m. length (survivors ?P r m) + length (filter (doomed ?P r) m)) (vr_shards r)"
    by (intro map_cong refl)
  then have "ActiveSessions r = sum_list (map (\<lambda>m. length (survivors ?P r m)) (vr_shards r)) + n"
    unfolding ActiveSessions_def n by (simp only: sum_list_addf)
  moreover have "vr_shards r' = map (survivors ?P r) (vr_shards r)"
    using S l by (auto simp: swept_shards_def intro!: nth_equalityI)
  ultimately have "ActiveSessions r = ActiveSessions r' + n" by (simp add: ActiveSessions_def comp_def)
  moreover have "lookup r' ref = (if sr_tenant ref = t then None else lookup r ref)"
    using lk by (metis option.exhaust)
  ultimately show ?thesis using v by (simp add: Vault_Purge_def)
qed

lemma Get_succeeds:
  assumes i: "reg_inv r" and v: "ref_Validate ref = None"
    and n: "int (length (vr_shards r ! shardFor (ref_key ref))) < vr_max r"
  shows "\<exists>a. fst (vaults_Get r ref now) = Inr a"
proof -
  let ?k = "ref_key ref" and ?i = "shardFor (ref_key ref)"
  have fresh: "\<exists>a. fst (get_fresh q ?k ?i now) = Inr a"
    if q: "reg_inv q" "int (length (vr_shards q ! ?i)) < vr_max q" for q
  proof -
    have S: "swept_shards (\<lambda>k v. Vault_Expired v now) {?i} q (collectExpiredLocked ?i now q)"
      unfolding collectExpiredLocked_def by (rule erase_one_swept [OF q(1)]) simp_all
    have l: "length (vr_shards q) = vaultShards" using q(1) by (simp add: reg_inv_def)
    have "vr_shards (collectExpiredLocked ?i now q) ! ?i = survivors (\<lambda>k v. Vault_Expired v now) q (vr_shards q ! ?i)"
      using swept_shard [OF S] l by simp
    then have "length (vr_shards (collectExpiredLocked ?i now q) ! ?i) \<le> length (vr_shards q ! ?i)"
      by (simp add: survivors_sub(2))
    with q(2) S show ?thesis by (simp add: get_fresh_def Let_def swept_shards_def)
  qed
  let ?r = "\<lambda>a. set_shard ?i (gm_del ?k (vr_shards r ! ?i)) (purge_at a r)"
  have l: "length (vr_shards r) = vaultShards" using i by (simp add: reg_inv_def)
  have "length (gm_del ?k m) \<le> length m" for m :: "(string \<times> nat) list" by (simp add: gm_del_filter)
  then have "length (vr_shards (?r a) ! ?i) \<le> length (vr_shards r ! ?i)" for a using l by simp
  then have "int (length (vr_shards (?r a) ! ?i)) < vr_max (?r a)" for a
    using n by (metis le_less_trans of_nat_le_iff purge_at_fields(4) set_shard_fields(4))
  then show ?thesis
    using fresh [OF delete_inv [OF i]] fresh [OF i n] v by (simp add: vaults_Get_def Let_def split: option.split)
qed

definition acme :: session_ref where
  "acme = \<lparr>sr_tenant = ''acme'', sr_session = ''s''\<rparr>"

definition globex :: session_ref where
  "globex = \<lparr>sr_tenant = ''globex'', sr_session = ''s''\<rparr>"

definition one_session :: vault_registry where
  "one_session = snd (vaults_Get (NewVaultRegistry 10 1000) acme 0)"

lemma demo_refs: "ref_Validate acme = None" "ref_Validate globex = None" "acme \<noteq> globex"
  "sr_tenant acme = ''acme''" "sr_tenant globex = ''globex''"
  by (simp_all add: acme_def globex_def ref_Validate_def ValidateTenant_def alnum_def is_digit_def is_upper_def
      is_lower_def in_range_def byte_def)

lemma one_session_get:
  "vaults_Get (NewVaultRegistry 10 1000) acme 0 = (Inr 0, one_session)"
  "ActiveSessions one_session = 1" "vr_max one_session = 16"
proof -
  let ?r = "NewVaultRegistry 10 1000" and ?i = "shardFor (ref_key acme)"
  have e: "vr_shards ?r ! ?i = []" "length (vr_shards ?r) = vaultShards" "vr_max ?r = 16" "vr_next ?r = 0"
    using shardFor_less [of "ref_key acme"] by (simp_all add: NewVaultRegistry_def Let_def vaultShards_def)
  have c: "collectExpiredLocked ?i 0 ?r = ?r"
    using e by (simp add: collectExpiredLocked_def erase_shard_def)
  have g: "fst (vaults_Get ?r acme 0) = Inr 0" "vr_shards one_session = (vr_shards ?r)[?i := [(ref_key acme, 0)]]"
      "vr_max one_session = 16"
    using e c by (simp_all add: vaults_Get_def demo_refs Let_def get_fresh_def one_session_def)
  then show "vaults_Get ?r acme 0 = (Inr 0, one_session)" "vr_max one_session = 16"
    by (simp_all add: one_session_def prod_eq_iff)
  have "map length ((vr_shards ?r)[?i := [(ref_key acme, 0)]]) = (replicate vaultShards 0)[?i := 1]"
    by (simp add: map_update NewVaultRegistry_def Let_def)
  then show "ActiveSessions one_session = 1"
    using shardFor_less by (simp add: ActiveSessions_def g(2) sum_list_update)
qed

lemma one_session_inv: "reg_inv one_session" "reg_reach one_session"
proof -
  show r: "reg_reach one_session" unfolding one_session_def by (intro reg_reach.intros)
  show "reg_inv one_session" by (rule reach_inv [OF r])
qed

lemma globex_session:
  "\<exists>a r. vaults_Get one_session globex 1 = (Inr a, r)"
proof -
  have "length (vr_shards one_session ! shardFor (ref_key globex)) \<le> ActiveSessions one_session"
    unfolding ActiveSessions_def using one_session_inv(1)
    by (intro member_le_sum_list) (auto simp: reg_inv_def)
  then have "int (length (vr_shards one_session ! shardFor (ref_key globex))) < vr_max one_session"
    by (simp add: one_session_get)
  from Get_succeeds [OF one_session_inv(1) demo_refs(2) this, of 1] show ?thesis by (metis prod.collapse)
qed

theorem sessions_isolated_witness:
  "\<exists>a r. vaults_Get one_session globex 1 = (Inr a, r) \<and> lookup r globex = Some a \<and> lookup r acme \<noteq> Some a"
  using globex_session sessions_isolated [OF one_session_inv(2)] demo_refs by blast

theorem PurgeTenant_exact_witness:
  "\<exists>n r. PurgeTenant one_session ''acme'' = (Inr n, r) \<and> lookup one_session acme = Some 0 \<and>
     lookup r acme = None \<and> ActiveSessions r + n = 1"
proof -
  have t: "ValidateTenant ''acme''"
    by (simp add: ValidateTenant_def alnum_def is_digit_def is_upper_def is_lower_def in_range_def byte_def)
  obtain n r where p: "PurgeTenant one_session ''acme'' = (Inr n, r)"
    using t by (cases "erase_all (\<lambda>k v. has_prefix k (''acme'' @ [NUL])) one_session") (auto simp: PurgeTenant_def)
  have "lookup one_session acme = Some 0"
    using vaults_Get_inv [OF NewVaultRegistry_inv one_session_get(1)] by simp
  with PurgeTenant_exact [OF one_session_inv(2) p demo_refs(1)] p demo_refs(4) one_session_get(2) show ?thesis
    by auto
qed

end
