(* ===== verification/TokenRecord.thy ===== *)
theory TokenRecord imports Identity begin

text \<open>
  The stored form of a token mapping (\<open>pii/anonymize/tokenrecord.go\<close>): six dot-separated
  fields, two of them unpadded base64. Byte strings are \<open>string\<close>; an expiry is a time in
  nanoseconds since the epoch, \<open>None\<close> the zero time.
\<close>

section \<open>Unpadded base64\<close>

text \<open>\<open>base64.RawStdEncoding\<close>: six bits per character, the last group of two or three characters short.\<close>

definition b64_char :: "nat \<Rightarrow> char" where
  "b64_char n =
     (if n < 26 then char_of (65 + n) else if n < 52 then char_of (97 + (n - 26))
      else if n < 62 then char_of (48 + (n - 52)) else if n = 62 then CHR ''+'' else CHR ''/'')"

definition b64_val :: "char \<Rightarrow> nat option" where
  "b64_val c =
     (if is_upper c then Some (byte c - 65) else if is_lower c then Some (byte c - 97 + 26)
      else if is_digit c then Some (byte c - 48 + 52)
      else if c = CHR ''+'' then Some 62 else if c = CHR ''/'' then Some 63 else None)"

fun b64_encode :: "string \<Rightarrow> string" where
  "b64_encode [] = []"
| "b64_encode [a] = [b64_char (byte a div 4), b64_char (byte a mod 4 * 16)]"
| "b64_encode [a, b] =
     [b64_char (byte a div 4), b64_char (byte a mod 4 * 16 + byte b div 16), b64_char (byte b mod 16 * 4)]"
| "b64_encode (a # b # c # s) =
     b64_char (byte a div 4) # b64_char (byte a mod 4 * 16 + byte b div 16) #
     b64_char (byte b mod 16 * 4 + byte c div 64) # b64_char (byte c mod 64) # b64_encode s"

text \<open>The decoder skips CR and LF, and does not check the unused bits of the last character.\<close>

fun b64_groups :: "nat list \<Rightarrow> string option" where
  "b64_groups [] = Some []"
| "b64_groups [p] = None"
| "b64_groups [p, q] = Some [char_of (p * 4 + q div 16)]"
| "b64_groups [p, q, r] = Some [char_of (p * 4 + q div 16), char_of (q mod 16 * 16 + r div 4)]"
| "b64_groups (p # q # r # t # s) =
     map_option (\<lambda>u. char_of (p * 4 + q div 16) # char_of (q mod 16 * 16 + r div 4) #
       char_of (r mod 4 * 64 + t) # u) (b64_groups s)"

fun b64_vals :: "string \<Rightarrow> nat list option" where
  "b64_vals [] = Some []"
| "b64_vals (c # s) = (case b64_val c of None \<Rightarrow> None | Some n \<Rightarrow> map_option ((#) n) (b64_vals s))"

definition b64_decode :: "string \<Rightarrow> string option" where
  "b64_decode s =
     (case b64_vals (filter (\<lambda>c. byte c \<noteq> 10 \<and> byte c \<noteq> 13) s) of None \<Rightarrow> None | Some ns \<Rightarrow> b64_groups ns)"

lemma b64_val_char: "n < 64 \<Longrightarrow> b64_val (b64_char n) = Some n"
proof -
  assume "n < 64"
  then have "n < 26 \<or> (26 \<le> n \<and> n < 52) \<or> (52 \<le> n \<and> n < 62) \<or> n = 62 \<or> n = 63" by arith
  then show ?thesis
    by (elim disjE) (auto simp: b64_char_def b64_val_def is_upper_def is_lower_def is_digit_def in_range_def byte_def)
qed

lemma b64_char_plain: "n < 64 \<Longrightarrow> byte (b64_char n) \<noteq> 10 \<and> byte (b64_char n) \<noteq> 13 \<and> b64_char n \<noteq> CHR ''.''"
  using b64_val_char [of n]
  by (auto simp: b64_val_def is_upper_def is_lower_def is_digit_def in_range_def byte_def split: if_splits)

lemma byte_parts:
  fixes c :: char
  shows "byte c div 4 < 64" "byte c mod 4 * 16 < 64" "byte c div 16 < 16" "byte c mod 16 * 4 < 64" "byte c div 64 < 4"
    "byte c mod 64 < 64"
  using byte_bound [of c] by (auto simp: less_mult_imp_div_less)

lemma b64_sum:
  "byte a mod 4 * 16 + byte b div 16 < 64" "byte b mod 16 * 4 + byte c div 64 < 64"
  using byte_parts(3) [of b] byte_parts(5) [of c] mod_less_divisor [of 4 "byte a"] mod_less_divisor [of 16 "byte b"]
  by linarith+

lemma b64_chars: "c \<in> set (b64_encode s) \<Longrightarrow> \<exists>n < 64. c = b64_char n"
  by (induction s rule: b64_encode.induct) (auto intro: byte_parts b64_sum)

lemma b64_join:
  "char_of (byte a div 4 * 4 + (byte a mod 4 * 16 + x) div 16) = (char_of (byte a + x div 16) :: char)"
proof -
  have "byte a div 4 * 4 + (byte a mod 4 * 16 + x) div 16 = byte a div 4 * 4 + byte a mod 4 + x div 16" by simp
  then show ?thesis by simp
qed

lemma char_of_byte [simp]: "char_of (byte c) = c"
  by (simp add: byte_def)

lemma b64_groups_step:
  "char_of (byte a div 4 * 4 + (byte a mod 4 * 16 + byte b div 16) div 16) = a"
  "char_of ((byte a mod 4 * 16 + byte b div 16) mod 16 * 16 + (byte b mod 16 * 4 + byte c div 64) div 4) = b"
  "char_of ((byte b mod 16 * 4 + byte c div 64) mod 4 * 64 + byte c mod 64) = c"
  "char_of (byte a div 4 * 4 + (byte a mod 4 * 16) div 16) = a"
  "char_of ((byte a mod 4 * 16 + byte b div 16) mod 16 * 16 + (byte b mod 16 * 4) div 4) = b"
proof -
  have "byte a div 4 * 4 + (byte a mod 4 * 16 + byte b div 16) div 16 = byte a"
    using byte_parts(3) [of b] by simp
  then show "char_of (byte a div 4 * 4 + (byte a mod 4 * 16 + byte b div 16) div 16) = a" by simp
  have "(byte a mod 4 * 16 + byte b div 16) mod 16 * 16 + (byte b mod 16 * 4 + byte c div 64) div 4 = byte b"
    using byte_parts(3) [of b] byte_parts(5) [of c] by simp
  then show "char_of ((byte a mod 4 * 16 + byte b div 16) mod 16 * 16 + (byte b mod 16 * 4 + byte c div 64) div 4) = b"
    by simp
  have "(byte b mod 16 * 4 + byte c div 64) mod 4 * 64 + byte c mod 64 = byte c"
    using byte_parts(5) [of c] by simp
  then show "char_of ((byte b mod 16 * 4 + byte c div 64) mod 4 * 64 + byte c mod 64) = c" by simp
  have "byte a div 4 * 4 + (byte a mod 4 * 16) div 16 = byte a" by simp
  then show "char_of (byte a div 4 * 4 + (byte a mod 4 * 16) div 16) = a" by simp
  have "(byte a mod 4 * 16 + byte b div 16) mod 16 * 16 + (byte b mod 16 * 4) div 4 = byte b"
    using byte_parts(3) [of b] by simp
  then show "char_of ((byte a mod 4 * 16 + byte b div 16) mod 16 * 16 + (byte b mod 16 * 4) div 4) = b" by simp
qed

lemma b64_group_mid: "char_of (byte b div 16 * 16 + (byte b mod 16 * 4 + byte c div 64) div 4) = b"
proof -
  have "byte b div 16 * 16 + (byte b mod 16 * 4 + byte c div 64) div 4 = byte b"
    using byte_parts(5) [of c] by simp
  then show ?thesis by simp
qed

lemma b64_vals_encode: "\<exists>ns. b64_vals (b64_encode s) = Some ns \<and> b64_groups ns = Some s"
  by (induction s rule: b64_encode.induct)
    (auto simp: b64_val_char byte_parts b64_sum b64_groups_step b64_group_mid)

text \<open>Decoding undoes encoding, for every byte string.\<close>

lemma b64_roundtrip: "b64_decode (b64_encode s) = Some s"
proof -
  have "filter (\<lambda>c. byte c \<noteq> 10 \<and> byte c \<noteq> 13) (b64_encode s) = b64_encode s"
    using b64_chars b64_char_plain by (intro filter_True) blast
  then show ?thesis using b64_vals_encode [of s] by (auto simp: b64_decode_def)
qed

lemma b64_no_dot: "CHR ''.'' \<notin> set (b64_encode s)"
  using b64_chars [of "CHR ''.''" s] b64_char_plain by metis

section \<open>Records\<close>

record token_record =
  tr_KeyVersion :: string
  tr_IdentityEpoch :: string
  tr_Nonce :: string
  tr_Ciphertext :: string
  tr_ExpiresAt :: "int option"

datatype token_error =
    BadLabel string | FieldCount nat | UnknownSchema string | BadNonce | BadCiphertext | BadExpiry
  | InvalidTenant | EmptyNamespace | InvalidNamespace | EmptyEpoch | EmptyVersion | NoRandom | CryptoFailed
  | Backend | ExpiredMapping | TokenCollision | NilStore | NilKeyring | NegativeTTL | BadTable

definition label_char :: "char \<Rightarrow> bool" where
  "label_char c \<longleftrightarrow> is_lower c \<or> is_digit c \<or> c \<in> set ''_-''"

definition validateLabel :: "string \<Rightarrow> token_error option" where
  "validateLabel label =
     (if 1 \<le> length label \<and> length label \<le> 16 \<and> (\<forall>c \<in> set label. label_char c) then None else Some (BadLabel label))"

definition recordSchema :: string where
  "recordSchema = ''atr1''"

definition second :: int where
  "second = 10 ^ 9"

text \<open>\<open>Time.Unix\<close> rounds down to seconds.\<close>

definition unix :: "int \<Rightarrow> int" where
  "unix t = t div second"

definition record_Encode :: "token_record \<Rightarrow> string" where
  "record_Encode r =
     (let ex = (case tr_ExpiresAt r of None \<Rightarrow> 0 | Some t \<Rightarrow> unix t) in
      str_join ''.'' [recordSchema, tr_KeyVersion r, tr_IdentityEpoch r, b64_encode (tr_Nonce r),
        b64_encode (tr_Ciphertext r), int_itoa ex])"

definition DecodeTokenRecord :: "string \<Rightarrow> token_error + token_record" where
  "DecodeTokenRecord raw =
     (let parts = str_split CHR ''.'' raw in
      if length parts \<noteq> 6 then Inl (FieldCount (length parts))
      else if parts ! 0 \<noteq> recordSchema then Inl (UnknownSchema (parts ! 0))
      else case b64_decode (parts ! 3) of
        None \<Rightarrow> Inl BadNonce
      | Some nonce \<Rightarrow>
          case b64_decode (parts ! 4) of
            None \<Rightarrow> Inl BadCiphertext
          | Some ct \<Rightarrow>
              case atoi (parts ! 5) of
                None \<Rightarrow> Inl BadExpiry
              | Some ex \<Rightarrow>
                  Inr \<lparr>tr_KeyVersion = parts ! 1, tr_IdentityEpoch = parts ! 2, tr_Nonce = nonce,
                       tr_Ciphertext = ct, tr_ExpiresAt = (if ex \<noteq> 0 then Some (ex * second) else None)\<rparr>)"

definition record_Expired :: "token_record \<Rightarrow> int \<Rightarrow> bool" where
  "record_Expired r now = (case tr_ExpiresAt r of None \<Rightarrow> False | Some t \<Rightarrow> now > t)"

lemma label_no_dot: "validateLabel l = None \<Longrightarrow> CHR ''.'' \<notin> set l"
  by (auto simp: validateLabel_def label_char_def is_lower_def is_digit_def in_range_def byte_def split: if_splits)

lemma int_itoa_no_dot: "CHR ''.'' \<notin> set (int_itoa n)"
  using itoa_digits [of "CHR ''.''"] by (auto simp: int_itoa_def is_digit_def in_range_def byte_def)

lemma decode_encode_record:
  assumes "validateLabel (tr_KeyVersion r) = None" "validateLabel (tr_IdentityEpoch r) = None"
    and "\<forall>t. tr_ExpiresAt r = Some t \<longrightarrow> int64 (unix t)"
  shows "DecodeTokenRecord (record_Encode r) =
    Inr (r\<lparr>tr_ExpiresAt := (case tr_ExpiresAt r of None \<Rightarrow> None
        | Some t \<Rightarrow> if unix t = 0 then None else Some (t div second * second))\<rparr>)"
proof -
  let ?ex = "case tr_ExpiresAt r of None \<Rightarrow> 0 | Some t \<Rightarrow> unix t"
  let ?ps = "[recordSchema, tr_KeyVersion r, tr_IdentityEpoch r, b64_encode (tr_Nonce r),
        b64_encode (tr_Ciphertext r), int_itoa ?ex]"
  have "\<forall>p \<in> set ?ps. CHR ''.'' \<notin> set p"
    using label_no_dot assms(1,2) b64_no_dot int_itoa_no_dot by (simp add: recordSchema_def)
  then have s: "str_split CHR ''.'' (record_Encode r) = ?ps"
    unfolding record_Encode_def Let_def by (intro str_split_join) simp_all
  have "int64 ?ex" using assms(3) by (simp add: int64_def int64_min_def int64_max_def split: option.split)
  then have a: "atoi (int_itoa ?ex) = Some ?ex" by (rule atoi_int_itoa)
  show ?thesis
    unfolding DecodeTokenRecord_def s Let_def
    by (simp add: a b64_roundtrip) (auto simp: unix_def split: option.split)
qed

text \<open>A stored record reads back as it was written, whatever bytes the nonce and the
  ciphertext hold, up to the expiry being cut to the second (an expiry in the first second of
  1970 reads back as none): the labels cannot add a field because the check that guards them
  admits no separator.\<close>

theorem record_roundtrip:
  assumes "validateLabel (tr_KeyVersion r) = None" "validateLabel (tr_IdentityEpoch r) = None"
    and "\<forall>t. tr_ExpiresAt r = Some t \<longrightarrow> int64 (unix t)"
  shows "DecodeTokenRecord (record_Encode r) =
    Inr (r\<lparr>tr_ExpiresAt := (case tr_ExpiresAt r of None \<Rightarrow> None
        | Some t \<Rightarrow> if unix t = 0 then None else Some (t div second * second))\<rparr>)"
  using assms by (rule decode_encode_record)

theorem record_roundtrip_witness:
  "DecodeTokenRecord (record_Encode \<lparr>tr_KeyVersion = ''v1'', tr_IdentityEpoch = ''e-1'', tr_Nonce = [CHR 0x00, CHR 0xFF],
     tr_Ciphertext = ''.x.'', tr_ExpiresAt = Some 5500000000\<rparr>) =
   Inr \<lparr>tr_KeyVersion = ''v1'', tr_IdentityEpoch = ''e-1'', tr_Nonce = [CHR 0x00, CHR 0xFF],
     tr_Ciphertext = ''.x.'', tr_ExpiresAt = Some 5000000000\<rparr>"
proof -
  let ?r = "\<lparr>tr_KeyVersion = ''v1'', tr_IdentityEpoch = ''e-1'', tr_Nonce = [CHR 0x00, CHR 0xFF],
     tr_Ciphertext = ''.x.'', tr_ExpiresAt = Some 5500000000\<rparr>"
  have "validateLabel (tr_KeyVersion ?r) = None" "validateLabel (tr_IdentityEpoch ?r) = None"
    by (simp_all add: validateLabel_def label_char_def is_lower_def is_digit_def in_range_def byte_def)
  from record_roundtrip [OF this] show ?thesis
    by (simp add: unix_def second_def int64_def int64_min_def int64_max_def)
qed

end
