(* ===== verification/TokenStore.thy ===== *)
theory TokenStore imports TokenRecord Vault begin

text \<open>
  The token vault (\<open>pii/anonymize/tokenstore.go\<close>): keys, the contract of a token store and
  the in-memory store. Random tokens are drawn outside: each Issue is given the raw bytes, or
  none when the source of randomness fails. Clock readings are parameters.
\<close>

section \<open>Keys\<close>

record token_key =
  tk_Tenant :: string
  tk_Namespace :: string

definition namespace_char :: "char \<Rightarrow> bool" where
  "namespace_char c \<longleftrightarrow> is_lower c \<or> is_digit c \<or> c = CHR ''_''"

definition key_Validate :: "token_key \<Rightarrow> token_error option" where
  "key_Validate k =
     (if \<not> ValidateTenant (tk_Tenant k) then Some InvalidTenant
      else if tk_Namespace k = [] then Some EmptyNamespace
      else if length (tk_Namespace k) \<le> 64 \<and> (\<forall>c \<in> set (tk_Namespace k). namespace_char c) then None
      else Some InvalidNamespace)"

definition key_composite :: "token_key \<Rightarrow> string" where
  "key_composite k = tk_Tenant k @ [NUL] @ tk_Namespace k"

text \<open>The map keys: the composite, a NUL, then a value or a token.\<close>

definition sub_key :: "token_key \<Rightarrow> string \<Rightarrow> string" where
  "sub_key k x = key_composite k @ [NUL] @ x"

text \<open>\<open>hex.EncodeToString\<close>.\<close>

definition hex_digit :: "nat \<Rightarrow> char" where
  "hex_digit n = (if n < 10 then char_of (48 + n) else char_of (97 + (n - 10)))"

fun hex_encode :: "string \<Rightarrow> string" where
  "hex_encode [] = []"
| "hex_encode (c # s) = hex_digit (byte c div 16) # hex_digit (byte c mod 16) # hex_encode s"

definition newToken :: "string option \<Rightarrow> token_error + string" where
  "newToken raw = (case raw of None \<Rightarrow> Inl NoRandom | Some r \<Rightarrow> Inr (hex_encode r))"

section \<open>The in-memory store\<close>

record token_entry =
  te_payload :: string
  te_expires :: "int option"

definition entry_expired :: "token_entry \<Rightarrow> int \<Rightarrow> bool" where
  "entry_expired e now = (case te_expires e of None \<Rightarrow> False | Some t \<Rightarrow> now > t)"

record memory_store =
  ms_ttl :: int
  ms_byPair :: "(string, token_entry) gomap"
  ms_byTok :: "(string, token_entry) gomap"

definition NewMemoryTokenStore :: "int \<Rightarrow> memory_store" where
  "NewMemoryTokenStore ttl = \<lparr>ms_ttl = ttl, ms_byPair = [], ms_byTok = []\<rparr>"

text \<open>The two critical sections of \<open>Issue\<close>: the lookup under the read lock, the insertion under the write lock.\<close>

definition mem_lookup :: "memory_store \<Rightarrow> token_key \<Rightarrow> string \<Rightarrow> int \<Rightarrow> string option" where
  "mem_lookup s k v now =
     (case gm_get (ms_byPair s) (sub_key k v) of
        None \<Rightarrow> None
      | Some e \<Rightarrow> if entry_expired e now then None else Some (te_payload e))"

definition new_expiry :: "memory_store \<Rightarrow> int \<Rightarrow> int option" where
  "new_expiry s now = (if ms_ttl s > 0 then Some (now + ms_ttl s) else None)"

definition mem_insert :: "memory_store \<Rightarrow> token_key \<Rightarrow> string \<Rightarrow> string \<Rightarrow> int \<Rightarrow> string \<times> memory_store" where
  "mem_insert s k v tok now =
     (case mem_lookup s k v now of
        Some t \<Rightarrow> (t, s)
      | None \<Rightarrow>
          let ex = new_expiry s now in
          (tok, s\<lparr>ms_byPair := gm_set (sub_key k v) \<lparr>te_payload = tok, te_expires = ex\<rparr> (ms_byPair s),
                 ms_byTok := gm_set (sub_key k tok) \<lparr>te_payload = v, te_expires = ex\<rparr> (ms_byTok s)\<rparr>))"

definition mem_Issue ::
    "memory_store \<Rightarrow> token_key \<Rightarrow> string \<Rightarrow> string option \<Rightarrow> int \<Rightarrow> (token_error + string) \<times> memory_store" where
  "mem_Issue s k v raw now =
     (case key_Validate k of
        Some e \<Rightarrow> (Inl e, s)
      | None \<Rightarrow>
          case mem_lookup s k v now of
            Some t \<Rightarrow> (Inr t, s)
          | None \<Rightarrow>
              case newToken raw of
                Inl e \<Rightarrow> (Inl e, s)
              | Inr tok \<Rightarrow> let (t, s) = mem_insert s k v tok now in (Inr t, s))"

definition mem_Resolve :: "memory_store \<Rightarrow> token_key \<Rightarrow> string \<Rightarrow> int \<Rightarrow> token_error + string option" where
  "mem_Resolve s k tok now =
     (case key_Validate k of
        Some e \<Rightarrow> Inl e
      | None \<Rightarrow>
          case gm_get (ms_byTok s) (sub_key k tok) of
            None \<Rightarrow> Inr None
          | Some e \<Rightarrow> if entry_expired e now then Inr None else Inr (Some (te_payload e)))"

definition erase_prefix :: "string \<Rightarrow> (string, 'a) gomap \<Rightarrow> (string, 'a) gomap" where
  "erase_prefix p m = filter (\<lambda>q. \<not> has_prefix (fst q) p) m"

definition mem_Clear :: "memory_store \<Rightarrow> string \<Rightarrow> (token_error + nat) \<times> memory_store" where
  "mem_Clear s tenant =
     (if \<not> ValidateTenant tenant then (Inl InvalidTenant, s)
      else
        let p = tenant @ [NUL] in
        (Inr (length (filter (\<lambda>q. has_prefix (fst q) p) (ms_byTok s))),
         s\<lparr>ms_byTok := erase_prefix p (ms_byTok s), ms_byPair := erase_prefix p (ms_byPair s)\<rparr>))"

definition mem_Size :: "memory_store \<Rightarrow> nat" where
  "mem_Size s = length (ms_byPair s)"

section \<open>Keys do not collide\<close>

lemma namespace_NUL: "key_Validate k = None \<Longrightarrow> NUL \<notin> set (tk_Namespace k)"
  by (auto simp: key_Validate_def namespace_char_def NUL_def is_lower_def is_digit_def in_range_def byte_def
      split: if_splits)

lemma key_tenant: "key_Validate k = None \<Longrightarrow> ValidateTenant (tk_Tenant k)"
  by (auto simp: key_Validate_def split: if_splits)

lemma NUL_split: "NUL \<notin> set a \<Longrightarrow> NUL \<notin> set b \<Longrightarrow> a @ NUL # x = b @ NUL # y \<longleftrightarrow> a = b \<and> x = y"
  by (rule append_sep)

lemma sub_key_inj:
  assumes "key_Validate k = None" "key_Validate l = None"
  shows "sub_key k x = sub_key l y \<longleftrightarrow> k = l \<and> x = y"
proof -
  have n: "NUL \<notin> set (tk_Tenant k)" "NUL \<notin> set (tk_Tenant l)" "NUL \<notin> set (tk_Namespace k)" "NUL \<notin> set (tk_Namespace l)"
    using assms by (simp_all add: tenant_NUL namespace_NUL key_tenant)
  have "sub_key k x = sub_key l y \<longleftrightarrow> tk_Tenant k = tk_Tenant l \<and> tk_Namespace k = tk_Namespace l \<and> x = y"
    using n by (simp add: sub_key_def key_composite_def NUL_split)
  then show ?thesis by (auto intro: token_key.equality)
qed

lemma sub_key_prefix:
  assumes "key_Validate k = None" "ValidateTenant t"
  shows "has_prefix (sub_key k x) (t @ [NUL]) \<longleftrightarrow> tk_Tenant k = t"
proof -
  have n: "NUL \<notin> set (tk_Tenant k)" "NUL \<notin> set t" using assms by (simp_all add: tenant_NUL key_tenant)
  show ?thesis using n by (auto simp: has_prefix_iff sub_key_def key_composite_def NUL_split)
qed

section \<open>The contract\<close>

text \<open>
  What a client of the token store relies on. \<open>fresh\<close> says that the token drawn is not in use,
  which holds of 128 random bits up to a negligible probability.
\<close>

locale token_store =
  fixes issue :: "'s \<Rightarrow> token_key \<Rightarrow> string \<Rightarrow> 'r \<Rightarrow> int \<Rightarrow> (token_error + string) \<times> 's"
    and resolve :: "'s \<Rightarrow> token_key \<Rightarrow> string \<Rightarrow> int \<Rightarrow> token_error + string option"
    and clear :: "'s \<Rightarrow> string \<Rightarrow> (token_error + nat) \<times> 's"
    and invar :: "'s \<Rightarrow> bool"
    and fresh :: "'s \<Rightarrow> token_key \<Rightarrow> 'r \<Rightarrow> bool"
  assumes issue_inv: "invar s \<Longrightarrow> fresh s k raw \<Longrightarrow> issue s k v raw now = (res, s') \<Longrightarrow> invar s'"
    and issue_resolves: "invar s \<Longrightarrow> fresh s k raw \<Longrightarrow> issue s k v raw now = (Inr t, s') \<Longrightarrow>
        resolve s' k t now = Inr (Some v)"
    and issue_keeps: "invar s \<Longrightarrow> fresh s k raw \<Longrightarrow> issue s k v raw now = (res, s') \<Longrightarrow> now \<le> later \<Longrightarrow>
        resolve s k' t' later = Inr (Some v') \<Longrightarrow> resolve s' k' t' later = Inr (Some v')"
    and issue_other: "invar s \<Longrightarrow> fresh s k raw \<Longrightarrow> issue s k v raw now = (res, s') \<Longrightarrow> now \<le> later \<Longrightarrow> k' \<noteq> k \<Longrightarrow>
        resolve s' k' t' later = resolve s k' t' later"
    and clear_inv: "invar s \<Longrightarrow> clear s tn = (cres, s') \<Longrightarrow> invar s'"
    and clear_erases: "invar s \<Longrightarrow> clear s tn = (Inr n, s') \<Longrightarrow> tk_Tenant k = tn \<Longrightarrow>
        resolve s' k t later \<noteq> Inr (Some v)"
    and clear_other: "invar s \<Longrightarrow> clear s tn = (cres, s') \<Longrightarrow> tk_Tenant k \<noteq> tn \<Longrightarrow>
        resolve s' k t later = resolve s k t later"

text \<open>Several values tokenised in one go, at one instant; it stops at the first error.\<close>

fun issue_list ::
    "('s \<Rightarrow> token_key \<Rightarrow> string \<Rightarrow> 'r \<Rightarrow> int \<Rightarrow> (token_error + string) \<times> 's) \<Rightarrow> 's \<Rightarrow>
     (token_key \<times> string \<times> 'r) list \<Rightarrow> int \<Rightarrow> (token_error + string list) \<times> 's" where
  "issue_list issue s [] now = (Inr [], s)"
| "issue_list issue s ((k, v, raw) # xs) now =
     (case issue s k v raw now of
        (Inl e, s) \<Rightarrow> (Inl e, s)
      | (Inr t, s) \<Rightarrow>
          (case issue_list issue s xs now of
             (Inl e, s) \<Rightarrow> (Inl e, s)
           | (Inr ts, s) \<Rightarrow> (Inr (t # ts), s)))"

fun all_fresh ::
    "('s \<Rightarrow> token_key \<Rightarrow> string \<Rightarrow> 'r \<Rightarrow> int \<Rightarrow> (token_error + string) \<times> 's) \<Rightarrow>
     ('s \<Rightarrow> token_key \<Rightarrow> 'r \<Rightarrow> bool) \<Rightarrow> 's \<Rightarrow> (token_key \<times> string \<times> 'r) list \<Rightarrow> int \<Rightarrow> bool" where
  "all_fresh issue fresh s [] now = True"
| "all_fresh issue fresh s ((k, v, raw) # xs) now \<longleftrightarrow>
     fresh s k raw \<and> all_fresh issue fresh (snd (issue s k v raw now)) xs now"

context token_store
begin

lemma issue_list_keeps:
  "invar s \<Longrightarrow> all_fresh issue fresh s xs now \<Longrightarrow> issue_list issue s xs now = (res, s') \<Longrightarrow>
   resolve s k t now = Inr (Some v) \<Longrightarrow> invar s' \<and> resolve s' k t now = Inr (Some v)"
proof (induction xs arbitrary: s s' res)
  case (Cons x xs)
  obtain k1 v1 raw where x: "x = (k1, v1, raw)" by (cases x)
  obtain r1 s1 where I: "issue s k1 v1 raw now = (r1, s1)" by fastforce
  have f: "fresh s k1 raw" "all_fresh issue fresh s1 xs now" using Cons.prems(2) x I by simp_all
  note s1 = issue_inv [OF Cons.prems(1) f(1) I] issue_keeps [OF Cons.prems(1) f(1) I order_refl Cons.prems(4)]
  obtain r2 s2 where L: "issue_list issue s1 xs now = (r2, s2)" by fastforce
  note IH = Cons.IH [OF s1(1) f(2) L s1(2)]
  show ?case
  proof (cases r1)
    case (Inl e)
    then show ?thesis using Cons.prems(3) x I s1 by auto
  next
    case (Inr t)
    then show ?thesis using Cons.prems(3) x I L IH by (cases r2) auto
  qed
qed simp

lemma issue_list_resolves:
  "invar s \<Longrightarrow> all_fresh issue fresh s xs now \<Longrightarrow> issue_list issue s xs now = (Inr ts, s') \<Longrightarrow>
   length ts = length xs \<and>
   (\<forall>i < length xs. resolve s' (fst (xs ! i)) (ts ! i) now = Inr (Some (fst (snd (xs ! i)))))"
proof (induction xs arbitrary: s s' ts)
  case (Cons x xs)
  obtain k1 v1 raw where x: "x = (k1, v1, raw)" by (cases x)
  obtain r1 s1 where I: "issue s k1 v1 raw now = (r1, s1)" by fastforce
  obtain t where r1: "r1 = Inr t" using Cons.prems(3) x I by (cases r1) auto
  obtain r2 s2 where L: "issue_list issue s1 xs now = (r2, s2)" by fastforce
  obtain us where r2: "r2 = Inr us" using Cons.prems(3) x I r1 L by (cases r2) auto
  have e: "ts = t # us" "s2 = s'" using Cons.prems(3) x I r1 L r2 by auto
  have f: "fresh s k1 raw" "all_fresh issue fresh s1 xs now" using Cons.prems(2) x I by simp_all
  note s1 = issue_inv [OF Cons.prems(1) f(1) I] issue_resolves [OF Cons.prems(1) f(1) I [unfolded r1]]
  note IH = Cons.IH [OF s1(1) f(2) L [unfolded r2 e(2)]]
  have "resolve s' k1 t now = Inr (Some v1)"
    using issue_list_keeps [OF s1(1) f(2) L s1(2)] e by simp
  then show ?case using IH e x by (auto simp: nth_Cons split: nat.split)
qed simp

end

section \<open>The in-memory store keeps the contract\<close>

definition mem_inv :: "memory_store \<Rightarrow> bool" where
  "mem_inv s \<longleftrightarrow>
     (\<forall>pk e. gm_get (ms_byPair s) pk = Some e \<longrightarrow>
        (\<exists>k v. key_Validate k = None \<and> pk = sub_key k v \<and>
           gm_get (ms_byTok s) (sub_key k (te_payload e)) = Some \<lparr>te_payload = v, te_expires = te_expires e\<rparr>)) \<and>
     (\<forall>x e. gm_get (ms_byTok s) x = Some e \<longrightarrow> (\<exists>k t. key_Validate k = None \<and> x = sub_key k t))"

definition mem_fresh :: "memory_store \<Rightarrow> token_key \<Rightarrow> string option \<Rightarrow> bool" where
  "mem_fresh s k raw \<longleftrightarrow>
     (case raw of None \<Rightarrow> True | Some r \<Rightarrow> gm_get (ms_byTok s) (sub_key k (hex_encode r)) = None)"

lemma NewMemoryTokenStore_inv: "mem_inv (NewMemoryTokenStore ttl)"
  by (simp add: mem_inv_def NewMemoryTokenStore_def)

lemma mem_pairD:
  "mem_inv s \<Longrightarrow> gm_get (ms_byPair s) pk = Some e \<Longrightarrow>
   \<exists>k v. key_Validate k = None \<and> pk = sub_key k v \<and>
     gm_get (ms_byTok s) (sub_key k (te_payload e)) = Some \<lparr>te_payload = v, te_expires = te_expires e\<rparr>"
  by (simp add: mem_inv_def)

lemma mem_lookup_resolves:
  assumes "mem_inv s" "key_Validate k = None" "mem_lookup s k v now = Some t"
  shows "mem_Resolve s k t now = Inr (Some v)"
proof -
  obtain e where e: "gm_get (ms_byPair s) (sub_key k v) = Some e" "\<not> entry_expired e now" "te_payload e = t"
    using assms(3) by (auto simp: mem_lookup_def split: option.splits if_splits)
  from mem_pairD [OF assms(1) e(1)] obtain l w where l: "key_Validate l = None" "sub_key k v = sub_key l w"
      "gm_get (ms_byTok s) (sub_key l t) = Some \<lparr>te_payload = w, te_expires = te_expires e\<rparr>" using e(3) by auto
  then have "l = k" "w = v" using sub_key_inj [OF assms(2) l(1)] by auto
  then show ?thesis using l e(2) assms(2) by (simp add: mem_Resolve_def entry_expired_def)
qed

text \<open>What the insertion does when the pair is not live: the two entries it writes.\<close>

lemma mem_insert_new:
  assumes "mem_lookup s k v now = None" "mem_insert s k v tok now = (t, s')"
  shows "t = tok \<and> ms_ttl s' = ms_ttl s \<and> (\<exists>ex. (\<forall>e. ex = Some e \<longrightarrow> now < e) \<and>
    ms_byPair s' = gm_set (sub_key k v) \<lparr>te_payload = tok, te_expires = ex\<rparr> (ms_byPair s) \<and>
    ms_byTok s' = gm_set (sub_key k tok) \<lparr>te_payload = v, te_expires = ex\<rparr> (ms_byTok s))"
proof -
  have e: "t = tok" "ms_ttl s' = ms_ttl s"
    "ms_byPair s' = gm_set (sub_key k v) \<lparr>te_payload = tok, te_expires = new_expiry s now\<rparr> (ms_byPair s)"
    "ms_byTok s' = gm_set (sub_key k tok) \<lparr>te_payload = v, te_expires = new_expiry s now\<rparr> (ms_byTok s)"
    using assms by (auto simp: mem_insert_def Let_def)
  have "\<forall>e. new_expiry s now = Some e \<longrightarrow> now < e" by (simp add: new_expiry_def)
  with e show ?thesis by blast
qed

lemma mem_insert_inv:
  assumes i: "mem_inv s" and k: "key_Validate k = None" and l: "mem_lookup s k v now = None"
    and f: "gm_get (ms_byTok s) (sub_key k tok) = None" and m: "mem_insert s k v tok now = (t, s')"
  shows "mem_inv s'"
proof -
  obtain ex where ex: "ms_byPair s' = gm_set (sub_key k v) \<lparr>te_payload = tok, te_expires = ex\<rparr> (ms_byPair s)"
      "ms_byTok s' = gm_set (sub_key k tok) \<lparr>te_payload = v, te_expires = ex\<rparr> (ms_byTok s)"
    using mem_insert_new [OF l m] by blast
  have "\<exists>k v. key_Validate k = None \<and> pk = sub_key k v \<and>
      gm_get (ms_byTok s') (sub_key k (te_payload e)) = Some \<lparr>te_payload = v, te_expires = te_expires e\<rparr>"
    if e: "gm_get (ms_byPair s') pk = Some e" for pk e
  proof (cases "pk = sub_key k v")
    case True
    then have "e = \<lparr>te_payload = tok, te_expires = ex\<rparr>" using e ex by (simp add: gm_get_set)
    then show ?thesis using True k ex by (auto simp: gm_get_set)
  next
    case False
    then have "gm_get (ms_byPair s) pk = Some e" using e ex by (simp add: gm_get_set)
    from mem_pairD [OF i this] f show ?thesis by (auto simp: ex gm_get_set)
  qed
  moreover have "\<exists>k t. key_Validate k = None \<and> x = sub_key k t" if "gm_get (ms_byTok s') x = Some e" for x e
    using that i k by (auto simp: ex gm_get_set mem_inv_def split: if_splits)
  ultimately show ?thesis unfolding mem_inv_def by blast
qed

lemma mem_Issue_cases:
  assumes "mem_Issue s k v raw now = (res, s')"
  obtains (same) "s' = s" "\<And>t. res = Inr t \<Longrightarrow> key_Validate k = None \<and> mem_lookup s k v now = Some t"
    | (new) r where "key_Validate k = None" "mem_lookup s k v now = None" "raw = Some r"
      "res = Inr (hex_encode r)" "mem_insert s k v (hex_encode r) now = (hex_encode r, s')"
  using assms
  by (auto simp: mem_Issue_def newToken_def mem_insert_def Let_def split: option.splits prod.splits)

lemma mem_Resolve_set:
  "ms_byTok s' = gm_set (sub_key k tok) e (ms_byTok s) \<Longrightarrow> key_Validate k = None \<Longrightarrow> (k', t') \<noteq> (k, tok) \<Longrightarrow>
   mem_Resolve s' k' t' now = mem_Resolve s k' t' now"
  by (auto simp: mem_Resolve_def gm_get_set sub_key_inj split: option.splits)

lemma gm_get_erase: "gm_get (erase_prefix p m) x = (if has_prefix x p then None else gm_get m x)"
  by (induction m) (auto simp: erase_prefix_def)

lemma mem_Clear_get:
  assumes "mem_Clear s tn = (cres, s')" "ValidateTenant tn"
  shows "gm_get (ms_byPair s') x = (if has_prefix x (tn @ [NUL]) then None else gm_get (ms_byPair s) x)"
    "gm_get (ms_byTok s') x = (if has_prefix x (tn @ [NUL]) then None else gm_get (ms_byTok s) x)"
  using assms by (auto simp: mem_Clear_def Let_def gm_get_erase)

lemma mem_Clear_invalid: "mem_Clear s tn = (cres, s') \<Longrightarrow> \<not> ValidateTenant tn \<Longrightarrow> s' = s \<and> cres = Inl InvalidTenant"
  by (simp add: mem_Clear_def)

lemma mem_Clear_inv:
  assumes i: "mem_inv s" and C: "mem_Clear s tn = (cres, s')"
  shows "mem_inv s'"
proof (cases "ValidateTenant tn")
  case True
  note get = mem_Clear_get [OF C True]
  have "\<exists>k v. key_Validate k = None \<and> pk = sub_key k v \<and>
      gm_get (ms_byTok s') (sub_key k (te_payload e)) = Some \<lparr>te_payload = v, te_expires = te_expires e\<rparr>"
    if g: "gm_get (ms_byPair s') pk = Some e" for pk e
  proof -
    have a: "gm_get (ms_byPair s) pk = Some e" "\<not> has_prefix pk (tn @ [NUL])"
      using g by (auto simp: get split: if_splits)
    from mem_pairD [OF i a(1)] obtain k v where k: "key_Validate k = None" "pk = sub_key k v"
      "gm_get (ms_byTok s) (sub_key k (te_payload e)) = Some \<lparr>te_payload = v, te_expires = te_expires e\<rparr>" by blast
    then have "gm_get (ms_byTok s') (sub_key k (te_payload e)) = Some \<lparr>te_payload = v, te_expires = te_expires e\<rparr>"
      using a(2) True by (simp add: get sub_key_prefix)
    then show ?thesis using k by blast
  qed
  moreover have "\<exists>k t. key_Validate k = None \<and> x = sub_key k t" if g: "gm_get (ms_byTok s') x = Some y" for x y
  proof -
    have "gm_get (ms_byTok s) x = Some y" using g by (auto simp: get split: if_splits)
    then show ?thesis using i by (auto simp: mem_inv_def)
  qed
  ultimately show ?thesis unfolding mem_inv_def by blast
qed (use i mem_Clear_invalid [OF C] in simp)

lemma mem_Clear_other:
  fixes k :: token_key
  assumes C: "mem_Clear s tn = (cres, s')" and t: "tk_Tenant k \<noteq> tn"
  shows "mem_Resolve s' k t later = mem_Resolve s k t later"
proof (cases "ValidateTenant tn \<and> key_Validate k = None")
  case True
  then show ?thesis using t mem_Clear_get(2) [OF C] by (simp add: mem_Resolve_def sub_key_prefix)
next
  case False
  then show ?thesis using mem_Clear_invalid [OF C] by (auto simp: mem_Resolve_def split: option.splits)
qed

lemma mem_Clear_erases:
  fixes k :: token_key
  assumes C: "mem_Clear s tn = (Inr n, s')" and t: "tk_Tenant k = tn"
  shows "mem_Resolve s' k t later \<noteq> Inr (Some v)"
proof (cases "key_Validate k")
  case None
  then have "ValidateTenant tn" using t key_tenant by blast
  then show ?thesis using None t mem_Clear_get(2) [OF C] by (simp add: mem_Resolve_def sub_key_prefix)
qed (simp add: mem_Resolve_def)

interpretation memory: token_store mem_Issue mem_Resolve mem_Clear mem_inv mem_fresh
proof unfold_locales
  fix s k raw v now res s'
  assume i: "mem_inv s" and f: "mem_fresh s k raw" and I: "mem_Issue s k v raw now = (res, s')"
  show "mem_inv s'"
    using I
  proof (cases rule: mem_Issue_cases)
    case (new r)
    then show ?thesis using mem_insert_inv [OF i new(1,2) _ new(5)] f by (simp add: mem_fresh_def)
  qed (use i in simp)
  show "mem_Resolve s' k' t' later = Inr (Some v')" if r': "mem_Resolve s k' t' later = Inr (Some v')" for k' t' later v'
    using I
  proof (cases rule: mem_Issue_cases)
    case (new r)
    then have "(k', t') \<noteq> (k, hex_encode r)" using r' f by (auto simp: mem_Resolve_def mem_fresh_def)
    then show ?thesis using mem_insert_new [OF new(2,5)] mem_Resolve_set [OF _ new(1)] r' by metis
  qed (use r' in simp)
  show "mem_Resolve s' k' t' later = mem_Resolve s k' t' later" if "k' \<noteq> k" for k' t' later
    using I
  proof (cases rule: mem_Issue_cases)
    case (new r)
    then show ?thesis using mem_insert_new [OF new(2,5)] mem_Resolve_set [OF _ new(1)] that by (metis prod.inject)
  qed simp
next
  fix s k raw v now t s'
  assume i: "mem_inv s" and I: "mem_Issue s k v raw now = (Inr t, s')"
  show "mem_Resolve s' k t now = Inr (Some v)"
    using I
  proof (cases rule: mem_Issue_cases)
    case same
    then show ?thesis using mem_lookup_resolves [OF i] by simp
  next
    case (new r)
    then show ?thesis using mem_insert_new [OF new(2,5)]
      by (auto simp: mem_Resolve_def gm_get_set entry_expired_def split: option.splits)
  qed
next
  fix s tn cres s'
  assume i: "mem_inv s" and C: "mem_Clear s tn = (cres, s')"
  show "mem_inv s'" using mem_Clear_inv [OF i C] .
  show "mem_Resolve s' k t later = mem_Resolve s k t later" if "tk_Tenant k \<noteq> tn" for k :: token_key and t later
    using mem_Clear_other [OF C that] .
next
  fix s tn n s' t later v and k :: token_key
  assume "mem_Clear s tn = (Inr n, s')" "tk_Tenant k = tn"
  then show "mem_Resolve s' k t later \<noteq> Inr (Some v)" by (rule mem_Clear_erases)
qed

text \<open>A batch of values tokenised by the in-memory store comes back whole: every token issued in
  the batch, for whatever tenants and namespaces, resolves to the value it was issued for, the
  repeated values and the earlier tokens included.\<close>

theorem mem_batch_resolves:
  assumes "mem_inv s" "all_fresh mem_Issue mem_fresh s xs now" "issue_list mem_Issue s xs now = (Inr ts, s')"
  shows "length ts = length xs \<and>
    (\<forall>i < length xs. mem_Resolve s' (fst (xs ! i)) (ts ! i) now = Inr (Some (fst (snd (xs ! i)))))"
  by (rule memory.issue_list_resolves [OF assms])

definition demo_batch :: "(token_key \<times> string \<times> string option) list" where
  "demo_batch =
     [(\<lparr>tk_Tenant = ''a'', tk_Namespace = ''n''\<rparr>, ''x'', Some ''1''),
      (\<lparr>tk_Tenant = ''b'', tk_Namespace = ''n''\<rparr>, ''x'', Some ''1''),
      (\<lparr>tk_Tenant = ''a'', tk_Namespace = ''n''\<rparr>, ''x'', Some ''2'')]"

theorem mem_batch_resolves_witness:
  "mem_Resolve (snd (issue_list mem_Issue (NewMemoryTokenStore 0) demo_batch 7))
     \<lparr>tk_Tenant = ''a'', tk_Namespace = ''n''\<rparr> ''31'' 7 = Inr (Some ''x'')"
proof -
  have r: "fst (issue_list mem_Issue (NewMemoryTokenStore 0) demo_batch 7) = Inr [''31'', ''31'', ''31'']" by code_simp
  have f: "all_fresh mem_Issue mem_fresh (NewMemoryTokenStore 0) demo_batch 7" by code_simp
  obtain s' where "issue_list mem_Issue (NewMemoryTokenStore 0) demo_batch 7 = (Inr [''31'', ''31'', ''31''], s')"
    using r by (metis prod.collapse)
  from mem_batch_resolves [OF NewMemoryTokenStore_inv f this] this show ?thesis
    by (auto simp: demo_batch_def)
qed

text \<open>Erasing a tenant erases exactly that tenant: no token of it resolves afterwards, whatever
  the namespace and the time, and what any other tenant's token resolves to is unchanged. An
  invalid tenant erases nothing.\<close>

theorem mem_Clear_exact:
  fixes k :: token_key
  assumes "mem_Clear s tn = (res, s')"
  shows "(is_ok res \<longrightarrow> tk_Tenant k = tn \<longrightarrow> mem_Resolve s' k t later \<noteq> Inr (Some v)) \<and>
    (tk_Tenant k \<noteq> tn \<longrightarrow> mem_Resolve s' k t later = mem_Resolve s k t later) \<and>
    (\<not> ValidateTenant tn \<longrightarrow> res = Inl InvalidTenant \<and> s' = s)"
  using mem_Clear_erases mem_Clear_other [OF assms] mem_Clear_invalid [OF assms] assms
  by (auto simp: is_ok_iff)

theorem mem_Clear_exact_witness:
  "mem_Resolve (snd (mem_Clear (snd (issue_list mem_Issue (NewMemoryTokenStore 0) demo_batch 7)) ''a''))
     \<lparr>tk_Tenant = ''b'', tk_Namespace = ''n''\<rparr> ''31'' 9 = Inr (Some ''x'')"
proof -
  let ?s = "snd (issue_list mem_Issue (NewMemoryTokenStore 0) demo_batch 7)"
  have "mem_Resolve ?s \<lparr>tk_Tenant = ''b'', tk_Namespace = ''n''\<rparr> ''31'' 9 = Inr (Some ''x'')" by code_simp
  then show ?thesis
    using mem_Clear_exact [OF prod.collapse [symmetric], of ?s "''a''" "\<lparr>tk_Tenant = ''b'', tk_Namespace = ''n''\<rparr>" "''31''" 9]
    by simp
qed

end
