(* ===== verification/TokenCrypto.thy ===== *)
theory TokenCrypto imports TokenStore begin

text \<open>
  Keys and encryption of the token vault (\<open>pii/anonymize/tenant.go\<close>, \<open>pii/anonymize/tokencrypto.go\<close>).
  HKDF, HMAC and AES-GCM are parameters, the fields of \<open>crypto\<close>; what is relied on is named in
  \<open>aead_laws\<close>. Random bytes are arguments, None when the source of randomness fails.
\<close>

section \<open>Primitives\<close>

record crypto =
  cr_hkdf :: "string \<Rightarrow> string \<Rightarrow> string \<Rightarrow> string option"
  cr_hmac :: "string \<Rightarrow> string \<Rightarrow> string"
  cr_seal :: "string \<Rightarrow> string \<Rightarrow> string \<Rightarrow> string \<Rightarrow> string"
  cr_open :: "string \<Rightarrow> string \<Rightarrow> string \<Rightarrow> string \<Rightarrow> string option"

text \<open>HKDF yields the 32 bytes asked for; opening what was sealed under the same data gives the plaintext.\<close>

definition aead_laws :: "crypto \<Rightarrow> bool" where
  "aead_laws cr \<longleftrightarrow>
     (\<forall>r s i. \<exists>k. cr_hkdf cr r s i = Some k \<and> length k = 32) \<and>
     (\<forall>k n p a. cr_open cr k n (cr_seal cr k n p a) a = Some p)"

definition hkdf_len :: "crypto \<Rightarrow> bool" where
  "hkdf_len cr \<longleftrightarrow> (\<forall>r s i k. cr_hkdf cr r s i = Some k \<longrightarrow> length k = 32)"

section \<open>The key ring\<close>

record keyring =
  kr_root :: string
  kr_salt :: string
  kr_cached :: "(string, string) gomap"

definition minRootKeyLen :: nat where
  "minRootKeyLen = 32"

definition NewKeyring :: "string \<Rightarrow> string \<Rightarrow> nat + keyring" where
  "NewKeyring rt salt =
     (if length rt < minRootKeyLen then Inl (length rt)
      else Inr \<lparr>kr_root = rt, kr_salt = salt, kr_cached = []\<rparr>)"

definition tenant_info :: "string \<Rightarrow> string" where
  "tenant_info t = ''airlock/tenant/'' @ t"

text \<open>The key of a tenant, derived once and then read from the map.\<close>

definition keyring_Key :: "crypto \<Rightarrow> keyring \<Rightarrow> string \<Rightarrow> (token_error + string) \<times> keyring" where
  "keyring_Key cr kr t =
     (if \<not> ValidateTenant t then (Inl InvalidTenant, kr)
      else case gm_get (kr_cached kr) t of
        Some k \<Rightarrow> (Inr k, kr)
      | None \<Rightarrow>
          case cr_hkdf cr (kr_root kr) (kr_salt kr) (tenant_info t) of
            None \<Rightarrow> (Inl CryptoFailed, kr)
          | Some k \<Rightarrow> (Inr k, kr\<lparr>kr_cached := gm_set t k (kr_cached kr)\<rparr>))"

definition derive :: "crypto \<Rightarrow> keyring \<Rightarrow> string \<Rightarrow> string \<Rightarrow> token_error + string" where
  "derive cr kr info t =
     (if \<not> ValidateTenant t then Inl InvalidTenant
      else case cr_hkdf cr (kr_root kr) (kr_salt kr) info of None \<Rightarrow> Inl CryptoFailed | Some k \<Rightarrow> Inr k)"

definition identity_info :: "string \<Rightarrow> string \<Rightarrow> string" where
  "identity_info epoch t = ''airlock/token-identity/'' @ epoch @ ''/'' @ t"

definition data_info :: "string \<Rightarrow> string \<Rightarrow> string" where
  "data_info version t = ''airlock/token-data/'' @ version @ ''/'' @ t"

definition TokenIdentityKey :: "crypto \<Rightarrow> keyring \<Rightarrow> string \<Rightarrow> string \<Rightarrow> token_error + string" where
  "TokenIdentityKey cr kr t epoch =
     (if epoch = [] then Inl EmptyEpoch else derive cr kr (identity_info epoch t) t)"

definition DataKey :: "crypto \<Rightarrow> keyring \<Rightarrow> string \<Rightarrow> string \<Rightarrow> token_error + string" where
  "DataKey cr kr t version =
     (if version = [] then Inl EmptyVersion else derive cr kr (data_info version t) t)"

section \<open>Sealing\<close>

definition aeadAAD :: "string \<Rightarrow> string \<Rightarrow> string \<Rightarrow> string \<Rightarrow> string \<Rightarrow> string" where
  "aeadAAD tenant ns token version epoch =
     tenant @ [NUL] @ ns @ [NUL] @ token @ [NUL] @ version @ [NUL] @ epoch"

text \<open>AES takes keys of 16, 24 and 32 bytes; the nonce of GCM has 12.\<close>

definition newGCM :: "string \<Rightarrow> token_error option" where
  "newGCM key = (if length key \<in> {16, 24, 32} then None else Some CryptoFailed)"

definition NonceSize :: nat where
  "NonceSize = 12"

definition sealValue :: "crypto \<Rightarrow> string \<Rightarrow> string \<Rightarrow> string \<Rightarrow> string option \<Rightarrow> token_error + string \<times> string" where
  "sealValue cr key plaintext aad raw =
     (case newGCM key of
        Some e \<Rightarrow> Inl e
      | None \<Rightarrow>
          case raw of
            None \<Rightarrow> Inl NoRandom
          | Some nonce \<Rightarrow> Inr (nonce, cr_seal cr key nonce plaintext aad))"

definition openValue :: "crypto \<Rightarrow> string \<Rightarrow> string \<Rightarrow> string \<Rightarrow> string \<Rightarrow> token_error + string" where
  "openValue cr key nonce ct aad =
     (case newGCM key of
        Some e \<Rightarrow> Inl e
      | None \<Rightarrow>
          if length nonce \<noteq> NonceSize then Inl BadNonce
          else case cr_open cr key nonce ct aad of None \<Rightarrow> Inl CryptoFailed | Some p \<Rightarrow> Inr p)"

definition deriveTokenIdentity :: "crypto \<Rightarrow> string \<Rightarrow> string \<Rightarrow> string \<Rightarrow> string" where
  "deriveTokenIdentity cr ik ns value = hex_encode (take 16 (cr_hmac cr ik (ns @ [NUL] @ value)))"

section \<open>Facts\<close>

lemma openValue_seal:
  "aead_laws cr \<Longrightarrow> length key = 32 \<Longrightarrow> length nonce = NonceSize \<Longrightarrow>
   openValue cr key nonce (cr_seal cr key nonce p aad) aad = Inr p"
  by (simp add: openValue_def aead_laws_def newGCM_def)

lemma derive_ok: "aead_laws cr \<Longrightarrow> ValidateTenant t \<Longrightarrow> \<exists>k. derive cr kr info t = Inr k \<and> length k = 32"
  unfolding aead_laws_def derive_def by (metis option.simps(5))

text \<open>The cached key is the derived one: the map only saves time.\<close>

definition keyring_inv :: "crypto \<Rightarrow> keyring \<Rightarrow> bool" where
  "keyring_inv cr kr \<longleftrightarrow>
     (\<forall>t k. gm_get (kr_cached kr) t = Some k \<longrightarrow> ValidateTenant t \<and> cr_hkdf cr (kr_root kr) (kr_salt kr) (tenant_info t) = Some k)"

lemma NewKeyring_inv: "NewKeyring rt salt = Inr kr \<Longrightarrow> keyring_inv cr kr"
  by (auto simp: NewKeyring_def keyring_inv_def split: if_splits)

lemma keyring_Key_derives:
  assumes "keyring_inv cr kr" "keyring_Key cr kr t = (r, kr')"
  shows "r = derive cr kr (tenant_info t) t" "keyring_inv cr kr'"
    "kr_root kr' = kr_root kr" "kr_salt kr' = kr_salt kr"
proof -
  show "r = derive cr kr (tenant_info t) t"
    using assms by (auto simp: keyring_Key_def keyring_inv_def derive_def split: if_splits option.splits)
  show *: "kr_root kr' = kr_root kr" "kr_salt kr' = kr_salt kr"
    using assms(2) by (auto simp: keyring_Key_def split: if_splits option.splits)
  show "keyring_inv cr kr'"
    using assms by (auto simp: keyring_Key_def keyring_inv_def gm_get_set split: if_splits option.splits)
qed

text \<open>The four separators cannot be forged: different fields give different associated data.\<close>

lemma aeadAAD_inj:
  assumes "NUL \<notin> set t" "NUL \<notin> set n" "NUL \<notin> set k" "NUL \<notin> set v"
    and "NUL \<notin> set t'" "NUL \<notin> set n'" "NUL \<notin> set k'" "NUL \<notin> set v'"
  shows "aeadAAD t n k v e = aeadAAD t' n' k' v' e' \<longleftrightarrow> t = t' \<and> n = n' \<and> k = k' \<and> v = v' \<and> e = e'"
  using assms by (simp add: aeadAAD_def NUL_split)

lemma label_no_slash: "validateLabel l = None \<Longrightarrow> CHR ''/'' \<notin> set l"
  by (auto simp: validateLabel_def label_char_def is_lower_def is_digit_def in_range_def byte_def split: if_splits)

text \<open>The three families of keys that a key ring derives never coincide in their HKDF info: two
  keys are derived from the same info only when they have the same purpose, the same tenant and
  the same epoch or version.\<close>

theorem key_infos_distinct:
  assumes "validateLabel e = None" "validateLabel e' = None" "validateLabel v = None" "validateLabel v' = None"
  shows "(identity_info e t = identity_info e' t' \<longleftrightarrow> e = e' \<and> t = t') \<and>
    (data_info v t = data_info v' t' \<longleftrightarrow> v = v' \<and> t = t') \<and>
    (tenant_info t = tenant_info t' \<longleftrightarrow> t = t') \<and>
    identity_info e t \<noteq> data_info v t' \<and> tenant_info t \<noteq> identity_info e t' \<and> tenant_info t \<noteq> data_info v t'"
  using assms by (simp add: identity_info_def data_info_def tenant_info_def label_no_slash append_sep)

theorem key_infos_distinct_witness: "identity_info ''e1'' ''acme'' \<noteq> data_info ''v1'' ''acme''"
  using key_infos_distinct [of "''e1''" "''e1''" "''v1''" "''v1''" "''acme''" "''acme''"]
  by (simp add: validateLabel_def label_char_def is_lower_def is_digit_def in_range_def byte_def)

end
