(* ===== verification/CacheStore.thy ===== *)
theory CacheStore imports TokenCrypto begin

text \<open>
  The token store over a shared cache (\<open>pii/anonymize/tokenstore.go\<close>, \<open>CacheTokenStore\<close>). Tokens
  are derived from the value, so replicas agree on them; the cache holds one sealed record per
  token. The cache is behind the interface \<open>Cache\<close>: its operations are arguments, its promises
  the locale \<open>cache_backend\<close>, which the in-memory cache of the repository's tests keeps.
\<close>

section \<open>The cache interface\<close>

text \<open>
  \<open>view c key t\<close> is what the key holds at time \<open>t\<close> if nothing is written until then; operations
  take the time at which they happen.
\<close>

locale cache_backend =
  fixes cget :: "'c \<Rightarrow> string \<Rightarrow> int \<Rightarrow> token_error + string option"
    and find_or_create :: "'c \<Rightarrow> string \<Rightarrow> string \<Rightarrow> int \<Rightarrow> int \<Rightarrow> (token_error + string \<times> bool) \<times> 'c"
    and delete_prefix :: "'c \<Rightarrow> string \<Rightarrow> (token_error + nat) \<times> 'c"
    and view :: "'c \<Rightarrow> string \<Rightarrow> int \<Rightarrow> string option"
  assumes get_answers: "cget c key now = Inr (view c key now)"
    and absent_stays: "now \<le> later \<Longrightarrow> view c key now = None \<Longrightarrow> view c key later = None"
    and create_answers: "find_or_create c key val ttl now = (Inr (cur, created), c') \<Longrightarrow> view c' key now = Some cur"
    and create_kept: "find_or_create c key val ttl now = (res, c') \<Longrightarrow> now \<le> later \<Longrightarrow>
      k \<noteq> key \<or> view c key now \<noteq> None \<Longrightarrow> view c' k later = view c k later"
    and create_new: "find_or_create c key val ttl now = (Inr (cur, created), c') \<Longrightarrow>
      view c key now = None \<Longrightarrow> cur = val"
    and delete_gone: "delete_prefix c p = (Inr n, c') \<Longrightarrow> has_prefix k p \<Longrightarrow> view c' k now = None"
    and delete_kept: "delete_prefix c p = (dres, c') \<Longrightarrow> \<not> has_prefix k p \<Longrightarrow> view c' k now = view c k now"

text \<open>The operations as one argument.\<close>

record 'c cache_ops =
  co_get :: "'c \<Rightarrow> string \<Rightarrow> int \<Rightarrow> token_error + string option"
  co_find_or_create :: "'c \<Rightarrow> string \<Rightarrow> string \<Rightarrow> int \<Rightarrow> int \<Rightarrow> (token_error + string \<times> bool) \<times> 'c"
  co_delete_prefix :: "'c \<Rightarrow> string \<Rightarrow> (token_error + nat) \<times> 'c"

definition cache_laws :: "'c cache_ops \<Rightarrow> ('c \<Rightarrow> string \<Rightarrow> int \<Rightarrow> string option) \<Rightarrow> bool" where
  "cache_laws ops view \<longleftrightarrow> cache_backend (co_get ops) (co_find_or_create ops) (co_delete_prefix ops) view"

section \<open>The store\<close>

record cache_store =
  cs_keyring :: keyring
  cs_ttl :: int
  cs_prefix :: string
  cs_epoch :: string
  cs_version :: string

datatype cache_option = WithIdentityEpoch string | WithDataKeyVersion string

fun apply_option :: "cache_option \<Rightarrow> cache_store \<Rightarrow> cache_store" where
  "apply_option (WithIdentityEpoch e) s = s\<lparr>cs_epoch := e\<rparr>"
| "apply_option (WithDataKeyVersion v) s = s\<lparr>cs_version := v\<rparr>"

definition DefaultTokenIdentityEpoch :: string where "DefaultTokenIdentityEpoch = ''e1''"
definition DefaultDataKeyVersion :: string where "DefaultDataKeyVersion = ''v1''"

text \<open>A nil cache or key ring is None.\<close>

definition NewCacheTokenStore ::
    "'c cache_ops option \<Rightarrow> keyring option \<Rightarrow> int \<Rightarrow> string \<Rightarrow> cache_option list \<Rightarrow> token_error + cache_store" where
  "NewCacheTokenStore c kr ttl prefix opts =
     (case c of
        None \<Rightarrow> Inl NilStore
      | Some _ \<Rightarrow>
          case kr of
            None \<Rightarrow> Inl NilKeyring
          | Some kr \<Rightarrow>
              if ttl < 0 then Inl NegativeTTL
              else
                let s = fold apply_option opts
                     \<lparr>cs_keyring = kr, cs_ttl = ttl, cs_prefix = (if prefix = [] then ''airlock:tok:'' else prefix),
                      cs_epoch = DefaultTokenIdentityEpoch, cs_version = DefaultDataKeyVersion\<rparr> in
                case validateLabel (cs_epoch s) of
                  Some e \<Rightarrow> Inl e
                | None \<Rightarrow> (case validateLabel (cs_version s) of Some e \<Rightarrow> Inl e | None \<Rightarrow> Inr s))"

definition tenantPrefix :: "cache_store \<Rightarrow> string \<Rightarrow> string" where
  "tenantPrefix s t = cs_prefix s @ t @ '':''"

definition tokenKey :: "cache_store \<Rightarrow> token_key \<Rightarrow> string \<Rightarrow> string" where
  "tokenKey s k token = tenantPrefix s (tk_Tenant k) @ tk_Namespace k @ '':t:'' @ token"

definition deriveToken :: "crypto \<Rightarrow> cache_store \<Rightarrow> token_key \<Rightarrow> string \<Rightarrow> token_error + string" where
  "deriveToken cr s k v =
     res_bind (TokenIdentityKey cr (cs_keyring s) (tk_Tenant k) (cs_epoch s))
       (\<lambda>ik. Inr (deriveTokenIdentity cr ik (tk_Namespace k) v))"

definition decodeAndOpen :: "crypto \<Rightarrow> cache_store \<Rightarrow> token_key \<Rightarrow> string \<Rightarrow> string \<Rightarrow> token_error + string" where
  "decodeAndOpen cr s k token raw =
     res_bind (DecodeTokenRecord raw) (\<lambda>rec.
     res_bind (DataKey cr (cs_keyring s) (tk_Tenant k) (tr_KeyVersion rec)) (\<lambda>dk.
       openValue cr dk (tr_Nonce rec) (tr_Ciphertext rec)
         (aeadAAD (tk_Tenant k) (tk_Namespace k) token (tr_KeyVersion rec) (tr_IdentityEpoch rec))))"

text \<open>The record that Issue offers to the cache, and what it makes of the record it gets back.\<close>

definition issue_record ::
    "crypto \<Rightarrow> cache_store \<Rightarrow> token_key \<Rightarrow> string \<Rightarrow> string \<Rightarrow> string option \<Rightarrow> int \<Rightarrow> token_error + token_record" where
  "issue_record cr s k tok v raw now =
     res_bind (DataKey cr (cs_keyring s) (tk_Tenant k) (cs_version s)) (\<lambda>dk.
     res_bind (sealValue cr dk v (aeadAAD (tk_Tenant k) (tk_Namespace k) tok (cs_version s) (cs_epoch s)) raw)
       (\<lambda>(nonce, ct). Inr
          \<lparr>tr_KeyVersion = cs_version s, tr_IdentityEpoch = cs_epoch s, tr_Nonce = nonce, tr_Ciphertext = ct,
           tr_ExpiresAt = (if cs_ttl s > 0 then Some (now + cs_ttl s) else None)\<rparr>))"

definition confirm_issue ::
    "crypto \<Rightarrow> cache_store \<Rightarrow> token_key \<Rightarrow> string \<Rightarrow> string \<Rightarrow> string \<Rightarrow> int \<Rightarrow> token_error + string" where
  "confirm_issue cr s k tok v current now =
     res_bind (DecodeTokenRecord current) (\<lambda>rec.
       if record_Expired rec now then Inl ExpiredMapping
       else res_bind (decodeAndOpen cr s k tok current) (\<lambda>plain.
         if plain \<noteq> v then Inl TokenCollision else Inr tok))"

definition cache_Issue ::
    "crypto \<Rightarrow> 'c cache_ops \<Rightarrow> cache_store \<Rightarrow> 'c \<Rightarrow> token_key \<Rightarrow> string \<Rightarrow> string option \<Rightarrow> int \<Rightarrow>
     (token_error + string) \<times> 'c" where
  "cache_Issue cr ops s c k v raw now =
     (case key_Validate k of
        Some e \<Rightarrow> (Inl e, c)
      | None \<Rightarrow>
          case deriveToken cr s k v of
            Inl e \<Rightarrow> (Inl e, c)
          | Inr tok \<Rightarrow>
              case issue_record cr s k tok v raw now of
                Inl e \<Rightarrow> (Inl e, c)
              | Inr rec \<Rightarrow>
                  case co_find_or_create ops c (tokenKey s k tok) (record_Encode rec) (cs_ttl s) now of
                    (Inl e, c) \<Rightarrow> (Inl Backend, c)
                  | (Inr (current, _), c) \<Rightarrow> (confirm_issue cr s k tok v current now, c))"

definition cache_Resolve ::
    "crypto \<Rightarrow> 'c cache_ops \<Rightarrow> cache_store \<Rightarrow> 'c \<Rightarrow> token_key \<Rightarrow> string \<Rightarrow> int \<Rightarrow> token_error + string option" where
  "cache_Resolve cr ops s c k token now =
     (case key_Validate k of
        Some e \<Rightarrow> Inl e
      | None \<Rightarrow>
          case co_get ops c (tokenKey s k token) now of
            Inl e \<Rightarrow> Inl Backend
          | Inr None \<Rightarrow> Inr None
          | Inr (Some raw) \<Rightarrow>
              res_bind (DecodeTokenRecord raw) (\<lambda>rec.
                if record_Expired rec now then Inr None
                else res_bind (decodeAndOpen cr s k token raw) (\<lambda>plain. Inr (Some plain))))"

definition cache_Clear :: "'c cache_ops \<Rightarrow> cache_store \<Rightarrow> 'c \<Rightarrow> string \<Rightarrow> (token_error + nat) \<times> 'c" where
  "cache_Clear ops s c tenant =
     (if \<not> ValidateTenant tenant then (Inl InvalidTenant, c)
      else case co_delete_prefix ops c (tenantPrefix s tenant) of
        (Inl e, c) \<Rightarrow> (Inl Backend, c)
      | (Inr n, c) \<Rightarrow> (Inr n, c))"

section \<open>Cache keys do not collide\<close>

lemma tenant_no_colon: "ValidateTenant t \<Longrightarrow> CHR '':'' \<notin> set t"
  by (auto simp: ValidateTenant_def alnum_def is_digit_def is_upper_def is_lower_def in_range_def byte_def
      split: list.splits)

lemma namespace_no_colon: "key_Validate k = None \<Longrightarrow> CHR '':'' \<notin> set (tk_Namespace k)"
  by (auto simp: key_Validate_def namespace_char_def is_lower_def is_digit_def in_range_def byte_def split: if_splits)

lemma tokenKey_inj:
  assumes "key_Validate k = None" "key_Validate l = None"
  shows "tokenKey s k x = tokenKey s l y \<longleftrightarrow> k = l \<and> x = y"
proof -
  have "tokenKey s k x = tokenKey s l y \<longleftrightarrow> tk_Tenant k = tk_Tenant l \<and> tk_Namespace k = tk_Namespace l \<and> x = y"
    using assms by (simp add: tokenKey_def tenantPrefix_def append_sep tenant_no_colon namespace_no_colon key_tenant)
  then show ?thesis by (auto intro: token_key.equality)
qed

lemma tokenKey_prefix:
  assumes "key_Validate k = None" "ValidateTenant t"
  shows "has_prefix (tokenKey s k x) (tenantPrefix s t) \<longleftrightarrow> tk_Tenant k = t"
  using assms by (auto simp: has_prefix_iff tokenKey_def tenantPrefix_def append_sep tenant_no_colon key_tenant)

section \<open>The store keeps the contract of a token store\<close>

lemma cache_Issue_cases:
  assumes "cache_Issue cr ops s c k v raw now = (res, c')"
  obtains (refused) e where "c' = c" "res = Inl e"
    | (called) tok rec r where "key_Validate k = None" "deriveToken cr s k v = Inr tok"
        "issue_record cr s k tok v raw now = Inr rec"
        "co_find_or_create ops c (tokenKey s k tok) (record_Encode rec) (cs_ttl s) now = (r, c')"
        "res = (case r of Inl _ \<Rightarrow> Inl Backend | Inr (current, _) \<Rightarrow> confirm_issue cr s k tok v current now)"
proof (cases "key_Validate k")
  case (Some e)
  then show ?thesis using assms by (intro refused [of e]) (simp_all add: cache_Issue_def)
next
  case None
  show ?thesis
  proof (cases "deriveToken cr s k v")
    case (Inl e)
    then show ?thesis using assms None by (intro refused [of e]) (simp_all add: cache_Issue_def)
  next
    case tok: (Inr tok)
    show ?thesis
    proof (cases "issue_record cr s k tok v raw now")
      case (Inl e)
      then show ?thesis using assms None tok by (intro refused [of e]) (simp_all add: cache_Issue_def)
    next
      case (Inr rec)
      obtain r d where F: "co_find_or_create ops c (tokenKey s k tok) (record_Encode rec) (cs_ttl s) now = (r, d)"
        by fastforce
      then have "d = c'" "res = (case r of Inl _ \<Rightarrow> Inl Backend | Inr (current, _) \<Rightarrow> confirm_issue cr s k tok v current now)"
        using assms None tok Inr by (auto simp: cache_Issue_def split: sum.splits prod.splits)
      then show ?thesis using called None tok Inr F by blast
    qed
  qed
qed

lemma confirm_issue_Inr:
  "confirm_issue cr s k tok v current now = Inr t \<longleftrightarrow>
   t = tok \<and> (\<exists>rec. DecodeTokenRecord current = Inr rec \<and> \<not> record_Expired rec now \<and>
     decodeAndOpen cr s k tok current = Inr v)"
  by (auto simp: confirm_issue_def res_bind_eq_Inr)

lemma cache_Resolve_view:
  assumes "cache_laws ops view"
  shows "cache_Resolve cr ops s c k token now =
    (case key_Validate k of Some e \<Rightarrow> Inl e
     | None \<Rightarrow> (case view c (tokenKey s k token) now of None \<Rightarrow> Inr None
         | Some raw \<Rightarrow> res_bind (DecodeTokenRecord raw) (\<lambda>rec. if record_Expired rec now then Inr None
             else res_bind (decodeAndOpen cr s k token raw) (\<lambda>plain. Inr (Some plain)))))"
  using cache_backend.get_answers [OF assms [unfolded cache_laws_def]] by (simp add: cache_Resolve_def split: option.split)

lemma cache_issue_resolves:
  assumes ops: "cache_laws ops view" and I: "cache_Issue cr ops s c k v raw now = (Inr t, c')"
  shows "cache_Resolve cr ops s c' k t now = Inr (Some v)"
  using I
proof (cases rule: cache_Issue_cases)
  case (called tok rec r)
  then obtain current created where r: "r = Inr (current, created)" "confirm_issue cr s k tok v current now = Inr t"
    by (auto split: sum.splits)
  then have t: "t = tok" by (simp add: confirm_issue_Inr)
  have "view c' (tokenKey s k t) now = Some current"
    using cache_backend.create_answers [OF ops [unfolded cache_laws_def] called(4) [unfolded r]] t by simp
  then show ?thesis using r called(1) t by (auto simp: cache_Resolve_view [OF ops] confirm_issue_Inr)
qed simp

lemma cache_issue_view:
  assumes ops: "cache_laws ops view" and I: "cache_Issue cr ops s c k v raw now = (res, c')" and t: "now \<le> later"
    and k: "key_Validate k' = None" "k' \<noteq> k \<or> view c (tokenKey s k' t') later \<noteq> None"
  shows "view c' (tokenKey s k' t') later = view c (tokenKey s k' t') later"
  using I
proof (cases rule: cache_Issue_cases)
  case (called tok rec r)
  note laws = ops [unfolded cache_laws_def]
  have "tokenKey s k' t' \<noteq> tokenKey s k tok \<or> view c (tokenKey s k tok) now \<noteq> None"
  proof (cases "tokenKey s k' t' = tokenKey s k tok")
    case True
    then show ?thesis using k called(1) cache_backend.absent_stays [OF laws t, of c "tokenKey s k tok"] tokenKey_inj by metis
  qed simp
  then show ?thesis using cache_backend.create_kept [OF laws called(4) t] by metis
qed simp

lemma cache_Resolve_cong:
  assumes "cache_laws ops view" "key_Validate k = None \<Longrightarrow> view c' (tokenKey s k t) now = view c (tokenKey s k t) now"
  shows "cache_Resolve cr ops s c' k t now = cache_Resolve cr ops s c k t now"
  using assms(2) by (cases "key_Validate k") (simp_all add: cache_Resolve_view [OF assms(1)])

lemma cache_Clear_cases:
  assumes "cache_Clear ops s c tn = (res, c')"
  obtains "\<not> ValidateTenant tn" "c' = c" "res = Inl InvalidTenant"
    | r where "ValidateTenant tn" "co_delete_prefix ops c (tenantPrefix s tn) = (r, c')"
      "res = (case r of Inl _ \<Rightarrow> Inl Backend | Inr n \<Rightarrow> Inr n)"
  using assms by (auto simp: cache_Clear_def split: if_splits prod.splits sum.splits)

text \<open>
  C11: Over any cache that keeps the promises of the \<open>Cache\<close> interface the store is a token store:
  a token that Issue returned resolves to the value, later calls do not disturb it, no call on
  one tenant and namespace changes what another resolves, and clearing a tenant erases exactly
  its tokens. Nothing is asked of the ciphers: Issue checks what it got back before it answers.
\<close>

theorem cache_store_contract:
  assumes ops: "cache_laws ops view"
  shows "token_store (cache_Issue cr ops s) (cache_Resolve cr ops s) (cache_Clear ops s) (\<lambda>c. True) (\<lambda>c k raw. True)"
proof unfold_locales
  fix c k v raw now res c' k' t' v' and later :: int
  assume I: "cache_Issue cr ops s c k v raw now = (res, c')" and t: "now \<le> later"
  show "cache_Resolve cr ops s c' k' t' later = Inr (Some v')"
    if r: "cache_Resolve cr ops s c k' t' later = Inr (Some v')"
  proof -
    have "view c (tokenKey s k' t') later \<noteq> None" if "key_Validate k' = None"
      using r that by (auto simp: cache_Resolve_view [OF ops] split: option.splits)
    then have "cache_Resolve cr ops s c' k' t' later = cache_Resolve cr ops s c k' t' later"
      by (intro cache_Resolve_cong [OF ops] cache_issue_view [OF ops I t]) auto
    then show ?thesis using r by simp
  qed
  show "cache_Resolve cr ops s c' k' t' later = cache_Resolve cr ops s c k' t' later" if "k' \<noteq> k"
    using that by (intro cache_Resolve_cong [OF ops] cache_issue_view [OF ops I t]) auto
next
  fix c k v raw now t c'
  assume "cache_Issue cr ops s c k v raw now = (Inr t, c')"
  then show "cache_Resolve cr ops s c' k t now = Inr (Some v)" by (rule cache_issue_resolves [OF ops])
next
  note laws = ops [unfolded cache_laws_def]
  fix c tn cres c' t and k :: token_key and later
  assume C: "cache_Clear ops s c tn = (cres, c')" and k: "tk_Tenant k \<noteq> tn"
  show "cache_Resolve cr ops s c' k t later = cache_Resolve cr ops s c k t later"
    using C
  proof (cases rule: cache_Clear_cases)
    case (2 r)
    then show ?thesis using k cache_backend.delete_kept [OF laws 2(2)]
      by (intro cache_Resolve_cong [OF ops]) (simp add: tokenKey_prefix)
  qed simp
next
  note laws = ops [unfolded cache_laws_def]
  fix c tn n c' t v and k :: token_key and later
  assume C: "cache_Clear ops s c tn = (Inr n, c')" and k: "tk_Tenant k = tn"
  show "cache_Resolve cr ops s c' k t later \<noteq> Inr (Some v)"
    using C
  proof (cases rule: cache_Clear_cases)
    case (2 r)
    then obtain m where "r = Inr m" by (auto split: sum.splits)
    then have "view c' (tokenKey s k t) later = None" if "key_Validate k = None"
      using cache_backend.delete_gone [OF laws] 2 k that tokenKey_prefix by blast
    then show ?thesis by (simp add: cache_Resolve_view [OF ops] split: option.split)
  qed simp
qed simp_all

section \<open>The cache of the tests\<close>

text \<open>
  \<open>fakeCache\<close> of \<open>pii/anonymize/fakedrivers_test.go\<close>, without its counters and fault injection.
\<close>

record fake_cache =
  fc_data :: "(string, string) gomap"
  fc_expiry :: "(string, int) gomap"

definition newFakeCache :: fake_cache where
  "newFakeCache = \<lparr>fc_data = [], fc_expiry = []\<rparr>"

definition fake_expired :: "fake_cache \<Rightarrow> string \<Rightarrow> int \<Rightarrow> bool" where
  "fake_expired c key now = (case gm_get (fc_expiry c) key of None \<Rightarrow> False | Some t \<Rightarrow> now > t)"

definition fake_view :: "fake_cache \<Rightarrow> string \<Rightarrow> int \<Rightarrow> string option" where
  "fake_view c key now = (if fake_expired c key now then None else gm_get (fc_data c) key)"

definition fake_get :: "fake_cache \<Rightarrow> string \<Rightarrow> int \<Rightarrow> token_error + string option" where
  "fake_get c key now = Inr (fake_view c key now)"

definition fake_find_or_create ::
    "fake_cache \<Rightarrow> string \<Rightarrow> string \<Rightarrow> int \<Rightarrow> int \<Rightarrow> (token_error + string \<times> bool) \<times> fake_cache" where
  "fake_find_or_create c key val ttl now =
     (case fake_view c key now of
        Some existing \<Rightarrow> (Inr (existing, False), c)
      | None \<Rightarrow>
          (Inr (val, True),
           \<lparr>fc_data = gm_set key val (fc_data c),
            fc_expiry = (let m = gm_del key (fc_expiry c) in if ttl > 0 then gm_set key (now + ttl) m else m)\<rparr>))"

definition fake_delete_prefix :: "fake_cache \<Rightarrow> string \<Rightarrow> (token_error + nat) \<times> fake_cache" where
  "fake_delete_prefix c p =
     (Inr (length (filter (\<lambda>q. has_prefix (fst q) p \<and> contains (fst q) '':t:'') (fc_data c))),
      c\<lparr>fc_data := erase_prefix p (fc_data c)\<rparr>)"

lemma fake_view_create:
  assumes "fake_find_or_create c key val ttl now = (res, c')" "now \<le> later"
  shows "k \<noteq> key \<or> fake_view c key now \<noteq> None \<Longrightarrow> fake_view c' k later = fake_view c k later"
    "\<exists>cur created. res = Inr (cur, created) \<and> fake_view c' key now = Some cur"
  using assms
  by (auto simp: fake_find_or_create_def fake_view_def fake_expired_def Let_def gm_simps
      split: option.splits if_splits)

interpretation fake: cache_backend fake_get fake_find_or_create fake_delete_prefix fake_view
proof unfold_locales
  fix c key val cur created c' k res and ttl now later :: int
  show "fake_get c key now = Inr (fake_view c key now)" by (simp add: fake_get_def)
  show "fake_view c key now = None \<Longrightarrow> now \<le> later \<Longrightarrow> fake_view c key later = None"
    by (auto simp: fake_view_def fake_expired_def split: option.splits if_splits)
  show "fake_find_or_create c key val ttl now = (Inr (cur, created), c') \<Longrightarrow> fake_view c' key now = Some cur"
    using fake_view_create(2) [of c key val ttl now "Inr (cur, created)" c' now] by auto
  show "fake_view c' k later = fake_view c k later"
    if "fake_find_or_create c key val ttl now = (res, c')" "now \<le> later" "k \<noteq> key \<or> fake_view c key now \<noteq> None"
    using fake_view_create(1) that by blast
  show "fake_find_or_create c key val ttl now = (Inr (cur, created), c') \<Longrightarrow> fake_view c key now = None \<Longrightarrow> cur = val"
    by (simp add: fake_find_or_create_def)
next
  fix c p n c' k dres and now :: int
  show "fake_delete_prefix c p = (Inr n, c') \<Longrightarrow> has_prefix k p \<Longrightarrow> fake_view c' k now = None"
    by (auto simp: fake_delete_prefix_def fake_view_def gm_get_erase)
  show "fake_delete_prefix c p = (dres, c') \<Longrightarrow> \<not> has_prefix k p \<Longrightarrow> fake_view c' k now = fake_view c k now"
    by (auto simp: fake_delete_prefix_def fake_view_def fake_expired_def gm_get_erase)
qed

definition fake_ops :: "fake_cache cache_ops" where
  "fake_ops = \<lparr>co_get = fake_get, co_find_or_create = fake_find_or_create, co_delete_prefix = fake_delete_prefix\<rparr>"

lemma fake_laws: "cache_laws fake_ops fake_view"
  by (simp add: cache_laws_def fake_ops_def fake.cache_backend_axioms)

text \<open>A trivial cipher that satisfies the hypotheses, for the examples.\<close>

definition null_crypto :: crypto where
  "null_crypto = \<lparr>cr_hkdf = (\<lambda>r s i. Some (replicate 32 CHR ''k'')), cr_hmac = (\<lambda>k m. m),
     cr_seal = (\<lambda>k n p a. p), cr_open = (\<lambda>k n c a. Some c)\<rparr>"

lemma null_aead: "aead_laws null_crypto"
  by (simp add: aead_laws_def null_crypto_def)

definition demo_store :: "int \<Rightarrow> cache_store" where
  "demo_store ttl = \<lparr>cs_keyring = \<lparr>kr_root = replicate 32 CHR ''r'', kr_salt = [], kr_cached = []\<rparr>, cs_ttl = ttl,
     cs_prefix = ''p:'', cs_epoch = ''e1'', cs_version = ''v1''\<rparr>"

definition demo_key :: token_key where
  "demo_key = \<lparr>tk_Tenant = ''acme'', tk_Namespace = ''email''\<rparr>"

lemma demo_key_valid: "key_Validate demo_key = None"
  by (simp add: demo_key_def key_Validate_def ValidateTenant_def alnum_def namespace_char_def
      is_lower_def is_digit_def is_upper_def in_range_def byte_def)

theorem cache_store_contract_witness:
  "token_store (cache_Issue null_crypto fake_ops (demo_store 0)) (cache_Resolve null_crypto fake_ops (demo_store 0))
     (cache_Clear fake_ops (demo_store 0)) (\<lambda>c. True) (\<lambda>c k raw. True)"
  by (rule cache_store_contract [OF fake_laws])

section \<open>When Issue succeeds\<close>

lemma label_ne: "validateLabel l = None \<Longrightarrow> l \<noteq> []"
  by (auto simp: validateLabel_def)

lemma unix_le: "unix t * second \<le> t" "t < unix t * second + second"
proof -
  have "t = unix t * second + t mod second" "0 \<le> t mod second" "t mod second < second"
    by (simp_all add: unix_def second_def)
  then show "unix t * second \<le> t" "t < unix t * second + second" by linarith+
qed

text \<open>What the store makes of its own record when the cache hands it back.\<close>

lemma confirm_own:
  assumes cr: "aead_laws cr" and k: "key_Validate k = None"
    and l: "validateLabel (cs_epoch s) = None" "validateLabel (cs_version s) = None"
    and n: "length nonce = NonceSize"
    and rec: "issue_record cr s k tok v (Some nonce) now = Inr rec"
    and ex: "cs_ttl s > 0 \<longrightarrow> int64 (unix (now + cs_ttl s))"
  shows "confirm_issue cr s k tok v (record_Encode rec) later =
    (if cs_ttl s > 0 \<and> unix (now + cs_ttl s) \<noteq> 0 \<and> later > unix (now + cs_ttl s) * second
     then Inl ExpiredMapping else Inr tok)"
proof -
  let ?aad = "aeadAAD (tk_Tenant k) (tk_Namespace k) tok (cs_version s) (cs_epoch s)"
  obtain dk where dk: "DataKey cr (cs_keyring s) (tk_Tenant k) (cs_version s) = Inr dk" "length dk = 32"
    using derive_ok [OF cr key_tenant [OF k]] label_ne [OF l(2)] by (auto simp: DataKey_def)
  then have r: "rec = \<lparr>tr_KeyVersion = cs_version s, tr_IdentityEpoch = cs_epoch s, tr_Nonce = nonce,
      tr_Ciphertext = cr_seal cr dk nonce v ?aad,
      tr_ExpiresAt = (if cs_ttl s > 0 then Some (now + cs_ttl s) else None)\<rparr>"
    using rec by (simp add: issue_record_def sealValue_def newGCM_def)
  define enc where "enc = record_Encode rec"
  have d: "DecodeTokenRecord enc = Inr (rec\<lparr>tr_ExpiresAt :=
      (if cs_ttl s > 0 \<and> unix (now + cs_ttl s) \<noteq> 0 then Some (unix (now + cs_ttl s) * second) else None)\<rparr>)"
    using decode_encode_record [of rec] l ex r by (simp add: unix_def enc_def)
  have f: "tr_KeyVersion rec = cs_version s" "tr_IdentityEpoch rec = cs_epoch s" "tr_Nonce rec = nonce"
    "tr_Ciphertext rec = cr_seal cr dk nonce v ?aad" by (simp_all add: r)
  have "decodeAndOpen cr s k tok enc = Inr v"
    by (simp add: decodeAndOpen_def d f dk(1) openValue_seal [OF cr dk(2) n])
  then show ?thesis unfolding enc_def [symmetric] by (auto simp: confirm_issue_def d record_Expired_def)
qed

definition cache_answers :: "'c cache_ops \<Rightarrow> 'c \<Rightarrow> bool" where
  "cache_answers ops c \<longleftrightarrow> (\<forall>key val ttl now. \<exists>r d. co_find_or_create ops c key val ttl now = (Inr r, d))"

lemma Issue_absent:
  assumes ops: "cache_laws ops view" "cache_answers ops c" and cr: "aead_laws cr" and k: "key_Validate k = None"
    and l: "validateLabel (cs_epoch s) = None" "validateLabel (cs_version s) = None"
    and tok: "deriveToken cr s k v = Inr tok" and a: "view c (tokenKey s k tok) now = None"
  obtains rec where "issue_record cr s k tok v (Some nonce) now = Inr rec"
    "fst (cache_Issue cr ops s c k v (Some nonce) now) = confirm_issue cr s k tok v (record_Encode rec) now"
proof -
  obtain dk where dk: "DataKey cr (cs_keyring s) (tk_Tenant k) (cs_version s) = Inr dk" "length dk = 32"
    using derive_ok [OF cr key_tenant [OF k]] label_ne [OF l(2)] by (auto simp: DataKey_def)
  then obtain rec where rec: "issue_record cr s k tok v (Some nonce) now = Inr rec"
    by (simp add: issue_record_def sealValue_def newGCM_def)
  obtain cur created d where F:
      "co_find_or_create ops c (tokenKey s k tok) (record_Encode rec) (cs_ttl s) now = (Inr (cur, created), d)"
    using ops(2) unfolding cache_answers_def by (metis surj_pair)
  have "cur = record_Encode rec"
    using cache_backend.create_new [OF ops(1) [unfolded cache_laws_def] F a] .
  then have "fst (cache_Issue cr ops s c k v (Some nonce) now) = confirm_issue cr s k tok v (record_Encode rec) now"
    using k tok rec F by (simp add: cache_Issue_def)
  then show thesis using that rec by blast
qed

text \<open>Issue delivers: with a working cipher, a nonce and a cache that answers, a value that has no
  live record gets its derived token whenever the retention is unlimited or at least one second.\<close>

theorem cache_Issue_succeeds:
  assumes ops: "cache_laws ops view" "cache_answers ops c" and cr: "aead_laws cr" and k: "key_Validate k = None"
    and l: "validateLabel (cs_epoch s) = None" "validateLabel (cs_version s) = None"
    and tok: "deriveToken cr s k v = Inr tok" and n: "length nonce = NonceSize"
    and a: "view c (tokenKey s k tok) now = None"
    and ttl: "cs_ttl s = 0 \<or> second \<le> cs_ttl s \<and> int64 (unix (now + cs_ttl s))"
  shows "fst (cache_Issue cr ops s c k v (Some nonce) now) = Inr tok"
proof -
  obtain rec where r: "issue_record cr s k tok v (Some nonce) now = Inr rec"
      "fst (cache_Issue cr ops s c k v (Some nonce) now) = confirm_issue cr s k tok v (record_Encode rec) now"
    by (rule Issue_absent [OF ops cr k l tok a])
  have "\<not> now > unix (now + cs_ttl s) * second" if "second \<le> cs_ttl s"
    using unix_le(2) [of "now + cs_ttl s"] that by linarith
  moreover have "cs_ttl s > 0 \<longrightarrow> int64 (unix (now + cs_ttl s))" using ttl by (auto simp: second_def)
  ultimately show ?thesis using ttl r confirm_own [OF cr k l n r(1)] by (auto simp: second_def)
qed

lemma demo_labels: "validateLabel (cs_epoch (demo_store ttl)) = None" "validateLabel (cs_version (demo_store ttl)) = None"
  by (simp_all add: demo_store_def validateLabel_def label_char_def is_lower_def is_digit_def in_range_def byte_def)

definition demo_token :: string where
  "demo_token = hex_encode (take 16 (''email'' @ [NUL] @ ''a''))"

lemma demo_derive: "deriveToken null_crypto (demo_store ttl) demo_key ''a'' = Inr demo_token"
  using key_tenant [OF demo_key_valid]
  by (simp add: deriveToken_def TokenIdentityKey_def derive_def deriveTokenIdentity_def null_crypto_def demo_store_def
      demo_key_def demo_token_def)

lemma fake_answers: "cache_answers fake_ops c"
  by (auto simp: cache_answers_def fake_ops_def fake_find_or_create_def split: option.split)

lemma fake_empty: "fake_view newFakeCache x now = None"
  by (simp add: fake_view_def newFakeCache_def)

theorem cache_Issue_succeeds_witness:
  "fst (cache_Issue null_crypto fake_ops (demo_store 0) newFakeCache demo_key ''a'' (Some (replicate 12 CHR ''n'')) 5) =
   Inr demo_token"
  by (intro cache_Issue_succeeds [OF fake_laws fake_answers null_aead demo_key_valid demo_labels demo_derive _ fake_empty])
    (simp_all add: demo_store_def NonceSize_def)

text \<open>A retention below one second is accepted by the constructor, but with it Issue refuses every
  new value it is asked for at an instant whose second the retention does not leave: the expiry of
  the record is cut to the second and lies in the past when Issue checks it.\<close>

theorem subsecond_ttl_refuses:
  assumes ops: "cache_laws ops view" "cache_answers ops c" and cr: "aead_laws cr" and k: "key_Validate k = None"
    and l: "validateLabel (cs_epoch s) = None" "validateLabel (cs_version s) = None"
    and tok: "deriveToken cr s k v = Inr tok" and n: "length nonce = NonceSize"
    and a: "view c (tokenKey s k tok) now = None"
    and ttl: "0 < cs_ttl s" "0 < now mod second" "now mod second + cs_ttl s < second" "second \<le> now" "int64 (unix now)"
  shows "fst (cache_Issue cr ops s c k v (Some nonce) now) = Inl ExpiredMapping"
proof -
  obtain rec where r: "issue_record cr s k tok v (Some nonce) now = Inr rec"
      "fst (cache_Issue cr ops s c k v (Some nonce) now) = confirm_issue cr s k tok v (record_Encode rec) now"
    by (rule Issue_absent [OF ops cr k l tok a])
  have m: "now = unix now * second + now mod second" by (simp add: unix_def)
  have "(now + cs_ttl s) div second = (unix now * second + (now mod second + cs_ttl s)) div second"
    by (subst m) (simp add: ac_simps)
  also have "\<dots> = unix now + (now mod second + cs_ttl s) div second"
    by (rule div_mult_self3) (simp add: second_def)
  also have "(now mod second + cs_ttl s) div second = 0"
    using ttl by (intro div_pos_pos_trivial) auto
  finally have u: "unix (now + cs_ttl s) = unix now" by (simp add: unix_def)
  have "unix now \<noteq> 0" using ttl(4) unix_le(2) [of now] by auto
  moreover have "now > unix now * second" using m ttl(2) by linarith
  ultimately show ?thesis using ttl r confirm_own [OF cr k l n r(1)] u by simp
qed

theorem subsecond_ttl_refuses_witness:
  "fst (cache_Issue null_crypto fake_ops (demo_store 500000000) newFakeCache demo_key ''a''
     (Some (replicate 12 CHR ''n'')) 5200000000) = Inl ExpiredMapping"
  by (intro subsecond_ttl_refuses [OF fake_laws fake_answers null_aead demo_key_valid demo_labels demo_derive _ fake_empty])
    (simp_all add: demo_store_def NonceSize_def second_def unix_def int64_def int64_min_def int64_max_def)

end
