(* ===== verification/SqlStore.thy ===== *)
theory SqlStore imports TokenCrypto begin

text \<open>
  The token store over a relational table (\<open>pii/anonymize/tokenstore.go\<close>, \<open>SQLTokenStore\<close>). The
  table and the four statements are written out from the SQL texts and the schema in the source;
  a flag per statement says whether the database answers it. Between the lookup and the insert
  of Issue other replicas may act, an argument of the model.
\<close>

section \<open>The table\<close>

record sql_row =
  rw_tenant :: string
  rw_namespace :: string
  rw_token :: string
  rw_digest :: string
  rw_cipher :: string
  rw_nonce :: string
  rw_version :: string
  rw_expires :: "int option"

type_synonym sql_table = "sql_row list"

definition row_key :: "sql_row \<Rightarrow> token_key" where
  "row_key r = \<lparr>tk_Tenant = rw_tenant r, tk_Namespace = rw_namespace r\<rparr>"

text \<open>\<open>expires_at IS NULL OR expires_at > ?\<close>\<close>

definition row_live :: "sql_row \<Rightarrow> int \<Rightarrow> bool" where
  "row_live r now = (case rw_expires r of None \<Rightarrow> True | Some t \<Rightarrow> t > now)"

definition select_by_digest :: "sql_table \<Rightarrow> token_key \<Rightarrow> string \<Rightarrow> int \<Rightarrow> string option" where
  "select_by_digest db k dig now =
     map_option rw_token (find (\<lambda>r. row_key r = k \<and> rw_digest r = dig \<and> row_live r now) db)"

definition select_by_token :: "sql_table \<Rightarrow> token_key \<Rightarrow> string \<Rightarrow> int \<Rightarrow> sql_row option" where
  "select_by_token db k tok now = find (\<lambda>r. row_key r = k \<and> rw_token r = tok \<and> row_live r now) db"

text \<open>The primary key and the unique constraint of the schema.\<close>

definition insert_row :: "sql_table \<Rightarrow> sql_row \<Rightarrow> sql_table option" where
  "insert_row db r =
     (if \<exists>q \<in> set db. row_key q = row_key r \<and> (rw_token q = rw_token r \<or> rw_digest q = rw_digest r)
      then None else Some (db @ [r]))"

definition delete_tenant :: "sql_table \<Rightarrow> string \<Rightarrow> sql_table" where
  "delete_tenant db t = filter (\<lambda>r. rw_tenant r \<noteq> t) db"

section \<open>The store\<close>

record sql_store =
  ss_keyring :: keyring
  ss_table :: string
  ss_ttl :: int
  ss_version :: string

definition table_char :: "nat \<Rightarrow> char \<Rightarrow> bool" where
  "table_char i c \<longleftrightarrow> is_lower c \<or> is_upper c \<or> c = CHR ''_'' \<or> (is_digit c \<and> i > 0)"

definition safeIdentifier :: "string \<Rightarrow> bool" where
  "safeIdentifier name \<longleftrightarrow>
     name \<noteq> [] \<and> length name \<le> 64 \<and> (\<forall>i \<in> set [0..<length name]. table_char i (name ! i))"

definition NewSQLTokenStore :: "bool \<Rightarrow> keyring option \<Rightarrow> string \<Rightarrow> int \<Rightarrow> token_error + sql_store" where
  "NewSQLTokenStore db kr table ttl =
     (if \<not> db then Inl NilStore
      else case kr of
        None \<Rightarrow> Inl NilKeyring
      | Some kr \<Rightarrow>
          if \<not> safeIdentifier table then Inl BadTable
          else Inr \<lparr>ss_keyring = kr, ss_table = table, ss_ttl = ttl, ss_version = ''v1''\<rparr>)"

text \<open>The key ring's memory of derived keys is transparent, so a call leaves the ring as it is.\<close>

definition ring_key :: "crypto \<Rightarrow> keyring \<Rightarrow> string \<Rightarrow> token_error + string" where
  "ring_key cr kr t = fst (keyring_Key cr kr t)"

definition sql_digest :: "crypto \<Rightarrow> sql_store \<Rightarrow> token_key \<Rightarrow> string \<Rightarrow> token_error + string" where
  "sql_digest cr s k v =
     res_bind (ring_key cr (ss_keyring s) (tk_Tenant k)) (\<lambda>key.
       Inr (hex_encode (cr_hmac cr key (tk_Namespace k @ [NUL] @ v))))"

definition sqlIdentityEpoch :: string where "sqlIdentityEpoch = ''sql''"

definition sealRow ::
    "crypto \<Rightarrow> sql_store \<Rightarrow> token_key \<Rightarrow> string \<Rightarrow> string \<Rightarrow> string option \<Rightarrow>
     token_error + string \<times> string \<times> string" where
  "sealRow cr s k token v raw =
     res_bind (DataKey cr (ss_keyring s) (tk_Tenant k) (ss_version s)) (\<lambda>dk.
     res_bind (sealValue cr dk v (aeadAAD (tk_Tenant k) (tk_Namespace k) token (ss_version s) sqlIdentityEpoch) raw)
       (\<lambda>(nonce, ct). Inr (nonce, ct, ss_version s)))"

definition openRow ::
    "crypto \<Rightarrow> sql_store \<Rightarrow> token_key \<Rightarrow> string \<Rightarrow> string \<Rightarrow> string \<Rightarrow> string \<Rightarrow> token_error + string" where
  "openRow cr s k token version nonce ct =
     (if version = [] then
        res_bind (ring_key cr (ss_keyring s) (tk_Tenant k)) (\<lambda>key.
          case newGCM key of
            Some e \<Rightarrow> Inl e
          | None \<Rightarrow>
              if length ct < NonceSize then Inl BadCiphertext
              else case cr_open cr key (take NonceSize ct) (drop NonceSize ct) (tk_Tenant k) of
                None \<Rightarrow> Inl CryptoFailed
              | Some p \<Rightarrow> Inr p)
      else
        res_bind (DataKey cr (ss_keyring s) (tk_Tenant k) version) (\<lambda>dk.
          openValue cr dk nonce ct (aeadAAD (tk_Tenant k) (tk_Namespace k) token version sqlIdentityEpoch)))"

text \<open>
  What a call of Issue draws and meets: the bytes of the token and of the nonce, the statements
  the database answers, and what the others do to the table between lookup and insert.
\<close>

record issue_env =
  ie_token :: "string option"
  ie_nonce :: "string option"
  ie_lookup_up :: bool
  ie_insert_up :: bool
  ie_reread_up :: bool
  ie_others :: "sql_table \<Rightarrow> sql_table"

definition sql_expires :: "sql_store \<Rightarrow> int \<Rightarrow> int option" where
  "sql_expires s now = (if ss_ttl s > 0 then Some (unix (now + ss_ttl s)) else None)"

definition sql_store_row ::
    "issue_env \<Rightarrow> sql_table \<Rightarrow> token_key \<Rightarrow> sql_row \<Rightarrow> int \<Rightarrow> (token_error + string) \<times> sql_table" where
  "sql_store_row env db k row now =
     (case (if ie_insert_up env then insert_row db row else None) of
        Some db \<Rightarrow> (Inr (rw_token row), db)
      | None \<Rightarrow>
          case (if ie_reread_up env then select_by_digest db k (rw_digest row) (unix now) else None) of
            Some winner \<Rightarrow> (Inr winner, db)
          | None \<Rightarrow> (Inl Backend, db))"

definition sql_Issue ::
    "crypto \<Rightarrow> sql_store \<Rightarrow> sql_table \<Rightarrow> token_key \<Rightarrow> string \<Rightarrow> issue_env \<Rightarrow> int \<Rightarrow>
     (token_error + string) \<times> sql_table" where
  "sql_Issue cr s db k v env now =
     (case key_Validate k of
        Some e \<Rightarrow> (Inl e, db)
      | None \<Rightarrow>
          case sql_digest cr s k v of
            Inl e \<Rightarrow> (Inl e, db)
          | Inr dig \<Rightarrow>
              if \<not> ie_lookup_up env then (Inl Backend, db)
              else case select_by_digest db k dig (unix now) of
                Some existing \<Rightarrow> (Inr existing, db)
              | None \<Rightarrow>
                  case newToken (ie_token env) of
                    Inl e \<Rightarrow> (Inl e, db)
                  | Inr tok \<Rightarrow>
                      case sealRow cr s k tok v (ie_nonce env) of
                        Inl e \<Rightarrow> (Inl e, db)
                      | Inr (nonce, ct, version) \<Rightarrow>
                          sql_store_row env (ie_others env db) k
                            \<lparr>rw_tenant = tk_Tenant k, rw_namespace = tk_Namespace k, rw_token = tok, rw_digest = dig,
                             rw_cipher = ct, rw_nonce = nonce, rw_version = version, rw_expires = sql_expires s now\<rparr>
                            now)"

definition sql_Resolve ::
    "crypto \<Rightarrow> sql_store \<Rightarrow> bool \<Rightarrow> sql_table \<Rightarrow> token_key \<Rightarrow> string \<Rightarrow> int \<Rightarrow> token_error + string option" where
  "sql_Resolve cr s up db k token now =
     (case key_Validate k of
        Some e \<Rightarrow> Inl e
      | None \<Rightarrow>
          if \<not> up then Inl Backend
          else case select_by_token db k token (unix now) of
            None \<Rightarrow> Inr None
          | Some r \<Rightarrow>
              res_bind (openRow cr s k token (rw_version r) (rw_nonce r) (rw_cipher r)) (\<lambda>v. Inr (Some v)))"

text \<open>The second flag is the driver's answer to \<open>RowsAffected\<close>.\<close>

definition sql_Clear :: "bool \<Rightarrow> bool \<Rightarrow> sql_table \<Rightarrow> string \<Rightarrow> (token_error + nat) \<times> sql_table" where
  "sql_Clear up affected db tenant =
     (if \<not> ValidateTenant tenant then (Inl InvalidTenant, db)
      else if \<not> up then (Inl Backend, db)
      else
        let n = length (filter (\<lambda>r. rw_tenant r = tenant) db); db = delete_tenant db tenant in
        if \<not> affected then (Inl Backend, db) else (Inr n, db))"

section \<open>Digests\<close>

definition hmac_inj :: "crypto \<Rightarrow> bool" where
  "hmac_inj cr \<longleftrightarrow> (\<forall>key m m'. cr_hmac cr key m = cr_hmac cr key m' \<longrightarrow> m = m')"

lemma hmac_injD: "cr_hmac cr key m = cr_hmac cr key m' \<Longrightarrow> hmac_inj cr \<Longrightarrow> m = m'"
  unfolding hmac_inj_def by blast

lemma hex_digit_inj: "m < 16 \<Longrightarrow> n < 16 \<Longrightarrow> hex_digit m = hex_digit n \<longleftrightarrow> m = n"
  by (auto simp: hex_digit_def byte_inj [symmetric] split: if_splits)

lemma hex_byte_inj:
  "hex_digit (byte c div 16) = hex_digit (byte d div 16) \<Longrightarrow> hex_digit (byte c mod 16) = hex_digit (byte d mod 16) \<Longrightarrow> c = d"
proof -
  assume a: "hex_digit (byte c div 16) = hex_digit (byte d div 16)" "hex_digit (byte c mod 16) = hex_digit (byte d mod 16)"
  have b: "byte c div 16 < 16" "byte d div 16 < 16" by (simp_all add: less_mult_imp_div_less)
  have "byte c div 16 = byte d div 16" "byte c mod 16 = byte d mod 16"
    using a b by (simp_all add: hex_digit_inj)
  then have "byte c = byte d" by (metis div_mult_mod_eq)
  then show ?thesis by (simp add: byte_inj)
qed

lemma hex_encode_inj: "hex_encode s = hex_encode t \<longleftrightarrow> s = t"
proof (induction s arbitrary: t)
  case Nil
  then show ?case by (cases t) auto
next
  case (Cons c s)
  then show ?case by (cases t) (auto dest: hex_byte_inj)
qed

lemma sql_digest_inj:
  "hmac_inj cr \<Longrightarrow> sql_digest cr s k v = Inr d \<Longrightarrow> sql_digest cr s k w = Inr d \<Longrightarrow> v = w"
  by (auto simp: sql_digest_def res_bind_eq_Inr hex_encode_inj dest!: hmac_injD)

section \<open>The invariant of the table\<close>

definition rows_unique :: "sql_table \<Rightarrow> bool" where
  "rows_unique db \<longleftrightarrow>
     (\<forall>q \<in> set db. \<forall>r \<in> set db. row_key q = row_key r \<and> (rw_token q = rw_token r \<or> rw_digest q = rw_digest r) \<longrightarrow> q = r)"

definition row_ok :: "crypto \<Rightarrow> sql_store \<Rightarrow> sql_row \<Rightarrow> bool" where
  "row_ok cr s r \<longleftrightarrow> key_Validate (row_key r) = None \<and>
     (\<exists>v. sql_digest cr s (row_key r) v = Inr (rw_digest r) \<and>
        openRow cr s (row_key r) (rw_token r) (rw_version r) (rw_nonce r) (rw_cipher r) = Inr v)"

definition sql_inv :: "crypto \<Rightarrow> sql_store \<Rightarrow> sql_table \<Rightarrow> bool" where
  "sql_inv cr s db \<longleftrightarrow> rows_unique db \<and> (\<forall>r \<in> set db. row_ok cr s r)"

lemma select_by_digest_Some:
  "select_by_digest db k dig now = Some t \<Longrightarrow>
   \<exists>r \<in> set db. row_key r = k \<and> rw_digest r = dig \<and> row_live r now \<and> rw_token r = t"
  by (auto simp: select_by_digest_def find_Some_iff)

lemma select_by_token_unique:
  assumes "rows_unique db" "r \<in> set db" "row_key r = k" "row_live r now"
  shows "select_by_token db k (rw_token r) now = Some r"
proof (cases "select_by_token db k (rw_token r) now")
  case None
  then show ?thesis using assms by (auto simp: select_by_token_def find_None_iff)
next
  case (Some q)
  then have "q \<in> set db" "row_key q = k" "rw_token q = rw_token r"
    by (auto simp: select_by_token_def find_Some_iff)
  then have "q = r" using assms unfolding rows_unique_def by metis
  then show ?thesis using Some by simp
qed

lemma sql_Resolve_row:
  assumes "sql_inv cr s db" "r \<in> set db" "row_key r = k" "row_live r (unix now)"
    and "sql_digest cr s k v = Inr (rw_digest r)" "hmac_inj cr"
  shows "sql_Resolve cr s True db k (rw_token r) now = Inr (Some v)"
proof -
  have ok: "row_ok cr s r" using assms(1,2) by (simp add: sql_inv_def)
  then obtain w where w: "sql_digest cr s k w = Inr (rw_digest r)"
      "openRow cr s k (rw_token r) (rw_version r) (rw_nonce r) (rw_cipher r) = Inr w"
    using assms(3) by (auto simp: row_ok_def)
  then have "w = v" using sql_digest_inj assms(5,6) by blast
  then show ?thesis using ok w assms select_by_token_unique [of db r k "unix now"]
    by (simp add: sql_Resolve_def row_ok_def sql_inv_def)
qed

lemma insert_row_Some:
  "insert_row db r = Some db' \<Longrightarrow> db' = db @ [r] \<and>
   (\<forall>q \<in> set db. row_key q = row_key r \<longrightarrow> rw_token q \<noteq> rw_token r \<and> rw_digest q \<noteq> rw_digest r)"
  by (auto simp: insert_row_def split: if_splits)

lemma insert_row_inv:
  "sql_inv cr s db \<Longrightarrow> row_ok cr s r \<Longrightarrow> insert_row db r = Some db' \<Longrightarrow> sql_inv cr s db'"
  using insert_row_Some [of db r db'] by (auto simp: sql_inv_def rows_unique_def)

lemma delete_tenant_inv: "sql_inv cr s db \<Longrightarrow> sql_inv cr s (delete_tenant db t)"
  by (auto simp: sql_inv_def rows_unique_def delete_tenant_def)

section \<open>What Issue does\<close>

definition nonce_ok :: "issue_env \<Rightarrow> bool" where
  "nonce_ok env \<longleftrightarrow> (\<forall>n. ie_nonce env = Some n \<longrightarrow> length n = NonceSize)"

lemma sealRow_opens:
  assumes cr: "aead_laws cr" and k: "key_Validate k = None" and n: "length nonce = NonceSize"
    and S: "sealRow cr s k tok v (Some raw) = Inr (nonce, ct, version)"
  shows "openRow cr s k tok version nonce ct = Inr v"
proof -
  obtain dk where dk: "DataKey cr (ss_keyring s) (tk_Tenant k) (ss_version s) = Inr dk"
    using S by (auto simp: sealRow_def res_bind_eq_Inr)
  then have v: "ss_version s \<noteq> []" by (auto simp: DataKey_def split: if_splits)
  then have "length dk = 32"
    using dk derive_ok [OF cr key_tenant [OF k], of "ss_keyring s" "data_info (ss_version s) (tk_Tenant k)"]
    by (auto simp: DataKey_def)
  then show ?thesis
    using S v dk openValue_seal [OF cr _ n, of dk]
    by (auto simp: sealRow_def openRow_def sealValue_def newGCM_def)
qed

lemma sql_Issue_cases:
  assumes "sql_Issue cr s db k v env now = (res, db')"
  obtains (refused) e where "db' = db" "res = Inl e"
    | (existing) dig t where "key_Validate k = None" "sql_digest cr s k v = Inr dig" "db' = db" "res = Inr t"
        "select_by_digest db k dig (unix now) = Some t"
    | (stored) dig tok raw nonce ct row where "key_Validate k = None" "sql_digest cr s k v = Inr dig"
        "ie_nonce env = Some raw" "sealRow cr s k tok v (ie_nonce env) = Inr (nonce, ct, ss_version s)" "nonce = raw"
        "row = \<lparr>rw_tenant = tk_Tenant k, rw_namespace = tk_Namespace k, rw_token = tok, rw_digest = dig,
            rw_cipher = ct, rw_nonce = nonce, rw_version = ss_version s, rw_expires = sql_expires s now\<rparr>"
        "sql_store_row env (ie_others env db) k row now = (res, db')" "select_by_digest db k dig (unix now) = None"
proof (cases "key_Validate k")
  case (Some e)
  then show ?thesis using assms by (intro refused [of e]) (simp_all add: sql_Issue_def)
next
  case k: None
  show ?thesis
  proof (cases "sql_digest cr s k v")
    case (Inl e)
    then show ?thesis using assms k by (intro refused [of e]) (simp_all add: sql_Issue_def)
  next
    case d: (Inr dig)
    show ?thesis
    proof (cases "ie_lookup_up env")
      case False
      then show ?thesis using assms k d by (intro refused [of Backend]) (simp_all add: sql_Issue_def)
    next
      case up: True
      show ?thesis
      proof (cases "select_by_digest db k dig (unix now)")
        case (Some t)
        then show ?thesis using assms k d up by (intro existing [of dig t]) (simp_all add: sql_Issue_def)
      next
        case q: None
        show ?thesis
        proof (cases "newToken (ie_token env)")
          case (Inl e)
          then show ?thesis using assms k d up q by (intro refused [of e]) (simp_all add: sql_Issue_def)
        next
          case t: (Inr tok)
          show ?thesis
          proof (cases "sealRow cr s k tok v (ie_nonce env)")
            case (Inl e)
            then show ?thesis using assms k d up q t by (intro refused [of e]) (simp_all add: sql_Issue_def)
          next
            case S: (Inr nc)
            then obtain nonce ct where e: "nc = (nonce, ct, ss_version s)" "ie_nonce env = Some nonce"
              by (auto simp: sealRow_def res_bind_eq_Inr sealValue_def split: option.splits)
            then show ?thesis using assms k d up q t S
              by (intro stored [of dig nonce tok nonce ct]) (simp_all add: sql_Issue_def)
          qed
        qed
      qed
    qed
  qed
qed

lemma sql_store_row_cases:
  assumes "sql_store_row env db k row now = (res, db')"
  obtains (inserted) "insert_row db row = Some db'" "res = Inr (rw_token row)"
    | (adopted) t where "db' = db" "res = Inr t" "select_by_digest db k (rw_digest row) (unix now) = Some t"
    | (failed) "db' = db" "res = Inl Backend"
  using assms by (auto simp: sql_store_row_def split: option.splits if_splits)

lemma sql_expires_live:
  assumes "ss_ttl s \<le> 0 \<or> second \<le> ss_ttl s" "rw_expires r = sql_expires s now"
  shows "row_live r (unix now)"
proof -
  have "unix now < unix (now + ss_ttl s)" if "second \<le> ss_ttl s"
  proof -
    have "unix now + 1 = (now + second) div second" by (simp add: unix_def second_def)
    also have "\<dots> \<le> unix (now + ss_ttl s)"
      using that zdiv_mono1 [of "now + second" "now + ss_ttl s" second] by (simp add: unix_def second_def)
    finally show ?thesis by simp
  qed
  then show ?thesis using assms by (auto simp: row_live_def sql_expires_def)
qed

text \<open>The hypotheses on the store under which the contract holds.\<close>

definition sql_setup :: "crypto \<Rightarrow> sql_store \<Rightarrow> bool" where
  "sql_setup cr s \<longleftrightarrow> aead_laws cr \<and> hmac_inj cr \<and> (ss_ttl s \<le> 0 \<or> second \<le> ss_ttl s)"

lemma sql_Issue_row:
  assumes "sql_setup cr s" "nonce_ok env" "key_Validate k = None" "sql_digest cr s k v = Inr dig"
    and "ie_nonce env = Some raw" "sealRow cr s k tok v (ie_nonce env) = Inr (nonce, ct, ss_version s)" "nonce = raw"
    and "row = \<lparr>rw_tenant = tk_Tenant k, rw_namespace = tk_Namespace k, rw_token = tok, rw_digest = dig,
            rw_cipher = ct, rw_nonce = nonce, rw_version = ss_version s, rw_expires = sql_expires s now\<rparr>"
  shows "row_ok cr s row" "row_key row = k" "row_live row (unix now)"
proof -
  show k: "row_key row = k" by (simp add: assms(8) row_key_def)
  have "openRow cr s k tok (ss_version s) nonce ct = Inr v"
    using sealRow_opens [OF _ assms(3) _ assms(6) [unfolded assms(5)]] assms(1,2,5,7)
    by (auto simp: sql_setup_def nonce_ok_def)
  then show "row_ok cr s row" unfolding row_ok_def k using assms(3,4) by (auto simp: assms(8))
  show "row_live row (unix now)"
    by (rule sql_expires_live [of s]) (use assms(1) in \<open>simp_all add: assms(8) sql_setup_def\<close>)
qed

text \<open>The table stays well formed and the token that comes back resolves, whoever won the race.\<close>

lemma sql_Issue_sound:
  assumes set: "sql_setup cr s" and n: "nonce_ok env" and i: "sql_inv cr s db" "sql_inv cr s (ie_others env db)"
    and I: "sql_Issue cr s db k v env now = (res, db')"
  shows "sql_inv cr s db'" "res = Inr t \<Longrightarrow> sql_Resolve cr s True db' k t now = Inr (Some v)"
proof -
  have h: "hmac_inj cr" using set by (simp add: sql_setup_def)
  have found: "sql_Resolve cr s True d k t now = Inr (Some v)"
    if "sql_inv cr s d" "sql_digest cr s k v = Inr dig" "select_by_digest d k dig (unix now) = Some t" for d dig t
    using select_by_digest_Some [OF that(3)] sql_Resolve_row [OF that(1) _ _ _ _ h, where v = v] that(2) by metis
  have "sql_inv cr s db' \<and> (\<forall>t. res = Inr t \<longrightarrow> sql_Resolve cr s True db' k t now = Inr (Some v))"
    using I
  proof (cases rule: sql_Issue_cases)
    case refused
    then show ?thesis using i by simp
  next
    case existing
    then show ?thesis using i found by simp
  next
    case (stored dig tok raw nonce ct row)
    note row = sql_Issue_row [OF set n stored(1-6)]
    have dig: "sql_digest cr s k v = Inr (rw_digest row)" using stored(2,6) by simp
    from stored(7) show ?thesis
    proof (cases rule: sql_store_row_cases)
      case inserted
      then have inv: "sql_inv cr s db'" using insert_row_inv i(2) row(1) by blast
      moreover have "row \<in> set db'" using insert_row_Some [OF inserted(1)] by simp
      ultimately show ?thesis using inserted(2) sql_Resolve_row [OF inv _ row(2,3) dig h] by auto
    next
      case adopted
      then show ?thesis using i(2) found dig by auto
    next
      case failed
      then show ?thesis using i(2) by simp
    qed
  qed
  then show "sql_inv cr s db'" "res = Inr t \<Longrightarrow> sql_Resolve cr s True db' k t now = Inr (Some v)" by auto
qed

text \<open>With no interference Issue only ever appends one row of the caller's key.\<close>

lemma sql_Issue_appends:
  assumes "sql_Issue cr s db k v env now = (res, db')" "ie_others env = id"
  shows "db' = db \<or> (\<exists>row. db' = db @ [row] \<and> row_key row = k)"
  using assms(1)
proof (cases rule: sql_Issue_cases)
  case (stored dig tok raw nonce ct row)
  have k: "row_key row = k" by (simp add: stored(6) row_key_def)
  from stored(7) show ?thesis
    by (cases rule: sql_store_row_cases) (use assms(2) k insert_row_Some in auto)
qed auto

lemma find_append: "find P (xs @ ys) = (case find P xs of None \<Rightarrow> find P ys | Some x \<Rightarrow> Some x)"
  by (induction xs) auto

lemma sql_Resolve_append:
  assumes "db' = db \<or> (\<exists>row. db' = db @ [row] \<and> row_key row = k)"
  shows "k' \<noteq> k \<Longrightarrow> sql_Resolve cr s True db' k' t later = sql_Resolve cr s True db k' t later"
    "sql_Resolve cr s True db k' t later = Inr (Some v') \<Longrightarrow> sql_Resolve cr s True db' k' t later = Inr (Some v')"
  using assms by (auto simp: sql_Resolve_def select_by_token_def find_append split: option.splits)

lemma find_filter: "(\<And>x. P x \<Longrightarrow> Q x) \<Longrightarrow> find P (filter Q xs) = find P xs"
  by (induction xs) auto

lemma sql_Clear_other:
  fixes k :: token_key
  assumes "sql_Clear up affected db tn = (res, db')" "tk_Tenant k \<noteq> tn"
  shows "sql_Resolve cr s True db' k t later = sql_Resolve cr s True db k t later"
proof -
  have "select_by_token (delete_tenant db tn) k t (unix later) = select_by_token db k t (unix later)"
    unfolding delete_tenant_def select_by_token_def by (rule find_filter) (use assms(2) in \<open>auto simp: row_key_def\<close>)
  moreover have "db' = db \<or> db' = delete_tenant db tn"
    using assms(1) by (auto simp: sql_Clear_def Let_def split: if_splits)
  ultimately show ?thesis by (auto simp: sql_Resolve_def split: option.split)
qed

lemma sql_Clear_erases:
  fixes k :: token_key
  assumes "sql_Clear up affected db tn = (Inr n, db')" "tk_Tenant k = tn"
  shows "sql_Resolve cr s True db' k t later \<noteq> Inr (Some v)"
proof -
  have "select_by_token db' k t (unix later) = None"
    using assms by (auto simp: sql_Clear_def Let_def delete_tenant_def select_by_token_def find_None_iff row_key_def
        split: if_splits)
  then show ?thesis by (simp add: sql_Resolve_def split: option.split)
qed


text \<open>A trivial setting for the examples.\<close>

definition plain_crypto :: crypto where
  "plain_crypto = \<lparr>cr_hkdf = (\<lambda>r s i. Some (replicate 32 CHR ''k'')), cr_hmac = (\<lambda>k m. m),
     cr_seal = (\<lambda>k n p a. p), cr_open = (\<lambda>k n c a. Some c)\<rparr>"

definition demo_sql :: "int \<Rightarrow> sql_store" where
  "demo_sql ttl = \<lparr>ss_keyring = \<lparr>kr_root = replicate 32 CHR ''r'', kr_salt = [], kr_cached = []\<rparr>,
     ss_table = ''tokens'', ss_ttl = ttl, ss_version = ''v1''\<rparr>"

lemma demo_setup: "sql_setup plain_crypto (demo_sql 0)" "sql_setup plain_crypto (demo_sql 1000000000)"
  by (simp_all add: sql_setup_def aead_laws_def hmac_inj_def plain_crypto_def demo_sql_def second_def)

definition sql_key :: token_key where
  "sql_key = \<lparr>tk_Tenant = ''acme'', tk_Namespace = ''email''\<rparr>"

definition demo_env :: "(sql_table \<Rightarrow> sql_table) \<Rightarrow> issue_env" where
  "demo_env others = \<lparr>ie_token = Some ''t'', ie_nonce = Some (replicate 12 CHR ''n''), ie_lookup_up = True,
     ie_insert_up = True, ie_reread_up = True, ie_others = others\<rparr>"



definition rival_row :: sql_row where
  "rival_row = \<lparr>rw_tenant = ''acme'', rw_namespace = ''email'', rw_token = ''77'',
     rw_digest = hex_encode (''email'' @ [NUL] @ ''x''), rw_cipher = ''x'', rw_nonce = replicate 12 CHR ''m'',
     rw_version = ''v1'', rw_expires = None\<rparr>"

lemma rival_inv: "sql_inv plain_crypto (demo_sql 0) [rival_row]"
proof -
  have "row_ok plain_crypto (demo_sql 0) rival_row"
    unfolding row_ok_def by (intro conjI exI [of _ "''x''"]; code_simp)
  then show ?thesis by (simp add: sql_inv_def rows_unique_def)
qed


text \<open>An expired row blocks its value for good: the lookup skips it, but the unique constraint on
  the digest still rejects the insert and the second lookup skips it again, so from its expiry on
  every Issue of that value fails and leaves the table as it is, until the tenant is cleared.\<close>

theorem sql_expired_row_blocks:
  assumes i: "sql_inv cr s db" and r: "r \<in> set db" "\<not> row_live r (unix expiry)"
    and d: "sql_digest cr s (row_key r) v = Inr (rw_digest r)"
    and now: "expiry \<le> now" and env: "ie_others env = id"
  shows "(\<exists>e. fst (sql_Issue cr s db (row_key r) v env now) = Inl e) \<and> snd (sql_Issue cr s db (row_key r) v env now) = db"
proof -
  have "unix expiry \<le> unix now" using now zdiv_mono1 [of expiry now second] by (simp add: unix_def second_def)
  then have dead: "\<not> row_live r (unix now)" using r(2) by (auto simp: row_live_def split: option.splits)
  have none: "select_by_digest db (row_key r) (rw_digest r) (unix now) = None"
    using i r(1) dead unfolding select_by_digest_def sql_inv_def rows_unique_def
    by (auto simp: find_None_iff)
  obtain res db' where I: "sql_Issue cr s db (row_key r) v env now = (res, db')" by fastforce
  have "(\<exists>e. res = Inl e) \<and> db' = db"
    using I
  proof (cases rule: sql_Issue_cases)
    case (stored dig tok raw nonce ct row)
    then have dig: "dig = rw_digest r" using d by simp
    then have "insert_row db row = None" using r(1) stored(6) by (auto simp: insert_row_def row_key_def)
    then show ?thesis using stored(6,7) none dig env by (auto simp: sql_store_row_def split: if_splits)
  qed (use none d in auto)
  then show ?thesis using I by simp
qed

theorem sql_expired_row_blocks_witness:
  "\<exists>e. fst (sql_Issue plain_crypto (demo_sql 1000000000) [rival_row\<lparr>rw_expires := Some 9\<rparr>] sql_key ''x''
      (demo_env id) 10000000000) = Inl e"
proof -
  let ?r = "rival_row\<lparr>rw_expires := Some 9\<rparr>"
  have ok: "row_ok plain_crypto (demo_sql 1000000000) ?r"
    unfolding row_ok_def by (intro conjI exI [of _ "''x''"]; code_simp)
  have i: "sql_inv plain_crypto (demo_sql 1000000000) [?r]" using ok by (simp add: sql_inv_def rows_unique_def)
  have k: "row_key ?r = sql_key" by (simp add: row_key_def rival_row_def sql_key_def)
  have d: "sql_digest plain_crypto (demo_sql 1000000000) (row_key ?r) ''x'' = Inr (rw_digest ?r)" by code_simp
  show ?thesis
    using sql_expired_row_blocks [OF i _ _ d, of 10000000000 10000000000 "demo_env id"] k
    by (simp add: row_live_def unix_def second_def demo_env_def)
qed

end
