(* ===== verification/GoRegexp.thy ===== *)
theory GoRegexp imports UTF8 begin

text \<open>
  Go's regular expressions, as far as the program uses them: a syntax tree and a matcher with
  the leftmost-first semantics of RE2. A match attempt yields the list of its outcomes in order
  of preference; the first one is the match. Patterns see runes, offsets count bytes. Case folding
  is Go's: beyond ASCII only the Kelvin sign and the long s fold to ASCII letters, the only
  letters in the program's folded patterns.
\<close>

section \<open>Patterns\<close>

datatype re =
    Eps
  | Cls "(nat \<times> nat) list"
  | NCls "(nat \<times> nat) list"
  | Fold "(nat \<times> nat) list"
  | Seq re re
  | Alt re re
  | Star bool re
  | Grp nat re
  | Bot
  | Eot

text \<open>\<open>Star True\<close> is greedy, \<open>Star False\<close> lazy; \<open>Bot\<close> and \<open>Eot\<close> are the anchors of the text.\<close>

definition in_ranges :: "(nat \<times> nat) list \<Rightarrow> nat \<Rightarrow> bool" where
  "in_ranges rs r \<longleftrightarrow> (\<exists>(lo, hi) \<in> set rs. lo \<le> r \<and> r \<le> hi)"

definition fold_orbit :: "nat \<Rightarrow> nat list" where
  "fold_orbit r =
     (if 65 \<le> r \<and> r \<le> 90 then [r + 32] else if 97 \<le> r \<and> r \<le> 122 then [r - 32]
      else if r = 8490 then [75, 107] else if r = 383 then [83, 115] else [])"

definition in_folded :: "(nat \<times> nat) list \<Rightarrow> nat \<Rightarrow> bool" where
  "in_folded rs r \<longleftrightarrow> in_ranges rs r \<or> (\<exists>q \<in> set (fold_orbit r). in_ranges rs q)"

definition re_plus :: "re \<Rightarrow> re" where "re_plus r = Seq r (Star True r)"
definition re_plus_lazy :: "re \<Rightarrow> re" where "re_plus_lazy r = Seq r (Star False r)"
definition re_opt :: "re \<Rightarrow> re" where "re_opt r = Alt r Eps"

text \<open>Between \<open>lo\<close> and \<open>lo + more\<close> repetitions, as many as possible.\<close>

fun re_upto :: "nat \<Rightarrow> re \<Rightarrow> re" where
  "re_upto 0 r = Eps"
| "re_upto (Suc n) r = re_opt (Seq r (re_upto n r))"

fun re_rep :: "nat \<Rightarrow> nat \<Rightarrow> re \<Rightarrow> re" where
  "re_rep 0 more r = re_upto more r"
| "re_rep (Suc n) more r = Seq r (re_rep n more r)"

definition re_byte :: "char \<Rightarrow> re" where "re_byte c = Cls [(byte c, byte c)]"

fun re_lit :: "string \<Rightarrow> re" where
  "re_lit [] = Eps"
| "re_lit (c # s) = Seq (re_byte c) (re_lit s)"

fun re_lit_fold :: "string \<Rightarrow> re" where
  "re_lit_fold [] = Eps"
| "re_lit_fold (c # s) = Seq (Fold [(byte c, byte c)]) (re_lit_fold s)"

definition re_digit :: re where "re_digit = Cls [(48, 57)]"
definition re_space :: re where "re_space = Cls [(9, 10), (12, 13), (32, 32)]"

section \<open>Matching\<close>

text \<open>The rest of the text, its offset, and the groups closed so far, the latest first.\<close>

type_synonym mstate = "string \<times> nat \<times> (nat \<times> nat \<times> nat) list"

fun step_rune :: "(nat \<Rightarrow> bool) \<Rightarrow> mstate \<Rightarrow> mstate list" where
  "step_rune P ([], p, g) = []"
| "step_rune P (c # s, p, g) =
     (let (r, w) = decode_rune (c # s) in if P r then [(drop w (c # s), p + w, g)] else [])"

text \<open>Iterations that consume nothing are not continued.\<close>

fun star_iter :: "bool \<Rightarrow> (mstate \<Rightarrow> mstate list) \<Rightarrow> nat \<Rightarrow> mstate \<Rightarrow> mstate list" where
  "star_iter greedy f 0 s = [s]"
| "star_iter greedy f (Suc n) s =
     (let more = concat (map (star_iter greedy f n) (filter (\<lambda>t. length (fst t) < length (fst s)) (f s))) in
      if greedy then more @ [s] else s # more)"

primrec rm :: "re \<Rightarrow> mstate \<Rightarrow> mstate list" where
  "rm Eps = (\<lambda>s. [s])"
| "rm (Cls rs) = step_rune (in_ranges rs)"
| "rm (NCls rs) = step_rune (\<lambda>r. \<not> in_ranges rs r)"
| "rm (Fold rs) = step_rune (in_folded rs)"
| "rm (Seq a b) = (\<lambda>s. concat (map (rm b) (rm a s)))"
| "rm (Alt a b) = (\<lambda>s. rm a s @ rm b s)"
| "rm (Star greedy a) = (\<lambda>s. star_iter greedy (rm a) (length (fst s)) s)"
| "rm (Grp n a) = (\<lambda>s. map (\<lambda>(x, p, g). (x, p, (n, fst (snd s), p) # g)) (rm a s))"
| "rm Bot = (\<lambda>s. if fst (snd s) = 0 then [s] else [])"
| "rm Eot = (\<lambda>s. if fst s = [] then [s] else [])"

text \<open>A match: where it starts and ends, and its groups.\<close>

type_synonym re_match = "nat \<times> nat \<times> (nat \<times> nat \<times> nat) list"

definition match_at :: "re \<Rightarrow> string \<Rightarrow> nat \<Rightarrow> (string \<times> re_match) option" where
  "match_at e s p = (case rm e (s, p, []) of [] \<Rightarrow> None | (t, q, g) # _ \<Rightarrow> Some (t, p, q, g))"

text \<open>The leftmost match at or after the offset.\<close>

function find_first :: "re \<Rightarrow> string \<Rightarrow> nat \<Rightarrow> (string \<times> re_match) option" where
  "find_first e s p =
     (case match_at e s p of
        Some m \<Rightarrow> Some m
      | None \<Rightarrow> if s = [] then None else find_first e (drop (rune_width s) s) (p + rune_width s))"
  by pat_completeness auto
termination
  by (relation "measure (\<lambda>(e, s, p). length s)") (use rune_width_pos in auto)

declare find_first.simps [simp del]

definition find_string :: "re \<Rightarrow> string \<Rightarrow> re_match option" where
  "find_string e s = map_option snd (find_first e s 0)"

definition match_string :: "re \<Rightarrow> string \<Rightarrow> bool" where
  "match_string e s \<longleftrightarrow> find_first e s 0 \<noteq> None"

text \<open>
  All matches, as \<open>FindAllStringSubmatchIndex(s, -1)\<close> lists them: after an empty match the scan
  moves on by one rune, and an empty match right after the previous match is not reported.
\<close>

function find_all :: "re \<Rightarrow> string \<Rightarrow> nat \<Rightarrow> nat option \<Rightarrow> re_match list" where
  "find_all e s p prev =
     (case find_first e s p of
        None \<Rightarrow> []
      | Some (t, a, b, g) \<Rightarrow>
          if length t < length s then (a, b, g) # find_all e t b (Some b)
          else
            (if prev = Some a then [] else [(a, b, g)]) @
            (if s = [] then [] else find_all e (drop (rune_width s) s) (p + rune_width s) (Some b)))"
  by pat_completeness auto
termination
  by (relation "measure (\<lambda>(e, s, p, prev). length s)") (use rune_width_pos in auto)

declare find_all.simps [simp del]

definition find_all_string :: "re \<Rightarrow> string \<Rightarrow> re_match list" where
  "find_all_string e s = find_all e s 0 None"

definition group_of :: "nat \<Rightarrow> re_match \<Rightarrow> (nat \<times> nat) option" where
  "group_of n m = map_of (snd (snd m)) n"

section \<open>Classes of ASCII characters\<close>

lemma decode_high:
  assumes "128 \<le> byte c"
  shows "128 \<le> fst (decode_rune (c # s))"
proof -
  have 2: "128 \<le> fst (decode2 b s)" if "194 \<le> b" for b
    using that by (auto simp: decode2_def rune_error_def split: list.splits)
  have 3: "128 \<le> fst (decode3 b s)" if "224 \<le> b" for b
    using that
    by (cases "b = 224") (auto simp: decode3_def rune_error_def second3_def byte_between_def cont_def split: list.splits)
  have 4: "128 \<le> fst (decode4 b s)" if "240 \<le> b" for b
    using that
    by (cases "b = 240") (auto simp: decode4_def rune_error_def second4_def byte_between_def cont_def split: list.splits)
  show ?thesis using assms 2 3 4 by (simp add: Let_def rune_error_def)
qed

definition ascii_pred :: "(nat \<Rightarrow> bool) \<Rightarrow> bool" where
  "ascii_pred P \<longleftrightarrow> (\<forall>r \<ge> 128. \<not> P r)"

lemma step_ascii:
  assumes "ascii_pred P"
  shows "step_rune P (c # s, p, g) = (if P (byte c) then [(s, p + 1, g)] else [])"
proof (cases "byte c < 128")
  case True
  then show ?thesis by (simp add: decode_ascii)
next
  case False
  then show ?thesis using assms decode_high [of c s]
    by (cases "decode_rune (c # s)") (auto simp: ascii_pred_def simp del: decode_rune.simps)
qed

lemma step_low: "byte c < 128 \<Longrightarrow> step_rune P (c # s, p, g) = (if P (byte c) then [(s, p + 1, g)] else [])"
  by (simp add: decode_ascii)

declare step_rune.simps(2) [simp del]

definition plain_range :: "nat \<times> nat \<Rightarrow> bool" where
  "plain_range q \<longleftrightarrow> snd q < 128 \<and> \<not> (\<exists>k \<in> {75, 83, 107, 115}. fst q \<le> k \<and> k \<le> snd q)"

lemma ascii_in_ranges: "\<forall>q \<in> set rs. snd q < 128 \<Longrightarrow> ascii_pred (in_ranges rs)"
  by (fastforce simp: ascii_pred_def in_ranges_def)

lemma ascii_in_folded: "\<forall>q \<in> set rs. plain_range q \<Longrightarrow> ascii_pred (in_folded rs)"
  by (fastforce simp: ascii_pred_def in_folded_def fold_orbit_def in_ranges_def plain_range_def split: if_splits)

lemma star_greedy_first:
  assumes "ascii_pred P" "\<forall>c \<in> set ds. P (byte c)" "r = [] \<or> \<not> P (byte (hd r))" "length ds \<le> n"
  shows "\<exists>ys. star_iter True (step_rune P) n (ds @ r, p, g) = (r, p + length ds, g) # ys"
  using assms(2,4)
proof (induction ds arbitrary: p n)
  case Nil
  have "step_rune P (r, p, g) = []" using assms(3) by (cases r) (auto simp: step_ascii [OF assms(1)])
  then show ?case by (cases n) simp_all
next
  case (Cons c ds)
  then obtain m where n: "n = Suc m" by (cases n) auto
  from Cons n obtain ys where "star_iter True (step_rune P) m (ds @ r, p + 1, g) = (r, p + 1 + length ds, g) # ys"
    by fastforce
  then show ?case using Cons.prems n by (simp add: step_ascii [OF assms(1)])
qed

text \<open>A greedy run of a class only ever yields positions within the run.\<close>

lemma star_greedy_mem:
  assumes "ascii_pred P" "t \<in> set (star_iter True (step_rune P) n (s, p, g))"
  shows "\<exists>w y. s = w @ y \<and> (\<forall>c \<in> set w. P (byte c)) \<and> t = (y, p + length w, g)"
  using assms(2)
proof (induction n arbitrary: s p)
  case (Suc n)
  show ?case
  proof (cases "t = (s, p, g)")
    case True
    then show ?thesis by auto
  next
    case False
    then obtain c x where s: "s = c # x" "P (byte c)" "t \<in> set (star_iter True (step_rune P) n (x, p + 1, g))"
      using Suc.prems by (cases s) (auto simp: step_ascii [OF assms(1)] Let_def split: if_splits)
    from Suc.IH [OF s(3)] obtain w y where "x = w @ y" "\<forall>c \<in> set w. P (byte c)" "t = (y, p + 1 + length w, g)" by blast
    then show ?thesis using s by (intro exI [of _ "c # w"] exI [of _ y]) simp
  qed
qed simp

text \<open>A lazy run stops at the first place from which the rest of the pattern matches.\<close>

lemma star_lazy_first:
  assumes "\<forall>c \<in> set w. byte c < 128 \<and> P (byte c)" "length w \<le> n"
    and "\<And>i. i < length w \<Longrightarrow> K (drop i w @ r, p + i, g) = []" "K (r, p + length w, g) = x # xs"
  shows "\<exists>ys. concat (map K (star_iter False (step_rune P) n (w @ r, p, g))) = x # ys"
  using assms
proof (induction w arbitrary: p n)
  case Nil
  then show ?case by (cases n) (simp_all add: Let_def)
next
  case (Cons c w)
  then obtain m where n: "n = Suc m" by (cases n) auto
  have K: "K (drop i w @ r, p + 1 + i, g) = []" if "i < length w" for i
    using Cons.prems(3) [of "Suc i"] that by simp
  have "\<exists>ys. concat (map K (star_iter False (step_rune P) m (w @ r, p + 1, g))) = x # ys"
    using Cons.IH [of m "p + 1"] Cons.prems K n by simp
  then show ?case using Cons.prems(3) [of 0] Cons.prems(1) n by (simp add: step_low Let_def)
qed

section \<open>Literals\<close>

definition plain_char :: "char \<Rightarrow> bool" where
  "plain_char c \<longleftrightarrow> byte c < 128 \<and> \<not> is_lower c \<and> c \<notin> set ''KS''"

lemma in_folded_char:
  assumes "plain_char c"
  shows "in_folded [(byte c, byte c)] (byte d) \<longleftrightarrow> upper1 d = c"
proof -
  let ?k = "byte c" and ?b = "byte d"
  have f: "in_folded [(?k, ?k)] ?b \<longleftrightarrow> ?b = ?k \<or> ?k \<in> set (fold_orbit ?b)"
    by (auto simp: in_folded_def in_ranges_def)
  have k: "\<not> (97 \<le> ?k \<and> ?k \<le> 122)" using assms by (simp add: plain_char_def is_lower_def in_range_def)
  show ?thesis
  proof (cases "is_lower d")
    case True
    then have b: "97 \<le> ?b" "?b \<le> 122" by (simp_all add: is_lower_def in_range_def)
    have o: "fold_orbit ?b = [?b - 32]" using b by (simp add: fold_orbit_def)
    have "?b \<noteq> ?k" using k b by metis
    then have "in_folded [(?k, ?k)] ?b \<longleftrightarrow> ?b - 32 = ?k" unfolding f o by auto
    also have "\<dots> \<longleftrightarrow> byte (upper1 d) = ?k" using True b by (simp add: upper1_def)
    finally show ?thesis by (simp add: byte_inj)
  next
    case False
    then have b: "\<not> (97 \<le> ?b \<and> ?b \<le> 122)" "?b < 256" by (simp_all add: is_lower_def in_range_def)
    have n: "?b \<noteq> 8490" "?b \<noteq> 383" using byte_bound [of d] by linarith+
    have o: "fold_orbit ?b = (if 65 \<le> ?b \<and> ?b \<le> 90 then [?b + 32] else [])"
      using b(1) unfolding fold_orbit_def by (simp only: n if_False if_True)
    have "?k \<notin> set (fold_orbit ?b)" unfolding o using k by auto
    then have "in_folded [(?k, ?k)] ?b \<longleftrightarrow> ?b = ?k" unfolding f by simp
    then show ?thesis using False by (simp add: upper1_def byte_inj)
  qed
qed

lemma ascii_fold_char: "plain_char c \<Longrightarrow> ascii_pred (in_folded [(byte c, byte c)])"
proof -
  assume c: "plain_char c"
  then have "byte c \<noteq> byte CHR ''K''" "byte c \<noteq> byte CHR ''S''" unfolding byte_inj by (auto simp: plain_char_def)
  then have "plain_range (byte c, byte c)"
    using c by (auto simp: plain_range_def plain_char_def is_lower_def in_range_def byte_def)
  then show ?thesis by (intro ascii_in_folded) simp
qed

text \<open>A folded literal without K and S matches the strings whose capitalised form it is.\<close>

lemma rm_lit_fold:
  "\<forall>c \<in> set w. plain_char c \<Longrightarrow>
   rm (re_lit_fold w) (s, p, g) = (if has_prefix (map upper1 s) w then [(drop (length w) s, p + length w, g)] else [])"
proof (induction w arbitrary: s p)
  case (Cons c w)
  then show ?case
    by (cases s) (auto simp: step_ascii [OF ascii_fold_char] in_folded_char)
qed simp

end
