(* ===== verification/GoCase.thy ===== *)
theory GoCase imports UTF8 begin

text \<open>
  \<open>strings.ToUpper\<close> and \<open>strings.ToLower\<close> rune by rune. The simple case mappings of the Unicode
  tables are parameters for the code points beyond ASCII; a byte that is no valid encoding is
  replaced by the encoding of RuneError, three bytes for one.
\<close>

record case_tables =
  ct_upper :: "nat \<Rightarrow> nat"
  ct_lower :: "nat \<Rightarrow> nat"

definition upper_rune :: "case_tables \<Rightarrow> nat \<Rightarrow> nat" where
  "upper_rune ct r = (if r < 128 then (if 97 \<le> r \<and> r \<le> 122 then r - 32 else r) else ct_upper ct r)"

definition lower_rune :: "case_tables \<Rightarrow> nat \<Rightarrow> nat" where
  "lower_rune ct r = (if r < 128 then (if 65 \<le> r \<and> r \<le> 90 then r + 32 else r) else ct_lower ct r)"

definition go_upper :: "case_tables \<Rightarrow> string \<Rightarrow> string" where
  "go_upper ct s = concat (map (\<lambda>r. encode_rune (upper_rune ct r)) (runes s))"

definition go_lower :: "case_tables \<Rightarrow> string \<Rightarrow> string" where
  "go_lower ct s = concat (map (\<lambda>r. encode_rune (lower_rune ct r)) (runes s))"

lemma runes_Nil [simp]: "runes [] = []"
  by (simp add: runes_def range_runes_def)

lemma range_from_shift: "map (\<lambda>x. fst (snd x)) (range_from i s) = map (\<lambda>x. fst (snd x)) (range_from j s)"
proof (induction i s arbitrary: j rule: range_from.induct)
  case (1 i s)
  then show ?case by (cases "s = []") (simp_all add: range_from.simps [of _ s])
qed

lemma runes_ascii_Cons: "byte c < 128 \<Longrightarrow> runes (c # s) = byte c # runes s"
  using range_from_shift [of 1 s 0]
  by (simp add: runes_def range_runes_def range_from.simps [of 0 "c # s"] rune_width_def decode_ascii)

lemma encode_ascii: "byte c < 128 \<Longrightarrow> encode_rune (byte c) = [c]"
  by (simp add: encode_rune_def valid_rune_def byte_char_def byte_def)

lemma upper_byte: "byte c < 128 \<Longrightarrow> upper_rune ct (byte c) = byte (upper1 c)"
  by (auto simp: upper_rune_def upper1_def is_lower_def in_range_def)

lemma lower_byte: "byte c < 128 \<Longrightarrow> lower_rune ct (byte c) = byte (lower1 c)"
  by (auto simp: lower_rune_def lower1_def is_upper_def in_range_def)

lemma upper1_ascii: "byte c < 128 \<Longrightarrow> byte (upper1 c) < 128"
  by (auto simp: upper1_def is_lower_def in_range_def)

lemma lower1_ascii: "byte c < 128 \<Longrightarrow> byte (lower1 c) < 128"
  by (auto simp: lower1_def is_upper_def in_range_def)

text \<open>On ASCII text both keep every position.\<close>

lemma go_upper_ascii: "ascii s \<Longrightarrow> go_upper ct s = map upper1 s"
  by (induction s) (simp_all add: go_upper_def ascii_def runes_ascii_Cons upper_byte encode_ascii upper1_ascii)

lemma go_lower_ascii: "ascii s \<Longrightarrow> go_lower ct s = map lower1 s"
  by (induction s) (simp_all add: go_lower_def ascii_def runes_ascii_Cons lower_byte encode_ascii lower1_ascii)

end
