(* ===== verification/Strategy.thy ===== *)
theory Strategy imports GoRegexp GoCase SqlStore begin

text \<open>
  The redaction operators (\<open>pii/anonymize/strategy.go\<close>, \<open>generalize.go\<close>) and the matrix of flows that
  chooses among them (\<open>matrix.go\<close>). A token store is reached through its two operations; its clock
  and random draws are part of its state.
\<close>

section \<open>Scope and operators\<close>

record 's token_ops =
  to_issue :: "'s \<Rightarrow> token_key \<Rightarrow> string \<Rightarrow> (token_error + string) \<times> 's"
  to_resolve :: "'s \<Rightarrow> token_key \<Rightarrow> string \<Rightarrow> token_error + string option"

text \<open>What an operator works on: the tenant, the session vault if there is one, the token store.\<close>

record 's scope =
  sc_Tenant :: string
  sc_Vault :: "session_vault option"
  sc_store :: 's

datatype strategy_error =
    NoVault | MaskNoOp int nat | NoKeyring | KeyError token_error | BadDigits int | NoTokenStore
  | IssueError token_error | BadGranularity string | NilFallback | SelfFallback | SlicePanic

record ontology =
  on_Terms :: "(string, string) gomap"

datatype strategy =
    MaskStrategy
  | CharMaskStrategy nat int
  | HashStrategy "keyring option" int
  | TokenizeStrategy
  | DropStrategy
  | GeneralizeStrategy "ontology option" string strategy

definition NewCharMask :: "nat \<Rightarrow> int \<Rightarrow> strategy" where
  "NewCharMask ch keep = CharMaskStrategy (if ch = 0 then 42 else ch) (if keep < 0 then 0 else keep)"

definition NewHash :: "keyring option \<Rightarrow> int \<Rightarrow> strategy_error + strategy" where
  "NewHash kr digits =
     (case kr of
        None \<Rightarrow> Inl NoKeyring
      | Some _ \<Rightarrow> if digits < 8 \<or> digits > 64 then Inl (BadDigits digits) else Inr (HashStrategy kr digits))"

definition NewTokenize :: "bool \<Rightarrow> strategy_error + strategy" where
  "NewTokenize has_store = (if has_store then Inr TokenizeStrategy else Inl NoTokenStore)"

fun strategy_Name :: "strategy \<Rightarrow> string" where
  "strategy_Name MaskStrategy = ''mask''"
| "strategy_Name (CharMaskStrategy ch keep) = ''char_mask''"
| "strategy_Name (HashStrategy kr digits) = ''hash''"
| "strategy_Name TokenizeStrategy = ''tokenize''"
| "strategy_Name DropStrategy = ''drop''"
| "strategy_Name (GeneralizeStrategy onto gran fb) = ''generalize''"

fun Reversible :: "strategy \<Rightarrow> bool" where
  "Reversible MaskStrategy = True"
| "Reversible TokenizeStrategy = True"
| "Reversible s = False"

definition namespaceOf :: "case_tables \<Rightarrow> string \<Rightarrow> string" where
  "namespaceOf ct t = go_lower ct t"

section \<open>Generalisation\<close>

definition GranularityYear :: string where "GranularityYear = ''year''"
definition GranularityDecade :: string where "GranularityDecade = ''decade''"

datatype ontology_error = EmptyOntology | EmptyHypernym string | SelfHypernym string

text \<open>The checks that follow the YAML decoding.\<close>

fun check_terms :: "(string, string) gomap \<Rightarrow> ontology_error option" where
  "check_terms [] = None"
| "check_terms ((term, hypernym) # ts) =
     (if trim_space hypernym = [] then Some (EmptyHypernym term)
      else if term = hypernym then Some (SelfHypernym term) else check_terms ts)"

definition LoadOntology :: "ontology \<Rightarrow> ontology_error + ontology" where
  "LoadOntology ont =
     (if on_Terms ont = [] then Inl EmptyOntology
      else case check_terms (on_Terms ont) of Some e \<Rightarrow> Inl e | None \<Rightarrow> Inr ont)"

definition ontology_lookup :: "case_tables \<Rightarrow> ontology option \<Rightarrow> string \<Rightarrow> string option" where
  "ontology_lookup ct onto term =
     (case onto of
        None \<Rightarrow> None
      | Some ont \<Rightarrow>
          case gm_get (on_Terms ont) term of
            Some h \<Rightarrow> Some h
          | None \<Rightarrow> map_option snd (find (\<lambda>q. go_lower ct (fst q) = go_lower ct (trim_space term)) (on_Terms ont)))"

definition year_re :: re where
  "year_re =
     Alt (Seq (re_lit ''1'') (Seq (Cls [(56, 57)]) (re_rep 2 0 re_digit))) (Seq (re_lit ''20'') (re_rep 2 0 re_digit))"

definition isoDateRe :: re where
  "isoDateRe =
     Seq Bot (Seq (Grp 1 year_re) (Seq (Cls [(45, 45), (47, 47), (24180, 24180)]) (Seq (Grp 2 (re_rep 1 1 re_digit))
       (Seq (Cls [(45, 45), (47, 47), (26376, 26376)]) (Seq (Grp 3 (re_rep 1 1 re_digit))
       (Seq (re_opt (Cls [(26085, 26085)])) Eot))))))"

definition yearOnlyRe :: re where
  "yearOnlyRe = Seq Bot (Seq (Grp 1 year_re) (Seq (re_opt (Cls [(24180, 24180)])) Eot))"

text \<open>\<open>FindStringSubmatch(s)[1]\<close>, None when the pattern does not match.\<close>

definition submatch1 :: "re \<Rightarrow> string \<Rightarrow> string option" where
  "submatch1 e s =
     (case find_string e s of
        None \<Rightarrow> None
      | Some m \<Rightarrow> (case group_of 1 m of None \<Rightarrow> Some [] | Some (a, b) \<Rightarrow> Some (take (b - a) (drop a s))))"

definition generalizeDate :: "string \<Rightarrow> string \<Rightarrow> string option" where
  "generalizeDate granularity val =
     (case (case submatch1 isoDateRe val of Some y \<Rightarrow> Some y | None \<Rightarrow> submatch1 yearOnlyRe val) of
        None \<Rightarrow> None
      | Some year \<Rightarrow>
          if granularity = GranularityYear then Some year
          else case atoi year of
            None \<Rightarrow> None
          | Some n \<Rightarrow> Some (int_itoa (go_div n 10 * 10) @ ''s''))"

definition NewGeneralize :: "ontology option \<Rightarrow> string \<Rightarrow> strategy option \<Rightarrow> strategy_error + strategy" where
  "NewGeneralize onto granularity fallback =
     (if granularity \<noteq> GranularityYear \<and> granularity \<noteq> GranularityDecade then Inl (BadGranularity granularity)
      else case fallback of
        None \<Rightarrow> Inl NilFallback
      | Some (GeneralizeStrategy _ _ _) \<Rightarrow> Inl SelfFallback
      | Some fb \<Rightarrow> Inr (GeneralizeStrategy onto granularity fb))"

section \<open>Application\<close>

definition mask_Apply :: "'s scope \<Rightarrow> entity \<Rightarrow> (strategy_error + string) \<times> 's scope" where
  "mask_Apply sc e =
     (case sc_Vault sc of
        None \<Rightarrow> (Inl NoVault, sc)
      | Some v \<Rightarrow> let (p, v) = PlaceholderFor v e in (Inr p, sc\<lparr>sc_Vault := Some v\<rparr>))"

definition char_mask_Apply :: "nat \<Rightarrow> int \<Rightarrow> entity \<Rightarrow> strategy_error + string" where
  "char_mask_Apply ch keep e =
     (let rs = runes (e_value e) in
      if keep \<ge> int (length rs) then Inl (MaskNoOp keep (length rs))
      else if keep < 0 then Inl SlicePanic
      else
        let n = length rs - nat keep in
        Inr (concat (replicate n (encode_rune ch)) @ utf8_encode (drop n rs)))"

definition hash_Apply :: "crypto \<Rightarrow> case_tables \<Rightarrow> keyring option \<Rightarrow> int \<Rightarrow> string \<Rightarrow> entity \<Rightarrow> strategy_error + string" where
  "hash_Apply cr ct kr digits tenant e =
     (case kr of
        None \<Rightarrow> Inl NoKeyring
      | Some kr \<Rightarrow>
          case ring_key cr kr tenant of
            Inl err \<Rightarrow> Inl (KeyError err)
          | Inr key \<Rightarrow>
              let hex = hex_encode (cr_hmac cr key (e_type e @ [NUL] @ e_value e)) in
              if digits < 0 \<or> digits > int (length hex) then Inl SlicePanic
              else Inr (''[hash:'' @ namespaceOf ct (e_type e) @ '':'' @ take (nat digits) hex @ '']''))"

definition tokenize_Apply :: "case_tables \<Rightarrow> 's token_ops \<Rightarrow> 's scope \<Rightarrow> entity \<Rightarrow> (strategy_error + string) \<times> 's scope" where
  "tokenize_Apply ct tops sc e =
     (let ns = namespaceOf ct (e_type e);
          (r, st) = to_issue tops (sc_store sc) \<lparr>tk_Tenant = sc_Tenant sc, tk_Namespace = ns\<rparr> (e_value e);
          sc = sc\<lparr>sc_store := st\<rparr> in
      case r of
        Inl err \<Rightarrow> (Inl (IssueError err), sc)
      | Inr tok \<Rightarrow> (Inr (''[tok:'' @ ns @ '':'' @ tok @ '']''), sc))"

fun strategy_Apply ::
    "crypto \<Rightarrow> case_tables \<Rightarrow> 's token_ops \<Rightarrow> strategy \<Rightarrow> 's scope \<Rightarrow> entity \<Rightarrow> (strategy_error + string) \<times> 's scope" where
  "strategy_Apply cr ct tops MaskStrategy sc e = mask_Apply sc e"
| "strategy_Apply cr ct tops (CharMaskStrategy ch keep) sc e = (char_mask_Apply ch keep e, sc)"
| "strategy_Apply cr ct tops (HashStrategy kr digits) sc e = (hash_Apply cr ct kr digits (sc_Tenant sc) e, sc)"
| "strategy_Apply cr ct tops TokenizeStrategy sc e = tokenize_Apply ct tops sc e"
| "strategy_Apply cr ct tops DropStrategy sc e = (Inr [], sc)"
| "strategy_Apply cr ct tops (GeneralizeStrategy onto gran fb) sc e =
     (let val = trim_space (e_value e) in
      case generalizeDate gran val of
        Some out \<Rightarrow> (Inr out, sc)
      | None \<Rightarrow>
          case ontology_lookup ct onto val of
            Some h \<Rightarrow> (Inr h, sc)
          | None \<Rightarrow> strategy_Apply cr ct tops fb sc e)"

end
