(* ===== verification/FlowMatrix.thy ===== *)
theory FlowMatrix imports Strategy begin

text \<open>
  The matrix of flows (\<open>pii/anonymize/matrix.go\<close>): per destination a default operator and
  overrides by entity type, checked when a flow is added. A nil operator is None.
\<close>

record flow =
  fl_Name :: string
  fl_Default :: "strategy option"
  fl_ByType :: "(string, strategy option) gomap"
  fl_Restores :: bool

type_synonym matrix = "(string, flow) gomap"

datatype matrix_error =
    EmptyFlowName | DuplicateFlow string | NoDefaultStrategy string | NilStrategy string string
  | Irreversible "string list" | UnknownDestination string

definition NewMatrix :: matrix where
  "NewMatrix = []"

definition sortedTypes :: "(string, strategy option) gomap \<Rightarrow> string list" where
  "sortedTypes m = sort_key bytes_key (map fst m)"

definition nil_type :: "flow \<Rightarrow> string option" where
  "nil_type f = find (\<lambda>t. gm_get (fl_ByType f) t = Some None) (sortedTypes (fl_ByType f))"

definition not_reversible :: "strategy option \<Rightarrow> bool" where
  "not_reversible s = (case s of None \<Rightarrow> False | Some s \<Rightarrow> \<not> Reversible s)"

text \<open>The operators that cannot be reversed, the default one under the empty name.\<close>

definition bad_strategies :: "flow \<Rightarrow> string list" where
  "bad_strategies f =
     (if not_reversible (fl_Default f) then [[]] else []) @
     filter (\<lambda>t. case gm_get (fl_ByType f) t of None \<Rightarrow> False | Some s \<Rightarrow> not_reversible s) (sortedTypes (fl_ByType f))"

definition Matrix_Add :: "matrix \<Rightarrow> flow \<Rightarrow> matrix_error + matrix" where
  "Matrix_Add m f =
     (if trim_space (fl_Name f) = [] then Inl EmptyFlowName
      else if gm_get m (fl_Name f) \<noteq> None then Inl (DuplicateFlow (fl_Name f))
      else if fl_Default f = None then Inl (NoDefaultStrategy (fl_Name f))
      else case nil_type f of
        Some t \<Rightarrow> Inl (NilStrategy (fl_Name f) t)
      | None \<Rightarrow>
          if fl_Restores f \<and> bad_strategies f \<noteq> [] then Inl (Irreversible (bad_strategies f))
          else Inr (gm_set (fl_Name f) f m))"

text \<open>\<open>MustAdd\<close>; None is the panic.\<close>

definition MustAdd :: "matrix \<Rightarrow> flow \<Rightarrow> matrix option" where
  "MustAdd m f = (case Matrix_Add m f of Inl e \<Rightarrow> None | Inr m \<Rightarrow> Some m)"

definition Matrix_Flow :: "matrix \<Rightarrow> string \<Rightarrow> matrix_error + flow" where
  "Matrix_Flow m dest = (case gm_get m dest of None \<Rightarrow> Inl (UnknownDestination dest) | Some f \<Rightarrow> Inr f)"

definition flow_Strategy :: "flow \<Rightarrow> string \<Rightarrow> strategy option" where
  "flow_Strategy f ty = (case gm_get (fl_ByType f) ty of Some s \<Rightarrow> s | None \<Rightarrow> fl_Default f)"

definition Destinations :: "matrix \<Rightarrow> string list" where
  "Destinations m = sort_key bytes_key (map fst m)"

section \<open>What an accepted flow guarantees\<close>

definition flow_ok :: "flow \<Rightarrow> bool" where
  "flow_ok f \<longleftrightarrow> (\<forall>ty. \<exists>s. flow_Strategy f ty = Some s \<and> (fl_Restores f \<longrightarrow> Reversible s))"

lemma sortedTypes_set [simp]: "set (sortedTypes m) = fst ` set m"
  by (simp add: sortedTypes_def)

lemma Matrix_Add_flow_ok:
  assumes "Matrix_Add m f = Inr m'"
  shows "flow_ok f"
  unfolding flow_ok_def
proof
  fix ty
  have f: "fl_Default f \<noteq> None" "nil_type f = None" "fl_Restores f \<Longrightarrow> bad_strategies f = []"
    using assms by (auto simp: Matrix_Add_def split: if_splits option.splits)
  show "\<exists>s. flow_Strategy f ty = Some s \<and> (fl_Restores f \<longrightarrow> Reversible s)"
  proof (cases "gm_get (fl_ByType f) ty")
    case None
    obtain s where s: "fl_Default f = Some s" using f(1) by blast
    have "fl_Restores f \<Longrightarrow> Reversible s" using f(3) s by (auto simp: bad_strategies_def not_reversible_def split: if_splits)
    then show ?thesis using None s by (simp add: flow_Strategy_def)
  next
    case (Some so)
    then have ty: "ty \<in> fst ` set (fl_ByType f)" by (metis map_of_SomeD fst_conv image_eqI)
    then have "so \<noteq> None" using f(2) Some by (auto simp: nil_type_def find_None_iff)
    then obtain s where s: "so = Some s" by blast
    have "Reversible s" if "fl_Restores f"
      using f(3) [OF that] ty Some s by (auto simp: bad_strategies_def not_reversible_def filter_empty_conv)
    then show ?thesis using Some s by (simp add: flow_Strategy_def)
  qed
qed

fun add_flows :: "matrix \<Rightarrow> flow list \<Rightarrow> matrix" where
  "add_flows m [] = m"
| "add_flows m (f # fs) = add_flows (case Matrix_Add m f of Inl e \<Rightarrow> m | Inr m' \<Rightarrow> m') fs"

lemma Matrix_Add_keeps:
  assumes "\<forall>d f. gm_get m d = Some f \<longrightarrow> fl_Name f = d \<and> flow_ok f" "Matrix_Add m g = Inr m'"
  shows "\<forall>d f. gm_get m' d = Some f \<longrightarrow> fl_Name f = d \<and> flow_ok f"
proof -
  have "m' = gm_set (fl_Name g) g m" using assms(2) by (auto simp: Matrix_Add_def split: if_splits option.splits)
  then show ?thesis using assms(1) Matrix_Add_flow_ok [OF assms(2)] by (auto simp: gm_get_set)
qed

lemma add_flows_inv:
  "\<forall>d f. gm_get m d = Some f \<longrightarrow> fl_Name f = d \<and> flow_ok f \<Longrightarrow>
   \<forall>d f. gm_get (add_flows m fs) d = Some f \<longrightarrow> fl_Name f = d \<and> flow_ok f"
proof (induction fs arbitrary: m)
  case (Cons f fs)
  show ?case
  proof (cases "Matrix_Add m f")
    case (Inl e)
    then have e: "add_flows m (f # fs) = add_flows m fs" by simp
    show ?thesis unfolding e by (rule Cons.IH [OF Cons.prems])
  next
    case (Inr m')
    then have e: "add_flows m (f # fs) = add_flows m' fs" by simp
    show ?thesis unfolding e by (rule Cons.IH [OF Matrix_Add_keeps [OF Cons.prems Inr]])
  qed
qed simp

text \<open>
  C8: Whatever flows were offered to a matrix, every flow it serves has an operator for every
  entity type, known or not, and a flow that promises to restore the answer uses reversible
  operators only, so nothing irreversible is handed back as if it were the original.
\<close>

theorem matrix_restores_reversible:
  assumes "Matrix_Flow (add_flows NewMatrix fs) dest = Inr f"
  shows "\<exists>s. flow_Strategy f ty = Some s \<and> (fl_Restores f \<longrightarrow> Reversible s)"
proof -
  have "gm_get (add_flows NewMatrix fs) dest = Some f"
    using assms by (auto simp: Matrix_Flow_def split: option.splits)
  then have "flow_ok f" using add_flows_inv [of NewMatrix fs] by (simp add: NewMatrix_def)
  then show ?thesis by (simp add: flow_ok_def)
qed

definition demo_flow :: "strategy \<Rightarrow> flow" where
  "demo_flow s = \<lparr>fl_Name = ''a'', fl_Default = Some MaskStrategy, fl_ByType = [(''NAME'', Some s)], fl_Restores = True\<rparr>"

theorem matrix_restores_reversible_witness:
  "\<exists>s. flow_Strategy (demo_flow TokenizeStrategy) ''NAME'' = Some s \<and> Reversible s"
proof -
  have "Matrix_Flow (add_flows NewMatrix [demo_flow DropStrategy, demo_flow TokenizeStrategy]) ''a'' = Inr (demo_flow TokenizeStrategy)"
    by code_simp
  from matrix_restores_reversible [OF this] show ?thesis by (auto simp: demo_flow_def)
qed

end
