(* ===== verification/Placeholder.thy ===== *)
theory Placeholder imports GoRegexp Vault begin

text \<open>
  The placeholder pattern of the redactor (\<open>pii/anonymize/redactor.go\<close>, \<open>placeholderRe\<close>) and what
  it finds in a text put together from placeholders and ordinary text between them.
\<close>

section \<open>The pattern\<close>

definition open_ranges :: "(nat \<times> nat) list" where
  "open_ranges = [(96, 96), (91, 91), (123, 123), (60, 60), (12304, 12304), (65288, 65288), (40, 40)]"

definition close_ranges :: "(nat \<times> nat) list" where
  "close_ranges = [(96, 96), (93, 93), (125, 125), (62, 62), (12305, 12305), (65289, 65289), (41, 41)]"

definition placeholder_core :: re where
  "placeholder_core =
     Seq (re_lit_fold PlaceholderPrefix) (Seq (re_plus_lazy (Fold [(65, 90), (95, 95)]))
       (Seq (re_lit_fold ''_'') (re_plus re_digit)))"

definition placeholderRe :: re where
  "placeholderRe =
     Alt (Seq (Fold open_ranges) (Seq (Star True re_space) (Seq (Grp 1 placeholder_core)
           (Seq (Star True re_space) (Fold close_ranges)))))
         (Grp 2 placeholder_core)"

section \<open>Ordinary text\<close>

text \<open>
  Text between placeholders that cannot take part in a match: the marker does not occur in it in
  any case, and it does not end in an opening bracket and white space.
\<close>

definition no_marker :: "string \<Rightarrow> bool" where
  "no_marker g \<longleftrightarrow> \<not> contains (map upper1 g) PlaceholderPrefix"

definition space_byte :: "char \<Rightarrow> bool" where
  "space_byte c \<longleftrightarrow> in_ranges [(9, 10), (12, 13), (32, 32)] (byte c)"

definition ends_open :: "string \<Rightarrow> bool" where
  "ends_open g \<longleftrightarrow>
     (\<exists>i \<in> set [0..<length g]. let (r, w) = decode_rune (drop i g) in
        in_folded open_ranges r \<and> list_all space_byte (drop (i + w) g))"

definition no_digit :: "string \<Rightarrow> bool" where
  "no_digit g \<longleftrightarrow> g = [] \<or> \<not> is_digit (hd g)"

lemma no_marker_suffix: "no_marker (w @ x) \<Longrightarrow> no_marker x"
  by (auto simp: no_marker_def contains_iff) (metis append.assoc)

lemma ends_open_suffix:
  assumes "ends_open x"
  shows "ends_open (w @ x)"
proof -
  obtain i where i: "i < length x" "let (r, u) = decode_rune (drop i x) in
      in_folded open_ranges r \<and> list_all space_byte (drop (i + u) x)"
    using assms by (auto simp: ends_open_def)
  then show ?thesis unfolding ends_open_def by (intro bexI [of _ "length w + i"]) (auto simp: Let_def)
qed

text \<open>An ASCII character is never the continuation of an earlier one.\<close>

lemma decode_stop:
  assumes "x \<noteq> []" "byte c < 128"
  shows "decode_rune (x @ c # y) = decode_rune x"
proof -
  obtain a s where x: "x = a # s" using assms(1) by (cases x) auto
  have "\<not> byte_between lo hi c" if "128 \<le> lo" for lo hi using assms(2) that by (simp add: byte_between_def)
  then have n: "\<not> byte_between 128 191 c" "\<not> second3 b c" "\<not> second4 b c" for b
    by (simp_all add: second3_def second4_def)
  have "decode2 b (s @ c # y) = decode2 b s" for b by (cases s) (simp_all add: decode2_def n)
  moreover have "decode3 b (s @ c # y) = decode3 b s" for b
    by (cases s; cases "tl s") (auto simp: decode3_def n split: list.split)
  moreover have "decode4 b (s @ c # y) = decode4 b s" for b
    by (cases s; cases "tl s"; cases "tl (tl s)") (auto simp: decode4_def n split: list.split)
  ultimately show ?thesis unfolding x append_Cons decode_rune.simps(2) by (simp only:)
qed

text \<open>What may follow ordinary text: the end, or a placeholder.\<close>

definition follows :: "string \<Rightarrow> bool" where
  "follows y \<longleftrightarrow> y = [] \<or> (\<exists>q. y = PlaceholderPrefix @ q)"

lemma decode_follows: "x \<noteq> [] \<Longrightarrow> follows y \<Longrightarrow> decode_rune (x @ y) = decode_rune x"
  using decode_stop [of x "CHR ''A''"] by (auto simp: follows_def PlaceholderPrefix_def byte_def)

lemma prefix_plain: "\<forall>c \<in> set PlaceholderPrefix. plain_char c"
  by (simp add: PlaceholderPrefix_def plain_char_def is_lower_def in_range_def byte_def)

lemma no_marker_core:
  assumes "no_marker x" "follows y" "x \<noteq> []"
  shows "\<not> has_prefix (map upper1 (x @ y)) PlaceholderPrefix"
proof
  assume "has_prefix (map upper1 (x @ y)) PlaceholderPrefix"
  then obtain t where t: "map upper1 x @ map upper1 y = PlaceholderPrefix @ t" by (auto simp: has_prefix_iff)
  show False
  proof (cases "length PlaceholderPrefix \<le> length x")
    case True
    then obtain u where "map upper1 x = PlaceholderPrefix @ u"
      using t by (metis append_eq_append_conv_if append_take_drop_id length_map)
    then have "contains (map upper1 x) PlaceholderPrefix" unfolding contains_iff by (metis append_Nil)
    then show False using assms(1) by (simp add: no_marker_def)
  next
    case False
    then have l: "0 < length x" "length x < 11" using assms(3) by (simp_all add: PlaceholderPrefix_def)
    have "y \<noteq> []" using t False by (metis append_Nil2 length_append length_map le_add1 list.map_disc_iff)
    then have "(map upper1 x @ map upper1 y) ! length x = CHR ''A''"
      using assms(2) by (auto simp: follows_def PlaceholderPrefix_def nth_append upper1_def is_lower_def in_range_def byte_def)
    then have "(PlaceholderPrefix @ t) ! length x = CHR ''A''" unfolding t .
    then have "PlaceholderPrefix ! length x = CHR ''A''" using False by (simp add: nth_append del: append.simps)
    moreover have "\<forall>i < 11. 0 < i \<longrightarrow> PlaceholderPrefix ! i \<noteq> CHR ''A''"
      by (simp add: PlaceholderPrefix_def numeral_eq_Suc All_less_Suc)
    ultimately show False using l by auto
  qed
qed

lemma core_needs_marker:
  "\<not> has_prefix (map upper1 s) PlaceholderPrefix \<Longrightarrow> rm placeholder_core (s, p, g) = []"
  by (simp add: placeholder_core_def rm_lit_fold [OF prefix_plain])

lemma space_pred: "ascii_pred (in_ranges [(9, 10), (12, 13), (32, 32)])"
  by (rule ascii_in_ranges) simp

text \<open>Nothing matches inside ordinary text.\<close>

lemma no_match_inside:
  assumes "no_marker x" "follows y" "x \<noteq> []" "y = [] \<or> \<not> ends_open x"
  shows "match_at placeholderRe (x @ y) p = None"
proof -
  have core: "rm placeholder_core (x @ y, p, g) = []" for p g
    using core_needs_marker no_marker_core [OF assms(1-3)] by simp
  obtain r w where d: "decode_rune (x @ y) = (r, w)" by fastforce
  then have dx: "decode_rune x = (r, w)" using decode_follows assms(2,3) by metis
  then have w: "w \<le> length x" "0 < w" using rune_width_le [of x] rune_width_pos [of x] assms(3) by (simp_all add: rune_width_def)
  obtain c s where xy: "x @ y = c # s" using assms(3) by (cases x) auto
  have o: "step_rune (in_folded open_ranges) (x @ y, p, []) =
      (if in_folded open_ranges r then [(drop w x @ y, p + w, [])] else [])"
  proof -
    have "drop w (x @ y) = drop w x @ y" using w(1) by simp
    then show ?thesis using d by (simp add: xy step_rune.simps del: decode_rune.simps)
  qed
  have z: "rm placeholder_core t = []"
    if op: "in_folded open_ranges r"
      and t: "t \<in> set (star_iter True (step_rune (in_ranges [(9, 10), (12, 13), (32, 32)])) n (drop w x @ y, q, g))" for t n q g
  proof -
    obtain ws z where z: "drop w x @ y = ws @ z" "\<forall>c \<in> set ws. space_byte c" "t = (z, q + length ws, g)"
      using star_greedy_mem [OF space_pred t] by (auto simp: space_byte_def)
    show ?thesis
    proof (cases "length ws < length (drop w x)")
      case True
      then have e: "z = drop (length ws) (drop w x) @ y" "drop (length ws) (drop w x) \<noteq> []"
        using z(1) by (simp_all add: append_eq_append_conv_if)
      have "no_marker (drop (length ws) (drop w x))"
        using no_marker_suffix [of "take (w + length ws) x"] assms(1) by (simp add: add.commute)
      from core_needs_marker [OF no_marker_core [OF this assms(2) e(2)]] show ?thesis using z(3) e(1) by simp
    next
      case False
      then obtain v where v: "ws = drop w x @ v" "y = v @ z" using z(1) by (auto simp: append_eq_append_conv_if) (metis append_take_drop_id)
      show ?thesis
      proof (cases "y = []")
        case True
        then show ?thesis using v z(3) by (simp add: core_needs_marker PlaceholderPrefix_def)
      next
        case False
        have "ends_open x" if "v = []"
          unfolding ends_open_def using op dx z(2) v(1) that assms(3)
          by (intro bexI [of _ 0]) (auto simp: list_all_iff)
        then have "v \<noteq> []" using assms(4) False by auto
        then have "hd y \<in> set ws" using v by (cases v) auto
        moreover have "hd y = CHR ''A''" using assms(2) False by (auto simp: follows_def PlaceholderPrefix_def)
        ultimately have "space_byte CHR ''A''" using z(2) by metis
        then show ?thesis by (simp add: space_byte_def in_ranges_def byte_def)
      qed
    qed
  qed
  have "rm placeholderRe (x @ y, p, []) = []"
    using z by (auto simp: placeholderRe_def o core re_space_def split: if_splits)
  then show ?thesis by (simp add: match_at_def)
qed

section \<open>A placeholder matches whole\<close>

lemma type_char:
  assumes "is_upper c \<or> c = CHR ''_''"
  shows "byte c < 128" "in_folded [(65, 90), (95, 95)] (byte c)" "\<not> is_digit c"
  using assms by (auto simp: is_upper_def is_digit_def in_range_def in_folded_def in_ranges_def byte_def)

lemma digit_byte: "in_ranges [(48, 57)] (byte c) \<longleftrightarrow> is_digit c"
  by (auto simp: in_ranges_def is_digit_def in_range_def)

lemma digit_pred: "ascii_pred (in_ranges [(48, 57)])"
  by (rule ascii_in_ranges) simp

lemma underscore_plain: "\<forall>c \<in> set ''_''. plain_char c"
  by (simp add: plain_char_def is_lower_def in_range_def byte_def)

lemma upper1_underscore: "upper1 c = CHR ''_'' \<longleftrightarrow> c = CHR ''_''"
  by (cases "is_lower c") (auto simp: upper1_def is_lower_def in_range_def byte_inj [symmetric] byte_def)

text \<open>What follows the type name: an underscore and digits.\<close>

definition core_tail :: re where
  "core_tail = Seq (re_lit_fold ''_'') (re_plus re_digit)"

lemma core_tail_step:
  "rm core_tail (s, p, g) =
     (case s of c # d # r \<Rightarrow>
        (if c = CHR ''_'' \<and> is_digit d then star_iter True (step_rune (in_ranges [(48, 57)])) (length r) (r, p + 2, g) else [])
      | _ \<Rightarrow> [])"
  by (auto simp: core_tail_def rm_lit_fold [OF underscore_plain] re_plus_def re_digit_def step_ascii [OF digit_pred]
      digit_byte upper1_underscore simp del: re_lit_fold.simps split: list.split)

lemma placeholder_core_alt:
  "placeholder_core = Seq (re_lit_fold PlaceholderPrefix) (Seq (re_plus_lazy (Fold [(65, 90), (95, 95)])) core_tail)"
  by (simp add: placeholder_core_def core_tail_def)

lemma core_tail_first:
  assumes "ds \<noteq> []" "\<forall>c \<in> set ds. is_digit c" "no_digit r"
  shows "\<exists>ys. rm core_tail (CHR ''_'' # ds @ r, p, g) = (r, p + 1 + length ds, g) # ys"
proof -
  obtain d es where ds: "ds = d # es" using assms(1) by (cases ds) auto
  have "\<exists>ys. star_iter True (step_rune (in_ranges [(48, 57)])) (length (es @ r)) (es @ r, p + 2, g) = (r, p + 2 + length es, g) # ys"
    by (rule star_greedy_first [OF digit_pred]) (use assms ds in \<open>auto simp: digit_byte no_digit_def\<close>)
  then show ?thesis using assms(2) ds by (simp add: core_tail_step)
qed

lemma core_tail_inside:
  assumes "w \<noteq> []" "\<forall>c \<in> set w. is_upper c \<or> c = CHR ''_''"
  shows "rm core_tail (w @ CHR ''_'' # r, p, g) = []"
proof (cases w)
  case (Cons c v)
  then have "\<not> is_digit (hd (v @ CHR ''_'' # r))"
    using assms(2) type_char(3) [of "hd (v @ CHR ''_'' # r)"] by (cases v) auto
  then show ?thesis using Cons by (cases "v @ CHR ''_'' # r") (auto simp: core_tail_step)
qed (use assms in simp)

lemma core_first:
  assumes t: "type_name t" and r: "no_digit r"
  shows "\<exists>ys. rm placeholder_core (placeholder t n @ r, p, g) = (r, p + length (placeholder t n), g) # ys"
proof -
  let ?C = "in_folded [(65, 90), (95, 95)]"
  obtain c w where cw: "t = c # w" using t by (cases t) (auto simp: type_name_def)
  have w: "\<forall>d \<in> set (c # w). is_upper d \<or> d = CHR ''_''" using t cw by (simp add: type_name_def)
  let ?r = "CHR ''_'' # itoa n @ r" and ?p = "p + length PlaceholderPrefix"
  obtain ys where ys: "rm core_tail (?r, ?p + 1 + length w, g) = (r, ?p + 1 + length w + 1 + length (itoa n), g) # ys"
    using core_tail_first [of "itoa n" r] itoa_digits r by fastforce
  have "rm core_tail (drop i w @ ?r, ?p + 1 + i, g) = []" if "i < length w" for i
    by (rule core_tail_inside) (use that w in \<open>auto dest: in_set_dropD\<close>)
  with star_lazy_first [of w ?C "length (w @ ?r)" "rm core_tail" ?r "?p + 1" g, OF _ _ _ ys]
  obtain zs where zs: "concat (map (rm core_tail) (star_iter False (step_rune ?C) (length (w @ ?r)) (w @ ?r, ?p + 1, g))) =
      (r, ?p + 1 + length w + 1 + length (itoa n), g) # zs"
    using w type_char by fastforce
  have s: "step_rune ?C (c # w @ ?r, ?p, g) = [(w @ ?r, ?p + 1, g)]"
    using w type_char(1,2) [of c] by (simp add: step_low)
  have pre: "has_prefix (map upper1 (PlaceholderPrefix @ t @ ?r)) PlaceholderPrefix"
    by (simp add: PlaceholderPrefix_def upper1_def is_lower_def in_range_def byte_def)
  have "rm placeholder_core (PlaceholderPrefix @ t @ ?r, p, g) =
      concat (map (rm core_tail) (star_iter False (step_rune ?C) (length (w @ ?r)) (w @ ?r, ?p + 1, g)))"
    using pre s cw by (simp add: placeholder_core_alt rm_lit_fold [OF prefix_plain] re_plus_lazy_def del: map_append)
  then show ?thesis using zs cw by (simp add: placeholder_def add.assoc)
qed

lemma match_placeholder:
  assumes "type_name t" "no_digit r"
  shows "match_at placeholderRe (placeholder t n @ r) p =
    Some (r, p, p + length (placeholder t n), [(2, p, p + length (placeholder t n))])"
proof -
  obtain ys where "rm placeholder_core (placeholder t n @ r, p, []) = (r, p + length (placeholder t n), []) # ys"
    using core_first [OF assms] by blast
  moreover have "step_rune (in_folded open_ranges) (placeholder t n @ r, p, []) = []"
    by (simp add: placeholder_def PlaceholderPrefix_def step_low byte_def in_folded_def fold_orbit_def in_ranges_def open_ranges_def)
  ultimately show ?thesis by (simp add: match_at_def placeholderRe_def)
qed

section \<open>All matches of an assembled text\<close>

lemma find_first_skip:
  "no_marker x \<Longrightarrow> follows y \<Longrightarrow> y = [] \<or> \<not> ends_open x \<Longrightarrow>
   find_first placeholderRe (x @ y) p = find_first placeholderRe y (p + length x)"
proof (induction "length x" arbitrary: x p rule: less_induct)
  case less
  show ?case
  proof (cases "x = []")
    case False
    let ?w = "rune_width x"
    have w: "0 < ?w" "?w \<le> length x" using False rune_width_pos rune_width_le by simp_all
    have e: "rune_width (x @ y) = ?w" using decode_follows [OF False less.prems(2)] by (simp add: rune_width_def)
    have "match_at placeholderRe (x @ y) p = None" by (rule no_match_inside) (use less.prems False in auto)
    then have "find_first placeholderRe (x @ y) p = find_first placeholderRe (drop ?w x @ y) (p + ?w)"
      using False w e by (subst find_first.simps) simp
    also have "\<dots> = find_first placeholderRe y (p + ?w + length (drop ?w x))"
      using less.prems no_marker_suffix [of "take ?w x" "drop ?w x"] ends_open_suffix [of "drop ?w x" "take ?w x"] w
      by (intro less.hyps) auto
    finally show ?thesis using w by simp
  qed simp
qed

text \<open>Gaps with the placeholder that ends each, given by type and number; then the last gap.\<close>

type_synonym chunk = "string \<times> string \<times> nat"

fun assemble :: "chunk list \<Rightarrow> string \<Rightarrow> string" where
  "assemble [] z = z"
| "assemble ((g, t, n) # cs) z = g @ placeholder t n @ assemble cs z"

fun chunk_matches :: "nat \<Rightarrow> chunk list \<Rightarrow> re_match list" where
  "chunk_matches p [] = []"
| "chunk_matches p ((g, t, n) # cs) =
     (let a = p + length g; b = a + length (placeholder t n) in (a, b, [(2, a, b)]) # chunk_matches b cs)"

definition chunk_ok :: "chunk \<Rightarrow> bool" where
  "chunk_ok c = (case c of (g, t, n) \<Rightarrow> no_marker g \<and> \<not> ends_open g \<and> type_name t)"

text \<open>The first gap may begin with a digit, the others may not.\<close>

fun digits_apart :: "chunk list \<Rightarrow> string \<Rightarrow> bool" where
  "digits_apart [] z = True"
| "digits_apart (c # cs) z \<longleftrightarrow> no_digit (case cs of [] \<Rightarrow> z | (g, _) # _ \<Rightarrow> g) \<and> digits_apart cs z"

lemma placeholder_no_digit: "no_digit (placeholder t n @ s)"
  by (simp add: no_digit_def placeholder_def PlaceholderPrefix_def is_digit_def in_range_def byte_def)

lemma assemble_no_digit:
  "no_digit (case cs of [] \<Rightarrow> z | (g, _) # _ \<Rightarrow> g) \<Longrightarrow> no_digit (assemble cs z)"
proof (cases cs)
  case (Cons c ds)
  obtain g t n where "c = (g, t, n)" by (cases c)
  then show "no_digit (case cs of [] \<Rightarrow> z | (g, _) # _ \<Rightarrow> g) \<Longrightarrow> no_digit (assemble cs z)"
    using Cons placeholder_no_digit [of t n "assemble ds z"] by (cases g) (auto simp: no_digit_def)
qed simp

lemma find_all_assemble:
  assumes "\<forall>c \<in> set cs. chunk_ok c" "digits_apart cs z" "no_marker z"
  shows "find_all placeholderRe (assemble cs z) p prev = chunk_matches p cs"
  using assms
proof (induction cs arbitrary: p prev)
  case Nil
  have "find_first placeholderRe z p = find_first placeholderRe [] (p + length z)"
    using find_first_skip [of z "[]"] Nil by (simp add: follows_def)
  also have "\<dots> = None"
    by (subst find_first.simps) (simp add: match_at_def placeholderRe_def core_needs_marker PlaceholderPrefix_def)
  finally show ?case by (subst find_all.simps) simp
next
  case (Cons c cs)
  obtain g t n where c: "c = (g, t, n)" by (cases c)
  let ?r = "assemble cs z" and ?p = "p + length g"
  have r: "no_digit ?r" using assemble_no_digit Cons.prems(2) by simp
  have ok: "no_marker g" "\<not> ends_open g" "type_name t" using Cons.prems(1) c by (simp_all add: chunk_ok_def)
  have "find_first placeholderRe (g @ placeholder t n @ ?r) p = find_first placeholderRe (placeholder t n @ ?r) ?p"
    using ok by (intro find_first_skip) (auto simp: follows_def placeholder_def)
  also have "\<dots> = Some (?r, ?p, ?p + length (placeholder t n), [(2, ?p, ?p + length (placeholder t n))])"
    using match_placeholder [OF ok(3) r] by (subst find_first.simps) simp
  finally have "find_all placeholderRe (assemble (c # cs) z) p prev =
      (?p, ?p + length (placeholder t n), [(2, ?p, ?p + length (placeholder t n))]) #
      find_all placeholderRe ?r (?p + length (placeholder t n)) (Some (?p + length (placeholder t n)))"
    by (subst find_all.simps) (simp add: c placeholder_def PlaceholderPrefix_def)
  then show ?case using Cons c by (simp add: Let_def)
qed

end
