(* ===== verification/Redactor.thy ===== *)
theory Redactor imports Placeholder FlowMatrix begin

text \<open>
  The redactor (\<open>pii/anonymize/redactor.go\<close>): redaction of the detected entities by the operators
  of a flow, and restoration of placeholders and tokens in an answer. The detector is an
  argument, None when it fails.
\<close>

section \<open>Configuration\<close>

record redactor =
  rd_detect :: "string \<Rightarrow> entity list option"
  rd_failClosed :: bool
  rd_allowed :: "string list option"
  rd_tokens :: bool

datatype redactor_option = WithRedactTypes "string list" | WithTokenStore bool

fun apply_redactor_option :: "redactor_option \<Rightarrow> redactor \<Rightarrow> redactor" where
  "apply_redactor_option (WithRedactTypes types) r = (if types = [] then r else r\<lparr>rd_allowed := Some types\<rparr>)"
| "apply_redactor_option (WithTokenStore has_store) r = (if has_store then r\<lparr>rd_tokens := True\<rparr> else r)"

definition NewRedactorWith :: "(string \<Rightarrow> entity list option) \<Rightarrow> bool \<Rightarrow> redactor_option list \<Rightarrow> redactor" where
  "NewRedactorWith d fc opts =
     fold apply_redactor_option opts \<lparr>rd_detect = d, rd_failClosed = fc, rd_allowed = None, rd_tokens = False\<rparr>"

definition NewRedactor :: "(string \<Rightarrow> entity list option) \<Rightarrow> bool \<Rightarrow> string list \<Rightarrow> redactor" where
  "NewRedactor d fc types =
     \<lparr>rd_detect = d, rd_failClosed = fc, rd_allowed = (if types = [] then None else Some types), rd_tokens = False\<rparr>"

definition maskOnlyFlow :: flow where
  "maskOnlyFlow = \<lparr>fl_Name = ''default'', fl_Default = Some MaskStrategy, fl_ByType = [], fl_Restores = True\<rparr>"

section \<open>Redaction\<close>

record redact_result =
  rr_Text :: string
  rr_Entities :: "entity list"
  rr_TypeCounts :: "(string, int) gomap"
  rr_StrategyCounts :: "(string, int) gomap"

definition plain_result :: "string \<Rightarrow> redact_result" where
  "plain_result t = \<lparr>rr_Text = t, rr_Entities = [], rr_TypeCounts = [], rr_StrategyCounts = []\<rparr>"

datatype redact_error = NoDefaultOperator | DetectorFailed | OverlapError int | OperatorFailed strategy_error | RedactPanic

definition incr :: "string \<Rightarrow> (string, int) gomap \<Rightarrow> (string, int) gomap" where
  "incr k m = gm_set k ((case gm_get m k of None \<Rightarrow> 0 | Some n \<Rightarrow> n) + 1) m"

text \<open>The slice \<open>text[a:b]\<close>, None for the panic.\<close>

definition text_slice :: "string \<Rightarrow> int \<Rightarrow> int \<Rightarrow> string option" where
  "text_slice t a b =
     (if 0 \<le> a \<and> a \<le> b \<and> b \<le> int (length t) then Some (take (nat (b - a)) (drop (nat a) t)) else None)"

text \<open>The loop over the entities in order of their start; the builder is \<open>out\<close>.\<close>

fun redact_loop ::
    "crypto \<Rightarrow> case_tables \<Rightarrow> 's token_ops \<Rightarrow> flow \<Rightarrow> string \<Rightarrow> entity list \<Rightarrow> int \<Rightarrow> string \<Rightarrow>
     (string, int) gomap \<Rightarrow> (string, int) gomap \<Rightarrow> 's scope \<Rightarrow>
     (redact_error + string \<times> (string, int) gomap \<times> (string, int) gomap) \<times> 's scope" where
  "redact_loop cr ct tops f text [] cursor out tc sc scope =
     (case text_slice text cursor (int (length text)) of
        None \<Rightarrow> (Inl RedactPanic, scope)
      | Some rest \<Rightarrow> (Inr (out @ rest, tc, sc), scope))"
| "redact_loop cr ct tops f text (e # es) cursor out tc sc scope =
     (if e_start e < cursor then (Inl (OverlapError cursor), scope)
      else case flow_Strategy f (e_type e) of
        None \<Rightarrow> (Inl RedactPanic, scope)
      | Some s \<Rightarrow>
          case strategy_Apply cr ct tops s scope e of
            (Inl err, scope) \<Rightarrow> (Inl (OperatorFailed err), scope)
          | (Inr replacement, scope) \<Rightarrow>
              case text_slice text cursor (e_start e) of
                None \<Rightarrow> (Inl RedactPanic, scope)
              | Some gap \<Rightarrow>
                  redact_loop cr ct tops f text es (e_end e) (out @ gap @ replacement)
                    (incr (e_type e) tc) (incr (strategy_Name s) sc) scope)"

definition allowed_entities :: "redactor \<Rightarrow> entity list \<Rightarrow> entity list" where
  "allowed_entities rd es =
     (case rd_allowed rd of None \<Rightarrow> es | Some types \<Rightarrow> filter (\<lambda>e. e_type e \<in> set types) es)"

definition RedactTo ::
    "crypto \<Rightarrow> case_tables \<Rightarrow> 's token_ops \<Rightarrow> redactor \<Rightarrow> string \<Rightarrow> 's scope \<Rightarrow> flow \<Rightarrow>
     (redact_result \<times> redact_error option) \<times> 's scope" where
  "RedactTo cr ct tops rd text scope f =
     (if fl_Default f = None then ((plain_result [], Some NoDefaultOperator), scope)
      else if text = [] then ((plain_result text, None), scope)
      else case rd_detect rd text of
        None \<Rightarrow>
          if rd_failClosed rd then ((plain_result [], Some DetectorFailed), scope)
          else ((plain_result text, Some DetectorFailed), scope)
      | Some entities \<Rightarrow>
          let entities = allowed_entities rd entities in
          if entities = [] then ((plain_result text, None), scope)
          else case redact_loop cr ct tops f text (sort_key e_start entities) 0 [] [] [] scope of
            (Inl err, scope) \<Rightarrow> ((plain_result [], Some err), scope)
          | (Inr (out, tc, sc), scope) \<Rightarrow>
              ((\<lparr>rr_Text = out, rr_Entities = entities, rr_TypeCounts = tc, rr_StrategyCounts = sc\<rparr>, None), scope))"

definition Redact ::
    "crypto \<Rightarrow> case_tables \<Rightarrow> 's token_ops \<Rightarrow> redactor \<Rightarrow> string \<Rightarrow> 's scope \<Rightarrow>
     (redact_result \<times> redact_error option) \<times> 's scope" where
  "Redact cr ct tops rd text scope = RedactTo cr ct tops rd text scope maskOnlyFlow"

section \<open>Restoration\<close>

record unredact_result =
  ur_Text :: string
  ur_Restored :: nat
  ur_Phantom :: "string list"

datatype unredact_error = VaultRequired | TokenStoreError token_error

definition cut_text :: "string \<Rightarrow> nat \<Rightarrow> nat \<Rightarrow> string" where
  "cut_text t a b = take (b - a) (drop a t)"

text \<open>The loop over the matches: a placeholder the vault does not know is left where it stands.\<close>

fun restore_loop :: "(string \<Rightarrow> string option) \<Rightarrow> string \<Rightarrow> re_match list \<Rightarrow> nat \<Rightarrow> string \<Rightarrow> nat \<Rightarrow> string list \<Rightarrow> unredact_result" where
  "restore_loop rs text [] cursor out n ph =
     \<lparr>ur_Text = out @ drop cursor text, ur_Restored = n, ur_Phantom = ph\<rparr>"
| "restore_loop rs text (m # ms) cursor out n ph =
     (case (case group_of 1 m of Some g \<Rightarrow> Some g | None \<Rightarrow> group_of 2 m) of
        None \<Rightarrow> restore_loop rs text ms cursor out n ph
      | Some (a, b) \<Rightarrow>
          let token = to_upper (cut_text text a b) in
          case rs token of
            None \<Rightarrow> restore_loop rs text ms cursor out n (ph @ [token])
          | Some v \<Rightarrow> restore_loop rs text ms (fst (snd m)) (out @ cut_text text cursor (fst m) @ v) (n + 1) ph)"

definition ns_class :: re where "ns_class = Cls [(97, 122), (48, 57), (95, 95)]"
definition hex_class :: re where "hex_class = Cls [(48, 57), (97, 102), (65, 70)]"
definition tokenPrefix :: string where "tokenPrefix = ''[tok:''"

definition tokenRe :: re where
  "tokenRe =
     Seq (re_lit tokenPrefix) (Seq (Grp 1 (re_plus ns_class)) (Seq (re_lit '':'')
       (Seq (Grp 2 (re_rep 8 56 hex_class)) (re_lit '']''))))"

fun token_loop ::
    "(string \<Rightarrow> string \<Rightarrow> token_error + string option) \<Rightarrow> string \<Rightarrow> re_match list \<Rightarrow> nat \<Rightarrow> string \<Rightarrow> nat \<Rightarrow> string list \<Rightarrow>
     token_error + unredact_result" where
  "token_loop rs text [] cursor out n ph = Inr \<lparr>ur_Text = out @ drop cursor text, ur_Restored = n, ur_Phantom = ph\<rparr>"
| "token_loop rs text (m # ms) cursor out n ph =
     (case (group_of 1 m, group_of 2 m) of
        (Some (a, b), Some (c, d)) \<Rightarrow>
          (case rs (cut_text text a b) (to_lower (cut_text text c d)) of
             Inl e \<Rightarrow> Inl e
           | Inr None \<Rightarrow> token_loop rs text ms cursor out n (ph @ [cut_text text (fst m) (fst (snd m))])
           | Inr (Some v) \<Rightarrow> token_loop rs text ms (fst (snd m)) (out @ cut_text text cursor (fst m) @ v) (n + 1) ph)
      | _ \<Rightarrow> token_loop rs text ms cursor out n ph)"

definition unredactTokens :: "'s token_ops \<Rightarrow> 's scope \<Rightarrow> unredact_result \<Rightarrow> token_error + unredact_result" where
  "unredactTokens tops scope res =
     (if \<not> contains (ur_Text res) tokenPrefix then Inr res
      else token_loop (\<lambda>ns tok. to_resolve tops (sc_store scope) \<lparr>tk_Tenant = sc_Tenant scope, tk_Namespace = ns\<rparr> tok)
             (ur_Text res) (find_all_string tokenRe (ur_Text res)) 0 [] (ur_Restored res) (ur_Phantom res))"

definition Unredact :: "'s token_ops \<Rightarrow> redactor \<Rightarrow> string \<Rightarrow> 's scope \<Rightarrow> unredact_error + unredact_result" where
  "Unredact tops rd text scope =
     (if text = [] then Inr \<lparr>ur_Text = text, ur_Restored = 0, ur_Phantom = []\<rparr>
      else case sc_Vault scope of
        None \<Rightarrow> Inl VaultRequired
      | Some v \<Rightarrow>
          let res = restore_loop (Vault_Resolve v) text (find_all_string placeholderRe text) 0 [] 0 [] in
          if rd_tokens rd
          then (case unredactTokens tops scope res of Inl e \<Rightarrow> Inl (TokenStoreError e) | Inr r \<Rightarrow> Inr r)
          else Inr res)"

section \<open>Redaction followed by restoration\<close>

text \<open>The detector's report fits the text: in order, apart, in range, with the values of the spans.\<close>

fun spans_fit :: "string \<Rightarrow> nat \<Rightarrow> entity list \<Rightarrow> bool" where
  "spans_fit text cursor [] \<longleftrightarrow> cursor \<le> length text"
| "spans_fit text cursor (e # es) \<longleftrightarrow>
     int cursor \<le> e_start e \<and> e_start e < e_end e \<and> e_end e \<le> int (length text) \<and> type_name (e_type e) \<and>
     cut_text text (nat (e_start e)) (nat (e_end e)) = e_value e \<and> spans_fit text (nat (e_end e)) es"

text \<open>The text between the spans is inert; the flag says that no placeholder precedes.\<close>

fun gaps_inert :: "string \<Rightarrow> nat \<Rightarrow> bool \<Rightarrow> entity list \<Rightarrow> bool" where
  "gaps_inert text cursor first [] \<longleftrightarrow>
     no_marker (drop cursor text) \<and> (first \<or> no_digit (drop cursor text))"
| "gaps_inert text cursor first (e # es) \<longleftrightarrow>
     (let g = cut_text text cursor (nat (e_start e)) in
      no_marker g \<and> \<not> ends_open g \<and> (first \<or> no_digit g)) \<and> gaps_inert text (nat (e_end e)) False es"

fun last_end :: "nat \<Rightarrow> entity list \<Rightarrow> nat" where
  "last_end cursor [] = cursor"
| "last_end cursor (e # es) = last_end (nat (e_end e)) es"

fun redacted_as :: "session_vault \<Rightarrow> string \<Rightarrow> nat \<Rightarrow> entity list \<Rightarrow> chunk list \<Rightarrow> bool" where
  "redacted_as v text cursor [] [] \<longleftrightarrow> True"
| "redacted_as v text cursor (e # es) ((g, t, n) # cs) \<longleftrightarrow>
     g = cut_text text cursor (nat (e_start e)) \<and> t = e_type e \<and>
     gm_get (sv_reverse v) (placeholder t n) = Some (e_value e) \<and> redacted_as v text (nat (e_end e)) es cs"
| "redacted_as v text cursor es cs \<longleftrightarrow> False"

lemma text_slice_cut: "a \<le> b \<Longrightarrow> b \<le> length t \<Longrightarrow> text_slice t (int a) (int b) = Some (cut_text t a b)"
  by (simp add: text_slice_def cut_text_def nat_diff_distrib)

lemma spans_fit_le: "spans_fit text cursor es \<Longrightarrow> cursor \<le> length text"
  by (cases es) auto

lemma redact_mask_loop:
  "vault_inv v \<Longrightarrow> spans_fit text cursor es \<Longrightarrow> sc_Vault scope = Some v \<Longrightarrow>
   \<exists>cs v' tc' sc'. redact_loop cr ct tops maskOnlyFlow text es (int cursor) out tc sc scope =
       (Inr (out @ assemble cs (drop (last_end cursor es) text), tc', sc'), scope\<lparr>sc_Vault := Some v'\<rparr>) \<and>
     vault_inv v' \<and> vault_le v v' \<and> redacted_as v' text cursor es cs"
proof (induction es arbitrary: v cursor out tc sc scope)
  case Nil
  then have "text_slice text (int cursor) (int (length text)) = Some (drop cursor text)"
    by (simp add: text_slice_cut cut_text_def)
  then show ?case using Nil by (intro exI [of _ "[]"] exI [of _ v] exI [of _ tc] exI [of _ sc]) simp
next
  case (Cons e es)
  let ?a = "nat (e_start e)" and ?b = "nat (e_end e)"
  have f: "int cursor \<le> e_start e" "e_start e = int ?a" "e_end e = int ?b" "cursor \<le> ?a" "?a \<le> length text"
    "type_name (e_type e)" "spans_fit text ?b es"
    using Cons.prems(2) by auto
  obtain p v1 where P: "PlaceholderFor v e = (p, v1)" by fastforce
  note inv = PlaceholderFor_inv [OF Cons.prems(1) f(6) P] and le = PlaceholderFor_le [OF Cons.prems(1) P]
  obtain n where n: "p = placeholder (e_type e) n" "gm_get (sv_reverse v1) p = Some (e_value e)"
    using PlaceholderFor_maps [OF Cons.prems(1) f(6) P] by blast
  have sl: "text_slice text (int cursor) (e_start e) = Some (cut_text text cursor ?a)"
    using text_slice_cut [OF f(4,5)] f(2) by metis
  let ?g = "cut_text text cursor ?a"
  obtain cs v' tc' sc' where IH: "redact_loop cr ct tops maskOnlyFlow text es (int ?b) (out @ ?g @ p)
        (incr (e_type e) tc) (incr (strategy_Name MaskStrategy) sc) (scope\<lparr>sc_Vault := Some v1\<rparr>) =
       (Inr ((out @ ?g @ p) @ assemble cs (drop (last_end ?b es) text), tc', sc'),
        (scope\<lparr>sc_Vault := Some v1\<rparr>)\<lparr>sc_Vault := Some v'\<rparr>)"
     "vault_inv v'" "vault_le v1 v'" "redacted_as v' text ?b es cs"
    using Cons.IH [OF inv f(7), of "scope\<lparr>sc_Vault := Some v1\<rparr>"] by fastforce
  have nn: "0 \<le> e_end e" "0 \<le> e_start e" using Cons.prems(2) by auto
  have step: "redact_loop cr ct tops maskOnlyFlow text (e # es) (int cursor) out tc sc scope =
       (Inr (out @ assemble ((?g, e_type e, n) # cs) (drop (last_end cursor (e # es)) text), tc', sc'),
        scope\<lparr>sc_Vault := Some v'\<rparr>)"
    using f(1) sl IH(1) n P Cons.prems(3) nn by (simp add: flow_Strategy_def maskOnlyFlow_def mask_Apply_def)
  have "redacted_as v' text cursor (e # es) ((?g, e_type e, n) # cs)"
    using IH(3,4) n by (simp add: vault_le_def)
  then show ?case using step IH(2) vault_le_trans [OF le IH(3)] by blast
qed

lemma redacted_inert:
  "redacted_as v text cursor es cs \<Longrightarrow> spans_fit text cursor es \<Longrightarrow> gaps_inert text cursor first es \<Longrightarrow>
   (\<forall>c \<in> set cs. chunk_ok c) \<and> digits_apart cs (drop (last_end cursor es) text) \<and>
   no_marker (drop (last_end cursor es) text) \<and>
   (first \<or> no_digit (case cs of [] \<Rightarrow> drop (last_end cursor es) text | (g, _) # _ \<Rightarrow> g))"
proof (induction v "text" cursor es cs arbitrary: first rule: redacted_as.induct [case_names 1 step 3 4])
  case (step v tx cursor e es g t k cs)
  have IH: "(\<forall>c \<in> set cs. chunk_ok c) \<and> digits_apart cs (drop (last_end (nat (e_end e)) es) tx) \<and>
      no_marker (drop (last_end (nat (e_end e)) es) tx) \<and>
      no_digit (case cs of [] \<Rightarrow> drop (last_end (nat (e_end e)) es) tx | (g, _) # _ \<Rightarrow> g)"
    using step.IH [of False] step.prems by simp
  then show ?case using step.prems by (auto simp: chunk_ok_def Let_def)
qed simp_all

lemma restore_chunks:
  "redacted_as v text cursor es cs \<Longrightarrow> spans_fit text cursor es \<Longrightarrow>
   restore_loop (Vault_Resolve v) (pre @ assemble cs (drop (last_end cursor es) text)) (chunk_matches (length pre) cs)
     (length pre) out n ph =
   \<lparr>ur_Text = out @ drop cursor text, ur_Restored = n + length es, ur_Phantom = ph\<rparr>"
proof (induction v "text" cursor es cs arbitrary: pre out n rule: redacted_as.induct [case_names 1 step 3 4])
  case (step v tx cursor e es g t k cs)
  let ?p = "placeholder t k" and ?b = "nat (e_end e)"
  let ?z = "drop (last_end ?b es) tx"
  let ?T = "pre @ g @ ?p @ assemble cs ?z"
  let ?a = "length pre + length g"
  have f: "type_name t" "cursor \<le> nat (e_start e)" "nat (e_start e) \<le> ?b" "?b \<le> length tx"
    "spans_fit tx ?b es" "cut_text tx (nat (e_start e)) ?b = e_value e" "g = cut_text tx cursor (nat (e_start e))"
    using step.prems by auto
  have u: "to_upper ?p = ?p" using upper_type_name [OF f(1)] .
  have c: "cut_text ?T ?a (?a + length ?p) = ?p" "cut_text ?T (length pre) ?a = g" by (simp_all add: cut_text_def)
  have r: "Vault_Resolve v ?p = Some (e_value e)" using step.prems(1) u by (auto simp: Vault_Resolve_def)
  have "drop cursor tx = g @ e_value e @ drop ?b tx"
  proof -
    have "drop cursor tx = cut_text tx cursor (nat (e_start e)) @ drop (nat (e_start e)) tx"
      using f(2) append_take_drop_id [of "nat (e_start e) - cursor" "drop cursor tx"] by (simp add: cut_text_def)
    also have "drop (nat (e_start e)) tx = cut_text tx (nat (e_start e)) ?b @ drop ?b tx"
      using f(3) append_take_drop_id [of "?b - nat (e_start e)" "drop (nat (e_start e)) tx"] by (simp add: cut_text_def)
    finally show ?thesis using f(6,7) by simp
  qed
  moreover have "restore_loop (Vault_Resolve v) ((pre @ g @ ?p) @ assemble cs ?z) (chunk_matches (length (pre @ g @ ?p)) cs)
      (length (pre @ g @ ?p)) (out @ g @ e_value e) (n + 1) ph =
    \<lparr>ur_Text = (out @ g @ e_value e) @ drop ?b tx, ur_Restored = n + 1 + length es, ur_Phantom = ph\<rparr>"
    using step.IH [of "pre @ g @ ?p"] step.prems(1) f(5) by simp
  ultimately show ?case
    using c r u by (simp add: Let_def group_of_def add.assoc)
qed simp_all

lemma sort_key_Nil: "sort_key f xs = [] \<longleftrightarrow> xs = []"
  by (metis length_0_conv length_sort)

text \<open>
  C4: Redaction is undone by restoration: when the detector's report fits the text and the text
  between the reported spans is inert, masking the text and restoring the masked text with the
  session's vault gives the text back, with every placeholder restored and none left over.
\<close>

theorem redact_unredact:
  fixes scope :: "'s scope"
  assumes v: "sc_Vault scope = Some v" "vault_inv v" and d: "rd_detect rd text = Some es" "rd_tokens rd = False"
    and s: "spans_fit text 0 (sort_key e_start (allowed_entities rd es))"
    and g: "gaps_inert text 0 True (sort_key e_start (allowed_entities rd es))"
    and R: "Redact cr ct tops rd text scope = ((r, err), scope')"
  shows "err = None \<and> (\<exists>u. Unredact tops rd (rr_Text r) scope' = Inr u \<and> ur_Text u = text \<and> ur_Phantom u = [] \<and>
    ur_Restored u = length (allowed_entities rd es))"
proof (cases "text = []")
  case True
  then have "allowed_entities rd es = []"
    using s by (cases "sort_key e_start (allowed_entities rd es)") (auto simp: sort_key_Nil)
  then show ?thesis using True R by (auto simp: Redact_def RedactTo_def maskOnlyFlow_def plain_result_def Unredact_def)
next
  case ne: False
  let ?es = "sort_key e_start (allowed_entities rd es)"
  obtain cs v' tc' sc' where L: "redact_loop cr ct tops maskOnlyFlow text ?es (int 0) [] [] [] scope =
       (Inr ([] @ assemble cs (drop (last_end 0 ?es) text), tc', sc'), scope\<lparr>sc_Vault := Some v'\<rparr>)"
     "vault_inv v'" "redacted_as v' text 0 ?es cs"
    using redact_mask_loop [OF v(2) s v(1)] by blast
  let ?T = "assemble cs (drop (last_end 0 ?es) text)"
  note inert = redacted_inert [OF L(3) s g]
  have F: "find_all_string placeholderRe ?T = chunk_matches 0 cs"
    unfolding find_all_string_def using find_all_assemble inert by blast
  have U: "restore_loop (Vault_Resolve v') ?T (chunk_matches 0 cs) 0 [] 0 [] =
      \<lparr>ur_Text = text, ur_Restored = length ?es, ur_Phantom = []\<rparr>"
    using restore_chunks [OF L(3) s, of "[]" "[]" 0 "[]"] by simp
  show ?thesis
  proof (cases "allowed_entities rd es = []")
    case True
    then have T: "?T = text" "cs = []" using L(3) by (cases cs; simp)+
    then show ?thesis using True R d ne v(1) F U
      by (auto simp: Redact_def RedactTo_def maskOnlyFlow_def plain_result_def Unredact_def Let_def)
  next
    case False
    then have r: "rr_Text r = ?T" "err = None" "scope' = scope\<lparr>sc_Vault := Some v'\<rparr>"
      using R d ne L(1) by (auto simp: Redact_def RedactTo_def maskOnlyFlow_def [THEN arg_cong, of fl_Default] Let_def)
    have "cs \<noteq> []" using False L(3) by (cases ?es) (auto simp: sort_key_Nil)
    then have "?T \<noteq> []" by (cases cs) (auto simp: placeholder_def PlaceholderPrefix_def)
    then show ?thesis using r F U d(2) by (simp add: Unredact_def Let_def)
  qed
qed

text \<open>ASCII text without opening brackets never ends open.\<close>

definition calm :: "string \<Rightarrow> bool" where
  "calm g \<longleftrightarrow> (\<forall>c \<in> set g. byte c < 128 \<and> byte c \<notin> {96, 91, 123, 60, 40})"

lemma open_ascii:
  assumes "b < 128" "in_folded open_ranges b"
  shows "b \<in> {96, 91, 123, 60, 40}"
proof -
  have o: "in_ranges open_ranges q \<longleftrightarrow> q \<in> {96, 91, 123, 60, 12304, 65288, 40}" for q
    by (simp add: in_ranges_def open_ranges_def) linarith
  have l: "65 \<le> q \<and> q \<le> 90 \<or> 97 \<le> q \<and> q \<le> 122" if "q \<in> set (fold_orbit b)" for q
    using that assms(1) by (auto simp: fold_orbit_def split: if_splits)
  have "q \<notin> {96, 91, 123, 60, 12304, 65288, 40}" if "q \<in> set (fold_orbit b)" for q
    using l [OF that] by auto
  then have "in_ranges open_ranges b" using assms(2) o unfolding in_folded_def by blast
  then show ?thesis using assms(1) unfolding o by auto
qed

lemma calm_not_open:
  assumes "calm g"
  shows "\<not> ends_open g"
proof
  assume "ends_open g"
  then obtain i where i: "i < length g" "in_folded open_ranges (fst (decode_rune (drop i g)))"
    by (auto simp: ends_open_def case_prod_beta)
  then obtain c r where c: "drop i g = c # r" "c \<in> set g" by (metis Cons_nth_drop_Suc nth_mem)
  then have b: "byte c < 128" "byte c \<notin> {96, 91, 123, 60, 40}"
    using assms by (auto simp: calm_def)
  have "in_folded open_ranges (byte c)" using i(2) c(1) b(1) by (simp add: decode_ascii)
  then show False using b open_ascii by blast
qed

definition demo_detector :: "string \<Rightarrow> entity list option" where
  "demo_detector t = Some [\<lparr>e_type = ''NAME'', e_value = ''Al'', e_start = 3, e_end = 5, e_conf = 1, e_det = ''d''\<rparr>]"

definition demo_redactor :: redactor where
  "demo_redactor = NewRedactor demo_detector True []"

definition demo_scope :: "unit scope" where
  "demo_scope = \<lparr>sc_Tenant = ''acme'', sc_Vault = Some (newSessionVault ''s'' 10 0), sc_store = ()\<rparr>"

definition no_tokens :: "unit token_ops" where
  "no_tokens = \<lparr>to_issue = (\<lambda>s k v. (Inl Backend, s)), to_resolve = (\<lambda>s k t. Inl Backend)\<rparr>"

definition id_tables :: case_tables where
  "id_tables = \<lparr>ct_upper = (\<lambda>r. r), ct_lower = (\<lambda>r. r)\<rparr>"

theorem redact_unredact_witness:
  "let (r, scope) = Redact plain_crypto id_tables no_tokens demo_redactor ''to Al.'' demo_scope in
   snd r = None \<and> (\<exists>u. Unredact no_tokens demo_redactor (rr_Text (fst r)) scope = Inr u \<and> ur_Text u = ''to Al.'')"
proof -
  let ?es = "[\<lparr>e_type = ''NAME'', e_value = ''Al'', e_start = 3, e_end = 5, e_conf = 1, e_det = ''d''\<rparr>]"
  have d: "rd_detect demo_redactor ''to Al.'' = Some ?es" "rd_tokens demo_redactor = False"
    by (simp_all add: demo_redactor_def NewRedactor_def demo_detector_def)
  have a: "sort_key e_start (allowed_entities demo_redactor ?es) = ?es"
    by (simp add: demo_redactor_def NewRedactor_def allowed_entities_def)
  have s: "spans_fit ''to Al.'' 0 ?es"
    by (simp add: cut_text_def type_name_def is_upper_def in_range_def byte_def)
  have "\<not> ends_open ''to ''" by (rule calm_not_open) (simp add: calm_def byte_def)
  then have g: "gaps_inert ''to Al.'' 0 True ?es"
    by (simp add: cut_text_def no_marker_def contains_def str_index_def PlaceholderPrefix_def no_digit_def is_digit_def
        is_lower_def upper1_def in_range_def byte_def)
  have s': "spans_fit ''to Al.'' 0 (sort_key e_start (allowed_entities demo_redactor ?es))" unfolding a by (rule s)
  have g': "gaps_inert ''to Al.'' 0 True (sort_key e_start (allowed_entities demo_redactor ?es))" unfolding a by (rule g)
  obtain r err scope' where R: "Redact plain_crypto id_tables no_tokens demo_redactor ''to Al.'' demo_scope = ((r, err), scope')"
    by (metis surj_pair)
  show ?thesis
    using redact_unredact [OF _ newSessionVault_inv d s' g' R, of "''s''" 10 0] R
    by (auto simp: demo_scope_def)
qed

section \<open>What leaves when something fails\<close>

fun weave :: "string \<Rightarrow> nat \<Rightarrow> entity list \<Rightarrow> string list \<Rightarrow> string" where
  "weave text cursor (e # es) (r # rs) =
     cut_text text cursor (nat (e_start e)) @ r @ weave text (nat (e_end e)) es rs"
| "weave text cursor es rs = drop cursor text"

lemma text_slice_Some:
  "text_slice t a b = Some s \<longleftrightarrow> 0 \<le> a \<and> a \<le> b \<and> b \<le> int (length t) \<and> s = cut_text t (nat a) (nat b)"
  by (auto simp: text_slice_def cut_text_def nat_diff_distrib)

fun spans_ordered :: "int \<Rightarrow> entity list \<Rightarrow> bool" where
  "spans_ordered cursor [] = True"
| "spans_ordered cursor (e # es) \<longleftrightarrow> cursor \<le> e_start e \<and> spans_ordered (e_end e) es"

lemma redact_loop_weave:
  "redact_loop cr ct tops f text es cursor out tc sc scope = (Inr (res, tc', sc'), scope') \<Longrightarrow>
   spans_ordered cursor es \<and> (\<exists>rs. length rs = length es \<and> res = out @ weave text (nat cursor) es rs)"
proof (induction es arbitrary: cursor out tc sc scope)
  case Nil
  then show ?case by (auto simp: text_slice_Some cut_text_def split: option.splits)
next
  case (Cons e es)
  have c: "cursor \<le> e_start e" using Cons.prems by (auto split: if_splits)
  obtain s rep scope1 where s: "flow_Strategy f (e_type e) = Some s" "strategy_Apply cr ct tops s scope e = (Inr rep, scope1)"
    using Cons.prems c by (auto split: option.splits prod.splits sum.splits)
  obtain g where g: "text_slice text cursor (e_start e) = Some g"
    using Cons.prems c s by (auto split: option.splits)
  from g have g': "g = cut_text text (nat cursor) (nat (e_start e))" by (simp add: text_slice_Some)
  have "redact_loop cr ct tops f text es (e_end e) (out @ g @ rep) (incr (e_type e) tc) (incr (strategy_Name s) sc) scope1 =
      (Inr (res, tc', sc'), scope')"
    using Cons.prems c s g by simp
  from Cons.IH [OF this] obtain rs where rs: "spans_ordered (e_end e) es" "length rs = length es"
      "res = (out @ g @ rep) @ weave text (nat (e_end e)) es rs" by blast
  then have "res = out @ weave text (nat cursor) (e # es) (rep # rs)" "length (rep # rs) = length (e # es)"
    using g' by simp_all
  then show ?case using rs(1) c by (metis spans_ordered.simps(2))
qed



section \<open>Where restoration goes wrong\<close>

text \<open>The vault alone decides when no token store is attached.\<close>

lemma Unredact_assembled:
  assumes "\<forall>c \<in> set cs. chunk_ok c" "digits_apart cs z" "no_marker z" "assemble cs z \<noteq> []"
    and "sc_Vault scope = Some v" "rd_tokens rd = False"
  shows "Unredact tops rd (assemble cs z) scope =
    Inr (restore_loop (Vault_Resolve v) (assemble cs z) (chunk_matches 0 cs) 0 [] 0 [])"
  using assms find_all_assemble [OF assms(1-3), of 0 None] by (simp add: Unredact_def find_all_string_def Let_def)

lemma Unredact_one:
  assumes "type_name t" "no_digit z" "no_marker z" "no_marker g" "\<not> ends_open g"
    and "sc_Vault scope = Some v" "rd_tokens rd = False" "Vault_Resolve v (placeholder t n) = Some x"
  shows "Unredact tops rd (g @ placeholder t n @ z) scope = Inr \<lparr>ur_Text = g @ x @ z, ur_Restored = 1, ur_Phantom = []\<rparr>"
proof -
  have "placeholder t n \<noteq> []" by (simp add: placeholder_def PlaceholderPrefix_def)
  then show ?thesis
    using Unredact_assembled [of "[(g, t, n)]" z scope v rd tops] assms upper_type_name [OF assms(1), of n]
    by (simp add: chunk_ok_def Let_def group_of_def cut_text_def)
qed

lemma no_marker_Nil [simp]: "no_marker []"
  by (simp add: no_marker_def contains_def str_index_def PlaceholderPrefix_def)

lemma ends_open_Nil [simp]: "\<not> ends_open []"
  by (simp add: ends_open_def)

text \<open>A digit that follows a placeholder in the text is taken for part of its number: the first
  value's place is filled with the value of another entity of the same type, the one whose
  number has that digit appended, and the digit disappears.\<close>

theorem digit_restores_another_value:
  assumes "type_name t" "0 < n" "k < 10" "no_digit z" "no_marker z"
    and "sc_Vault scope = Some v" "rd_tokens rd = False"
    and "Vault_Resolve v (placeholder t n) = Some x" "Vault_Resolve v (placeholder t (10 * n + k)) = Some y"
  shows "Unredact tops rd (placeholder t n @ digit_char k # z) scope =
    Inr \<lparr>ur_Text = y @ z, ur_Restored = 1, ur_Phantom = []\<rparr>"
proof -
  have "itoa (10 * n + k) = itoa n @ [digit_char k]" using assms(2,3) by (subst itoa.simps) simp
  then have e: "placeholder t n @ digit_char k # z = placeholder t (10 * n + k) @ z" by (simp add: placeholder_def)
  show ?thesis unfolding e using Unredact_one [of t z "[]" scope v rd "10 * n + k" y tops] assms by simp
qed

definition two_people :: "unit scope" where
  "two_people = demo_scope\<lparr>sc_Vault := Some ((newSessionVault ''s'' 10 0)
     \<lparr>sv_reverse := [(placeholder ''NAME'' 1, ''Al''), (placeholder ''NAME'' 12, ''Bo'')]\<rparr>)\<rparr>"

theorem digit_restores_another_value_witness:
  "\<exists>u. Unredact no_tokens demo_redactor (placeholder ''NAME'' 1 @ ''2.'') two_people = Inr u \<and> ur_Text u = ''Bo.''"
proof -
  let ?v = "(newSessionVault ''s'' 10 0)\<lparr>sv_reverse := [(placeholder ''NAME'' 1, ''Al''), (placeholder ''NAME'' 12, ''Bo'')]\<rparr>"
  have t: "type_name ''NAME''" by (simp add: type_name_def is_upper_def in_range_def byte_def)
  have z: "no_digit ''.''" "no_marker ''.''"
    by (simp_all add: no_digit_def is_digit_def in_range_def byte_def no_marker_def contains_def str_index_def
        PlaceholderPrefix_def upper1_def is_lower_def)
  have r: "Vault_Resolve ?v (placeholder ''NAME'' 1) = Some ''Al''" "Vault_Resolve ?v (placeholder ''NAME'' (10 * 1 + 2)) = Some ''Bo''"
    using upper_type_name [OF t] by (simp_all add: Vault_Resolve_def placeholder_inj)
  have d: "digit_char 2 = CHR ''2''" by code_simp
  show ?thesis
    using digit_restores_another_value [OF t _ _ z _ _ r, of two_people demo_redactor no_tokens] d
    by (simp add: two_people_def demo_redactor_def NewRedactor_def)
qed

lemma match_bracketed:
  assumes "type_name t"
  shows "match_at placeholderRe (CHR ''['' # placeholder t n @ CHR '']'' # r) p =
    Some (r, p, p + length (placeholder t n) + 2, [(1, p + 1, p + 1 + length (placeholder t n))])"
proof -
  let ?s = "placeholder t n @ CHR '']'' # r" and ?q = "p + 1 + length (placeholder t n)"
  have nd: "no_digit (CHR '']'' # r)" by (simp add: no_digit_def is_digit_def in_range_def byte_def)
  obtain ys where ys: "rm placeholder_core (?s, p + 1, []) = (CHR '']'' # r, ?q, []) # ys"
    using core_first [OF assms nd] by blast
  have o: "rm (Fold open_ranges) (CHR ''['' # ?s, p, []) = [(?s, p + 1, [])]"
    by (simp add: step_low byte_def in_folded_def in_ranges_def open_ranges_def)
  have A: "?s = CHR ''A'' # tl ?s" by (simp add: placeholder_def PlaceholderPrefix_def)
  have sp: "rm (Star True re_space) (s, q, g) = [(s, q, g)]" if "s = c # s'" "\<not> space_byte c" for s c s' q g
    using that step_ascii [OF space_pred, of c s' q g] by (simp add: re_space_def space_byte_def)
  have s1: "rm (Star True re_space) (?s, p + 1, []) = [(?s, p + 1, [])]"
    by (rule sp [OF A]) (simp add: space_byte_def in_ranges_def byte_def)
  have s2: "rm (Star True re_space) (CHR '']'' # r, ?q, g) = [(CHR '']'' # r, ?q, g)]" for g
    by (rule sp [OF refl]) (simp add: space_byte_def in_ranges_def byte_def)
  have c: "rm (Fold close_ranges) (CHR '']'' # r, ?q, g) = [(r, ?q + 1, g)]" for g
    by (simp add: step_low byte_def in_folded_def in_ranges_def close_ranges_def)
  show ?thesis
    unfolding match_at_def placeholderRe_def rm.simps(5,6,8)
    using o s1 ys s2 c by (simp del: rm.simps)
qed

text \<open>Brackets that the user wrote around a value are lost: masking leaves them around the
  placeholder, and restoring takes them for an addition of the model and removes them with it.\<close>

theorem brackets_lost:
  assumes "type_name t" "no_marker z" "sc_Vault scope = Some v" "rd_tokens rd = False"
    and "Vault_Resolve v (placeholder t n) = Some x"
  shows "Unredact tops rd (CHR ''['' # placeholder t n @ CHR '']'' # z) scope =
    Inr \<lparr>ur_Text = x @ z, ur_Restored = 1, ur_Phantom = []\<rparr>"
proof -
  let ?T = "CHR ''['' # placeholder t n @ CHR '']'' # z" and ?b = "1 + length (placeholder t n)"
  have "find_first placeholderRe ?T 0 = Some (z, 0, ?b + 1, [(1, 1, ?b)])"
    by (subst find_first.simps) (simp add: match_bracketed [OF assms(1)])
  moreover have "find_all placeholderRe z (?b + 1) (Some (?b + 1)) = []"
    using find_all_assemble [of "[]" z] assms(2) by simp
  ultimately have F: "find_all_string placeholderRe ?T = [(0, ?b + 1, [(1, 1, ?b)])]"
    unfolding find_all_string_def by (subst find_all.simps) simp
  then show ?thesis using assms(3-5) upper_type_name [OF assms(1), of n]
    by (simp add: Unredact_def Let_def group_of_def cut_text_def)
qed

theorem brackets_lost_witness:
  "\<exists>u. Unredact no_tokens demo_redactor (CHR ''['' # placeholder ''NAME'' 1 @ '']'') two_people = Inr u \<and> ur_Text u = ''Al''"
proof -
  let ?v = "(newSessionVault ''s'' 10 0)\<lparr>sv_reverse := [(placeholder ''NAME'' 1, ''Al''), (placeholder ''NAME'' 12, ''Bo'')]\<rparr>"
  have t: "type_name ''NAME''" by (simp add: type_name_def is_upper_def in_range_def byte_def)
  have "Vault_Resolve ?v (placeholder ''NAME'' 1) = Some ''Al''"
    using upper_type_name [OF t] by (simp add: Vault_Resolve_def)
  then show ?thesis
    using brackets_lost [OF t no_marker_Nil, of two_people ?v demo_redactor 1 "''Al''" no_tokens]
    by (simp add: two_people_def demo_redactor_def NewRedactor_def)
qed

end
