(* ===== verification/StreamRestore.thy ===== *)
theory StreamRestore imports Redactor begin

text \<open>
  Restoration of a streamed answer (\<open>pii/anonymize/redactor.go\<close>, \<open>StreamUnredactor\<close>): chunks are
  buffered as far as they may end inside a placeholder or a token, the rest is restored and
  released.
\<close>

section \<open>Where to cut\<close>

text \<open>\<open>strings.LastIndex\<close>.\<close>

definition last_index_str :: "string \<Rightarrow> string \<Rightarrow> nat option" where
  "last_index_str s sub = find (\<lambda>i. has_prefix (drop i s) sub) (rev [0..<Suc (length s)])"

definition maxPlaceholderLen :: nat where "maxPlaceholderLen = 64"

definition word_free :: re where
  "word_free = NCls [(48, 57), (65, 90), (97, 122), (95, 95), (383, 383), (8490, 8490)]"

definition completePlaceholderRe :: re where
  "completePlaceholderRe =
     Seq (re_lit_fold PlaceholderPrefix) (Seq (re_plus (Fold [(65, 90), (95, 95)]))
       (Seq (re_lit_fold ''_'') (Seq (re_plus re_digit) word_free)))"

definition completeTokenRe :: re where
  "completeTokenRe =
     Seq (re_lit tokenPrefix) (Seq (re_plus ns_class) (Seq (re_lit '':'')
       (Seq (re_rep 8 56 hex_class) (re_lit '']''))))"

text \<open>The longest proper prefix of the marker that the text ends with, counting down from \<open>n\<close>.\<close>

fun partial_marker :: "case_tables \<Rightarrow> string \<Rightarrow> string \<Rightarrow> nat \<Rightarrow> nat" where
  "partial_marker ct upper marker 0 = 0"
| "partial_marker ct upper marker (Suc n) =
     (if has_suffix upper (go_upper ct (take (Suc n) marker)) then Suc n else partial_marker ct upper marker n)"

text \<open>None is the panic of the slice \<open>buf[abs:]\<close>.\<close>

definition holdPoint :: "case_tables \<Rightarrow> string \<Rightarrow> string \<Rightarrow> re \<Rightarrow> nat option" where
  "holdPoint ct buf marker whole =
     (let frm = (if length buf > maxPlaceholderLen then length buf - maxPlaceholderLen else 0) in
      case last_index_str (go_upper ct (drop frm buf)) (go_upper ct marker) of
        None \<Rightarrow> Some (length buf - partial_marker ct (go_upper ct buf) marker (min (length marker - 1) (length buf)))
      | Some idx \<Rightarrow>
          let pos = frm + idx in
          if pos > length buf then None
          else if match_string whole (drop pos buf) then Some (length buf) else Some pos)"

definition splitSafePrefix :: "case_tables \<Rightarrow> string \<Rightarrow> (string \<times> string) option" where
  "splitSafePrefix ct buf =
     (case holdPoint ct buf PlaceholderPrefix completePlaceholderRe of
        None \<Rightarrow> None
      | Some a \<Rightarrow>
          case holdPoint ct buf tokenPrefix completeTokenRe of
            None \<Rightarrow> None
          | Some b \<Rightarrow> let c = min (length buf) (min a b) in Some (take c buf, drop c buf))"

section \<open>The stream\<close>

record stream_unredactor =
  su_buffer :: string
  su_phantom :: "string list"

definition NewStreamUnredactor :: stream_unredactor where
  "NewStreamUnredactor = \<lparr>su_buffer = [], su_phantom = []\<rparr>"

definition release ::
    "'s token_ops \<Rightarrow> redactor \<Rightarrow> 's scope \<Rightarrow> string \<Rightarrow> stream_unredactor \<Rightarrow> (unredact_error + string) \<times> stream_unredactor" where
  "release tops rd scope safe su =
     (if safe = [] then (Inr [], su)
      else case Unredact tops rd safe scope of
        Inl e \<Rightarrow> (Inl e, su)
      | Inr u \<Rightarrow> (Inr (ur_Text u), su\<lparr>su_phantom := su_phantom su @ ur_Phantom u\<rparr>))"

definition Feed ::
    "case_tables \<Rightarrow> 's token_ops \<Rightarrow> redactor \<Rightarrow> 's scope \<Rightarrow> stream_unredactor \<Rightarrow> string \<Rightarrow>
     ((unredact_error + string) \<times> stream_unredactor) option" where
  "Feed ct tops rd scope su chunk =
     (case splitSafePrefix ct (su_buffer su @ chunk) of
        None \<Rightarrow> None
      | Some (safe, held) \<Rightarrow> Some (release tops rd scope safe (su\<lparr>su_buffer := held\<rparr>)))"

definition Flush ::
    "'s token_ops \<Rightarrow> redactor \<Rightarrow> 's scope \<Rightarrow> stream_unredactor \<Rightarrow> (unredact_error + string) \<times> stream_unredactor" where
  "Flush tops rd scope su = release tops rd scope (su_buffer su) (su\<lparr>su_buffer := []\<rparr>)"

text \<open>What the client sees of a stream: the outputs of all chunks and of the final flush.\<close>

fun stream_all ::
    "case_tables \<Rightarrow> 's token_ops \<Rightarrow> redactor \<Rightarrow> 's scope \<Rightarrow> stream_unredactor \<Rightarrow> string list \<Rightarrow> string option" where
  "stream_all ct tops rd scope su [] =
     (case Flush tops rd scope su of (Inl e, su) \<Rightarrow> None | (Inr out, su) \<Rightarrow> Some out)"
| "stream_all ct tops rd scope su (c # cs) =
     (case Feed ct tops rd scope su c of
        None \<Rightarrow> None
      | Some (Inl e, su) \<Rightarrow> None
      | Some (Inr out, su) \<Rightarrow> map_option ((@) out) (stream_all ct tops rd scope su cs))"

section \<open>Occurrences of the marker\<close>

abbreviation up :: "string \<Rightarrow> string" where
  "up s \<equiv> map upper1 s"

lemma no_marker_iff: "no_marker s \<longleftrightarrow> (\<forall>i. \<not> has_prefix (drop i (up s)) PlaceholderPrefix)"
proof -
  have "contains (up s) PlaceholderPrefix \<longleftrightarrow> (\<exists>i. has_prefix (drop i (up s)) PlaceholderPrefix)"
  proof
    assume "contains (up s) PlaceholderPrefix"
    then obtain a b where "up s = a @ PlaceholderPrefix @ b" by (auto simp: contains_iff)
    then show "\<exists>i. has_prefix (drop i (up s)) PlaceholderPrefix"
      by (intro exI [of _ "length a"]) (auto simp: has_prefix_iff)
  next
    assume "\<exists>i. has_prefix (drop i (up s)) PlaceholderPrefix"
    then obtain i t where "drop i (up s) = PlaceholderPrefix @ t" by (auto simp: has_prefix_iff)
    then have "up s = take i (up s) @ PlaceholderPrefix @ t" by (metis append_take_drop_id)
    then show "contains (up s) PlaceholderPrefix" unfolding contains_iff by blast
  qed
  then show ?thesis by (simp add: no_marker_def)
qed

lemma marker_first: "has_prefix (up s) PlaceholderPrefix \<Longrightarrow> s \<noteq> [] \<and> upper1 (hd s) = CHR ''A''"
  by (cases s) (simp_all add: PlaceholderPrefix_def)

text \<open>An occurrence begins with an A, so text without one can be put in front.\<close>

lemma no_marker_prepend:
  assumes "no_marker y" "CHR ''A'' \<notin> set (up x)"
  shows "no_marker (x @ y)"
  unfolding no_marker_iff
proof
  fix i
  show "\<not> has_prefix (drop i (up (x @ y))) PlaceholderPrefix"
  proof (cases "i < length x")
    case True
    then have "drop i (up (x @ y)) = up (drop i x @ y)" by (simp add: drop_map)
    moreover have "upper1 (hd (drop i x @ y)) \<noteq> CHR ''A''"
      using True assms(2) by (metis Cons_nth_drop_Suc append_Cons image_eqI list.sel(1) list.set_map nth_mem)
    ultimately show ?thesis using marker_first by metis
  next
    case False
    then have "drop i (up (x @ y)) = drop (i - length x) (up y)" by simp
    then show ?thesis using assms(1) by (simp add: no_marker_iff)
  qed
qed

lemma no_marker_prefix: "no_marker (x @ y) \<Longrightarrow> no_marker x"
  unfolding no_marker_def contains_iff by (metis append.assoc map_append)

text \<open>A character that is not in the marker separates.\<close>

lemma no_marker_sep:
  assumes "no_marker x" "no_marker y" "upper1 c \<notin> set PlaceholderPrefix"
  shows "no_marker (x @ c # y)"
proof (rule ccontr)
  assume "\<not> no_marker (x @ c # y)"
  then obtain a b where e: "up x @ upper1 c # up y = a @ PlaceholderPrefix @ b"
    by (auto simp: no_marker_def contains_iff)
  show False
  proof (cases "length (a @ PlaceholderPrefix) \<le> length x")
    case True
    then have "take (length x) (up x @ upper1 c # up y) = a @ PlaceholderPrefix @ take (length x - length (a @ PlaceholderPrefix)) b"
      unfolding e by simp
    then show False using assms(1) by (auto simp: no_marker_def contains_iff)
  next
    case 1: False
    show False
    proof (cases "Suc (length x) \<le> length a")
      case True
      then have "drop (Suc (length x)) (up x @ upper1 c # up y) = drop (Suc (length x)) a @ PlaceholderPrefix @ b"
        unfolding e by simp
      then show False using assms(2) by (auto simp: no_marker_def contains_iff)
    next
      case False
      have "(a @ PlaceholderPrefix @ b) ! length x = PlaceholderPrefix ! (length x - length a)"
      proof -
        have "length a \<le> length x" "length x - length a < length PlaceholderPrefix" using False 1 by auto
        then show ?thesis by (simp add: nth_append)
      qed
      moreover have "(up x @ upper1 c # up y) ! length x = upper1 c" by (simp add: nth_append)
      ultimately have "upper1 c = PlaceholderPrefix ! (length x - length a)" using e by simp
      moreover have "length x - length a < length PlaceholderPrefix" using False 1 by simp
      ultimately show False using assms(3) by simp
    qed
  qed
qed

lemma digit_sep: "is_digit c \<Longrightarrow> upper1 c \<notin> set PlaceholderPrefix"
  by (auto simp: is_digit_def upper1_def is_lower_def in_range_def PlaceholderPrefix_def byte_def)

lemma no_marker_digits:
  "no_marker x \<Longrightarrow> no_marker y \<Longrightarrow> \<forall>c \<in> set ds. is_digit c \<Longrightarrow> ds \<noteq> [] \<Longrightarrow> no_marker (x @ ds @ y)"
proof (induction ds arbitrary: x)
  case (Cons d ds)
  show ?case
  proof (cases "ds = []")
    case True
    then show ?thesis using no_marker_sep [OF Cons.prems(1,2), of d] digit_sep Cons.prems(3) by simp
  next
    case False
    have "no_marker (x @ [d])" using no_marker_sep [OF Cons.prems(1), of "[]" d] digit_sep Cons.prems(3) by simp
    then show ?thesis using Cons.IH [of "x @ [d]"] Cons.prems False by simp
  qed
qed simp

text \<open>A placeholder holds the marker at its start only.\<close>

lemma placeholder_tail:
  assumes "no_marker (t @ ''_'')" "no_marker z"
  shows "no_marker (tl (placeholder t n @ z))"
proof -
  have "no_marker ((t @ ''_'') @ itoa n @ z)"
    by (rule no_marker_digits) (use assms itoa_digits in auto)
  then have "no_marker (''NONYMIZED_'' @ (t @ ''_'') @ itoa n @ z)"
    by (rule no_marker_prepend) (simp add: upper1_def is_lower_def in_range_def byte_def)
  then show ?thesis by (simp add: placeholder_def PlaceholderPrefix_def)
qed

lemma last_index_None:
  "last_index_str (up s) PlaceholderPrefix = None \<longleftrightarrow> no_marker s"
proof -
  have "has_prefix (drop i (up s)) PlaceholderPrefix \<Longrightarrow> i < Suc (length s)" for i
    by (cases "i \<le> length s") (simp_all add: PlaceholderPrefix_def)
  then have "(\<forall>i \<in> set (rev [0..<Suc (length s)]). \<not> has_prefix (drop i (up s)) PlaceholderPrefix) \<longleftrightarrow> no_marker s"
    unfolding no_marker_iff set_rev set_upt by (meson atLeastLessThan_iff zero_le)
  then show ?thesis by (simp add: last_index_str_def find_None_iff Ball_def del: upt_Suc)
qed

lemma find_rev_upt:
  assumes "i < n" "P i" "\<And>j. i < j \<Longrightarrow> j < n \<Longrightarrow> \<not> P j"
  shows "find P (rev [0..<n]) = Some i"
  using assms
proof (induction n)
  case (Suc n)
  then show ?case by (cases "i = n") auto
qed simp

lemma last_index_at:
  assumes "has_prefix (up q) PlaceholderPrefix" "no_marker (tl q)"
  shows "last_index_str (up (x @ q)) PlaceholderPrefix = Some (length x)"
  unfolding last_index_str_def
proof (rule find_rev_upt)
  show "has_prefix (drop (length x) (up (x @ q))) PlaceholderPrefix" using assms(1) by simp
  fix j assume j: "length x < j"
  obtain c r where q: "q = c # r" using marker_first [OF assms(1)] by (cases q) auto
  have "drop j (up (x @ q)) = drop (j - Suc (length x)) (up (tl q))"
  proof -
    obtain m where m: "j = Suc (length x + m)" using j less_iff_Suc_add by blast
    show ?thesis by (simp add: m q)
  qed
  then show "\<not> has_prefix (drop j (up (x @ q))) PlaceholderPrefix" using assms(2) by (simp add: no_marker_iff)
qed simp

section \<open>The two patterns\<close>

text \<open>Every outcome of a match attempt leaves a suffix of the text.\<close>

lemma step_rune_suffix: "t \<in> set (step_rune P s) \<Longrightarrow> \<exists>w. fst s = w @ fst t \<and> w \<noteq> []"
proof -
  assume t: "t \<in> set (step_rune P s)"
  obtain x p g where s: "s = (x, p, g)" by (cases s)
  obtain c r where x: "x = c # r" using t s by (cases x) auto
  obtain q w where d: "decode_rune x = (q, w)" by fastforce
  then have "t = (drop w x, p + w, g)" "0 < w"
    using t rune_width_pos [of x] by (auto simp: s x rune_width_def step_rune.simps split: if_splits simp del: decode_rune.simps)
  then show ?thesis using s x append_take_drop_id [of w x, symmetric] by (intro exI [of _ "take w x"]) auto
qed

lemma star_iter_suffix:
  assumes "\<And>s t. t \<in> set (f s) \<Longrightarrow> \<exists>w. fst s = w @ fst t"
  shows "t \<in> set (star_iter gr f n s) \<Longrightarrow> \<exists>w. fst s = w @ fst t"
proof (induction n arbitrary: s)
  case (Suc n)
  then consider "t = s" | u where "u \<in> set (f s)" "t \<in> set (star_iter gr f n u)"
    by (auto simp: Let_def split: if_splits)
  then show ?case
  proof cases
    case 2
    then show ?thesis using Suc.IH [OF 2(2)] assms [OF 2(1)] by (metis append.assoc)
  qed simp
qed simp

lemma rm_suffix: "t \<in> set (rm e s) \<Longrightarrow> \<exists>w. fst s = w @ fst t"
proof (induction e arbitrary: s t)
  case (Seq a b)
  then obtain u where "u \<in> set (rm a s)" "t \<in> set (rm b u)" by auto
  then show ?case using Seq.IH by (metis append.assoc)
next
  case (Star gr a)
  then show ?case using star_iter_suffix [of "rm a"] by simp
next
  case (Grp n a)
  then obtain u where "u \<in> set (rm a s)" "fst t = fst u" by auto
  then show ?case using Grp.IH by simp
qed (auto dest: step_rune_suffix split: if_splits)

definition word_byte :: "char \<Rightarrow> bool" where
  "word_byte c \<longleftrightarrow> is_digit c \<or> is_upper c \<or> is_lower c \<or> c = CHR ''_''"

lemma word_free_none: "\<forall>c \<in> set s. word_byte c \<Longrightarrow> rm word_free (s, p, g) = []"
proof (cases s)
  case (Cons c r)
  moreover assume "\<forall>c \<in> set s. word_byte c"
  ultimately have w: "word_byte c" by simp
  then have "byte c < 128" by (auto simp: word_byte_def is_digit_def is_upper_def is_lower_def in_range_def byte_def)
  moreover have "in_ranges [(48, 57), (65, 90), (97, 122), (95, 95), (383, 383), (8490, 8490)] (byte c)"
    using w by (auto simp: word_byte_def is_digit_def is_upper_def is_lower_def in_range_def in_ranges_def byte_def)
  ultimately show ?thesis using Cons by (simp add: word_free_def step_low)
qed (simp add: word_free_def)

text \<open>A text of word characters holds no complete placeholder.\<close>

lemma word_incomplete:
  assumes "\<forall>c \<in> set s. word_byte c"
  shows "rm completePlaceholderRe (s, p, g) = []"
proof (rule ccontr)
  assume "rm completePlaceholderRe (s, p, g) \<noteq> []"
  then obtain t where t: "t \<in> set (rm completePlaceholderRe (s, p, g))" by (metis hd_in_set)
  define pre where "pre = Seq (re_lit_fold PlaceholderPrefix) (Seq (re_plus (Fold [(65, 90), (95, 95)]))
       (Seq (re_lit_fold ''_'') (re_plus re_digit)))"
  obtain u where u: "u \<in> set (rm pre (s, p, g))" "t \<in> set (rm word_free u)"
    using t unfolding completePlaceholderRe_def pre_def by (fastforce simp del: re_lit_fold.simps)
  obtain w where "s = w @ fst u" using rm_suffix [OF u(1)] by auto
  then have "\<forall>c \<in> set (fst u). word_byte c" using assms by auto
  then have "rm word_free u = []" using word_free_none by (metis prod.collapse)
  then show False using u(2) by simp
qed

lemma word_no_match:
  "\<forall>c \<in> set s. word_byte c \<Longrightarrow> find_first completePlaceholderRe s p = None"
proof (induction "length s" arbitrary: s p rule: less_induct)
  case less
  have "match_at completePlaceholderRe s p = None" using word_incomplete [OF less.prems] by (simp add: match_at_def)
  moreover have "find_first completePlaceholderRe (drop (rune_width s) s) (p + rune_width s) = None" if "s \<noteq> []"
    using that rune_width_pos [of s] less.prems by (intro less.hyps) (auto dest: in_set_dropD)
  ultimately show ?case by (subst find_first.simps) simp
qed

section \<open>Hold points in ASCII text\<close>

definition plain_text :: "string \<Rightarrow> bool" where
  "plain_text s \<longleftrightarrow> ascii s \<and> CHR ''['' \<notin> set s"

lemma plain_append [simp]: "plain_text (a @ b) \<longleftrightarrow> plain_text a \<and> plain_text b"
  by (auto simp: plain_text_def ascii_def)

lemma plain_drop: "plain_text s \<Longrightarrow> plain_text (drop n s)"
  by (auto simp: plain_text_def ascii_def dest: in_set_dropD)

lemma upper_plain: "plain_text s \<Longrightarrow> go_upper ct s = up s"
  by (simp add: plain_text_def go_upper_ascii)

lemma upper1_bracket: "upper1 c = CHR ''['' \<longleftrightarrow> c = CHR ''[''"
  by (cases "is_lower c") (auto simp: upper1_def is_lower_def in_range_def byte_inj [symmetric] byte_def)

lemma bracket_notin: "plain_text s \<Longrightarrow> CHR ''['' \<notin> set (up s)"
  unfolding plain_text_def set_map by (metis imageE upper1_bracket)

lemma partial_marker_spec:
  "partial_marker ct u marker n \<le> n \<and>
   (partial_marker ct u marker n = 0 \<or> has_suffix u (go_upper ct (take (partial_marker ct u marker n) marker))) \<and>
   (\<forall>m. partial_marker ct u marker n < m \<and> m \<le> n \<longrightarrow> \<not> has_suffix u (go_upper ct (take m marker)))"
  by (induction n) (auto simp: le_Suc_eq)

text \<open>Without a bracket nothing is held for the sake of tokens.\<close>

lemma hold_token_free:
  assumes "CHR ''['' \<notin> set (go_upper ct b)" "CHR ''['' \<notin> set (go_upper ct (drop (length b - maxPlaceholderLen) b))"
  shows "holdPoint ct b tokenPrefix completeTokenRe = Some (length b)"
proof -
  have a: "ascii (take m tokenPrefix)" for m
    by (auto simp: tokenPrefix_def ascii_def byte_def dest!: in_set_takeD)
  have t: "go_upper ct (take (Suc m) tokenPrefix) = CHR ''['' # up (take m ''tok:'')" for m
    unfolding go_upper_ascii [OF a] by (simp add: tokenPrefix_def upper1_def is_lower_def in_range_def byte_def)
  have n: "\<not> has_suffix (go_upper ct b) (go_upper ct (take (Suc m) tokenPrefix))" for m
    using assms(1) unfolding t has_suffix_iff by (metis in_set_conv_decomp)
  have p: "partial_marker ct (go_upper ct b) tokenPrefix k = 0" for k
    using partial_marker_spec [of ct "go_upper ct b" tokenPrefix k] n by (metis not0_implies_Suc)
  have f: "go_upper ct tokenPrefix = CHR ''['' # up ''tok:''"
    using t [of 4] by (simp add: tokenPrefix_def)
  let ?w = "go_upper ct (drop (length b - maxPlaceholderLen) b)"
  have "\<not> has_prefix (drop i ?w) (CHR ''['' # up ''tok:'')" for i
  proof
    assume "has_prefix (drop i ?w) (CHR ''['' # up ''tok:'')"
    then obtain r where "drop i ?w = CHR ''['' # r" by (auto simp: has_prefix_iff)
    then have "CHR ''['' \<in> set ?w" by (metis in_set_dropD list.set_intros(1))
    then show False using assms(2) by blast
  qed
  then have l: "last_index_str ?w (go_upper ct tokenPrefix) = None"
    unfolding f last_index_str_def find_None_iff by blast
  have k: "(if length b > maxPlaceholderLen then length b - maxPlaceholderLen else 0) = length b - maxPlaceholderLen" by simp
  show ?thesis by (simp add: holdPoint_def l p k)
qed

lemma hold_token_none:
  assumes "plain_text b"
  shows "holdPoint ct b tokenPrefix completeTokenRe = Some (length b)"
  using hold_token_free [of ct b] bracket_notin [OF assms] bracket_notin [OF plain_drop [OF assms]]
  by (simp add: upper_plain [OF assms] upper_plain [OF plain_drop [OF assms]])

lemma upper_prefix: "go_upper ct (take m PlaceholderPrefix) = take m PlaceholderPrefix"
proof -
  have "ascii (take m PlaceholderPrefix)"
    by (auto simp: PlaceholderPrefix_def ascii_def byte_def dest!: in_set_takeD)
  moreover have "up PlaceholderPrefix = PlaceholderPrefix"
    by (simp add: PlaceholderPrefix_def upper1_def is_lower_def in_range_def byte_def)
  ultimately show ?thesis by (simp add: go_upper_ascii flip: take_map)
qed

lemma upper_marker: "go_upper ct PlaceholderPrefix = PlaceholderPrefix"
  using upper_prefix [of ct "length PlaceholderPrefix"] by simp

definition window :: "string \<Rightarrow> string" where
  "window b = drop (length b - maxPlaceholderLen) b"

definition held_partial :: "case_tables \<Rightarrow> string \<Rightarrow> nat" where
  "held_partial ct b = partial_marker ct (up b) PlaceholderPrefix (min (length PlaceholderPrefix - 1) (length b))"

lemma hold_no_marker:
  assumes "plain_text b" "no_marker (window b)"
  shows "holdPoint ct b PlaceholderPrefix whole = Some (length b - held_partial ct b)"
proof -
  have w: "go_upper ct (window b) = up (window b)" using upper_plain plain_drop assms(1) by (simp add: window_def)
  have f: "(if length b > maxPlaceholderLen then length b - maxPlaceholderLen else 0) = length b - maxPlaceholderLen" by simp
  show ?thesis
    using last_index_None [of "window b"] assms(2) w
    by (simp add: holdPoint_def f upper_marker upper_plain [OF assms(1)] held_partial_def flip: window_def)
qed

lemma hold_marker:
  assumes "plain_text b" "window b = x @ q" "has_prefix (up q) PlaceholderPrefix" "no_marker (tl q)"
  shows "holdPoint ct b PlaceholderPrefix whole = Some (if match_string whole q then length b else length b - length q)"
proof -
  have w: "go_upper ct (window b) = up (x @ q)" using upper_plain plain_drop assms(1,2) by (metis window_def)
  have f: "(if length b > maxPlaceholderLen then length b - maxPlaceholderLen else 0) = length b - maxPlaceholderLen" by simp
  let ?k = "length b - maxPlaceholderLen + length x"
  have l: "length b - maxPlaceholderLen + length x + length q = length b"
    using arg_cong [OF assms(2), of length] by (simp add: window_def)
  have "drop ?k b = drop (length x) (window b)" by (simp add: window_def add.commute)
  then have d: "drop ?k b = q" using assms(2) by simp
  have k: "?k = length b - length q" using l by linarith
  show ?thesis
    using last_index_at [OF assms(3,4), of x] w l d k
    by (simp add: holdPoint_def f upper_marker flip: window_def)
qed

lemma split_plain:
  assumes "plain_text b" "holdPoint ct b PlaceholderPrefix completePlaceholderRe = Some a"
  shows "splitSafePrefix ct b = Some (take a b, drop a b)"
  using assms hold_token_none [OF assms(1)] by (simp add: splitSafePrefix_def min_def Let_def)

text \<open>What the partial hold keeps back is exactly the beginning of a marker, if one is there.\<close>

lemma marker_length: "length PlaceholderPrefix = 11"
  by (simp add: PlaceholderPrefix_def)

lemma held_partial_spec:
  "held_partial ct b \<le> min 10 (length b)"
  "held_partial ct b = 0 \<or> has_suffix (up b) (take (held_partial ct b) PlaceholderPrefix)"
  "held_partial ct b < m \<Longrightarrow> m \<le> min 10 (length b) \<Longrightarrow> \<not> has_suffix (up b) (take m PlaceholderPrefix)"
proof -
  have e: "held_partial ct b = partial_marker ct (up b) PlaceholderPrefix (min 10 (length b))"
    by (simp add: held_partial_def marker_length)
  note spec = partial_marker_spec [of ct "up b" PlaceholderPrefix "min 10 (length b)", folded e, unfolded upper_prefix]
  show "held_partial ct b \<le> min 10 (length b)"
    "held_partial ct b = 0 \<or> has_suffix (up b) (take (held_partial ct b) PlaceholderPrefix)"
    "held_partial ct b < m \<Longrightarrow> m \<le> min 10 (length b) \<Longrightarrow> \<not> has_suffix (up b) (take m PlaceholderPrefix)"
    using spec by blast+
qed

lemma held_partial_suffix:
  "held_partial ct b \<le> 10 \<and> held_partial ct b \<le> length b \<and>
   (held_partial ct b = 0 \<or> (\<exists>u. up b = u @ take (held_partial ct b) PlaceholderPrefix))"
  using held_partial_spec(1,2) [of ct b] by (auto simp: has_suffix_iff)

lemma marker_A: "0 < i \<Longrightarrow> i < length PlaceholderPrefix \<Longrightarrow> PlaceholderPrefix ! i \<noteq> CHR ''A''"
proof -
  have "\<forall>i < 11. 0 < i \<longrightarrow> PlaceholderPrefix ! i \<noteq> CHR ''A''"
    by (simp add: PlaceholderPrefix_def numeral_eq_Suc All_less_Suc)
  moreover have "length PlaceholderPrefix = 11" by (simp add: PlaceholderPrefix_def)
  ultimately show "0 < i \<Longrightarrow> i < length PlaceholderPrefix \<Longrightarrow> PlaceholderPrefix ! i \<noteq> CHR ''A''" by simp
qed

lemma held_partial_exact:
  assumes "up b = u @ take j PlaceholderPrefix" "0 < j" "j \<le> 10"
  shows "held_partial ct b = j"
proof -
  let ?n = "held_partial ct b"
  note L = marker_length
  have jb: "j \<le> length b" using arg_cong [OF assms(1), of length] assms(3) L by simp
  have "has_suffix (up b) (take j PlaceholderPrefix)" using assms(1) by (simp add: has_suffix_iff)
  then have ge: "j \<le> ?n" using held_partial_spec(3) [of ct b j] jb assms(3) by (meson linorder_not_less min.boundedI)
  show ?thesis
  proof (rule ccontr)
    assume "?n \<noteq> j"
    then have n: "j < ?n" "?n \<le> 10" using ge held_partial_suffix [of ct b] by auto
    then obtain v where v: "up b = v @ take ?n PlaceholderPrefix" using held_partial_suffix [of ct b] by auto
    have k: "length (up b) - j = length v + (?n - j)" using n arg_cong [OF v, of length] L by simp
    have "(v @ take ?n PlaceholderPrefix) ! (length (up b) - j) = PlaceholderPrefix ! (?n - j)"
      unfolding k nth_append_length_plus using n assms(2) by simp
    moreover have "(u @ take j PlaceholderPrefix) ! (length (up b) - j) = PlaceholderPrefix ! 0"
      using assms arg_cong [OF assms(1), of length] L by (simp add: nth_append)
    ultimately have "PlaceholderPrefix ! (?n - j) = PlaceholderPrefix ! 0" using v assms(1) by metis
    moreover have "PlaceholderPrefix ! 0 = CHR ''A''" by (simp add: PlaceholderPrefix_def)
    moreover have "0 < ?n - j" "?n - j < length PlaceholderPrefix" using n L by auto
    ultimately show False using marker_A by metis
  qed
qed

text \<open>It never reaches back over a digit.\<close>

lemma held_partial_digit:
  assumes "b = w @ d # z" "is_digit d"
  shows "held_partial ct b \<le> length z"
proof (rule ccontr)
  let ?n = "held_partial ct b"
  assume "\<not> ?n \<le> length z"
  then have n: "length z < ?n" "?n \<noteq> 0" "?n \<le> 10" using held_partial_suffix [of ct b] by auto
  then obtain u where u: "up b = u @ take ?n PlaceholderPrefix" using held_partial_suffix [of ct b] by auto
  have l: "length u + ?n = Suc (length w + length z)"
    using arg_cong [OF u, of length] assms(1) n(3) by (simp add: marker_length)
  have "up b ! length w = upper1 d" using assms(1) by (simp add: nth_append)
  moreover have "up b ! length w \<in> set (take ?n PlaceholderPrefix)"
  proof -
    have "length w - length u < length (take ?n PlaceholderPrefix)" using l n by (simp add: marker_length)
    moreover have "up b ! length w = take ?n PlaceholderPrefix ! (length w - length u)"
      unfolding u using l n by (simp add: nth_append)
    ultimately show ?thesis by (metis nth_mem)
  qed
  ultimately have "upper1 d \<in> set PlaceholderPrefix" by (metis in_set_takeD)
  then show False using digit_sep assms(2) by blast
qed

section \<open>Cuts that spare every placeholder\<close>

definition tame :: "chunk \<Rightarrow> bool" where
  "tame c = (case c of (g, t, n) \<Rightarrow> no_marker (t @ ''_'') \<and> length (placeholder t n) \<le> maxPlaceholderLen)"

text \<open>Placeholders are at least a window apart.\<close>

definition far_apart :: "chunk list \<Rightarrow> bool" where
  "far_apart cs \<longleftrightarrow> (\<forall>c \<in> set (tl cs). maxPlaceholderLen \<le> length (fst c))"

definition wf_chunks :: "chunk list \<Rightarrow> string \<Rightarrow> bool" where
  "wf_chunks cs z \<longleftrightarrow>
     (\<forall>c \<in> set cs. chunk_ok c \<and> tame c) \<and> digits_apart cs z \<and> no_marker z \<and> far_apart cs"

text \<open>What restoration makes of the text, given what each placeholder resolves to.\<close>

fun restored :: "(string \<Rightarrow> string option) \<Rightarrow> chunk list \<Rightarrow> string \<Rightarrow> string" where
  "restored rs [] z = z"
| "restored rs ((g, t, n) # cs) z =
     g @ (case rs (placeholder t n) of None \<Rightarrow> placeholder t n | Some x \<Rightarrow> x) @ restored rs cs z"

definition clean_cut :: "chunk list \<Rightarrow> string \<Rightarrow> string \<Rightarrow> string \<Rightarrow> bool" where
  "clean_cut cs z s u \<longleftrightarrow>
     (\<exists>cs1 z1 cs2 z2. s = assemble cs1 z1 \<and> u = assemble cs2 z2 \<and> wf_chunks cs1 z1 \<and> wf_chunks cs2 z2 \<and>
        (\<forall>rs. restored rs cs z = restored rs cs1 z1 @ restored rs cs2 z2))"

lemma assemble_append: "assemble (xs @ (g, t, n) # ys) z = assemble xs g @ placeholder t n @ assemble ys z"
  by (induction xs g rule: assemble.induct) auto

lemma restored_append:
  "restored rs (xs @ (ga @ gb, t, n) # ys) z = restored rs xs ga @ restored rs ((gb, t, n) # ys) z"
  by (induction rs xs ga rule: restored.induct) auto

lemma restored_last: "restored rs xs (za @ zb) = restored rs xs za @ zb"
  by (induction rs xs za rule: restored.induct) auto

lemma no_digit_prefix: "no_digit (a @ b) \<Longrightarrow> no_digit a"
  by (cases a) (auto simp: no_digit_def)

lemma digits_apart_split:
  "digits_apart (xs @ (ga @ gb, t, n) # ys) z \<Longrightarrow> digits_apart xs ga \<and> digits_apart ((gb, t, n) # ys) z"
proof (induction xs)
  case (Cons c xs)
  then show ?case by (cases xs) (auto dest: no_digit_prefix)
qed simp

lemma digits_apart_last: "digits_apart xs (za @ zb) \<Longrightarrow> digits_apart xs za"
proof (induction xs)
  case (Cons c xs)
  then show ?case by (cases xs) (auto dest: no_digit_prefix)
qed simp

lemma ends_open_tail: "\<not> ends_open (w @ x) \<Longrightarrow> \<not> ends_open x"
  using ends_open_suffix by blast

lemma clean_gap:
  assumes "wf_chunks (xs @ (ga @ gb, t, n) # ys) z"
  shows "clean_cut (xs @ (ga @ gb, t, n) # ys) z (assemble xs ga) (assemble ((gb, t, n) # ys) z)"
proof -
  have "wf_chunks xs ga"
    using assms digits_apart_split [of xs ga gb t n ys z] no_marker_prefix [of ga gb]
    by (cases xs) (auto simp: wf_chunks_def chunk_ok_def far_apart_def)
  moreover have "wf_chunks ((gb, t, n) # ys) z"
    using assms digits_apart_split [of xs ga gb t n ys z] no_marker_suffix [of ga gb] ends_open_tail [of ga gb]
    by (cases xs) (auto simp: wf_chunks_def chunk_ok_def tame_def far_apart_def)
  ultimately show ?thesis unfolding clean_cut_def using restored_append by blast
qed

lemma clean_last:
  assumes "wf_chunks xs (za @ zb)"
  shows "clean_cut xs (za @ zb) (assemble xs za) zb"
proof -
  have "wf_chunks xs za"
    using assms digits_apart_last no_marker_prefix by (auto simp: wf_chunks_def)
  moreover have "wf_chunks [] zb"
    using assms no_marker_suffix by (auto simp: wf_chunks_def far_apart_def)
  ultimately show ?thesis unfolding clean_cut_def using restored_last
    by (intro exI [of _ xs] exI [of _ za] exI [of _ "[]"] exI [of _ zb]) auto
qed

text \<open>Where a prefix of an assembled text ends: in a gap, in the last gap, or in a placeholder.\<close>

lemma append_longer: "b @ r = x @ y \<Longrightarrow> length x \<le> length b \<Longrightarrow> \<exists>w. b = x @ w \<and> w @ r = y"
  by (auto simp: append_eq_append_conv2)

lemma append_shorter: "b @ r = x @ y \<Longrightarrow> length b \<le> length x \<Longrightarrow> \<exists>w. x = b @ w \<and> r = w @ y"
  by (auto simp: append_eq_append_conv2)

lemma prefix_cases:
  assumes "b @ r = assemble cs z"
  obtains (gap) xs ga gb t n ys where "cs = xs @ (ga @ gb, t, n) # ys" "b = assemble xs ga"
      "r = assemble ((gb, t, n) # ys) z" "xs = [] \<or> ga \<noteq> []"
    | (final) za zb where "z = za @ zb" "b = assemble cs za" "r = zb" "cs = [] \<or> za \<noteq> []"
    | (inside) xs g t n ys q1 q2 where "cs = xs @ (g, t, n) # ys" "placeholder t n = q1 @ q2" "q1 \<noteq> []"
      "b = assemble xs g @ q1" "r = q2 @ assemble ys z"
  using assms
proof (induction cs arbitrary: b thesis)
  case Nil
  show ?case by (rule Nil.prems(2) [of b r]) (use Nil.prems(4) in simp_all)
next
  case (Cons c cs)
  obtain g t n where c: "c = (g, t, n)" by (cases c)
  let ?p = "placeholder t n"
  have e: "b @ r = g @ ?p @ assemble cs z" using Cons.prems(4) c by simp
  consider "length b \<le> length g" | "length g < length b" "length b \<le> length (g @ ?p)" | "length (g @ ?p) < length b" by linarith
  then show ?case
  proof cases
    case 1
    then obtain gb where "g = b @ gb" "r = gb @ ?p @ assemble cs z" using append_shorter [OF e] by auto
    then show ?thesis using Cons.prems(1) [of "[]" b gb t n cs] c by simp
  next
    case 2
    then obtain q1 where q1: "b = g @ q1" "q1 @ r = ?p @ assemble cs z" using append_longer [OF e] by auto
    then have ne: "q1 \<noteq> []" and le: "length q1 \<le> length ?p" using 2 by auto
    obtain q2 where "?p = q1 @ q2" "r = q2 @ assemble cs z" using append_shorter [OF q1(2) le] by auto
    then show ?thesis using Cons.prems(3) [of "[]" g t n cs q1 q2] c q1 ne by simp
  next
    case 3
    have e': "b @ r = (g @ ?p) @ assemble cs z" using e by simp
    obtain b' where b': "b = (g @ ?p) @ b'" "b' @ r = assemble cs z" using append_longer [OF e'] 3 by auto
    then have ne: "b' \<noteq> []" using 3 by auto
    show ?thesis
    proof (rule Cons.IH [OF _ _ _ b'(2)])
      fix xs ga gb t' n' ys
      assume "cs = xs @ (ga @ gb, t', n') # ys" "b' = assemble xs ga" "r = assemble ((gb, t', n') # ys) z" "xs = [] \<or> ga \<noteq> []"
      then show thesis using Cons.prems(1) [of "(g, t, n) # xs" ga gb t' n' ys] c b' ne by (cases xs) auto
    next
      fix za zb
      assume "z = za @ zb" "b' = assemble cs za" "r = zb" "cs = [] \<or> za \<noteq> []"
      then show thesis using Cons.prems(2) [of za zb] c b' ne by (cases cs) auto
    next
      fix xs g' t' n' ys q1 q2
      assume "cs = xs @ (g', t', n') # ys" "placeholder t' n' = q1 @ q2" "q1 \<noteq> []" "b' = assemble xs g' @ q1"
        "r = q2 @ assemble ys z"
      then show thesis using Cons.prems(3) [of "(g, t, n) # xs" g' t' n' ys q1 q2] c b' by simp
    qed
  qed
qed

text \<open>After a gap the cut is in the gap, or before the placeholder that precedes it.\<close>

lemma window_inside: "maxPlaceholderLen \<le> length y \<Longrightarrow> window (x @ y) = drop (length y - maxPlaceholderLen) y"
  by (simp add: window_def)

lemma window_around: "length y \<le> maxPlaceholderLen \<Longrightarrow> \<exists>x'. (\<exists>w. x = w @ x') \<and> window (x @ y) = x' @ y"
  by (intro exI [of _ "drop (length x + length y - maxPlaceholderLen) x"] conjI
      exI [of _ "take (length x + length y - maxPlaceholderLen) x"]) (simp_all add: window_def)

lemma placeholder_digit: "\<exists>w d. placeholder t n = w @ [d] \<and> is_digit d"
proof -
  have "itoa n = butlast (itoa n) @ [last (itoa n)]" "is_digit (last (itoa n))"
    using itoa_digits [OF last_in_set] by simp_all
  then show ?thesis
    by (intro exI [of _ "PlaceholderPrefix @ t @ ''_'' @ butlast (itoa n)"] exI [of _ "last (itoa n)"])
      (simp add: placeholder_def)
qed

lemma placeholder_marker: "has_prefix (up (placeholder t n @ y)) PlaceholderPrefix"
proof -
  have "up PlaceholderPrefix = PlaceholderPrefix"
    by (simp add: PlaceholderPrefix_def upper1_def is_lower_def in_range_def byte_def)
  then show ?thesis by (simp add: placeholder_def has_prefix_iff)
qed

lemma assemble_snoc: "assemble (xs @ [(g, t, n)]) z = assemble xs g @ placeholder t n @ z"
  by (simp add: assemble_append)

lemma hold_gap:
  assumes wf: "wf_chunks xs ga" and p: "plain_text (assemble xs ga)"
  shows "\<exists>a. holdPoint ct (assemble xs ga) PlaceholderPrefix whole = Some a \<and>
    ((\<exists>h \<le> length ga. a = length (assemble xs ga) - h) \<or>
     (\<exists>xs0 g0 t0 n0. xs = xs0 @ [(g0, t0, n0)] \<and> a = length (assemble xs0 g0)))"
proof (cases xs rule: rev_cases)
  case Nil
  have "no_marker (window ga)"
    using wf no_marker_suffix [of "take (length ga - maxPlaceholderLen) ga"] by (simp add: window_def wf_chunks_def)
  then show ?thesis using hold_no_marker [of ga] p Nil held_partial_suffix [of ct ga] by auto
next
  case (snoc xs0 c)
  obtain g0 t0 n0 where c: "c = (g0, t0, n0)" by (cases c)
  let ?q = "placeholder t0 n0 @ ga" and ?x = "assemble xs0 g0"
  have b: "assemble xs ga = ?x @ ?q" using snoc c assemble_snoc by simp
  have m: "no_marker (tl ?q)"
    by (rule placeholder_tail) (use wf snoc c in \<open>auto simp: wf_chunks_def tame_def\<close>)
  show ?thesis
  proof (cases "length ?q \<le> maxPlaceholderLen")
    case True
    then obtain x' where "window (assemble xs ga) = x' @ ?q" using window_around [of ?q ?x] b by auto
    from hold_marker [OF p this placeholder_marker m] b snoc c show ?thesis by auto
  next
    case False
    then have l: "0 < length ?q - maxPlaceholderLen" by simp
    then obtain k where k: "length ?q - maxPlaceholderLen = Suc k" using gr0_implies_Suc by blast
    have "window (assemble xs ga) = drop (Suc k) ?q" using window_inside [of ?q ?x] False b k by (simp del: length_append drop_append)
    then have "window (assemble xs ga) = drop k (tl ?q)" by (simp only: drop_Suc)
    then have "no_marker (window (assemble xs ga))"
      using m no_marker_suffix by (metis append_take_drop_id)
    then have H: "holdPoint ct (assemble xs ga) PlaceholderPrefix whole =
        Some (length (assemble xs ga) - held_partial ct (assemble xs ga))"
      using hold_no_marker p by blast
    obtain w d where "placeholder t0 n0 = w @ [d]" "is_digit d" using placeholder_digit by blast
    then have "held_partial ct (assemble xs ga) \<le> length ga"
      by (intro held_partial_digit [of _ "?x @ w" d]) (simp_all add: b)
    then show ?thesis using H by blast
  qed
qed

text \<open>Inside a placeholder the cut is before it.\<close>

lemma no_marker_begun:
  assumes "no_marker x" "j \<le> 10"
  shows "no_marker (x @ take j PlaceholderPrefix)"
  unfolding no_marker_iff
proof
  fix i
  show "\<not> has_prefix (drop i (up (x @ take j PlaceholderPrefix))) PlaceholderPrefix"
  proof
    assume "has_prefix (drop i (up (x @ take j PlaceholderPrefix))) PlaceholderPrefix"
    then obtain t where t: "drop i (up (x @ take j PlaceholderPrefix)) = PlaceholderPrefix @ t"
      by (auto simp: has_prefix_iff)
    show False
    proof (cases "i < length x")
      case True
      have "no_marker (drop i x)" using assms(1) no_marker_suffix by (metis append_take_drop_id)
      from no_marker_core [OF this, of PlaceholderPrefix] True
      have "\<not> has_prefix (up (drop i x @ PlaceholderPrefix)) PlaceholderPrefix" by (simp add: follows_def)
      moreover have "up (drop i x @ PlaceholderPrefix) = drop i (up (x @ take j PlaceholderPrefix)) @ up (drop j PlaceholderPrefix)"
        using True by (simp add: drop_map flip: map_append)
      ultimately show False unfolding t by (simp add: has_prefix_iff)
    next
      case False
      then show False using arg_cong [OF t, of length] assms(2) by (simp add: marker_length)
    qed
  qed
qed

lemma placeholder_word:
  fixes c :: char and n :: nat
  shows "type_name t \<Longrightarrow> c \<in> set (placeholder t n) \<Longrightarrow> word_byte c"
  using itoa_digits [of c n]
  by (auto simp: placeholder_def PlaceholderPrefix_def type_name_def word_byte_def is_upper_def in_range_def byte_def)

lemma hold_inside:
  assumes b: "b = x @ q1" and p: "plain_text b" and q: "placeholder t n = q1 @ q2" "q1 \<noteq> []"
    and t: "type_name t" "no_marker (t @ ''_'')" "length (placeholder t n) \<le> maxPlaceholderLen"
    and x: "no_marker (drop (length b - maxPlaceholderLen) x)"
  shows "holdPoint ct b PlaceholderPrefix completePlaceholderRe = Some (length x)"
proof (cases "length q1 \<le> 10")
  case False
  have "has_prefix (up q1) PlaceholderPrefix"
  proof -
    have "has_prefix (up q1 @ up q2) PlaceholderPrefix" using placeholder_marker [of t n "[]"] q by simp
    then obtain u where "up q1 @ up q2 = PlaceholderPrefix @ u" by (auto simp: has_prefix_iff)
    then have "take 11 (up q1 @ up q2) = PlaceholderPrefix" using marker_length by simp
    then have "take 11 (up q1) = PlaceholderPrefix" using False by simp
    then show ?thesis by (metis append_take_drop_id has_prefix_iff)
  qed
  moreover have "no_marker (tl q1)"
    using placeholder_tail [OF t(2), of "[]" n] q no_marker_prefix [of "tl q1" q2] by simp
  moreover obtain x' where "window b = x' @ q1" using window_around [of q1 x] b q t(3) by auto
  moreover have "\<not> match_string completePlaceholderRe q1"
  proof -
    have "\<forall>c \<in> set q1. word_byte c" using placeholder_word [OF t(1), of _ n] q by auto
    then show ?thesis using word_no_match by (simp add: match_string_def find_string_def)
  qed
  ultimately show ?thesis using hold_marker [OF p] b by simp
next
  case True
  have q1: "q1 = take (length q1) PlaceholderPrefix"
  proof -
    have "PlaceholderPrefix @ t @ ''_'' @ itoa n = q1 @ q2" using q(1) by (simp add: placeholder_def)
    then have "take (length q1) (PlaceholderPrefix @ t @ ''_'' @ itoa n) = q1" by simp
    then show ?thesis using True marker_length by simp
  qed
  have "window b = drop (length b - maxPlaceholderLen) x @ q1"
    using q t(3) b by (simp add: window_def)
  then have "no_marker (window b)" using no_marker_begun [OF x True] q1 by simp
  moreover have "up b = up x @ take (length q1) PlaceholderPrefix"
  proof -
    have "up PlaceholderPrefix = PlaceholderPrefix"
      by (simp add: PlaceholderPrefix_def upper1_def is_lower_def in_range_def byte_def)
    then have "up (take (length q1) PlaceholderPrefix) = take (length q1) PlaceholderPrefix" by (simp flip: take_map)
    then show ?thesis using b q1 by simp
  qed
  ultimately show ?thesis using hold_no_marker [OF p] held_partial_exact [of b "up x" "length q1" ct] q(2) True b by simp
qed

text \<open>The two parts of a split are the buffer.\<close>

lemma split_sound: "splitSafePrefix ct b = Some (s, h) \<Longrightarrow> b = s @ h"
  by (auto simp: splitSafePrefix_def Let_def split: option.splits)

text \<open>Every cut that the stream makes is clean.\<close>

lemma cut_at_gap:
  assumes a: "(\<exists>h \<le> length ga. a = length (assemble xs ga) - h) \<or>
      (\<exists>xs0 g0 t0 n0. xs = xs0 @ [(g0, t0, n0)] \<and> a = length (assemble xs0 g0))"
  obtains ga1 ga2 where "ga = ga1 @ ga2" "take a (assemble xs ga) = assemble xs ga1" "drop a (assemble xs ga) = ga2"
    | xs0 g0 t0 n0 where "xs = xs0 @ [(g0, t0, n0)]" "take a (assemble xs ga) = assemble xs0 g0"
      "drop a (assemble xs ga) = placeholder t0 n0 @ ga"
proof -
  have ext: "assemble xs (u @ w) = assemble xs u @ w" for u w
    by (induction xs u rule: assemble.induct) auto
  consider h where "h \<le> length ga" "a = length (assemble xs ga) - h"
    | xs0 g0 t0 n0 where "xs = xs0 @ [(g0, t0, n0)]" "a = length (assemble xs0 g0)"
    using a by blast
  then show thesis
  proof cases
    case 1
    let ?u = "take (length ga - h) ga" and ?w = "drop (length ga - h) ga"
    have "ga = ?u @ ?w" by simp
    moreover from this have e: "assemble xs ga = assemble xs ?u @ ?w" using ext by metis
    moreover have "a = length (assemble xs ?u)"
      using 1 arg_cong [OF e, of length] by (simp add: min_def split: if_splits)
    ultimately show thesis using that(1) [of ?u ?w] by (metis append_eq_conv_conj)
  next
    case 2
    then show thesis using that(2) [of xs0 g0 t0 n0] assemble_snoc by simp
  qed
qed

lemma cut_clean:
  assumes wf: "wf_chunks cs z" and p: "plain_text b" and e: "b @ r = assemble cs z"
  shows "\<exists>s h. splitSafePrefix ct b = Some (s, h) \<and> clean_cut cs z s (h @ r)"
proof -
  have split: "\<exists>s h. splitSafePrefix ct b = Some (s, h) \<and> clean_cut cs z s (h @ r)"
    if "holdPoint ct b PlaceholderPrefix completePlaceholderRe = Some a" "clean_cut cs z (take a b) (drop a b @ r)" for a
    using split_plain [OF p that(1)] that(2) by blast
  from e show ?thesis
  proof (cases rule: prefix_cases)
    case (gap xs ga gb t n ys)
    have w: "wf_chunks xs ga"
      using wf digits_apart_split [of xs ga gb t n ys z] no_marker_prefix [of ga gb] gap(1)
      by (cases xs) (auto simp: wf_chunks_def chunk_ok_def far_apart_def)
    obtain a where a: "holdPoint ct b PlaceholderPrefix completePlaceholderRe = Some a"
      "(\<exists>h \<le> length ga. a = length (assemble xs ga) - h) \<or>
       (\<exists>xs0 g0 t0 n0. xs = xs0 @ [(g0, t0, n0)] \<and> a = length (assemble xs0 g0))"
      using hold_gap [OF w, of ct completePlaceholderRe] p gap(2) by blast
    from a(2) show ?thesis
    proof (cases rule: cut_at_gap)
      case (1 ga1 ga2)
      have "clean_cut cs z (assemble xs ga1) (assemble ((ga2 @ gb, t, n) # ys) z)"
        using clean_gap [of xs ga1 "ga2 @ gb" t n ys z] wf gap(1) 1(1) by simp
      then show ?thesis using split [OF a(1)] 1 gap by simp
    next
      case (2 xs0 g0 t0 n0)
      have "clean_cut cs z (assemble xs0 g0) (assemble (([], t0, n0) # (ga @ gb, t, n) # ys) z)"
        using clean_gap [of xs0 g0 "[]" t0 n0 "(ga @ gb, t, n) # ys" z] wf gap(1) 2(1) by simp
      then show ?thesis using split [OF a(1)] 2 gap by simp
    qed
  next
    case (final za zb)
    have w: "wf_chunks cs za" using wf final(1) digits_apart_last no_marker_prefix by (auto simp: wf_chunks_def)
    obtain a where a: "holdPoint ct b PlaceholderPrefix completePlaceholderRe = Some a"
      "(\<exists>h \<le> length za. a = length (assemble cs za) - h) \<or>
       (\<exists>xs0 g0 t0 n0. cs = xs0 @ [(g0, t0, n0)] \<and> a = length (assemble xs0 g0))"
      using hold_gap [OF w, of ct completePlaceholderRe] p final(2) by blast
    from a(2) show ?thesis
    proof (cases rule: cut_at_gap)
      case (1 z1 z2)
      have "clean_cut cs z (assemble cs z1) (z2 @ zb)"
        using clean_last [of cs z1 "z2 @ zb"] wf final(1) 1(1) by simp
      then show ?thesis using split [OF a(1)] 1 final by simp
    next
      case (2 xs0 g0 t0 n0)
      have "clean_cut cs z (assemble xs0 g0) (assemble [([], t0, n0)] z)"
        using clean_gap [of xs0 g0 "[]" t0 n0 "[]" z] wf 2(1) by simp
      then show ?thesis using split [OF a(1)] 2 final by simp
    qed
  next
    case (inside xs g t n ys q1 q2)
    have ok: "type_name t" "no_marker (t @ ''_'')" "length (placeholder t n) \<le> maxPlaceholderLen" "no_marker g"
      using wf inside(1) by (auto simp: wf_chunks_def chunk_ok_def tame_def)
    have q: "length q1 \<le> maxPlaceholderLen" using ok(3) inside(2) by simp
    have x: "no_marker (drop (length b - maxPlaceholderLen) (assemble xs g))"
    proof (cases "xs = []")
      case True
      then show ?thesis using ok(4) no_marker_suffix by (simp, metis append_take_drop_id)
    next
      case False
      then have "maxPlaceholderLen \<le> length g" using wf inside(1) by (cases xs) (auto simp: wf_chunks_def far_apart_def)
      moreover obtain w where "assemble xs g = w @ g"
        by (induction xs g rule: assemble.induct) (auto intro: that)
      ultimately have "drop (length b - maxPlaceholderLen) (assemble xs g) = drop (length g + length q1 - maxPlaceholderLen) g"
        using inside(4) q by simp
      then show ?thesis using ok(4) no_marker_suffix by (metis append_take_drop_id)
    qed
    have H: "holdPoint ct b PlaceholderPrefix completePlaceholderRe = Some (length (assemble xs g))"
      by (rule hold_inside [OF inside(4) p inside(2,3) ok(1-3) x])
    have "clean_cut cs z (assemble xs g) (assemble (([], t, n) # ys) z)"
      using clean_gap [of xs g "[]" t n ys z] wf inside(1) by simp
    then show ?thesis using split [OF H] inside by simp
  qed
qed

section \<open>Streaming and restoring at once agree\<close>

lemma restore_loop_text:
  "\<forall>c \<in> set cs. chunk_ok c \<Longrightarrow> cursor \<le> length pre \<Longrightarrow>
   ur_Text (restore_loop (Vault_Resolve v) (pre @ assemble cs z) (chunk_matches (length pre) cs) cursor out n ph) =
   out @ drop cursor pre @ restored (Vault_Resolve v) cs z"
proof (induction cs arbitrary: pre cursor out n ph)
  case (Cons c cs)
  obtain g t k where c: "c = (g, t, k)" by (cases c)
  let ?p = "placeholder t k" and ?T = "pre @ assemble (c # cs) z" and ?a = "length pre + length g"
  have u: "to_upper ?p = ?p" using upper_type_name Cons.prems(1) c by (simp add: chunk_ok_def)
  have k: "cut_text ?T ?a (?a + length ?p) = ?p" "cut_text ?T cursor ?a = drop cursor pre @ g"
    using Cons.prems(2) by (simp_all add: cut_text_def c)
  have IH: "ur_Text (restore_loop (Vault_Resolve v) ((pre @ g @ ?p) @ assemble cs z)
      (chunk_matches (length (pre @ g @ ?p)) cs) cu ou m ph') =
    ou @ drop cu (pre @ g @ ?p) @ restored (Vault_Resolve v) cs z" if "cu \<le> length (pre @ g @ ?p)" for cu ou m ph'
    by (rule Cons.IH) (use Cons.prems(1) that in simp_all)
  show ?case
  proof (cases "Vault_Resolve v ?p")
    case None
    then show ?thesis using IH [of cursor out n "ph @ [?p]"] Cons.prems(2) k u
      by (simp add: c Let_def group_of_def add.assoc)
  next
    case (Some x)
    then show ?thesis using IH [of "?a + length ?p" "out @ drop cursor pre @ g @ x" "n + 1" ph] k u
      by (simp add: c Let_def group_of_def add.assoc)
  qed
qed simp

lemma assemble_Nil: "assemble cs z = [] \<Longrightarrow> cs = [] \<and> z = []"
  by (cases cs) (auto simp: placeholder_def PlaceholderPrefix_def)

lemma Unredact_restored:
  assumes "wf_chunks cs z" "sc_Vault scope = Some v" "rd_tokens rd = False"
  shows "\<exists>u. Unredact tops rd (assemble cs z) scope = Inr u \<and> ur_Text u = restored (Vault_Resolve v) cs z"
proof (cases "assemble cs z = []")
  case True
  then show ?thesis using assemble_Nil [OF True] by (simp add: Unredact_def)
next
  case False
  have "\<forall>c \<in> set cs. chunk_ok c" "digits_apart cs z" "no_marker z" using assms(1) by (auto simp: wf_chunks_def)
  from Unredact_assembled [OF this False assms(2,3)] restore_loop_text [OF this(1), of 0 "[]"] show ?thesis by simp
qed

lemma release_restored:
  assumes "wf_chunks cs z" "sc_Vault scope = Some v" "rd_tokens rd = False"
  shows "\<exists>su'. release tops rd scope (assemble cs z) su = (Inr (restored (Vault_Resolve v) cs z), su') \<and> su_buffer su' = su_buffer su"
proof (cases "assemble cs z = []")
  case True
  then show ?thesis using assemble_Nil [OF True] by (simp add: release_def)
next
  case False
  then show ?thesis using False Unredact_restored [OF assms, of tops] by (auto simp: release_def)
qed

lemma stream_restored:
  assumes "sc_Vault scope = Some v" "rd_tokens rd = False"
  shows "wf_chunks cs z \<Longrightarrow> plain_text (assemble cs z) \<Longrightarrow> su_buffer su @ concat pieces = assemble cs z \<Longrightarrow>
    stream_all ct tops rd scope su pieces = Some (restored (Vault_Resolve v) cs z)"
proof (induction pieces arbitrary: su cs z)
  case Nil
  then show ?case using release_restored [OF Nil.prems(1) assms, of tops "su\<lparr>su_buffer := []\<rparr>"]
    by (auto simp: Flush_def)
next
  case (Cons c pieces)
  let ?b = "su_buffer su @ c"
  have e: "?b @ concat pieces = assemble cs z" using Cons.prems(3) by simp
  then have p: "plain_text ?b" using Cons.prems(2) plain_append by metis
  obtain s h where s: "splitSafePrefix ct ?b = Some (s, h)" "clean_cut cs z s (h @ concat pieces)"
    using cut_clean [OF Cons.prems(1) p e] by blast
  obtain cs1 z1 cs2 z2 where cut: "s = assemble cs1 z1" "h @ concat pieces = assemble cs2 z2" "wf_chunks cs1 z1" "wf_chunks cs2 z2"
    "restored (Vault_Resolve v) cs z = restored (Vault_Resolve v) cs1 z1 @ restored (Vault_Resolve v) cs2 z2"
    using s(2) unfolding clean_cut_def by blast
  obtain su' where su': "release tops rd scope s (su\<lparr>su_buffer := h\<rparr>) = (Inr (restored (Vault_Resolve v) cs1 z1), su')" "su_buffer su' = h"
    using release_restored [OF cut(3) assms, of tops "su\<lparr>su_buffer := h\<rparr>"] cut(1) by auto
  have "plain_text (assemble cs2 z2)"
    using split_sound [OF s(1)] e Cons.prems(2) cut(2) plain_append by (metis append.assoc)
  then have "stream_all ct tops rd scope su' pieces = Some (restored (Vault_Resolve v) cs2 z2)"
    using Cons.IH [OF cut(4), of su'] su'(2) cut(2) by simp
  then show ?case using s(1) su'(1) cut(5) by (simp add: Feed_def)
qed

text \<open>
  C5: However the answer is divided into chunks, the outputs of the stream put together are the
  text that restoring the whole answer at once gives: for ASCII answers without a bracket in
  which the placeholders stand at least sixty-four characters apart and are at most that long.
\<close>

theorem stream_equals_batch:
  assumes "wf_chunks cs z" "plain_text (assemble cs z)" "concat pieces = assemble cs z"
    and "sc_Vault scope = Some v" "rd_tokens rd = False"
  shows "stream_all ct tops rd scope NewStreamUnredactor pieces = Some (restored (Vault_Resolve v) cs z) \<and>
    (\<exists>u. Unredact tops rd (concat pieces) scope = Inr u \<and> ur_Text u = restored (Vault_Resolve v) cs z)"
  using stream_restored [OF assms(4,5,1,2), of NewStreamUnredactor pieces ct tops]
    Unredact_restored [OF assms(1,4,5), of tops] assms(3)
  by (simp add: NewStreamUnredactor_def)

lemma name_ok: "type_name ''NAME''" "no_marker (''NAME'' @ ''_'')"
  by (simp_all add: type_name_def is_upper_def in_range_def byte_def no_marker_def contains_def str_index_def
      PlaceholderPrefix_def upper1_def is_lower_def)

lemma one_digit: "itoa (Suc 0) = ''1''"
  by code_simp

lemma two_people_resolve:
  "\<exists>v. sc_Vault two_people = Some v \<and> Vault_Resolve v (placeholder ''NAME'' 1) = Some ''Al'' \<and>
     Vault_Resolve v (placeholder ''NAME'' 12) = Some ''Bo''"
  using upper_type_name [OF name_ok(1)]
  by (simp add: two_people_def Vault_Resolve_def placeholder_inj)

theorem stream_equals_batch_witness:
  "stream_all id_tables no_tokens demo_redactor two_people NewStreamUnredactor [''Hi ANONYM'', ''IZED_NAM'', ''E_1, bye''] =
   Some ''Hi Al, bye''"
proof -
  let ?cs = "[(''Hi '', ''NAME'', 1::nat)]" and ?z = "'', bye''"
  obtain v where v: "sc_Vault two_people = Some v" "Vault_Resolve v (placeholder ''NAME'' 1) = Some ''Al''"
    using two_people_resolve by blast
  have e: "assemble ?cs ?z = ''Hi ANONYMIZED_NAME_1, bye''"
    by (simp add: placeholder_def PlaceholderPrefix_def one_digit)
  have o: "\<not> ends_open ''Hi ''" by (rule calm_not_open) (simp add: calm_def byte_def)
  have n: "no_marker ''Hi ''" "no_marker ?z" "no_digit ?z"
    by (simp_all add: no_digit_def is_digit_def in_range_def byte_def no_marker_def contains_def str_index_def
        PlaceholderPrefix_def upper1_def is_lower_def)
  have "length (placeholder ''NAME'' 1) \<le> maxPlaceholderLen"
    by (simp add: placeholder_def PlaceholderPrefix_def one_digit maxPlaceholderLen_def)
  then have w: "wf_chunks ?cs ?z" using n name_ok o by (simp add: wf_chunks_def chunk_ok_def tame_def far_apart_def)
  have p: "plain_text (assemble ?cs ?z)" unfolding e by (simp add: plain_text_def ascii_def byte_def)
  have "rd_tokens demo_redactor = False" by (simp add: demo_redactor_def NewRedactor_def)
  from stream_equals_batch [OF w p _ v(1) this, of "[''Hi ANONYM'', ''IZED_NAM'', ''E_1, bye'']" id_tables no_tokens]
  show ?thesis using e v(2) by simp
qed

end
