(* ===== verification/StreamLeaks.thy ===== *)
theory StreamLeaks imports StreamRestore begin

text \<open>
  Where the streaming restoration (\<open>pii/anonymize/redactor.go\<close>, \<open>holdPoint\<close>) departs from restoring
  the answer at once: a second placeholder close behind a first one, text beyond ASCII whose
  window begins inside a character, and letters whose upper case is longer.
\<close>

section \<open>A complete placeholder\<close>

lemma star_iter_reaches:
  "\<forall>c \<in> set w. byte c < 128 \<and> P (byte c) \<Longrightarrow> length w \<le> n \<Longrightarrow>
   (r, p + length w, g) \<in> set (star_iter gr (step_rune P) n (w @ r, p, g))"
proof (induction w arbitrary: p n)
  case Nil
  then show ?case by (cases n) (auto simp: Let_def)
next
  case (Cons c w)
  then obtain m where n: "n = Suc m" by (cases n) auto
  have "(r, Suc p + length w, g) \<in> set (star_iter gr (step_rune P) m (w @ r, Suc p, g))"
    using Cons.IH [of m "Suc p"] Cons.prems n by simp
  then show ?case using Cons.prems n by (cases gr) (simp_all add: step_low Let_def)
qed

lemma plus_reaches:
  assumes "w \<noteq> []" "\<forall>c \<in> set w. byte c < 128 \<and> P (byte c)" "rm e = step_rune P"
  shows "(r, p + length w, g) \<in> set (rm (re_plus e) (w @ r, p, g))"
proof -
  obtain c v where w: "w = c # v" using assms(1) by (cases w) auto
  have "(r, p + 1 + length v, g) \<in> set (star_iter True (step_rune P) (length (v @ r)) (v @ r, p + 1, g))"
    by (rule star_iter_reaches) (use assms w in simp_all)
  then show ?thesis using assms w by (simp add: re_plus_def step_low)
qed

lemma seq_reaches: "u \<in> set (rm a s) \<Longrightarrow> t \<in> set (rm b u) \<Longrightarrow> t \<in> set (rm (Seq a b) s)"
  by auto

lemma completed_matches:
  assumes t: "type_name t" and c: "byte c < 128" "\<not> word_byte c"
  shows "match_string completePlaceholderRe (placeholder t n @ c # r)"
proof -
  let ?l = "length PlaceholderPrefix"
  have pre: "has_prefix (up (placeholder t n @ c # r)) PlaceholderPrefix" by (rule placeholder_marker)
  have 1: "(t @ ''_'' @ itoa n @ c # r, ?l, []) \<in> set (rm (re_lit_fold PlaceholderPrefix) (placeholder t n @ c # r, 0, []))"
    using pre by (simp add: rm_lit_fold [OF prefix_plain] placeholder_def)
  have 2: "(''_'' @ itoa n @ c # r, ?l + length t, []) \<in>
      set (rm (re_plus (Fold [(65, 90), (95, 95)])) (t @ ''_'' @ itoa n @ c # r, ?l, []))"
    by (rule plus_reaches [of t "in_folded [(65, 90), (95, 95)]"]) (use t type_char in \<open>auto simp: type_name_def\<close>)
  have 3: "(itoa n @ c # r, ?l + length t + 1, []) \<in>
      set (rm (re_lit_fold ''_'') (''_'' @ itoa n @ c # r, ?l + length t, []))"
    by (simp add: rm_lit_fold [OF underscore_plain] upper1_underscore del: re_lit_fold.simps)
  have d: "is_digit x \<Longrightarrow> byte x < 128" for x by (auto simp: is_digit_def in_range_def)
  have 4: "(c # r, ?l + length t + 1 + length (itoa n), []) \<in>
      set (rm (re_plus re_digit) (itoa n @ c # r, ?l + length t + 1, []))"
    by (rule plus_reaches [of _ "in_ranges [(48, 57)]"]) (use itoa_digits d digit_byte in \<open>auto simp: re_digit_def\<close>)
  have nr: "\<not> in_ranges [(48, 57), (65, 90), (97, 122), (95, 95), (383, 383), (8490, 8490)] (byte c)"
  proof -
    have "byte c = 95 \<Longrightarrow> c = CHR ''_''" by (simp add: byte_inj [symmetric] byte_def)
    then show ?thesis
      using c by (auto simp: in_ranges_def word_byte_def is_digit_def is_upper_def is_lower_def in_range_def byte_def)
  qed
  have 5: "(r, ?l + length t + 1 + length (itoa n) + 1, []) \<in>
      set (rm word_free (c # r, ?l + length t + 1 + length (itoa n), []))"
    using c nr by (simp add: word_free_def step_low)
  have "(r, ?l + length t + 1 + length (itoa n) + 1, []) \<in> set (rm completePlaceholderRe (placeholder t n @ c # r, 0, []))"
    unfolding completePlaceholderRe_def
    by (rule seq_reaches [OF 1], rule seq_reaches [OF 2], rule seq_reaches [OF 3], rule seq_reaches [OF 4 5])
  then have "rm completePlaceholderRe (placeholder t n @ c # r, 0, []) \<noteq> []" by auto
  then show ?thesis
    unfolding match_string_def by (subst find_first.simps) (auto simp: match_at_def split: list.splits)
qed

section \<open>A second placeholder\<close>

text \<open>When the last full marker of the window is complete nothing is held.\<close>

lemma split_completed:
  assumes t: "type_name t" "no_marker (t @ ''_'')" and c: "byte c < 128" "\<not> word_byte c"
    and b: "b = placeholder t n @ c # y" "plain_text b" "length b \<le> maxPlaceholderLen" "no_marker (c # y)"
  shows "splitSafePrefix ct b = Some (b, [])"
proof -
  have "window b = [] @ b" using b(3) by (simp add: window_def)
  moreover have "has_prefix (up b) PlaceholderPrefix" unfolding b(1) by (rule placeholder_marker)
  moreover have "no_marker (tl b)" using placeholder_tail [OF t(2) b(4)] b(1) by simp
  ultimately have "holdPoint ct b PlaceholderPrefix completePlaceholderRe = Some (length b)"
    using hold_marker [OF b(2), of "[]" b ct completePlaceholderRe] completed_matches [OF t(1) c, of n y] b(1) by simp
  from split_plain [OF b(2) this] show ?thesis by simp
qed

text \<open>
  C7: A placeholder that is split between two chunks reaches the end user unrestored when
  another complete placeholder stands shortly before it: the end of the first chunk is not
  examined once the last full marker of the window is found complete. Restoring the same
  answer at once restores both.
\<close>

theorem second_placeholder_leaks:
  assumes t: "type_name t" "no_marker (t @ ''_'')" "type_name t'" and c: "byte c < 128" "\<not> word_byte c"
    and p: "plain_text (placeholder t n @ c # y @ placeholder t' m @ z)"
    and q: "placeholder t' m = q1 @ q2"
    and l: "length (placeholder t n @ c # y @ q1) \<le> maxPlaceholderLen"
    and f: "no_marker (c # y @ q1)" "\<not> ends_open (c # y)" "no_marker (q2 @ z)" "no_digit z"
    and v: "sc_Vault scope = Some v" "rd_tokens rd = False" "Vault_Resolve v (placeholder t n) = Some x"
      "Vault_Resolve v (placeholder t' m) = Some x'"
  shows "stream_all ct tops rd scope NewStreamUnredactor [placeholder t n @ c # y @ q1, q2 @ z] =
      Some (x @ c # y @ placeholder t' m @ z) \<and>
    (\<exists>u. Unredact tops rd (placeholder t n @ c # y @ placeholder t' m @ z) scope = Inr u \<and> ur_Text u = x @ c # y @ x' @ z)"
proof
  let ?b = "placeholder t n @ c # y @ q1"
  have nd: "no_digit (c # w)" for w using c(2) by (simp add: no_digit_def word_byte_def)
  have pb: "plain_text ?b" "plain_text (q2 @ z)" using p q by (auto simp: plain_text_def ascii_def)
  have s: "splitSafePrefix ct ?b = Some (?b, [])"
    by (rule split_completed [OF t(1,2) c refl pb(1) l f(1)])
  have "Unredact tops rd ([] @ placeholder t n @ (c # y @ q1)) scope = Inr \<lparr>ur_Text = [] @ x @ (c # y @ q1), ur_Restored = 1, ur_Phantom = []\<rparr>"
    using Unredact_one [OF t(1) nd f(1), of "[]" scope v rd n x tops] v by simp
  then have r: "release tops rd scope ?b (su\<lparr>su_buffer := []\<rparr>) = (Inr (x @ c # y @ q1), su\<lparr>su_buffer := [], su_phantom := su_phantom su\<rparr>)" for su
    by (simp add: release_def placeholder_def PlaceholderPrefix_def)
  have "stream_all ct tops rd scope (NewStreamUnredactor\<lparr>su_buffer := [], su_phantom := su_phantom NewStreamUnredactor\<rparr>) [q2 @ z] =
      Some (restored (Vault_Resolve v) [] (q2 @ z))"
    by (rule stream_restored [OF v(1,2)]) (use f(3) pb(2) in \<open>simp_all add: wf_chunks_def far_apart_def\<close>)
  then show "stream_all ct tops rd scope NewStreamUnredactor [?b, q2 @ z] = Some (x @ c # y @ placeholder t' m @ z)"
    using s r [of NewStreamUnredactor] q by (simp add: Feed_def NewStreamUnredactor_def)
next
  let ?cs = "[([], t, n), (c # y, t', m)]"
  have nd: "no_digit (c # w)" for w using c(2) by (simp add: no_digit_def word_byte_def)
  have ok: "\<forall>c \<in> set ?cs. chunk_ok c"
    using t f no_marker_prefix [of "c # y" q1] by (simp add: chunk_ok_def)
  have a: "digits_apart ?cs z" using nd f(4) by simp
  have z: "no_marker z" using f(3) no_marker_suffix by blast
  have ne: "assemble ?cs z \<noteq> []" by (simp add: placeholder_def PlaceholderPrefix_def)
  from Unredact_assembled [OF ok a z ne v(1,2), of tops] restore_loop_text [OF ok, of 0 "[]" v z "[]" 0 "[]"] v(3,4)
  show "\<exists>u. Unredact tops rd (placeholder t n @ c # y @ placeholder t' m @ z) scope = Inr u \<and> ur_Text u = x @ c # y @ x' @ z"
    by simp
qed

lemma twelve: "itoa 12 = ''12''"
  by code_simp

theorem second_placeholder_leaks_witness:
  "stream_all id_tables no_tokens demo_redactor two_people NewStreamUnredactor [''ANONYMIZED_NAME_1, ANON'', ''YMIZED_NAME_12.''] =
   Some ''Al, ANONYMIZED_NAME_12.''"
proof -
  obtain v where v: "sc_Vault two_people = Some v" "Vault_Resolve v (placeholder ''NAME'' 1) = Some ''Al''"
    "Vault_Resolve v (placeholder ''NAME'' 12) = Some ''Bo''"
    using two_people_resolve by blast
  have e: "placeholder ''NAME'' 1 = ''ANONYMIZED_NAME_1''" "placeholder ''NAME'' 12 = ''ANON'' @ ''YMIZED_NAME_12''"
    by (simp_all add: placeholder_def PlaceholderPrefix_def one_digit twelve)
  have c: "byte CHR '','' < 128" "\<not> word_byte CHR '',''"
    by (simp_all add: word_byte_def is_digit_def is_upper_def is_lower_def in_range_def byte_def)
  have p: "plain_text (placeholder ''NAME'' 1 @ CHR '','' # '' '' @ placeholder ''NAME'' 12 @ ''.'')"
    unfolding e by (simp add: plain_text_def ascii_def byte_def)
  have l: "length (placeholder ''NAME'' 1 @ CHR '','' # '' '' @ ''ANON'') \<le> maxPlaceholderLen"
    unfolding e by (simp add: maxPlaceholderLen_def)
  have o: "\<not> ends_open (CHR '','' # '' '')" by (rule calm_not_open) (simp add: calm_def byte_def)
  have n: "no_marker (CHR '','' # '' '' @ ''ANON'')" "no_marker (''YMIZED_NAME_12'' @ ''.'')" "no_digit ''.''"
    by (simp_all add: no_digit_def is_digit_def in_range_def byte_def no_marker_def contains_def str_index_def
        PlaceholderPrefix_def upper1_def is_lower_def)
  have "rd_tokens demo_redactor = False" by (simp add: demo_redactor_def NewRedactor_def)
  from second_placeholder_leaks [OF name_ok name_ok(1) c p e(2) l n(1) o n(2,3) v(1) this v(2,3), of id_tables no_tokens] e
  show ?thesis by simp
qed

section \<open>Text beyond ASCII\<close>

lemma go_upper_encode: "valid_rune r \<Longrightarrow> go_upper ct (encode_rune r @ s) = encode_rune (upper_rune ct r) @ go_upper ct s"
  using range_from_shift [of "length (encode_rune r)" s 0]
  by (simp add: go_upper_def runes_def range_runes_def range_from_cons)

lemma go_upper_encodes:
  "\<forall>r \<in> set rs. valid_rune r \<Longrightarrow>
   go_upper ct (utf8_encode rs @ s) = utf8_encode (map (upper_rune ct) rs) @ go_upper ct s"
  by (induction rs) (simp_all add: utf8_encode_def go_upper_encode)

text \<open>A continuation byte on its own is read as an error and written as three bytes.\<close>

lemma go_upper_stray:
  assumes "128 \<le> byte c" "byte c < 192"
  shows "go_upper ct (c # s) = encode_rune (upper_rune ct rune_error) @ go_upper ct s"
proof -
  have "decode_rune (c # s) = (rune_error, 1)" using assms by simp
  then show ?thesis
    using range_from_shift [of 1 s 0]
    by (simp add: go_upper_def runes_def range_runes_def range_from.simps [of 0 "c # s"] rune_width_def)
qed

definition caseless3 :: "case_tables \<Rightarrow> nat \<Rightarrow> bool" where
  "caseless3 ct r \<longleftrightarrow> valid_rune r \<and> 2048 \<le> r \<and> r < 65536 \<and> ct_upper ct r = r"

lemma caseless_upper: "caseless3 ct r \<Longrightarrow> upper_rune ct r = r"
  by (simp add: caseless3_def upper_rune_def)

lemma encode3:
  assumes "caseless3 ct r"
  shows "\<exists>a b c. encode_rune r = [a, b, c] \<and> 128 \<le> byte a \<and> 128 \<le> byte b \<and> 128 \<le> byte c \<and> byte c < 192"
proof -
  have "r div 4096 < 16" using assms by (simp add: caseless3_def less_mult_imp_div_less)
  moreover have "r mod 64 < 64" "r div 64 mod 64 < 64" by simp_all
  ultimately show ?thesis using assms by (simp add: caseless3_def encode_rune_def)
qed

lemma encodes3_length: "\<forall>r \<in> set rs. caseless3 ct r \<Longrightarrow> length (utf8_encode rs) = 3 * length rs"
proof (induction rs)
  case (Cons r rs)
  then show ?case using encode3 [of ct r] by (auto simp: utf8_encode_def)
qed (simp add: utf8_encode_def)

lemma encodes3_high: "\<forall>r \<in> set rs. caseless3 ct r \<Longrightarrow> c \<in> set (utf8_encode rs) \<Longrightarrow> 128 \<le> byte c"
proof (induction rs)
  case (Cons r rs)
  then show ?case using encode3 [of ct r] by (auto simp: utf8_encode_def)
qed (simp add: utf8_encode_def)

lemma high_up: "\<forall>c \<in> set x. 128 \<le> byte c \<Longrightarrow> up x = x \<and> CHR ''['' \<notin> set x"
proof
  assume h: "\<forall>c \<in> set x. 128 \<le> byte c"
  show "up x = x"
    by (rule map_idI) (use h in \<open>auto simp: upper1_def is_lower_def in_range_def\<close>)
  show "CHR ''['' \<notin> set x" using h by (force simp: byte_def)
qed

text \<open>Seventeen such characters: the window of sixty-four bytes begins with the third byte of one.\<close>

lemma window_stray:
  assumes "\<forall>r \<in> set rs. caseless3 ct r" "17 \<le> length rs"
  shows "\<exists>c ss. drop (3 * length rs - 49) (utf8_encode rs) = c # utf8_encode ss \<and> 128 \<le> byte c \<and> byte c < 192 \<and>
    length ss = 16 \<and> set ss \<subseteq> set rs"
proof -
  let ?k = "length rs - 17"
  define us where "us = take ?k rs"
  obtain r ss where ss: "drop ?k rs = r # ss" "length ss = 16"
    using assms(2) by (cases "drop ?k rs") (auto dest: arg_cong [of _ _ length])
  have rs: "rs = us @ r # ss" using ss(1) append_take_drop_id [of ?k rs] us_def by metis
  have "length us = ?k" by (simp add: us_def)
  then have "length (utf8_encode us) = 3 * ?k" using encodes3_length [of us ct] assms(1) rs by simp
  moreover obtain a b c where "encode_rune r = [a, b, c]" "128 \<le> byte c" "byte c < 192"
    using encode3 [of ct r] assms(1) rs by auto
  moreover have "utf8_encode rs = utf8_encode us @ encode_rune r @ utf8_encode ss" by (simp add: rs utf8_encode_def)
  moreover have "3 * length rs - 49 = 3 * ?k + 2" using assms(2) by simp
  ultimately show ?thesis using ss rs by (intro exI [of _ c] exI [of _ ss]) auto
qed

text \<open>In Chinese text, as in any text of three-byte characters without case, a placeholder that is
  not yet complete is cut in two: with at least seventeen such characters before it the search
  window begins in the middle of a character, upper-casing the window lengthens it by two bytes,
  and the first two letters of the placeholder are released.\<close>

theorem wide_text_cuts_placeholder:
  assumes rs: "\<forall>r \<in> set rs. caseless3 ct r" "17 \<le> length rs" "ct_upper ct rune_error = rune_error"
  shows "splitSafePrefix ct (utf8_encode rs @ ''ANONYMIZED_NAME'') = Some (utf8_encode rs @ ''AN'', ''ONYMIZED_NAME'')"
proof -
  let ?p = "''ANONYMIZED_NAME''" and ?b = "utf8_encode rs @ ''ANONYMIZED_NAME''"
  let ?e = "encode_rune rune_error"
  have E: "caseless3 ct rune_error" using rs(3) by (simp add: caseless3_def rune_error_def valid_rune_def)
  obtain c ss where w: "drop (3 * length rs - 49) (utf8_encode rs) = c # utf8_encode ss" "128 \<le> byte c" "byte c < 192"
    "length ss = 16" "set ss \<subseteq> set rs"
    using window_stray [OF rs(1,2)] by blast
  have ss: "\<forall>r \<in> set ss. caseless3 ct r" using rs(1) w(5) by auto
  have lb: "length ?b = 3 * length rs + 15" using encodes3_length [OF rs(1)] by simp
  have frm: "length ?b - maxPlaceholderLen = 3 * length rs - 49" "\<not> length ?b \<le> maxPlaceholderLen"
    unfolding lb maxPlaceholderLen_def using rs(2) by auto
  have d: "drop (3 * length rs - 49) ?b = c # utf8_encode ss @ ?p"
    using w(1) encodes3_length [OF rs(1)] rs(2) by simp
  have up_p: "go_upper ct ?p = ?p"
    by (subst go_upper_ascii) (simp_all add: ascii_def byte_def upper1_def is_lower_def in_range_def)
  have id: "map (upper_rune ct) ts = ts" if "\<forall>r \<in> set ts. caseless3 ct r" for ts
    by (rule map_idI) (use that caseless_upper in blast)
  have v: "\<forall>r \<in> set ts. valid_rune r" if "\<forall>r \<in> set ts. caseless3 ct r" for ts
    using that by (simp add: caseless3_def)
  let ?x = "?e @ utf8_encode ss"
  have U: "go_upper ct (drop (3 * length rs - 49) ?b) = ?x @ ?p"
    unfolding d go_upper_stray [OF w(2,3)] go_upper_encodes [OF v [OF ss]] id [OF ss] up_p caseless_upper [OF E] by simp
  have B: "go_upper ct ?b = ?b"
    unfolding go_upper_encodes [OF v [OF rs(1)]] id [OF rs(1)] up_p ..
  have hx: "\<forall>c \<in> set ?x. 128 \<le> byte c"
    using encodes3_high [OF ss] encodes3_high [of "[rune_error]" ct] E by (auto simp: utf8_encode_def)
  have lx: "length ?x = 51"
    using encodes3_length [OF ss] encodes3_length [of "[rune_error]" ct] E w(4) by (simp add: utf8_encode_def)
  have "last_index_str (up (?x @ ?p)) PlaceholderPrefix = Some (length ?x)"
    by (rule last_index_at)
      (simp_all add: PlaceholderPrefix_def upper1_def is_lower_def in_range_def byte_def no_marker_def
        contains_def str_index_def)
  moreover have "up (?x @ ?p) = ?x @ ?p"
    using high_up [OF hx] by (simp add: upper1_def is_lower_def in_range_def byte_def)
  ultimately have L: "last_index_str (?x @ ?p) PlaceholderPrefix = Some 51" using lx by simp
  have pos: "3 * length rs - 49 + 51 = length (utf8_encode rs) + 2" using rs(2) encodes3_length [OF rs(1)] by simp
  have m: "\<not> match_string completePlaceholderRe ''ONYMIZED_NAME''"
    using word_no_match [of "''ONYMIZED_NAME''" 0]
    by (simp add: match_string_def word_byte_def is_digit_def is_upper_def in_range_def byte_def)
  have H: "holdPoint ct ?b PlaceholderPrefix completePlaceholderRe = Some (length (utf8_encode rs) + 2)"
    using frm U L pos m by (simp add: holdPoint_def upper_marker)
  have "CHR ''['' \<notin> set ?b" using high_up [of "utf8_encode rs"] encodes3_high [OF rs(1)] by simp
  moreover have "CHR ''['' \<notin> set (?x @ ?p)" using high_up [OF hx] by simp
  ultimately have T: "holdPoint ct ?b tokenPrefix completeTokenRe = Some (length ?b)"
    by (intro hold_token_free) (simp_all only: B frm(1) U not_False_eq_True)
  show ?thesis using H T by (simp add: splitSafePrefix_def)
qed

theorem wide_text_cuts_placeholder_witness:
  "splitSafePrefix id_tables (utf8_encode (replicate 17 20013) @ ''ANONYMIZED_NAME'') =
   Some (utf8_encode (replicate 17 20013) @ ''AN'', ''ONYMIZED_NAME'')"
  by (rule wide_text_cuts_placeholder) (simp_all add: caseless3_def valid_rune_def id_tables_def)

section \<open>Letters that grow\<close>

text \<open>A letter whose upper case is longer, such as U+0250, makes the stream panic: with twelve of
  them before the marker the offset computed in the upper-cased window lies beyond the buffer.\<close>

theorem growing_letters_panic:
  assumes "ct_upper ct 592 = 11375"
  shows "Feed ct tops rd scope NewStreamUnredactor (utf8_encode (replicate 12 592) @ PlaceholderPrefix) = None"
proof -
  let ?b = "utf8_encode (replicate 12 592) @ PlaceholderPrefix" and ?x = "utf8_encode (replicate 12 11375)"
  have v: "valid_rune 592" "upper_rune ct 592 = 11375" using assms by (simp_all add: valid_rune_def upper_rune_def)
  have l: "length (encode_rune 592) = 2" "length (encode_rune 11375) = 3" by (simp_all add: encode_rune_def valid_rune_def)
  have ls: "length (utf8_encode (replicate k r)) = k * length (encode_rune r)" for k r
    by (induction k) (simp_all add: utf8_encode_def)
  have lb: "length ?b = 35" "length ?x = 36" by (simp_all add: ls l marker_length)
  have U: "go_upper ct ?b = ?x @ PlaceholderPrefix"
    using v by (subst go_upper_encodes) (simp_all add: upper_marker)
  have "last_index_str (?x @ PlaceholderPrefix) PlaceholderPrefix = Some (length ?x)"
    unfolding last_index_str_def
  proof (rule find_rev_upt)
    fix j assume "length ?x < j"
    then have "length (drop j (?x @ PlaceholderPrefix)) < length PlaceholderPrefix" using marker_length by simp
    then show "\<not> has_prefix (drop j (?x @ PlaceholderPrefix)) PlaceholderPrefix"
      unfolding has_prefix_iff by (metis length_append not_add_less1)
  qed (simp_all add: has_prefix_iff)
  then have "holdPoint ct ?b PlaceholderPrefix completePlaceholderRe = None"
    using U lb by (simp add: holdPoint_def upper_marker maxPlaceholderLen_def)
  then show ?thesis by (simp add: Feed_def NewStreamUnredactor_def splitSafePrefix_def)
qed

theorem growing_letters_panic_witness:
  "Feed (id_tables\<lparr>ct_upper := (\<lambda>r. if r = 592 then 11375 else r)\<rparr>) no_tokens demo_redactor two_people NewStreamUnredactor
     (utf8_encode (replicate 12 592) @ PlaceholderPrefix) = None"
  by (rule growing_letters_panic) simp

end
