(* ===== verification/AhoCorasick.thy ===== *)
theory AhoCorasick imports UTF8 "HOL-Library.Sublist" "HOL-Library.Product_Lexorder" begin

text \<open>
  The roster automaton (\<open>pii/detect/ahocorasick.go\<close>): a byte trie with failure and suffix links.
  Node indices are natural numbers, \<open>-1\<close> is None. The loops that follow links are partial
  functions, None when they do not return; for the automata that the constructor builds they
  do.
\<close>

section \<open>The automaton\<close>

record ac_node =
  an_children :: "(char, nat) gomap"
  an_fail :: nat
  an_output :: "nat option"
  an_suffix :: "nat option"

definition new_node :: ac_node where
  "new_node = \<lparr>an_children = [], an_fail = 0, an_output = None, an_suffix = None\<rparr>"

record automaton =
  ac_nodes :: "ac_node list"
  ac_patterns :: "string list"
  ac_root :: "nat list"

record ac_match =
  am_Start :: int
  am_End :: int
  am_Pattern :: nat

datatype ac_error = NoPatterns | EmptyPattern nat | DuplicatePattern string nat nat

fun insert_loop :: "ac_node list \<Rightarrow> nat \<Rightarrow> string \<Rightarrow> ac_node list \<times> nat" where
  "insert_loop ns cur [] = (ns, cur)"
| "insert_loop ns cur (b # p) =
     (case gm_get (an_children (ns ! cur)) b of
        Some next \<Rightarrow> insert_loop ns next p
      | None \<Rightarrow>
          let next = length ns; ns = ns @ [new_node] in
          insert_loop (ns[cur := (ns ! cur)\<lparr>an_children := gm_set b next (an_children (ns ! cur))\<rparr>]) next p)"

definition ac_insert :: "ac_node list \<Rightarrow> string \<Rightarrow> nat \<Rightarrow> ac_node list" where
  "ac_insert ns pattern index =
     (let (ns, cur) = insert_loop ns 0 pattern in ns[cur := (ns ! cur)\<lparr>an_output := Some index\<rparr>])"

text \<open>Up the failure links to a node with an edge for the byte.\<close>

partial_function (option) climb :: "ac_node list \<Rightarrow> nat \<Rightarrow> char \<Rightarrow> nat option" where
  "climb ns f b =
     (case gm_get (an_children (ns ! f)) b of
        Some next \<Rightarrow> Some next
      | None \<Rightarrow> if f = 0 then Some 0 else climb ns (an_fail (ns ! f)) b)"

fun link_children :: "ac_node list \<Rightarrow> nat \<Rightarrow> (char \<times> nat) list \<Rightarrow> nat list \<Rightarrow> (ac_node list \<times> nat list) option" where
  "link_children ns cur [] q = Some (ns, q)"
| "link_children ns cur ((b, child) # cs) q =
     (case climb ns (an_fail (ns ! cur)) b of
        None \<Rightarrow> None
      | Some f \<Rightarrow>
          let link = (if an_output (ns ! f) \<noteq> None then Some f else an_suffix (ns ! f)) in
          link_children (ns[child := (ns ! child)\<lparr>an_fail := f, an_suffix := link\<rparr>]) cur cs (q @ [child]))"

partial_function (option) link_queue :: "ac_node list \<Rightarrow> nat list \<Rightarrow> ac_node list option" where
  "link_queue ns q =
     (case q of
        [] \<Rightarrow> Some ns
      | cur # q \<Rightarrow>
          case link_children ns cur (an_children (ns ! cur)) q of
            None \<Rightarrow> None
          | Some r \<Rightarrow> link_queue (fst r) (snd r))"

definition buildLinks :: "ac_node list \<Rightarrow> ac_node list option" where
  "buildLinks ns =
     (let top = map snd (an_children (ns ! 0)) in
      link_queue (fold (\<lambda>c ns. ns[c := (ns ! c)\<lparr>an_fail := 0\<rparr>]) top ns) top)"

fun add_patterns :: "(string, nat) gomap \<Rightarrow> nat \<Rightarrow> string list \<Rightarrow> ac_node list \<Rightarrow> ac_error + ac_node list" where
  "add_patterns seen i [] ns = Inr ns"
| "add_patterns seen i (p # ps) ns =
     (if p = [] then Inl (EmptyPattern i)
      else case gm_get seen p of
        Some prev \<Rightarrow> Inl (DuplicatePattern p prev i)
      | None \<Rightarrow> add_patterns (gm_set p i seen) (i + 1) ps (ac_insert ns p i))"

definition root_table :: "ac_node list \<Rightarrow> nat list" where
  "root_table ns =
     map (\<lambda>b. case gm_get (an_children (ns ! 0)) (byte_char b) of Some child \<Rightarrow> child | None \<Rightarrow> 0) [0..<256]"

text \<open>The outer None is a constructor that does not return.\<close>

definition NewAhoCorasick :: "string list \<Rightarrow> (ac_error + automaton) option" where
  "NewAhoCorasick patterns =
     (if patterns = [] then Some (Inl NoPatterns)
      else case add_patterns [] 0 patterns [new_node] of
        Inl e \<Rightarrow> Some (Inl e)
      | Inr ns \<Rightarrow>
          (case buildLinks ns of
             None \<Rightarrow> None
           | Some ns \<Rightarrow> Some (Inr \<lparr>ac_nodes = ns, ac_patterns = patterns, ac_root = root_table ns\<rparr>)))"

section \<open>Matching\<close>

partial_function (option) advance :: "automaton \<Rightarrow> nat \<Rightarrow> char \<Rightarrow> nat option" where
  "advance ac cur b =
     (case gm_get (an_children (ac_nodes ac ! cur)) b of
        Some next \<Rightarrow> Some next
      | None \<Rightarrow> if cur = 0 then Some (ac_root ac ! byte b) else advance ac (an_fail (ac_nodes ac ! cur)) b)"

text \<open>The patterns that end at the node, along the suffix links.\<close>

partial_function (option) outputs :: "automaton \<Rightarrow> int \<Rightarrow> nat option \<Rightarrow> ac_match list \<Rightarrow> ac_match list option" where
  "outputs ac i n out =
     (case n of
        None \<Rightarrow> Some out
      | Some u \<Rightarrow>
          outputs ac i (an_suffix (ac_nodes ac ! u))
            (case an_output (ac_nodes ac ! u) of
               None \<Rightarrow> out
             | Some k \<Rightarrow> out @ [\<lparr>am_Start = i + 1 - int (length (ac_patterns ac ! k)), am_End = i + 1, am_Pattern = k\<rparr>]))"

fun find_loop :: "automaton \<Rightarrow> string \<Rightarrow> int \<Rightarrow> nat \<Rightarrow> ac_match list \<Rightarrow> ac_match list option" where
  "find_loop ac [] i cur out = Some out"
| "find_loop ac (b # s) i cur out =
     (case (if cur = 0 then Some (ac_root ac ! byte b) else advance ac cur b) of
        None \<Rightarrow> None
      | Some u \<Rightarrow>
          if cur = 0 \<and> u = 0 then find_loop ac s (i + 1) 0 out
          else case outputs ac i (Some u) out of
            None \<Rightarrow> None
          | Some out \<Rightarrow> find_loop ac s (i + 1) u out)"

definition FindAll :: "automaton \<Rightarrow> string \<Rightarrow> ac_match list option" where
  "FindAll ac s = map_option (sort_key (\<lambda>m. (am_Start m, am_End m))) (find_loop ac s 0 0 [])"

definition ac_Pattern :: "automaton \<Rightarrow> nat \<Rightarrow> string option" where
  "ac_Pattern ac i = (if i < length (ac_patterns ac) then Some (ac_patterns ac ! i) else None)"

definition ac_Size :: "automaton \<Rightarrow> nat" where
  "ac_Size ac = length (ac_nodes ac)"

lemmas [code] = climb.simps link_queue.simps advance.simps outputs.simps

end
