(* ===== verification/AcTrie.thy ===== *)
theory AcTrie imports AhoCorasick begin

text \<open>
  What the trie of the roster automaton (\<open>pii/detect/ahocorasick.go\<close>) stands for: every node has a
  word, the edges extend words by a byte, the outputs mark the patterns. The words are a ghost
  of the proofs, a list in parallel to the nodes.
\<close>

section \<open>Longest suffixes\<close>

definition is_longest :: "string set \<Rightarrow> string \<Rightarrow> string \<Rightarrow> bool" where
  "is_longest S w x \<longleftrightarrow> x \<in> S \<and> suffix x w \<and> (\<forall>y \<in> S. suffix y w \<longrightarrow> suffix y x)"

definition prefix_closed :: "string set \<Rightarrow> bool" where
  "prefix_closed S \<longleftrightarrow> [] \<in> S \<and> (\<forall>w b. w @ [b] \<in> S \<longrightarrow> w \<in> S)"

lemma is_longest_self: "w \<in> S \<Longrightarrow> is_longest S w w"
  by (simp add: is_longest_def)

lemma suffix_snoc: "suffix x (w @ [b]) \<longleftrightarrow> x = [] \<or> (\<exists>y. x = y @ [b] \<and> suffix y w)"
  by (simp add: suffix_snoc)

lemma suffix_tl: "x \<noteq> w \<Longrightarrow> suffix x w \<longleftrightarrow> suffix x (tl w) \<and> w \<noteq> [] \<or> x = w"
  by (cases w) (auto simp: suffix_Cons)

lemma suffix_tl_iff: "w \<noteq> [] \<Longrightarrow> suffix x w \<longleftrightarrow> x = w \<or> suffix x (tl w)"
  by (cases w) (auto simp: suffix_Cons)

lemma suffix_tl_length: "w \<noteq> [] \<Longrightarrow> suffix x (tl w) \<Longrightarrow> length x < length w"
  using suffix_length_le [of x "tl w"] by (cases w) auto

text \<open>A candidate for extension by \<open>b\<close>: no longer suffix of \<open>w\<close> can be extended.\<close>

lemma is_longest_extend:
  assumes "suffix x w" "x @ [b] \<in> S" "\<And>y. suffix y w \<Longrightarrow> y @ [b] \<in> S \<Longrightarrow> suffix y x"
  shows "is_longest S (w @ [b]) (x @ [b])"
  using assms unfolding is_longest_def suffix_snoc by auto

lemma is_longest_none:
  assumes "[] \<in> S" "\<And>y. suffix y w \<Longrightarrow> y @ [b] \<notin> S"
  shows "is_longest S (w @ [b]) []"
  using assms unfolding is_longest_def suffix_snoc by auto

section \<open>The shape of the trie\<close>

definition trie_shape :: "ac_node list \<Rightarrow> string list \<Rightarrow> bool" where
  "trie_shape ns ps \<longleftrightarrow>
     length ps = length ns \<and> ps \<noteq> [] \<and> ps ! 0 = [] \<and> distinct ps \<and>
     (\<forall>u < length ns. gm_wf (an_children (ns ! u)) \<and>
        (\<forall>b v. gm_get (an_children (ns ! u)) b = Some v \<longleftrightarrow> v < length ns \<and> ps ! v = ps ! u @ [b])) \<and>
     (\<forall>w b. w @ [b] \<in> set ps \<longrightarrow> w \<in> set ps)"

lemma trie_shape_new: "trie_shape [new_node] [[]]"
  by (auto simp: trie_shape_def new_node_def)

lemma trie_shape_closed: "trie_shape ns ps \<Longrightarrow> prefix_closed (set ps)"
  unfolding trie_shape_def prefix_closed_def by (metis length_greater_0_conv nth_mem)

lemma trie_inj: "trie_shape ns ps \<Longrightarrow> u < length ns \<Longrightarrow> v < length ns \<Longrightarrow> ps ! u = ps ! v \<longleftrightarrow> u = v"
  by (auto simp: trie_shape_def nth_eq_iff_index_eq)

lemma trie_root: "trie_shape ns ps \<Longrightarrow> 0 < length ns \<and> ps ! 0 = [] \<and> [] \<in> set ps"
  by (auto simp: trie_shape_def) (metis length_greater_0_conv nth_mem)

lemma trie_nonroot: "trie_shape ns ps \<Longrightarrow> u < length ns \<Longrightarrow> u \<noteq> 0 \<Longrightarrow> ps ! u \<noteq> []"
  using trie_inj [of ns ps u 0] trie_root [of ns ps] by auto

lemma trie_mem: "trie_shape ns ps \<Longrightarrow> w \<in> set ps \<longleftrightarrow> (\<exists>u < length ns. ps ! u = w)"
  by (auto simp: trie_shape_def in_set_conv_nth)

lemma trie_edge:
  "trie_shape ns ps \<Longrightarrow> u < length ns \<Longrightarrow>
   gm_get (an_children (ns ! u)) b = Some v \<longleftrightarrow> v < length ns \<and> ps ! v = ps ! u @ [b]"
  by (simp add: trie_shape_def)

lemma trie_no_edge:
  "trie_shape ns ps \<Longrightarrow> u < length ns \<Longrightarrow> gm_get (an_children (ns ! u)) b = None \<longleftrightarrow> ps ! u @ [b] \<notin> set ps"
  by (metis not_None_eq trie_edge trie_mem)

lemma trie_child_root: "trie_shape ns ps \<Longrightarrow> u < length ns \<Longrightarrow> gm_get (an_children (ns ! u)) b = Some v \<Longrightarrow> v \<noteq> 0"
  by (metis append_is_Nil_conv not_Cons_self2 trie_edge trie_shape_def)

text \<open>A new edge.\<close>

lemma nth_upd: "xs[i := y] ! j = (if i = j \<and> i < length xs then y else xs ! j)"
  by (cases "i < length xs") (auto simp: nth_list_update list_update_beyond)

lemma grow_nth:
  "cur < length ns \<Longrightarrow> u \<le> length ns \<Longrightarrow>
   (ns @ [x])[cur := y] ! u = (if u = cur then y else if u = length ns then x else ns ! u)"
  by (auto simp: nth_list_update nth_append)

lemma trie_shape_grow:
  assumes s: "trie_shape ns ps" and cur: "cur < length ns" and n: "gm_get (an_children (ns ! cur)) b = None"
  shows "trie_shape ((ns @ [new_node])[cur := (ns ! cur)\<lparr>an_children := gm_set b (length ns) (an_children (ns ! cur))\<rparr>])
    (ps @ [ps ! cur @ [b]])"
proof -
  let ?w = "ps ! cur @ [b]"
  let ?ns = "(ns @ [new_node])[cur := (ns ! cur)\<lparr>an_children := gm_set b (length ns) (an_children (ns ! cur))\<rparr>]"
  let ?ps = "ps @ [?w]"
  have l: "length ps = length ns" "ps \<noteq> []" "ps ! 0 = []" "distinct ps" using s by (simp_all add: trie_shape_def)
  have w: "?w \<notin> set ps" using trie_no_edge [OF s cur] n by simp
  have E: "gm_wf (an_children (?ns ! u)) \<and>
      (\<forall>c v. gm_get (an_children (?ns ! u)) c = Some v \<longleftrightarrow> v < length ?ns \<and> ?ps ! v = ?ps ! u @ [c])"
    if u: "u < length ?ns" for u
  proof (cases "u = length ns")
    case True
    have "\<not> (v < length ?ns \<and> ?ps ! v = ?w @ [c])" for c v
    proof
      assume v: "v < length ?ns \<and> ?ps ! v = ?w @ [c]"
      then have "v < length ns" using l by (cases "v = length ns") (auto simp: nth_append)
      then have "?w @ [c] \<in> set ps" using v l by (metis nth_append nth_mem)
      then show False using w s by (metis trie_shape_def)
    qed
    then show ?thesis using True cur l by (auto simp: grow_nth new_node_def nth_append)
  next
    case False
    then have u': "u < length ns" using u by simp
    have old: "gm_wf (an_children (ns ! u))"
      "\<And>c v. gm_get (an_children (ns ! u)) c = Some v \<longleftrightarrow> v < length ns \<and> ps ! v = ps ! u @ [c]"
      using s u' by (simp_all add: trie_shape_def)
    have inj: "ps ! u = ps ! cur \<longleftrightarrow> u = cur" using trie_inj [OF s u' cur] .
    show ?thesis
    proof (intro conjI allI)
      show "gm_wf (an_children (?ns ! u))" using old(1) u' cur by (auto simp: grow_nth)
      fix c v
      have "gm_get (an_children (?ns ! u)) c = (if u = cur \<and> c = b then Some (length ns) else gm_get (an_children (ns ! u)) c)"
        using u' cur by (simp add: grow_nth gm_get_set)
      moreover have "?ps ! u = ps ! u" using u' l by (simp add: nth_append)
      moreover have "v < length ?ns \<and> ?ps ! v = ps ! u @ [c] \<longleftrightarrow>
          (v = length ns \<and> u = cur \<and> c = b) \<or> (v < length ns \<and> ps ! v = ps ! u @ [c])"
        using l inj by (auto simp: nth_append less_Suc_eq)
      moreover have "u = cur \<and> c = b \<Longrightarrow> \<not> (v < length ns \<and> ps ! v = ps ! u @ [c])" using w l by (metis nth_mem)
      ultimately show "gm_get (an_children (?ns ! u)) c = Some v \<longleftrightarrow> v < length ?ns \<and> ?ps ! v = ?ps ! u @ [c]"
        using old(2) [of c v] by auto
    qed
  qed
  have P: "\<forall>v c. v @ [c] \<in> set ?ps \<longrightarrow> v \<in> set ?ps"
  proof (intro allI impI)
    fix v c
    assume "v @ [c] \<in> set ?ps"
    then consider "v @ [c] \<in> set ps" | "v = ps ! cur" by auto
    then show "v \<in> set ?ps" using s cur l by cases (auto simp: trie_shape_def)
  qed
  have "?ps ! 0 = []" using l by (cases ps) auto
  then show ?thesis unfolding trie_shape_def using E P w l by simp
qed

text \<open>Insertion of a word below a node: the nodes there were keep their links and outputs.\<close>

definition same_links :: "ac_node \<Rightarrow> ac_node \<Rightarrow> bool" where
  "same_links x y \<longleftrightarrow> an_fail x = an_fail y \<and> an_output x = an_output y \<and> an_suffix x = an_suffix y"

definition extends :: "ac_node list \<Rightarrow> ac_node list \<Rightarrow> bool" where
  "extends ns ns' \<longleftrightarrow> length ns \<le> length ns' \<and> (\<forall>u < length ns. same_links (ns ! u) (ns' ! u)) \<and>
     (\<forall>u < length ns'. length ns \<le> u \<longrightarrow> same_links new_node (ns' ! u))"

lemma extends_refl: "extends ns ns"
  by (simp add: extends_def same_links_def)

lemma extends_trans: "extends a b \<Longrightarrow> extends b c \<Longrightarrow> extends a c"
  unfolding extends_def same_links_def by (metis le_trans linorder_not_less order_less_le_trans)

lemma insert_loop_shape:
  "trie_shape ns ps \<Longrightarrow> cur < length ns \<Longrightarrow> insert_loop ns cur p = (ns', cur') \<Longrightarrow>
   \<exists>ps'. trie_shape ns' (ps @ ps') \<and> extends ns ns' \<and> cur' < length ns' \<and> (ps @ ps') ! cur' = ps ! cur @ p"
proof (induction p arbitrary: ns ps cur)
  case Nil
  then show ?case by (intro exI [of _ "[]"]) (auto simp: extends_refl)
next
  case (Cons b p)
  show ?case
  proof (cases "gm_get (an_children (ns ! cur)) b")
    case None
    let ?ns = "(ns @ [new_node])[cur := (ns ! cur)\<lparr>an_children := gm_set b (length ns) (an_children (ns ! cur))\<rparr>]"
    let ?ps = "ps @ [ps ! cur @ [b]]"
    have s: "trie_shape ?ns ?ps" using trie_shape_grow Cons.prems(1,2) None by blast
    have e: "extends ns ?ns" using Cons.prems(2) by (auto simp: extends_def same_links_def grow_nth nth_append)
    have "insert_loop ?ns (length ns) p = (ns', cur')"
      using Cons.prems(2,3) None by (simp add: Let_def nth_append)
    from Cons.IH [OF s _ this] obtain ps' where
      i: "trie_shape ns' (?ps @ ps')" "extends ?ns ns'" "cur' < length ns'" "(?ps @ ps') ! cur' = ?ps ! length ns @ p"
      by auto
    have "?ps ! length ns = ps ! cur @ [b]" using Cons.prems(1) by (simp add: trie_shape_def nth_append)
    then show ?thesis using i extends_trans [OF e i(2)] by (intro exI [of _ "(ps ! cur @ [b]) # ps'"]) simp
  next
    case (Some v)
    then have v: "v < length ns" "ps ! v = ps ! cur @ [b]" using trie_edge [OF Cons.prems(1,2)] by auto
    from Cons.IH [OF Cons.prems(1) v(1)] Cons.prems(3) Some v(2) show ?thesis by simp
  qed
qed

section \<open>The trie of a list of patterns\<close>

definition marks :: "ac_node list \<Rightarrow> string list \<Rightarrow> string list \<Rightarrow> bool" where
  "marks ns ps pats \<longleftrightarrow>
     (\<forall>u < length ns. \<forall>k. an_output (ns ! u) = Some k \<longleftrightarrow> k < length pats \<and> pats ! k = ps ! u) \<and>
     set pats \<subseteq> set ps \<and> an_suffix (ns ! 0) = None"

lemma marks_insert:
  assumes s: "trie_shape ns ps" and m: "marks ns ps pats" and p: "p \<notin> set pats"
  shows "\<exists>ps'. trie_shape (ac_insert ns p (length pats)) ps' \<and> marks (ac_insert ns p (length pats)) ps' (pats @ [p])"
proof -
  obtain ns' cur where I: "insert_loop ns 0 p = (ns', cur)" by fastforce
  have 0: "0 < length ns" "ps ! 0 = []" using s by (auto simp: trie_shape_def)
  obtain ps' where i: "trie_shape ns' (ps @ ps')" "extends ns ns'" "cur < length ns'" "(ps @ ps') ! cur = p"
    using insert_loop_shape [OF s 0(1) I] 0(2) by auto
  let ?ns = "ns'[cur := (ns' ! cur)\<lparr>an_output := Some (length pats)\<rparr>]" and ?ps = "ps @ ps'"
  have e: "ac_insert ns p (length pats) = ?ns" by (simp add: ac_insert_def I)
  have l: "length ps = length ns" "length ?ps = length ns'" using s i(1) by (simp_all add: trie_shape_def)
  have c: "an_children (?ns ! u) = an_children (ns' ! u)" for u
    using i(3) by (cases "u = cur") simp_all
  have S: "trie_shape ?ns ?ps" using i(1) unfolding trie_shape_def c by simp
  have "an_output (?ns ! u) = Some k \<longleftrightarrow> k < length (pats @ [p]) \<and> (pats @ [p]) ! k = ?ps ! u" if u: "u < length ?ns" for u k
  proof (cases "u = cur")
    case True
    have "pats ! k \<noteq> p" if "k < length pats" using p that by auto
    then show ?thesis using True i(3,4) by (auto simp: nth_append [of pats] less_Suc_eq)
  next
    case False
    then have ne: "?ps ! u \<noteq> p" using trie_inj [OF i(1) _ i(3)] u i(4) by auto
    have old: "an_output (ns' ! u) = Some k \<longleftrightarrow> k < length pats \<and> pats ! k = ?ps ! u"
    proof (cases "u < length ns")
      case True
      then show ?thesis using i(2) m l by (simp add: extends_def same_links_def marks_def nth_append)
    next
      case False
      then have "an_output (ns' ! u) = None" using i(2) u by (auto simp: extends_def same_links_def new_node_def)
      moreover have "pats ! k \<noteq> ?ps ! u" if "k < length pats"
      proof -
        have "pats ! k \<in> set ps" using m that by (auto simp: marks_def)
        moreover have "?ps ! u \<in> set ps'" using False u l by (simp add: nth_append)
        ultimately show ?thesis using i(1) by (auto simp: trie_shape_def)
      qed
      ultimately show ?thesis by auto
    qed
    then show ?thesis using False ne by (auto simp: nth_append [of pats] less_Suc_eq)
  qed
  moreover have "set (pats @ [p]) \<subseteq> set ?ps"
  proof -
    have "p \<in> set ?ps" using i(3,4) l(2) by (metis nth_mem)
    then show ?thesis using m by (auto simp: marks_def)
  qed
  moreover have "an_suffix (?ns ! 0) = None"
    using m i(2,3) 0(1) by (cases "cur = 0") (auto simp: marks_def extends_def same_links_def)
  ultimately have "marks ?ns ?ps (pats @ [p])" by (simp add: marks_def)
  then show ?thesis using S e by metis
qed

lemma add_patterns_trie:
  "add_patterns seen (length front) pats ns = Inr ns' \<Longrightarrow> trie_shape ns ps \<Longrightarrow> marks ns ps front \<Longrightarrow>
   (\<forall>p \<in> set front. gm_get seen p \<noteq> None) \<Longrightarrow> [] \<notin> set front \<Longrightarrow> distinct front \<Longrightarrow>
   \<exists>ps'. trie_shape ns' ps' \<and> marks ns' ps' (front @ pats) \<and> distinct (front @ pats) \<and> [] \<notin> set (front @ pats)"
proof (induction pats arbitrary: seen front ns ps)
  case Nil
  then show ?case by auto
next
  case (Cons p pats)
  have p: "p \<noteq> []" "gm_get seen p = None"
    and r: "add_patterns (gm_set p (length front) seen) (length (front @ [p])) pats (ac_insert ns p (length front)) = Inr ns'"
    using Cons.prems(1) by (auto split: if_splits option.splits)
  have n: "p \<notin> set front" using Cons.prems(4) p(2) by blast
  obtain ps1 where "trie_shape (ac_insert ns p (length front)) ps1" "marks (ac_insert ns p (length front)) ps1 (front @ [p])"
    using marks_insert [OF Cons.prems(2,3) n] by blast
  from Cons.IH [OF r this] show ?case using Cons.prems(4-6) p n by (auto simp: gm_get_set)
qed

lemma add_patterns_Inr:
  assumes "add_patterns [] 0 pats [new_node] = Inr ns"
  shows "\<exists>ps. trie_shape ns ps \<and> marks ns ps pats \<and> distinct pats \<and> [] \<notin> set pats"
proof -
  have "marks [new_node] [[]] []" by (simp add: marks_def new_node_def)
  from add_patterns_trie [of "[]" "[]" pats "[new_node]" ns, OF _ trie_shape_new this] assms show ?thesis by simp
qed

text \<open>The constructor accepts exactly the lists of distinct, non-empty patterns.\<close>

lemma add_patterns_ok:
  "[] \<notin> set pats \<Longrightarrow> distinct pats \<Longrightarrow> (\<forall>p \<in> set pats. gm_get seen p = None) \<Longrightarrow> \<exists>ns'. add_patterns seen i pats ns = Inr ns'"
proof (induction pats arbitrary: seen i ns)
  case (Cons p pats)
  have "\<forall>q \<in> set pats. gm_get (gm_set p i seen) q = None" using Cons.prems by (auto simp: gm_get_set)
  from Cons.IH [OF _ _ this] Cons.prems show ?case by auto
qed simp

end
