(* ===== verification/AcLinks.thy ===== *)
theory AcLinks imports AcTrie begin

text \<open>
  The links of the roster automaton (\<open>pii/detect/ahocorasick.go\<close>, \<open>buildLinks\<close>) and what a scan
  finds with them.
\<close>

section \<open>Correct links\<close>

definition link_ok :: "string list \<Rightarrow> string list \<Rightarrow> nat \<Rightarrow> ac_node \<Rightarrow> string \<Rightarrow> bool" where
  "link_ok ps pats n x w \<longleftrightarrow>
     an_fail x < n \<and> is_longest (set ps) (tl w) (ps ! an_fail x) \<and>
     (case an_suffix x of
        None \<Rightarrow> \<forall>y \<in> set pats. \<not> suffix y (tl w)
      | Some s \<Rightarrow> s < n \<and> is_longest (set pats) (tl w) (ps ! s))"

definition linked_to :: "ac_node list \<Rightarrow> string list \<Rightarrow> string list \<Rightarrow> nat \<Rightarrow> bool" where
  "linked_to ns ps pats d \<longleftrightarrow>
     (\<forall>v < length ns. v \<noteq> 0 \<longrightarrow> length (ps ! v) \<le> d \<longrightarrow> link_ok ps pats (length ns) (ns ! v) (ps ! v))"

lemma climb_longest:
  assumes s: "trie_shape ns ps" and l: "linked_to ns ps pats d"
  shows "f < length ns \<Longrightarrow> length (ps ! f) \<le> d \<Longrightarrow> suffix (ps ! f) w \<Longrightarrow>
    (\<And>y. suffix y w \<Longrightarrow> y @ [b] \<in> set ps \<Longrightarrow> suffix y (ps ! f)) \<Longrightarrow>
    \<exists>g. climb ns f b = Some g \<and> g < length ns \<and> is_longest (set ps) (w @ [b]) (ps ! g)"
proof (induction "length (ps ! f)" arbitrary: f rule: less_induct)
  case less
  have root: "ps ! 0 = []" "0 < length ns" "[] \<in> set ps" using trie_root [OF s] by simp_all
  have closed: "y \<in> set ps" if "y @ [b] \<in> set ps" for y using s that by (auto simp: trie_shape_def)
  show ?case
  proof (cases "gm_get (an_children (ns ! f)) b")
    case (Some g)
    then have g: "g < length ns" "ps ! g = ps ! f @ [b]" using trie_edge [OF s less.prems(1)] by auto
    then have "ps ! f @ [b] \<in> set ps" using trie_mem [OF s] by blast
    then have "is_longest (set ps) (w @ [b]) (ps ! g)"
      unfolding g(2) by (intro is_longest_extend less.prems(3,4))
    then show ?thesis using g(1) Some by (subst climb.simps) simp
  next
    case None
    then have no: "ps ! f @ [b] \<notin> set ps" using trie_no_edge [OF s less.prems(1)] by simp
    show ?thesis
    proof (cases "f = 0")
      case True
      have "is_longest (set ps) (w @ [b]) []"
      proof (rule is_longest_none [OF root(3)])
        fix y assume "suffix y w"
        then show "y @ [b] \<notin> set ps" using less.prems(4) True root(1) no by fastforce
      qed
      then show ?thesis using None True root by (subst climb.simps) simp
    next
      case False
      let ?g = "an_fail (ns ! f)"
      have ne: "ps ! f \<noteq> []" using False trie_inj [OF s less.prems(1) root(2)] root(1) by simp
      have L: "?g < length ns" "is_longest (set ps) (tl (ps ! f)) (ps ! ?g)"
        using l less.prems(1,2) False by (simp_all add: linked_to_def link_ok_def)
      then have sg: "suffix (ps ! ?g) (tl (ps ! f))" by (simp add: is_longest_def)
      have lg: "length (ps ! ?g) < length (ps ! f)" using suffix_tl_length [OF ne sg] .
      have "suffix y (ps ! ?g)" if y: "suffix y w" "y @ [b] \<in> set ps" for y
      proof -
        have "suffix y (ps ! f)" "y \<noteq> ps ! f" using less.prems(4) [OF y] no y(2) by auto
        then have "suffix y (tl (ps ! f))" using suffix_tl_iff [OF ne] by blast
        then show ?thesis using L(2) closed [OF y(2)] by (simp add: is_longest_def)
      qed
      moreover have "suffix (ps ! ?g) w"
        using sg less.prems(3) suffix_tl_iff [OF ne] suffix_order.trans by blast
      ultimately have "\<exists>g. climb ns ?g b = Some g \<and> g < length ns \<and> is_longest (set ps) (w @ [b]) (ps ! g)"
        using less.hyps [OF lg L(1)] lg less.prems(2) by auto
      then show ?thesis using None False by (subst climb.simps) simp
    qed
  qed
qed

text \<open>Following the links from the longest suffix of a text leads to the longest suffix of its extension.\<close>

lemma climb_step:
  assumes "trie_shape ns ps" "linked_to ns ps pats d" "f < length ns" "length (ps ! f) \<le> d" "is_longest (set ps) w (ps ! f)"
  shows "\<exists>g. climb ns f b = Some g \<and> g < length ns \<and> is_longest (set ps) (w @ [b]) (ps ! g)"
  by (rule climb_longest [OF assms(1-4)])
    (use assms(1,5) in \<open>auto simp: is_longest_def trie_shape_def\<close>)

section \<open>Linking the children of a node\<close>

definition relinked :: "ac_node list \<Rightarrow> ac_node list \<Rightarrow> bool" where
  "relinked ns ns' \<longleftrightarrow> length ns' = length ns \<and> ns' ! 0 = ns ! 0 \<and>
     (\<forall>u < length ns. an_children (ns' ! u) = an_children (ns ! u) \<and> an_output (ns' ! u) = an_output (ns ! u))"

lemma relinked_shape: "relinked ns ns' \<Longrightarrow> trie_shape ns ps \<Longrightarrow> trie_shape ns' ps"
  by (simp add: relinked_def trie_shape_def)

lemma relinked_marks: "relinked ns ns' \<Longrightarrow> marks ns ps pats \<Longrightarrow> marks ns' ps pats"
  by (simp add: relinked_def marks_def)

lemma relinked_refl: "relinked ns ns"
  by (simp add: relinked_def)

lemma relinked_trans: "relinked a b \<Longrightarrow> relinked b c \<Longrightarrow> relinked a c"
  by (simp add: relinked_def)

text \<open>The suffix link that the loop sets.\<close>

lemma suffix_link:
  assumes s: "trie_shape ns ps" and m: "marks ns ps pats" and e: "[] \<notin> set pats" and f: "f < length ns"
    and w: "is_longest (set ps) w (ps ! f)" and l: "f \<noteq> 0 \<Longrightarrow> link_ok ps pats (length ns) (ns ! f) (ps ! f)"
  shows "case (if an_output (ns ! f) \<noteq> None then Some f else an_suffix (ns ! f)) of
      None \<Rightarrow> \<forall>y \<in> set pats. \<not> suffix y w
    | Some t \<Rightarrow> t < length ns \<and> is_longest (set pats) w (ps ! t)"
proof -
  have sub: "set pats \<subseteq> set ps" using m by (simp add: marks_def)
  have pw: "suffix y (ps ! f)" if "y \<in> set pats" "suffix y w" for y using that w sub by (auto simp: is_longest_def)
  have out: "an_output (ns ! f) \<noteq> None \<longleftrightarrow> ps ! f \<in> set pats"
    using m f by (fastforce simp: marks_def in_set_conv_nth)
  show ?thesis
  proof (cases "ps ! f \<in> set pats")
    case True
    then have "is_longest (set pats) w (ps ! f)" using w pw by (simp add: is_longest_def)
    then show ?thesis using True f out by simp
  next
    case no: False
    show ?thesis
    proof (cases "f = 0")
      case True
      have "ps ! 0 = []" using s by (simp add: trie_shape_def)
      then have "\<not> suffix y w" if "y \<in> set pats" for y using pw [OF that] that e True by auto
      moreover have "an_suffix (ns ! 0) = None" using m by (simp add: marks_def)
      ultimately show ?thesis using out no True by simp
    next
      case False
      have ne: "ps ! f \<noteq> []" using trie_nonroot [OF s f False] .
      have pt: "suffix y (tl (ps ! f))" if "y \<in> set pats" "suffix y w" for y
      proof -
        have "y \<noteq> ps ! f" using that(1) no by metis
        then show ?thesis using pw [OF that] suffix_tl_iff [OF ne, of y] by simp
      qed
      have tw: "suffix y w" if "suffix y (tl (ps ! f))" for y
      proof -
        have "suffix y (ps ! f)" using that suffix_tl_iff [OF ne, of y] by simp
        then show ?thesis using w suffix_order.trans [of y "ps ! f" w] by (simp add: is_longest_def)
      qed
      show ?thesis
      proof (cases "an_suffix (ns ! f)")
        case None
        then show ?thesis using l [OF False] pt out no by (auto simp: link_ok_def)
      next
        case (Some t)
        then have "t < length ns" "is_longest (set pats) (tl (ps ! f)) (ps ! t)" using l [OF False] by (simp_all add: link_ok_def)
        then show ?thesis using Some out no pt tw by (auto simp: is_longest_def)
      qed
    qed
  qed
qed

lemma link_one:
  assumes s: "trie_shape ns ps" and m: "marks ns ps pats" and e: "[] \<notin> set pats"
    and cur: "cur < length ns" "cur \<noteq> 0" and l: "linked_to ns ps pats (length (ps ! cur))"
    and c: "gm_get (an_children (ns ! cur)) b = Some c"
    and f: "climb ns (an_fail (ns ! cur)) b = Some f"
    and ns': "ns' = ns[c := (ns ! c)\<lparr>an_fail := f,
      an_suffix := (if an_output (ns ! f) \<noteq> None then Some f else an_suffix (ns ! f))\<rparr>]"
  shows "relinked ns ns' \<and> link_ok ps pats (length ns) (ns' ! c) (ps ! c) \<and>
    linked_to ns' ps pats (length (ps ! cur)) \<and> (\<forall>u. u \<noteq> c \<longrightarrow> ns' ! u = ns ! u)"
proof -
  have w: "ps ! cur \<noteq> []" using trie_nonroot [OF s cur] .
  have c': "c < length ns" "ps ! c = ps ! cur @ [b]" using trie_edge [OF s cur(1)] c by auto
  have c0: "c \<noteq> 0" using trie_child_root [OF s cur(1) c] .
  have ok: "link_ok ps pats (length ns) (ns ! cur) (ps ! cur)" using l cur by (simp add: linked_to_def)
  let ?g = "an_fail (ns ! cur)"
  have g: "?g < length ns" "is_longest (set ps) (tl (ps ! cur)) (ps ! ?g)" using ok by (simp_all add: link_ok_def)
  have "suffix (ps ! ?g) (tl (ps ! cur))" using g(2) by (simp add: is_longest_def)
  then have lg: "length (ps ! ?g) \<le> length (ps ! cur)" using suffix_tl_length [OF w] by (simp add: less_imp_le)
  have F: "f < length ns" "is_longest (set ps) (tl (ps ! cur) @ [b]) (ps ! f)"
    using climb_step [OF s l g(1) lg g(2), of b] f by auto
  have t: "tl (ps ! c) = tl (ps ! cur) @ [b]" using w c'(2) by simp
  have "suffix (ps ! f) (tl (ps ! c))" using F(2) t by (simp add: is_longest_def)
  then have lf: "length (ps ! f) \<le> length (ps ! cur)" using suffix_length_le [of "ps ! f" "tl (ps ! c)"] c'(2) by simp
  have "link_ok ps pats (length ns) (ns ! f) (ps ! f)" if "f \<noteq> 0" using l that F(1) lf by (simp add: linked_to_def)
  note L = suffix_link [OF s m e F this]
  have n: "an_fail (ns' ! c) = f"
    "an_suffix (ns' ! c) = (if an_output (ns ! f) \<noteq> None then Some f else an_suffix (ns ! f))"
    using c'(1) by (simp_all add: ns')
  have "link_ok ps pats (length ns) (ns' ! c) (ps ! c)"
    unfolding link_ok_def n t using F L by blast
  moreover have "relinked ns ns'" using c0 c'(1) by (auto simp: relinked_def ns' nth_list_update)
  moreover have "linked_to ns' ps pats (length (ps ! cur))"
    using l c' by (auto simp: linked_to_def ns' nth_list_update)
  ultimately show ?thesis by (simp add: ns')
qed

lemma link_children_ok:
  assumes e: "[] \<notin> set pats" and cur: "cur < length ns" "cur \<noteq> 0"
  shows "trie_shape ns ps \<Longrightarrow> marks ns ps pats \<Longrightarrow> linked_to ns ps pats (length (ps ! cur)) \<Longrightarrow>
    (\<forall>p \<in> set cs. gm_get (an_children (ns ! cur)) (fst p) = Some (snd p)) \<Longrightarrow> distinct (map snd cs) \<Longrightarrow>
    \<exists>ns'. link_children ns cur cs q = Some (ns', q @ map snd cs) \<and> relinked ns ns' \<and>
      (\<forall>u. u \<notin> snd ` set cs \<longrightarrow> ns' ! u = ns ! u) \<and>
      (\<forall>u \<in> snd ` set cs. link_ok ps pats (length ns) (ns' ! u) (ps ! u))"
  using cur
proof (induction cs arbitrary: ns q)
  case Nil
  then show ?case by (simp add: relinked_refl)
next
  case (Cons p cs)
  obtain b c where p: "p = (b, c)" by (cases p)
  note s = Cons.prems(1) and m = Cons.prems(2) and l = Cons.prems(3) and cur = Cons.prems(6,7)
  have c: "gm_get (an_children (ns ! cur)) b = Some c" using Cons.prems(4) p by simp
  have ok: "an_fail (ns ! cur) < length ns" "is_longest (set ps) (tl (ps ! cur)) (ps ! an_fail (ns ! cur))"
    using l cur by (simp_all add: linked_to_def link_ok_def)
  have "suffix (ps ! an_fail (ns ! cur)) (tl (ps ! cur))" using ok(2) by (simp add: is_longest_def)
  then have "length (ps ! an_fail (ns ! cur)) \<le> length (ps ! cur)"
    using suffix_tl_length [OF trie_nonroot [OF s cur]] by (simp add: less_imp_le)
  then obtain f where f: "climb ns (an_fail (ns ! cur)) b = Some f" using climb_step [OF s l ok(1) _ ok(2)] by blast
  let ?ns = "ns[c := (ns ! c)\<lparr>an_fail := f, an_suffix := (if an_output (ns ! f) \<noteq> None then Some f else an_suffix (ns ! f))\<rparr>]"
  note one = link_one [OF s m e cur l c f refl]
  have len: "length ?ns = length ns" by simp
  have ch: "an_children (?ns ! cur) = an_children (ns ! cur)" using one cur by (simp add: relinked_def)
  obtain ns' where ns': "link_children ?ns cur cs (q @ [c]) = Some (ns', (q @ [c]) @ map snd cs)" "relinked ?ns ns'"
    "\<forall>u. u \<notin> snd ` set cs \<longrightarrow> ns' ! u = ?ns ! u" "\<forall>u \<in> snd ` set cs. link_ok ps pats (length ns) (ns' ! u) (ps ! u)"
    using Cons.IH [of ?ns "q @ [c]"] one relinked_shape [OF _ s] relinked_marks [OF _ m] Cons.prems(4,5) cur ch by auto
  have "c \<notin> snd ` set cs" using Cons.prems(5) p by simp
  then have "link_ok ps pats (length ns) (ns' ! c) (ps ! c)" using ns'(3) one by simp
  moreover have "\<forall>u. u \<notin> snd ` set (p # cs) \<longrightarrow> ns' ! u = ns ! u" using ns'(3) one p by simp
  moreover have "relinked ns ns'" using relinked_trans one ns'(2) by blast
  ultimately show ?case using ns'(1,4) f p by (intro exI [of _ ns']) (auto simp: Let_def)
qed

section \<open>The breadth-first traversal\<close>

lemma trie_prefix: "trie_shape ns ps \<Longrightarrow> w @ t \<in> set ps \<Longrightarrow> w \<in> set ps"
proof (induction t rule: rev_induct)
  case (snoc b t)
  then have "(w @ t) @ [b] \<in> set ps" by simp
  then have "w @ t \<in> set ps" using snoc.prems(1) unfolding trie_shape_def by blast
  then show ?case using snoc by simp
qed simp

lemma children_mem:
  "trie_shape ns ps \<Longrightarrow> u < length ns \<Longrightarrow>
   (b, v) \<in> set (an_children (ns ! u)) \<longleftrightarrow> v < length ns \<and> ps ! v = ps ! u @ [b]"
  using gm_get_in [of "an_children (ns ! u)" b v] by (simp add: trie_shape_def)

lemma children_distinct:
  assumes "trie_shape ns ps" "u < length ns"
  shows "distinct (map snd (an_children (ns ! u)))"
proof -
  have "distinct (an_children (ns ! u))" using assms by (auto simp: trie_shape_def gm_wf_def distinct_map)
  moreover have "inj_on snd (set (an_children (ns ! u)))"
    using children_mem [OF assms] by (fastforce intro!: inj_onI)
  ultimately show ?thesis by (simp add: distinct_map)
qed

text \<open>\<open>D\<close> are the nodes that left the queue.\<close>

definition bfs_inv :: "ac_node list \<Rightarrow> string list \<Rightarrow> string list \<Rightarrow> nat list \<Rightarrow> nat list \<Rightarrow> bool" where
  "bfs_inv ns ps pats D q \<longleftrightarrow>
     trie_shape ns ps \<and> marks ns ps pats \<and> distinct (D @ q) \<and>
     (\<forall>v \<in> set (D @ q). v < length ns \<and> v \<noteq> 0 \<and> link_ok ps pats (length ns) (ns ! v) (ps ! v) \<and>
        (2 \<le> length (ps ! v) \<longrightarrow> (\<exists>u \<in> set D. ps ! u = butlast (ps ! v)))) \<and>
     sorted (map (\<lambda>v. length (ps ! v)) q) \<and> (\<forall>v \<in> set q. length (ps ! v) \<le> Suc (length (ps ! hd q))) \<and>
     (\<forall>v < length ns. v \<noteq> 0 \<longrightarrow> v \<in> set (D @ q) \<or> (\<exists>u \<in> set q. strict_prefix (ps ! u) (ps ! v)))"

lemma bfs_linked:
  assumes "bfs_inv ns ps pats D (cur # q)"
  shows "linked_to ns ps pats (length (ps ! cur))"
  unfolding linked_to_def
proof (intro allI impI)
  fix v
  assume v: "v < length ns" "v \<noteq> 0" "length (ps ! v) \<le> length (ps ! cur)"
  have "\<not> strict_prefix (ps ! u) (ps ! v)" if "u \<in> set (cur # q)" for u
  proof
    assume "strict_prefix (ps ! u) (ps ! v)"
    then have "length (ps ! u) < length (ps ! v)" by (rule prefix_length_less)
    moreover have "length (ps ! cur) \<le> length (ps ! u)" using assms that by (auto simp: bfs_inv_def)
    ultimately show False using v(3) by simp
  qed
  then have "v \<in> set (D @ cur # q)" using assms v unfolding bfs_inv_def by blast
  then show "link_ok ps pats (length ns) (ns ! v) (ps ! v)" using assms unfolding bfs_inv_def by blast
qed

lemma bfs_step:
  assumes I: "bfs_inv ns ps pats D (cur # q)" and e: "[] \<notin> set pats"
  shows "\<exists>ns' qs. link_children ns cur (an_children (ns ! cur)) q = Some (ns', qs) \<and> relinked ns ns' \<and>
    bfs_inv ns' ps pats (D @ [cur]) qs"
proof -
  let ?cs = "an_children (ns ! cur)" and ?d = "\<lambda>v. length (ps ! v)"
  have s: "trie_shape ns ps" and m: "marks ns ps pats" and dist: "distinct (D @ cur # q)"
    and srt: "sorted (map ?d (cur # q))" and bound: "\<forall>v \<in> set (cur # q). ?d v \<le> Suc (?d cur)"
    using I by (simp_all add: bfs_inv_def)
  have all: "v < length ns" "v \<noteq> 0" "link_ok ps pats (length ns) (ns ! v) (ps ! v)"
    "2 \<le> length (ps ! v) \<Longrightarrow> \<exists>u \<in> set D. ps ! u = butlast (ps ! v)" if "v \<in> set (D @ cur # q)" for v
    using I that unfolding bfs_inv_def by blast+
  have cur: "cur < length ns" "cur \<noteq> 0" using all(1,2) [of cur] by simp_all
  have ne: "ps ! cur \<noteq> []" using trie_nonroot [OF s cur] .
  have wf: "gm_wf ?cs" using s cur by (simp add: trie_shape_def)
  have "\<forall>p \<in> set ?cs. gm_get ?cs (fst p) = Some (snd p)" using gm_get_in [OF wf] by auto
  from link_children_ok [OF e cur s m bfs_linked [OF I] this children_distinct [OF s cur(1)]]
  obtain ns' where ns': "link_children ns cur ?cs q = Some (ns', q @ map snd ?cs)" "relinked ns ns'"
    "\<forall>u. u \<notin> snd ` set ?cs \<longrightarrow> ns' ! u = ns ! u" "\<forall>u \<in> snd ` set ?cs. link_ok ps pats (length ns) (ns' ! u) (ps ! u)"
    by blast
  have len: "length ns' = length ns" using ns'(2) by (simp add: relinked_def)
  have child: "v < length ns" "v \<noteq> 0" "butlast (ps ! v) = ps ! cur" "?d v = Suc (?d cur)" if "v \<in> snd ` set ?cs" for v
  proof -
    have "\<exists>b. (b, v) \<in> set ?cs" using that by force
    then obtain b where "(b, v) \<in> set ?cs" by blast
    then have v: "v < length ns" "ps ! v = ps ! cur @ [b]" using children_mem [OF s cur(1)] by auto
    then show "v < length ns" "butlast (ps ! v) = ps ! cur" "?d v = Suc (?d cur)" by simp_all
    show "v \<noteq> 0"
    proof
      assume "v = 0"
      then show False using v(2) trie_root [OF s] by simp
    qed
  qed
  have fresh: "v \<notin> set (D @ cur # q)" if "v \<in> snd ` set ?cs" for v
  proof
    assume v: "v \<in> set (D @ cur # q)"
    have two: "2 \<le> ?d v" using child(4) [OF that] ne by (cases "ps ! cur") auto
    have "\<exists>u \<in> set D. ps ! u = ps ! cur" using all(4) [OF v two] child(3) [OF that] by simp
    then obtain u where u: "u \<in> set D" "ps ! u = ps ! cur" by blast
    then have "u = cur" using trie_inj [OF s _ cur(1), of u] all(1) [of u] by auto
    then show False using u dist by simp
  qed
  let ?q = "q @ map snd ?cs" and ?D = "D @ [cur]"
  have "distinct (?D @ ?q)" using dist children_distinct [OF s cur(1)] fresh by auto
  moreover have "\<forall>v \<in> set (?D @ ?q). v < length ns' \<and> v \<noteq> 0 \<and> link_ok ps pats (length ns') (ns' ! v) (ps ! v) \<and>
      (2 \<le> length (ps ! v) \<longrightarrow> (\<exists>u \<in> set ?D. ps ! u = butlast (ps ! v)))"
  proof
    fix v assume "v \<in> set (?D @ ?q)"
    then consider (old) "v \<in> set (D @ cur # q)" | (new) "v \<in> snd ` set ?cs" by auto
    then show "v < length ns' \<and> v \<noteq> 0 \<and> link_ok ps pats (length ns') (ns' ! v) (ps ! v) \<and>
      (2 \<le> length (ps ! v) \<longrightarrow> (\<exists>u \<in> set ?D. ps ! u = butlast (ps ! v)))"
    proof cases
      case old
      then have "ns' ! v = ns ! v" using ns'(3) fresh by blast
      then show ?thesis using all [OF old] len by auto
    next
      case new
      have "link_ok ps pats (length ns) (ns' ! v) (ps ! v)" using ns'(4) new by blast
      then show ?thesis using child [OF new] len by simp
    qed
  qed
  moreover have "sorted (map ?d ?q)"
  proof -
    have "map ?d (map snd ?cs) = map (\<lambda>_. Suc (?d cur)) (map snd ?cs)"
      by (rule map_cong) (use child(4) in auto)
    then have c: "map ?d (map snd ?cs) = replicate (length ?cs) (Suc (?d cur))" by (simp add: map_replicate_const)
    show ?thesis unfolding map_append sorted_append c using srt bound by auto
  qed
  moreover have "\<forall>v \<in> set ?q. ?d v \<le> Suc (?d (hd ?q))"
  proof (cases "?q = []")
    case False
    then have "hd ?q \<in> set q \<union> snd ` set ?cs" using hd_in_set [OF False] by auto
    moreover have "?d cur \<le> ?d v \<and> ?d v \<le> Suc (?d cur)" if "v \<in> set q \<union> snd ` set ?cs" for v
      using that srt bound child(4) [of v] by (cases "v \<in> set q") auto
    ultimately have "?d cur \<le> ?d (hd ?q)" "\<forall>v \<in> set ?q. ?d v \<le> Suc (?d cur)" by auto
    then show ?thesis by (meson Suc_le_mono le_trans)
  qed simp
  moreover have "v \<in> set (?D @ ?q) \<or> (\<exists>u \<in> set ?q. strict_prefix (ps ! u) (ps ! v))" if v: "v < length ns'" "v \<noteq> 0" for v
  proof -
    have "v \<in> set (D @ cur # q) \<or> (\<exists>u \<in> set (cur # q). strict_prefix (ps ! u) (ps ! v))"
      using I v len unfolding bfs_inv_def by simp
    then consider "v \<in> set (D @ cur # q)" | u where "u \<in> set q" "strict_prefix (ps ! u) (ps ! v)"
      | "strict_prefix (ps ! cur) (ps ! v)" by auto
    then show ?thesis
    proof cases
      case 3
      then obtain b t where t: "ps ! v = ps ! cur @ b # t" by (auto elim: strict_prefixE')
      moreover have "ps ! v \<in> set ps" using trie_mem [OF s] v len by auto
      ultimately have "(ps ! cur @ [b]) @ t \<in> set ps" by simp
      from trie_prefix [OF s this] obtain c where c: "c < length ns" "ps ! c = ps ! cur @ [b]" using trie_mem [OF s] by auto
      then have "c \<in> snd ` set ?cs" using children_mem [OF s cur(1)] by force
      moreover have "v = c \<or> strict_prefix (ps ! c) (ps ! v)"
        using t c trie_inj [OF s, of v c] v len by (cases t) (auto simp: strict_prefix_def)
      ultimately show ?thesis by auto
    qed auto
  qed
  ultimately have "bfs_inv ns' ps pats ?D ?q"
    using relinked_shape [OF ns'(2) s] relinked_marks [OF ns'(2) m] unfolding bfs_inv_def by blast
  then show ?thesis using ns'(1,2) by blast
qed

lemma link_queue_ok:
  assumes e: "[] \<notin> set pats"
  shows "bfs_inv ns ps pats D q \<Longrightarrow>
    \<exists>ns'. link_queue ns q = Some ns' \<and> trie_shape ns' ps \<and> marks ns' ps pats \<and>
      (\<forall>v < length ns'. v \<noteq> 0 \<longrightarrow> link_ok ps pats (length ns') (ns' ! v) (ps ! v))"
proof (induction "length ns - length D" arbitrary: ns D q rule: less_induct)
  case less
  show ?case
  proof (cases q)
    case Nil
    then have "link_queue ns q = Some ns" by (subst link_queue.simps) simp
    then show ?thesis using less.prems Nil unfolding bfs_inv_def by auto
  next
    case (Cons cur q0)
    obtain ns' qs where st: "link_children ns cur (an_children (ns ! cur)) q0 = Some (ns', qs)" "relinked ns ns'"
      "bfs_inv ns' ps pats (D @ [cur]) qs"
      using bfs_step [OF less.prems [unfolded Cons] e] by blast
    have "set (D @ q) \<subseteq> {..<length ns}" "distinct (D @ q)" using less.prems by (auto simp: bfs_inv_def)
    then have "length (D @ q) \<le> length ns"
      by (metis card_lessThan card_mono distinct_card finite_lessThan)
    then have "length ns' - length (D @ [cur]) < length ns - length D" using st(2) Cons by (simp add: relinked_def)
    from less.hyps [OF this st(3)] st(1) Cons show ?thesis by (subst link_queue.simps) simp
  qed
qed

end
