(* ===== verification/AcScan.thy ===== *)
theory AcScan imports AcLinks begin

text \<open>
  What a scan with the roster automaton (\<open>pii/detect/ahocorasick.go\<close>) finds: every occurrence of every
  pattern, once, in order of the start and the end.
\<close>

section \<open>The constructed automaton\<close>

lemma extends_unlinked:
  assumes "extends ns ns'" "\<forall>u < length ns. an_suffix (ns ! u) = None"
  shows "\<forall>u < length ns'. an_suffix (ns' ! u) = None"
proof (intro allI impI)
  fix u assume u: "u < length ns'"
  show "an_suffix (ns' ! u) = None"
    using assms u by (cases "u < length ns") (auto simp: extends_def same_links_def new_node_def)
qed

lemma insert_unlinked:
  assumes s: "trie_shape ns ps" and n: "\<forall>u < length ns. an_suffix (ns ! u) = None"
  shows "\<forall>u < length (ac_insert ns p i). an_suffix (ac_insert ns p i ! u) = None"
proof -
  obtain ns' cur where I: "insert_loop ns 0 p = (ns', cur)" by fastforce
  have "0 < length ns" using trie_root [OF s] by simp
  from insert_loop_shape [OF s this I] have "extends ns ns'" by blast
  from extends_unlinked [OF this n] show ?thesis by (auto simp: ac_insert_def I nth_upd)
qed

lemma add_patterns_unlinked:
  "add_patterns seen (length front) pats ns = Inr ns' \<Longrightarrow> trie_shape ns ps \<Longrightarrow> marks ns ps front \<Longrightarrow>
   (\<forall>p \<in> set front. gm_get seen p \<noteq> None) \<Longrightarrow> \<forall>u < length ns. an_suffix (ns ! u) = None \<Longrightarrow>
   \<forall>u < length ns'. an_suffix (ns' ! u) = None"
proof (induction pats arbitrary: seen front ns ps)
  case (Cons p pats)
  have p: "gm_get seen p = None"
    and r: "add_patterns (gm_set p (length front) seen) (length (front @ [p])) pats (ac_insert ns p (length front)) = Inr ns'"
    using Cons.prems(1) by (auto split: if_splits option.splits)
  have n: "p \<notin> set front" using Cons.prems(4) p by blast
  obtain ps1 where "trie_shape (ac_insert ns p (length front)) ps1" "marks (ac_insert ns p (length front)) ps1 (front @ [p])"
    using marks_insert [OF Cons.prems(2,3) n] by blast
  from Cons.IH [OF r this _ insert_unlinked [OF Cons.prems(2,5)]] Cons.prems(4) show ?case by (auto simp: gm_get_set)
qed simp

lemma fold_fail:
  "length (fold (\<lambda>c ns. ns[c := (ns ! c)\<lparr>an_fail := 0\<rparr>]) cs ns) = length ns \<and>
   (u < length ns \<longrightarrow> fold (\<lambda>c ns. ns[c := (ns ! c)\<lparr>an_fail := 0\<rparr>]) cs ns ! u =
      (if u \<in> set cs then (ns ! u)\<lparr>an_fail := 0\<rparr> else ns ! u))"
  by (induction cs arbitrary: ns) (auto simp: nth_upd)

text \<open>At the start the queue holds the nodes of depth one.\<close>

lemma bfs_start:
  assumes s: "trie_shape ns ps" and m: "marks ns ps pats" and e: "[] \<notin> set pats"
    and n: "\<forall>u < length ns. an_suffix (ns ! u) = None"
  shows "let top = map snd (an_children (ns ! 0)) in
    bfs_inv (fold (\<lambda>c ns. ns[c := (ns ! c)\<lparr>an_fail := 0\<rparr>]) top ns) ps pats [] top"
proof -
  let ?top = "map snd (an_children (ns ! 0))"
  let ?ns = "fold (\<lambda>c ns. ns[c := (ns ! c)\<lparr>an_fail := 0\<rparr>]) ?top ns"
  note r = trie_root [OF s]
  have F: "length ?ns = length ns" "\<And>u. u < length ns \<Longrightarrow> ?ns ! u = (if u \<in> set ?top then (ns ! u)\<lparr>an_fail := 0\<rparr> else ns ! u)"
    using fold_fail [where cs = ?top and ns = ns] by simp_all
  have top: "c < length ns \<and> c \<noteq> 0 \<and> (\<exists>b. ps ! c = [b])" if "c \<in> set ?top" for c
  proof -
    have "\<exists>b. (b, c) \<in> set (an_children (ns ! 0))" using that by force
    then obtain b where "c < length ns" "ps ! c = [b]" using children_mem [OF s, of 0] r by auto
    moreover from this have "c \<noteq> 0" using r by (metis list.distinct(1))
    ultimately show ?thesis by blast
  qed
  have rl: "relinked ns ?ns"
    unfolding relinked_def using F top [of 0] r by auto
  have l: "link_ok ps pats (length ns) (?ns ! c) (ps ! c)" if "c \<in> set ?top" for c
    using top [OF that] F that n e r by (auto simp: link_ok_def is_longest_def)
  have d: "length (ps ! c) = 1" if "c \<in> set ?top" for c using top [OF that] by auto
  have "map (\<lambda>v. length (ps ! v)) ?top = map (\<lambda>_. 1) ?top" by (rule map_cong) (use d in auto)
  then have srt: "sorted (map (\<lambda>v. length (ps ! v)) ?top)" by (simp add: map_replicate_const del: map_map)
  have reach: "v \<in> set ?top \<or> (\<exists>u \<in> set ?top. strict_prefix (ps ! u) (ps ! v))" if v: "v < length ns" "v \<noteq> 0" for v
  proof -
    obtain b t where t: "ps ! v = b # t" using trie_nonroot [OF s v] by (cases "ps ! v") auto
    have "[b] @ t \<in> set ps" using trie_mem [OF s] v t by auto
    from trie_prefix [OF s this] obtain c where c: "c < length ns" "ps ! c = [b]" using trie_mem [OF s] by auto
    then have "(b, c) \<in> set (an_children (ns ! 0))" using children_mem [OF s, of 0] r by simp
    then have "c \<in> set ?top" by force
    moreover have "v = c \<or> strict_prefix (ps ! c) (ps ! v)"
      using t c trie_inj [OF s v(1) c(1)] by (cases t) (auto simp: strict_prefix_def)
    ultimately show ?thesis by blast
  qed
  have dist: "distinct ?top" using children_distinct [OF s, of 0] r by simp
  have h: "\<forall>v \<in> set ?top. length (ps ! v) \<le> Suc (length (ps ! hd ?top))"
    using d by (simp del: set_map)
  show ?thesis
    unfolding Let_def bfs_inv_def
    using relinked_shape [OF rl s] relinked_marks [OF rl m] dist top l d srt h reach F(1)
    by (simp del: set_map map_map)
qed

lemma buildLinks_ok:
  assumes "trie_shape ns ps" "marks ns ps pats" "[] \<notin> set pats" "\<forall>u < length ns. an_suffix (ns ! u) = None"
  shows "\<exists>ns'. buildLinks ns = Some ns' \<and> trie_shape ns' ps \<and> marks ns' ps pats \<and>
    (\<forall>v < length ns'. v \<noteq> 0 \<longrightarrow> link_ok ps pats (length ns') (ns' ! v) (ps ! v))"
  using link_queue_ok [OF assms(3) bfs_start [OF assms, unfolded Let_def]] by (simp add: buildLinks_def Let_def)

definition ac_ok :: "automaton \<Rightarrow> string list \<Rightarrow> string list \<Rightarrow> bool" where
  "ac_ok ac ps pats \<longleftrightarrow>
     trie_shape (ac_nodes ac) ps \<and> marks (ac_nodes ac) ps pats \<and> [] \<notin> set pats \<and> distinct pats \<and>
     ac_patterns ac = pats \<and> ac_root ac = root_table (ac_nodes ac) \<and>
     (\<forall>v < length (ac_nodes ac). v \<noteq> 0 \<longrightarrow> link_ok ps pats (length (ac_nodes ac)) (ac_nodes ac ! v) (ps ! v))"

lemma NewAhoCorasick_ok:
  assumes "NewAhoCorasick pats = Some (Inr ac)"
  shows "\<exists>ps. ac_ok ac ps pats"
proof -
  obtain ns where ns: "add_patterns [] 0 pats [new_node] = Inr ns"
    using assms by (auto simp: NewAhoCorasick_def split: if_splits sum.splits)
  from add_patterns_Inr [OF this] obtain ps where ps: "trie_shape ns ps" "marks ns ps pats" "distinct pats" "[] \<notin> set pats"
    by blast
  have "marks [new_node] [[]] []" by (simp add: marks_def new_node_def)
  from add_patterns_unlinked [of "[]" "[]" pats, OF _ trie_shape_new this] ns
  have u: "\<forall>u < length ns. an_suffix (ns ! u) = None" by (simp add: new_node_def)
  from buildLinks_ok [OF ps(1,2,4) u] assms ns ps(3,4) show ?thesis
    by (auto simp: NewAhoCorasick_def ac_ok_def split: if_splits)
qed

lemma ac_total:
  "\<exists>r. NewAhoCorasick pats = Some r \<and> (is_ok r \<longleftrightarrow> pats \<noteq> [] \<and> [] \<notin> set pats \<and> distinct pats)"
proof (cases "add_patterns [] 0 pats [new_node]")
  case (Inl e)
  then have "\<not> ([] \<notin> set pats \<and> distinct pats)" using add_patterns_ok [of pats "[]" 0 "[new_node]"] by auto
  then show ?thesis using Inl by (auto simp: NewAhoCorasick_def)
next
  case (Inr ns)
  from add_patterns_Inr [OF this] obtain ps where ps: "trie_shape ns ps" "marks ns ps pats" "distinct pats" "[] \<notin> set pats"
    by blast
  have "marks [new_node] [[]] []" by (simp add: marks_def new_node_def)
  from add_patterns_unlinked [of "[]" "[]" pats, OF _ trie_shape_new this] Inr
  have u: "\<forall>u < length ns. an_suffix (ns ! u) = None" by (simp add: new_node_def)
  from buildLinks_ok [OF ps(1,2,4) u] Inr ps(3,4) show ?thesis by (auto simp: NewAhoCorasick_def)
qed

text \<open>
  C24: The constructor returns for every list of patterns: its loops over links and its queue
  end, and it accepts exactly the non-empty lists of distinct, non-empty patterns.
\<close>

theorem NewAhoCorasick_returns:
  "\<exists>r. NewAhoCorasick pats = Some r \<and> (is_ok r \<longleftrightarrow> pats \<noteq> [] \<and> [] \<notin> set pats \<and> distinct pats)"
  by (rule ac_total)

text \<open>Every loop that follows links from a node returns.\<close>

lemma ac_linked: "ac_ok ac ps pats \<Longrightarrow> linked_to (ac_nodes ac) ps pats d"
  by (simp add: ac_ok_def linked_to_def)

lemma root_lookup:
  "ac_root ac = root_table (ac_nodes ac) \<Longrightarrow>
   ac_root ac ! byte b = (case gm_get (an_children (ac_nodes ac ! 0)) b of Some child \<Rightarrow> child | None \<Rightarrow> 0)"
proof -
  have "byte_char (byte b) = b" "byte b < 256" by (simp_all add: byte_char_def byte_def)
  then show "ac_root ac = root_table (ac_nodes ac) \<Longrightarrow> ?thesis" by (simp add: root_table_def)
qed

lemma advance_climb:
  assumes ok: "ac_ok ac ps pats"
  shows "f < length (ac_nodes ac) \<Longrightarrow> advance ac f b = climb (ac_nodes ac) f b"
proof (induction "length (ps ! f)" arbitrary: f rule: less_induct)
  case less
  have s: "trie_shape (ac_nodes ac) ps" and r: "ac_root ac = root_table (ac_nodes ac)" using ok by (simp_all add: ac_ok_def)
  show ?case
  proof (cases "gm_get (an_children (ac_nodes ac ! f)) b = None \<and> f \<noteq> 0")
    case True
    let ?g = "an_fail (ac_nodes ac ! f)"
    have "?g < length (ac_nodes ac)" "is_longest (set ps) (tl (ps ! f)) (ps ! ?g)"
      using ok less.prems True by (simp_all add: ac_ok_def link_ok_def)
    moreover from this have "length (ps ! ?g) < length (ps ! f)"
      using suffix_tl_length [OF trie_nonroot [OF s less.prems]] True by (simp add: is_longest_def)
    ultimately have "advance ac ?g b = climb (ac_nodes ac) ?g b" using less.hyps by blast
    then show ?thesis using True by (subst advance.simps, subst climb.simps) simp
  next
    case False
    then show ?thesis using root_lookup [OF r, of b]
      by (subst advance.simps, subst climb.simps) (auto split: option.splits)
  qed
qed

lemma ac_step:
  assumes ok: "ac_ok ac ps pats" and cur: "cur < length (ac_nodes ac)" "is_longest (set ps) w (ps ! cur)"
  shows "\<exists>u. (if cur = 0 then Some (ac_root ac ! byte b) else advance ac cur b) = Some u \<and>
    u < length (ac_nodes ac) \<and> is_longest (set ps) (w @ [b]) (ps ! u)"
proof -
  have s: "trie_shape (ac_nodes ac) ps" and r: "ac_root ac = root_table (ac_nodes ac)" using ok by (simp_all add: ac_ok_def)
  obtain u where u: "climb (ac_nodes ac) cur b = Some u" "u < length (ac_nodes ac)" "is_longest (set ps) (w @ [b]) (ps ! u)"
    using climb_step [OF s ac_linked [OF ok] cur(1) order_refl cur(2)] by blast
  have "ac_root ac ! byte b = u" if "cur = 0"
    using u(1) root_lookup [OF r, of b] that by (subst (asm) climb.simps) (auto split: option.splits)
  then show ?thesis using u advance_climb [OF ok cur(1)] by auto
qed

section \<open>Occurrences\<close>

definition match_of :: "string list \<Rightarrow> int \<Rightarrow> nat \<Rightarrow> ac_match" where
  "match_of pats i k = \<lparr>am_Start = i - int (length (pats ! k)), am_End = i, am_Pattern = k\<rparr>"

text \<open>The patterns that end at the node, each once.\<close>

lemma outputs_chain:
  assumes ok: "ac_ok ac ps pats"
  shows "u < length (ac_nodes ac) \<Longrightarrow>
    \<exists>ms. outputs ac i (Some u) out = Some (out @ ms) \<and> distinct ms \<and>
      set ms = {match_of pats (i + 1) k | k. k < length pats \<and> suffix (pats ! k) (ps ! u)}"
proof (induction "length (ps ! u)" arbitrary: u out rule: less_induct)
  case less
  let ?ns = "ac_nodes ac"
  have s: "trie_shape ?ns ps" and m: "marks ?ns ps pats" and e: "[] \<notin> set pats" and p: "ac_patterns ac = pats"
    and d: "distinct pats"
    using ok by (simp_all add: ac_ok_def)
  have out: "an_output (?ns ! u) = Some k \<longleftrightarrow> k < length pats \<and> pats ! k = ps ! u" for k
    using m less.prems by (simp add: marks_def)
  let ?here = "case an_output (?ns ! u) of None \<Rightarrow> [] | Some k \<Rightarrow> [match_of pats (i + 1) k]"
  let ?rest = "{match_of pats (i + 1) k | k. k < length pats \<and> suffix (pats ! k) (tl (ps ! u)) \<and> ps ! u \<noteq> []}"
  have step: "outputs ac i (Some u) out = outputs ac i (an_suffix (?ns ! u)) (out @ ?here)"
    by (subst outputs.simps) (auto simp: match_of_def p split: option.split)
  have "\<exists>ms. outputs ac i (an_suffix (?ns ! u)) (out @ ?here) = Some (out @ ?here @ ms) \<and> distinct ms \<and> set ms = ?rest"
  proof (cases "u = 0")
    case True
    then have "an_suffix (?ns ! u) = None" "ps ! u = []" using m trie_root [OF s] by (simp_all add: marks_def)
    then show ?thesis by (subst outputs.simps) simp
  next
    case False
    have ne: "ps ! u \<noteq> []" using trie_nonroot [OF s less.prems False] .
    have ok: "link_ok ps pats (length ?ns) (?ns ! u) (ps ! u)" using ok less.prems False by (simp add: ac_ok_def)
    show ?thesis
    proof (cases "an_suffix (?ns ! u)")
      case None
      then have "?rest = {}" using ok by (auto simp: link_ok_def)
      then show ?thesis using None by (subst outputs.simps) simp
    next
      case (Some t)
      then have t: "t < length ?ns" "is_longest (set pats) (tl (ps ! u)) (ps ! t)" using ok by (simp_all add: link_ok_def)
      then have st: "suffix (ps ! t) (tl (ps ! u))" by (simp add: is_longest_def)
      have "suffix (pats ! k) (ps ! t) \<longleftrightarrow> suffix (pats ! k) (tl (ps ! u))" if "k < length pats" for k
        using t(2) that st suffix_order.trans [of "pats ! k" "ps ! t" "tl (ps ! u)"] by (auto simp: is_longest_def)
      then have "{match_of pats (i + 1) k | k. k < length pats \<and> suffix (pats ! k) (ps ! t)} = ?rest" using ne by blast
      then show ?thesis using less.hyps [OF suffix_tl_length [OF ne st] t(1), of "out @ ?here"] Some by simp
    qed
  qed
  then obtain ms where ms: "outputs ac i (Some u) out = Some (out @ ?here @ ms)" "distinct ms" "set ms = ?rest"
    using step by auto
  have iff: "suffix (pats ! k) (ps ! u) \<longleftrightarrow> pats ! k = ps ! u \<or> suffix (pats ! k) (tl (ps ! u)) \<and> ps ! u \<noteq> []"
    if "k < length pats" for k
    using suffix_tl_iff [of "ps ! u" "pats ! k"] by (cases "ps ! u = []") auto
  have "distinct (?here @ ms)"
  proof (cases "an_output (?ns ! u)")
    case (Some k)
    then have k: "k < length pats" "pats ! k = ps ! u" using out by auto
    have "match_of pats (i + 1) k \<notin> ?rest"
    proof
      assume "match_of pats (i + 1) k \<in> ?rest"
      then have "suffix (ps ! u) (tl (ps ! u))" "ps ! u \<noteq> []" using k by (auto simp: match_of_def)
      then show False using suffix_tl_length by blast
    qed
    then show ?thesis using ms Some by simp
  qed (use ms in simp)
  moreover have "set (?here @ ms) = {match_of pats (i + 1) k | k. k < length pats \<and> suffix (pats ! k) (ps ! u)}"
  proof (cases "an_output (?ns ! u)")
    case None
    then show ?thesis using out iff ms(3) by auto
  next
    case (Some k)
    then have k: "k < length pats" "pats ! k = ps ! u" using out by auto
    have "{match_of pats (i + 1) k | k. k < length pats \<and> suffix (pats ! k) (ps ! u)} = insert (match_of pats (i + 1) k) ?rest"
    proof -
      have "j = k" if "j < length pats" "pats ! j = ps ! u" for j using that k d nth_eq_iff_index_eq by metis
      then show ?thesis using iff k by blast
    qed
    then show ?thesis using Some ms(3) by simp
  qed
  ultimately show ?case using ms(1) by blast
qed

text \<open>An occurrence of a pattern in a text, as a match.\<close>

definition occurs :: "string list \<Rightarrow> string \<Rightarrow> ac_match \<Rightarrow> bool" where
  "occurs pats s m \<longleftrightarrow>
     (\<exists>k x y. k < length pats \<and> s = x @ pats ! k @ y \<and> m = match_of pats (int (length x + length (pats ! k))) k)"

lemma occurs_end:
  "occurs pats (w @ b # s) m \<and> am_End m = int (length w) + 1 \<longleftrightarrow>
   (\<exists>k < length pats. m = match_of pats (int (length w) + 1) k \<and> suffix (pats ! k) (w @ [b]))"
proof
  assume "occurs pats (w @ b # s) m \<and> am_End m = int (length w) + 1"
  then obtain k x y where k: "k < length pats" "w @ b # s = x @ pats ! k @ y"
    "m = match_of pats (int (length x + length (pats ! k))) k" "int (length x + length (pats ! k)) = int (length w) + 1"
    by (auto simp: occurs_def match_of_def)
  have "length (w @ [b]) = length (x @ pats ! k)" using k(4) by simp
  then have "w @ [b] = x @ pats ! k" using k(2) by (metis append_Cons append_Nil append_assoc append_eq_append_conv)
  then show "\<exists>k < length pats. m = match_of pats (int (length w) + 1) k \<and> suffix (pats ! k) (w @ [b])"
    using k by (auto simp: suffix_def)
next
  assume "\<exists>k < length pats. m = match_of pats (int (length w) + 1) k \<and> suffix (pats ! k) (w @ [b])"
  then obtain k x where k: "k < length pats" "m = match_of pats (int (length w) + 1) k" "w @ [b] = x @ pats ! k"
    by (auto simp: suffix_def)
  have l: "length x + length (pats ! k) = length w + 1" using arg_cong [OF k(3), of length] by simp
  have "w @ b # s = x @ pats ! k @ s" using k(3) by (metis append_Cons append_Nil append_assoc)
  moreover have "int (length x + length (pats ! k)) = int (length w) + 1" unfolding l by simp
  then have "m = match_of pats (int (length x + length (pats ! k))) k" using k(2) by (simp only:)
  ultimately have "occurs pats (w @ b # s) m" using k(1) unfolding occurs_def by blast
  then show "occurs pats (w @ b # s) m \<and> am_End m = int (length w) + 1" using k(2) by (simp add: match_of_def)
qed

lemma occurs_within: "occurs pats s m \<Longrightarrow> am_End m \<le> int (length s)"
  by (auto simp: occurs_def match_of_def)

lemma find_loop_exact:
  assumes ok: "ac_ok ac ps pats"
  shows "cur < length (ac_nodes ac) \<Longrightarrow> is_longest (set ps) w (ps ! cur) \<Longrightarrow>
    \<exists>ms. find_loop ac s (int (length w)) cur out = Some (out @ ms) \<and> distinct ms \<and>
      set ms = {m. occurs pats (w @ s) m \<and> int (length w) < am_End m}"
proof (induction s arbitrary: w cur out)
  case Nil
  have "{m. occurs pats (w @ []) m \<and> int (length w) < am_End m} = {}" using occurs_within by fastforce
  then show ?case by simp
next
  case (Cons b s)
  obtain u where u: "(if cur = 0 then Some (ac_root ac ! byte b) else advance ac cur b) = Some u"
    "u < length (ac_nodes ac)" "is_longest (set ps) (w @ [b]) (ps ! u)"
    using ac_step [OF ok Cons.prems] by blast
  have sub: "set pats \<subseteq> set ps" and root: "ps ! 0 = []" and e: "[] \<notin> set pats"
    using ok trie_root by (auto simp: ac_ok_def marks_def)
  have "suffix (pats ! k) (w @ [b]) \<longleftrightarrow> suffix (pats ! k) (ps ! u)" if "k < length pats" for k
  proof -
    have "pats ! k \<in> set ps" using sub that by auto
    then show ?thesis
      using u(3) suffix_order.trans [of "pats ! k" "ps ! u" "w @ [b]"] unfolding is_longest_def by blast
  qed
  then have hits: "{match_of pats (int (length w) + 1) k | k. k < length pats \<and> suffix (pats ! k) (ps ! u)} =
      {m. occurs pats (w @ b # s) m \<and> am_End m = int (length w) + 1}"
    unfolding occurs_end by blast
  obtain hs where hs: "(if cur = 0 \<and> u = 0 then Some out else outputs ac (int (length w)) (Some u) out) = Some (out @ hs)"
    "distinct hs" "set hs = {m. occurs pats (w @ b # s) m \<and> am_End m = int (length w) + 1}"
  proof (cases "cur = 0 \<and> u = 0")
    case True
    have "pats ! k \<noteq> []" if "k < length pats" for k using e that nth_mem by metis
    then have "{m. occurs pats (w @ b # s) m \<and> am_End m = int (length w) + 1} = {}"
      unfolding hits [symmetric] using True root by auto
    then show ?thesis using that [of "[]"] True by simp
  next
    case False
    then show ?thesis using outputs_chain [OF ok u(2), of "int (length w)" out] that hits by auto
  qed
  obtain ms where ms: "find_loop ac s (int (length (w @ [b]))) u (out @ hs) = Some ((out @ hs) @ ms)" "distinct ms"
    "set ms = {m. occurs pats ((w @ [b]) @ s) m \<and> int (length (w @ [b])) < am_End m}"
    using Cons.IH [OF u(2,3)] by blast
  have "find_loop ac (b # s) (int (length w)) cur out = Some (out @ hs @ ms)"
  proof (cases "cur = 0 \<and> u = 0")
    case True
    then show ?thesis using u(1) hs(1) ms(1) by (simp add: add.commute)
  next
    case False
    then have "outputs ac (int (length w)) (Some u) out = Some (out @ hs)" using hs(1) by (simp only: if_False)
    then show ?thesis using u(1) ms(1) False by (auto simp: add.commute)
  qed
  moreover have "set (hs @ ms) = {m. occurs pats (w @ b # s) m \<and> int (length w) < am_End m}"
    using hs(3) ms(3) by auto
  moreover have "distinct (hs @ ms)" using hs(2,3) ms(2,3) by auto
  ultimately show ?case by blast
qed

lemma find_loop_all:
  assumes "ac_ok ac ps pats"
  shows "\<exists>ms. find_loop ac s 0 0 [] = Some ms \<and> distinct ms \<and> set ms = {m. occurs pats s m}"
proof -
  have s: "trie_shape (ac_nodes ac) ps" and e: "[] \<notin> set pats" using assms by (simp_all add: ac_ok_def)
  have "is_longest (set ps) [] (ps ! 0)" using trie_root [OF s] by (simp add: is_longest_def)
  from find_loop_exact [OF assms _ this, of s "[]"] trie_root [OF s]
  obtain ms where ms: "find_loop ac s 0 0 [] = Some ms" "distinct ms" "set ms = {m. occurs pats s m \<and> 0 < am_End m}"
    by auto
  have "0 < am_End m" if "occurs pats s m" for m
    using that unfolding occurs_def
  proof (elim exE conjE)
    fix k x y
    assume k: "k < length pats" "m = match_of pats (int (length x + length (pats ! k))) k"
    have "pats ! k \<noteq> []" using e k(1) nth_mem by metis
    then show "0 < am_End m" using k(2) by (simp add: match_of_def add_nonneg_pos)
  qed
  then have "{m. occurs pats s m \<and> 0 < am_End m} = {m. occurs pats s m}" by blast
  then show ?thesis using ms by auto
qed

text \<open>Distinct patterns are told apart by their place.\<close>

lemma occurs_inj:
  assumes d: "distinct pats" and m: "occurs pats s m" "occurs pats s m'"
    and eq: "am_Start m = am_Start m'" "am_End m = am_End m'"
  shows "m = m'"
proof -
  obtain k x y where k: "k < length pats" "s = x @ pats ! k @ y" "m = match_of pats (int (length x + length (pats ! k))) k"
    using m(1) by (auto simp: occurs_def)
  obtain k' x' y' where k': "k' < length pats" "s = x' @ pats ! k' @ y'" "m' = match_of pats (int (length x' + length (pats ! k'))) k'"
    using m(2) by (auto simp: occurs_def)
  have l: "length x = length x'" "length (pats ! k) = length (pats ! k')" using eq k(3) k'(3) by (simp_all add: match_of_def)
  have "pats ! k = take (length (pats ! k)) (drop (length x) s)" using k(2) by simp
  moreover have "pats ! k' = take (length (pats ! k)) (drop (length x) s)" using k'(2) l by simp
  ultimately have "pats ! k = pats ! k'" by simp
  then have "k = k'" using d k(1) k'(1) nth_eq_iff_index_eq by blast
  then show ?thesis using k(3) k'(3) l by simp
qed

lemma FindAll_matches:
  assumes "NewAhoCorasick pats = Some (Inr ac)"
  shows "\<exists>ms. FindAll ac s = Some ms \<and> set ms = {m. occurs pats s m} \<and>
    sorted_wrt (\<lambda>m m'. (am_Start m, am_End m) < (am_Start m', am_End m')) ms"
proof -
  obtain ps where ok: "ac_ok ac ps pats" using NewAhoCorasick_ok [OF assms] by blast
  obtain ms where ms: "find_loop ac s 0 0 [] = Some ms" "distinct ms" "set ms = {m. occurs pats s m}"
    using find_loop_all [OF ok] by blast
  let ?key = "\<lambda>m. (am_Start m, am_End m)"
  have inj: "inj_on ?key (set ms)"
    using occurs_inj ok ms(3) by (auto intro!: inj_onI simp: ac_ok_def)
  then have "distinct (map ?key (sort_key ?key ms))" using ms(2) by (simp add: distinct_map)
  moreover have "sorted (map ?key (sort_key ?key ms))" by simp
  ultimately have "sorted_wrt (<) (map ?key (sort_key ?key ms))" by (simp only: strict_sorted_iff)
  then have "sorted_wrt (\<lambda>m m'. ?key m < ?key m') (sort_key ?key ms)" by (simp only: sorted_wrt_map)
  then show ?thesis using ms by (simp add: FindAll_def)
qed

text \<open>
  C23: A scan returns exactly the occurrences of the patterns in the text, overlapping ones and
  patterns within patterns included, each once and in order of start and end.
\<close>

theorem FindAll_exact:
  assumes "NewAhoCorasick pats = Some (Inr ac)"
  shows "\<exists>ms. FindAll ac s = Some ms \<and> set ms = {m. occurs pats s m} \<and>
    sorted_wrt (\<lambda>m m'. (am_Start m, am_End m) < (am_Start m', am_End m')) ms"
  by (rule FindAll_matches [OF assms])

theorem FindAll_exact_witness:
  "\<exists>ac ms. NewAhoCorasick [''he'', ''she''] = Some (Inr ac) \<and> FindAll ac ''she'' = Some ms \<and>
     match_of [''he'', ''she''] 3 0 \<in> set ms \<and> match_of [''he'', ''she''] 3 1 \<in> set ms"
proof -
  let ?pats = "[''he'', ''she'']"
  obtain ac where ac: "NewAhoCorasick ?pats = Some (Inr ac)" using ac_total [of ?pats] by (auto simp: is_ok_iff)
  obtain ms where ms: "FindAll ac ''she'' = Some ms" "set ms = {m. occurs ?pats ''she'' m}"
    using FindAll_exact [OF ac] by blast
  have "occurs ?pats ''she'' (match_of ?pats 3 0)"
    unfolding occurs_def by (intro exI [of _ 0] exI [of _ "''s''"] exI [of _ "[]"]) simp
  moreover have "occurs ?pats ''she'' (match_of ?pats 3 1)"
    unfolding occurs_def by (intro exI [of _ 1] exI [of _ "[]"] exI [of _ "[]"]) simp
  ultimately show ?thesis using ac ms by auto
qed

end
