(* ===== verification/Gazetteer.thy ===== *)
theory Gazetteer imports AcScan GoCase Detector begin

text \<open>
  The roster detector (\<open>pii/detect/detector.go\<close>, \<open>GazetteerDetector\<close>): terms by entity type, compiled
  into one automaton; matching without case runs on a lower-cased copy of the text when that
  has the length of the text.
\<close>

section \<open>Construction\<close>

record gazetteer =
  gz_ac :: "automaton option"
  gz_patternType :: "string list"
  gz_caseSensitive :: bool
  gz_covered :: "string list"

datatype gazetteer_error = AmbiguousTerm string string string | RosterError ac_error

text \<open>The state of the loop: the terms seen with their types, the terms and the types in order.\<close>

type_synonym roster = "(string, string) gomap \<times> string list \<times> string list"

fun collect_terms ::
    "case_tables \<Rightarrow> bool \<Rightarrow> int \<Rightarrow> string \<Rightarrow> string list \<Rightarrow> roster \<Rightarrow> gazetteer_error + roster" where
  "collect_terms ct caseSensitive minLen ty [] st = Inr st"
| "collect_terms ct caseSensitive minLen ty (v # vs) (seen, terms, types) =
     (let term = trim_space v in
      if int (length (runes term)) < minLen then collect_terms ct caseSensitive minLen ty vs (seen, terms, types)
      else
        let key = (if caseSensitive then term else go_lower ct term) in
        case gm_get seen key of
          Some prev \<Rightarrow>
            if prev \<noteq> ty then Inl (AmbiguousTerm term prev ty)
            else collect_terms ct caseSensitive minLen ty vs (seen, terms, types)
        | None \<Rightarrow> collect_terms ct caseSensitive minLen ty vs (gm_set key ty seen, terms @ [key], types @ [ty]))"

fun collect_types ::
    "case_tables \<Rightarrow> (string, string list) gomap \<Rightarrow> bool \<Rightarrow> int \<Rightarrow> string list \<Rightarrow> roster \<Rightarrow> gazetteer_error + roster" where
  "collect_types ct entries caseSensitive minLen [] st = Inr st"
| "collect_types ct entries caseSensitive minLen (ty # tys) st =
     (case collect_terms ct caseSensitive minLen ty (case gm_get entries ty of None \<Rightarrow> [] | Some vs \<Rightarrow> vs) st of
        Inl e \<Rightarrow> Inl e
      | Inr st \<Rightarrow> collect_types ct entries caseSensitive minLen tys st)"

text \<open>The outer None is a constructor that does not return.\<close>

definition NewGazetteerDetector ::
    "case_tables \<Rightarrow> (string, string list) gomap \<Rightarrow> bool \<Rightarrow> int \<Rightarrow> (gazetteer_error + gazetteer) option" where
  "NewGazetteerDetector ct entries caseSensitive minLen =
     (let minLen = (if minLen < 1 then 2 else minLen);
          order = sort_key bytes_key (map fst entries) in
      case collect_types ct entries caseSensitive minLen order ([], [], []) of
        Inl e \<Rightarrow> Some (Inl e)
      | Inr (seen, terms, types) \<Rightarrow>
          if terms = []
          then Some (Inr \<lparr>gz_ac = None, gz_patternType = [], gz_caseSensitive = caseSensitive, gz_covered = order\<rparr>)
          else (case NewAhoCorasick terms of
              None \<Rightarrow> None
            | Some (Inl e) \<Rightarrow> Some (Inl (RosterError e))
            | Some (Inr ac) \<Rightarrow>
                Some (Inr \<lparr>gz_ac = Some ac, gz_patternType = types, gz_caseSensitive = caseSensitive, gz_covered = order\<rparr>)))"

section \<open>Detection\<close>

definition gz_Name :: string where "gz_Name = ''gazetteer''"

definition haystack_of :: "case_tables \<Rightarrow> gazetteer \<Rightarrow> string \<Rightarrow> string" where
  "haystack_of ct d s =
     (if gz_caseSensitive d then s
      else let lowered = go_lower ct s in if length lowered = length s then lowered else s)"

definition entity_of_match :: "gazetteer \<Rightarrow> string \<Rightarrow> ac_match \<Rightarrow> entity" where
  "entity_of_match d s m =
     \<lparr>e_type = gz_patternType d ! am_Pattern m, e_value = substr s (am_Start m) (am_End m),
      e_start = am_Start m, e_end = am_End m, e_conf = 98 / 100, e_det = gz_Name\<rparr>"

definition gz_Detect :: "case_tables \<Rightarrow> gazetteer \<Rightarrow> string \<Rightarrow> entity list option" where
  "gz_Detect ct d s =
     (case gz_ac d of
        None \<Rightarrow> Some []
      | Some ac \<Rightarrow> map_option (map (entity_of_match d s)) (FindAll ac (haystack_of ct d s)))"

definition gz_CoveredTypes :: "gazetteer \<Rightarrow> string list" where
  "gz_CoveredTypes d = gz_covered d"

section \<open>The collected roster\<close>

text \<open>What a term is listed as, after trimming and folding.\<close>

definition term_key :: "case_tables \<Rightarrow> bool \<Rightarrow> string \<Rightarrow> string" where
  "term_key ct caseSensitive v = (if caseSensitive then trim_space v else go_lower ct (trim_space v))"

definition listed :: "case_tables \<Rightarrow> (string, string list) gomap \<Rightarrow> bool \<Rightarrow> int \<Rightarrow> string \<Rightarrow> string \<Rightarrow> bool" where
  "listed ct entries caseSensitive minLen ty key \<longleftrightarrow>
     (\<exists>vs v. gm_get entries ty = Some vs \<and> v \<in> set vs \<and> minLen \<le> int (length (runes (trim_space v))) \<and>
        key = term_key ct caseSensitive v)"

definition roster_ok :: "roster \<Rightarrow> bool" where
  "roster_ok st = (case st of (seen, terms, types) \<Rightarrow>
     length types = length terms \<and> distinct terms \<and>
     (\<forall>k ty. gm_get seen k = Some ty \<longleftrightarrow> (\<exists>i < length terms. terms ! i = k \<and> types ! i = ty)))"

definition roster_has :: "roster \<Rightarrow> string \<Rightarrow> string \<Rightarrow> bool" where
  "roster_has st ty k = (case st of (seen, terms, types) \<Rightarrow> \<exists>i < length terms. terms ! i = k \<and> types ! i = ty)"

lemma roster_add:
  assumes "roster_ok (seen, terms, types)" "gm_get seen key = None"
  shows "roster_ok (gm_set key ty seen, terms @ [key], types @ [ty])"
    "roster_has (gm_set key ty seen, terms @ [key], types @ [ty]) t k \<longleftrightarrow> roster_has (seen, terms, types) t k \<or> t = ty \<and> k = key"
proof -
  have l: "length types = length terms" using assms(1) by (simp add: roster_ok_def)
  have h: "(\<exists>i < length (terms @ [key]). (terms @ [key]) ! i = k \<and> (types @ [ty]) ! i = t) \<longleftrightarrow>
      (\<exists>i < length terms. terms ! i = k \<and> types ! i = t) \<or> t = ty \<and> k = key" for k t
  proof -
    have e: "(terms @ [key]) ! i = terms ! i \<and> (types @ [ty]) ! i = types ! i" if "i < length terms" for i
      using that l by (simp add: nth_append)
    have "(terms @ [key]) ! length terms = key \<and> (types @ [ty]) ! length terms = ty" using l by (metis nth_append_length)
    then show ?thesis using e unfolding length_append list.size One_nat_def add_0 add_Suc_right add_0_right less_Suc_eq by metis
  qed
  have seen: "gm_get seen k = Some t \<longleftrightarrow> (\<exists>i < length terms. terms ! i = k \<and> types ! i = t)" for k t
    using assms(1) by (simp add: roster_ok_def)
  have n: "terms ! i \<noteq> key" if "i < length terms" for i
    using seen [of key "types ! i"] assms(2) that by auto
  then have k: "key \<notin> set terms" by (auto simp: in_set_conv_nth)
  have g: "gm_get (gm_set key ty seen) k = Some t \<longleftrightarrow>
      (\<exists>i < length terms. terms ! i = k \<and> types ! i = t) \<or> t = ty \<and> k = key" for k t
    using n seen [of k t] by (auto simp: gm_get_set)
  show "roster_ok (gm_set key ty seen, terms @ [key], types @ [ty])"
    using assms(1) k g l unfolding roster_ok_def prod.case h by simp
  show "roster_has (gm_set key ty seen, terms @ [key], types @ [ty]) t k \<longleftrightarrow> roster_has (seen, terms, types) t k \<or> t = ty \<and> k = key"
    unfolding roster_has_def prod.case h ..
qed

lemma collect_terms_ok:
  "collect_terms ct cs n ty vs st = Inr st' \<Longrightarrow> roster_ok st \<Longrightarrow>
   roster_ok st' \<and> (\<forall>t k. roster_has st' t k \<longleftrightarrow> roster_has st t k \<or>
     t = ty \<and> (\<exists>v \<in> set vs. n \<le> int (length (runes (trim_space v))) \<and> k = term_key ct cs v))"
proof (induction vs arbitrary: st)
  case (Cons v vs)
  let ?key = "term_key ct cs v"
  obtain seen terms types where st: "st = (seen, terms, types)" by (cases st)
  show ?case
  proof (cases "int (length (runes (trim_space v))) < n")
    case True
    then have "collect_terms ct cs n ty vs st = Inr st'" using Cons.prems(1) st by simp
    from Cons.IH [OF this Cons.prems(2)] True show ?thesis by auto
  next
    case False
    show ?thesis
    proof (cases "gm_get seen ?key")
      case None
      then have r: "collect_terms ct cs n ty vs (gm_set ?key ty seen, terms @ [?key], types @ [ty]) = Inr st'"
        using Cons.prems(1) False st by (simp add: Let_def term_key_def)
      note add = roster_add [OF Cons.prems(2) [unfolded st] None]
      from Cons.IH [OF r add(1)] add(2) False st show ?thesis by auto
    next
      case (Some prev)
      then have ty: "prev = ty" and r: "collect_terms ct cs n ty vs st = Inr st'"
        using Cons.prems(1) False st by (auto simp: Let_def term_key_def split: if_splits)
      have "roster_has st ty ?key"
        using Cons.prems(2) Some ty st by (simp add: roster_ok_def roster_has_def)
      then show ?thesis using Cons.IH [OF r Cons.prems(2)] False by auto
    qed
  qed
qed simp

lemma collect_types_ok:
  "collect_types ct entries cs n tys st = Inr st' \<Longrightarrow> roster_ok st \<Longrightarrow>
   roster_ok st' \<and> (\<forall>t k. roster_has st' t k \<longleftrightarrow> roster_has st t k \<or> t \<in> set tys \<and> listed ct entries cs n t k)"
proof (induction tys arbitrary: st)
  case (Cons ty tys)
  let ?vs = "case gm_get entries ty of None \<Rightarrow> [] | Some vs \<Rightarrow> vs"
  obtain st1 where st1: "collect_terms ct cs n ty ?vs st = Inr st1" "collect_types ct entries cs n tys st1 = Inr st'"
    using Cons.prems(1) by (auto split: sum.splits)
  note one = collect_terms_ok [OF st1(1) Cons.prems(2)]
  have "(\<exists>v \<in> set ?vs. n \<le> int (length (runes (trim_space v))) \<and> k = term_key ct cs v) \<longleftrightarrow> listed ct entries cs n ty k" for k
    by (cases "gm_get entries ty") (auto simp: listed_def)
  then show ?case using Cons.IH [OF st1(2)] one by auto
qed simp

lemma runes_nonempty: "1 \<le> int (length (runes s)) \<Longrightarrow> s \<noteq> []"
  by auto

text \<open>The terms of a roster are distinct; they are not empty when folding keeps a term that is not.\<close>

lemma go_lower_nonempty: "s \<noteq> [] \<Longrightarrow> go_lower ct s \<noteq> []"
proof -
  assume "s \<noteq> []"
  then have "runes s \<noteq> []" by (simp add: runes_def range_runes_def range_from.simps [of 0 s])
  then show ?thesis by (cases "runes s") (auto simp: go_lower_def)
qed

lemma listed_nonempty: "listed ct entries cs n ty k \<Longrightarrow> 1 \<le> n \<Longrightarrow> k \<noteq> []"
proof -
  assume "listed ct entries cs n ty k" "1 \<le> n"
  then obtain v where v: "k = term_key ct cs v" "1 \<le> int (length (runes (trim_space v)))"
    unfolding listed_def by fastforce
  from runes_nonempty [OF v(2)] show "k \<noteq> []" using v(1) go_lower_nonempty by (simp add: term_key_def)
qed

text \<open>What a constructed detector holds.\<close>

definition min_len :: "int \<Rightarrow> int" where
  "min_len n = (if n < 1 then 2 else n)"

lemma min_len_pos: "1 \<le> min_len n"
  by (simp add: min_len_def)

lemma roster_has_nth: "roster_has (seen, terms, types) t k \<longleftrightarrow> (\<exists>i < length terms. terms ! i = k \<and> types ! i = t)"
  by (simp add: roster_has_def)

lemma listed_type: "listed ct entries cs n t k \<Longrightarrow> t \<in> set (sort_key bytes_key (map fst entries))"
  by (force simp: listed_def dest: map_of_SomeD)

lemma gazetteer_built:
  assumes "NewGazetteerDetector ct entries cs n = Some (Inr d)"
  shows "gz_caseSensitive d = cs \<and>
    (\<exists>terms. length (gz_patternType d) = length terms \<and> distinct terms \<and>
      (\<forall>t k. (\<exists>i < length terms. terms ! i = k \<and> gz_patternType d ! i = t) \<longleftrightarrow> listed ct entries cs (min_len n) t k) \<and>
      (case gz_ac d of None \<Rightarrow> terms = [] | Some ac \<Rightarrow> NewAhoCorasick terms = Some (Inr ac)))"
proof -
  let ?tys = "sort_key bytes_key (map fst entries)"
  obtain st where c: "collect_types ct entries cs (min_len n) ?tys ([], [], []) = Inr st"
    using assms by (auto simp: NewGazetteerDetector_def Let_def min_len_def split: sum.splits)
  obtain seen terms types where st: "st = (seen, terms, types)" by (cases st)
  have "roster_ok ([], [], [])" by (simp add: roster_ok_def)
  note ok = collect_types_ok [OF c this, unfolded st]
  have l: "(\<exists>i < length terms. terms ! i = k \<and> types ! i = t) \<longleftrightarrow> listed ct entries cs (min_len n) t k" for t k
    using ok listed_type [of ct entries cs "min_len n" t k] by (auto simp: roster_has_nth)
  have d: "length types = length terms" "distinct terms" using ok by (simp_all add: roster_ok_def)
  show ?thesis
  proof (cases "terms = []")
    case True
    then show ?thesis using assms c st l d
      by (intro conjI exI [of _ "[]"]) (auto simp: NewGazetteerDetector_def Let_def min_len_def)
  next
    case False
    then obtain ac where "NewAhoCorasick terms = Some (Inr ac)"
      "d = \<lparr>gz_ac = Some ac, gz_patternType = types, gz_caseSensitive = cs, gz_covered = ?tys\<rparr>"
      using assms c st by (auto simp: NewGazetteerDetector_def Let_def min_len_def split: option.splits sum.splits)
    then show ?thesis using l d by (intro conjI exI [of _ terms]) auto
  qed
qed

text \<open>The only error of the constructor is a term under two types.\<close>

lemma collect_terms_error:
  "collect_terms ct cs n ty vs st = Inl e \<Longrightarrow> roster_ok st \<Longrightarrow>
   \<exists>term prev v. e = AmbiguousTerm term prev ty \<and> prev \<noteq> ty \<and> v \<in> set vs \<and>
     n \<le> int (length (runes (trim_space v))) \<and> roster_has st prev (term_key ct cs v)"
proof (induction vs arbitrary: st)
  case (Cons v vs)
  let ?key = "term_key ct cs v"
  obtain seen terms types where st: "st = (seen, terms, types)" by (cases st)
  show ?case
  proof (cases "int (length (runes (trim_space v))) < n")
    case True
    then have "collect_terms ct cs n ty vs st = Inl e" using Cons.prems(1) st by simp
    from Cons.IH [OF this Cons.prems(2)] show ?thesis by auto
  next
    case False
    show ?thesis
    proof (cases "gm_get seen ?key")
      case None
      then have r: "collect_terms ct cs n ty vs (gm_set ?key ty seen, terms @ [?key], types @ [ty]) = Inl e"
        using Cons.prems(1) False st by (simp add: Let_def term_key_def)
      note add = roster_add [OF Cons.prems(2) [unfolded st] None]
      from Cons.IH [OF r add(1)] add(2) st show ?thesis by auto
    next
      case (Some prev)
      show ?thesis
      proof (cases "prev = ty")
        case True
        then have "collect_terms ct cs n ty vs st = Inl e"
          using Cons.prems(1) False st Some by (simp add: Let_def term_key_def)
        from Cons.IH [OF this Cons.prems(2)] show ?thesis by auto
      next
        case ne: False
        then have "e = AmbiguousTerm (trim_space v) prev ty"
          using Cons.prems(1) False st Some by (simp add: Let_def term_key_def)
        moreover have "roster_has st prev ?key" using Cons.prems(2) Some st by (simp add: roster_ok_def roster_has_def)
        ultimately show ?thesis using ne False by auto
      qed
    qed
  qed
qed simp

lemma collect_types_error:
  "collect_types ct entries cs n tys st = Inl e \<Longrightarrow> roster_ok st \<Longrightarrow>
   (\<forall>t k. roster_has st t k \<longrightarrow> listed ct entries cs n t k) \<Longrightarrow>
   (\<exists>term t t'. e = AmbiguousTerm term t t') \<and>
   (\<exists>t t' k. t \<noteq> t' \<and> listed ct entries cs n t k \<and> listed ct entries cs n t' k)"
proof (induction tys arbitrary: st)
  case (Cons ty tys)
  let ?vs = "case gm_get entries ty of None \<Rightarrow> [] | Some vs \<Rightarrow> vs"
  have L: "listed ct entries cs n ty (term_key ct cs v)" if "v \<in> set ?vs" "n \<le> int (length (runes (trim_space v)))" for v
    using that by (cases "gm_get entries ty") (auto simp: listed_def)
  show ?case
  proof (cases "collect_terms ct cs n ty ?vs st")
    case (Inl e')
    then have e: "e' = e" using Cons.prems(1) by simp
    from collect_terms_error [OF Inl Cons.prems(2)] Cons.prems(3) L show ?thesis unfolding e by blast
  next
    case (Inr st1)
    note one = collect_terms_ok [OF Inr Cons.prems(2)]
    have "\<forall>t k. roster_has st1 t k \<longrightarrow> listed ct entries cs n t k" using one Cons.prems(3) L by blast
    from Cons.IH [OF _ _ this] one Cons.prems(1) Inr show ?thesis by simp
  qed
qed simp

lemma gz_total:
  "\<exists>r. NewGazetteerDetector ct entries cs n = Some r \<and> (\<forall>e. r \<noteq> Inl (RosterError e)) \<and>
    (is_ok r \<longleftrightarrow> (\<forall>t t' k. listed ct entries cs (min_len n) t k \<and> listed ct entries cs (min_len n) t' k \<longrightarrow> t = t'))"
proof -
  let ?tys = "sort_key bytes_key (map fst entries)"
  have ok0: "roster_ok ([], [], [])" by (simp add: roster_ok_def)
  have none: "\<forall>t k. \<not> roster_has ([], [], []) t k" by (simp add: roster_has_def)
  show ?thesis
  proof (cases "collect_types ct entries cs (min_len n) ?tys ([], [], [])")
    case (Inl e)
    from collect_types_error [OF Inl ok0] none
    obtain tm t t' where e: "e = AmbiguousTerm tm t t'"
      and "\<exists>t t' k. t \<noteq> t' \<and> listed ct entries cs (min_len n) t k \<and> listed ct entries cs (min_len n) t' k" by blast
    moreover have "NewGazetteerDetector ct entries cs n = Some (Inl e)"
      using Inl by (simp add: NewGazetteerDetector_def Let_def min_len_def)
    ultimately show ?thesis by (intro exI [of _ "Inl e"]) auto
  next
    case (Inr st)
    obtain seen terms types where st: "st = (seen, terms, types)" by (cases st)
    note ok = collect_types_ok [OF Inr ok0, unfolded st]
    have has: "roster_has (seen, terms, types) t k \<longleftrightarrow> listed ct entries cs (min_len n) t k" for t k
      using ok none listed_type [of ct entries cs "min_len n" t k] by auto
    have u: "gm_get seen k = Some t \<longleftrightarrow> listed ct entries cs (min_len n) t k" for t k
      using ok has [of t k] by (simp add: roster_ok_def roster_has_def)
    have uniq: "\<forall>t t' k. listed ct entries cs (min_len n) t k \<and> listed ct entries cs (min_len n) t' k \<longrightarrow> t = t'"
      unfolding u [symmetric] by auto
    have ne: "[] \<notin> set terms"
    proof
      assume "[] \<in> set terms"
      then obtain i where "i < length terms" "terms ! i = []" by (auto simp: in_set_conv_nth)
      then have "roster_has (seen, terms, types) (types ! i) []" by (auto simp: roster_has_def)
      then show False using has listed_nonempty [OF _ min_len_pos] by blast
    qed
    have d: "distinct terms" using ok by (simp add: roster_ok_def)
    show ?thesis
    proof (cases "terms = []")
      case True
      then have "\<exists>g. NewGazetteerDetector ct entries cs n = Some (Inr g)"
        using Inr st by (simp add: NewGazetteerDetector_def Let_def min_len_def)
      then show ?thesis using uniq by auto
    next
      case False
      then obtain ac where "NewAhoCorasick terms = Some (Inr ac)" using ac_total [of terms] ne d by (auto simp: is_ok_iff)
      then have "\<exists>g. NewGazetteerDetector ct entries cs n = Some (Inr g)"
        using Inr st False by (simp add: NewGazetteerDetector_def Let_def min_len_def)
      then show ?thesis using uniq by auto
    qed
  qed
qed

text \<open>The constructor of the roster detector always returns, never fails to build its automaton,
  and refuses exactly the rosters in which one term, trimmed and folded, stands under two
  entity types.\<close>

theorem NewGazetteerDetector_decides:
  "\<exists>r. NewGazetteerDetector ct entries cs n = Some r \<and> (\<forall>e. r \<noteq> Inl (RosterError e)) \<and>
    (is_ok r \<longleftrightarrow> (\<forall>t t' k. listed ct entries cs (min_len n) t k \<and> listed ct entries cs (min_len n) t' k \<longrightarrow> t = t'))"
  by (rule gz_total)

section \<open>What is detected\<close>

lemma haystack_length: "length (haystack_of ct d s) = length s"
  by (simp add: haystack_of_def Let_def)

lemma gz_Detect_entities:
  assumes "NewGazetteerDetector ct entries cs n = Some (Inr d)"
  shows "\<exists>es. gz_Detect ct d s = Some es \<and>
    (\<forall>e. e \<in> set es \<longleftrightarrow> (\<exists>t k x y. listed ct entries cs (min_len n) t k \<and> haystack_of ct d s = x @ k @ y \<and>
       e = \<lparr>e_type = t, e_value = substr s (int (length x)) (int (length x + length k)), e_start = int (length x),
         e_end = int (length x + length k), e_conf = 98 / 100, e_det = gz_Name\<rparr>))"
proof -
  let ?h = "haystack_of ct d s"
  obtain terms where t: "length (gz_patternType d) = length terms" "distinct terms"
    "\<And>t k. (\<exists>i < length terms. terms ! i = k \<and> gz_patternType d ! i = t) \<longleftrightarrow> listed ct entries cs (min_len n) t k"
    "case gz_ac d of None \<Rightarrow> terms = [] | Some ac \<Rightarrow> NewAhoCorasick terms = Some (Inr ac)"
    using gazetteer_built [OF assms] by blast
  show ?thesis
  proof (cases "gz_ac d")
    case None
    then have "\<not> listed ct entries cs (min_len n) t' k" for t' k using t(3) [of k t'] t(4) by simp
    then show ?thesis using None by (simp add: gz_Detect_def)
  next
    case (Some ac)
    then have ac: "NewAhoCorasick terms = Some (Inr ac)" using t(4) by simp
    obtain ms where ms: "FindAll ac ?h = Some ms" "set ms = {m. occurs terms ?h m}" using FindAll_matches [OF ac] by blast
    let ?E = "\<lambda>t k x. \<lparr>e_type = t, e_value = substr s (int (length x)) (int (length x + length k)), e_start = int (length x),
         e_end = int (length x + length k), e_conf = 98 / 100, e_det = gz_Name\<rparr>"
    have em: "entity_of_match d s (match_of terms (int (length x + length (terms ! i))) i) = ?E (gz_patternType d ! i) (terms ! i) x" for i x
      by (simp add: entity_of_match_def match_of_def)
    have "e \<in> set (map (entity_of_match d s) ms) \<longleftrightarrow>
        (\<exists>t k x y. listed ct entries cs (min_len n) t k \<and> ?h = x @ k @ y \<and> e = ?E t k x)" (is "?l \<longleftrightarrow> ?r") for e
    proof
      assume ?l
      then obtain m where m: "m \<in> set ms" "e = entity_of_match d s m" by auto
      obtain i x y where i: "i < length terms" "?h = x @ terms ! i @ y" "m = match_of terms (int (length x + length (terms ! i))) i"
        using m(1) unfolding ms(2) mem_Collect_eq occurs_def by blast
      have "e = ?E (gz_patternType d ! i) (terms ! i) x" unfolding m(2) i(3) by (rule em)
      moreover have "listed ct entries cs (min_len n) (gz_patternType d ! i) (terms ! i)" using t(3) i(1) by blast
      ultimately show ?r using i(2) by blast
    next
      assume ?r
      then obtain t' k x y where r: "listed ct entries cs (min_len n) t' k" "?h = x @ k @ y" "e = ?E t' k x" by blast
      then obtain i where i: "i < length terms" "terms ! i = k" "gz_patternType d ! i = t'" using t(3) by blast
      have "match_of terms (int (length x + length (terms ! i))) i \<in> set ms"
        unfolding ms(2) mem_Collect_eq occurs_def using i r(2) by blast
      then show ?l using em [of x i] i r(3) by force
    qed
    then show ?thesis using Some ms(1) by (simp add: gz_Detect_def)
  qed
qed

text \<open>
  C25: The roster detector reports exactly the occurrences of the listed terms in the text it
  searches, each with the type the term is listed under, with confidence 0.98 and with the bytes
  of the original text at that place.
\<close>

theorem gazetteer_exact:
  assumes "NewGazetteerDetector ct entries cs n = Some (Inr d)"
  shows "\<exists>es. gz_Detect ct d s = Some es \<and>
    (\<forall>e. e \<in> set es \<longleftrightarrow> (\<exists>t k x y. listed ct entries cs (min_len n) t k \<and> haystack_of ct d s = x @ k @ y \<and>
       e = \<lparr>e_type = t, e_value = substr s (int (length x)) (int (length x + length k)), e_start = int (length x),
         e_end = int (length x + length k), e_conf = 98 / 100, e_det = gz_Name\<rparr>))"
  by (rule gz_Detect_entities [OF assms])

lemma bob_listed:
  assumes "min_len n \<le> 3"
  shows "listed ct [(''NAME'', [''bob''])] cs (min_len n) t k \<longleftrightarrow> t = ''NAME'' \<and> k = ''bob''"
proof -
  have t: "trim_space ''bob'' = ''bob''" by code_simp
  have a: "ascii ''bob''" by (simp add: ascii_def byte_def)
  have r: "length (runes ''bob'') = 3"
    by (simp add: runes_ascii_Cons byte_def)
  have l: "go_lower ct ''bob'' = ''bob''"
    unfolding go_lower_ascii [OF a] by (simp add: lower1_def is_upper_def in_range_def byte_def)
  show ?thesis using assms by (auto simp: listed_def term_key_def t r l)
qed

lemma bob_detector: "min_len n \<le> 3 \<Longrightarrow> \<exists>d. NewGazetteerDetector ct [(''NAME'', [''bob''])] cs n = Some (Inr d)"
  using gz_total [of ct "[(''NAME'', [''bob''])]" cs n] by (auto simp: bob_listed is_ok_iff)

theorem gazetteer_exact_witness:
  "\<exists>d es. NewGazetteerDetector \<lparr>ct_upper = (\<lambda>r. r), ct_lower = (\<lambda>r. r)\<rparr> [(''NAME'', [''bob''])] True 2 = Some (Inr d) \<and> gz_Detect \<lparr>ct_upper = (\<lambda>r. r), ct_lower = (\<lambda>r. r)\<rparr> d ''hi bob'' = Some es \<and>
     \<lparr>e_type = ''NAME'', e_value = ''bob'', e_start = 3, e_end = 6, e_conf = 98 / 100, e_det = gz_Name\<rparr> \<in> set es"
proof -
  let ?ct = "\<lparr>ct_upper = (\<lambda>r. r), ct_lower = (\<lambda>r. r)\<rparr>"
  have n: "min_len 2 \<le> 3" by (simp add: min_len_def)
  obtain d where d: "NewGazetteerDetector ?ct [(''NAME'', [''bob''])] True 2 = Some (Inr d)" using bob_detector [OF n] by blast
  obtain es where es: "gz_Detect ?ct d ''hi bob'' = Some es"
    "\<And>e. e \<in> set es \<longleftrightarrow> (\<exists>t k x y. listed ?ct [(''NAME'', [''bob''])] True (min_len 2) t k \<and> haystack_of ?ct d ''hi bob'' = x @ k @ y \<and>
       e = \<lparr>e_type = t, e_value = substr ''hi bob'' (int (length x)) (int (length x + length k)), e_start = int (length x),
         e_end = int (length x + length k), e_conf = 98 / 100, e_det = gz_Name\<rparr>)"
    using gazetteer_exact [OF d] by blast
  have h: "haystack_of ?ct d ''hi bob'' = ''hi bob''" using gazetteer_built [OF d] by (simp add: haystack_of_def)
  have "\<lparr>e_type = ''NAME'', e_value = ''bob'', e_start = 3, e_end = 6, e_conf = 98 / 100, e_det = gz_Name\<rparr> \<in> set es"
    unfolding es(2) h bob_listed [OF n]
    by (intro exI [of _ "''NAME''"] exI [of _ "''bob''"] exI [of _ "''hi ''"] exI [of _ "[]"]) (simp add: substr_def)
  then show ?thesis using d es(1) by blast
qed

section \<open>Letters that change their length\<close>

lemma go_lower_encode: "valid_rune r \<Longrightarrow> go_lower ct (encode_rune r @ s) = encode_rune (lower_rune ct r) @ go_lower ct s"
  using range_from_shift [of "length (encode_rune r)" s 0]
  by (simp add: go_lower_def runes_def range_runes_def range_from_cons)

text \<open>Comparing the lengths does not keep the offsets aligned: in a text in which one letter
  becomes a byte shorter and another a byte longer in lower case, a listed name between them is
  reported one byte too early, with half a character in front and without its last letter.\<close>

theorem gazetteer_misaligned:
  assumes "ct_lower ct 304 = 105" "ct_lower ct 570 = 11365"
  shows "\<exists>d es. NewGazetteerDetector ct [(''NAME'', [''bob''])] False 2 = Some (Inr d) \<and>
    gz_Detect ct d (encode_rune 304 @ ''bob'' @ encode_rune 570) = Some es \<and> es \<noteq> [] \<and>
    (\<forall>e \<in> set es. e_start e = 1 \<and> e_end e = 4 \<and> e_value e = byte_char 176 # ''bo'')"
proof -
  let ?s = "encode_rune 304 @ ''bob'' @ encode_rune 570"
  have n: "min_len 2 \<le> 3" by (simp add: min_len_def)
  obtain d where d: "NewGazetteerDetector ct [(''NAME'', [''bob''])] False 2 = Some (Inr d)" using bob_detector [OF n] by blast
  have enc: "encode_rune 304 = [byte_char 196, byte_char 176]" "encode_rune 570 = [byte_char 200, byte_char 186]"
    "encode_rune 105 = [byte_char 105]" "encode_rune 11365 = [byte_char 226, byte_char 177, byte_char 165]"
    by (simp_all add: encode_rune_def valid_rune_def)
  have i: "byte_char 105 = CHR ''i''" "byte_char 98 = CHR ''b''" "byte_char 111 = CHR ''o''" by code_simp+
  have v: "valid_rune 304" "valid_rune 570" by (simp_all add: valid_rune_def)
  have lr: "lower_rune ct 304 = 105" "lower_rune ct 570 = 11365" using assms by (simp_all add: lower_rune_def)
  have b: "''bob'' @ u = encode_rune 98 @ encode_rune 111 @ encode_rune 98 @ u" for u
    using i by (simp add: encode_rune_def valid_rune_def)
  have lb: "go_lower ct (''bob'' @ u) = ''bob'' @ go_lower ct u" for u
    unfolding b by (simp add: go_lower_encode valid_rune_def lower_rune_def)
  have "go_lower ct ?s = encode_rune 105 @ ''bob'' @ encode_rune 11365 @ go_lower ct []"
    unfolding go_lower_encode [OF v(1)] lb lr(1) using go_lower_encode [OF v(2), of ct "[]"] lr(2) by simp
  also have "go_lower ct [] = []" by (simp add: go_lower_def)
  finally have low: "go_lower ct ?s = ''ibob'' @ encode_rune 11365" using enc(3) i by simp
  have "gz_caseSensitive d = False" using gazetteer_built [OF d] by simp
  then have h: "haystack_of ct d ?s = ''ibob'' @ [byte_char 226, byte_char 177, byte_char 165]"
    using low by (simp add: haystack_of_def enc)
  obtain es where es: "gz_Detect ct d ?s = Some es"
    "\<And>e. e \<in> set es \<longleftrightarrow> (\<exists>t k x y. listed ct [(''NAME'', [''bob''])] False (min_len 2) t k \<and> haystack_of ct d ?s = x @ k @ y \<and>
       e = \<lparr>e_type = t, e_value = substr ?s (int (length x)) (int (length x + length k)), e_start = int (length x),
         e_end = int (length x + length k), e_conf = 98 / 100, e_det = gz_Name\<rparr>)"
    using gz_Detect_entities [OF d, of ?s] by blast
  have nb: "byte_char 226 \<noteq> CHR ''b''" "byte_char 177 \<noteq> CHR ''b''" "byte_char 165 \<noteq> CHR ''b''"
    by (simp_all add: byte_inj [symmetric] byte_def byte_char_def)
  have pos: "x = ''i''" if "''ibob'' @ [byte_char 226, byte_char 177, byte_char 165] = x @ ''bob'' @ y" for x y
    using that nb by (auto simp: Cons_eq_append_conv append_eq_Cons_conv)
  have one: "e_start e = 1 \<and> e_end e = 4 \<and> e_value e = byte_char 176 # ''bo''" if "e \<in> set es" for e
  proof -
    have "\<exists>x y. ''ibob'' @ [byte_char 226, byte_char 177, byte_char 165] = x @ ''bob'' @ y \<and>
      e_value e = substr ?s (int (length x)) (int (length x + 3)) \<and> e_start e = int (length x) \<and> e_end e = int (length x + 3)"
      using that unfolding es(2) h bob_listed [OF n] by auto
    then obtain x y where x: "''ibob'' @ [byte_char 226, byte_char 177, byte_char 165] = x @ ''bob'' @ y"
      "e_value e = substr ?s (int (length x)) (int (length x + 3)) \<and> e_start e = int (length x) \<and> e_end e = int (length x + 3)"
      by blast
    show ?thesis using x(2) unfolding pos [OF x(1)] by (simp add: substr_def enc)
  qed
  have "\<exists>e. e \<in> set es"
    unfolding es(2) h bob_listed [OF n] by (metis append_Cons append_Nil append_assoc)
  then have "es \<noteq> []" by auto
  then show ?thesis using d es(1) one by blast
qed

theorem gazetteer_misaligned_witness:
  "\<exists>d es. NewGazetteerDetector \<lparr>ct_upper = (\<lambda>r. r), ct_lower = (\<lambda>r. if r = 304 then 105 else if r = 570 then 11365 else r)\<rparr>
       [(''NAME'', [''bob''])] False 2 = Some (Inr d) \<and>
     gz_Detect \<lparr>ct_upper = (\<lambda>r. r), ct_lower = (\<lambda>r. if r = 304 then 105 else if r = 570 then 11365 else r)\<rparr>
       d (encode_rune 304 @ ''bob'' @ encode_rune 570) = Some es \<and> es \<noteq> []"
  using gazetteer_misaligned [of "\<lparr>ct_upper = (\<lambda>r. r), ct_lower = (\<lambda>r. if r = 304 then 105 else if r = 570 then 11365 else r)\<rparr>"]
  by auto

end
