(* ===== verification/RegexFacts.thy ===== *)
theory RegexFacts imports GoRegexp begin

text \<open>
  Facts about every pattern of the matcher: outcomes consume a prefix of the text, matches are
  listed in order and apart, what a match is bound to contain, and when it can be empty.
\<close>

section \<open>Matches are stretches of the text\<close>

definition advances :: "mstate \<Rightarrow> mstate \<Rightarrow> string \<Rightarrow> bool" where
  "advances s t w \<longleftrightarrow> fst s = w @ fst t \<and> fst (snd t) = fst (snd s) + length w"

lemma advances_refl: "advances s s []"
  by (simp add: advances_def)

lemma advances_trans: "advances s t v \<Longrightarrow> advances t u w \<Longrightarrow> advances s u (v @ w)"
  by (simp add: advances_def)

lemma step_rune_advances:
  assumes "t \<in> set (step_rune P s)"
  shows "\<exists>c w. advances s t (c # w) \<and> P (fst (decode_rune (fst s))) \<and> c = hd (fst s)"
proof (cases s)
  case (fields x p g)
  then obtain c y where x: "x = c # y" using assms by (cases x) simp_all
  obtain r n where d: "decode_rune (c # y) = (r, n)" by (cases "decode_rune (c # y)")
  have n: "0 < n" "n \<le> length (c # y)"
    using rune_width_pos [of "c # y"] rune_width_le [of "c # y"] d by (simp_all add: rune_width_def)
  then obtain k where k: "n = Suc k" by (cases n) simp_all
  have "P r" "t = (drop n (c # y), p + n, g)"
    using assms d unfolding fields x step_rune.simps by (simp_all del: decode_rune.simps split: if_splits)
  then show ?thesis using n d unfolding fields x advances_def k
    by (intro exI [of _ c] exI [of _ "take k y"]) (simp del: decode_rune.simps)
qed

lemma star_iter_advances:
  assumes "\<And>s t. t \<in> set (f s) \<Longrightarrow> \<exists>w. advances s t w"
    and "t \<in> set (star_iter greedy f n s)"
  shows "\<exists>w. advances s t w"
  using assms(2)
proof (induction n arbitrary: s)
  case 0
  then have "t = s" by simp
  then show ?case using advances_refl by blast
next
  case (Suc n)
  have "t = s \<or> (\<exists>u. u \<in> set (f s) \<and> t \<in> set (star_iter greedy f n u))"
    using Suc.prems by (auto simp: Let_def split: if_splits)
  then show ?case using Suc.IH assms(1) advances_refl advances_trans by blast
qed

lemma rm_advances: "t \<in> set (rm e s) \<Longrightarrow> \<exists>w. advances s t w"
proof (induction e arbitrary: s t)
  case (Seq a b)
  then obtain u where "u \<in> set (rm a s)" "t \<in> set (rm b u)" by auto
  then show ?case using Seq.IH advances_trans by blast
next
  case (Star greedy a)
  then show ?case using star_iter_advances [of "rm a"] by simp
next
  case (Grp n a)
  then obtain u where "u \<in> set (rm a s)" "fst t = fst u" "fst (snd t) = fst (snd u)" by auto
  then show ?case using Grp.IH [of u s] by (auto simp: advances_def)
qed (use advances_refl in \<open>auto split: if_splits dest: step_rune_advances\<close>)

lemma match_at_spec:
  assumes "match_at e s p = Some (t, a, b, g)"
  shows "a = p \<and> (\<exists>w. s = w @ t \<and> b = p + length w) \<and> (t, b, g) \<in> set (rm e (s, p, []))"
proof -
  obtain ys where y: "rm e (s, p, []) = (t, b, g) # ys" and a: "a = p"
    using assms by (auto simp: match_at_def split: list.splits)
  then have "(t, b, g) \<in> set (rm e (s, p, []))" by simp
  from rm_advances [OF this] this a show ?thesis by (auto simp: advances_def)
qed

text \<open>What a match at \<open>p\<close> in \<open>s\<close> is.\<close>

definition is_match :: "re \<Rightarrow> string \<Rightarrow> nat \<Rightarrow> re_match \<Rightarrow> bool" where
  "is_match e s p m \<longleftrightarrow> (\<exists>x w t. s = x @ w @ t \<and> fst m = p + length x \<and> fst (snd m) = fst m + length w \<and>
     (t, snd m) \<in> set (rm e (w @ t, fst m, [])))"

lemma is_match_shift: "is_match e s (p + length y) m \<Longrightarrow> is_match e (y @ s) p m"
  unfolding is_match_def by (elim exE, rule_tac x = "y @ x" in exI, rule_tac x = w in exI, rule_tac x = t in exI) auto

lemma is_match_drop: "is_match e (drop n s) (p + n) m \<Longrightarrow> n \<le> length s \<Longrightarrow> is_match e s p m"
  using is_match_shift [of e "drop n s" p "take n s" m] by (simp add: min_absorb2)

lemma is_match_bounds: "is_match e s p m \<Longrightarrow> p \<le> fst m \<and> fst m \<le> fst (snd m) \<and> fst (snd m) \<le> p + length s"
  unfolding is_match_def by auto

lemma find_first_spec:
  assumes "find_first e s p = Some (t, m)"
  shows "is_match e s p m \<and> fst (snd m) + length t = p + length s \<and> (\<exists>x. s = x @ t)"
  using assms
proof (induction e s p rule: find_first.induct)
  case (1 e s p)
  show ?case
  proof (cases "match_at e s p")
    case None
    then have s: "s \<noteq> []" and f: "find_first e (drop (rune_width s) s) (p + rune_width s) = Some (t, m)"
      using 1(2) by (auto simp: find_first.simps [of e s p] split: if_splits)
    have le: "rune_width s \<le> length s" by (rule rune_width_le)
    note ih = 1(1) [OF None s f]
    have "is_match e s p m" using ih le is_match_drop by blast
    moreover obtain x where "drop (rune_width s) s = x @ t" using ih by blast
    then have "s = (take (rune_width s) s @ x) @ t" by (metis append_assoc append_take_drop_id)
    ultimately show ?thesis using ih le by (intro conjI exI [of _ "take (rune_width s) s @ x"]) simp_all
  next
    case (Some r)
    then have m: "match_at e s p = Some (t, m)" using 1(2) by (simp add: find_first.simps [of e s p])
    obtain a b g where mm: "m = (a, b, g)" by (cases m)
    from match_at_spec [OF m [unfolded mm]] obtain w where "a = p" "s = w @ t" "b = p + length w" "(t, b, g) \<in> set (rm e (s, p, []))"
      by blast
    then show ?thesis unfolding is_match_def mm by (auto intro: exI [of _ "[]"] exI [of _ w] exI [of _ t])
  qed
qed

lemma find_all_spec:
  "(\<forall>m \<in> set (find_all e s p prev). is_match e s p m) \<and>
   sorted_wrt (\<lambda>m m'. fst (snd m) \<le> fst m') (find_all e s p prev)"
proof (induction e s p prev rule: find_all.induct)
  case (1 e s p prev)
  show ?case
  proof (cases "find_first e s p")
    case None
    then show ?thesis by (simp add: find_all.simps [of e s])
  next
    case (Some r)
    obtain t a b g where r: "r = (t, a, b, g)" by (cases r)
    note f = find_first_spec [OF Some [unfolded r]]
    have m: "is_match e s p (a, b, g)" and b: "b + length t = p + length s" using f by simp_all
    obtain x where x: "s = x @ t" using f by blast
    show ?thesis
    proof (cases "length t < length s")
      case True
      have bx: "b = p + length x" using b x by simp
      have ih: "(\<forall>m \<in> set (find_all e t b (Some b)). is_match e t b m) \<and>
          sorted_wrt (\<lambda>m m'. fst (snd m) \<le> fst m') (find_all e t b (Some b))"
        using 1(1) [OF Some r [symmetric] refl refl True] .
      have "is_match e s p m'" if "is_match e t b m'" for m'
        using is_match_shift [of e t p x m'] that unfolding bx x by simp
      then show ?thesis using ih m True Some r is_match_bounds by (fastforce simp: find_all.simps [of e s])
    next
      case False
      then have z: "x = []" "b = p" using x b by simp_all
      show ?thesis
      proof (cases "s = []")
        case True
        then show ?thesis using m False Some [unfolded r] by (auto simp: find_all.simps [of e "[]"])
      next
        case ne: False
        note ih = 1(2) [OF Some r [symmetric] refl refl False ne]
        have lift: "is_match e s p m'" if "is_match e (drop (rune_width s) s) (p + rune_width s) m'" for m'
          using is_match_drop [OF that rune_width_le] .
        have le: "b \<le> fst m'" if "is_match e (drop (rune_width s) s) (p + rune_width s) m'" for m'
          using is_match_bounds [OF that] z by simp
        show ?thesis using ih lift le m False Some r ne by (auto simp: find_all.simps [of e s])
      qed
    qed
  qed
qed

lemma find_all_string_spec:
  "m \<in> set (find_all_string e s) \<Longrightarrow> is_match e s 0 m"
  "sorted_wrt (\<lambda>m m'. fst (snd m) \<le> fst m') (find_all_string e s)"
  using find_all_spec [of e s 0 None] by (simp_all add: find_all_string_def)

section \<open>What a match contains\<close>

text \<open>
  A pattern is bound to consume a byte with the property \<open>P\<close> when every way through it passes
  a class whose characters all begin with such a byte; \<open>C\<close> recognises those classes.
\<close>

fun must :: "((nat \<times> nat) list \<Rightarrow> bool) \<Rightarrow> re \<Rightarrow> bool" where
  "must C (Cls rs) = C rs"
| "must C (Seq a b) = (must C a \<or> must C b)"
| "must C (Alt a b) = (must C a \<and> must C b)"
| "must C (Grp n a) = must C a"
| "must C e = False"

definition leads :: "(char \<Rightarrow> bool) \<Rightarrow> (nat \<times> nat) list \<Rightarrow> bool" where
  "leads P rs \<longleftrightarrow> (\<forall>c s. in_ranges rs (fst (decode_rune (c # s))) \<longrightarrow> P c)"

lemma must_consumes:
  assumes "\<And>rs. C rs \<Longrightarrow> leads P rs"
  shows "must C e \<Longrightarrow> t \<in> set (rm e s) \<Longrightarrow> \<exists>w. advances s t w \<and> (\<exists>c \<in> set w. P c)"
proof (induction e arbitrary: s t)
  case (Cls rs)
  have t: "t \<in> set (step_rune (in_ranges rs) s)" using Cls by simp
  from step_rune_advances [OF this] obtain c w where
    "advances s t (c # w)" "in_ranges rs (fst (decode_rune (fst s)))" "c = hd (fst s)" by blast
  moreover have "leads P rs" using Cls(1) by (simp add: assms)
  moreover have "fst s = c # tl (fst s)" using \<open>advances s t (c # w)\<close> by (auto simp: advances_def)
  ultimately have "P c" unfolding leads_def by metis
  then show ?case using \<open>advances s t (c # w)\<close> by auto
next
  case (Seq a b)
  obtain u where u: "u \<in> set (rm a s)" "t \<in> set (rm b u)" using Seq.prems(2) by auto
  obtain v where v: "advances s u v" using rm_advances [OF u(1)] by blast
  obtain w where w: "advances u t w" using rm_advances [OF u(2)] by blast
  show ?case
  proof (cases "must C a")
    case True
    from Seq.IH(1) [OF True u(1)] obtain v where v: "advances s u v" "\<exists>c \<in> set v. P c" by blast
    from advances_trans [OF v(1) w] v(2) show ?thesis by (intro exI [of _ "v @ w"]) auto
  next
    case False
    then obtain w where w: "advances u t w" "\<exists>c \<in> set w. P c" using Seq.IH(2) [OF _ u(2)] Seq.prems(1) by auto
    from advances_trans [OF v w(1)] w(2) show ?thesis by (intro exI [of _ "v @ w"]) auto
  qed
next
  case (Grp n a)
  then obtain u where u: "u \<in> set (rm a s)" "fst t = fst u" "fst (snd t) = fst (snd u)" by auto
  then show ?case using Grp.IH [OF _ u(1)] Grp.prems(1) by (auto simp: advances_def)
qed auto

lemma must_match:
  assumes "\<And>rs. C rs \<Longrightarrow> leads P rs" "must C e" "is_match e s p m"
  shows "(\<exists>c \<in> set s. P c) \<and> fst m < fst (snd m)"
proof -
  obtain x w t where s: "s = x @ w @ t" "fst (snd m) = fst m + length w" "(t, snd m) \<in> set (rm e (w @ t, fst m, []))"
    using assms(3) unfolding is_match_def by blast
  from must_consumes [OF assms(1,2) s(3)] obtain w' where w': "advances (w @ t, fst m, []) (t, snd m) w'" "\<exists>c \<in> set w'. P c"
    by blast
  then have "w' = w" by (simp add: advances_def)
  then show ?thesis using w' s by auto
qed

definition ascii_class :: "(char \<Rightarrow> bool) \<Rightarrow> (nat \<times> nat) list \<Rightarrow> bool" where
  "ascii_class P rs \<longleftrightarrow> list_all (\<lambda>(lo, hi). hi < 128 \<and> list_all (\<lambda>n. P (byte_char n)) [lo..<hi + 1]) rs"

lemma ascii_class_leads: "ascii_class P rs \<Longrightarrow> leads P rs"
proof -
  assume a: "ascii_class P rs"
  have "P c" if i: "in_ranges rs (fst (decode_rune (c # s)))" for c s
  proof -
    obtain lo hi where h: "(lo, hi) \<in> set rs" "lo \<le> fst (decode_rune (c # s))" "fst (decode_rune (c # s)) \<le> hi"
      using i unfolding in_ranges_def by blast
    have "(case (lo, hi) of (lo, hi) \<Rightarrow> hi < 128 \<and> list_all (\<lambda>n. P (byte_char n)) [lo..<hi + 1])"
      using a h(1) unfolding ascii_class_def list_all_iff by blast
    then have b: "hi < 128" "\<forall>n. lo \<le> n \<and> n \<le> hi \<longrightarrow> P (byte_char n)" by (auto simp: list_all_iff)
    then have "byte c < 128" using h(3) decode_high [of c s] by linarith
    then have d: "fst (decode_rune (c # s)) = byte c" using decode_ascii by simp
    have bc: "byte_char (byte c) = c" by (simp add: byte_char_def byte_def)
    show "P c" using b(2) h unfolding d using bc by metis
  qed
  then show ?thesis unfolding leads_def by blast
qed

lemma must_ascii: "must (ascii_class P) e \<Longrightarrow> is_match e s p m \<Longrightarrow> \<exists>c \<in> set s. P c"
  using must_match [where C = "ascii_class P" and P = P] ascii_class_leads by blast

text \<open>A pattern that begins with a literal.\<close>

lemma rm_lit:
  assumes "ascii w" "t \<in> set (rm (re_lit w) s)"
  shows "advances s t w"
  using assms
proof (induction w arbitrary: s)
  case Nil
  then show ?case using advances_refl by simp
next
  case (Cons c w)
  have c: "byte c < 128" "ascii w" using Cons.prems(1) by (simp_all add: ascii_def)
  obtain u where u: "u \<in> set (rm (re_byte c) s)" "t \<in> set (rm (re_lit w) u)" using Cons.prems(2) by auto
  have cls: "ascii_class (\<lambda>d. d = c) [(byte c, byte c)]"
    using c by (simp add: ascii_class_def byte_char_def byte_def)
  have "u \<in> set (step_rune (in_ranges [(byte c, byte c)]) s)" using u(1) by (simp add: re_byte_def)
  then obtain x y r where x: "fst s = x # y" "u = (y, fst (snd s) + 1, snd (snd s))" "x = c"
    using step_ascii [OF ascii_in_ranges, of "[(byte c, byte c)]"] c(1)
    by (cases s rule: prod_cases3; cases "fst s") (auto simp: in_ranges_def byte_inj split: if_splits)
  then have "advances s u [c]" by (simp add: advances_def)
  then show ?case using advances_trans [OF _ Cons.IH [OF c(2) u(2)], of s "[c]"] by simp
qed

lemma lit_match:
  assumes "ascii w" "is_match (Seq (re_lit w) e) s p m"
  shows "contains s w"
proof -
  obtain x v t where s: "s = x @ v @ t" "(t, snd m) \<in> set (rm (Seq (re_lit w) e) (v @ t, fst m, []))"
    using assms(2) unfolding is_match_def by blast
  from s(2) obtain u where "u \<in> set (rm (re_lit w) (v @ t, fst m, []))" by auto
  from rm_lit [OF assms(1) this] have "v @ t = w @ fst u" by (simp add: advances_def)
  then show ?thesis unfolding contains_iff s(1) by blast
qed

section \<open>Empty matches\<close>

text \<open>A pattern that matches the empty stretch of some text matches the empty text.\<close>

lemma rm_empty:
  assumes "t \<in> set (rm e s)" "fst t = fst s"
  shows "\<exists>t'. t' \<in> set (rm e ([], 0, g)) \<and> fst t' = [] \<and> fst (snd t') = 0"
  using assms
proof (induction e arbitrary: s t g)
  case (Seq a b)
  then obtain u where u: "u \<in> set (rm a s)" "t \<in> set (rm b u)" by auto
  obtain v w where v: "advances s u v" "advances u t w" using u rm_advances by meson
  then have e: "fst u = fst s" "fst t = fst u" using Seq.prems(2) by (auto simp: advances_def)
  obtain u' where u': "u' \<in> set (rm a ([], 0, g))" "fst u' = []" "fst (snd u') = 0" using Seq.IH(1) [OF u(1) e(1)] by blast
  then have uu: "u' = ([], 0, snd (snd u'))" by (metis prod.collapse)
  obtain t' where "t' \<in> set (rm b ([], 0, snd (snd u')))" "fst t' = []" "fst (snd t') = 0" using Seq.IH(2) [OF u(2) e(2)] by blast
  then show ?case using u'(1) uu
    by (intro exI [of _ t'] conjI) (simp_all, metis)
next
  case (Alt a b)
  from Alt.prems(1) have "t \<in> set (rm a s) \<or> t \<in> set (rm b s)" by simp
  then obtain t' where "t' \<in> set (rm a ([], 0, g)) \<or> t' \<in> set (rm b ([], 0, g))" "fst t' = [] \<and> fst (snd t') = 0"
    using Alt.IH(1) [OF _ Alt.prems(2)] Alt.IH(2) [OF _ Alt.prems(2)] by metis
  then show ?case by (intro exI [of _ t']) simp
next
  case (Star greedy a)
  show ?case by simp
next
  case (Grp n a)
  then obtain u where u: "u \<in> set (rm a s)" "fst u = fst s" by auto
  obtain u' where u': "u' \<in> set (rm a ([], 0, g))" "fst u' = []" "fst (snd u') = 0" using Grp.IH [OF u] by blast
  then have "([], 0, snd (snd u')) \<in> set (rm a ([], 0, g))" by (metis prod.collapse)
  then have "([], 0, (n, 0, 0) # snd (snd u')) \<in> set (rm (Grp n a) ([], 0, g))" by (force simp: image_iff)
  then show ?case by (metis fst_conv snd_conv)
next
  case (Cls rs)
  then show ?case using step_rune_advances [of t "in_ranges rs" s] by (auto simp: advances_def)
next
  case (NCls rs)
  then show ?case using step_rune_advances [of t "\<lambda>r. \<not> in_ranges rs r" s] by (auto simp: advances_def)
next
  case (Fold rs)
  then show ?case using step_rune_advances [of t "in_folded rs" s] by (auto simp: advances_def)
qed (auto split: if_splits)

lemma match_nonempty:
  assumes "\<not> match_string e []" "is_match e s p m"
  shows "fst m < fst (snd m)"
proof (rule ccontr)
  assume n: "\<not> fst m < fst (snd m)"
  obtain x w t where s: "s = x @ w @ t" "fst (snd m) = fst m + length w" "(t, snd m) \<in> set (rm e (w @ t, fst m, []))"
    using assms(2) unfolding is_match_def by blast
  then have "w = []" using n by simp
  then have "fst (t, snd m) = fst (w @ t, fst m, [])" by simp
  from rm_empty [OF s(3) this] obtain t' where t': "t' \<in> set (rm e ([], 0, []))" by blast
  then obtain y ys where "rm e ([], 0, []) = y # ys" by (cases "rm e ([], 0, [])") auto
  then have "match_at e [] 0 \<noteq> None" by (auto simp: match_at_def split: list.splits prod.splits)
  then show False using assms(1) by (auto simp: match_string_def find_first.simps [of e "[]"] split: option.splits)
qed

section \<open>Patterns of fixed length\<close>

fun fixed_length :: "re \<Rightarrow> nat option" where
  "fixed_length Eps = Some 0"
| "fixed_length (Cls rs) = (if list_all (\<lambda>(lo, hi). hi < 128) rs then Some 1 else None)"
| "fixed_length (Seq a b) =
     (case (fixed_length a, fixed_length b) of (Some m, Some n) \<Rightarrow> Some (m + n) | _ \<Rightarrow> None)"
| "fixed_length e = None"

lemma ascii_ranges: "list_all (\<lambda>(lo, hi). hi < 128) rs \<Longrightarrow> ascii_pred (in_ranges rs)"
  by (rule ascii_in_ranges) (auto simp: list_all_iff)

lemma fixed_length_consumes:
  "fixed_length e = Some n \<Longrightarrow> t \<in> set (rm e s) \<Longrightarrow> \<exists>w. advances s t w \<and> length w = n"
proof (induction e arbitrary: n s t)
  case (Cls rs)
  then have a: "ascii_pred (in_ranges rs)" "n = 1" using ascii_ranges by (auto split: if_splits)
  obtain x p g where s: "s = (x, p, g)" by (cases s)
  show ?case using Cls.prems(2) a(2) unfolding s
    by (cases x) (auto simp: step_ascii [OF a(1)] advances_def split: if_splits)
next
  case (Seq a b)
  then obtain k l where kl: "fixed_length a = Some k" "fixed_length b = Some l" "n = k + l"
    by (auto split: option.splits)
  obtain u where u: "u \<in> set (rm a s)" "t \<in> set (rm b u)" using Seq.prems(2) by auto
  obtain v where v: "advances s u v" "length v = k" using Seq.IH(1) [OF kl(1) u(1)] by blast
  obtain w where w: "advances u t w" "length w = l" using Seq.IH(2) [OF kl(2) u(2)] by blast
  show ?case using advances_trans [OF v(1) w(1)] v(2) w(2) kl(3) by (intro exI [of _ "v @ w"]) simp
qed (auto simp: advances_def)

lemma fixed_length_rep: "fixed_length r = Some k \<Longrightarrow> fixed_length (re_rep n 0 r) = Some (n * k)"
  by (induction n) simp_all

lemma fixed_length_match: "fixed_length e = Some n \<Longrightarrow> is_match e s p m \<Longrightarrow> fst (snd m) = fst m + n"
proof -
  assume n: "fixed_length e = Some n" and "is_match e s p m"
  then obtain x w t where s: "fst (snd m) = fst m + length w" "(t, snd m) \<in> set (rm e (w @ t, fst m, []))"
    unfolding is_match_def by blast
  from fixed_length_consumes [OF n s(2)] s(1) show ?thesis by (auto simp: advances_def)
qed

lemma rm_run:
  assumes "list_all (\<lambda>(lo, hi). hi < 128) rs" "\<forall>c \<in> set w. in_ranges rs (byte c)"
  shows "rm (re_rep (length w) 0 (Cls rs)) (w @ y, p, g) = [(y, p + length w, g)]"
  using assms(2)
proof (induction w arbitrary: p)
  case (Cons c w)
  then show ?case using step_ascii [OF ascii_ranges [OF assms(1)]] by simp
qed simp

lemma find_first_end: "must C e \<Longrightarrow> (\<And>rs. C rs \<Longrightarrow> leads P rs) \<Longrightarrow> find_first e [] p = None"
proof (rule ccontr)
  assume m: "must C e" "\<And>rs. C rs \<Longrightarrow> leads P rs" and "find_first e [] p \<noteq> None"
  then obtain t m where "find_first e [] p = Some (t, m)" by auto
  then have "is_match e [] p m" using find_first_spec by blast
  from must_match [OF m(2) m(1) this] show False by simp
qed

lemma rm_lit_self: "ascii w \<Longrightarrow> rm (re_lit w) (w @ s, p, g) = [(s, p + length w, g)]"
proof (induction w arbitrary: p)
  case (Cons c w)
  then have "byte c < 128" "ascii w" by (simp_all add: ascii_def)
  with Cons.IH [of "Suc p"] show ?case by (simp add: re_byte_def step_low in_ranges_def)
qed simp

end
