(* ===== verification/Recognizer.thy ===== *)
theory Recognizer imports RegexFacts Gazetteer Validators begin

text \<open>
  The pattern recognizer (\<open>pii/detect/pattern.go\<close>) and its prefilters (\<open>prefilter.go\<close>). A compiled
  pattern is a pattern of \<open>GoRegexp\<close>; \<open>regexp.Compile\<close> is an option. A validator and the index
  operations of the context window may panic, which is None. The lemmas show what the reported
  entities are, that no recognizer with a window that is not negative panics, and when a prefilter
  changes nothing.
\<close>

section \<open>Prefilters\<close>

type_synonym prefilter = "string \<Rightarrow> bool"

definition RequireByte :: "string \<Rightarrow> prefilter" where
  "RequireByte bytes text \<longleftrightarrow> (\<exists>r \<in> set (runes text). r \<in> set (runes bytes))"

definition RequireDigit :: prefilter where
  "RequireDigit text \<longleftrightarrow> (\<exists>c \<in> set text. is_digit c)"

definition RequirePrefix :: "string list \<Rightarrow> prefilter" where
  "RequirePrefix literals text \<longleftrightarrow> (\<exists>lit \<in> set literals. contains text lit)"

definition RequireUpperAlpha :: prefilter where
  "RequireUpperAlpha text \<longleftrightarrow> (\<exists>c \<in> set text. is_upper c)"

definition RequireCJK :: prefilter where
  "RequireCJK text \<longleftrightarrow> (\<exists>c \<in> set text. 228 \<le> byte c \<and> byte c \<le> 233)"

section \<open>The recognizer\<close>

record pattern_recognizer =
  pr_prefilter :: "prefilter option"
  pr_name :: string
  pr_entityType :: string
  pr_pattern :: re
  pr_boundary :: boundary_class
  pr_validate :: "(string \<Rightarrow> bool option) option"
  pr_normalize :: bool
  pr_baseScore :: rat
  pr_contexts :: "string list"
  pr_contextBoost :: rat
  pr_requireContext :: bool
  pr_contextWindow :: int

datatype pattern_option =
    WithValidator "(string \<Rightarrow> bool option) option" bool
  | WithPrefilter "prefilter option"
  | WithBoundary boundary_class
  | WithContext rat "string list"
  | WithContextWindow int
  | WithRequiredContext "string list"

fun apply_pattern_option :: "pattern_option \<Rightarrow> pattern_recognizer \<Rightarrow> pattern_recognizer" where
  "apply_pattern_option (WithValidator fn strip) p = p\<lparr>pr_validate := fn, pr_normalize := strip\<rparr>"
| "apply_pattern_option (WithPrefilter f) p = p\<lparr>pr_prefilter := f\<rparr>"
| "apply_pattern_option (WithBoundary class) p = p\<lparr>pr_boundary := class\<rparr>"
| "apply_pattern_option (WithContext boost words) p =
     p\<lparr>pr_contexts := pr_contexts p @ words, pr_contextBoost := boost\<rparr>"
| "apply_pattern_option (WithContextWindow bytes) p = p\<lparr>pr_contextWindow := bytes\<rparr>"
| "apply_pattern_option (WithRequiredContext words) p =
     p\<lparr>pr_contexts := pr_contexts p @ words, pr_requireContext := True,
       pr_contextBoost := (if pr_contextBoost p = 0 then 5 / 100 else pr_contextBoost p)\<rparr>"

datatype recognizer_error = InvalidRegex string | BadBaseScore string

definition NewPatternRecognizer ::
    "string \<Rightarrow> string \<Rightarrow> re option \<Rightarrow> rat \<Rightarrow> pattern_option list \<Rightarrow> recognizer_error + pattern_recognizer" where
  "NewPatternRecognizer name entityType compiled baseScore opts =
     (case compiled of
        None \<Rightarrow> Inl (InvalidRegex name)
      | Some re \<Rightarrow>
          if baseScore \<le> 0 \<or> baseScore > 1 then Inl (BadBaseScore name)
          else Inr (fold apply_pattern_option opts
            \<lparr>pr_prefilter = None, pr_name = name, pr_entityType = entityType, pr_pattern = re,
             pr_boundary = BoundaryNone, pr_validate = None, pr_normalize = False, pr_baseScore = baseScore,
             pr_contexts = [], pr_contextBoost = 0, pr_requireContext = False, pr_contextWindow = 48\<rparr>))"

definition WithoutPrefilter :: "pattern_recognizer \<Rightarrow> pattern_recognizer" where
  "WithoutPrefilter p = p\<lparr>pr_prefilter := None\<rparr>"

section \<open>The context window\<close>

text \<open>\<open>b \& 0xC0 != 0x80\<close>\<close>

definition utf8Start :: "char \<Rightarrow> bool" where
  "utf8Start b \<longleftrightarrow> byte b < 128 \<or> 192 \<le> byte b"

text \<open>The two loops that move the ends of the window to character borders.\<close>

fun align_down :: "string \<Rightarrow> nat \<Rightarrow> nat option" where
  "align_down text 0 = Some 0"
| "align_down text (Suc lo) =
     (if length text \<le> Suc lo then None
      else if utf8Start (text ! Suc lo) then Some (Suc lo) else align_down text lo)"

function align_up :: "string \<Rightarrow> nat \<Rightarrow> nat" where
  "align_up text hi = (if hi < length text \<and> \<not> utf8Start (text ! hi) then align_up text (hi + 1) else hi)"
  by pat_completeness auto
termination by (relation "measure (\<lambda>(text, hi). length text - hi)") auto

declare align_up.simps [simp del]

definition hasContext :: "case_tables \<Rightarrow> pattern_recognizer \<Rightarrow> string \<Rightarrow> nat \<Rightarrow> nat \<Rightarrow> bool option" where
  "hasContext ct p text start en =
     (if pr_contexts p = [] then Some False
      else
        let lo = (let lo = int start - pr_contextWindow p in if lo < 0 then 0 else lo);
            hi = (let hi = int en + pr_contextWindow p in if hi > int (length text) then int (length text) else hi) in
        case align_down text (nat lo) of
          None \<Rightarrow> None
        | Some lo \<Rightarrow>
            if hi < 0 then None
            else
              let hi = align_up text (nat hi) in
              if hi < lo then None
              else
                let window = go_lower ct (substr text (int lo) (int hi)) in
                Some (\<exists>word \<in> set (pr_contexts p). contains window (go_lower ct word)))"

section \<open>Recognition\<close>

text \<open>One match of the pattern: None is a panic, otherwise the entities it adds.\<close>

definition recognize_match :: "case_tables \<Rightarrow> pattern_recognizer \<Rightarrow> string \<Rightarrow> nat \<Rightarrow> nat \<Rightarrow> entity list option" where
  "recognize_match ct p text start en =
     (if \<not> isBoundaryOK text start en (pr_boundary p) then Some []
      else
        let raw = substr text (int start) (int en);
            ent = (\<lambda>score. \<lparr>e_type = pr_entityType p, e_value = raw, e_start = int start, e_end = int en,
                            e_conf = score, e_det = pr_name p\<rparr>) in
        case (case pr_validate p of
                None \<Rightarrow> Some True
              | Some validate \<Rightarrow> validate (if pr_normalize p then stripSeparators raw else raw)) of
          None \<Rightarrow> None
        | Some False \<Rightarrow> Some []
        | Some True \<Rightarrow>
            (case hasContext ct p text start en of
               None \<Rightarrow> None
             | Some True \<Rightarrow>
                 (let score = pr_baseScore p + pr_contextBoost p in Some [ent (if score > 1 then 1 else score)])
             | Some False \<Rightarrow> if pr_requireContext p then Some [] else Some [ent (pr_baseScore p)]))"

fun recognize_loop :: "case_tables \<Rightarrow> pattern_recognizer \<Rightarrow> string \<Rightarrow> re_match list \<Rightarrow> entity list option" where
  "recognize_loop ct p text [] = Some []"
| "recognize_loop ct p text (loc # locs) =
     (case recognize_match ct p text (fst loc) (fst (snd loc)) of
        None \<Rightarrow> None
      | Some found \<Rightarrow> map_option (append found) (recognize_loop ct p text locs))"

definition Recognize :: "case_tables \<Rightarrow> pattern_recognizer \<Rightarrow> string \<Rightarrow> entity list option" where
  "Recognize ct p text =
     (if (case pr_prefilter p of None \<Rightarrow> False | Some f \<Rightarrow> \<not> f text) then Some []
      else recognize_loop ct p text (find_all_string (pr_pattern p) text))"

text \<open>
  The recognizer behind the interface of the registry. A panic, which the lemmas exclude for every
  recognizer of the program, stands as an error.
\<close>

definition pattern_as_recognizer :: "case_tables \<Rightarrow> pattern_recognizer \<Rightarrow> recognizer" where
  "pattern_as_recognizer ct p =
     \<lparr>r_name = pr_name p, r_entityType = pr_entityType p,
      r_recognize = (\<lambda>text. case Recognize ct p text of None \<Rightarrow> Inl ''panic'' | Some es \<Rightarrow> Inr es)\<rparr>"

section \<open>The gazetteer as a recognizer\<close>

record gazetteer_recognizer =
  gr_name :: string
  gr_entityType :: string
  gr_inner :: gazetteer

definition NewGazetteerRecognizer ::
    "case_tables \<Rightarrow> string \<Rightarrow> string \<Rightarrow> string list \<Rightarrow> (gazetteer_error + gazetteer_recognizer) option" where
  "NewGazetteerRecognizer ct name entityType terms =
     (case NewGazetteerDetector ct [(entityType, terms)] False 2 of
        None \<Rightarrow> None
      | Some (Inl e) \<Rightarrow> Some (Inl e)
      | Some (Inr d) \<Rightarrow> Some (Inr \<lparr>gr_name = name, gr_entityType = entityType, gr_inner = d\<rparr>))"

definition gr_Recognize :: "case_tables \<Rightarrow> gazetteer_recognizer \<Rightarrow> string \<Rightarrow> entity list option" where
  "gr_Recognize ct g text = map_option (map (\<lambda>e. e\<lparr>e_det := gr_name g\<rparr>)) (gz_Detect ct (gr_inner g) text)"

section \<open>Recognizers as built\<close>

lemma option_keeps [simp]:
  "pr_name (apply_pattern_option q p) = pr_name p"
  "pr_entityType (apply_pattern_option q p) = pr_entityType p"
  "pr_pattern (apply_pattern_option q p) = pr_pattern p"
  "pr_baseScore (apply_pattern_option q p) = pr_baseScore p"
  by (cases q; simp)+

lemma options_keep [simp]:
  "pr_name (fold apply_pattern_option opts p) = pr_name p"
  "pr_entityType (fold apply_pattern_option opts p) = pr_entityType p"
  "pr_pattern (fold apply_pattern_option opts p) = pr_pattern p"
  "pr_baseScore (fold apply_pattern_option opts p) = pr_baseScore p"
  by (induction opts arbitrary: p) simp_all

lemma NewPatternRecognizer_fields:
  assumes "NewPatternRecognizer name ty compiled base opts = Inr p"
  shows "pr_name p = name" "pr_entityType p = ty" "compiled = Some (pr_pattern p)" "pr_baseScore p = base"
    "0 < base" "base \<le> 1"
  using assms by (auto simp: NewPatternRecognizer_def split: option.splits if_splits)

section \<open>No panic\<close>

lemma align_down_total:
  "lo < length text \<or> lo = 0 \<Longrightarrow> \<exists>l. align_down text lo = Some l \<and> l \<le> lo \<and> (l = 0 \<or> utf8Start (text ! l))"
  by (induction "text" lo rule: align_down.induct) (auto simp: le_SucI)

lemma align_up_ge: "hi \<le> align_up text hi"
proof (induction "text" hi rule: align_up.induct)
  case (1 s hi)
  then show ?case using align_up.simps [of s hi] by (cases "hi < length s \<and> \<not> utf8Start (s ! hi)") auto
qed

lemma hasContext_total:
  assumes "0 \<le> pr_contextWindow p" "start < en" "en \<le> length text"
  shows "\<exists>b. hasContext ct p text start en = Some b"
proof -
  let ?w = "pr_contextWindow p"
  define lo where "lo = (if int start - ?w < 0 then 0 else int start - ?w)"
  define hi where "hi = (if int en + ?w > int (length text) then int (length text) else int en + ?w)"
  have lo: "nat lo \<le> start" "nat lo < length text" using assms by (auto simp: lo_def)
  have hi: "0 \<le> hi" "en \<le> nat hi" using assms by (auto simp: hi_def)
  obtain l where l: "align_down text (nat lo) = Some l" "l \<le> nat lo" using align_down_total lo(2) by blast
  have "l \<le> align_up text (nat hi)" using l(2) lo(1) hi(2) assms(2) align_up_ge [of "nat hi" "text"] by linarith
  then show ?thesis
    using l(1) hi(1) unfolding hasContext_def lo_def [symmetric] hi_def [symmetric] Let_def by auto
qed

definition validates_all :: "pattern_recognizer \<Rightarrow> bool" where
  "validates_all p \<longleftrightarrow> (\<forall>v. pr_validate p = Some v \<longrightarrow> (\<forall>s. \<exists>b. v s = Some b))"

definition candidate_ok :: "pattern_recognizer \<Rightarrow> string \<Rightarrow> bool" where
  "candidate_ok p raw \<longleftrightarrow>
     (case pr_validate p of None \<Rightarrow> True | Some v \<Rightarrow> v (if pr_normalize p then stripSeparators raw else raw) = Some True)"

lemma recognize_match_total:
  assumes "0 \<le> pr_contextWindow p" "validates_all p" "start < en" "en \<le> length text"
  shows "\<exists>es. recognize_match ct p text start en = Some es"
proof -
  obtain b where b: "hasContext ct p text start en = Some b" using hasContext_total assms by blast
  have "\<exists>v. (case pr_validate p of None \<Rightarrow> Some True
      | Some f \<Rightarrow> f (if pr_normalize p then stripSeparators raw else raw)) = Some v" for raw
    using assms(2) by (auto simp: validates_all_def split: option.splits)
  then obtain v where v: "(case pr_validate p of None \<Rightarrow> Some True
      | Some f \<Rightarrow> f (if pr_normalize p then stripSeparators (substr text (int start) (int en)) else substr text (int start) (int en)))
      = Some v"
    by blast
  show ?thesis using b unfolding recognize_match_def Let_def v by (cases v; cases b) auto
qed

lemma recognize_match_entities:
  assumes "recognize_match ct p text start en = Some es" "e \<in> set es"
  shows "es = [e]" "e_start e = int start" "e_end e = int en" "e_value e = substr text (int start) (int en)"
    "e_type e = pr_entityType p" "e_det e = pr_name p" "isBoundaryOK text start en (pr_boundary p)"
    "candidate_ok p (e_value e)" "e_conf e = pr_baseScore p \<or> e_conf e = min 1 (pr_baseScore p + pr_contextBoost p)"
proof -
  define cand where "cand = (case pr_validate p of None \<Rightarrow> Some True
      | Some f \<Rightarrow> f (if pr_normalize p then stripSeparators (substr text (int start) (int en)) else substr text (int start) (int en)))"
  have bnd: "isBoundaryOK text start en (pr_boundary p)" using assms by (auto simp: recognize_match_def split: if_splits)
  have m: "(case cand of None \<Rightarrow> None | Some False \<Rightarrow> Some [] | Some True \<Rightarrow>
      (case hasContext ct p text start en of None \<Rightarrow> None
       | Some True \<Rightarrow> Some [\<lparr>e_type = pr_entityType p, e_value = substr text (int start) (int en), e_start = int start,
           e_end = int en, e_conf = (if pr_baseScore p + pr_contextBoost p > 1 then 1 else pr_baseScore p + pr_contextBoost p), e_det = pr_name p\<rparr>]
       | Some False \<Rightarrow> if pr_requireContext p then Some [] else Some [\<lparr>e_type = pr_entityType p,
           e_value = substr text (int start) (int en), e_start = int start, e_end = int en, e_conf = pr_baseScore p, e_det = pr_name p\<rparr>]))
      = Some es"
    using assms(1) bnd unfolding recognize_match_def cand_def Let_def by simp
  have c: "cand = Some True" using m assms(2) by (auto split: option.splits bool.splits)
  obtain b where b: "hasContext ct p text start en = Some b" using m c by (cases "hasContext ct p text start en") auto
  have "candidate_ok p (substr text (int start) (int en))"
    using c unfolding cand_def candidate_ok_def by (auto split: option.splits)
  with m c b assms(2) bnd show "es = [e]" "e_start e = int start" "e_end e = int en"
    "e_value e = substr text (int start) (int en)" "e_type e = pr_entityType p" "e_det e = pr_name p"
    "isBoundaryOK text start en (pr_boundary p)" "candidate_ok p (e_value e)"
    "e_conf e = pr_baseScore p \<or> e_conf e = min 1 (pr_baseScore p + pr_contextBoost p)"
    by (cases b; auto split: if_splits)+
qed

section \<open>What is reported\<close>

text \<open>What a recognizer promises of its entities.\<close>

definition reported :: "pattern_recognizer \<Rightarrow> string \<Rightarrow> entity \<Rightarrow> bool" where
  "reported p text e \<longleftrightarrow> span_ok text e \<and> e_type e = pr_entityType p \<and> e_det e = pr_name p \<and> e_conf e \<le> 1 \<and>
     isBoundaryOK text (nat (e_start e)) (nat (e_end e)) (pr_boundary p) \<and> candidate_ok p (e_value e) \<and>
     (\<exists>g. is_match (pr_pattern p) text 0 (nat (e_start e), nat (e_end e), g))"

definition apart :: "entity list \<Rightarrow> bool" where
  "apart es \<longleftrightarrow> sorted_wrt (\<lambda>a b. e_end a \<le> e_start b) es"

text \<open>A pattern without empty matches.\<close>

definition consuming :: "re \<Rightarrow> bool" where
  "consuming e \<longleftrightarrow> (\<forall>s m. is_match e s 0 m \<longrightarrow> fst m < fst (snd m))"

lemma recognize_loop_ok:
  assumes "0 \<le> pr_contextWindow p" "validates_all p" "consuming (pr_pattern p)" "pr_baseScore p \<le> 1"
    and "\<forall>m \<in> set ms. is_match (pr_pattern p) text 0 m" "sorted_wrt (\<lambda>m m'. fst (snd m) \<le> fst m') ms"
  shows "\<exists>es. recognize_loop ct p text ms = Some es \<and> (\<forall>e \<in> set es. reported p text e) \<and> apart es \<and>
    (\<forall>e \<in> set es. \<exists>m \<in> set ms. e_start e = int (fst m) \<and> e_end e = int (fst (snd m)))"
  using assms(5,6)
proof (induction ms)
  case Nil
  then show ?case by (simp add: apart_def)
next
  case (Cons m ms)
  obtain a b g where m: "m = (a, b, g)" by (cases m)
  have im: "is_match (pr_pattern p) text 0 (a, b, g)" using Cons.prems(1) m by simp
  have lt: "a < b" using im assms(3) unfolding consuming_def by fastforce
  have le: "b \<le> length text" using is_match_bounds [OF im] by simp
  obtain es1 where e1: "recognize_match ct p text a b = Some es1" using recognize_match_total assms(1,2) lt le by blast
  obtain es2 where e2: "recognize_loop ct p text ms = Some es2" "\<forall>e \<in> set es2. reported p text e" "apart es2"
    "\<forall>e \<in> set es2. \<exists>m \<in> set ms. e_start e = int (fst m) \<and> e_end e = int (fst (snd m))"
    using Cons by auto
  note ent = recognize_match_entities [OF e1]
  have r1: "reported p text e" if "e \<in> set es1" for e
    using ent [OF that] im lt le assms(4) unfolding reported_def span_ok_def by auto
  have r2: "e_end e \<le> e_start f" if "e \<in> set es1" "f \<in> set es2" for e f
  proof -
    obtain m' where m': "m' \<in> set ms" "e_start f = int (fst m')" using e2(4) \<open>f \<in> set es2\<close> by blast
    then have "b \<le> fst m'" using Cons.prems(2) m by simp
    then show ?thesis using ent(3) [OF \<open>e \<in> set es1\<close>] m'(2) by simp
  qed
  have "apart es1"
  proof (cases es1)
    case (Cons e es)
    then have "es1 = [e]" using ent(1) [of e] by simp
    then show ?thesis by (simp add: apart_def)
  qed (simp add: apart_def)
  then have "apart (es1 @ es2)" using e2(3) r2 by (auto simp: apart_def sorted_wrt_append)
  moreover have "\<exists>m' \<in> set (m # ms). e_start e = int (fst m') \<and> e_end e = int (fst (snd m'))"
    if "e \<in> set (es1 @ es2)" for e
  proof (cases "e \<in> set es1")
    case True
    then show ?thesis using ent(2,3) [OF True] m by simp
  next
    case False
    then show ?thesis using that e2(4) by auto
  qed
  moreover have "recognize_loop ct p text (m # ms) = Some (es1 @ es2)" using e1 e2(1) m by simp
  moreover have "\<forall>e \<in> set (es1 @ es2). reported p text e" using r1 e2(2) by auto
  ultimately show ?case by blast
qed

lemma Recognize_ok:
  assumes "0 \<le> pr_contextWindow p" "validates_all p" "consuming (pr_pattern p)" "pr_baseScore p \<le> 1"
  shows "\<exists>es. Recognize ct p text = Some es \<and> (\<forall>e \<in> set es. reported p text e) \<and> apart es"
proof (cases "case pr_prefilter p of None \<Rightarrow> False | Some f \<Rightarrow> \<not> f text")
  case True
  then show ?thesis by (auto simp: Recognize_def apart_def)
next
  case False
  have "\<forall>m \<in> set (find_all_string (pr_pattern p) text). is_match (pr_pattern p) text 0 m"
    using find_all_string_spec(1) by blast
  from recognize_loop_ok [OF assms this find_all_string_spec(2), of ct] False show ?thesis
    unfolding Recognize_def by auto
qed

section \<open>Sound prefilters\<close>

text \<open>A prefilter is sound when no text it rejects has a match.\<close>

definition prefilter_sound :: "pattern_recognizer \<Rightarrow> bool" where
  "prefilter_sound p \<longleftrightarrow> (\<forall>f. pr_prefilter p = Some f \<longrightarrow> (\<forall>s m. is_match (pr_pattern p) s 0 m \<longrightarrow> f s))"

lemma without_fields:
  "pr_name (WithoutPrefilter p) = pr_name p" "pr_entityType (WithoutPrefilter p) = pr_entityType p"
  "pr_pattern (WithoutPrefilter p) = pr_pattern p" "pr_boundary (WithoutPrefilter p) = pr_boundary p"
  "pr_validate (WithoutPrefilter p) = pr_validate p" "pr_normalize (WithoutPrefilter p) = pr_normalize p"
  "pr_baseScore (WithoutPrefilter p) = pr_baseScore p" "pr_contexts (WithoutPrefilter p) = pr_contexts p"
  "pr_contextBoost (WithoutPrefilter p) = pr_contextBoost p" "pr_requireContext (WithoutPrefilter p) = pr_requireContext p"
  "pr_contextWindow (WithoutPrefilter p) = pr_contextWindow p" "pr_prefilter (WithoutPrefilter p) = None"
  by (simp_all add: WithoutPrefilter_def)

lemma prefilter_changes_nothing:
  assumes "prefilter_sound p"
  shows "Recognize ct (WithoutPrefilter p) text = Recognize ct p text"
proof -
  have "recognize_match ct (WithoutPrefilter p) text a b = recognize_match ct p text a b" for a b
    unfolding recognize_match_def hasContext_def without_fields by (rule refl)
  then have upd: "recognize_loop ct (WithoutPrefilter p) text ms = recognize_loop ct p text ms" for ms
    by (induction ms) (simp_all split: option.split)
  have "find_all_string (pr_pattern p) text = []" if "pr_prefilter p = Some f" "\<not> f text" for f
    using assms that find_all_string_spec(1) [of _ "pr_pattern p" "text"] unfolding prefilter_sound_def
    by (cases "find_all_string (pr_pattern p) text") (auto, metis list.set_intros(1))
  then show ?thesis
    unfolding Recognize_def upd without_fields by (auto split: option.split)
qed

lemma sound_digit: "must (ascii_class is_digit) e \<Longrightarrow> is_match e s 0 m \<Longrightarrow> RequireDigit s"
  using must_ascii [of is_digit] by (auto simp: RequireDigit_def)

lemma sound_upper: "must (ascii_class is_upper) e \<Longrightarrow> is_match e s 0 m \<Longrightarrow> RequireUpperAlpha s"
  using must_ascii [of is_upper] by (auto simp: RequireUpperAlpha_def)

lemma decode_swallows:
  assumes "d \<in> set (take (rune_width (c # s)) (c # s))" "byte d < 128"
  shows "decode_rune (c # s) = (byte d, 1)"
proof -
  define tail where "tail n = (n \<le> 1 \<or> (\<forall>d \<in> set (take (n - 1) s). 128 \<le> byte d))" for n
  have "tail (snd (decode2 b s))" for b
    by (cases s) (simp_all add: tail_def decode2_def byte_between_def)
  moreover have "tail (snd (decode3 b s))" for b
    by (cases s; cases "tl s") (simp_all add: tail_def decode3_def second3_def byte_between_def)
  moreover have "tail (snd (decode4 b s))" for b
    by (cases s; cases "tl s"; cases "tl (tl s)") (simp_all add: tail_def decode4_def second4_def byte_between_def)
  moreover have "tail 1" by (simp add: tail_def)
  ultimately have "tail (snd (decode_rune (c # s)))" by (simp add: Let_def)
  moreover have "128 \<le> byte c \<or> snd (decode_rune (c # s)) = 1" by (simp add: Let_def)
  ultimately have "snd (decode_rune (c # s)) \<le> 1 \<or> (\<forall>d \<in> set (take (snd (decode_rune (c # s))) (c # s)). 128 \<le> byte d)"
    unfolding tail_def by (cases "snd (decode_rune (c # s))") (auto simp del: decode_rune.simps)
  then have "rune_width (c # s) \<le> 1" using assms unfolding rune_width_def by force
  then have "d = c" using assms(1) by (cases "rune_width (c # s)") auto
  then show ?thesis using decode_ascii assms(2) by simp
qed

lemma runes_mem:
  assumes "byte c < 128" "c \<in> set s"
  shows "byte c \<in> set (runes s)"
proof -
  have "byte c \<in> (\<lambda>x. fst (snd x)) ` set (range_from i s)" for i
    using assms(2)
  proof (induction i s rule: range_from.induct)
    case (1 i s)
    then obtain d y where s: "s = d # y" by (cases s) simp_all
    have "c \<in> set (take (rune_width s) s) \<or> c \<in> set (drop (rune_width s) s)"
      using 1(2) by (metis Un_iff append_take_drop_id set_append)
    then show ?case
    proof
      assume "c \<in> set (take (rune_width s) s)"
      from decode_swallows [OF this [unfolded s] assms(1)] show ?thesis
        unfolding range_from.simps [of i s] unfolding s by (simp del: decode_rune.simps)
    next
      assume "c \<in> set (drop (rune_width s) s)"
      then show ?thesis using 1(1) s unfolding range_from.simps [of i s] by (simp del: decode_rune.simps)
    qed
  qed
  then show ?thesis by (simp add: runes_def range_runes_def image_iff)
qed

lemma sound_byte: "byte c < 128 \<Longrightarrow> must (ascii_class (\<lambda>d. d = c)) e \<Longrightarrow> is_match e s 0 m \<Longrightarrow> RequireByte [c] s"
  using must_ascii [of "\<lambda>d. d = c" e s 0 m] runes_mem [of c s]
  by (fastforce simp: RequireByte_def runes_ascii_Cons)

lemma sound_prefix: "ascii w \<Longrightarrow> is_match (Seq (re_lit w) e) s 0 m \<Longrightarrow> w \<in> set ws \<Longrightarrow> RequirePrefix ws s"
  using lit_match [of w e s 0 m] by (auto simp: RequirePrefix_def)

end
