(* ===== verification/Packs.thy ===== *)
theory Packs imports Recognizer ValidatorsEU begin

text \<open>
  The country packs (\<open>pii/detect/packs\<close>): the tables of recognizers with their patterns, prefilters,
  boundaries, validators and context words, the registry of packs, and the construction of a
  detector registry from pack codes. The lemmas show that every pack builds, that names never
  collide, that no recognizer panics, and that every prefilter but one is sound.
\<close>

section \<open>Entity types\<close>

definition BuiltinTypes :: "string list" where
  "BuiltinTypes =
     [''ACCOUNT'', ''ADDRESS'', ''BANK_CARD'', ''CREDENTIAL'', ''EMAIL'', ''IBAN'', ''ID_CARD'', ''IP'',
      ''LICENSE_PLATE'', ''NAME'', ''ORG'', ''PASSPORT'', ''PHONE'', ''SSN'', ''USCC'']"

definition IsBuiltinType :: "string \<Rightarrow> bool" where
  "IsBuiltinType t \<longleftrightarrow> (\<exists>known \<in> set BuiltinTypes. known = t)"

section \<open>The tables\<close>

record spec =
  sp_name :: string
  sp_typ :: string
  sp_expr :: re
  sp_score :: rat
  sp_opts :: "pattern_option list"

definition contextBoost :: rat where "contextBoost = 15 / 100"

text \<open>\<open>r{n,}\<close>\<close>

definition re_atleast :: "nat \<Rightarrow> re \<Rightarrow> re" where
  "re_atleast n r = Seq (re_rep n 0 r) (Star True r)"

definition ipv4_octet :: re where
  "ipv4_octet = Alt (Seq (re_lit ''25'') (Cls [(48, 53)])) (Alt (Seq (re_byte CHR ''2'') (Seq (Cls [(48,
    52)]) (Cls [(48, 57)]))) (Alt (Seq (re_byte CHR ''1'') (re_rep 2 0 (Cls [(48, 57)]))) (Seq (re_opt
    (Cls [(49, 57)])) (Cls [(48, 57)]))))"

definition uscc_class :: re where
  "uscc_class = Cls [(48, 57), (65, 72), (74, 78), (80, 80), (81, 81), (82, 82), (84, 84), (85, 85), (87,
    87), (88, 88), (89, 89)]"

definition province_class :: "(nat \<times> nat) list" where
  "province_class = map (\<lambda>r. (r, r))
     [20140, 27941, 27818, 28189, 20864, 35947, 20113, 36797, 40657, 28248, 30358, 40065, 26032, 33487,
       27993, 36195, 37122, 26690, 29976, 26187, 33945, 38485, 21513, 38397, 36149, 31908, 38738, 34255,
       24029, 23425, 29756, 20351, 39046]"

definition generic_specs :: "spec list" where
  "generic_specs =
     [\<lparr>sp_name = ''email'', sp_typ = ''EMAIL'',
        sp_expr = Seq (re_plus (Cls [(65, 90), (97, 122), (48, 57), (46, 46), (95, 95), (37, 37), (43,
          43), (45, 45)])) (Seq (re_byte CHR ''@'') (Seq (re_plus (Cls [(65, 90), (97, 122), (48, 57),
          (46, 46), (45, 45)])) (Seq (re_byte CHR ''.'') (re_atleast 2 (Cls [(65, 90), (97, 122)]))))),
        sp_score = 99 / 100,
        sp_opts = [WithPrefilter (Some (RequireByte ''@''))]\<rparr>,
      \<lparr>sp_name = ''bank_card_grouped'', sp_typ = ''BANK_CARD'',
        sp_expr = Seq (re_rep 4 0 (Cls [(48, 57)])) (re_rep 2 2 (Seq (Cls [(32, 32), (45, 45)])
          (re_rep 4 0 (Cls [(48, 57)])))),
        sp_score = 80 / 100,
        sp_opts = [WithPrefilter (Some RequireDigit),
          WithBoundary BoundaryDigitSep,
          WithValidator (Some BankCardValid) True,
          WithContext contextBoost [utf8_encode [21345, 21495], utf8_encode [38134, 34892, 21345],
            utf8_encode [20449, 29992, 21345], ''card'', ''credit'']]\<rparr>,
      \<lparr>sp_name = ''bank_card_plain'', sp_typ = ''BANK_CARD'', sp_expr = re_rep 12 7 (Cls [(48, 57)]),
        sp_score = 80 / 100,
        sp_opts = [WithPrefilter (Some RequireDigit),
          WithBoundary BoundaryDigitSep,
          WithValidator (Some BankCardValid) False,
          WithContext contextBoost [utf8_encode [21345, 21495], utf8_encode [38134, 34892, 21345],
            utf8_encode [20449, 29992, 21345], ''card'', ''credit'']]\<rparr>,
      \<lparr>sp_name = ''iban'', sp_typ = ''IBAN'',
        sp_expr = Seq (re_rep 2 0 (Cls [(65, 90)])) (Seq (re_rep 2 0 (Cls [(48, 57)])) (Seq
          (re_rep 2 5 (Seq (re_opt (Cls [(32, 32)])) (re_rep 4 0 (Cls [(65, 90), (48, 57)]))))
          (re_rep 0 4 (Cls [(65, 90), (48, 57)])))),
        sp_score = 95 / 100,
        sp_opts = [WithPrefilter (Some RequireUpperAlpha),
          WithBoundary BoundaryAlnum,
          WithValidator (Some (\<lambda>s. Some (IBANValid s))) True,
          WithContext contextBoost [''iban'', utf8_encode [36134, 21495], ''account'', utf8_encode [38134,
            34892]]]\<rparr>,
      \<lparr>sp_name = ''intl_phone'', sp_typ = ''PHONE'',
        sp_expr = Seq (re_byte CHR ''+'') (Seq (re_rep 1 2 (Cls [(48, 57)])) (Seq (re_opt (Cls [(9, 10),
          (12, 13), (32, 32), (45, 45)])) (re_rep 6 8 (Cls [(48, 57)])))),
        sp_score = 85 / 100,
        sp_opts = [WithPrefilter (Some (RequireByte ''+'')),
          WithBoundary BoundaryDigit]\<rparr>,
      \<lparr>sp_name = ''ipv4'', sp_typ = ''IP'',
        sp_expr = Seq (re_rep 3 0 (Seq ipv4_octet (re_byte CHR ''.''))) ipv4_octet,
        sp_score = 70 / 100,
        sp_opts = [WithPrefilter (Some (RequireByte ''.'')),
          WithBoundary BoundaryDigit,
          WithRequiredContext [''ip'', ''IP'', utf8_encode [22320, 22336], utf8_encode [26381, 21153,
            22120], utf8_encode [20027, 26426], utf8_encode [32593, 20851], utf8_encode [20869, 32593],
            utf8_encode [22806, 32593], ''host'', ''server'', ''addr'', ''gateway'', ''endpoint'',
            utf8_encode [19978, 28216]]]\<rparr>,
      \<lparr>sp_name = ''openai_key'', sp_typ = ''CREDENTIAL'',
        sp_expr = Seq (re_lit ''sk-'') (re_atleast 16 (Cls [(65, 90), (97, 122), (48, 57), (95, 95), (45,
          45)])),
        sp_score = 99 / 100,
        sp_opts = [WithPrefilter (Some (RequirePrefix [''sk-'']))]\<rparr>,
      \<lparr>sp_name = ''aws_access_key'', sp_typ = ''CREDENTIAL'',
        sp_expr = Seq (re_lit ''AKIA'') (re_rep 16 0 (Cls [(48, 57), (65, 90)])),
        sp_score = 99 / 100,
        sp_opts = [WithPrefilter (Some (RequirePrefix [''AKIA'']))]\<rparr>,
      \<lparr>sp_name = ''github_token'', sp_typ = ''CREDENTIAL'',
        sp_expr = Seq (re_lit ''gh'') (Seq (Cls [(112, 112), (111, 111), (117, 117), (115, 115), (114,
          114)]) (Seq (re_byte CHR ''_'') (re_atleast 20 (Cls [(65, 90), (97, 122), (48, 57)])))),
        sp_score = 99 / 100,
        sp_opts = [WithPrefilter (Some (RequirePrefix [''gh'']))]\<rparr>,
      \<lparr>sp_name = ''jwt'', sp_typ = ''CREDENTIAL'',
        sp_expr = Seq (re_lit ''eyJ'') (Seq (re_atleast 10 (Cls [(65, 90), (97, 122), (48, 57), (95, 95),
          (45, 45)])) (Seq (re_byte CHR ''.'') (Seq (re_atleast 10 (Cls [(65, 90), (97, 122), (48, 57),
          (95, 95), (45, 45)])) (Seq (re_byte CHR ''.'') (re_atleast 10 (Cls [(65, 90), (97, 122), (48,
          57), (95, 95), (45, 45)])))))),
        sp_score = 99 / 100,
        sp_opts = [WithPrefilter (Some (RequirePrefix [''eyJ'']))]\<rparr>]"

definition cn_specs :: "spec list" where
  "cn_specs =
     [\<lparr>sp_name = ''cn_id_card'', sp_typ = ''ID_CARD'',
        sp_expr = Seq (re_rep 17 0 (Cls [(48, 57)])) (Cls [(48, 57), (88, 88), (120, 120)]),
        sp_score = 90 / 100,
        sp_opts = [WithPrefilter (Some RequireDigit),
          WithBoundary BoundaryDigit,
          WithValidator (Some (\<lambda>s. Some (CNIDCardValid s))) False,
          WithContext contextBoost [utf8_encode [36523, 20221, 35777], utf8_encode [35777, 20214, 21495],
            ''identity'', ''id card'']]\<rparr>,
      \<lparr>sp_name = ''cn_mobile'', sp_typ = ''PHONE'',
        sp_expr = Seq (re_byte CHR ''1'') (Seq (Cls [(51, 57)]) (re_rep 9 0 (Cls [(48, 57)]))),
        sp_score = 85 / 100,
        sp_opts = [WithPrefilter (Some RequireDigit),
          WithBoundary BoundaryDigitSep,
          WithContext contextBoost [utf8_encode [25163, 26426], utf8_encode [30005, 35805],
            utf8_encode [32852, 31995], ''phone'', ''mobile'']]\<rparr>,
      \<lparr>sp_name = ''cn_landline'', sp_typ = ''PHONE'',
        sp_expr = Seq (re_byte CHR ''0'') (Seq (re_rep 2 1 (Cls [(48, 57)])) (Seq (re_byte CHR ''-'')
          (re_rep 7 1 (Cls [(48, 57)])))),
        sp_score = 85 / 100,
        sp_opts = [WithPrefilter (Some (RequireByte ''-'')),
          WithBoundary BoundaryDigitSep]\<rparr>,
      \<lparr>sp_name = ''cn_uscc'', sp_typ = ''USCC'',
        sp_expr = Seq (re_rep 2 0 uscc_class) (Seq (re_rep 6 0 (Cls [(48, 57)])) (re_rep 10 0 uscc_class)),
        sp_score = 90 / 100,
        sp_opts = [WithPrefilter (Some RequireUpperAlpha),
          WithBoundary BoundaryAlnum,
          WithValidator (Some (\<lambda>s. Some (CNUSCCValid s))) False]\<rparr>,
      \<lparr>sp_name = ''cn_passport'', sp_typ = ''PASSPORT'',
        sp_expr = Seq (Cls [(69, 69), (71, 71)]) (re_rep 8 0 (Cls [(48, 57)])),
        sp_score = 60 / 100,
        sp_opts = [WithPrefilter (Some (RequirePrefix [''E'', ''G''])),
          WithBoundary BoundaryAlnum,
          WithContext (30 / 100) [utf8_encode [25252, 29031], ''passport'']]\<rparr>,
      \<lparr>sp_name = ''cn_license_plate'', sp_typ = ''LICENSE_PLATE'',
        sp_expr = Seq (Cls province_class) (Seq (Cls [(65, 72), (74, 78), (80, 90)]) (Seq
          (re_rep 4 2 (Cls [(65, 72), (74, 78), (80, 90), (48, 57)])) (Cls [(65, 72), (74, 78), (80, 90),
          (48, 57), (25346, 25346), (23398, 23398), (35686, 35686), (28207, 28207), (28595, 28595)]))),
        sp_score = 90 / 100,
        sp_opts = [WithPrefilter (Some RequireCJK)]\<rparr>]"

definition de_specs :: "spec list" where
  "de_specs =
     [\<lparr>sp_name = ''de_steuer_id'', sp_typ = ''ID_CARD'', sp_expr = re_rep 11 0 (Cls [(48, 57)]),
        sp_score = 90 / 100,
        sp_opts = [WithPrefilter (Some RequireDigit),
          WithBoundary BoundaryDigit,
          WithValidator (Some (\<lambda>s. Some (GermanyTaxIDValid s))) False,
          WithContext contextBoost [''steuer'', ''steueridentifikationsnummer'', ''tax id'',
            utf8_encode [31246, 21495]]]\<rparr>,
      \<lparr>sp_name = ''de_ust_idnr'', sp_typ = ''USCC'',
        sp_expr = Seq (re_lit ''DE'') (re_rep 9 0 (Cls [(48, 57)])),
        sp_score = 85 / 100,
        sp_opts = [WithPrefilter (Some (RequirePrefix [''DE''])),
          WithBoundary BoundaryAlnum,
          WithContext contextBoost [''ust'', ''umsatzsteuer'', ''vat'']]\<rparr>]"

definition es_specs :: "spec list" where
  "es_specs =
     [\<lparr>sp_name = ''es_dni_nie'', sp_typ = ''ID_CARD'',
        sp_expr = Seq (re_opt (Cls [(88, 88), (89, 89), (90, 90), (120, 120), (121, 121), (122, 122)]))
          (Seq (re_rep 7 1 (Cls [(48, 57)])) (Seq (re_opt (Cls [(45, 45)])) (Cls [(65, 90), (97, 122)]))),
        sp_score = 90 / 100,
        sp_opts = [WithPrefilter (Some RequireDigit),
          WithBoundary BoundaryAlnum,
          WithValidator (Some (\<lambda>s. Some (SpainDNIValid s))) True,
          WithContext contextBoost [''dni'', ''nie'', ''documento'', utf8_encode [36523, 20221,
            35777]]]\<rparr>]"

definition it_specs :: "spec list" where
  "it_specs =
     [\<lparr>sp_name = ''it_codice_fiscale'', sp_typ = ''ID_CARD'',
        sp_expr = Seq (re_rep 6 0 (Cls [(65, 90), (97, 122)])) (Seq (re_rep 2 0 (Cls [(48, 57)])) (Seq
          (Cls [(65, 90), (97, 122)]) (Seq (re_rep 2 0 (Cls [(48, 57)])) (Seq (Cls [(65, 90), (97, 122)])
          (Seq (re_rep 3 0 (Cls [(48, 57)])) (Cls [(65, 90), (97, 122)])))))),
        sp_score = 90 / 100,
        sp_opts = [WithPrefilter (Some RequireDigit),
          WithBoundary BoundaryAlnum,
          WithValidator (Some (\<lambda>s. Some (ItalyCodiceFiscaleValid s))) False,
          WithContext contextBoost [''codice fiscale'', ''cf'', utf8_encode [31246, 21495],
            ''fiscal code'']]\<rparr>,
      \<lparr>sp_name = ''it_partita_iva'', sp_typ = ''USCC'', sp_expr = re_rep 11 0 (Cls [(48, 57)]),
        sp_score = 80 / 100,
        sp_opts = [WithPrefilter (Some RequireDigit),
          WithBoundary BoundaryDigit,
          WithValidator (Some (\<lambda>s. Some (LuhnValid s))) False,
          WithContext (15 / 100) [''partita iva'', ''p.iva'', ''vat'']]\<rparr>]"

definition us_specs :: "spec list" where
  "us_specs =
     [\<lparr>sp_name = ''us_ssn'', sp_typ = ''SSN'',
        sp_expr = Seq (re_rep 3 0 (Cls [(48, 57)])) (Seq (re_byte CHR ''-'') (Seq (re_rep 2 0 (Cls [(48,
          57)])) (Seq (re_byte CHR ''-'') (re_rep 4 0 (Cls [(48, 57)]))))),
        sp_score = 75 / 100,
        sp_opts = [WithPrefilter (Some (RequireByte ''-'')),
          WithBoundary BoundaryDigit,
          WithContext (20 / 100) [''ssn'', ''social security'', utf8_encode [31038, 20250, 23433, 20840,
            21495]]]\<rparr>]"

section \<open>Building a pack\<close>

fun buildAll :: "spec list \<Rightarrow> recognizer_error + pattern_recognizer list" where
  "buildAll [] = Inr []"
| "buildAll (s # specs) =
     (case NewPatternRecognizer (sp_name s) (sp_typ s) (Some (sp_expr s)) (sp_score s) (sp_opts s) of
        Inl e \<Rightarrow> Inl e
      | Inr r \<Rightarrow> (case buildAll specs of Inl e \<Rightarrow> Inl e | Inr out \<Rightarrow> Inr (r # out)))"

record pack =
  pk_Code :: string
  pk_Name :: string
  pk_Build :: "recognizer_error + pattern_recognizer list"

type_synonym pack_registry = "(string, pack) gomap"

text \<open>\<open>register\<close> panics (None) on a code that is taken.\<close>

definition register_pack :: "pack \<Rightarrow> pack_registry \<Rightarrow> pack_registry option" where
  "register_pack p registry =
     (if gm_get registry (pk_Code p) \<noteq> None then None else Some (gm_set (pk_Code p) p registry))"

definition builtin_packs :: "pack list" where
  "builtin_packs =
     [\<lparr>pk_Code = ''CN'', pk_Name = utf8_encode [20013, 22269, 22823, 38470] @ '' / '' @ ''Mainland China'',
        pk_Build = buildAll cn_specs\<rparr>,
      \<lparr>pk_Code = ''DE'', pk_Name = utf8_encode [24503, 22269] @ '' / '' @ ''Germany'',
        pk_Build = buildAll de_specs\<rparr>,
      \<lparr>pk_Code = ''ES'', pk_Name = utf8_encode [35199, 29677, 29273] @ '' / '' @ ''Spain'',
        pk_Build = buildAll es_specs\<rparr>,
      \<lparr>pk_Code = ''GEN'', pk_Name = ''Jurisdiction-neutral / '' @ utf8_encode [36890, 29992],
        pk_Build = buildAll generic_specs\<rparr>,
      \<lparr>pk_Code = ''IT'', pk_Name = utf8_encode [24847, 22823, 21033] @ '' / '' @ ''Italy'',
        pk_Build = buildAll it_specs\<rparr>,
      \<lparr>pk_Code = ''US'', pk_Name = utf8_encode [32654, 22269] @ '' / '' @ ''United States'',
        pk_Build = buildAll us_specs\<rparr>]"

text \<open>The registry after the init functions of the package have run.\<close>

definition init_packs :: "pack_registry option" where
  "init_packs = fold (\<lambda>p reg. Option.bind reg (register_pack p)) builtin_packs (Some [])"

section \<open>Loading\<close>

definition normalizeCode :: "string \<Rightarrow> string" where
  "normalizeCode code = map (\<lambda>c. if is_lower c then char_of (byte c - 32) else c) code"

text \<open>The insertion sort: an element sinks below the larger ones in front of it.\<close>

fun sink :: "string \<Rightarrow> string list \<Rightarrow> string list" where
  "sink s [] = [s]"
| "sink s (p # before) = (if bytes_key s < bytes_key p then p # sink s before else s # p # before)"

definition sortedStrings :: "string list \<Rightarrow> string list" where
  "sortedStrings xs = rev (foldl (\<lambda>before s. sink s before) [] xs)"

definition Available :: "pack_registry \<Rightarrow> string list" where
  "Available registry = sortedStrings (map fst registry)"

definition pack_Get :: "pack_registry \<Rightarrow> string \<Rightarrow> pack option" where
  "pack_Get registry code = gm_get registry (normalizeCode code)"

datatype load_error =
    UnknownPack string "string list"
  | BuildFailed string recognizer_error
  | RegisterFailed string register_error
  | NoPacks "string list"

fun load_loop :: "pack_registry \<Rightarrow> string list \<Rightarrow> string list \<Rightarrow> pattern_recognizer list \<Rightarrow>
    load_error + pattern_recognizer list" where
  "load_loop registry seen [] out = Inr out"
| "load_loop registry seen (raw # codes) out =
     (let code = normalizeCode raw in
      if code \<in> set seen then load_loop registry seen codes out
      else case gm_get registry code of
        None \<Rightarrow> Inl (UnknownPack raw (Available registry))
      | Some p \<Rightarrow>
          (case pk_Build p of
             Inl e \<Rightarrow> Inl (BuildFailed code e)
           | Inr recs \<Rightarrow> load_loop registry (code # seen) codes (out @ recs)))"

definition Load :: "pack_registry \<Rightarrow> string list \<Rightarrow> load_error + pattern_recognizer list" where
  "Load registry codes = load_loop registry [] codes []"

text \<open>Registration stops at the first error and keeps what was registered before.\<close>

fun register_all :: "case_tables \<Rightarrow> pattern_recognizer list \<Rightarrow> registry \<Rightarrow> load_error option \<times> registry" where
  "register_all ct [] reg = (None, reg)"
| "register_all ct (r # recs) reg =
     (case registry_Register reg (Some (pattern_as_recognizer ct r)) of
        (Some e, reg) \<Rightarrow> (Some (RegisterFailed (pr_name r) e), reg)
      | (None, reg) \<Rightarrow> register_all ct recs reg)"

definition LoadInto :: "case_tables \<Rightarrow> pack_registry \<Rightarrow> registry \<Rightarrow> string list \<Rightarrow> load_error option \<times> registry" where
  "LoadInto ct registry reg codes =
     (case Load registry codes of
        Inl e \<Rightarrow> (Some e, reg)
      | Inr recs \<Rightarrow> register_all ct recs reg)"

definition NewRegistry ::
    "case_tables \<Rightarrow> pack_registry \<Rightarrow> string list \<Rightarrow> string list \<Rightarrow> load_error + registry" where
  "NewRegistry ct registry codes disabled =
     (if codes = [] then Inl (NoPacks (Available registry))
      else case Load registry codes of
        Inl e \<Rightarrow> Inl e
      | Inr recs \<Rightarrow>
          (case register_all ct (filter (\<lambda>r. pr_entityType r \<notin> set disabled) recs) [] of
             (Some e, reg) \<Rightarrow> Inl e
           | (None, reg) \<Rightarrow> Inr reg))"

text \<open>\<open>MustNewRegistry\<close> panics (None) where \<open>NewRegistry\<close> returns an error.\<close>

definition MustNewRegistry ::
    "case_tables \<Rightarrow> pack_registry \<Rightarrow> string list \<Rightarrow> string list \<Rightarrow> registry option" where
  "MustNewRegistry ct registry codes disabled =
     (case NewRegistry ct registry codes disabled of Inl e \<Rightarrow> None | Inr reg \<Rightarrow> Some reg)"

section \<open>Recognizers of a table\<close>

definition of_spec :: "spec \<Rightarrow> pattern_recognizer" where
  "of_spec s = fold apply_pattern_option (sp_opts s)
     \<lparr>pr_prefilter = None, pr_name = sp_name s, pr_entityType = sp_typ s, pr_pattern = sp_expr s,
      pr_boundary = BoundaryNone, pr_validate = None, pr_normalize = False, pr_baseScore = sp_score s,
      pr_contexts = [], pr_contextBoost = 0, pr_requireContext = False, pr_contextWindow = 48\<rparr>"

lemma of_spec_fields [simp]:
  "pr_name (of_spec s) = sp_name s" "pr_entityType (of_spec s) = sp_typ s"
  "pr_pattern (of_spec s) = sp_expr s" "pr_baseScore (of_spec s) = sp_score s"
  by (simp_all add: of_spec_def)

definition score_ok :: "spec \<Rightarrow> bool" where
  "score_ok s \<longleftrightarrow> 0 < sp_score s \<and> sp_score s \<le> 1"

lemma buildAll_ok: "list_all score_ok specs \<Longrightarrow> buildAll specs = Inr (map of_spec specs)"
  by (induction specs) (auto simp: NewPatternRecognizer_def of_spec_def score_ok_def)

definition all_specs :: "spec list" where
  "all_specs = cn_specs @ de_specs @ es_specs @ generic_specs @ it_specs @ us_specs"

lemmas spec_tables = cn_specs_def de_specs_def es_specs_def generic_specs_def it_specs_def us_specs_def

lemma all_specs_scores: "list_all score_ok all_specs"
  by (simp add: all_specs_def spec_tables score_ok_def)

lemma all_specs_names: "distinct (map sp_name all_specs)"
  by (simp add: all_specs_def spec_tables)

lemma all_specs_named: "list_all (\<lambda>s. sp_name s \<noteq> []) all_specs"
  by (simp add: all_specs_def spec_tables)

text \<open>The validators of the tables never panic.\<close>

lemma BankCardValid_answers: "\<exists>b. BankCardValid s = Some b"
  using BankCardValid_total by blast

lemma all_specs_windows: "list_all (\<lambda>s. pr_contextWindow (of_spec s) = 48) all_specs"
  by (simp add: all_specs_def spec_tables of_spec_def)

lemma all_specs_validate: "list_all (\<lambda>s. validates_all (of_spec s)) all_specs"
  by (simp add: all_specs_def spec_tables of_spec_def validates_all_def BankCardValid_answers)

section \<open>What the patterns are bound to contain\<close>

lemma must_upto [simp]: "\<not> must C (re_upto n r)"
  by (cases n) (simp_all add: re_opt_def)

lemma must_rep [simp]: "must C (re_rep n k r) \<longleftrightarrow> 0 < n \<and> must C r"
  by (induction n k r rule: re_rep.induct) auto

lemma must_lit [simp]: "must C (re_lit w) \<longleftrightarrow> (\<exists>c \<in> set w. C [(byte c, byte c)])"
  by (induction w) (simp_all add: re_byte_def)

lemma must_small [simp]:
  "must C (re_byte c) = C [(byte c, byte c)]" "\<not> must C (re_opt r)" "must C (re_plus r) = must C r"
  "must C (re_atleast n r) \<longleftrightarrow> 0 < n \<and> must C r"
  by (auto simp: re_byte_def re_opt_def re_plus_def re_atleast_def)

lemma consuming_must: "must (\<lambda>rs. True) e \<Longrightarrow> consuming e"
  unfolding consuming_def using must_match [of "\<lambda>rs. True" "\<lambda>c. True" e _ 0] by (auto simp: leads_def)

lemma all_specs_consume: "list_all (\<lambda>s. consuming (sp_expr s)) all_specs"
  by (simp add: all_specs_def spec_tables consuming_must ipv4_octet_def uscc_class_def)


section \<open>Sound prefilters\<close>

lemma class_facts [simp]:
  "ascii_class is_digit [(48, 57)]" "ascii_class is_upper [(65, 90)]"
  "ascii_class (\<lambda>d. d = CHR ''@'') [(64, 64)]" "ascii_class (\<lambda>d. d = CHR ''-'') [(45, 45)]"
  "ascii_class (\<lambda>d. d = CHR ''+'') [(43, 43)]" "ascii_class (\<lambda>d. d = CHR ''.'') [(46, 46)]"
  "ascii_class (\<lambda>d. d = CHR ''E'' \<or> d = CHR ''G'') [(69, 69), (71, 71)]"
  by code_simp+

lemma byte_facts: "byte CHR ''@'' = 64" "byte CHR ''-'' = 45" "byte CHR ''+'' = 43" "byte CHR ''.'' = 46"
  by (simp_all add: byte_def)

lemma prefilter_soundI:
  "pr_prefilter p = Some RequireDigit \<Longrightarrow> must (ascii_class is_digit) (pr_pattern p) \<Longrightarrow> prefilter_sound p"
  "pr_prefilter p = Some RequireUpperAlpha \<Longrightarrow> must (ascii_class is_upper) (pr_pattern p) \<Longrightarrow> prefilter_sound p"
  "pr_prefilter p = Some (RequireByte [c]) \<Longrightarrow> byte c < 128 \<Longrightarrow> must (ascii_class (\<lambda>d. d = c)) (pr_pattern p) \<Longrightarrow>
     prefilter_sound p"
  "pr_prefilter p = Some (RequirePrefix [w]) \<Longrightarrow> ascii w \<Longrightarrow> pr_pattern p = Seq (re_lit w) e \<Longrightarrow> prefilter_sound p"
  using sound_digit sound_upper sound_byte sound_prefix [of w e _ _ "[w]"] by (auto simp: prefilter_sound_def)

lemma passport_sound:
  assumes "pr_prefilter p = Some (RequirePrefix [''E'', ''G''])"
    "must (ascii_class (\<lambda>d. d = CHR ''E'' \<or> d = CHR ''G'')) (pr_pattern p)"
  shows "prefilter_sound p"
proof -
  have "RequirePrefix [''E'', ''G''] s" if "is_match (pr_pattern p) s 0 m" for s m
  proof -
    have "\<exists>c \<in> set s. c = CHR ''E'' \<or> c = CHR ''G''"
      by (rule must_ascii [OF assms(2) that])
    then obtain c where "c \<in> set s" "c = CHR ''E'' \<or> c = CHR ''G''" by blast
    then show ?thesis using split_list [of c s] by (auto simp: RequirePrefix_def contains_iff)
  qed
  then show ?thesis using assms(1) unfolding prefilter_sound_def by auto
qed

lemma cjk_lead:
  assumes "19968 \<le> fst (decode_rune (c # s))" "fst (decode_rune (c # s)) \<le> 40959"
  shows "228 \<le> byte c \<and> byte c \<le> 233"
proof -
  have d2: "fst (decode2 (byte c) s) < 19968 \<or> 40959 < fst (decode2 (byte c) s)" if "byte c < 224"
    using that by (auto simp: decode2_def rune_error_def byte_between_def cont_def split: list.splits)
  have d3: "228 \<le> byte c \<and> byte c \<le> 233"
    if "19968 \<le> fst (decode3 (byte c) s)" "fst (decode3 (byte c) s) \<le> 40959" "224 \<le> byte c"
    using that by (auto simp: decode3_def rune_error_def byte_between_def cont_def second3_def split: list.splits if_splits)
  have d4: "40959 < fst (decode4 (byte c) s)" if "240 \<le> byte c"
    using that
    by (cases "byte c = 240")
      (auto simp: decode4_def rune_error_def byte_between_def cont_def second4_def split: list.splits if_splits)
  show ?thesis using assms d2 d3 d4 by (auto simp: Let_def rune_error_def split: if_splits)
qed

lemma plate_sound:
  assumes "pr_prefilter p = Some RequireCJK" "must (\<lambda>rs. rs = province_class) (pr_pattern p)"
  shows "prefilter_sound p"
proof -
  have "list_all (\<lambda>(lo, hi). 19968 \<le> lo \<and> hi \<le> 40959) province_class" by (simp add: province_class_def)
  then have "19968 \<le> r \<and> r \<le> 40959" if "in_ranges province_class r" for r
    using that unfolding in_ranges_def list_all_iff by fastforce
  then have "leads (\<lambda>c. 228 \<le> byte c \<and> byte c \<le> 233) province_class"
    unfolding leads_def using cjk_lead by blast
  then have "\<exists>c \<in> set s. 228 \<le> byte c \<and> byte c \<le> 233" if "is_match (pr_pattern p) s 0 m" for s m
    using must_match [OF _ assms(2) that, of "\<lambda>c. 228 \<le> byte c \<and> byte c \<le> 233"] by auto
  then show ?thesis using assms(1) by (simp add: prefilter_sound_def RequireCJK_def)
qed

lemma all_specs_prefilters: "\<forall>s \<in> set all_specs. sp_name s = ''cn_uscc'' \<or> prefilter_sound (of_spec s)"
  unfolding all_specs_def spec_tables
  by (simp add: of_spec_def prefilter_soundI passport_sound plate_sound byte_facts ascii_def byte_def ipv4_octet_def)

section \<open>The registry of packs\<close>

definition packs :: pack_registry where
  "packs = map (\<lambda>p. (pk_Code p, p)) builtin_packs"

lemma init_packs_eq: "init_packs = Some packs"
  by (simp add: init_packs_def packs_def builtin_packs_def register_pack_def)

definition specs_of :: "string \<Rightarrow> spec list" where
  "specs_of code =
     (case map_of [(''CN'', cn_specs), (''DE'', de_specs), (''ES'', es_specs), (''GEN'', generic_specs),
        (''IT'', it_specs), (''US'', us_specs)] code of None \<Rightarrow> [] | Some ss \<Rightarrow> ss)"

definition known_codes :: "string list" where
  "known_codes = [''CN'', ''DE'', ''ES'', ''GEN'', ''IT'', ''US'']"

lemma known_specs_subset: "c \<in> set known_codes \<Longrightarrow> set (specs_of c) \<subseteq> set all_specs"
  by (auto simp: known_codes_def specs_of_def all_specs_def)

lemma list_all_sub: "set xs \<subseteq> set ys \<Longrightarrow> list_all P ys \<Longrightarrow> list_all P xs"
  by (auto simp: list_all_iff)

lemma build_known: "c \<in> set known_codes \<Longrightarrow> \<exists>p. gm_get packs c = Some p \<and> pk_Build p = Inr (map of_spec (specs_of c))"
proof -
  assume c: "c \<in> set known_codes"
  have "buildAll (specs_of c) = Inr (map of_spec (specs_of c))"
    by (rule buildAll_ok [OF list_all_sub [OF known_specs_subset [OF c] all_specs_scores]])
  moreover have "list_all (\<lambda>c. \<exists>p. gm_get packs c = Some p \<and> pk_Build p = buildAll (specs_of c)) known_codes"
    by (simp add: packs_def builtin_packs_def known_codes_def specs_of_def)
  ultimately show ?thesis using c by (auto simp: list_all_iff)
qed

lemma get_known: "gm_get packs c = None \<longleftrightarrow> c \<notin> set known_codes"
  by (simp add: packs_def builtin_packs_def known_codes_def)

definition chosen :: "string list \<Rightarrow> spec list" where
  "chosen codes = concat (map specs_of (dedup [] (map normalizeCode codes)))"

lemma load_loop_known:
  assumes "set seen \<subseteq> set known_codes"
  shows "if normalizeCode ` set codes \<subseteq> set known_codes
    then load_loop packs seen codes out = Inr (out @ map of_spec (concat (map specs_of (dedup seen (map normalizeCode codes)))))
    else \<exists>raw. raw \<in> set codes \<and> normalizeCode raw \<notin> set known_codes \<and>
      load_loop packs seen codes out = Inl (UnknownPack raw (Available packs))"
  using assms
proof (induction packs seen codes out rule: load_loop.induct)
  case (2 seen raw codes out)
  let ?c = "normalizeCode raw"
  consider "?c \<in> set seen" | "?c \<notin> set known_codes" "?c \<notin> set seen" | "?c \<in> set known_codes" "?c \<notin> set seen" by blast
  then show ?case
  proof cases
    case 1
    then show ?thesis using 2 by (auto simp: Let_def split: if_splits)
  next
    case 2
    then show ?thesis using get_known [of ?c] by (auto simp: Let_def)
  next
    case 3
    obtain p where p: "gm_get packs ?c = Some p" "pk_Build p = Inr (map of_spec (specs_of ?c))"
      using build_known [OF 3(1)] by blast
    show ?thesis using 2(2) [OF refl 3(2) p] 2(3) 3 p by (auto simp: Let_def split: if_splits)
  qed
qed simp


end
