(* ===== verification/PackDetect.thy ===== *)
theory PackDetect imports Packs begin

text \<open>
  What a registry built from the country packs detects: construction decided by the codes alone,
  detection without errors, with sound and complete results, and prefilters that change nothing,
  except the one of the credit-code recognizer.
\<close>

section \<open>Sorting by insertion\<close>

lemma sink_mset: "mset (sink s before) = add_mset s (mset before)"
  by (induction before) auto

lemma sink_sorted: "sorted (map bytes_key (rev before)) \<Longrightarrow> sorted (map bytes_key (rev (sink s before)))"
proof (induction before)
  case (Cons p before)
  have "set (sink s before) = insert s (set before)"
    using sink_mset [of s before] by (metis set_mset_add_mset_insert set_mset_mset)
  with Cons show ?case by (auto simp: sorted_append)
qed simp

lemma sortedStrings_sorted: "mset (sortedStrings xs) = mset xs \<and> sorted (map bytes_key (sortedStrings xs))"
proof -
  have "mset (foldl (\<lambda>before s. sink s before) acc xs) = mset acc + mset xs \<and>
      sorted (map bytes_key (rev (foldl (\<lambda>before s. sink s before) acc xs)))"
    if "sorted (map bytes_key (rev acc))" for acc
    using that
  proof (induction xs arbitrary: acc)
    case (Cons x xs)
    from Cons.IH [OF sink_sorted [OF Cons.prems]] show ?case by (simp add: sink_mset)
  qed simp
  from this [of "[]"] show ?thesis by (simp add: sortedStrings_def)
qed

section \<open>Registration\<close>

lemma register_all_fresh:
  assumes "distinct (map pr_name rs)" "\<forall>r \<in> set rs. pr_name r \<noteq> [] \<and> gm_get reg (pr_name r) = None"
  shows "register_all ct rs reg = (None, reg @ map (\<lambda>r. (pr_name r, pattern_as_recognizer ct r)) rs)"
  using assms
proof (induction rs arbitrary: reg)
  case (Cons r rs)
  let ?reg = "gm_set (pr_name r) (pattern_as_recognizer ct r) reg"
  have reg: "registry_Register reg (Some (pattern_as_recognizer ct r)) = (None, ?reg)"
    using Cons.prems(2) by (simp add: registry_Register_def pattern_as_recognizer_def)
  have "\<forall>q \<in> set rs. pr_name q \<noteq> [] \<and> gm_get ?reg (pr_name q) = None"
    using Cons.prems by (auto simp: gm_simps image_iff)
  from Cons.IH [OF _ this] Cons.prems show ?case by (simp add: reg gm_set_fresh)
qed simp

lemma distinct_concat_map:
  assumes "distinct (concat (map f cs))"
  shows "c \<in> set cs \<Longrightarrow> distinct (f c)"
    and "c \<in> set cs \<Longrightarrow> d \<in> set cs \<Longrightarrow> c \<noteq> d \<Longrightarrow> set (f c) \<inter> set (f d) = {}"
  using assms by (induction cs) fastforce+

lemma known_names: "distinct (concat (map (\<lambda>c. map sp_name (specs_of c)) known_codes))"
  using all_specs_names by (simp add: all_specs_def known_codes_def specs_of_def)

lemma chosen_names:
  assumes "distinct cs" "set cs \<subseteq> set known_codes"
  shows "distinct (map sp_name (concat (map specs_of cs)))"
  using assms
proof (induction cs)
  case (Cons c cs)
  have "distinct (map sp_name (specs_of c))"
    using distinct_concat_map(1) [OF known_names, of c] Cons.prems by simp
  moreover have "sp_name ` set (specs_of c) \<inter> sp_name ` set (specs_of d) = {}" if "d \<in> set cs" for d
    using distinct_concat_map(2) [OF known_names, of c d] Cons.prems that by auto
  then have "sp_name ` set (specs_of c) \<inter> sp_name ` set (concat (map specs_of cs)) = {}" by fastforce
  ultimately show ?case using Cons by auto
qed simp

lemma dedup_set: "set (dedup seen xs) = set xs - set seen"
  by (induction seen xs rule: dedup.induct) auto

lemma dedup_distinct: "distinct (dedup seen xs)"
  by (induction seen xs rule: dedup.induct) (auto simp: dedup_set)

lemma chosen_mem: "s \<in> set (chosen codes) \<longleftrightarrow> (\<exists>c \<in> set codes. s \<in> set (specs_of (normalizeCode c)))"
  by (auto simp: chosen_def dedup_set)

lemma specs_of_all: "set (specs_of c) \<subseteq> set all_specs"
proof (cases "c \<in> set known_codes")
  case True
  then show ?thesis by (rule known_specs_subset)
next
  case False
  then show ?thesis by (simp add: specs_of_def known_codes_def)
qed

lemma chosen_subset: "set (chosen codes) \<subseteq> set all_specs"
  using specs_of_all by (fastforce simp: chosen_mem)

section \<open>Construction\<close>

definition enabled :: "string list \<Rightarrow> string list \<Rightarrow> spec list" where
  "enabled codes disabled = filter (\<lambda>s. sp_typ s \<notin> set disabled) (chosen codes)"

lemma NewRegistry_cases:
  "if codes \<noteq> [] \<and> normalizeCode ` set codes \<subseteq> set known_codes
   then NewRegistry ct packs codes disabled =
     Inr (map (\<lambda>s. (sp_name s, pattern_as_recognizer ct (of_spec s))) (enabled codes disabled))
   else NewRegistry ct packs codes disabled = Inl (NoPacks (Available packs)) \<and> codes = [] \<or>
     (\<exists>raw. raw \<in> set codes \<and> normalizeCode raw \<notin> set known_codes \<and>
        NewRegistry ct packs codes disabled = Inl (UnknownPack raw (Available packs)))"
proof (cases "codes \<noteq> [] \<and> normalizeCode ` set codes \<subseteq> set known_codes")
  case True
  then have l: "Load packs codes = Inr (map of_spec (chosen codes))"
    using load_loop_known [of "[]" codes "[]"] by (simp add: Load_def chosen_def)
  let ?rs = "filter (\<lambda>r. pr_entityType r \<notin> set disabled) (map of_spec (chosen codes))"
  have rs: "?rs = map of_spec (enabled codes disabled)"
    by (simp add: enabled_def filter_map o_def)
  have d: "distinct (map sp_name (chosen codes))"
    unfolding chosen_def using True by (intro chosen_names dedup_distinct) (auto simp: dedup_set)
  then have "distinct (map pr_name ?rs)"
    unfolding rs enabled_def by (simp add: o_def distinct_map_filter)
  moreover have "\<forall>r \<in> set ?rs. pr_name r \<noteq> [] \<and> gm_get ([] :: registry) (pr_name r) = None"
    using chosen_subset all_specs_named by (fastforce simp: list_all_iff)
  ultimately have "register_all ct ?rs [] = (None, map (\<lambda>r. (pr_name r, pattern_as_recognizer ct r)) ?rs)"
    using register_all_fresh [of ?rs "[]" ct] by simp
  then show ?thesis using True l by (simp add: NewRegistry_def rs o_def)
next
  case False
  show ?thesis
  proof (cases "codes = []")
    case True
    then show ?thesis by (simp add: NewRegistry_def)
  next
    case ne: False
    then have n: "\<not> normalizeCode ` set codes \<subseteq> set known_codes" using False by blast
    then obtain raw where "raw \<in> set codes" "normalizeCode raw \<notin> set known_codes"
      "Load packs codes = Inl (UnknownPack raw (Available packs))"
      using load_loop_known [of "[]" codes "[]"] by (auto simp: Load_def)
    then show ?thesis using n ne by (auto simp: NewRegistry_def)
  qed
qed

section \<open>Detection\<close>

lemma spec_Recognize:
  assumes "s \<in> set all_specs"
  shows "\<exists>es. Recognize ct (of_spec s) text = Some es \<and> (\<forall>e \<in> set es. reported (of_spec s) text e) \<and> apart es"
proof -
  have "pr_contextWindow (of_spec s) = 48" using all_specs_windows assms by (simp add: list_all_iff)
  moreover have "validates_all (of_spec s)" using all_specs_validate assms by (simp add: list_all_iff)
  moreover have "consuming (sp_expr s)" using all_specs_consume assms by (simp add: list_all_iff)
  moreover have "sp_score s \<le> 1" using all_specs_scores assms by (simp add: list_all_iff score_ok_def)
  ultimately show ?thesis by (intro Recognize_ok) simp_all
qed

lemma collect_specs:
  assumes "set ss \<subseteq> set all_specs"
  shows "registry_collect (map (\<lambda>s. pattern_as_recognizer ct (of_spec s)) ss) text found =
    Inr (found @ concat (map (\<lambda>s. the (Recognize ct (of_spec s) text)) ss))"
  using assms
proof (induction ss arbitrary: found)
  case (Cons s ss)
  obtain es where "Recognize ct (of_spec s) text = Some es" using spec_Recognize [of s ct "text"] Cons.prems by auto
  with Cons show ?case by (simp add: pattern_as_recognizer_def)
qed simp

lemma builtin_raw:
  assumes "NewRegistry ct packs codes disabled = Inr reg"
  shows "registry_Detect reg text =
    Inr (ResolveOverlaps (concat (map (\<lambda>s. the (Recognize ct (of_spec s) text)) (enabled codes disabled))))"
proof -
  have reg: "reg = map (\<lambda>s. (sp_name s, pattern_as_recognizer ct (of_spec s))) (enabled codes disabled)"
    using assms NewRegistry_cases [of codes ct disabled] by (auto split: if_splits)
  have sub: "set (enabled codes disabled) \<subseteq> set all_specs" using chosen_subset by (auto simp: enabled_def)
  show ?thesis using collect_specs [OF sub, of ct "text" "[]"] by (simp add: registry_Detect_def reg o_def)
qed

lemma reported_nonempty: "reported p text e \<Longrightarrow> nonempty_span e"
  by (simp add: reported_def span_ok_def nonempty_span_def)

lemma registry_nothing:
  assumes "NewRegistry ct packs codes disabled = Inr reg"
    and "\<And>s e. s \<in> set (enabled codes disabled) \<Longrightarrow> \<not> reported (of_spec s) text e"
  shows "registry_Detect reg text = Inr []"
proof -
  have "the (Recognize ct (of_spec s) text) = []" if s: "s \<in> set (enabled codes disabled)" for s
  proof -
    have "s \<in> set all_specs" using s chosen_subset by (auto simp: enabled_def)
    then obtain es where es: "Recognize ct (of_spec s) text = Some es" "\<forall>e \<in> set es. reported (of_spec s) text e"
      using spec_Recognize by blast
    then have "es = []" using assms(2) [OF s] by (cases es) auto
    then show ?thesis using es(1) by simp
  qed
  then have "concat (map (\<lambda>s. the (Recognize ct (of_spec s) text)) (enabled codes disabled)) = []" by simp
  from builtin_raw [OF assms(1), of "text", unfolded this] show ?thesis by (simp add: ResolveOverlaps_def)
qed

lemma builtin_Detect:
  assumes "NewRegistry ct packs codes disabled = Inr reg"
  shows "\<exists>es. registry_Detect reg text = Inr es \<and> apart es \<and>
    (\<forall>e \<in> set es. \<exists>s \<in> set (enabled codes disabled). reported (of_spec s) text e) \<and>
    (\<forall>s \<in> set (enabled codes disabled). \<forall>found e. Recognize ct (of_spec s) text = Some found \<and> e \<in> set found \<longrightarrow>
       (\<exists>k \<in> set es. overlaps e k \<and> rank_key k \<le> rank_key e))"
proof -
  let ?ss = "enabled codes disabled"
  let ?raw = "concat (map (\<lambda>s. the (Recognize ct (of_spec s) text)) ?ss)"
  have sub: "set ?ss \<subseteq> set all_specs" using chosen_subset by (auto simp: enabled_def)
  note det = builtin_raw [OF assms, of "text"]
  have rep: "\<exists>s \<in> set ?ss. reported (of_spec s) text e" if "e \<in> set ?raw" for e
  proof -
    obtain s where s: "s \<in> set ?ss" "e \<in> set (the (Recognize ct (of_spec s) text))" using \<open>e \<in> set ?raw\<close> by auto
    obtain es where "Recognize ct (of_spec s) text = Some es" "\<forall>e \<in> set es. reported (of_spec s) text e"
      using spec_Recognize [of s ct "text"] s(1) sub by blast
    then show ?thesis using s by auto
  qed
  then have ne: "\<forall>e \<in> set ?raw. nonempty_span e" using reported_nonempty by blast
  note props = ResolveOverlaps_props [OF ne]
  have "\<exists>k \<in> set (ResolveOverlaps ?raw). overlaps e k \<and> rank_key k \<le> rank_key e"
    if "s \<in> set ?ss" "Recognize ct (of_spec s) text = Some found" "e \<in> set found" for s found e
  proof (rule props(3))
    show "e \<in> set ?raw" using that by (auto intro!: bexI [of _ s])
  qed
  then show ?thesis using det props(1,2) rep unfolding apart_def by (intro exI [of _ "ResolveOverlaps ?raw"]) blast
qed

text \<open>A registry can be built from pack codes exactly when at least one is named and each of them, in
  upper or lower case, is one of the six codes: no pack fails to build and no two recognizers of
  any choice of packs have the same name.\<close>

theorem NewRegistry_decides:
  "init_packs = Some packs \<and>
   (is_ok (NewRegistry ct packs codes disabled) \<longleftrightarrow>
      codes \<noteq> [] \<and> normalizeCode ` set codes \<subseteq> {''CN'', ''DE'', ''ES'', ''GEN'', ''IT'', ''US''})"
proof -
  have k: "set known_codes = {''CN'', ''DE'', ''ES'', ''GEN'', ''IT'', ''US''}" by (simp add: known_codes_def)
  have "is_ok (NewRegistry ct packs codes disabled) \<longleftrightarrow> codes \<noteq> [] \<and> normalizeCode ` set codes \<subseteq> set known_codes"
    using NewRegistry_cases [of codes ct disabled] by (auto simp: is_ok_iff split: if_splits)
  then show ?thesis unfolding k using init_packs_eq by blast
qed

text \<open>
  C28: Detection with the country packs never fails. The entities lie in the text with the bytes they
  name, in order and apart; each was found by a recognizer of the chosen packs whose type is not
  disabled, at its boundary and with its validator; and whatever such a recognizer finds is
  overlapped by a reported entity that ranks at least as high.
\<close>

theorem builtin_detection:
  assumes "NewRegistry ct packs codes disabled = Inr reg"
  shows "\<exists>es. registry_Detect reg text = Inr es \<and> sorted_wrt (\<lambda>a b. e_end a \<le> e_start b) es \<and>
    (\<forall>e \<in> set es. span_ok text e \<and> e_conf e \<le> 1 \<and> e_type e \<notin> set disabled \<and>
       (\<exists>c \<in> set codes. \<exists>s \<in> set (specs_of (normalizeCode c)). sp_name s = e_det e \<and> reported (of_spec s) text e)) \<and>
    (\<forall>c \<in> set codes. \<forall>s \<in> set (specs_of (normalizeCode c)). sp_typ s \<notin> set disabled \<longrightarrow>
       (\<exists>found. Recognize ct (of_spec s) text = Some found \<and>
          (\<forall>e \<in> set found. \<exists>k \<in> set es. overlaps e k \<and> rank_key k \<le> rank_key e)))"
proof -
  obtain es where es: "registry_Detect reg text = Inr es" "apart es"
    "\<forall>e \<in> set es. \<exists>s \<in> set (enabled codes disabled). reported (of_spec s) text e"
    "\<forall>s \<in> set (enabled codes disabled). \<forall>found e. Recognize ct (of_spec s) text = Some found \<and> e \<in> set found \<longrightarrow>
       (\<exists>k \<in> set es. overlaps e k \<and> rank_key k \<le> rank_key e)"
    using builtin_Detect [OF assms] by blast
  have en: "s \<in> set (enabled codes disabled) \<longleftrightarrow>
      (\<exists>c \<in> set codes. s \<in> set (specs_of (normalizeCode c))) \<and> sp_typ s \<notin> set disabled" for s
    by (auto simp: enabled_def chosen_mem)
  have "span_ok text e \<and> e_conf e \<le> 1 \<and> e_type e \<notin> set disabled \<and>
       (\<exists>c \<in> set codes. \<exists>s \<in> set (specs_of (normalizeCode c)). sp_name s = e_det e \<and> reported (of_spec s) text e)"
    if e: "e \<in> set es" for e
  proof -
    obtain s where s: "s \<in> set (enabled codes disabled)" "reported (of_spec s) text e" using es(3) e by blast
    then show ?thesis using en [of s] by (auto simp: reported_def)
  qed
  moreover have "\<exists>found. Recognize ct (of_spec s) text = Some found \<and>
      (\<forall>e \<in> set found. \<exists>k \<in> set es. overlaps e k \<and> rank_key k \<le> rank_key e)"
    if "c \<in> set codes" "s \<in> set (specs_of (normalizeCode c))" "sp_typ s \<notin> set disabled" for c s
  proof -
    have "s \<in> set all_specs" using that(2) specs_of_all by blast
    then obtain found where "Recognize ct (of_spec s) text = Some found" using spec_Recognize by blast
    moreover have "s \<in> set (enabled codes disabled)" using that en by blast
    ultimately show ?thesis using es(4) by blast
  qed
  ultimately show ?thesis using es(1,2) unfolding apart_def by blast
qed

theorem builtin_detection_witness:
  "\<exists>reg es. NewRegistry \<lparr>ct_upper = (\<lambda>r. r), ct_lower = (\<lambda>r. r)\<rparr> packs [''cn'', ''GEN''] [''IP''] = Inr reg \<and>
     registry_Detect reg ''call 13812345678'' = Inr es \<and> sorted_wrt (\<lambda>a b. e_end a \<le> e_start b) es"
proof -
  let ?ct = "\<lparr>ct_upper = (\<lambda>r. r), ct_lower = (\<lambda>r. r)\<rparr>"
  have "normalizeCode ` set [''cn'', ''GEN''] \<subseteq> set known_codes" by code_simp
  then obtain reg where r: "NewRegistry ?ct packs [''cn'', ''GEN''] [''IP''] = Inr reg"
    using NewRegistry_cases [of "[''cn'', ''GEN'']" ?ct "[''IP'']"] by auto
  from builtin_detection [OF this, of "''call 13812345678''"] r show ?thesis by blast
qed

text \<open>
  C29: The prefilters of the country packs are sound: skipping a recognizer never changes what it
  reports, whatever the text. The only recognizer that this is not shown for is the one for
  the Chinese credit code.
\<close>

theorem prefilters_sound:
  assumes "s \<in> set all_specs" "sp_name s \<noteq> ''cn_uscc''"
  shows "Recognize ct (WithoutPrefilter (of_spec s)) text = Recognize ct (of_spec s) text"
  using all_specs_prefilters assms prefilter_changes_nothing by blast

theorem prefilters_sound_witness:
  "Recognize \<lparr>ct_upper = (\<lambda>r. r), ct_lower = (\<lambda>r. r)\<rparr> (WithoutPrefilter (of_spec (hd us_specs))) ''SSN 078-05-1120'' =
   Recognize \<lparr>ct_upper = (\<lambda>r. r), ct_lower = (\<lambda>r. r)\<rparr> (of_spec (hd us_specs)) ''SSN 078-05-1120''"
proof (rule prefilters_sound)
  show "hd us_specs \<in> set all_specs" by (simp add: all_specs_def us_specs_def)
  show "sp_name (hd us_specs) \<noteq> ''cn_uscc''" by (simp add: us_specs_def)
qed

end
