(* ===== verification/CreditCode.thy ===== *)
theory CreditCode imports PackDetect begin

text \<open>
  The prefilter of the credit-code recognizer (\<open>pii/detect/packs/cn.go\<close>) demands a capital letter,
  which the pattern and the check character do not: credit codes made of digits only are skipped.
\<close>

section \<open>Codes of digits\<close>

definition uscc_spec :: spec where
  "uscc_spec = cn_specs ! 3"

lemma uscc_fields:
  "sp_name uscc_spec = ''cn_uscc''" "sp_typ uscc_spec = ''USCC''" "sp_score uscc_spec = 90 / 100"
  "sp_expr uscc_spec = Seq (re_rep 2 0 uscc_class) (Seq (re_rep 6 0 (Cls [(48, 57)])) (re_rep 10 0 uscc_class))"
  by (simp_all add: uscc_spec_def cn_specs_def)

lemma uscc_in_table: "uscc_spec \<in> set cn_specs"
  by (simp add: uscc_spec_def cn_specs_def)

lemma uscc_recognizer:
  "pr_prefilter (of_spec uscc_spec) = Some RequireUpperAlpha" "pr_boundary (of_spec uscc_spec) = BoundaryAlnum"
  "pr_validate (of_spec uscc_spec) = Some (\<lambda>s. Some (CNUSCCValid s))" "\<not> pr_normalize (of_spec uscc_spec)"
  "pr_contexts (of_spec uscc_spec) = []" "\<not> pr_requireContext (of_spec uscc_spec)"
  by (simp_all add: uscc_spec_def cn_specs_def of_spec_def)

lemma digit_in_classes:
  assumes "is_digit c"
  shows "in_ranges [(48, 57)] (byte c)"
    "in_ranges [(48, 57), (65, 72), (74, 78), (80, 80), (81, 81), (82, 82), (84, 84), (85, 85), (87, 87), (88, 88), (89, 89)] (byte c)"
  using assms by (simp_all add: in_ranges_def is_digit_def in_range_def)

lemma uscc_match_digits:
  assumes "length d = 18" "\<forall>c \<in> set d. is_digit c"
  shows "find_all_string (sp_expr uscc_spec) d = [(0, 18, [])]"
proof -
  let ?e = "sp_expr uscc_spec"
  define u where "u = take 2 d" define v where "v = take 6 (drop 2 d)" define w where "w = drop 8 d"
  have d: "d = u @ v @ w @ []" unfolding u_def v_def w_def
    by (metis append_Nil2 append_take_drop_id drop_drop numeral_Bit0 add_2_eq_Suc' add_numeral_special(2) numeral_plus_numeral add_num_simps)
  have l: "length u = 2" "length v = 6" "length w = 10" using assms(1) by (simp_all add: u_def v_def w_def)
  have dig: "\<forall>c \<in> set u. is_digit c" "\<forall>c \<in> set v. is_digit c" "\<forall>c \<in> set w. is_digit c"
    using assms(2) unfolding d by auto
  note run = rm_run [where y = "v @ w @ []" and w = u] rm_run [where y = "w @ []" and w = v] rm_run [where y = "[]" and w = w]
  have "rm ?e (d, 0, []) = [([], 18, [])]"
    using run dig l digit_in_classes unfolding uscc_fields uscc_class_def d by simp
  then have "match_at ?e d 0 = Some ([], 0, 18, [])" by (simp add: match_at_def)
  then have f: "find_first ?e d 0 = Some ([], 0, 18, [])" by (simp add: find_first.simps [of ?e d])
  have "must (\<lambda>rs. True) ?e" unfolding uscc_fields by (simp add: uscc_class_def)
  then have "find_first ?e [] 18 = None" by (rule find_first_end [where P = "\<lambda>c. True"]) (simp add: leads_def)
  then have "find_all ?e [] 18 (Some 18) = []" by (simp add: find_all.simps [of ?e "[]"])
  then show ?thesis using f assms(1) by (simp add: find_all_string_def find_all.simps [of ?e d])
qed

lemma digits_no_upper: "\<forall>c \<in> set d. is_digit c \<Longrightarrow> \<not> RequireUpperAlpha d"
  using digit_not_upper by (auto simp: RequireUpperAlpha_def)

lemma uscc_finds:
  assumes "length d = 18" "\<forall>c \<in> set d. is_digit c" "CNUSCCValid d"
  shows "Recognize ct (of_spec uscc_spec) d = Some []"
    and "Recognize ct (WithoutPrefilter (of_spec uscc_spec)) d =
      Some [\<lparr>e_type = ''USCC'', e_value = d, e_start = 0, e_end = 18, e_conf = 90 / 100, e_det = ''cn_uscc''\<rparr>]"
proof -
  show "Recognize ct (of_spec uscc_spec) d = Some []"
    using digits_no_upper [OF assms(2)] by (simp add: Recognize_def uscc_recognizer)
  have "isBoundaryOK d 0 18 BoundaryAlnum" using assms(1) by (simp add: isBoundaryOK_def)
  moreover have "substr d 0 18 = d" using assms(1) by (simp add: substr_def)
  ultimately have "recognize_match ct (WithoutPrefilter (of_spec uscc_spec)) d 0 18 =
      Some [\<lparr>e_type = ''USCC'', e_value = d, e_start = 0, e_end = 18, e_conf = 90 / 100, e_det = ''cn_uscc''\<rparr>]"
    using assms(3)
    unfolding recognize_match_def hasContext_def without_fields uscc_recognizer of_spec_fields uscc_fields
    by (simp add: uscc_recognizer)
  then show "Recognize ct (WithoutPrefilter (of_spec uscc_spec)) d =
      Some [\<lparr>e_type = ''USCC'', e_value = d, e_start = 0, e_end = 18, e_conf = 90 / 100, e_det = ''cn_uscc''\<rparr>]"
    using uscc_match_digits [OF assms(1,2)] by (simp add: Recognize_def without_fields)
qed

text \<open>In a text of digits a recognizer with a boundary reports the whole text or nothing.\<close>

lemma reported_all_digits:
  assumes "\<forall>c \<in> set d. is_digit c" "pr_boundary p \<noteq> BoundaryNone" "reported p d e"
  shows "e_start e = 0 \<and> e_end e = int (length d) \<and> e_value e = d"
proof -
  have sp: "span_ok d e" "isBoundaryOK d (nat (e_start e)) (nat (e_end e)) (pr_boundary p)"
    using assms(3) by (simp_all add: reported_def)
  have f: "boundary_forbidden (pr_boundary p) (d ! i)" if "i < length d" for i
    using assms(1,2) that by (cases "pr_boundary p") simp_all
  have "e_start e = 0"
  proof (rule ccontr)
    assume "e_start e \<noteq> 0"
    then have "0 < nat (e_start e)" "nat (e_start e) - 1 < length d" using sp(1) by (auto simp: span_ok_def)
    then show False using sp(2) f assms(2) by (simp add: isBoundaryOK_def)
  qed
  moreover have "e_end e = int (length d)" 
  proof (rule ccontr)
    assume "e_end e \<noteq> int (length d)"
    then have "nat (e_end e) < length d" using sp(1) by (auto simp: span_ok_def)
    then show False using sp(2) f assms(2) by (simp add: isBoundaryOK_def split: if_splits)
  qed
  ultimately show ?thesis using sp(1) by (simp add: span_ok_def substr_def)
qed

lemma no_match_digits:
  assumes "must (ascii_class (\<lambda>c. \<not> is_digit c)) (pr_pattern p)" "\<forall>c \<in> set d. is_digit c"
  shows "\<not> reported p d e"
  using must_ascii [OF assms(1)] assms(2) unfolding reported_def by blast

definition needs_other :: "spec \<Rightarrow> bool" where
  "needs_other s \<longleftrightarrow> must (ascii_class (\<lambda>c. \<not> is_digit c)) (sp_expr s)"

lemma other_class [simp]:
  assumes "list_all (\<lambda>(lo, hi). hi < 128 \<and> (hi < 48 \<or> 57 < lo)) rs"
  shows "ascii_class (\<lambda>c. \<not> is_digit c) rs"
  unfolding ascii_class_def list_all_iff
proof (intro ballI, clarify)
  fix lo hi
  assume "(lo, hi) \<in> set rs"
  then have h: "hi < 128" "hi < 48 \<or> 57 < lo" using assms by (auto simp: list_all_iff)
  have "\<not> is_digit (byte_char n)" if "n \<in> set [lo..<hi + 1]" for n
    using h that by (auto simp: is_digit_def in_range_def)
  then show "hi < 128 \<and> (\<forall>n \<in> set [lo..<hi + 1]. \<not> is_digit (byte_char n))" using h(1) by blast
qed

lemma specs_need_other:
  "list_all (\<lambda>s. needs_other s \<or> sp_name s \<in> {''cn_id_card'', ''cn_mobile'', ''cn_uscc'', ''bank_card_plain''})
     (cn_specs @ generic_specs)"
  by (simp add: cn_specs_def generic_specs_def needs_other_def byte_facts byte_def)

lemma plain_fields:
  "list_all (\<lambda>s.
     (sp_name s = ''cn_id_card'' \<longrightarrow> pr_boundary (of_spec s) = BoundaryDigit \<and> \<not> pr_normalize (of_spec s) \<and>
        pr_validate (of_spec s) = Some (\<lambda>v. Some (CNIDCardValid v))) \<and>
     (sp_name s = ''bank_card_plain'' \<longrightarrow> pr_boundary (of_spec s) = BoundaryDigitSep \<and> \<not> pr_normalize (of_spec s) \<and>
        pr_validate (of_spec s) = Some BankCardValid) \<and>
     (sp_name s = ''cn_mobile'' \<longrightarrow> pr_boundary (of_spec s) = BoundaryDigitSep \<and> fixed_length (sp_expr s) = Some 11))
   (cn_specs @ generic_specs)"
  by (simp add: cn_specs_def generic_specs_def of_spec_def fixed_length_rep re_byte_def byte_def)

lemma plain_specs:
  assumes "s \<in> set (cn_specs @ generic_specs)"
  shows "sp_name s = ''cn_id_card'' \<Longrightarrow> pr_boundary (of_spec s) = BoundaryDigit \<and> candidate_ok (of_spec s) v = CNIDCardValid v"
    "sp_name s = ''bank_card_plain'' \<Longrightarrow>
       pr_boundary (of_spec s) = BoundaryDigitSep \<and> candidate_ok (of_spec s) v = (BankCardValid v = Some True)"
    "sp_name s = ''cn_mobile'' \<Longrightarrow> pr_boundary (of_spec s) = BoundaryDigitSep \<and> fixed_length (sp_expr s) = Some 11"
  using plain_fields assms unfolding list_all_iff candidate_ok_def by simp_all

lemma uscc_unique: "s \<in> set (cn_specs @ generic_specs) \<Longrightarrow> sp_name s = ''cn_uscc'' \<Longrightarrow> s = uscc_spec"
proof -
  assume s: "s \<in> set (cn_specs @ generic_specs)" "sp_name s = ''cn_uscc''"
  have "s \<in> set all_specs" "uscc_spec \<in> set all_specs" using s(1) uscc_in_table by (auto simp: all_specs_def)
  then show ?thesis using all_specs_names s(2) uscc_fields(1) unfolding distinct_map by (metis inj_onD)
qed

lemma nothing_reported:
  assumes "length d = 18" "\<forall>c \<in> set d. is_digit c" "\<not> CNIDCardValid d" "BankCardValid d \<noteq> Some True"
    and s: "s \<in> set (cn_specs @ generic_specs)" "sp_name s \<noteq> ''cn_uscc''"
  shows "\<not> reported (of_spec s) d e"
proof
  assume r: "reported (of_spec s) d e"
  have "\<not> needs_other s" using no_match_digits [of "of_spec s" d e] r assms(2) by (auto simp: needs_other_def)
  then have "sp_name s = ''cn_id_card'' \<or> sp_name s = ''cn_mobile'' \<or> sp_name s = ''bank_card_plain''"
    using specs_need_other s unfolding list_all_iff by auto
  then show False
  proof (elim disjE)
    assume n: "sp_name s = ''cn_id_card''"
    then have "e_value e = d" using reported_all_digits [OF assms(2) _ r] plain_specs(1) [OF s(1) n] by simp
    then show False using r plain_specs(1) [OF s(1) n] assms(3) by (simp add: reported_def)
  next
    assume n: "sp_name s = ''bank_card_plain''"
    then have "e_value e = d" using reported_all_digits [OF assms(2) _ r] plain_specs(2) [OF s(1) n] by simp
    then show False using r plain_specs(2) [OF s(1) n] assms(4) by (simp add: reported_def)
  next
    assume n: "sp_name s = ''cn_mobile''"
    then have w: "e_start e = 0" "e_end e = 18"
      using reported_all_digits [OF assms(2) _ r] plain_specs(3) [OF s(1) n] assms(1) by simp_all
    obtain g where "is_match (sp_expr s) d 0 (nat (e_start e), nat (e_end e), g)" using r by (auto simp: reported_def)
    from fixed_length_match [OF _ this] plain_specs(3) [OF s(1) n] w show False by simp
  qed
qed

text \<open>A Chinese credit code that consists of digits only passes the pattern, the boundary and the check
  character of its recognizer, which reports it when it runs without the prefilter; the prefilter
  asks for a capital letter and skips it. Unless the digits also form an identity number or a bank
  card number, a registry of the Chinese and the generic pack finds nothing in it.\<close>

theorem digit_credit_code_missed:
  assumes "length d = 18" "\<forall>c \<in> set d. is_digit c" "CNUSCCValid d"
    and "\<not> CNIDCardValid d" "BankCardValid d \<noteq> Some True"
    and "NewRegistry ct packs [''CN'', ''GEN''] [] = Inr reg"
  shows "registry_Detect reg d = Inr [] \<and> Recognize ct (of_spec uscc_spec) d = Some [] \<and>
    Recognize ct (WithoutPrefilter (of_spec uscc_spec)) d =
      Some [\<lparr>e_type = ''USCC'', e_value = d, e_start = 0, e_end = 18, e_conf = 90 / 100, e_det = ''cn_uscc''\<rparr>]"
proof -
  note u = uscc_finds [OF assms(1-3), of ct]
  have en: "set (enabled [''CN'', ''GEN''] []) = set (cn_specs @ generic_specs)"
    by (auto simp: enabled_def chosen_mem normalizeCode_def specs_of_def is_lower_def in_range_def byte_def)
  have "the (Recognize ct (of_spec s) d) = []" if s: "s \<in> set (enabled [''CN'', ''GEN''] [])" for s
  proof (cases "sp_name s = ''cn_uscc''")
    case True
    then show ?thesis using uscc_unique [of s] s u(1) unfolding en by simp
  next
    case False
    have "s \<in> set all_specs" using s unfolding en by (auto simp: all_specs_def)
    then obtain es where es: "Recognize ct (of_spec s) d = Some es" "\<forall>e \<in> set es. reported (of_spec s) d e"
      using spec_Recognize by blast
    then have "es = []" using nothing_reported [OF assms(1,2,4,5)] False s unfolding en by (cases es) auto
    then show ?thesis using es(1) by simp
  qed
  then have "concat (map (\<lambda>s. the (Recognize ct (of_spec s) d)) (enabled [''CN'', ''GEN''] [])) = []" by simp
  from builtin_raw [OF assms(6), of d, unfolded this] have "registry_Detect reg d = Inr []"
    by (simp add: ResolveOverlaps_def)
  then show ?thesis using u by blast
qed

theorem digit_credit_code_missed_witness:
  "\<exists>reg. NewRegistry \<lparr>ct_upper = (\<lambda>r. r), ct_lower = (\<lambda>r. r)\<rparr> packs [''CN'', ''GEN''] [] = Inr reg \<and>
     CNUSCCValid ''914403001922038216'' \<and> registry_Detect reg ''914403001922038216'' = Inr []"
proof -
  let ?ct = "\<lparr>ct_upper = (\<lambda>r. r), ct_lower = (\<lambda>r. r)\<rparr>" and ?d = "''914403001922038216''"
  have "normalizeCode ` set [''CN'', ''GEN''] \<subseteq> set known_codes" by code_simp
  then obtain reg where r: "NewRegistry ?ct packs [''CN'', ''GEN''] [] = Inr reg"
    using NewRegistry_cases [of "[''CN'', ''GEN'']" ?ct "[]"] by auto
  have d: "length ?d = 18" "\<forall>c \<in> set ?d. is_digit c" by (simp, code_simp)
  have v: "CNUSCCValid ?d" "\<not> CNIDCardValid ?d" "BankCardValid ?d \<noteq> Some True" by code_simp+
  from digit_credit_code_missed [OF d v(1,2,3) r] r v(1) show ?thesis by blast
qed

end
