(* ===== verification/Scanner.thy ===== *)
theory Scanner imports PackDetect begin

text \<open>
  The chunked scanner (\<open>pii/detect/scanner.go\<close>): long texts are cut into overlapping chunks on
  character borders, every chunk is scanned by the registry, and the entities are moved to their
  place, deduplicated and resolved. The goroutines write to slots of their own and are waited
  for, so the result is that of a map. The lemmas show that the cutting ends, what it covers, and
  what of the registry's detection carries over.
\<close>

section \<open>The scanner\<close>

record chunked_scanner =
  cs_registry :: registry
  cs_chunkSize :: int
  cs_margin :: int
  cs_workers :: int

datatype scanner_error = NilRegistry | MarginTooLarge int int

definition DefaultChunkSize :: int where "DefaultChunkSize = 16384"
definition DefaultMargin :: int where "DefaultMargin = 512"

text \<open>\<open>gomaxprocs\<close> is the answer of \<open>runtime.GOMAXPROCS(0)\<close>.\<close>

definition NewChunkedScanner ::
    "int \<Rightarrow> registry option \<Rightarrow> int \<Rightarrow> int \<Rightarrow> int \<Rightarrow> scanner_error + chunked_scanner" where
  "NewChunkedScanner gomaxprocs reg chunkSize margin workers =
     (case reg of
        None \<Rightarrow> Inl NilRegistry
      | Some r \<Rightarrow>
          let chunkSize = (if chunkSize \<le> 0 then DefaultChunkSize else chunkSize);
              margin = (if margin \<le> 0 then DefaultMargin else margin) in
          if margin \<ge> chunkSize then Inl (MarginTooLarge margin chunkSize)
          else Inr \<lparr>cs_registry = r, cs_chunkSize = chunkSize, cs_margin = margin,
                    cs_workers = (if workers \<le> 0 then gomaxprocs else workers)\<rparr>)"

definition scanner_Name :: "chunked_scanner \<Rightarrow> string" where
  "scanner_Name s = ''chunked-scanner''"

definition scanner_CoveredTypes :: "chunked_scanner \<Rightarrow> string list" where
  "scanner_CoveredTypes s = registry_CoveredTypes (cs_registry s)"

section \<open>Chunks\<close>

fun back_up :: "string \<Rightarrow> nat \<Rightarrow> nat" where
  "back_up s 0 = 0"
| "back_up s (Suc i) = (if utf8Start (s ! Suc i) then Suc i else back_up s i)"

definition alignLeft :: "string \<Rightarrow> nat \<Rightarrow> nat" where
  "alignLeft s i = (if length s \<le> i then length s else back_up s i)"

partial_function (option) chunk_loop ::
    "string \<Rightarrow> int \<Rightarrow> int \<Rightarrow> int \<Rightarrow> (nat \<times> nat) list \<Rightarrow> (nat \<times> nat) list option" where
  "chunk_loop text chunkSize margin start out =
     (if start < int (length text) then
        let en = start + chunkSize + margin;
            en = (if en > int (length text) then int (length text) else en);
            a = alignLeft text (nat start);
            b = alignLeft text (nat en) in
        chunk_loop text chunkSize margin (start + chunkSize) (if a < b then out @ [(a, b)] else out)
      else Some out)"

definition chunks :: "chunked_scanner \<Rightarrow> string \<Rightarrow> (nat \<times> nat) list option" where
  "chunks s text = chunk_loop text (cs_chunkSize s) (cs_margin s) 0 []"

section \<open>Scanning\<close>

definition shift_entity :: "nat \<Rightarrow> entity \<Rightarrow> entity" where
  "shift_entity a e = e\<lparr>e_start := e_start e + int a, e_end := e_end e + int a\<rparr>"

definition scan_chunk :: "registry \<Rightarrow> string \<Rightarrow> nat \<times> nat \<Rightarrow> string + entity list" where
  "scan_chunk r text b =
     (case registry_Detect r (substr text (int (fst b)) (int (snd b))) of
        Inl err \<Rightarrow> Inl err
      | Inr ents \<Rightarrow> Inr (map (shift_entity (fst b)) ents))"

fun first_error :: "(string + entity list) list \<Rightarrow> string option" where
  "first_error [] = None"
| "first_error (Inl err # rs) = Some err"
| "first_error (Inr es # rs) = first_error rs"

type_synonym entity_key = "int \<times> int \<times> string \<times> string"

definition entityKey :: "entity \<Rightarrow> entity_key" where
  "entityKey e = (e_start e, e_end e, e_type e, e_det e)"

fun dedup_entities :: "entity_key list \<Rightarrow> entity list \<Rightarrow> entity list" where
  "dedup_entities seen [] = []"
| "dedup_entities seen (e # es) =
     (if entityKey e \<in> set seen then dedup_entities seen es
      else e # dedup_entities (entityKey e # seen) es)"

text \<open>The outer None is a cutting into chunks that does not end.\<close>

definition scanner_Detect :: "chunked_scanner \<Rightarrow> string \<Rightarrow> (string + entity list) option" where
  "scanner_Detect s text =
     (if int (length text) \<le> cs_chunkSize s then Some (registry_Detect (cs_registry s) text)
      else case chunks s text of
        None \<Rightarrow> None
      | Some bounds \<Rightarrow>
          let results = map (scan_chunk (cs_registry s) text) bounds in
          Some (case first_error results of
              Some err \<Rightarrow> Inl err
            | None \<Rightarrow> Inr (ResolveOverlaps (dedup_entities [] (concat (map projr results))))))"

lemmas [code] = chunk_loop.simps

section \<open>What the chunks cover\<close>

text \<open>The places at which a text may be cut.\<close>

definition border :: "string \<Rightarrow> nat \<Rightarrow> bool" where
  "border s i \<longleftrightarrow> i = 0 \<or> i = length s \<or> i < length s \<and> utf8Start (s ! i)"

lemma back_up_le: "back_up s i \<le> i"
  by (induction s i rule: back_up.induct) auto

lemma back_up_start: "back_up s i = 0 \<or> utf8Start (s ! back_up s i)"
  by (induction s i rule: back_up.induct) auto

lemma back_up_max: "j \<le> i \<Longrightarrow> j = 0 \<or> utf8Start (s ! j) \<Longrightarrow> j \<le> back_up s i"
  by (induction s i rule: back_up.induct) (auto simp: le_Suc_eq)

lemma alignLeft_le: "i \<le> length s \<Longrightarrow> alignLeft s i \<le> i"
  using back_up_le by (auto simp: alignLeft_def)

lemma alignLeft_border: "border s (alignLeft s i)"
  using back_up_start [of s i] back_up_le [of s i] by (auto simp: alignLeft_def border_def)

lemma alignLeft_max: "j \<le> i \<Longrightarrow> border s j \<Longrightarrow> j \<le> alignLeft s i"
  using back_up_max [of j i s] by (auto simp: alignLeft_def border_def)

definition chunk_ok :: "string \<Rightarrow> int \<Rightarrow> int \<Rightarrow> int \<Rightarrow> nat \<times> nat \<Rightarrow> bool" where
  "chunk_ok s sz margin start c \<longleftrightarrow> fst c < snd c \<and> snd c \<le> length s \<and> border s (fst c) \<and> border s (snd c) \<and>
     (\<exists>k :: nat. fst c = alignLeft s (nat (start + int k * sz)) \<and> int (snd c) \<le> start + int k * sz + sz + margin)"

lemma chunk_loop_covers:
  assumes "0 < sz" "0 \<le> margin" "0 \<le> start"
  shows "\<exists>bs. chunk_loop s sz margin start out = Some (out @ bs) \<and>
    (\<forall>c \<in> set bs. chunk_ok s sz margin start c) \<and>
    (\<forall>x y. start \<le> int x \<and> x < y \<and> y \<le> length s \<and> int y \<le> int x + margin \<and> border s y \<longrightarrow>
       (\<exists>c \<in> set bs. fst c \<le> x \<and> y \<le> snd c))"
  using assms(3)
proof (induction "nat (int (length s) - start)" arbitrary: start out rule: less_induct)
  case less
  show ?case
  proof (cases "start < int (length s)")
    case False
    then show ?thesis by (auto simp: chunk_loop.simps [of s sz margin start out])
  next
    case True
    define en where "en = (if start + sz + margin > int (length s) then int (length s) else start + sz + margin)"
    define a where "a = alignLeft s (nat start)"
    define b where "b = alignLeft s (nat en)"
    let ?c = "if a < b then [(a, b)] else []"
    have en: "0 \<le> en" "en \<le> int (length s)" "en \<le> start + sz + margin" using less.prems assms True by (auto simp: en_def)
    have ab: "a \<le> nat start" "b \<le> nat en" "border s a" "border s b"
      using alignLeft_le [of "nat start" s] alignLeft_le [of "nat en" s] True en alignLeft_border unfolding a_def b_def by auto
    have "nat (int (length s) - (start + sz)) < nat (int (length s) - start)" using True assms(1) by simp
    from less.hyps [OF this, of "out @ ?c"] less.prems assms(1) obtain bs where bs:
      "chunk_loop s sz margin (start + sz) (out @ ?c) = Some ((out @ ?c) @ bs)"
      "\<forall>c \<in> set bs. chunk_ok s sz margin (start + sz) c"
      "\<forall>x y. start + sz \<le> int x \<and> x < y \<and> y \<le> length s \<and> int y \<le> int x + margin \<and> border s y \<longrightarrow>
         (\<exists>c \<in> set bs. fst c \<le> x \<and> y \<le> snd c)"
      by auto
    have step: "chunk_loop s sz margin start out = Some (out @ ?c @ bs)"
      using True bs(1) unfolding chunk_loop.simps [of s sz margin start out] Let_def en_def [symmetric] a_def [symmetric] b_def [symmetric]
      by auto
    have ok1: "chunk_ok s sz margin start c" if "c \<in> set ?c" for c
      using that ab en by (auto simp: chunk_ok_def a_def intro!: exI [of _ 0] split: if_splits)
    have ok2: "chunk_ok s sz margin start c" if "c \<in> set bs" for c
    proof -
      have c: "chunk_ok s sz margin (start + sz) c" using bs(2) that by blast
      then obtain k :: nat where k: "fst c = alignLeft s (nat (start + sz + int k * sz))"
        "int (snd c) \<le> start + sz + int k * sz + sz + margin"
        unfolding chunk_ok_def by blast
      have "start + sz + int k * sz = start + int (Suc k) * sz" by (simp add: distrib_right)
      then show ?thesis using c k unfolding chunk_ok_def by metis
    qed
    have cov: "\<exists>c \<in> set (?c @ bs). fst c \<le> x \<and> y \<le> snd c"
      if xy: "start \<le> int x" "x < y" "y \<le> length s" "int y \<le> int x + margin" "border s y" for x y
    proof (cases "start + sz \<le> int x")
      case True
      then show ?thesis using bs(3) xy by (metis Un_iff set_append)
    next
      case False
      then have "int y \<le> en" using xy by (auto simp: en_def)
      then have "y \<le> b" unfolding b_def using alignLeft_max [of y "nat en" s] xy(5) by linarith
      moreover have "a \<le> x" using ab(1) xy(1) by linarith
      ultimately show ?thesis using xy(2) by auto
    qed
    show ?thesis using step ok1 ok2 cov by (intro exI [of _ "?c @ bs"]) auto
  qed
qed

lemma scanner_built:
  assumes "NewChunkedScanner g reg chunkSize margin workers = Inr s"
  shows "reg = Some (cs_registry s)" "0 < cs_margin s" "cs_margin s < cs_chunkSize s"
  using assms by (auto simp: NewChunkedScanner_def DefaultChunkSize_def DefaultMargin_def Let_def split: option.splits if_splits)

lemma chunks_cover:
  assumes "NewChunkedScanner g reg chunkSize margin workers = Inr s"
  shows "\<exists>bs. chunks s text = Some bs \<and> (\<forall>c \<in> set bs. chunk_ok text (cs_chunkSize s) (cs_margin s) 0 c) \<and>
    (\<forall>x y. x < y \<and> y \<le> length text \<and> int y \<le> int x + cs_margin s \<and> border text y \<longrightarrow>
       (\<exists>c \<in> set bs. fst c \<le> x \<and> y \<le> snd c))"
  using chunk_loop_covers [of "cs_chunkSize s" "cs_margin s" 0 "text" "[]"] scanner_built(2,3) [OF assms]
  by (simp add: chunks_def)

section \<open>Errors\<close>

lemma first_error_None: "first_error rs = None \<longleftrightarrow> (\<forall>r \<in> set rs. \<exists>es. r = Inr es)"
  by (induction rs rule: first_error.induct) auto

lemma first_error_Some: "first_error rs = Some err \<Longrightarrow> Inl err \<in> set rs"
  by (induction rs rule: first_error.induct) auto

section \<open>Deduplication\<close>

lemma dedup_entities_subset: "set (dedup_entities seen es) \<subseteq> set es"
  by (induction seen es rule: dedup_entities.induct) auto

lemma dedup_entities_keeps:
  "e \<in> set es \<Longrightarrow> entityKey e \<in> set seen \<or> (\<exists>k \<in> set (dedup_entities seen es). entityKey k = entityKey e)"
  by (induction seen es rule: dedup_entities.induct) auto

lemma dedup_entities_unseen: "e \<in> set (dedup_entities seen es) \<Longrightarrow> entityKey e \<notin> set seen"
  by (induction seen es rule: dedup_entities.induct) (auto split: if_splits)

lemma dedup_entities_distinct: "distinct (map entityKey (dedup_entities seen es))"
proof (induction seen es rule: dedup_entities.induct)
  case (2 seen e es)
  have "entityKey e \<notin> entityKey ` set (dedup_entities (entityKey e # seen) es)"
    using dedup_entities_unseen [of _ "entityKey e # seen" es] by fastforce
  then show ?case using 2 by simp
qed simp

section \<open>The entities of a chunk\<close>

lemma substr_substr:
  assumes "i \<le> j" "j \<le> b - a"
  shows "substr (substr s (int a) (int b)) (int i) (int j) = substr s (int (i + a)) (int (j + a))"
proof -
  have "take (j - i) (drop i (take (b - a) (drop a s))) = take (j - i) (take (b - a - i) (drop i (drop a s)))"
    by (simp only: drop_take)
  also have "\<dots> = take (j - i) (drop (i + a) s)" using assms by (simp add: min_absorb1 diff_le_mono)
  finally show ?thesis by (simp add: substr_def nat_int_add)
qed

lemma shift_span:
  assumes e: "span_ok (substr s (int a) (int b)) e" and "a < b" "b \<le> length s"
  shows "span_ok s (shift_entity a e)"
proof -
  have l: "length (substr s (int a) (int b)) = b - a" using assms(2,3) by (simp add: substr_def)
  obtain i where i: "e_start e = int i" using e nonneg_int_cases by (auto simp: span_ok_def)
  obtain j where j: "e_end e = int j" using e nonneg_int_cases [of "e_end e"] by (auto simp: span_ok_def)
  have "i < j" "j \<le> b - a" using e l i j by (simp_all add: span_ok_def)
  then show ?thesis using e substr_substr [of i j b a s] i j assms(2,3)
    by (auto simp: span_ok_def shift_entity_def algebra_simps)
qed

section \<open>Scanning with the country packs\<close>

lemma rank_elen: "rank_key k \<le> rank_key e \<Longrightarrow> elen e \<le> elen k"
  by (auto simp: rank_key_def less_eq_prod_def)

lemma shift_elen: "elen (shift_entity a e) = elen e"
  by (simp add: elen_def shift_entity_def)

definition sound_entity :: "string list \<Rightarrow> string \<Rightarrow> entity \<Rightarrow> bool" where
  "sound_entity disabled s e \<longleftrightarrow> span_ok s e \<and> e_conf e \<le> 1 \<and> e_type e \<notin> set disabled"

lemma registry_sound:
  assumes "NewRegistry ct packs codes disabled = Inr reg"
  shows "\<exists>es. registry_Detect reg t = Inr es \<and> apart es \<and> (\<forall>e \<in> set es. sound_entity disabled t e)"
proof -
  obtain es where es: "registry_Detect reg t = Inr es" "apart es"
    "\<forall>e \<in> set es. \<exists>s \<in> set (enabled codes disabled). reported (of_spec s) t e"
    using builtin_Detect [OF assms] by blast
  then show ?thesis by (fastforce simp: sound_entity_def reported_def enabled_def)
qed

lemma entityKey_same: "entityKey k = entityKey e \<Longrightarrow> e_start k = e_start e \<and> e_end k = e_end e"
  by (simp add: entityKey_def)

lemma scan_long:
  assumes "NewRegistry ct packs codes disabled = Inr reg" "NewChunkedScanner g (Some reg) cz mg w = Inr s"
    and long: "\<not> int (length t) \<le> cs_chunkSize s"
  shows "\<exists>bs es. chunks s t = Some bs \<and> scanner_Detect s t = Some (Inr es) \<and> apart es \<and>
    (\<forall>e \<in> set es. sound_entity disabled t e \<and> (\<exists>c \<in> set bs. \<exists>found e'. e = shift_entity (fst c) e' \<and> e' \<in> set found \<and>
        registry_Detect reg (substr t (int (fst c)) (int (snd c))) = Inr found)) \<and>
    (\<forall>c \<in> set bs. \<forall>found. registry_Detect reg (substr t (int (fst c)) (int (snd c))) = Inr found \<longrightarrow>
       (\<forall>e \<in> set found. \<exists>k \<in> set es. overlaps (shift_entity (fst c) e) k \<and> elen e \<le> elen k))"
proof -
  note b = scanner_built [OF assms(2)]
  have reg: "cs_registry s = reg" using b(1) by simp
  obtain bs where bs: "chunks s t = Some bs" "\<forall>c \<in> set bs. chunk_ok t (cs_chunkSize s) (cs_margin s) 0 c"
    using chunks_cover [OF assms(2)] by blast
  define found where "found c = projr (registry_Detect reg (substr t (int (fst c)) (int (snd c))))" for c
  have f: "registry_Detect reg (substr t (int (fst c)) (int (snd c))) = Inr (found c)"
    "e \<in> set (found c) \<Longrightarrow> sound_entity disabled (substr t (int (fst c)) (int (snd c))) e" for c e
    using registry_sound [OF assms(1), of "substr t (int (fst c)) (int (snd c))"] by (auto simp: found_def)
  let ?res = "map (scan_chunk reg t) bs"
  have sc: "scan_chunk reg t c = Inr (map (shift_entity (fst c)) (found c))" for c
    by (simp add: scan_chunk_def f(1))
  then have ne: "first_error ?res = None" by (simp add: first_error_None)
  define raw where "raw = concat (map projr ?res)"
  define es where "es = ResolveOverlaps (dedup_entities [] raw)"
  have det: "scanner_Detect s t = Some (Inr es)"
    using long bs(1) ne by (simp add: scanner_Detect_def reg es_def raw_def Let_def)
  have rawI: "e \<in> set raw \<longleftrightarrow> (\<exists>c \<in> set bs. \<exists>e' \<in> set (found c). e = shift_entity (fst c) e')" for e
    by (auto simp: raw_def sc)
  have raw_ok: "sound_entity disabled t e" if e: "e \<in> set raw" for e
  proof -
    obtain c e' where c: "c \<in> set bs" "e' \<in> set (found c)" "e = shift_entity (fst c) e'" using e rawI by blast
    have "fst c < snd c" "snd c \<le> length t" using bs(2) c(1) by (auto simp: chunk_ok_def)
    then have "span_ok t e" using f(2) [OF c(2)] shift_span [of t "fst c" "snd c" e'] c(3) unfolding sound_entity_def by blast
    moreover have "e_conf e = e_conf e'" "e_type e = e_type e'" using c(3) by (simp_all add: shift_entity_def)
    ultimately show ?thesis using f(2) [OF c(2)] by (simp add: sound_entity_def)
  qed
  have ded: "set (dedup_entities [] raw) \<subseteq> set raw" by (rule dedup_entities_subset)
  have "\<forall>e \<in> set (dedup_entities [] raw). nonempty_span e"
    using raw_ok ded by (fastforce simp: sound_entity_def span_ok_def nonempty_span_def)
  note props = ResolveOverlaps_props [OF this]
  have es: "apart es" "set es \<subseteq> set raw" using props(1,2) ded by (auto simp: es_def apart_def)
  have comp: "\<exists>k \<in> set es. overlaps (shift_entity (fst c) e) k \<and> elen e \<le> elen k"
    if "c \<in> set bs" "registry_Detect reg (substr t (int (fst c)) (int (snd c))) = Inr fs" "e \<in> set fs" for c fs e
  proof -
    have "shift_entity (fst c) e \<in> set raw" using that f(1) [of c] rawI by auto
    then obtain k where k: "k \<in> set (dedup_entities [] raw)" "entityKey k = entityKey (shift_entity (fst c) e)"
      using dedup_entities_keeps [of _ raw "[]"] by auto
    obtain m where m: "m \<in> set es" "overlaps k m" "rank_key m \<le> rank_key k" using props(3) [OF k(1)] unfolding es_def by blast
    then show ?thesis using entityKey_same [OF k(2)] rank_elen [OF m(3)] shift_elen [of "fst c" e]
      by (intro bexI [of _ m]) (auto simp: overlaps_def elen_def)
  qed
  have org: "sound_entity disabled t e \<and> (\<exists>c \<in> set bs. \<exists>fs e'. e = shift_entity (fst c) e' \<and> e' \<in> set fs \<and>
        registry_Detect reg (substr t (int (fst c)) (int (snd c))) = Inr fs)" if "e \<in> set es" for e
    using that es(2) raw_ok rawI f(1) by blast
  show ?thesis using bs(1) det es(1) org comp by blast
qed

text \<open>
  C30: Scanning a long text with the country packs never fails and its cutting into chunks ends. The
  entities lie in the whole text with the bytes they name, in order and apart; and every stretch
  no longer than the margin that ends on a character border lies in one chunk, whose entities are
  each overlapped by a reported one that is at least as long.
\<close>

theorem scan_detection:
  assumes "NewRegistry ct packs codes disabled = Inr reg" "NewChunkedScanner g (Some reg) cz mg w = Inr s"
  shows "\<exists>es. scanner_Detect s text = Some (Inr es) \<and> sorted_wrt (\<lambda>a b. e_end a \<le> e_start b) es \<and>
    (\<forall>e \<in> set es. span_ok text e \<and> e_conf e \<le> 1 \<and> e_type e \<notin> set disabled) \<and>
    (\<forall>x y. x < y \<and> y \<le> length text \<and> int y \<le> int x + cs_margin s \<and> border text y \<longrightarrow>
       (\<exists>a b found. a \<le> x \<and> y \<le> b \<and> b \<le> length text \<and> border text a \<and> border text b \<and>
          registry_Detect reg (substr text (int a) (int b)) = Inr found \<and>
          (\<forall>e \<in> set found. \<exists>k \<in> set es. overlaps (shift_entity a e) k \<and> elen e \<le> elen k)))"
proof (cases "int (length text) \<le> cs_chunkSize s")
  case True
  obtain es where es: "registry_Detect reg text = Inr es" "apart es" "\<forall>e \<in> set es. sound_entity disabled text e"
    using registry_sound [OF assms(1)] by blast
  have reg: "cs_registry s = reg" using scanner_built(1) [OF assms(2)] by simp
  have sub: "substr text (int 0) (int (length text)) = text" by (simp add: substr_def)
  have self: "\<exists>k \<in> set es. overlaps (shift_entity 0 e) k \<and> elen e \<le> elen k" if "e \<in> set es" for e
    using es(3) that by (intro bexI [of _ e]) (auto simp: shift_entity_def overlaps_def sound_entity_def span_ok_def)
  have "\<exists>a b found. a \<le> x \<and> y \<le> b \<and> b \<le> length text \<and> border text a \<and> border text b \<and>
      registry_Detect reg (substr text (int a) (int b)) = Inr found \<and>
      (\<forall>e \<in> set found. \<exists>k \<in> set es. overlaps (shift_entity a e) k \<and> elen e \<le> elen k)" if "y \<le> length text" for x y
    using that self es(1) sub by (intro exI [of _ 0] exI [of _ "length text"] exI [of _ es]) (simp add: border_def)
  then show ?thesis using True es reg by (auto simp: scanner_Detect_def apart_def sound_entity_def)
next
  case False
  obtain bs es where bs: "chunks s text = Some bs" and det: "scanner_Detect s text = Some (Inr es)" "apart es"
    "\<forall>e \<in> set es. sound_entity disabled text e"
    and comp: "\<forall>c \<in> set bs. \<forall>found. registry_Detect reg (substr text (int (fst c)) (int (snd c))) = Inr found \<longrightarrow>
       (\<forall>e \<in> set found. \<exists>k \<in> set es. overlaps (shift_entity (fst c) e) k \<and> elen e \<le> elen k)"
    using scan_long [OF assms False] by blast
  have "\<exists>a b found. a \<le> x \<and> y \<le> b \<and> b \<le> length text \<and> border text a \<and> border text b \<and>
      registry_Detect reg (substr text (int a) (int b)) = Inr found \<and>
      (\<forall>e \<in> set found. \<exists>k \<in> set es. overlaps (shift_entity a e) k \<and> elen e \<le> elen k)"
    if xy: "x < y" "y \<le> length text" "int y \<le> int x + cs_margin s" "border text y" for x y
  proof -
    from chunks_cover [OF assms(2), of "text"] bs have cov: "\<forall>c \<in> set bs. chunk_ok text (cs_chunkSize s) (cs_margin s) 0 c"
      "\<forall>x y. x < y \<and> y \<le> length text \<and> int y \<le> int x + cs_margin s \<and> border text y \<longrightarrow>
         (\<exists>c \<in> set bs. fst c \<le> x \<and> y \<le> snd c)"
      by auto
    obtain c where c: "c \<in> set bs" "fst c \<le> x" "y \<le> snd c" using cov(2) xy by blast
    note c = c cov(1) [rule_format, OF c(1)]
    obtain found where "registry_Detect reg (substr text (int (fst c)) (int (snd c))) = Inr found"
      using registry_sound [OF assms(1)] by blast
    then show ?thesis using c comp unfolding chunk_ok_def by blast
  qed
  then show ?thesis using det unfolding apart_def sound_entity_def by blast
qed

theorem scan_detection_witness:
  "\<exists>reg s es. NewRegistry \<lparr>ct_upper = (\<lambda>r. r), ct_lower = (\<lambda>r. r)\<rparr> packs [''CN''] [] = Inr reg \<and>
     NewChunkedScanner 4 (Some reg) 20 11 0 = Inr s \<and>
     scanner_Detect s ''phone of the office: 13812345678'' = Some (Inr es) \<and> (\<forall>e \<in> set es. e_conf e \<le> 1)"
proof -
  let ?ct = "\<lparr>ct_upper = (\<lambda>r. r), ct_lower = (\<lambda>r. r)\<rparr>"
  have "normalizeCode ` set [''CN''] \<subseteq> set known_codes" by code_simp
  then obtain reg where r: "NewRegistry ?ct packs [''CN''] [] = Inr reg"
    using NewRegistry_cases [of "[''CN'']" ?ct "[]"] by auto
  obtain s where s: "NewChunkedScanner 4 (Some reg) 20 11 0 = Inr s"
    by (simp add: NewChunkedScanner_def)
  from scan_detection [OF r s, of "''phone of the office: 13812345678''"] r s show ?thesis by blast
qed

end
