(* ===== verification/ScanLeaks.thy ===== *)
theory ScanLeaks imports Scanner begin

text \<open>
  A token longer than the margin of the scanner that begins shortly before the border of a chunk: the
  first chunk ends inside it and the later ones begin inside it, so none of them shows the whole
  pattern and the token is not found at all, while the registry finds it in the whole text.
\<close>

section \<open>A match is found\<close>

lemma find_first_misses:
  assumes "find_first e s p = None" "ascii s" "k \<le> length s"
  shows "rm e (drop k s, p + k, []) = []"
  using assms
proof (induction e s p arbitrary: k rule: find_first.induct)
  case (1 e s p)
  have m: "match_at e s p = None" and ne: "s \<noteq> [] \<Longrightarrow> find_first e (drop (rune_width s) s) (p + rune_width s) = None"
    using 1(2) by (auto simp: find_first.simps [of e s p] split: option.splits)
  show ?case
  proof (cases k)
    case 0
    then show ?thesis using m by (simp add: match_at_def split: list.splits prod.splits)
  next
    case (Suc j)
    then obtain c t where s: "s = c # t" using 1(4) by (cases s) auto
    have w: "rune_width s = 1" "ascii t" using 1(3) by (auto simp: s ascii_def rune_width_def decode_ascii)
    have "find_first e t (Suc p) = None" using ne w s by simp
    then show ?thesis using 1(1) [OF m] w s 1(4) Suc by simp
  qed
qed

lemma match_found:
  assumes "rm e (y, length x, []) \<noteq> []" "ascii (x @ y)"
  shows "find_all_string e (x @ y) \<noteq> []"
proof -
  have "rm e (drop (length x) (x @ y), 0 + length x, []) \<noteq> []" using assms(1) by simp
  then have "find_first e (x @ y) 0 \<noteq> None"
    using find_first_misses [of e "x @ y" 0 "length x"] assms(2) by (metis le_add1 length_append)
  then obtain r where r: "find_first e (x @ y) 0 = Some r" by blast
  obtain t a b g where "r = (t, a, b, g)" by (cases r)
  then have f: "find_first e (x @ y) 0 = Some (t, a, b, g)" using r by simp
  then have "a \<le> b \<and> b + length t = length (x @ y)" using find_first_spec [OF f] is_match_bounds by fastforce
  then show ?thesis using f unfolding find_all_string_def find_all.simps [of e "x @ y" 0] by auto
qed

section \<open>The token\<close>

definition jwt_class :: "(nat \<times> nat) list" where
  "jwt_class = [(65, 90), (97, 122), (48, 57), (95, 95), (45, 45)]"

definition jwt_spec :: spec where
  "jwt_spec = generic_specs ! 9"

lemma jwt_fields:
  "sp_name jwt_spec = ''jwt''" "sp_typ jwt_spec = ''CREDENTIAL''" "jwt_spec \<in> set generic_specs"
  "sp_expr jwt_spec = Seq (re_lit ''eyJ'') (Seq (re_atleast 10 (Cls jwt_class)) (Seq (re_byte CHR ''.'')
     (Seq (re_atleast 10 (Cls jwt_class)) (Seq (re_byte CHR ''.'') (re_atleast 10 (Cls jwt_class))))))"
  by (simp_all add: jwt_spec_def generic_specs_def jwt_class_def)

text \<open>Header of \<open>m\<close> bytes after its mark, payload and signature of ten bytes each.\<close>

definition jwt_token :: "nat \<Rightarrow> string" where
  "jwt_token m = ''eyJ'' @ replicate m CHR ''a'' @ ''.'' @ replicate 10 CHR ''a'' @ ''.'' @ replicate 10 CHR ''a''"

lemma jwt_chars:
  "list_all (\<lambda>(lo, hi). hi < 128) jwt_class" "in_ranges jwt_class (byte CHR ''a'')" "\<not> in_ranges jwt_class (byte CHR ''.'')"
  by (simp_all add: in_ranges_def jwt_class_def byte_def)

lemma atleast_run:
  assumes "10 \<le> k" "y = [] \<or> hd y = CHR ''.''"
  shows "(y, p + k, g) \<in> set (rm (re_atleast 10 (Cls jwt_class)) (replicate k CHR ''a'' @ y, p, g))"
proof -
  let ?a = "replicate (k - 10) CHR ''a''" and ?P = "in_ranges jwt_class"
  have sp: "replicate k CHR ''a'' = replicate 10 CHR ''a'' @ ?a"
    using assms(1) by (simp flip: replicate_add)
  have run: "rm (re_rep 10 0 (Cls jwt_class)) (replicate 10 CHR ''a'' @ ?a @ y, p, g) = [(?a @ y, p + 10, g)]"
    using rm_run [OF jwt_chars(1), of "replicate 10 CHR ''a''" "?a @ y" p g] jwt_chars(2) by simp
  have "\<exists>ys. star_iter True (step_rune ?P) (length (?a @ y)) (?a @ y, p + 10, g) = (y, p + 10 + length ?a, g) # ys"
    by (rule star_greedy_first [OF ascii_ranges [OF jwt_chars(1)]]) (use assms(2) jwt_chars in auto)
  then have "(y, p + k, g) \<in> set (rm (Star True (Cls jwt_class)) (?a @ y, p + 10, g))" using assms(1) by auto
  then show ?thesis unfolding re_atleast_def rm.simps(5) sp append_assoc run by simp
qed

lemma seqI: "u \<in> set (rm a s) \<Longrightarrow> t \<in> set (rm b u) \<Longrightarrow> t \<in> set (rm (Seq a b) s)"
  by auto

lemma dot_step: "(y, p + 1, g) \<in> set (rm (re_byte CHR ''.'') (CHR ''.'' # y, p, g))"
  by (simp add: re_byte_def step_low byte_def in_ranges_def)

lemma jwt_matches:
  assumes "10 \<le> m"
  shows "rm (sp_expr jwt_spec) (jwt_token m, p, []) \<noteq> []"
proof -
  let ?b = "replicate 10 CHR ''a''"
  have 1: "(replicate m CHR ''a'' @ ''.'' @ ?b @ ''.'' @ ?b, p + 3, []) \<in> set (rm (re_lit ''eyJ'') (jwt_token m, p, []))"
    unfolding jwt_token_def using rm_lit_self [of "''eyJ''" _ p "[]"] by (simp add: ascii_def byte_def)
  have 2: "(''.'' @ ?b @ ''.'' @ ?b, p + 3 + m, []) \<in> set (rm (re_atleast 10 (Cls jwt_class))
      (replicate m CHR ''a'' @ ''.'' @ ?b @ ''.'' @ ?b, p + 3, []))"
    by (rule atleast_run [OF assms]) simp
  have 3: "(?b @ ''.'' @ ?b, p + 3 + m + 1, []) \<in> set (rm (re_byte CHR ''.'') (''.'' @ ?b @ ''.'' @ ?b, p + 3 + m, []))"
    by (simp only: append_Cons append_Nil dot_step)
  have 4: "(''.'' @ ?b, p + 3 + m + 1 + 10, []) \<in> set (rm (re_atleast 10 (Cls jwt_class)) (?b @ ''.'' @ ?b, p + 3 + m + 1, []))"
    by (rule atleast_run) simp_all
  have 5: "(?b, p + 3 + m + 1 + 10 + 1, []) \<in> set (rm (re_byte CHR ''.'') (''.'' @ ?b, p + 3 + m + 1 + 10, []))"
    by (simp only: append_Cons append_Nil dot_step)
  have 6: "([], p + 3 + m + 1 + 10 + 1 + 10, []) \<in> set (rm (re_atleast 10 (Cls jwt_class)) (?b, p + 3 + m + 1 + 10 + 1, []))"
    using atleast_run [of 10 "[]" "p + 3 + m + 1 + 10 + 1" "[]"] by simp
  have "([], p + 3 + m + 1 + 10 + 1 + 10, []) \<in> set (rm (sp_expr jwt_spec) (jwt_token m, p, []))"
    unfolding jwt_fields by (rule seqI [OF 1 seqI [OF 2 seqI [OF 3 seqI [OF 4 seqI [OF 5 6]]]]])
  then show ?thesis by (metis empty_iff list.set(1))
qed

text \<open>In the whole text the recognizer reports the token.\<close>

lemma jwt_recognizer:
  "pr_boundary (of_spec jwt_spec) = BoundaryNone" "pr_validate (of_spec jwt_spec) = None" "pr_contexts (of_spec jwt_spec) = []"
  "\<not> pr_requireContext (of_spec jwt_spec)"
  by (simp_all add: jwt_spec_def generic_specs_def of_spec_def)

lemma jwt_found:
  assumes "10 \<le> m" "ascii x"
  shows "\<exists>found. Recognize ct (of_spec jwt_spec) (x @ jwt_token m) = Some found \<and> found \<noteq> []"
proof -
  let ?t = "x @ jwt_token m" and ?p = "of_spec jwt_spec"
  have "ascii ?t" using assms(2) by (auto simp: jwt_token_def ascii_def byte_def)
  then have ne: "find_all_string (sp_expr jwt_spec) ?t \<noteq> []" using match_found jwt_matches assms(1) by blast
  then obtain m ms where ms: "find_all_string (sp_expr jwt_spec) ?t = m # ms" by (cases "find_all_string (sp_expr jwt_spec) ?t") auto
  have "sp_name jwt_spec \<noteq> ''cn_uscc''" "jwt_spec \<in> set all_specs" using jwt_fields by (auto simp: all_specs_def)
  then have "Recognize ct ?p ?t = Recognize ct (WithoutPrefilter ?p) ?t"
    using all_specs_prefilters prefilter_changes_nothing by metis
  also have "\<dots> = recognize_loop ct (WithoutPrefilter ?p) ?t (m # ms)" using ms by (simp add: Recognize_def without_fields)
  finally have r: "Recognize ct ?p ?t = recognize_loop ct (WithoutPrefilter ?p) ?t (m # ms)" .
  have "\<exists>e. recognize_match ct (WithoutPrefilter ?p) ?t (fst m) (fst (snd m)) = Some [e]"
    unfolding recognize_match_def hasContext_def without_fields jwt_recognizer by (simp add: isBoundaryOK_def jwt_recognizer)
  moreover obtain found where "Recognize ct ?p ?t = Some found"
    using spec_Recognize [OF \<open>jwt_spec \<in> set all_specs\<close>] by blast
  ultimately show ?thesis using r by (auto split: option.splits)
qed

section \<open>The chunks\<close>

text \<open>The characters of which the recognizers of the generic pack need one, the token's own apart.\<close>

definition telling :: "char \<Rightarrow> bool" where
  "telling c \<longleftrightarrow> is_digit c \<or> c \<in> set ''@+kK_''"

lemma telling_classes [simp]:
  "ascii_class telling [(64, 64)]" "ascii_class telling [(48, 57)]" "ascii_class telling [(43, 43)]"
  "ascii_class telling [(50, 50)]" "ascii_class telling [(107, 107)]" "ascii_class telling [(75, 75)]" "ascii_class telling [(95, 95)]"
  "ascii_class (\<lambda>c. c = CHR ''J'') [(74, 74)]"
  by code_simp+

lemma generic_telling:
  "list_all (\<lambda>s. must (ascii_class telling) (sp_expr s) \<or> s = jwt_spec) generic_specs"
  by (simp add: generic_specs_def jwt_spec_def byte_def ipv4_octet_def)

lemma jwt_needs: "must (ascii_class (\<lambda>c. c = CHR ''.'')) (sp_expr jwt_spec)" "must (ascii_class (\<lambda>c. c = CHR ''J'')) (sp_expr jwt_spec)"
  by (simp_all add: jwt_fields byte_def)

lemma fragment_silent:
  assumes "NewRegistry ct packs [''GEN''] [] = Inr reg" "\<forall>c \<in> set u. \<not> telling c" "CHR ''.'' \<notin> set u \<or> CHR ''J'' \<notin> set u"
  shows "registry_Detect reg u = Inr []"
proof (rule registry_nothing [OF assms(1)])
  fix s e
  assume "s \<in> set (enabled [''GEN''] [])"
  then have s: "s \<in> set generic_specs"
    by (auto simp: enabled_def chosen_mem normalizeCode_def specs_of_def is_lower_def in_range_def byte_def)
  show "\<not> reported (of_spec s) u e"
  proof
    assume "reported (of_spec s) u e"
    then obtain m where m: "is_match (sp_expr s) u 0 m" by (auto simp: reported_def)
    have "must (ascii_class telling) (sp_expr s) \<or> s = jwt_spec" using generic_telling s by (simp add: list_all_iff)
    then show False
      using must_ascii [OF _ m, of telling] must_ascii [OF _ m, of "\<lambda>c. c = CHR ''.''"] must_ascii [OF _ m, of "\<lambda>c. c = CHR ''J''"]
        jwt_needs assms(2,3) by blast
  qed
qed

lemma ascii_align:
  assumes "ascii s" "i \<le> length s"
  shows "alignLeft s i = i"
proof (cases "i = length s")
  case False
  then have "i < length s" using assms(2) by simp
  moreover have "utf8Start (s ! i)" using assms(1) \<open>i < length s\<close> by (simp add: ascii_def utf8Start_def)
  ultimately show ?thesis by (cases i) (simp_all add: alignLeft_def)
qed (simp add: alignLeft_def)

lemma jwt_chunk_silent:
  assumes reg: "NewRegistry ct packs [''GEN''] [] = Inr reg" and n: "3 \<le> n" "m < n"
    and t: "t = replicate (n - 3) CHR '' '' @ jwt_token m" and c: "chunk_ok t (int n) (int m) 0 c"
  shows "registry_Detect reg (substr t (int (fst c)) (int (snd c))) = Inr []"
proof (rule fragment_silent [OF reg])
  let ?u = "substr t (int (fst c)) (int (snd c))"
  have u: "?u = take (snd c - fst c) (drop (fst c) t)" by (simp add: substr_def)
  have tok: "\<forall>c \<in> set t. \<not> telling c"
    unfolding t jwt_token_def by (auto simp: telling_def is_digit_def in_range_def byte_def)
  then show "\<forall>c \<in> set ?u. \<not> telling c" unfolding u by (meson in_set_dropD in_set_takeD)
  obtain k where k: "fst c = alignLeft t (nat (int k * int n))" "int (snd c) \<le> int k * int n + int n + int m"
    "fst c < snd c" "snd c \<le> length t"
    using c by (auto simp: chunk_ok_def)
  have asc: "ascii t" unfolding t jwt_token_def by (auto simp: ascii_def byte_def)
  show "CHR ''.'' \<notin> set ?u \<or> CHR ''J'' \<notin> set ?u"
  proof (cases k)
    case 0
    then have z: "fst c = 0" "snd c \<le> n + m" using k ascii_align [OF asc, of 0] by auto
    define y where "y = ''.'' @ replicate 10 CHR ''a'' @ ''.'' @ replicate 10 CHR ''a''"
    define x where "x = replicate (n - 3) CHR '' '' @ ''eyJ'' @ replicate m CHR ''a''"
    have sp: "t = x @ y" by (simp add: t jwt_token_def y_def x_def)
    have len: "length x = n + m" using n by (simp add: x_def)
    have "?u = take (snd c) x" using z len by (simp add: sp substr_def)
    then have "set ?u \<subseteq> set x" using set_take_subset by metis
    also have "set x \<subseteq> {CHR '' '', CHR ''e'', CHR ''y'', CHR ''J'', CHR ''a''}" by (auto simp: x_def)
    finally show ?thesis by auto
  next
    case (Suc j)
    have "n \<le> fst c"
    proof -
      have le: "border t (fst c)" "fst c \<le> length t" using k(3,4) alignLeft_border k(1) by auto
      have "int n \<le> int k * int n" using Suc by (simp add: distrib_right)
      then have kn: "n \<le> nat (int k * int n)" by linarith
      have "border t n" using asc n by (auto simp: border_def t jwt_token_def ascii_def utf8Start_def nth_append)
      then show ?thesis using alignLeft_max [OF kn] k(1) by simp
    qed
    moreover have "drop n t = replicate m CHR ''a'' @ ''.'' @ replicate 10 CHR ''a'' @ ''.'' @ replicate 10 CHR ''a''"
    proof -
      have "t = (replicate (n - 3) CHR '' '' @ ''eyJ'') @ replicate m CHR ''a'' @ ''.'' @ replicate 10 CHR ''a'' @ ''.'' @ replicate 10 CHR ''a''"
        by (simp add: t jwt_token_def)
      moreover have "length (replicate (n - 3) CHR '' '' @ ''eyJ'') = n" using n by simp
      ultimately show ?thesis by (metis append_eq_conv_conj)
    qed
    then have "set (drop n t) \<subseteq> {CHR ''a'', CHR ''.''}" by auto
    moreover have "set ?u \<subseteq> set (drop (fst c) t)" unfolding u by (rule set_take_subset)
    ultimately have "set ?u \<subseteq> {CHR ''a'', CHR ''.''}" using set_drop_subset_set_drop [of n "fst c" t] by blast
    then show ?thesis by auto
  qed
qed

text \<open>The margin does not cover the tokens of the generic pack, whose length is unbounded, contrary
  to the comment on its default: a signed web token that begins three bytes before the border
  of a chunk and has a header longer than the margin is in none of the chunks as a whole, and
  the scanner reports nothing, while the registry finds the token in the same text.\<close>

theorem long_token_missed:
  assumes "NewRegistry ct packs [''GEN''] [] = Inr reg" "NewChunkedScanner g (Some reg) cz mg w = Inr s"
    and "n = nat (cs_chunkSize s)" "m = nat (cs_margin s)" "10 \<le> m"
    and "text = replicate (n - 3) CHR '' '' @ jwt_token m"
  shows "scanner_Detect s text = Some (Inr []) \<and> (\<exists>es. registry_Detect reg text = Inr es \<and> es \<noteq> [])"
proof -
  note b = scanner_built(2,3) [OF assms(2)]
  have nm: "cs_chunkSize s = int n" "cs_margin s = int m" "m < n" "3 \<le> n" using b assms(3-5) by auto
  have "length text = n + m + 22" using nm by (simp add: assms(6) jwt_token_def)
  then have long: "\<not> int (length text) \<le> cs_chunkSize s" using nm by simp
  obtain bs es where bs: "chunks s text = Some bs" "scanner_Detect s text = Some (Inr es)"
    "\<forall>e \<in> set es. sound_entity [] text e \<and> (\<exists>c \<in> set bs. \<exists>found e'. e = shift_entity (fst c) e' \<and> e' \<in> set found \<and>
        registry_Detect reg (substr text (int (fst c)) (int (snd c))) = Inr found)"
    using scan_long [OF assms(1,2) long] by blast
  have "\<forall>c \<in> set bs. chunk_ok text (int n) (int m) 0 c"
    using chunks_cover [OF assms(2), of "text"] bs(1) nm(1,2) by auto
  then have "\<forall>c \<in> set bs. registry_Detect reg (substr text (int (fst c)) (int (snd c))) = Inr []"
    using jwt_chunk_silent [OF assms(1) nm(4,3) assms(6)] by blast
  then have "\<forall>e \<in> set es. False" using bs(3) by fastforce
  then have es: "es = []" by (cases es) auto
  have a: "ascii (replicate (n - 3) CHR '' '')" by (simp add: ascii_def byte_def)
  obtain found where f: "Recognize ct (of_spec jwt_spec) text = Some found" "found \<noteq> []"
    using jwt_found [OF assms(5) a] assms(6) by blast
  obtain rs where rs: "registry_Detect reg text = Inr rs"
    "\<forall>s \<in> set (enabled [''GEN''] []). \<forall>found e. Recognize ct (of_spec s) text = Some found \<and> e \<in> set found \<longrightarrow>
       (\<exists>k \<in> set rs. overlaps e k \<and> rank_key k \<le> rank_key e)"
    using builtin_Detect [OF assms(1)] by blast
  have "jwt_spec \<in> set (enabled [''GEN''] [])"
    using jwt_fields(3) by (auto simp: enabled_def chosen_mem normalizeCode_def specs_of_def is_lower_def in_range_def byte_def)
  then have "rs \<noteq> []" using rs(2) f by (cases found) auto
  then show ?thesis using rs(1) bs(2) es by blast
qed

theorem long_token_missed_witness:
  "\<exists>reg s. NewRegistry \<lparr>ct_upper = (\<lambda>r. r), ct_lower = (\<lambda>r. r)\<rparr> packs [''GEN''] [] = Inr reg \<and>
     NewChunkedScanner 4 (Some reg) 0 0 0 = Inr s \<and>
     scanner_Detect s (replicate 16381 CHR '' '' @ jwt_token 512) = Some (Inr [])"
proof -
  let ?ct = "\<lparr>ct_upper = (\<lambda>r. r), ct_lower = (\<lambda>r. r)\<rparr>"
  have "normalizeCode ` set [''GEN''] \<subseteq> set known_codes" by code_simp
  then obtain reg where r: "NewRegistry ?ct packs [''GEN''] [] = Inr reg"
    using NewRegistry_cases [of "[''GEN'']" ?ct "[]"] by auto
  obtain s where s: "NewChunkedScanner 4 (Some reg) 0 0 0 = Inr s" "cs_chunkSize s = 16384" "cs_margin s = 512"
    by (simp add: NewChunkedScanner_def DefaultChunkSize_def DefaultMargin_def)
  have d: "16384 = nat (cs_chunkSize s)" "512 = nat (cs_margin s)" "(10 :: nat) \<le> 512" using s by simp_all
  have "scanner_Detect s (replicate (16384 - 3) CHR '' '' @ jwt_token 512) = Some (Inr [])"
    using long_token_missed [OF r s(1) d refl] by (rule conjunct1)
  then show ?thesis using r s(1) by auto
qed

end
