(* ===== verification/RuneFacts.thy ===== *)
theory RuneFacts imports GoCase begin

text \<open>
  Reading runes: a successful decoding has the encoding of its rune in front, and the runes of a
  text split wherever a rune begins.
\<close>

section \<open>Decoding is inverse to encoding\<close>

lemma byte_char_byte [simp]: "byte_char (byte c) = c"
  by (simp add: byte_char_def byte_def)

lemma digits64:
  assumes "b < 64" "c < (64 :: nat)"
  shows "(a * 4096 + b * 64 + c) div 4096 = a" "(a * 4096 + b * 64 + c) div 64 mod 64 = b"
    "(a * 4096 + b * 64 + c) mod 64 = c" "(b * 64 + c) div 64 = b" "(b * 64 + c) mod 64 = c"
proof -
  show "(b * 64 + c) div 64 = b" "(b * 64 + c) mod 64 = c" using assms by simp_all
  have "(a * 4096 + b * 64 + c) div 64 = a * 64 + b" using assms by (intro div_nat_eqI) simp_all
  then show "(a * 4096 + b * 64 + c) div 64 mod 64 = b" using assms by simp
  show "(a * 4096 + b * 64 + c) div 4096 = a" using assms by (intro div_nat_eqI) simp_all
  have "a * 4096 + b * 64 + c = (a * 64 + b) * 64 + c" by simp
  then show "(a * 4096 + b * 64 + c) mod 64 = c" using assms by (metis mod_less mod_mult_self3)
qed

lemma digits64_4:
  assumes "b < 64" "c < 64" "d < (64 :: nat)"
  shows "(a * 262144 + b * 4096 + c * 64 + d) div 262144 = a" "(a * 262144 + b * 4096 + c * 64 + d) div 4096 mod 64 = b"
    "(a * 262144 + b * 4096 + c * 64 + d) div 64 mod 64 = c" "(a * 262144 + b * 4096 + c * 64 + d) mod 64 = d"
proof -
  have e: "a * 262144 + b * 4096 + c * 64 + d = (a * 64 + b) * 4096 + c * 64 + d" by simp
  show "(a * 262144 + b * 4096 + c * 64 + d) div 262144 = a" using assms by (intro div_nat_eqI) simp_all
  show "(a * 262144 + b * 4096 + c * 64 + d) div 4096 mod 64 = b" unfolding e digits64(1) [OF assms(2,3)] using assms by simp
  show "(a * 262144 + b * 4096 + c * 64 + d) div 64 mod 64 = c" unfolding e by (rule digits64(2) [OF assms(2,3)])
  show "(a * 262144 + b * 4096 + c * 64 + d) mod 64 = d" unfolding e by (rule digits64(3) [OF assms(2,3)])
qed

definition decodes_to :: "string \<Rightarrow> nat \<times> nat \<Rightarrow> bool" where
  "decodes_to s x \<longleftrightarrow> x = (rune_error, 1) \<or>
     valid_rune (fst x) \<and> snd x = length (encode_rune (fst x)) \<and> (\<exists>y. s = encode_rune (fst x) @ y)"

lemma decode2_inv:
  assumes "194 \<le> byte c" "byte c < 224"
  shows "decodes_to (c # s) (decode2 (byte c) s)"
proof (cases s)
  case (Cons d y)
  show ?thesis
  proof (cases "byte_between 128 191 d")
    case True
    define a where "a = byte c - 192"
    define b where "b = byte d - 128"
    have ab: "byte c = 192 + a" "byte d = 128 + b" "2 \<le> a" "a < 32" "b < 64"
      using assms True by (auto simp: a_def b_def byte_between_def)
    have enc: "encode_rune (a * 64 + b) = [c, d]"
      using ab byte_char_byte [of c] byte_char_byte [of d] by (simp add: encode_rune_def valid_rune_def Let_def)
    have "decode2 (byte c) s = (a * 64 + b, 2)" using Cons True ab by (simp add: decode2_def cont_def)
    then show ?thesis using enc ab Cons by (simp add: decodes_to_def valid_rune_def)
  qed (simp add: Cons decode2_def decodes_to_def)
qed (simp add: decode2_def decodes_to_def)

lemma decode3_inv:
  assumes "224 \<le> byte c" "byte c < 240"
  shows "decodes_to (c # s) (decode3 (byte c) s)"
proof -
  have "(\<exists>d e y. s = d # e # y \<and> second3 (byte c) d \<and> byte_between 128 191 e) \<or> decode3 (byte c) s = (rune_error, 1)"
    by (auto simp: decode3_def split: list.split)
  then consider d e y where "s = d # e # y" "second3 (byte c) d" "byte_between 128 191 e" | "decode3 (byte c) s = (rune_error, 1)"
    by blast
  then show ?thesis
  proof cases
    case 1
    define a where "a = byte c - 224"
    define b where "b = byte d - 128"
    define k where "k = byte e - 128"
    have ab: "byte c = 224 + a" "byte d = 128 + b" "byte e = 128 + k" "a < 16" "b < 64" "k < 64" "a = 0 \<longrightarrow> 32 \<le> b" "a = 13 \<longrightarrow> b < 32"
      using assms 1 by (auto simp: a_def b_def k_def byte_between_def second3_def split: if_splits)
    define r where "r = a * 4096 + b * 64 + k"
    have r: "2048 \<le> r" "r < 65536" using ab unfolding r_def by auto
    consider "a < 13" | "a = 13" | "14 \<le> a" by linarith
    then have v: "valid_rune r" using ab unfolding r_def valid_rune_def by cases auto
    have "encode_rune r = [byte_char (224 + r div 4096), byte_char (128 + r div 64 mod 64), byte_char (128 + r mod 64)]"
      using r v by (simp add: encode_rune_def Let_def)
    also have "\<dots> = [c, d, e]" unfolding r_def digits64 [OF ab(5,6)] using ab(1-3) byte_char_byte by metis
    finally have enc: "encode_rune r = [c, d, e]" .
    have "decode3 (byte c) s = (r, 3)" using 1 ab by (simp add: decode3_def cont_def r_def)
    then show ?thesis using enc v 1 by (simp add: decodes_to_def)
  qed (simp add: decodes_to_def)
qed

lemma decode4_inv:
  assumes "240 \<le> byte c" "byte c < 245"
  shows "decodes_to (c # s) (decode4 (byte c) s)"
proof -
  have "(\<exists>d e f y. s = d # e # f # y \<and> second4 (byte c) d \<and> byte_between 128 191 e \<and> byte_between 128 191 f) \<or>
      decode4 (byte c) s = (rune_error, 1)"
    by (auto simp: decode4_def split: list.split)
  then consider d e f y where "s = d # e # f # y" "second4 (byte c) d" "byte_between 128 191 e" "byte_between 128 191 f"
    | "decode4 (byte c) s = (rune_error, 1)"
    by blast
  then show ?thesis
  proof cases
    case 1
    define a where "a = byte c - 240"
    define b where "b = byte d - 128"
    define k where "k = byte e - 128"
    define l where "l = byte f - 128"
    have ab: "byte c = 240 + a" "byte d = 128 + b" "byte e = 128 + k" "byte f = 128 + l" "a < 5" "b < 64" "k < 64" "l < 64"
      "a = 0 \<longrightarrow> 16 \<le> b" "a = 4 \<longrightarrow> b < 16"
      using assms 1 by (auto simp: a_def b_def k_def l_def byte_between_def second4_def split: if_splits)
    define r where "r = a * 262144 + b * 4096 + k * 64 + l"
    have r: "65536 \<le> r" "r < 1114112" using ab unfolding r_def by auto
    have v: "valid_rune r" using r by (simp add: valid_rune_def)
    have "encode_rune r = [byte_char (240 + r div 262144), byte_char (128 + r div 4096 mod 64), byte_char (128 + r div 64 mod 64),
        byte_char (128 + r mod 64)]"
      using r v by (simp add: encode_rune_def Let_def)
    also have "\<dots> = [c, d, e, f]" unfolding r_def digits64_4 [OF ab(6,7,8)] using ab(1-4) byte_char_byte by metis
    finally have enc: "encode_rune r = [c, d, e, f]" .
    have "decode4 (byte c) s = (r, 4)" using 1 ab by (simp add: decode4_def cont_def r_def)
    then show ?thesis using enc v 1 by (simp add: decodes_to_def)
  qed (simp add: decodes_to_def)
qed

lemma decode_inv: "s \<noteq> [] \<Longrightarrow> decodes_to s (decode_rune s)"
proof -
  assume "s \<noteq> []"
  then obtain c y where s: "s = c # y" by (cases s) auto
  have low: "decodes_to (c # y) (byte c, 1)" if "byte c < 128"
    using that encode_ascii [OF that] by (simp add: decodes_to_def valid_rune_def)
  have err: "decodes_to t (rune_error, 1)" for t by (simp add: decodes_to_def)
  show ?thesis unfolding s decode_rune.simps Let_def
    using low err decode2_inv [of c y] decode3_inv [of c y] decode4_inv [of c y] by (simp split: if_splits)
qed

lemma decode_encodes:
  assumes "decode_rune s = (r, w)" "r \<noteq> rune_error"
  shows "valid_rune r \<and> w = length (encode_rune r) \<and> (\<exists>y. s = encode_rune r @ y)"
proof -
  have "s \<noteq> []" using assms by auto
  then show ?thesis using decode_inv [of s] assms by (simp add: decodes_to_def)
qed

lemma decode_prefix:
  assumes "decode_rune (x @ y) = (r, w)" "w \<le> length x" "x \<noteq> []"
  shows "decode_rune x = (r, w)"
proof -
  have full: "decodes_to (x @ y) (r, w)" and part: "decodes_to x (decode_rune x)"
    using decode_inv [of "x @ y"] decode_inv [of x] assms by auto
  show ?thesis
  proof (cases "\<exists>z. valid_rune r \<and> w = length (encode_rune r) \<and> x @ y = encode_rune r @ z")
    case True
    then have "x = encode_rune r @ drop w x" "valid_rune r" "w = length (encode_rune r)"
      using assms(2) by (metis append_eq_append_conv_if append_take_drop_id)+
    then show ?thesis using decode_encode by metis
  next
    case False
    then have rw: "(r, w) = (rune_error, 1)" using full by (auto simp: decodes_to_def)
    have "decode_rune x = (rune_error, 1)"
    proof (rule ccontr)
      assume "decode_rune x \<noteq> (rune_error, 1)"
      then obtain q z where q: "decode_rune x = (q, length (encode_rune q))" "valid_rune q" "x = encode_rune q @ z"
        using part unfolding decodes_to_def by (metis prod.collapse)
      then have "decode_rune (x @ y) = (q, length (encode_rune q))" using decode_encode by simp
      then show False using rw assms(1) q(1) \<open>decode_rune x \<noteq> (rune_error, 1)\<close> by simp
    qed
    then show ?thesis using rw by simp
  qed
qed

section \<open>The places where runes begin\<close>

text \<open>The offsets of \<open>for i := range s\<close>, and the end of the text.\<close>

definition rune_borders :: "string \<Rightarrow> nat list" where
  "rune_borders s = map fst (range_runes s) @ [length s]"

lemma range_from_ge: "x \<in> set (range_from i s) \<Longrightarrow> i \<le> fst x"
proof (induction i s rule: range_from.induct)
  case (1 i s)
  then show ?case using range_from.simps [of i s] by (cases "s = []") fastforce+
qed

text \<open>Cutting a text at a border cuts its runes.\<close>

lemma range_from_cut:
  "\<lbrakk>s = x @ y; i + length x \<in> fst ` set (range_from i s) \<or> y = []\<rbrakk> \<Longrightarrow>
   range_from i s = range_from i x @ range_from (i + length x) y"
proof (induction i s arbitrary: x rule: range_from.induct)
  case (1 i s)
  show ?case
  proof (cases "x = []")
    case True
    then show ?thesis using 1 by simp
  next
    case False
    then have ne: "s \<noteq> []" using 1(2) by simp
    let ?w = "rune_width s"
    obtain r where d: "decode_rune s = (r, ?w)" by (cases "decode_rune s") (simp add: rune_width_def)
    have step: "range_from i s = (i, r, ?w) # range_from (i + ?w) (drop ?w s)"
      using ne by (simp add: range_from.simps [of i s] d)
    have off: "i + length x \<in> fst ` set (range_from (i + ?w) (drop ?w s)) \<or> y = []"
      using 1(3) False unfolding step by auto
    have w: "?w \<le> length x"
    proof (cases "y = []")
      case True
      then show ?thesis using rune_width_le [of s] 1(2) by simp
    next
      case False
      then show ?thesis using off range_from_ge [of _ "i + ?w" "drop ?w s"] by fastforce
    qed
    have dx: "decode_rune x = (r, ?w)" using decode_prefix [of x y r ?w] d w False 1(2) by simp
    have "drop ?w s = drop ?w x @ y" using w 1(2) by simp
    moreover have "i + ?w + length (drop ?w x) = i + length x" using w by simp
    ultimately have "range_from (i + ?w) (drop ?w s) = range_from (i + ?w) (drop ?w x) @ range_from (i + length x) y"
      using 1(1) [OF ne, of "drop ?w x"] off by metis
    moreover have "range_from i x = (i, r, ?w) # range_from (i + ?w) (drop ?w x)"
      using False dx by (simp add: range_from.simps [of i x] rune_width_def)
    ultimately show ?thesis using step by simp
  qed
qed

lemma range_from_shift3: "range_from (i + k) s = map (\<lambda>(j, r, w). (j + k, r, w)) (range_from i s)"
proof (induction i s rule: range_from.induct)
  case (1 i s)
  then show ?case
    by (cases "s = []"; cases "decode_rune s")
      (simp_all add: range_from.simps [of i s] range_from.simps [of "i + k" s] ac_simps)
qed

lemma runes_cut:
  assumes "length x \<in> set (rune_borders (x @ y))"
  shows "runes (x @ y) = runes x @ runes y"
proof -
  have "length x \<in> fst ` set (range_from 0 (x @ y)) \<or> y = []"
    using assms by (auto simp: rune_borders_def range_runes_def)
  then have "range_from 0 (x @ y) = range_from 0 x @ range_from (0 + length x) y" by (intro range_from_cut) simp_all
  then show ?thesis unfolding runes_def range_runes_def using range_from_shift [of "0 + length x" y 0] by simp
qed

end
