(* ===== verification/Surname.thy ===== *)
theory Surname imports Recognizer RuneFacts begin

text \<open>
  The Chinese surname recognizer (\<open>pii/detect/surname.go\<close>): an automaton over the table of surnames, with
  a candidate for every length of the given name that follows. Whether a rune is a Han character
  is a parameter, the table of the unicode package. The lemmas show that the constructor decides
  by its options alone and that the candidates are exactly the surnames with their given names.
\<close>

section \<open>Tables\<close>

definition CompoundSurnames :: "string list" where
  "CompoundSurnames = map utf8_encode
     [[27431, 38451], [21496, 24466], [21496, 39532], [19978, 23448], [35832, 33883], [23561, 36831],
      [30343, 29995], [22799, 20399], [23431, 25991], [38271, 23385], [24917, 23481], [29420, 23396],
      [19996, 26041], [21335, 23467], [20844, 23385], [20196, 29392], [38398, 19992], [38047, 31163],
      [31471, 26408], [25299, 36299], [21628, 24310], [19975, 20447], [28601, 21488], [20844, 20918],
      [23447, 25919], [28654, 38451], [28147, 20110], [21333, 20110], [22826, 21460], [30003, 23648],
      [20844, 32650], [39067, 23385], [36713, 36757], [31532, 20116], [26753, 19992], [24038, 19992],
      [19996, 37101], [21335, 38376], [30334, 37324], [19996, 38376], [35199, 38376], [32650, 33292],
      [24494, 29983], [23731, 24069], [32529, 20130], [20917, 21518], [26377, 29748], [20115, 23448],
      [20210, 23385], [24043, 39532], [20048, 27491], [28422, 38613], [22756, 39543], [22841, 35895],
      [23472, 29238], [35895, 26753], [27573, 24178], [36203, 36830], [30343, 35937], [35098, 24072]]"

definition CommonSurnames :: "string list" where
  "CommonSurnames = map (\<lambda>r. utf8_encode [r])
     [29579, 26446, 24352, 21016, 38472, 26472, 40644, 36213, 21556, 21608, 24464, 23385, 39532, 26417,
      32993, 37101, 20309, 39640, 26519, 32599, 37073, 26753, 35874, 23435, 21776, 35768, 37011, 20911,
      38889, 26361, 26366, 24429, 33831, 34081, 28504, 30000, 33891, 34945, 20110, 20313, 21494, 33931,
      26460, 33487, 39759, 31243, 21525, 19969, 27784, 20219, 23002, 21346, 20613, 38047, 23004, 23828,
      35885, 24278, 33539, 27754, 38470, 37329, 30707, 25140, 36158, 38886, 22799, 37041, 26041, 20399,
      37049, 29066, 23391, 31206, 30333, 27743, 38414, 34203, 23609, 27573, 38647, 40654, 21490, 40857,
      38518, 36154, 39038, 27611, 37085, 40858, 37045, 19975, 38065, 20005, 35203, 27494, 25114, 33707,
      23380, 21521]"

definition nameStopRunes :: "nat list" where
  "nameStopRunes =
     [30340, 20102, 26159, 22312, 21644, 19982, 21450, 25110, 23601, 37117, 24456, 19981, 27809, 26377,
      25226, 34987, 23558, 20174, 23545, 21521, 20026, 20197, 20294, 32780, 19988, 22240, 25152, 20197,
      22914, 26524, 34429, 28982, 36825, 37027, 20123, 20010, 20204, 21602, 21527, 21543, 21834, 21568,
      21734, 21999, 20854, 20035, 21363, 21017, 21364]"

definition namePrefixBlockers :: "nat list" where
  "namePrefixBlockers = [23567, 32769, 22823, 38463]"

section \<open>The recognizer\<close>

record surname_recognizer =
  sr_name :: string
  sr_ac :: automaton
  sr_isCompound :: "bool list"
  sr_maxGiven :: int
  sr_compoundScore :: rat
  sr_singleScore :: rat

record surname_options =
  so_MaxGivenRunes :: int
  so_CompoundScore :: rat
  so_SingleScore :: rat
  so_IncludeSingle :: bool

definition DefaultSurnameOptions :: surname_options where
  "DefaultSurnameOptions =
     \<lparr>so_MaxGivenRunes = 2, so_CompoundScore = 70 / 100, so_SingleScore = 45 / 100, so_IncludeSingle = False\<rparr>"

datatype surname_error = GivenTooLong int | BadScores | SurnameAutomaton ac_error

text \<open>One of the two loops over the tables: the surnames and their kinds so far.\<close>

fun add_surnames :: "bool \<Rightarrow> string list \<Rightarrow> string list \<times> bool list \<Rightarrow> string list \<times> bool list" where
  "add_surnames compound [] st = st"
| "add_surnames compound (s # ss) (surnames, isCompound) =
     (if s \<in> set surnames then add_surnames compound ss (surnames, isCompound)
      else add_surnames compound ss (surnames @ [s], isCompound @ [compound]))"

text \<open>The outer None is a constructor that does not return.\<close>

definition NewSurnameRecognizer :: "surname_options \<Rightarrow> (surname_error + surname_recognizer) option" where
  "NewSurnameRecognizer opts =
     (let maxGiven = (if so_MaxGivenRunes opts < 1 then 2 else so_MaxGivenRunes opts) in
      if maxGiven > 3 then Some (Inl (GivenTooLong maxGiven))
      else if so_CompoundScore opts \<le> 0 \<or> so_CompoundScore opts > 1 \<or>
              so_SingleScore opts \<le> 0 \<or> so_SingleScore opts > 1 then Some (Inl BadScores)
      else
        let st = add_surnames True CompoundSurnames ([], []);
            (surnames, isCompound) = (if so_IncludeSingle opts then add_surnames False CommonSurnames st else st) in
        case NewAhoCorasick surnames of
          None \<Rightarrow> None
        | Some (Inl e) \<Rightarrow> Some (Inl (SurnameAutomaton e))
        | Some (Inr ac) \<Rightarrow>
            Some (Inr \<lparr>sr_name = ''cn_surname'', sr_ac = ac, sr_isCompound = isCompound, sr_maxGiven = maxGiven,
                       sr_compoundScore = so_CompoundScore opts, sr_singleScore = so_SingleScore opts\<rparr>))"

definition sr_EntityType :: "surname_recognizer \<Rightarrow> string" where
  "sr_EntityType s = ''NAME''"

section \<open>The last rune\<close>

text \<open>\<open>utf8.DecodeLastRuneInString\<close>: backwards over at most three bytes to the start of a rune.\<close>

fun find_start :: "string \<Rightarrow> nat \<Rightarrow> int \<Rightarrow> int" where
  "find_start s 0 start = start"
| "find_start s (Suc n) start = (if utf8Start (s ! nat start) then start else find_start s n (start - 1))"

definition decode_last_rune :: "string \<Rightarrow> nat \<times> nat" where
  "decode_last_rune s =
     (if s = [] then (rune_error, 0)
      else if byte (last s) < 128 then (byte (last s), 1)
      else
        let start = find_start s (min 3 (length s - 1)) (int (length s) - 2);
            start = (if start < 0 then 0 else start);
            (r, w) = decode_rune (drop (nat start) s) in
        if nat start + w \<noteq> length s then (rune_error, 1) else (r, w))"

section \<open>Recognition\<close>

text \<open>The loop over the lengths of the given name, of which \<open>n\<close> are left.\<close>

fun given_loop ::
    "(nat \<Rightarrow> bool) \<Rightarrow> surname_recognizer \<Rightarrow> string \<Rightarrow> ac_match \<Rightarrow> nat \<Rightarrow> nat \<Rightarrow> entity list" where
  "given_loop han s text m 0 consumed = []"
| "given_loop han s text m (Suc n) consumed =
     (let (r, w) = decode_rune (drop (nat (am_End m) + consumed) text) in
      if w = 0 \<or> r = rune_error then []
      else if \<not> han r \<or> r \<in> set nameStopRunes then []
      else
        let consumed = consumed + w;
            score = (if sr_isCompound s ! am_Pattern m then sr_compoundScore s else sr_singleScore s) in
        \<lparr>e_type = ''NAME'', e_value = substr text (am_Start m) (am_End m + int consumed), e_start = am_Start m,
         e_end = am_End m + int consumed, e_conf = score, e_det = sr_name s\<rparr> #
        given_loop han s text m n consumed)"

definition blocked :: "string \<Rightarrow> ac_match \<Rightarrow> bool" where
  "blocked text m \<longleftrightarrow> am_Start m > 0 \<and>
     (let (r, w) = decode_last_rune (take (nat (am_Start m)) text) in w > 0 \<and> r \<in> set namePrefixBlockers)"

fun surname_loop :: "(nat \<Rightarrow> bool) \<Rightarrow> surname_recognizer \<Rightarrow> string \<Rightarrow> ac_match list \<Rightarrow> entity list" where
  "surname_loop han s text [] = []"
| "surname_loop han s text (m # ms) =
     (if blocked text m then surname_loop han s text ms
      else given_loop han s text m (nat (sr_maxGiven s)) 0 @ surname_loop han s text ms)"

definition sr_Recognize :: "(nat \<Rightarrow> bool) \<Rightarrow> surname_recognizer \<Rightarrow> string \<Rightarrow> entity list option" where
  "sr_Recognize han s text = map_option (surname_loop han s text) (FindAll (sr_ac s) text)"

definition SurnameOf :: "surname_recognizer \<Rightarrow> string \<Rightarrow> string option" where
  "SurnameOf s v =
     (case FindAll (sr_ac s) v of
        None \<Rightarrow> None
      | Some ms \<Rightarrow>
          (case find (\<lambda>m. am_Start m = 0) ms of
             None \<Rightarrow> Some []
           | Some m \<Rightarrow> ac_Pattern (sr_ac s) (am_Pattern m)))"

definition Surnames :: "surname_recognizer \<Rightarrow> string option list" where
  "Surnames s = map (ac_Pattern (sr_ac s)) [0..<length (sr_isCompound s)]"

section \<open>The table of an instance\<close>

lemma add_surnames_spec:
  assumes "distinct sn" "length ic = length sn" "add_surnames c ss (sn, ic) = (sn', ic')"
  shows "distinct sn' \<and> length ic' = length sn' \<and> set sn' = set sn \<union> set ss \<and>
    (\<forall>i < length sn'. if i < length sn then sn' ! i = sn ! i \<and> ic' ! i = ic ! i else sn' ! i \<notin> set sn \<and> ic' ! i = c) \<and>
    length sn \<le> length sn'"
  using assms
proof (induction c ss "(sn, ic)" arbitrary: sn ic rule: add_surnames.induct)
  case (2 c s ss sn ic)
  show ?case
  proof (cases "s \<in> set sn")
    case True
    then show ?thesis using 2 by auto
  next
    case False
    have prem: "distinct (sn @ [s])" "length (ic @ [c]) = length (sn @ [s])" "add_surnames c ss (sn @ [s], ic @ [c]) = (sn', ic')"
      using False 2(3-5) by simp_all
    note ih = 2(2) [OF False prem]
    have "if i < length sn then sn' ! i = sn ! i \<and> ic' ! i = ic ! i else sn' ! i \<notin> set sn \<and> ic' ! i = c"
      if i: "i < length sn'" for i
      using ih i False 2(4) by (cases "i = length sn") (auto simp: nth_append split: if_splits)
    then show ?thesis using ih by auto
  qed
qed auto

definition surname_table :: "surname_options \<Rightarrow> string set" where
  "surname_table opts = set CompoundSurnames \<union> (if so_IncludeSingle opts then set CommonSurnames else {})"

definition max_given :: "surname_options \<Rightarrow> int" where
  "max_given opts = (if so_MaxGivenRunes opts < 1 then 2 else so_MaxGivenRunes opts)"

definition scores_ok :: "surname_options \<Rightarrow> bool" where
  "scores_ok opts \<longleftrightarrow> 0 < so_CompoundScore opts \<and> so_CompoundScore opts \<le> 1 \<and> 0 < so_SingleScore opts \<and> so_SingleScore opts \<le> 1"

definition table_ok :: "surname_options \<Rightarrow> string list \<Rightarrow> bool list \<Rightarrow> bool" where
  "table_ok opts sn ic \<longleftrightarrow> distinct sn \<and> set sn = surname_table opts \<and> length ic = length sn \<and>
     (\<forall>k < length sn. ic ! k = (sn ! k \<in> set CompoundSurnames))"

lemma table_built:
  assumes "(if so_IncludeSingle opts then add_surnames False CommonSurnames (add_surnames True CompoundSurnames ([], []))
     else add_surnames True CompoundSurnames ([], [])) = (sn, ic)"
  shows "table_ok opts sn ic"
proof -
  obtain sn1 ic1 where 1: "add_surnames True CompoundSurnames ([], []) = (sn1, ic1)"
    by (cases "add_surnames True CompoundSurnames ([], [])")
  from add_surnames_spec [OF _ _ 1]
  have s1: "distinct sn1" "length ic1 = length sn1" "set sn1 = set CompoundSurnames" "\<forall>i < length sn1. ic1 ! i"
    by auto
  show ?thesis
  proof (cases "so_IncludeSingle opts")
    case False
    then have "sn = sn1" "ic = ic1" using assms 1 by simp_all
    then show ?thesis using s1 False nth_mem [of _ sn1] by (auto simp: table_ok_def surname_table_def)
  next
    case True
    then have "add_surnames False CommonSurnames (sn1, ic1) = (sn, ic)" using assms 1 by simp
    note s2 = add_surnames_spec [OF s1(1,2) this]
    have "ic ! k = (sn ! k \<in> set CompoundSurnames)" if "k < length sn" for k
      using s2 that s1(3,4) nth_mem [of k sn1] by (cases "k < length sn1") auto
    then show ?thesis using s2 True s1(3) by (auto simp: table_ok_def surname_table_def)
  qed
qed

lemma utf8_encode_empty: "utf8_encode rs = [] \<longleftrightarrow> rs = []"
  by (cases rs) (simp_all add: utf8_encode_def)

lemma CompoundSurnames_nonempty: "[] \<notin> set CompoundSurnames" "CompoundSurnames \<noteq> []"
  by (simp_all add: CompoundSurnames_def utf8_encode_empty [THEN eq_iff_swap])

lemma CommonSurnames_nonempty: "[] \<notin> set CommonSurnames"
  by (simp add: CommonSurnames_def utf8_encode_empty [THEN eq_iff_swap])

lemma table_nonempty: "[] \<notin> surname_table opts" "surname_table opts \<noteq> {}"
  using CompoundSurnames_nonempty CommonSurnames_nonempty by (auto simp: surname_table_def)

lemma surname_built:
  assumes "NewSurnameRecognizer opts = Some (Inr s)"
  shows "\<exists>sn. NewAhoCorasick sn = Some (Inr (sr_ac s)) \<and> table_ok opts sn (sr_isCompound s)"
    "sr_name s = ''cn_surname''" "sr_maxGiven s = max_given opts" "max_given opts \<le> 3"
    "sr_compoundScore s = so_CompoundScore opts" "sr_singleScore s = so_SingleScore opts"
proof -
  define st where "st = add_surnames True CompoundSurnames ([], [])"
  obtain sn ic where t: "(if so_IncludeSingle opts then add_surnames False CommonSurnames st else st) = (sn, ic)"
    by (cases "if so_IncludeSingle opts then add_surnames False CommonSurnames st else st")
  have n: "\<not> max_given opts > 3" "scores_ok opts"
    using assms by (auto simp: NewSurnameRecognizer_def Let_def max_given_def scores_ok_def split: if_splits)
  then have r: "(case NewAhoCorasick sn of None \<Rightarrow> None | Some (Inl e) \<Rightarrow> Some (Inl (SurnameAutomaton e))
      | Some (Inr ac) \<Rightarrow> Some (Inr \<lparr>sr_name = ''cn_surname'', sr_ac = ac, sr_isCompound = ic, sr_maxGiven = max_given opts,
         sr_compoundScore = so_CompoundScore opts, sr_singleScore = so_SingleScore opts\<rparr>)) = Some (Inr s)"
    using assms t unfolding NewSurnameRecognizer_def st_def [symmetric] max_given_def [symmetric] Let_def
    by (auto simp: scores_ok_def split: if_splits)
  then obtain ac where ac: "NewAhoCorasick sn = Some (Inr ac)" by (auto split: option.splits sum.splits)
  with r have s: "s = \<lparr>sr_name = ''cn_surname'', sr_ac = ac, sr_isCompound = ic, sr_maxGiven = max_given opts,
         sr_compoundScore = so_CompoundScore opts, sr_singleScore = so_SingleScore opts\<rparr>" by simp
  show "\<exists>sn. NewAhoCorasick sn = Some (Inr (sr_ac s)) \<and> table_ok opts sn (sr_isCompound s)"
    using ac table_built [OF t [unfolded st_def]] s by auto
  show "sr_name s = ''cn_surname''" "sr_maxGiven s = max_given opts" "max_given opts \<le> 3"
    "sr_compoundScore s = so_CompoundScore opts" "sr_singleScore s = so_SingleScore opts"
    using s n by simp_all
qed

lemma surname_total:
  "\<exists>r. NewSurnameRecognizer opts = Some r \<and> (is_ok r \<longleftrightarrow> max_given opts \<le> 3 \<and> scores_ok opts)"
proof (cases "max_given opts \<le> 3 \<and> scores_ok opts")
  case False
  then show ?thesis by (auto simp: NewSurnameRecognizer_def Let_def max_given_def scores_ok_def)
next
  case True
  define st where "st = add_surnames True CompoundSurnames ([], [])"
  obtain sn ic where t: "(if so_IncludeSingle opts then add_surnames False CommonSurnames st else st) = (sn, ic)"
    by (cases "if so_IncludeSingle opts then add_surnames False CommonSurnames st else st")
  have tab: "table_ok opts sn ic" using table_built [OF t [unfolded st_def]] .
  then have "sn \<noteq> [] \<and> [] \<notin> set sn \<and> distinct sn" using table_nonempty [of opts] by (auto simp: table_ok_def)
  then obtain ac where ac: "NewAhoCorasick sn = Some (Inr ac)" using ac_total [of sn] by (auto simp: is_ok_iff)
  have "\<exists>r. NewSurnameRecognizer opts = Some (Inr r)"
    using True t ac unfolding NewSurnameRecognizer_def st_def [symmetric] max_given_def [symmetric] Let_def
    by (auto simp: scores_ok_def)
  then show ?thesis using True by auto
qed

text \<open>The constructor returns for all options: the tables build an automaton, whatever their
  repetitions, and it refuses exactly given names of more than three characters and scores outside
  of (0, 1].\<close>

theorem NewSurnameRecognizer_decides:
  "\<exists>r. NewSurnameRecognizer opts = Some r \<and> (is_ok r \<longleftrightarrow> max_given opts \<le> 3 \<and> scores_ok opts)"
  by (rule surname_total)

section \<open>Candidates\<close>

definition given_runes :: "(nat \<Rightarrow> bool) \<Rightarrow> nat list \<Rightarrow> bool" where
  "given_runes han rs \<longleftrightarrow> (\<forall>r \<in> set rs. valid_rune r \<and> r \<noteq> rune_error \<and> han r \<and> r \<notin> set nameStopRunes)"

definition name_entity :: "surname_recognizer \<Rightarrow> string \<Rightarrow> ac_match \<Rightarrow> nat \<Rightarrow> entity" where
  "name_entity s t m consumed =
     \<lparr>e_type = ''NAME'', e_value = substr t (am_Start m) (am_End m + int consumed), e_start = am_Start m,
      e_end = am_End m + int consumed,
      e_conf = (if sr_isCompound s ! am_Pattern m then sr_compoundScore s else sr_singleScore s), e_det = sr_name s\<rparr>"

lemma given_loop_exact:
  "e \<in> set (given_loop han s t m n consumed) \<longleftrightarrow>
   (\<exists>rs y. rs \<noteq> [] \<and> length rs \<le> n \<and> given_runes han rs \<and> drop (nat (am_End m) + consumed) t = utf8_encode rs @ y \<and>
      e = name_entity s t m (consumed + length (utf8_encode rs)))"
proof (induction n arbitrary: consumed)
  case (Suc n)
  let ?rest = "drop (nat (am_End m) + consumed) t"
  obtain r w where d: "decode_rune ?rest = (r, w)" by (cases "decode_rune ?rest")
  show ?case
  proof (cases "w = 0 \<or> r = rune_error \<or> \<not> han r \<or> r \<in> set nameStopRunes")
    case True
    then have "given_loop han s t m (Suc n) consumed = []" using d by auto
    moreover have "\<not> given_runes han rs" if "rs \<noteq> []" "?rest = utf8_encode rs @ y" for rs y
    proof
      assume g: "given_runes han rs"
      obtain q qs where rs: "rs = q # qs" using \<open>rs \<noteq> []\<close> by (cases rs) auto
      then have "?rest = encode_rune q @ utf8_encode qs @ y" using \<open>?rest = utf8_encode rs @ y\<close> by (simp add: utf8_encode_def)
      then have "decode_rune ?rest = (q, length (encode_rune q))" using g rs decode_encode by (simp add: given_runes_def)
      then show False using d True g rs by (auto simp: given_runes_def)
    qed
    ultimately show ?thesis by auto
  next
    case False
    then have dec: "valid_rune r" "w = length (encode_rune r)" "\<exists>y. ?rest = encode_rune r @ y"
      using decode_encodes [OF d] by simp_all
    obtain y0 where y0: "?rest = encode_rune r @ y0" using dec(3) by blast
    have d0: "drop (nat (am_End m) + (consumed + w)) t = y0"
    proof -
      have "drop w ?rest = y0" using y0 dec(2) by simp
      then show ?thesis by (simp add: ac_simps)
    qed
    have loop: "given_loop han s t m (Suc n) consumed = name_entity s t m (consumed + w) # given_loop han s t m n (consumed + w)"
      using d False by (simp add: name_entity_def Let_def)
    have head: "rs = r # qs \<and> utf8_encode qs @ y = y0"
      if g: "given_runes han rs" "?rest = utf8_encode rs @ y" "rs = q # qs" for rs q qs y
    proof -
      have q: "?rest = encode_rune q @ utf8_encode qs @ y" using g by (simp add: utf8_encode_def)
      then have "decode_rune ?rest = (q, length (encode_rune q))" using g decode_encode by (simp add: given_runes_def)
      then have "q = r" using d by simp
      then show ?thesis using g(3) q y0 by simp
    qed
    show ?thesis
    proof
      assume "e \<in> set (given_loop han s t m (Suc n) consumed)"
      then consider "e = name_entity s t m (consumed + w)" | "e \<in> set (given_loop han s t m n (consumed + w))"
        unfolding loop by auto
      then show "\<exists>rs y. rs \<noteq> [] \<and> length rs \<le> Suc n \<and> given_runes han rs \<and> ?rest = utf8_encode rs @ y \<and>
          e = name_entity s t m (consumed + length (utf8_encode rs))"
      proof cases
        case 1
        then show ?thesis using False dec y0
          by (intro exI [of _ "[r]"] exI [of _ y0]) (simp add: given_runes_def utf8_encode_def)
      next
        case 2
        then obtain rs y where rs: "rs \<noteq> []" "length rs \<le> n" "given_runes han rs" "y0 = utf8_encode rs @ y"
          "e = name_entity s t m (consumed + w + length (utf8_encode rs))"
          unfolding Suc.IH d0 by blast
        then show ?thesis using False dec y0
          by (intro exI [of _ "r # rs"] exI [of _ y]) (simp add: given_runes_def utf8_encode_def add.assoc)
      qed
    next
      assume "\<exists>rs y. rs \<noteq> [] \<and> length rs \<le> Suc n \<and> given_runes han rs \<and> ?rest = utf8_encode rs @ y \<and>
          e = name_entity s t m (consumed + length (utf8_encode rs))"
      then obtain rs y where rs: "rs \<noteq> []" "length rs \<le> Suc n" "given_runes han rs" "?rest = utf8_encode rs @ y"
        "e = name_entity s t m (consumed + length (utf8_encode rs))" by blast
      obtain q qs where q: "rs = q # qs" using rs(1) by (cases rs) auto
      have h: "rs = r # qs" "utf8_encode qs @ y = y0" using head [OF rs(3,4) q] by simp_all
      show "e \<in> set (given_loop han s t m (Suc n) consumed)"
      proof (cases "qs = []")
        case True
        then show ?thesis using rs(5) h dec(2) unfolding loop by (simp add: utf8_encode_def)
      next
        case ne: False
        have "e \<in> set (given_loop han s t m n (consumed + w))"
          unfolding Suc.IH d0 using ne rs h dec(2)
          by (intro exI [of _ qs] exI [of _ y]) (auto simp: given_runes_def utf8_encode_def add.assoc)
        then show ?thesis unfolding loop by simp
      qed
    qed
  qed
qed auto

lemma surname_loop_mem:
  "e \<in> set (surname_loop han s t ms) \<longleftrightarrow> (\<exists>m \<in> set ms. \<not> blocked t m \<and> e \<in> set (given_loop han s t m (nat (sr_maxGiven s)) 0))"
  by (induction ms) auto

text \<open>A short closed set of runes in front of a surname says that it is not one.\<close>

definition titled :: "string \<Rightarrow> bool" where
  "titled x \<longleftrightarrow> x \<noteq> [] \<and> 0 < snd (decode_last_rune x) \<and> fst (decode_last_rune x) \<in> set namePrefixBlockers"

lemma sr_Recognize_candidates:
  assumes "NewSurnameRecognizer opts = Some (Inr s)"
  shows "\<exists>es. sr_Recognize han s text = Some es \<and>
    (\<forall>e. e \<in> set es \<longleftrightarrow> (\<exists>x sn rs y. text = x @ sn @ utf8_encode rs @ y \<and> sn \<in> surname_table opts \<and>
       rs \<noteq> [] \<and> int (length rs) \<le> max_given opts \<and> given_runes han rs \<and> \<not> titled x \<and>
       e = \<lparr>e_type = ''NAME'', e_value = sn @ utf8_encode rs, e_start = int (length x),
            e_end = int (length x + length sn + length (utf8_encode rs)),
            e_conf = (if sn \<in> set CompoundSurnames then so_CompoundScore opts else so_SingleScore opts), e_det = ''cn_surname''\<rparr>))"
proof -
  obtain sn where sn: "NewAhoCorasick sn = Some (Inr (sr_ac s))" "table_ok opts sn (sr_isCompound s)"
    using surname_built(1) [OF assms] by blast
  note b = surname_built(2-6) [OF assms]
  obtain ms where ms: "FindAll (sr_ac s) text = Some ms" "set ms = {m. occurs sn text m}"
    using FindAll_matches [OF sn(1), of "text"] by blast
  let ?es = "surname_loop han s text ms"
  let ?ent = "\<lambda>x k rs. \<lparr>e_type = ''NAME'', e_value = sn ! k @ utf8_encode rs, e_start = int (length x),
      e_end = int (length x + length (sn ! k) + length (utf8_encode rs)),
      e_conf = (if sn ! k \<in> set CompoundSurnames then so_CompoundScore opts else so_SingleScore opts), e_det = ''cn_surname''\<rparr>"
  have one: "e \<in> set (given_loop han s text m (nat (sr_maxGiven s)) 0) \<longleftrightarrow>
      (\<exists>rs y'. rs \<noteq> [] \<and> int (length rs) \<le> max_given opts \<and> given_runes han rs \<and> y = utf8_encode rs @ y' \<and> e = ?ent x k rs)"
    and bl: "blocked text m \<longleftrightarrow> titled x"
    if t: "text = x @ sn ! k @ y" and m: "m = match_of sn (int (length x + length (sn ! k))) k" and k: "k < length sn" for m x k y e
  proof -
    have am: "am_Start m = int (length x)" "am_End m = int (length x + length (sn ! k))" "am_Pattern m = k"
      using m by (simp_all add: match_of_def)
    show "blocked text m \<longleftrightarrow> titled x"
      unfolding blocked_def titled_def am t by (auto simp: case_prod_beta Let_def)
    have "drop (nat (am_End m) + 0) text = y" unfolding am t by simp
    moreover have "name_entity s text m (0 + length (utf8_encode rs)) = ?ent x k rs" if "y = utf8_encode rs @ y'" for rs y'
      using that k sn(2) unfolding name_entity_def am b t table_ok_def by (simp add: substr_def nat_int_add)
    moreover have "length rs \<le> nat (max_given opts) \<longleftrightarrow> int (length rs) \<le> max_given opts" for rs :: "nat list"
      by (simp add: le_nat_iff max_given_def)
    ultimately show "e \<in> set (given_loop han s text m (nat (sr_maxGiven s)) 0) \<longleftrightarrow>
      (\<exists>rs y'. rs \<noteq> [] \<and> int (length rs) \<le> max_given opts \<and> given_runes han rs \<and> y = utf8_encode rs @ y' \<and> e = ?ent x k rs)"
      unfolding given_loop_exact b(2) by auto
  qed
  have "e \<in> set ?es \<longleftrightarrow> (\<exists>x k rs y. k < length sn \<and> text = x @ sn ! k @ utf8_encode rs @ y \<and>
       rs \<noteq> [] \<and> int (length rs) \<le> max_given opts \<and> given_runes han rs \<and> \<not> titled x \<and> e = ?ent x k rs)"
    (is "_ \<longleftrightarrow> ?R") for e
  proof
    assume "e \<in> set ?es"
    then obtain m where m: "occurs sn text m" "\<not> blocked text m" "e \<in> set (given_loop han s text m (nat (sr_maxGiven s)) 0)"
      using ms(2) by (auto simp: surname_loop_mem)
    obtain k x y where k: "k < length sn" "text = x @ sn ! k @ y" "m = match_of sn (int (length x + length (sn ! k))) k"
      using m(1) unfolding occurs_def by blast
    show ?R using one [OF k(2,3,1), of e] bl [OF k(2,3,1)] m(2,3) k(1,2) by blast
  next
    assume ?R
    then obtain x k rs y where r: "k < length sn" "text = x @ sn ! k @ utf8_encode rs @ y" "rs \<noteq> []" "int (length rs) \<le> max_given opts"
      "given_runes han rs" "\<not> titled x" "e = ?ent x k rs" by blast
    define m where "m = match_of sn (int (length x + length (sn ! k))) k"
    have "occurs sn text m" unfolding occurs_def m_def using r(1,2) by blast
    then have "m \<in> set ms" using ms(2) by blast
    moreover have "e \<in> set (given_loop han s text m (nat (sr_maxGiven s)) 0)" "\<not> blocked text m"
      using one [OF r(2) m_def r(1), of e] bl [OF r(2) m_def r(1)] r by blast+
    ultimately show "e \<in> set ?es" by (auto simp: surname_loop_mem)
  qed
  then have mem: "e \<in> set ?es \<longleftrightarrow> (\<exists>x k rs y. k < length sn \<and> text = x @ sn ! k @ utf8_encode rs @ y \<and>
       rs \<noteq> [] \<and> int (length rs) \<le> max_given opts \<and> given_runes han rs \<and> \<not> titled x \<and> e = ?ent x k rs)" for e .
  have tab: "n \<in> surname_table opts \<longleftrightarrow> (\<exists>k < length sn. sn ! k = n)" for n
    using sn(2) unfolding table_ok_def by (metis in_set_conv_nth)
  let ?Q = "\<lambda>e n. \<exists>x rs y. text = x @ n @ utf8_encode rs @ y \<and> rs \<noteq> [] \<and> int (length rs) \<le> max_given opts \<and> given_runes han rs \<and> \<not> titled x \<and>
       e = \<lparr>e_type = ''NAME'', e_value = n @ utf8_encode rs, e_start = int (length x),
            e_end = int (length x + length n + length (utf8_encode rs)),
            e_conf = (if n \<in> set CompoundSurnames then so_CompoundScore opts else so_SingleScore opts), e_det = ''cn_surname''\<rparr>"
  have "e \<in> set ?es \<longleftrightarrow> (\<exists>n \<in> surname_table opts. ?Q e n)" for e
  proof -
    have "e \<in> set ?es \<longleftrightarrow> (\<exists>k < length sn. ?Q e (sn ! k))" unfolding mem by blast
    also have "\<dots> \<longleftrightarrow> (\<exists>n \<in> surname_table opts. ?Q e n)" using tab by metis
    finally show ?thesis .
  qed
  then have "\<forall>e. e \<in> set ?es \<longleftrightarrow> (\<exists>x sn rs y. text = x @ sn @ utf8_encode rs @ y \<and> sn \<in> surname_table opts \<and>
       rs \<noteq> [] \<and> int (length rs) \<le> max_given opts \<and> given_runes han rs \<and> \<not> titled x \<and>
       e = \<lparr>e_type = ''NAME'', e_value = sn @ utf8_encode rs, e_start = int (length x),
            e_end = int (length x + length sn + length (utf8_encode rs)),
            e_conf = (if sn \<in> set CompoundSurnames then so_CompoundScore opts else so_SingleScore opts), e_det = ''cn_surname''\<rparr>)"
    by blast
  moreover have "sr_Recognize han s text = Some ?es" using ms(1) unfolding sr_Recognize_def by simp
  ultimately show ?thesis by blast
qed

text \<open>
  C31: What the recognizer reports, exactly: for every occurrence of a surname of the table and for
  every number of given-name characters up to the maximum, as long as they are Han characters
  outside of the stop list, one name with the score of its kind of surname, unless a character in
  front says that it is not a surname.  No candidate is dropped in favour of a longer one.
\<close>

theorem surname_candidates:
  assumes "NewSurnameRecognizer opts = Some (Inr s)"
  shows "\<exists>es. sr_Recognize han s text = Some es \<and>
    (\<forall>e. e \<in> set es \<longleftrightarrow> (\<exists>x sn rs y. text = x @ sn @ utf8_encode rs @ y \<and> sn \<in> surname_table opts \<and>
       rs \<noteq> [] \<and> int (length rs) \<le> max_given opts \<and> given_runes han rs \<and> \<not> titled x \<and>
       e = \<lparr>e_type = ''NAME'', e_value = sn @ utf8_encode rs, e_start = int (length x),
            e_end = int (length x + length sn + length (utf8_encode rs)),
            e_conf = (if sn \<in> set CompoundSurnames then so_CompoundScore opts else so_SingleScore opts), e_det = ''cn_surname''\<rparr>))"
  by (rule sr_Recognize_candidates [OF assms])

theorem surname_candidates_witness:
  "\<exists>s es. NewSurnameRecognizer DefaultSurnameOptions = Some (Inr s) \<and>
     sr_Recognize (\<lambda>r. 19968 \<le> r \<and> r < 40960) s (utf8_encode [27431, 38451, 26126]) = Some es \<and>
     \<lparr>e_type = ''NAME'', e_value = utf8_encode [27431, 38451, 26126], e_start = 0, e_end = 9,
      e_conf = 70 / 100, e_det = ''cn_surname''\<rparr> \<in> set es"
proof -
  have "is_ok r \<Longrightarrow> \<exists>x. r = Inr x" for r :: "surname_error + surname_recognizer" by (simp add: is_ok_iff)
  moreover have "max_given DefaultSurnameOptions \<le> 3 \<and> scores_ok DefaultSurnameOptions"
    by (simp add: max_given_def scores_ok_def DefaultSurnameOptions_def)
  ultimately obtain s where s: "NewSurnameRecognizer DefaultSurnameOptions = Some (Inr s)"
    using surname_total [of DefaultSurnameOptions] by blast
  let ?han = "\<lambda>r :: nat. 19968 \<le> r \<and> r < 40960"
  let ?t = "utf8_encode [27431, 38451, 26126]"
  obtain es where es: "sr_Recognize ?han s ?t = Some es" and mem: "\<And>e. e \<in> set es \<longleftrightarrow>
      (\<exists>x sn rs y. ?t = x @ sn @ utf8_encode rs @ y \<and> sn \<in> surname_table DefaultSurnameOptions \<and>
       rs \<noteq> [] \<and> int (length rs) \<le> max_given DefaultSurnameOptions \<and> given_runes ?han rs \<and> \<not> titled x \<and>
       e = \<lparr>e_type = ''NAME'', e_value = sn @ utf8_encode rs, e_start = int (length x),
            e_end = int (length x + length sn + length (utf8_encode rs)),
            e_conf = (if sn \<in> set CompoundSurnames then so_CompoundScore DefaultSurnameOptions else so_SingleScore DefaultSurnameOptions),
            e_det = ''cn_surname''\<rparr>)"
    using surname_candidates [OF s, of ?han ?t] by blast
  have c: "utf8_encode [27431, 38451] \<in> set CompoundSurnames" by (simp add: CompoundSurnames_def)
  have w: "?t = [] @ utf8_encode [27431, 38451] @ utf8_encode [26126] @ []" by (simp add: utf8_encode_def)
  have len: "length (utf8_encode [27431, 38451]) = 6" "length (utf8_encode [26126]) = 3"
    by (simp_all add: utf8_encode_def encode_rune_def valid_rune_def Let_def)
  have g: "given_runes ?han [26126]" by (simp add: given_runes_def valid_rune_def rune_error_def nameStopRunes_def)
  have "\<lparr>e_type = ''NAME'', e_value = ?t, e_start = 0, e_end = 9, e_conf = 70 / 100, e_det = ''cn_surname''\<rparr> \<in> set es"
    unfolding mem using c w len g
    by (intro exI [of _ "[]"] exI [of _ "utf8_encode [27431, 38451]"] exI [of _ "[26126]"])
      (simp add: surname_table_def max_given_def DefaultSurnameOptions_def titled_def)
  then show ?thesis using s es by blast
qed

end
