(* ===== verification/Cascade.thy ===== *)
theory Cascade imports Detector Redactor RuneFacts begin

text \<open>
  The detection cascade (\<open>pii/detect/cascade.go\<close>, \<open>language.go\<close>, \<open>degrade.go\<close>): the fast layers, the
  masking of what they settled, the routing of the rest to the model layer and the merge of its
  answer. The model and the tables of the unicode package are parameters. The lemmas show that
  masking keeps the runes of a text in step with those of its original, and that the model can
  only add to what the fast layers report.
\<close>

section \<open>Scripts\<close>

record unicode_tables =
  uc_letter :: "nat \<Rightarrow> bool"
  uc_han :: "nat \<Rightarrow> bool"
  uc_latin :: "nat \<Rightarrow> bool"

definition ScriptHan :: string where "ScriptHan = ''zh''"
definition ScriptLatin :: string where "ScriptLatin = ''en''"
definition ScriptUnknown :: string where "ScriptUnknown = ''''"

text \<open>The loop of \<open>ScriptOf\<close>: Han, Latin and all letters so far.\<close>

fun script_counts :: "unicode_tables \<Rightarrow> nat list \<Rightarrow> nat \<times> nat \<times> nat \<Rightarrow> nat \<times> nat \<times> nat" where
  "script_counts u [] c = c"
| "script_counts u (r # rs) (han, latin, letters) =
     (if \<not> uc_letter u r then script_counts u rs (han, latin, letters)
      else if uc_han u r then script_counts u rs (han + 1, latin, letters + 1)
      else if uc_latin u r then script_counts u rs (han, latin + 1, letters + 1)
      else script_counts u rs (han, latin, letters + 1))"

definition ScriptOf :: "unicode_tables \<Rightarrow> string \<Rightarrow> rat \<Rightarrow> string" where
  "ScriptOf u text minRatio =
     (let minRatio = (if minRatio \<le> 0 \<or> minRatio > 1 then 1 / 2 else minRatio);
          (han, latin, letters) = script_counts u (runes text) (0, 0, 0) in
      if letters = 0 then ScriptUnknown
      else if of_nat han / of_nat letters \<ge> minRatio * (1 / 2) then ScriptHan
      else if of_nat latin / of_nat letters \<ge> minRatio then ScriptLatin
      else ScriptUnknown)"

section \<open>Triggers\<close>

datatype trigger_reason =
  NoReason | ShorterThanTwo | FewerThanTwoLetters | NoLetters | LowRatio rat rat | OtherReason string

fun two_letters :: "unicode_tables \<Rightarrow> nat list \<Rightarrow> nat \<Rightarrow> bool" where
  "two_letters u [] letters = False"
| "two_letters u (r # rs) letters =
     (if uc_letter u r then (if letters + 1 \<ge> 2 then True else two_letters u rs (letters + 1))
      else two_letters u rs letters)"

definition DefaultNERTrigger :: "unicode_tables \<Rightarrow> string \<Rightarrow> bool \<times> trigger_reason" where
  "DefaultNERTrigger u text =
     (if rune_count text < 2 then (False, ShorterThanTwo)
      else if two_letters u (runes text) 0 then (True, NoReason)
      else (False, FewerThanTwoLetters))"

fun cjk_counts :: "unicode_tables \<Rightarrow> nat list \<Rightarrow> nat \<times> nat \<Rightarrow> nat \<times> nat" where
  "cjk_counts u [] c = c"
| "cjk_counts u (r # rs) (cjk, letters) =
     (if \<not> uc_letter u r then cjk_counts u rs (cjk, letters)
      else cjk_counts u rs (if uc_han u r then cjk + 1 else cjk, letters + 1))"

definition RequireScript :: "unicode_tables \<Rightarrow> rat \<Rightarrow> string \<Rightarrow> bool \<times> trigger_reason" where
  "RequireScript u minCJKRatio text =
     (case DefaultNERTrigger u text of
        (False, reason) \<Rightarrow> (False, reason)
      | (True, _) \<Rightarrow>
          let (cjk, letters) = cjk_counts u (runes text) (0, 0) in
          if letters = 0 then (False, NoLetters)
          else let ratio = of_nat cjk / of_nat letters in
            if ratio < minCJKRatio then (False, LowRatio (ratio * 100) (minCJKRatio * 100)) else (True, NoReason))"

section \<open>Masking\<close>

definition RuneLen :: "nat \<Rightarrow> nat option" where
  "RuneLen r =
     (if r < 128 then Some 1 else if r < 2048 then Some 2 else if 55296 \<le> r \<and> r \<le> 57343 then None
      else if r < 65536 then Some 3 else if r < 1114112 then Some 4 else None)"

definition maskFillers :: "(nat, nat) gomap" where
  "maskFillers = [(1, 35), (2, 167), (3, 9646), (4, 128997)]"

definition fillerFor :: "nat \<Rightarrow> nat" where
  "fillerFor r =
     (case (case RuneLen r of None \<Rightarrow> None | Some n \<Rightarrow> gm_get maskFillers n) of Some f \<Rightarrow> f | None \<Rightarrow> 35)"

text \<open>The loop over the settled spans; the builder is \<open>out\<close>, and None is the panic of a slice.\<close>

fun mask_loop :: "string \<Rightarrow> entity list \<Rightarrow> int \<Rightarrow> string \<Rightarrow> nat \<Rightarrow> (string \<times> nat) option" where
  "mask_loop text [] cursor out masked =
     (case text_slice text cursor (int (length text)) of None \<Rightarrow> None | Some rest \<Rightarrow> Some (out @ rest, masked))"
| "mask_loop text (e # es) cursor out masked =
     (if e_start e < cursor \<or> e_end e > int (length text) then mask_loop text es cursor out masked
      else case text_slice text cursor (e_start e) of
        None \<Rightarrow> None
      | Some gap \<Rightarrow>
          case text_slice text (e_start e) (e_end e) of
            None \<Rightarrow> None
          | Some hit \<Rightarrow>
              mask_loop text es (e_end e) (out @ gap @ concat (map (\<lambda>r. encode_rune (fillerFor r)) (runes hit)))
                (masked + length (runes hit)))"

definition maskSpans :: "string \<Rightarrow> entity list \<Rightarrow> (string \<times> nat) option" where
  "maskSpans text spans =
     (if spans = [] then Some (text, 0) else mask_loop text (ResolveOverlaps spans) 0 [] 0)"

definition MaskSettledSpans :: "string \<Rightarrow> entity list \<Rightarrow> (string \<times> nat) option" where
  "MaskSettledSpans text spans = maskSpans text spans"

section \<open>Offsets of the masked text\<close>

definition runeOffsets :: "string \<Rightarrow> int list" where
  "runeOffsets text = map (\<lambda>x. int (fst x)) (range_runes text) @ [int (length text)]"

datatype cascade_error =
  NoFastDetector | FastFailed string | ModelFailure string
| RuneCountChanged int int | StartNotOnRune int | EndNotOnRune int

fun bridge_loop :: "string \<Rightarrow> int list \<Rightarrow> (int, nat) gomap \<Rightarrow> entity list \<Rightarrow> (cascade_error + entity list) option" where
  "bridge_loop original origIdx byteToRune [] = Some (Inr [])"
| "bridge_loop original origIdx byteToRune (e # es) =
     (case gm_get byteToRune (e_start e) of
        None \<Rightarrow> Some (Inl (StartNotOnRune (e_start e)))
      | Some startRune \<Rightarrow>
          case gm_get byteToRune (e_end e) of
            None \<Rightarrow> Some (Inl (EndNotOnRune (e_end e)))
          | Some endRune \<Rightarrow>
              let a = origIdx ! startRune; b = origIdx ! endRune in
              case text_slice original a b of
                None \<Rightarrow> None
              | Some v \<Rightarrow>
                  map_option (\<lambda>r. res_bind r (\<lambda>es. Inr (e\<lparr>e_start := a, e_end := b, e_value := v\<rparr> # es)))
                    (bridge_loop original origIdx byteToRune es))"

definition bridgeOffsets :: "string \<Rightarrow> string \<Rightarrow> entity list \<Rightarrow> (cascade_error + entity list) option" where
  "bridgeOffsets original masked entities =
     (if entities = [] then Some (Inr [])
      else
        let origIdx = runeOffsets original; maskIdx = runeOffsets masked in
        if length origIdx \<noteq> length maskIdx then
          Some (Inl (RuneCountChanged (int (length origIdx) - 1) (int (length maskIdx) - 1)))
        else
          bridge_loop original origIdx (fold (\<lambda>i. gm_set (maskIdx ! i) i) [0..<length maskIdx] []) entities)"

definition overlapsAny :: "entity \<Rightarrow> entity list \<Rightarrow> bool" where
  "overlapsAny e settled \<longleftrightarrow> (\<exists>s \<in> set settled. e_start e < e_end s \<and> e_start s < e_end e)"

section \<open>The cascade\<close>

text \<open>
  A model is a detector with some of the wider interfaces; \<open>Degraded\<close> is an error that wraps
  ErrModelDegraded. A context is of type \<open>'c\<close>.
\<close>

datatype model_failure = Degraded | ModelFailed string

record 'c model_detector =
  md_covered :: "string list"
  md_DetectContextLanguage :: "('c \<Rightarrow> string \<Rightarrow> string \<Rightarrow> model_failure + entity list) option"
  md_DetectLanguage :: "(string \<Rightarrow> string \<Rightarrow> model_failure + entity list) option"
  md_DetectContext :: "('c \<Rightarrow> string \<Rightarrow> model_failure + entity list) option"
  md_Detect :: "string \<Rightarrow> model_failure + entity list"

record cascade_stats =
  PerStage :: "(string, int) gomap"
  ModelCalls :: int
  ModelSkipped :: int
  ModelDegraded :: int
  PerLanguage :: "(string, int) gomap"
  MaskedRunes :: int
  ModelDiscarded :: int

definition StagePattern :: string where "StagePattern = ''pattern''"
definition StageGazetteer :: string where "StageGazetteer = ''gazetteer''"
definition StageModel :: string where "StageModel = ''model''"

record 'c cascade =
  cs_Fast :: detector
  cs_Model :: "'c model_detector option"
  cs_Trigger :: "(string \<Rightarrow> bool \<times> trigger_reason) option"
  cs_MaskSettled :: bool
  cs_Language :: string
  cs_SkipUnknownScript :: bool

definition NewCascade :: "detector option \<Rightarrow> 'c model_detector option \<Rightarrow> cascade_error + 'c cascade" where
  "NewCascade fast model =
     (case fast of
        None \<Rightarrow> Inl NoFastDetector
      | Some f \<Rightarrow> Inr \<lparr>cs_Fast = f, cs_Model = model, cs_Trigger = None, cs_MaskSettled = False, cs_Language = [],
                      cs_SkipUnknownScript = False\<rparr>)"

definition cascade_Name :: "'c cascade \<Rightarrow> string" where
  "cascade_Name c = ''cascade''"

definition cascade_CoveredTypes :: "'c cascade \<Rightarrow> string list" where
  "cascade_CoveredTypes c = dedup [] (d_covered (cs_Fast c) @ (case cs_Model c of None \<Rightarrow> [] | Some m \<Rightarrow> md_covered m))"

definition detectWithModel :: "'c model_detector \<Rightarrow> 'c \<Rightarrow> string \<Rightarrow> string \<Rightarrow> model_failure + entity list" where
  "detectWithModel m ctx text language =
     (case md_DetectContextLanguage m of
        Some f \<Rightarrow> f ctx text language
      | None \<Rightarrow>
          case md_DetectLanguage m of
            Some f \<Rightarrow> f text language
          | None \<Rightarrow>
              case md_DetectContext m of
                Some f \<Rightarrow> f ctx text
              | None \<Rightarrow> md_Detect m text)"

definition count_in :: "'k \<Rightarrow> int \<Rightarrow> ('k, int) gomap \<Rightarrow> ('k, int) gomap" where
  "count_in k n m = gm_set k ((case gm_get m k of None \<Rightarrow> 0 | Some i \<Rightarrow> i) + n) m"

definition stage_of :: "entity \<Rightarrow> string" where
  "stage_of e = (if contains (e_det e) ''gazetteer'' \<or> contains (e_det e) ''surname'' then StageGazetteer else StagePattern)"

definition no_stats :: cascade_stats where
  "no_stats = \<lparr>PerStage = [], ModelCalls = 0, ModelSkipped = 0, ModelDegraded = 0, PerLanguage = [], MaskedRunes = 0,
               ModelDiscarded = 0\<rparr>"

text \<open>The language to ask for, None for a text that is not sent.\<close>

definition route_language :: "unicode_tables \<Rightarrow> 'c cascade \<Rightarrow> string \<Rightarrow> string option" where
  "route_language u c modelInput =
     (if cs_Language c = [] then
        let script = ScriptOf u modelInput (1 / 2) in
        if script = ScriptUnknown then (if cs_SkipUnknownScript c then None else Some [])
        else Some script
      else Some (cs_Language c))"

text \<open>The merge of the model's answer, after its offsets were brought back to the original.\<close>

definition merge_model :: "entity list \<Rightarrow> entity list \<Rightarrow> cascade_stats \<Rightarrow> cascade_stats \<times> (cascade_error + entity list)" where
  "merge_model fast slow st =
     (let kept = filter (\<lambda>e. \<not> overlapsAny e fast) slow in
      (st\<lparr>ModelDiscarded := ModelDiscarded st + int (length slow - length kept),
          PerStage := count_in StageModel (int (length kept)) (PerStage st)\<rparr>,
       Inr (ResolveOverlaps (fast @ kept))))"

text \<open>From the call of the model on.\<close>

definition ask_model ::
    "'c cascade \<Rightarrow> 'c model_detector \<Rightarrow> 'c \<Rightarrow> string \<Rightarrow> string \<Rightarrow> entity list \<Rightarrow> string \<Rightarrow> cascade_stats \<Rightarrow>
     (cascade_stats \<times> (cascade_error + entity list)) option" where
  "ask_model c m ctx text modelInput fast language st =
     (let st = st\<lparr>ModelCalls := ModelCalls st + 1,
                  PerLanguage := count_in (if language = [] then ''default'' else language) 1 (PerLanguage st)\<rparr> in
      case detectWithModel m ctx modelInput language of
        Inl Degraded \<Rightarrow> Some (st\<lparr>ModelDegraded := ModelDegraded st + 1\<rparr>, Inr (ResolveOverlaps fast))
      | Inl (ModelFailed err) \<Rightarrow> Some (st, Inl (ModelFailure err))
      | Inr slow \<Rightarrow>
          if cs_MaskSettled c then
            (case bridgeOffsets text modelInput slow of
               None \<Rightarrow> None
             | Some (Inl err) \<Rightarrow> Some (st, Inl err)
             | Some (Inr slow) \<Rightarrow> Some (merge_model fast slow st))
          else Some (merge_model fast slow st))"

text \<open>The statistics are what \<open>OnStats\<close> receives; None is a panic.\<close>

definition cascade_DetectContext ::
    "unicode_tables \<Rightarrow> 'c cascade \<Rightarrow> 'c \<Rightarrow> string \<Rightarrow> (cascade_stats \<times> (cascade_error + entity list)) option" where
  "cascade_DetectContext u c ctx text =
     (if trim_space text = [] then Some (no_stats, Inr [])
      else case d_detect (cs_Fast c) text of
        Inl err \<Rightarrow> Some (no_stats, Inl (FastFailed err))
      | Inr fast \<Rightarrow>
          let st = no_stats\<lparr>PerStage := fold (\<lambda>e. count_in (stage_of e) 1) fast []\<rparr> in
          case cs_Model c of
            None \<Rightarrow> Some (st, Inr (ResolveOverlaps fast))
          | Some m \<Rightarrow>
              case (if cs_MaskSettled c then maskSpans text fast else Some (text, 0)) of
                None \<Rightarrow> None
              | Some (modelInput, maskedRunes) \<Rightarrow>
                  let st = st\<lparr>MaskedRunes := int maskedRunes\<rparr>;
                      trigger = (case cs_Trigger c of None \<Rightarrow> DefaultNERTrigger u | Some t \<Rightarrow> t) in
                  if \<not> fst (trigger modelInput) then
                    Some (st\<lparr>ModelSkipped := ModelSkipped st + 1\<rparr>, Inr (ResolveOverlaps fast))
                  else case route_language u c modelInput of
                    None \<Rightarrow> Some (st\<lparr>ModelSkipped := ModelSkipped st + 1\<rparr>, Inr (ResolveOverlaps fast))
                  | Some language \<Rightarrow> ask_model c m ctx text modelInput fast language st)"

definition cascade_Detect ::
    "unicode_tables \<Rightarrow> 'c cascade \<Rightarrow> 'c \<Rightarrow> string \<Rightarrow> (cascade_stats \<times> (cascade_error + entity list)) option" where
  "cascade_Detect u c background text = cascade_DetectContext u c background text"

section \<open>The trigger\<close>

lemma two_letters_count: "letters \<le> 1 \<Longrightarrow> two_letters u rs letters \<longleftrightarrow> 2 \<le> letters + length (filter (uc_letter u) rs)"
  by (induction rs arbitrary: letters) auto

lemma length_runes: "length (runes s) = rune_count s"
  by (simp add: runes_def rune_count_def)

text \<open>The default trigger is a count of letters: that a text has two runes follows.\<close>

lemma DefaultNERTrigger_iff: "fst (DefaultNERTrigger u text) \<longleftrightarrow> 2 \<le> length (filter (uc_letter u) (runes text))"
proof -
  have "length (filter (uc_letter u) (runes text)) \<le> rune_count text"
    using length_filter_le [of "uc_letter u" "runes text"] by (simp add: length_runes)
  then show ?thesis using two_letters_count [of 0 u "runes text"] by (auto simp: DefaultNERTrigger_def)
qed

section \<open>Masking keeps the runes in step\<close>

definition rune_at :: "string \<Rightarrow> nat \<Rightarrow> bool" where
  "rune_at t k \<longleftrightarrow> k \<in> set (rune_borders t)"

lemma range_from_lt: "x \<in> set (range_from i s) \<Longrightarrow> fst x < i + length s"
proof (induction i s rule: range_from.induct)
  case (1 i s)
  have "rune_width s \<le> length s" by (rule rune_width_le)
  then show ?case using 1 range_from.simps [of i s] by (cases "s = []") fastforce+
qed

lemma border_le: "rune_at t k \<Longrightarrow> k \<le> length t"
  using range_from_lt [of _ 0 t] by (fastforce simp: rune_at_def rune_borders_def range_runes_def)

lemma border_0: "rune_at t 0"
  by (cases "t = []") (simp_all add: rune_at_def rune_borders_def range_runes_def range_from.simps [of 0 t])

lemma range_cut:
  assumes "rune_at t k"
  shows "range_from 0 t = range_from 0 (take k t) @ range_from k (drop k t)"
proof -
  have k: "k \<le> length t" using border_le [OF assms] .
  then have "length (take k t) = k" by simp
  then show ?thesis
    using range_from_cut [of t "take k t" "drop k t" 0] assms k
    by (auto simp: rune_at_def rune_borders_def range_runes_def)
qed

text \<open>Between two borders.\<close>

lemma range_between:
  assumes "rune_at t c" "rune_at t d" "c \<le> d"
  shows "range_from c (drop c t) = range_from c (cut_text t c d) @ range_from d (drop d t)"
proof -
  have le: "d \<le> length t" using border_le [OF assms(2)] .
  have eq: "drop c t = cut_text t c d @ drop d t"
    using append_take_drop_id [of "d - c" "drop c t"] assms(3) by (simp add: cut_text_def)
  have len: "length (cut_text t c d) = d - c" using le by (simp add: cut_text_def)
  have "d \<in> fst ` set (range_from c (drop c t)) \<or> drop d t = []"
  proof (cases "d = length t")
    case False
    then have "d \<in> fst ` set (range_from 0 t)" using assms(2) by (auto simp: rune_at_def rune_borders_def range_runes_def)
    moreover have "d \<notin> fst ` set (range_from 0 (take c t))" using range_from_lt [of _ 0 "take c t"] assms(3) by fastforce
    ultimately show ?thesis unfolding range_cut [OF assms(1)] by auto
  qed simp
  then show ?thesis using range_from_cut [OF eq, of c] len assms(3) by simp
qed

text \<open>A text that does not begin inside of a rune does not change how the text before it is read.\<close>

definition fresh_start :: "string \<Rightarrow> bool" where
  "fresh_start y \<longleftrightarrow> (case y of [] \<Rightarrow> True | c # _ \<Rightarrow> byte c < 128 \<or> 192 \<le> byte c)"

lemma tail_byte: "128 \<le> byte (byte_char (128 + k mod 64)) \<and> byte (byte_char (128 + k mod 64)) < 192"
proof -
  have "k mod 64 < 64" by simp
  then show ?thesis by (subst (1 2) byte_byte_char) simp_all
qed

lemma encode_tail:
  assumes "i < length (encode_rune r)" "0 < i"
  shows "128 \<le> byte (encode_rune r ! i) \<and> byte (encode_rune r ! i) < 192"
proof -
  define q where "q = (if valid_rune r then r else rune_error)"
  have "encode_rune r = byte_char q # map (\<lambda>k. byte_char (128 + k mod 64)) [] \<or>
      encode_rune r = byte_char (192 + q div 64) # map (\<lambda>k. byte_char (128 + k mod 64)) [q] \<or>
      encode_rune r = byte_char (224 + q div 4096) # map (\<lambda>k. byte_char (128 + k mod 64)) [q div 64, q] \<or>
      encode_rune r = byte_char (240 + q div 262144) # map (\<lambda>k. byte_char (128 + k mod 64)) [q div 4096, q div 64, q]"
    unfolding encode_rune_def q_def [symmetric] Let_def by simp
  then obtain a ts where e: "encode_rune r = a # map (\<lambda>k. byte_char (128 + k mod 64)) ts" by blast
  obtain j where j: "i = Suc j" using assms(2) by (cases i) auto
  then have "j < length ts" using assms(1) e by simp
  then show ?thesis using tail_byte e j by simp
qed

lemma leads_encode: "fresh_start (encode_rune r @ y)"
proof -
  define q where "q = (if valid_rune r then r else rune_error)"
  have q: "q < 1114112" by (auto simp: q_def valid_rune_def rune_error_def)
  then have "q div 262144 < 5" by (simp add: less_mult_imp_div_less)
  then have d: "192 \<le> byte (byte_char (240 + q div 262144))" by simp
  have "q < 2048 \<Longrightarrow> q div 64 < 32" "q < 65536 \<Longrightarrow> q div 4096 < 16" by (simp_all add: less_mult_imp_div_less)
  then show ?thesis using d unfolding encode_rune_def q_def [symmetric] by (simp add: fresh_start_def Let_def)
qed

lemma decode_leads:
  assumes "x \<noteq> []" "fresh_start y"
  shows "decode_rune (x @ y) = decode_rune x"
proof -
  have full: "decodes_to (x @ y) (decode_rune (x @ y))" using decode_inv [of "x @ y"] assms(1) by simp
  show ?thesis
  proof (cases "snd (decode_rune (x @ y)) \<le> length x")
    case True
    then show ?thesis using decode_prefix [of x y] assms(1) by (metis prod.collapse)
  next
    case False
    let ?r = "fst (decode_rune (x @ y))"
    have e: "valid_rune ?r" "\<exists>z. x @ y = encode_rune ?r @ z" "length x < length (encode_rune ?r)"
      using full False assms(1) unfolding decodes_to_def by (cases x; auto)+
    then obtain z where z: "x @ y = encode_rune ?r @ z" by blast
    then have "y \<noteq> []" using e(3) by (metis append_Nil2 length_append not_add_less1)
    then obtain c ys where y: "y = c # ys" by (cases y) auto
    have "c = encode_rune ?r ! length x" using z e(3) y by (metis nth_append nth_append_length)
    then have "128 \<le> byte c \<and> byte c < 192" using encode_tail [OF e(3)] assms(1) by simp
    then show ?thesis using assms(2) y by (simp add: fresh_start_def)
  qed
qed

lemma range_leads: "fresh_start y \<Longrightarrow> range_from i (x @ y) = range_from i x @ range_from (i + length x) y"
proof (induction i x rule: range_from.induct)
  case (1 i x)
  show ?case
  proof (cases "x = []")
    case False
    let ?w = "rune_width x"
    have w: "rune_width (x @ y) = ?w" "?w \<le> length x" "decode_rune (x @ y) = decode_rune x"
      using decode_leads [OF False 1(2)] rune_width_le by (simp_all add: rune_width_def)
    have "range_from i (x @ y) = (i, decode_rune x) # range_from (i + ?w) (drop ?w x @ y)"
      using False w by (simp add: range_from.simps [of i "x @ y"])
    also have "\<dots> = (i, decode_rune x) # range_from (i + ?w) (drop ?w x) @ range_from (i + length x) y"
      using 1(1) [OF False 1(2)] w(2) by simp
    also have "\<dots> = range_from i x @ range_from (i + length x) y" using False by (simp add: range_from.simps [of i x])
    finally show ?thesis .
  qed simp
qed

lemma runes_leads: "fresh_start y \<Longrightarrow> runes (x @ y) = runes x @ runes y"
  unfolding runes_def range_runes_def using range_leads [of y 0 x] range_from_shift [of "0 + length x" y 0] by simp

lemma fillerFor_valid: "valid_rune (fillerFor r)"
  by (auto simp: fillerFor_def RuneLen_def maskFillers_def valid_rune_def)

lemma runes_cons: "valid_rune r \<Longrightarrow> runes (encode_rune r @ s) = r # runes s"
  using range_from_shift [of "length (encode_rune r)" s 0] by (simp add: runes_def range_runes_def range_from_cons)

definition fillers :: "nat list \<Rightarrow> string" where
  "fillers rs = concat (map (\<lambda>r. encode_rune (fillerFor r)) rs)"

lemma runes_fillers: "runes (fillers rs @ s) = map fillerFor rs @ runes s"
  by (induction rs) (simp_all add: fillers_def runes_cons fillerFor_valid)

lemma leads_fillers: "rs \<noteq> [] \<Longrightarrow> fresh_start (fillers rs @ s)"
  by (cases rs) (simp_all add: fillers_def leads_encode)

definition settled :: "entity list \<Rightarrow> nat \<Rightarrow> bool" where
  "settled es k \<longleftrightarrow> (\<exists>e \<in> set es. e_start e \<le> int k \<and> int k < e_end e)"

text \<open>Spans that begin and end where runes do.\<close>

definition on_borders :: "string \<Rightarrow> entity \<Rightarrow> bool" where
  "on_borders t e \<longleftrightarrow> 0 \<le> e_start e \<and> e_start e < e_end e \<and> rune_at t (nat (e_start e)) \<and> rune_at t (nat (e_end e))"

definition masked_rune :: "entity list \<Rightarrow> nat \<times> nat \<times> nat \<Rightarrow> nat" where
  "masked_rune es x = (if settled es (fst x) then fillerFor (fst (snd x)) else fst (snd x))"

lemma runes_range: "map (\<lambda>x. fst (snd x)) (range_from i s) = runes s"
  using range_from_shift [of i s 0] by (simp add: runes_def range_runes_def)

lemma mask_loop_runes:
  assumes "sorted_wrt (\<lambda>a b. e_end a \<le> e_start b) es" "\<forall>e \<in> set es. on_borders t e \<and> int c \<le> e_start e" "rune_at t c"
  shows "\<exists>M. mask_loop t es (int c) out n = Some (out @ M, n + length (filter (\<lambda>x. settled es (fst x)) (range_from c (drop c t)))) \<and>
    runes M = map (masked_rune es) (range_from c (drop c t))"
  using assms
proof (induction es arbitrary: c out n)
  case Nil
  have "map (masked_rune []) (range_from c (drop c t)) = runes (drop c t)"
    by (simp add: masked_rune_def settled_def flip: runes_range [of c])
  then show ?case using border_le [OF Nil(3)] text_slice_cut [of c "length t" t] by (simp add: settled_def cut_text_def)
next
  case (Cons e es)
  have e: "on_borders t e" "int c \<le> e_start e" using Cons(3) by simp_all
  define a where "a = nat (e_start e)"
  define b where "b = nat (e_end e)"
  have ab: "e_start e = int a" "e_end e = int b" "a < b" "c \<le> a" "rune_at t a" "rune_at t b"
    using e by (auto simp: a_def b_def on_borders_def)
  have bl: "b \<le> length t" using border_le [OF ab(6)] .
  have later: "\<forall>x \<in> set es. int b \<le> e_start x \<and> e_start x < e_end x" using Cons(2,3) ab(2) by (auto simp: on_borders_def)
  obtain M where M: "mask_loop t es (int b) (out @ cut_text t c a @ fillers (runes (cut_text t a b))) (n + length (runes (cut_text t a b))) =
      Some ((out @ cut_text t c a @ fillers (runes (cut_text t a b))) @ M,
        n + length (runes (cut_text t a b)) + length (filter (\<lambda>x. settled es (fst x)) (range_from b (drop b t))))"
    "runes M = map (masked_rune es) (range_from b (drop b t))"
  proof -
    have so: "sorted_wrt (\<lambda>a b. e_end a \<le> e_start b) es" using Cons(2) by simp
    have le: "\<forall>x \<in> set es. on_borders t x \<and> int b \<le> e_start x" using Cons(3) later by simp
    show ?thesis
      using Cons(1) [OF so le ab(6), of "out @ cut_text t c a @ fillers (runes (cut_text t a b))" "n + length (runes (cut_text t a b))"] that
      by blast
  qed
  have step: "mask_loop t (e # es) (int c) out n =
      mask_loop t es (int b) (out @ cut_text t c a @ fillers (runes (cut_text t a b))) (n + length (runes (cut_text t a b)))"
    using ab bl by (simp add: text_slice_cut fillers_def)
  have parts: "range_from c (drop c t) = range_from c (cut_text t c a) @ range_from a (cut_text t a b) @ range_from b (drop b t)"
    using range_between [OF Cons(4) ab(5,4)] range_between [OF ab(5,6)] ab(3) by simp
  have gap: "\<not> settled (e # es) (fst x)" if "x \<in> set (range_from c (cut_text t c a))" for x
  proof -
    have "fst x < a" using range_from_lt [OF that] ab(4) bl ab(3) by (simp add: cut_text_def)
    then show ?thesis using later ab(1,3) by (force simp: settled_def)
  qed
  have hit: "settled (e # es) (fst x)" if "x \<in> set (range_from a (cut_text t a b))" for x
    using range_from_lt [OF that] range_from_ge [OF that] bl ab(1-3) by (simp add: cut_text_def settled_def)
  have rest: "settled (e # es) (fst x) = settled es (fst x)" if "x \<in> set (range_from b (drop b t))" for x
    using range_from_ge [OF that] ab(2) by (auto simp: settled_def)
  have ne: "runes (cut_text t a b) \<noteq> []"
  proof -
    have "cut_text t a b \<noteq> []" using ab(3) bl by (simp add: cut_text_def)
    then show ?thesis by (simp add: runes_def range_runes_def range_from.simps [of 0 "cut_text t a b"])
  qed
  have "map (masked_rune (e # es)) (range_from c (cut_text t c a)) = runes (cut_text t c a)"
    using gap by (simp add: masked_rune_def flip: runes_range [of c])
  moreover have "map (masked_rune (e # es)) (range_from a (cut_text t a b)) = map fillerFor (runes (cut_text t a b))"
    using hit by (simp add: masked_rune_def flip: runes_range [of a])
  moreover have "map (masked_rune (e # es)) (range_from b (drop b t)) = runes M"
    using rest by (simp add: M(2) masked_rune_def)
  ultimately have "map (masked_rune (e # es)) (range_from c (drop c t)) =
      runes (cut_text t c a @ fillers (runes (cut_text t a b)) @ M)"
    unfolding parts using runes_leads [OF leads_fillers [OF ne]] runes_fillers by simp
  moreover have "length (filter (\<lambda>x. settled (e # es) (fst x)) (range_from c (drop c t))) =
      length (runes (cut_text t a b)) + length (filter (\<lambda>x. settled es (fst x)) (range_from b (drop b t)))"
  proof -
    have "filter (\<lambda>x. settled (e # es) (fst x)) (range_from c (cut_text t c a)) = []" using gap by (simp add: filter_empty_conv)
    moreover have "filter (\<lambda>x. settled (e # es) (fst x)) (range_from a (cut_text t a b)) = range_from a (cut_text t a b)"
      using hit by (simp add: filter_True)
    moreover have "filter (\<lambda>x. settled (e # es) (fst x)) (range_from b (drop b t)) = filter (\<lambda>x. settled es (fst x)) (range_from b (drop b t))"
      using rest by (intro filter_cong) simp_all
    moreover have "length (range_from a (cut_text t a b)) = length (runes (cut_text t a b))"
      using runes_range [of a "cut_text t a b"] by (metis length_map)
    ultimately show ?thesis unfolding parts by simp
  qed
  ultimately show ?case unfolding step M(1)
    by (intro exI [of _ "cut_text t c a @ fillers (runes (cut_text t a b)) @ M"]) simp
qed

end
