(* ===== verification/CascadeFacts.thy ===== *)
theory CascadeFacts imports Cascade begin

text \<open>
  What the cascade guarantees: the masked text stays in step with its original, offsets of the
  masked text are carried back rune by rune, and the answer of the model can only be added to
  what the fast layers report.
\<close>

section \<open>Masking and the way back\<close>

lemma mask_runes:
  assumes "\<forall>e \<in> set es. on_borders t e"
  shows "\<exists>M. maskSpans t es = Some (M, length (filter (\<lambda>x. settled (ResolveOverlaps es) (fst x)) (range_runes t))) \<and>
    runes M = map (masked_rune (ResolveOverlaps es)) (range_runes t)"
proof (cases "es = []")
  case True
  have "map (masked_rune []) (range_from 0 t) = runes t" by (simp add: masked_rune_def settled_def flip: runes_range [of 0])
  then show ?thesis using True by (simp add: maskSpans_def ResolveOverlaps_def settled_def range_runes_def)
next
  case False
  have ne: "\<forall>e \<in> set es. nonempty_span e" using assms by (simp add: on_borders_def nonempty_span_def)
  note r = ResolveOverlaps_props [OF ne]
  have "\<forall>e \<in> set (ResolveOverlaps es). on_borders t e \<and> int 0 \<le> e_start e"
    using r(1) assms by (auto simp: on_borders_def)
  from mask_loop_runes [OF r(2) this border_0, of "[]" 0] show ?thesis
    using False by (simp add: maskSpans_def range_runes_def)
qed

lemma borders_sorted: "sorted_wrt (<) (map fst (range_from i s) @ [i + length s])"
proof (induction i s rule: range_from.induct)
  case (1 i s)
  show ?case
  proof (cases "s = []")
    case False
    have w: "0 < rune_width s" "rune_width s \<le> length s" using rune_width_pos [OF False] rune_width_le by simp_all
    have "i < fst x" if "x \<in> set (range_from (i + rune_width s) (drop (rune_width s) s))" for x
      using range_from_ge [OF that] w by simp
    then show ?thesis using 1 [OF False] False w by (subst range_from.simps) simp
  qed simp
qed

lemma offsets_sorted: "sorted_wrt (<) (runeOffsets t)"
proof -
  have "runeOffsets t = map int (map fst (range_from 0 t) @ [0 + length t])" by (simp add: runeOffsets_def range_runes_def)
  then show ?thesis using borders_sorted [of 0 t] by (simp only: sorted_wrt_map of_nat_less_iff)
qed

lemma length_offsets: "length (runeOffsets t) = Suc (length (runes t))"
  by (simp add: runeOffsets_def runes_def)

lemma offsets_nth:
  assumes "i \<le> length (runes t)"
  shows "0 \<le> runeOffsets t ! i \<and> runeOffsets t ! i \<le> int (length t)"
proof -
  have "runeOffsets t ! i \<in> set (runeOffsets t)" using assms length_offsets [of t] by simp
  then show ?thesis using range_from_lt [of _ 0 t] by (fastforce simp: runeOffsets_def range_runes_def)
qed

lemma offsets_mono: "i < j \<Longrightarrow> j \<le> length (runes t) \<Longrightarrow> runeOffsets t ! i < runeOffsets t ! j"
  using offsets_sorted [of t] length_offsets [of t] by (simp add: sorted_wrt_iff_nth_less)

lemma index_map:
  assumes "distinct xs" "n \<le> length xs"
  shows "gm_get (fold (\<lambda>i. gm_set (xs ! i) i) [0..<n] []) k = Some i \<longleftrightarrow> i < n \<and> xs ! i = k"
  using assms(2)
proof (induction n arbitrary: i)
  case (Suc n)
  let ?m = "fold (\<lambda>i. gm_set (xs ! i) i) [0..<n] []"
  have step: "gm_get (fold (\<lambda>i. gm_set (xs ! i) i) [0..<Suc n] []) k = (if k = xs ! n then Some n else gm_get ?m k)"
    by (simp add: gm_get_set)
  have ih: "gm_get ?m k = Some i \<longleftrightarrow> i < n \<and> xs ! i = k" using Suc by simp
  have eq: "i \<le> n \<Longrightarrow> xs ! i = xs ! n \<longleftrightarrow> i = n" using nth_eq_iff_index_eq [OF assms(1), of i n] Suc(2) by simp
  show ?case
  proof (cases "k = xs ! n")
    case True
    then show ?thesis unfolding step using eq by (auto simp: less_Suc_eq_le)
  next
    case False
    then show ?thesis unfolding step using ih by (auto simp: less_Suc_eq)
  qed
qed simp

text \<open>A span of runes, as the model reports it in the masked text and as it is in the original.\<close>

definition rune_span :: "string \<Rightarrow> nat \<Rightarrow> nat \<Rightarrow> entity \<Rightarrow> entity" where
  "rune_span t i j e = e\<lparr>e_start := runeOffsets t ! i, e_end := runeOffsets t ! j\<rparr>"

definition brought_back :: "string \<Rightarrow> nat \<Rightarrow> nat \<Rightarrow> entity \<Rightarrow> entity" where
  "brought_back t i j e = (rune_span t i j e)\<lparr>e_value := substr t (runeOffsets t ! i) (runeOffsets t ! j)\<rparr>"

lemma bridge_spans:
  assumes "length (runes M) = length (runes t)" "\<forall>(i, j, e) \<in> set xs. i \<le> j \<and> j \<le> length (runes t)"
  shows "bridgeOffsets t M (map (\<lambda>(i, j, e). rune_span M i j e) xs) = Some (Inr (map (\<lambda>(i, j, e). brought_back t i j e) xs))"
proof -
  let ?idx = "fold (\<lambda>i. gm_set (runeOffsets M ! i) i) [0..<length (runeOffsets M)] []"
  have d: "distinct (runeOffsets M)" using offsets_sorted sorted_wrt_less_distinct [of "\<lambda>x. x"] by (metis list.map_ident)
  have idx: "gm_get ?idx (runeOffsets M ! i) = Some i" if "i \<le> length (runes t)" for i
    using index_map [OF d, of "length (runeOffsets M)" "runeOffsets M ! i" i] that assms(1) length_offsets [of M] by simp
  have "bridge_loop t (runeOffsets t) ?idx (map (\<lambda>(i, j, e). rune_span M i j e) xs) = Some (Inr (map (\<lambda>(i, j, e). brought_back t i j e) xs))"
    using assms(2)
  proof (induction xs)
    case (Cons x xs)
    obtain i j e where x: "x = (i, j, e)" by (cases x)
    have ij: "i \<le> j" "j \<le> length (runes t)" using Cons(2) x by simp_all
    have m: "runeOffsets t ! i \<le> runeOffsets t ! j" using offsets_mono [of i j t] ij by (cases "i = j") auto
    have "text_slice t (runeOffsets t ! i) (runeOffsets t ! j) = Some (substr t (runeOffsets t ! i) (runeOffsets t ! j))"
      using m offsets_nth [of i t] offsets_nth [OF ij(2)] ij by (simp add: text_slice_def substr_def nat_diff_distrib)
    then show ?case using Cons x idx ij by (simp add: rune_span_def brought_back_def Let_def)
  qed simp
  then show ?thesis using assms(1) by (cases xs) (simp_all add: bridgeOffsets_def length_offsets Let_def)
qed

lemma mask_bridge:
  assumes "\<forall>e \<in> set es. on_borders t e" "maskSpans t es = Some (M, n)" "\<forall>(i, j, e) \<in> set xs. i \<le> j \<and> j \<le> length (runes t)"
  shows "runes M = map (masked_rune (ResolveOverlaps es)) (range_runes t)"
    "bridgeOffsets t M (map (\<lambda>(i, j, e). rune_span M i j e) xs) = Some (Inr (map (\<lambda>(i, j, e). brought_back t i j e) xs))"
proof -
  show r: "runes M = map (masked_rune (ResolveOverlaps es)) (range_runes t)"
    using mask_runes [OF assms(1)] assms(2) by auto
  have "length (runes M) = length (runes t)" unfolding r by (simp add: runes_def)
  then show "bridgeOffsets t M (map (\<lambda>(i, j, e). rune_span M i j e) xs) = Some (Inr (map (\<lambda>(i, j, e). brought_back t i j e) xs))"
    using bridge_spans assms(3) by blast
qed

text \<open>
  C35: Masking keeps the text in step with its original: when the settled spans begin and end where
  runes do, the masked text has rune for rune a filler where a span is settled and the original rune
  elsewhere, invalid bytes included; and every span of runes that the model reports in it is
  carried back to the same runes of the original, with their bytes as its value.
\<close>

theorem masking_in_step:
  assumes "\<forall>e \<in> set es. on_borders t e"
  shows "\<exists>M n. maskSpans t es = Some (M, n) \<and>
    runes M = map (\<lambda>x. if settled (ResolveOverlaps es) (fst x) then fillerFor (fst (snd x)) else fst (snd x)) (range_runes t) \<and>
    (\<forall>xs. (\<forall>(i, j, e) \<in> set xs. i \<le> j \<and> j \<le> length (runes t)) \<longrightarrow>
       bridgeOffsets t M (map (\<lambda>(i, j, e). rune_span M i j e) xs) = Some (Inr (map (\<lambda>(i, j, e). brought_back t i j e) xs)))"
proof -
  obtain M n where M: "maskSpans t es = Some (M, n)" "runes M = map (masked_rune (ResolveOverlaps es)) (range_runes t)"
    using mask_runes [OF assms] by blast
  have "masked_rune (ResolveOverlaps es) = (\<lambda>x. if settled (ResolveOverlaps es) (fst x) then fillerFor (fst (snd x)) else fst (snd x))"
    by (simp add: masked_rune_def fun_eq_iff)
  then show ?thesis using M mask_bridge(2) [OF assms M(1)] by (intro exI [of _ M] exI [of _ n]) simp
qed

section \<open>The model only adds\<close>

definition proper :: "entity list \<Rightarrow> bool" where
  "proper es \<longleftrightarrow> (\<forall>e \<in> set es. nonempty_span e)"

lemma overlapsAny_iff: "overlapsAny e es \<longleftrightarrow> (\<exists>s \<in> set es. overlaps e s)"
  by (auto simp: overlapsAny_def overlaps_def)

lemma resolve_apart:
  assumes "proper fast" "proper kept" "\<forall>e \<in> set kept. \<not> overlapsAny e fast"
  shows "ResolveOverlaps (fast @ kept) = sort_key e_start (ResolveOverlaps fast @ ResolveOverlaps kept)"
proof -
  have ne: "\<forall>e \<in> set (fast @ kept). nonempty_span e" using assms(1,2) by (auto simp: proper_def)
  let ?P = "\<lambda>x. x \<in> set fast"
  have apart: "\<not> overlaps x y" if "x \<in> set fast" "y \<in> set kept" for x y
    using that assms(3) overlaps_sym by (auto simp: overlapsAny_iff)
  have disj: "set fast \<inter> set kept = {}" using apart overlaps_self assms(1) by (fastforce simp: proper_def)
  have sep: "\<not> overlaps x y" if "x \<in> set (fast @ kept)" "y \<in> set (fast @ kept)" "?P x \<noteq> ?P y" for x y
    using that apart overlaps_sym by auto
  have f: "filter ?P (fast @ kept) = fast" "filter (\<lambda>x. \<not> ?P x) (fast @ kept) = kept"
    using disj by (auto simp: filter_id_conv filter_empty_conv)
  have "filter ?P (resolve_all (fast @ kept)) = resolve_all fast"
    unfolding resolve_all_def by (subst greedy_filter) (use sep f in \<open>auto simp: filter_sort simp del: filter_append\<close>)
  moreover have "filter (\<lambda>x. \<not> ?P x) (resolve_all (fast @ kept)) = resolve_all kept"
    unfolding resolve_all_def by (subst greedy_filter) (use sep f in \<open>auto simp: filter_sort simp del: filter_append\<close>)
  ultimately have m: "mset (resolve_all (fast @ kept)) = mset (resolve_all fast @ resolve_all kept)"
    by (metis mset_append mset_filter multiset_partition)
  have neR: "\<forall>e \<in> set (resolve_all (fast @ kept)). nonempty_span e" using resolve_all_subset ne by blast
  have inj: "inj_on e_start (set (resolve_all (fast @ kept)))"
    using disjoint_start_inj [OF resolve_all_disjoint neR] .
  note r = ResolveOverlaps_greedy [OF ne]
    ResolveOverlaps_greedy [of fast, folded proper_def, OF assms(1)] ResolveOverlaps_greedy [of kept, folded proper_def, OF assms(2)]
  have ms: "mset (ResolveOverlaps fast @ ResolveOverlaps kept) = mset (resolve_all (fast @ kept))" by (simp add: r m)
  have "sort_key e_start (resolve_all (fast @ kept)) = sort_key e_start (ResolveOverlaps fast @ ResolveOverlaps kept)"
    by (rule sort_key_inj_key_eq) (use ms inj mset_eq_setD [OF ms] in simp_all)
  then show ?thesis by (simp add: r)
qed

lemma bridge_loop_proper:
  assumes "bridge_loop t (runeOffsets t) (fold (\<lambda>i. gm_set (runeOffsets M ! i) i) [0..<length (runeOffsets M)] []) es = Some (Inr es')"
    and "length (runeOffsets t) = length (runeOffsets M)" "proper es"
  shows "proper es'"
  using assms(1,3)
proof (induction es arbitrary: es')
  case Nil
  then show ?case by (simp add: proper_def)
next
  case (Cons e es)
  let ?idx = "fold (\<lambda>i. gm_set (runeOffsets M ! i) i) [0..<length (runeOffsets M)] []"
  have d: "distinct (runeOffsets M)" using offsets_sorted sorted_wrt_less_distinct [of "\<lambda>x. x"] by (metis list.map_ident)
  obtain i j where ij: "gm_get ?idx (e_start e) = Some i" "gm_get ?idx (e_end e) = Some j"
    using Cons(2) by (auto split: option.splits)
  obtain es2 v where es2: "bridge_loop t (runeOffsets t) ?idx es = Some (Inr es2)"
      "es' = e\<lparr>e_start := runeOffsets t ! i, e_end := runeOffsets t ! j, e_value := v\<rparr> # es2"
    using Cons(2) ij by (auto simp: Let_def res_bind_eq_Inr split: option.splits)
  have at: "i < length (runeOffsets M)" "runeOffsets M ! i = e_start e" "j < length (runeOffsets M)" "runeOffsets M ! j = e_end e"
    using ij index_map [OF d order_refl] by simp_all
  have "e_start e < e_end e" using Cons(3) by (simp add: proper_def nonempty_span_def)
  then have "i < j" using at offsets_sorted [of M] by (metis less_asym' linorder_neqE_nat sorted_wrt_iff_nth_less order_less_irrefl)
  then have "runeOffsets t ! i < runeOffsets t ! j" using offsets_mono at(3) assms(2) length_offsets [of t] by simp
  moreover have "proper es2" using Cons(1) [OF es2(1)] Cons(3) by (simp add: proper_def)
  ultimately show ?case unfolding es2(2) by (simp add: proper_def nonempty_span_def)
qed

lemma bridge_proper: "bridgeOffsets t M es = Some (Inr es') \<Longrightarrow> proper es \<Longrightarrow> proper es'"
  using bridge_loop_proper [of t M es es'] by (auto simp: bridgeOffsets_def Let_def split: if_splits)

definition model_proper :: "'c cascade \<Rightarrow> bool" where
  "model_proper c \<longleftrightarrow> (\<forall>m ctx t l slow. cs_Model c = Some m \<longrightarrow> detectWithModel m ctx t l = Inr slow \<longrightarrow> proper slow)"

definition only_adds :: "entity list \<Rightarrow> cascade_stats \<Rightarrow> entity list \<Rightarrow> bool" where
  "only_adds fast st es \<longleftrightarrow> (\<exists>kept. proper kept \<and> (\<forall>e \<in> set kept. \<not> overlapsAny e fast) \<and>
     es = sort_key e_start (ResolveOverlaps fast @ ResolveOverlaps kept) \<and>
     (ModelCalls st = 0 \<or> ModelDegraded st = 1 \<longrightarrow> kept = []) \<and>
     (gm_get (PerStage st) StageModel = None \<or> gm_get (PerStage st) StageModel = Some (int (length kept))))"

lemma count_in_get: "gm_get (count_in k n m) k' = (if k' = k then Some ((case gm_get m k of None \<Rightarrow> 0 | Some i \<Rightarrow> i) + n) else gm_get m k')"
  by (simp add: count_in_def gm_get_set)

lemma fast_stages: "gm_get (fold (\<lambda>e. count_in (stage_of e) 1) fast m) StageModel = gm_get m StageModel"
  by (induction fast arbitrary: m)
    (simp_all add: count_in_get stage_of_def StageModel_def StageGazetteer_def StagePattern_def)

lemma adds_nothing:
  assumes "proper fast" "gm_get (PerStage st) StageModel = None"
  shows "only_adds fast st (ResolveOverlaps fast)"
  using resolve_apart [OF assms(1), of "[]"] assms(2) unfolding only_adds_def
  by (intro exI [of _ "[]"]) (simp add: proper_def)

lemma merge_adds:
  assumes "proper fast" "proper slow" "merge_model fast slow st = (st', Inr es)" "gm_get (PerStage st) StageModel = None"
    "ModelCalls st \<noteq> 0" "ModelDegraded st \<noteq> 1"
  shows "only_adds fast st' es"
proof -
  let ?kept = "filter (\<lambda>e. \<not> overlapsAny e fast) slow"
  have k: "proper ?kept" "\<forall>e \<in> set ?kept. \<not> overlapsAny e fast" using assms(2) by (simp_all add: proper_def)
  have st': "st' = st\<lparr>ModelDiscarded := ModelDiscarded st + int (length slow - length ?kept),
      PerStage := count_in StageModel (int (length ?kept)) (PerStage st)\<rparr>"
    and es: "es = ResolveOverlaps (fast @ ?kept)"
    using assms(3) by (simp_all add: merge_model_def Let_def)
  have "gm_get (PerStage st') StageModel = Some (int (length ?kept))" using assms(4) by (simp add: st' count_in_get)
  moreover have "ModelCalls st' \<noteq> 0" "ModelDegraded st' \<noteq> 1" using assms(5,6) by (simp_all add: st')
  ultimately show ?thesis using k resolve_apart [OF assms(1) k, folded es] unfolding only_adds_def by blast
qed

lemma ask_model_adds:
  assumes "proper fast" "model_proper c" "cs_Model c = Some m" "ask_model c m ctx text inp fast l st = Some (st', Inr es)"
    "gm_get (PerStage st) StageModel = None" "ModelCalls st = 0" "ModelDegraded st = 0"
  shows "only_adds fast st' es"
proof -
  let ?st = "st\<lparr>ModelCalls := ModelCalls st + 1, PerLanguage := count_in (if l = [] then ''default'' else l) 1 (PerLanguage st)\<rparr>"
  show ?thesis
  proof (cases "detectWithModel m ctx inp l")
    case (Inl f)
    then show ?thesis using assms(4,5) adds_nothing [OF assms(1), of st']
      by (cases f) (auto simp: ask_model_def Let_def)
  next
    case (Inr slow)
    have p: "proper slow" using Inr assms(2,3) unfolding model_proper_def by blast
    obtain slow' where s: "proper slow'" "merge_model fast slow' ?st = (st', Inr es)"
      using assms(4) Inr p bridge_proper [of "text" inp slow]
      by (auto simp: ask_model_def Let_def split: if_splits option.splits sum.splits)
    show ?thesis using merge_adds [OF assms(1) s] assms(5-7) by simp
  qed
qed

lemma cascade_adds:
  assumes "cascade_DetectContext u c ctx text = Some (st, Inr es)" "trim_space text \<noteq> []" "d_detect (cs_Fast c) text = Inr fast"
    and "proper fast" "model_proper c"
  shows "only_adds fast st es"
proof -
  let ?st0 = "no_stats\<lparr>PerStage := fold (\<lambda>e. count_in (stage_of e) 1) fast []\<rparr>"
  have s0: "gm_get (PerStage ?st0) StageModel = None" by (simp add: fast_stages)
  show ?thesis
  proof (cases "cs_Model c")
    case None
    then have "st = ?st0" "es = ResolveOverlaps fast" using assms(1-3) by (auto simp: cascade_DetectContext_def Let_def)
    then show ?thesis using adds_nothing [OF assms(4) s0] by simp
  next
    case (Some m)
    obtain inp k where inp: "(if cs_MaskSettled c then maskSpans text fast else Some (text, 0)) = Some (inp, k)"
      using assms(1-3) Some by (auto simp: cascade_DetectContext_def Let_def split: option.splits)
    let ?st = "?st0\<lparr>MaskedRunes := int k\<rparr>"
    let ?skip = "?st\<lparr>ModelSkipped := ModelSkipped ?st + 1\<rparr>"
    have sk: "gm_get (PerStage ?skip) StageModel = None" "gm_get (PerStage ?st) StageModel = None" using s0 by simp_all
    let ?trigger = "case cs_Trigger c of None \<Rightarrow> DefaultNERTrigger u | Some t \<Rightarrow> t"
    have r: "Some (st, Inr es) = (if \<not> fst (?trigger inp) then Some (?skip, Inr (ResolveOverlaps fast))
        else case route_language u c inp of None \<Rightarrow> Some (?skip, Inr (ResolveOverlaps fast))
          | Some l \<Rightarrow> ask_model c m ctx text inp fast l ?st)"
      using assms(1-3) Some inp by (simp add: cascade_DetectContext_def Let_def)
    show ?thesis
    proof (cases "fst (?trigger inp) \<and> route_language u c inp \<noteq> None")
      case True
      then obtain l where "ask_model c m ctx text inp fast l ?st = Some (st, Inr es)" using r by auto
      then show ?thesis using ask_model_adds [OF assms(4,5) Some _ sk(2)] by (simp add: no_stats_def)
    next
      case False
      then have "st = ?skip" "es = ResolveOverlaps fast" using r by (auto split: if_splits)
      then show ?thesis using adds_nothing [OF assms(4) sk(1)] by simp
    qed
  qed
qed


section \<open>Concrete runs\<close>

definition ascii_tables :: unicode_tables where
  "ascii_tables =
     (let letter = (\<lambda>r. 65 \<le> r \<and> r \<le> 90 \<or> 97 \<le> r \<and> r \<le> 122) in
      \<lparr>uc_letter = letter, uc_han = (\<lambda>r. False), uc_latin = letter\<rparr>)"

definition finding :: "string \<Rightarrow> string \<Rightarrow> int \<Rightarrow> int \<Rightarrow> entity" where
  "finding d ty a b = \<lparr>e_type = ty, e_value = [], e_start = a, e_end = b, e_conf = 1 / 2, e_det = d\<rparr>"

definition finds :: "string \<Rightarrow> entity list \<Rightarrow> detector" where
  "finds n es = \<lparr>d_name = n, d_covered = [], d_detect = (\<lambda>t. Inr es)\<rparr>"

definition plain_model :: "entity list \<Rightarrow> unit model_detector" where
  "plain_model es = \<lparr>md_covered = [], md_DetectContextLanguage = None, md_DetectLanguage = None, md_DetectContext = None,
     md_Detect = (\<lambda>t. Inr es)\<rparr>"

definition demo_cascade :: "detector \<Rightarrow> entity list \<Rightarrow> unit cascade" where
  "demo_cascade fast es = \<lparr>cs_Fast = fast, cs_Model = Some (plain_model es), cs_Trigger = Some (\<lambda>t. (True, NoReason)),
     cs_MaskSettled = False, cs_Language = ''en'', cs_SkipUnknownScript = False\<rparr>"

lemma demo_run:
  "trim_space text \<noteq> [] \<Longrightarrow> d_detect fast text = Inr es \<Longrightarrow>
   \<exists>st. cascade_DetectContext u (demo_cascade fast xs) ctx text =
     Some (st, Inr (ResolveOverlaps (es @ filter (\<lambda>e. \<not> overlapsAny e es) xs)))"
  by (simp add: cascade_DetectContext_def demo_cascade_def Let_def route_language_def ask_model_def detectWithModel_def
      plain_model_def merge_model_def)


theorem masking_in_step_witness:
  "\<exists>M n. maskSpans ''id 4711'' [finding ''cn_id'' ''ID'' 3 7] = Some (M, n) \<and>
     runes M = map (\<lambda>x. if settled (ResolveOverlaps [finding ''cn_id'' ''ID'' 3 7]) (fst x) then fillerFor (fst (snd x)) else fst (snd x))
       (range_runes ''id 4711'')"
proof -
  have "rune_borders ''id 4711'' = [0, 1, 2, 3, 4, 5, 6, 7]" by code_simp
  then have "\<forall>e \<in> set [finding ''cn_id'' ''ID'' 3 7]. on_borders ''id 4711'' e"
    by (simp add: on_borders_def finding_def rune_at_def)
  from masking_in_step [OF this] show ?thesis by blast
qed

section \<open>A candidate that hides a finding\<close>

lemma plain_run:
  assumes "cs_Model c = Some m" "\<not> cs_MaskSettled c" "trim_space text \<noteq> []" "d_detect (cs_Fast c) text = Inr fast"
    and "fst ((case cs_Trigger c of None \<Rightarrow> DefaultNERTrigger u | Some t \<Rightarrow> t) text)" "route_language u c text = Some l"
    and "detectWithModel m ctx text l = Inr slow"
  shows "\<exists>st. cascade_DetectContext u c ctx text = Some (st, Inr (ResolveOverlaps (fast @ filter (\<lambda>e. \<not> overlapsAny e fast) slow)))"
  using assms by (simp add: cascade_DetectContext_def ask_model_def merge_model_def Let_def)

definition composite_detector :: "composite \<Rightarrow> detector" where
  "composite_detector d = \<lparr>d_name = composite_Name d, d_covered = composite_CoveredTypes d, d_detect = composite_Detect d\<rparr>"

lemma composite_resolves:
  "composite_Detect (NewCompositeDetectorDeferred ds mc) text = Inr fast \<Longrightarrow>
   composite_Detect (NewCompositeDetector ds mc) text = Inr (ResolveOverlaps fast)"
  by (auto simp: composite_Detect_def NewCompositeDetectorDeferred_def NewCompositeDetector_def Let_def res_bind_eq_Inr)

lemma route_fast: "route_language u (c\<lparr>cs_Fast := f\<rparr>) t = route_language u c t"
  by (simp add: route_language_def)

lemma candidate_hides:
  assumes "cs_Model c = Some m" "\<not> cs_MaskSettled c" "trim_space text \<noteq> []" "cs_Fast c = composite_detector (NewCompositeDetectorDeferred ds mc)"
    and "composite_Detect (NewCompositeDetectorDeferred ds mc) text = Inr fast" "proper fast" "nonempty_span x"
    and "fst ((case cs_Trigger c of None \<Rightarrow> DefaultNERTrigger u | Some t \<Rightarrow> t) text)" "route_language u c text = Some l"
    and "detectWithModel m ctx text l = Inr [x]" "overlapsAny x fast" "\<not> overlapsAny x (ResolveOverlaps fast)"
  shows "\<exists>st es. cascade_DetectContext u c ctx text = Some (st, Inr es) \<and> \<not> overlapsAny x es"
    "\<exists>st es. cascade_DetectContext u (c\<lparr>cs_Fast := composite_detector (NewCompositeDetector ds mc)\<rparr>) ctx text = Some (st, Inr es) \<and> x \<in> set es"
proof -
  have "d_detect (cs_Fast c) text = Inr fast" using assms(4,5) by (simp add: composite_detector_def)
  from plain_run [OF assms(1-3) this assms(8-10)] assms(11,12)
  show "\<exists>st es. cascade_DetectContext u c ctx text = Some (st, Inr es) \<and> \<not> overlapsAny x es" by auto
  let ?c = "c\<lparr>cs_Fast := composite_detector (NewCompositeDetector ds mc)\<rparr>"
  have d: "d_detect (cs_Fast ?c) text = Inr (ResolveOverlaps fast)"
    using composite_resolves [OF assms(5)] by (simp add: composite_detector_def)
  have "\<exists>st. cascade_DetectContext u ?c ctx text =
      Some (st, Inr (ResolveOverlaps (ResolveOverlaps fast @ filter (\<lambda>e. \<not> overlapsAny e (ResolveOverlaps fast)) [x])))"
    by (rule plain_run [OF _ _ assms(3) d]) (use assms in \<open>simp_all add: route_fast\<close>)
  moreover have "ResolveOverlaps (ResolveOverlaps fast @ [x]) = sort_key e_start (ResolveOverlaps (ResolveOverlaps fast) @ ResolveOverlaps [x])"
  proof (rule resolve_apart)
    show "proper (ResolveOverlaps fast)"
      using ResolveOverlaps_props(1) [of fast, folded proper_def, OF assms(6)] assms(6) by (auto simp: proper_def)
  qed (use assms(7,12) in \<open>simp_all add: proper_def\<close>)
  moreover have "ResolveOverlaps [x] = [x]" by (simp add: ResolveOverlaps_def)
  ultimately show "\<exists>st es. cascade_DetectContext u ?c ctx text = Some (st, Inr es) \<and> x \<in> set es" using assms(12) by auto
qed

text \<open>Over a composite that defers its resolution, as the preset builds it, a candidate that loses
  the resolution still hides what the model finds: the finding touches nothing that is reported,
  and is dropped all the same. The same cascade over the resolving composite reports it.\<close>

theorem losing_candidate_hides_finding:
  assumes "cs_Model c = Some m" "\<not> cs_MaskSettled c" "trim_space text \<noteq> []" "cs_Fast c = composite_detector (NewCompositeDetectorDeferred ds mc)"
    and "composite_Detect (NewCompositeDetectorDeferred ds mc) text = Inr fast" "proper fast" "nonempty_span x"
    and "fst ((case cs_Trigger c of None \<Rightarrow> DefaultNERTrigger u | Some t \<Rightarrow> t) text)" "route_language u c text = Some l"
    and "detectWithModel m ctx text l = Inr [x]" "overlapsAny x fast" "\<not> overlapsAny x (ResolveOverlaps fast)"
  shows "(\<exists>st es. cascade_DetectContext u c ctx text = Some (st, Inr es) \<and> \<not> overlapsAny x es) \<and>
    (\<exists>st es. cascade_DetectContext u (c\<lparr>cs_Fast := composite_detector (NewCompositeDetector ds mc)\<rparr>) ctx text = Some (st, Inr es) \<and> x \<in> set es)"
  using candidate_hides [OF assms] by blast

definition two_candidates :: "entity list" where
  "two_candidates = [finding ''cn_name'' ''NAME'' 0 6, finding ''surname'' ''NAME'' 4 9]"

theorem losing_candidate_hides_finding_witness:
  "\<exists>st es. cascade_DetectContext ascii_tables
      (demo_cascade (composite_detector (NewCompositeDetectorDeferred [finds ''f'' two_candidates] 0)) [finding ''ner'' ''ADDRESS'' 6 12])
      () ''abcdefghijkl'' = Some (st, Inr es) \<and> \<not> overlapsAny (finding ''ner'' ''ADDRESS'' 6 12) es"
proof -
  let ?x = "finding ''ner'' ''ADDRESS'' 6 12"
  let ?d = "NewCompositeDetectorDeferred [finds ''f'' two_candidates] 0"
  let ?c = "demo_cascade (composite_detector ?d) [?x]"
  have 1: "cs_Model ?c = Some (plain_model [?x])" "\<not> cs_MaskSettled ?c" "cs_Fast ?c = composite_detector ?d"
    "fst ((case cs_Trigger ?c of None \<Rightarrow> DefaultNERTrigger ascii_tables | Some t \<Rightarrow> t) ''abcdefghijkl'')"
    "route_language ascii_tables ?c ''abcdefghijkl'' = Some ''en''"
    by (simp_all add: demo_cascade_def route_language_def)
  have t: "trim_space ''abcdefghijkl'' \<noteq> []" by code_simp
  have f: "composite_Detect ?d ''abcdefghijkl'' = Inr two_candidates"
    by (simp add: composite_Detect_def NewCompositeDetectorDeferred_def NewCompositeDetector_def Let_def finds_def
        two_candidates_def finding_def)
  have r: "ResolveOverlaps two_candidates = [finding ''cn_name'' ''NAME'' 0 6]"
    by (simp add: ResolveOverlaps_def two_candidates_def finding_def resolveComponent_def rank_key_def elen_def overlaps_def)
  have p: "proper two_candidates" "nonempty_span ?x" by (simp_all add: proper_def two_candidates_def finding_def nonempty_span_def)
  have m: "detectWithModel (plain_model [?x]) () ''abcdefghijkl'' ''en'' = Inr [?x]" by (simp add: detectWithModel_def plain_model_def)
  have o: "overlapsAny ?x two_candidates" "\<not> overlapsAny ?x (ResolveOverlaps two_candidates)"
    unfolding r by (simp_all add: overlapsAny_def two_candidates_def finding_def)
  show ?thesis using losing_candidate_hides_finding [OF 1(1,2) t 1(3) f p 1(4,5) m o] by blast
qed

end
