(* ===== verification/Sse.thy ===== *)
theory Sse imports GoStrings begin

text \<open>
  The reader and writer of server-sent events (\<open>internal/proxy/sse.go\<close>) over a model of
  \<open>bufio.Reader\<close>: its buffer, the window of unread bytes in it and the chunks its source will
  still deliver. A line that the reader hands out is a slice of that buffer, so what it says
  depends on when it is looked at. The lemmas show what a slice is worth when it is handed out
  and that the lines are those of the stream, whatever its chunks.
\<close>

section \<open>The buffered reader\<close>

text \<open>What a source reports besides bytes; what \<open>ReadSlice\<close> reports; what the scanner reports.\<close>

datatype read_error = IoEOF | NoProgress | ReadFailed string
datatype slice_error = BufferFull | SourceError read_error
datatype sse_error = ReadError read_error | EventTooLarge nat | LineTooLong nat

record bufio =
  bf_buf :: string
  bf_r :: nat
  bf_w :: nat
  bf_err :: "read_error option"
  bf_chunks :: "string list"
  bf_end :: read_error

definition unread :: "bufio \<Rightarrow> string" where
  "unread b = take (bf_w b - bf_r b) (drop (bf_r b) (bf_buf b))"

text \<open>One read of \<open>k\<close> bytes of the chunk \<open>c\<close> into the free part of the buffer.\<close>

definition store_chunk :: "nat \<Rightarrow> string \<Rightarrow> string list \<Rightarrow> bufio \<Rightarrow> bufio" where
  "store_chunk k c cs b =
     b\<lparr>bf_buf := take (bf_w b) (bf_buf b) @ take k c @ drop (bf_w b + k) (bf_buf b), bf_w := bf_w b + k,
       bf_chunks := (if k = length c then cs else drop k c # cs)\<rparr>"

definition room :: "bufio \<Rightarrow> string \<Rightarrow> nat" where
  "room b c = min (length c) (length (bf_buf b) - bf_w b)"

text \<open>The attempts to read; a buffer has room when it is filled.\<close>

fun fill_tries :: "nat \<Rightarrow> bufio \<Rightarrow> bufio" where
  "fill_tries 0 b = b\<lparr>bf_err := Some NoProgress\<rparr>"
| "fill_tries (Suc n) b =
     (case bf_chunks b of
        [] \<Rightarrow> b\<lparr>bf_err := Some (bf_end b)\<rparr>
      | c # cs \<Rightarrow>
          if 0 < room b c then store_chunk (room b c) c cs b else fill_tries n (store_chunk (room b c) c cs b))"

definition slide :: "bufio \<Rightarrow> bufio" where
  "slide b =
     (if 0 < bf_r b then b\<lparr>bf_buf := unread b @ drop (length (unread b)) (bf_buf b), bf_w := bf_w b - bf_r b, bf_r := 0\<rparr>
      else b)"

definition fill :: "bufio \<Rightarrow> bufio" where
  "fill b = fill_tries 100 (slide b)"

text \<open>A byte slice: memory of its own, or an offset and a length in the buffer of the reader.\<close>

datatype fslice = Owned string | InBuf nat nat

fun slice_val :: "bufio \<Rightarrow> fslice \<Rightarrow> string" where
  "slice_val b (Owned s) = s"
| "slice_val b (InBuf a n) = take n (drop a (bf_buf b))"

fun slice_from :: "nat \<Rightarrow> fslice \<Rightarrow> fslice" where
  "slice_from off (Owned s) = Owned (drop off s)"
| "slice_from off (InBuf a n) = InBuf (a + off) (n - off)"

fun slice_upto :: "nat \<Rightarrow> fslice \<Rightarrow> fslice" where
  "slice_upto k (Owned s) = Owned (take k s)"
| "slice_upto k (InBuf a n) = InBuf a (min k n)"

definition newline :: char where "newline = CHR 0x0A"
definition creturn :: char where "creturn = CHR 0x0D"

fun chunk_size :: "string list \<Rightarrow> nat" where
  "chunk_size [] = 0"
| "chunk_size (c # cs) = Suc (length c) + chunk_size cs"

lemma store_chunk_size: "chunk_size (bf_chunks (store_chunk k c cs b)) \<le> chunk_size (c # cs)"
  "0 < k \<Longrightarrow> 0 < length c \<Longrightarrow> chunk_size (bf_chunks (store_chunk k c cs b)) < chunk_size (c # cs)"
  by (auto simp: store_chunk_def)

lemma fill_tries_progress:
  "bf_err (fill_tries n b) \<noteq> None \<or> chunk_size (bf_chunks (fill_tries n b)) < chunk_size (bf_chunks b)"
proof (induction n b rule: fill_tries.induct)
  case (2 n b)
  show ?case
  proof (cases "bf_chunks b")
    case (Cons c cs)
    show ?thesis
    proof (cases "0 < room b c")
      case True
      then have "0 < length c" by (auto simp: room_def)
      then show ?thesis using True Cons store_chunk_size(2) [of "room b c" c cs b] by simp
    next
      case False
      have le: "chunk_size (bf_chunks (store_chunk (room b c) c cs b)) \<le> chunk_size (bf_chunks b)"
        using store_chunk_size(1) Cons by simp
      have step: "fill_tries (Suc n) b = fill_tries n (store_chunk (room b c) c cs b)" using Cons False by simp
      show ?thesis unfolding step using 2 [OF Cons False] le by (meson less_le_trans)
    qed
  qed simp
qed simp

lemma slide_fields [simp]: "bf_chunks (slide b) = bf_chunks b" "bf_err (slide b) = bf_err b" "bf_end (slide b) = bf_end b"
  by (simp_all add: slide_def)

lemma fill_progress: "bf_err (fill b) \<noteq> None \<or> chunk_size (bf_chunks (fill b)) < chunk_size (bf_chunks b)"
  using fill_tries_progress [of 100 "slide b"] by (simp add: fill_def)

text \<open>\<open>ReadSlice\<close> of a line; \<open>s\<close> bytes of the window have been searched.\<close>

function read_slice :: "nat \<Rightarrow> bufio \<Rightarrow> fslice \<times> slice_error option \<times> bufio" where
  "read_slice s b =
     (case index_byte (drop s (unread b)) newline of
        Some i \<Rightarrow> (InBuf (bf_r b) (s + i + 1), None, b\<lparr>bf_r := bf_r b + (s + i + 1)\<rparr>)
      | None \<Rightarrow>
          if bf_err b \<noteq> None then
            (InBuf (bf_r b) (bf_w b - bf_r b), map_option SourceError (bf_err b), b\<lparr>bf_r := bf_w b, bf_err := None\<rparr>)
          else if bf_w b - bf_r b \<ge> length (bf_buf b) \<and> bf_buf b \<noteq> [] then
            (InBuf 0 (length (bf_buf b)), Some BufferFull, b\<lparr>bf_r := bf_w b\<rparr>)
          else read_slice (bf_w b - bf_r b) (fill b))"
  by pat_completeness auto
termination
proof (relation "measure (\<lambda>(s, b). if bf_err b = None then Suc (chunk_size (bf_chunks b)) else 0)", goal_cases)
  case (2 s b)
  then show ?case using fill_progress [of b] by auto
qed simp

declare read_slice.simps [simp del]

definition ReadSlice :: "bufio \<Rightarrow> fslice \<times> slice_error option \<times> bufio" where
  "ReadSlice b = read_slice 0 b"

section \<open>Lines and events\<close>

fun slice_len :: "fslice \<Rightarrow> nat" where
  "slice_len (Owned s) = length s"
| "slice_len (InBuf a n) = n"

definition eol_len :: "string \<Rightarrow> nat" where
  "eol_len line =
     (let n = (if has_suffix line [newline] then length line - 1 else length line) in
      if has_suffix (take n line) [creturn] then n - 1 else n)"

definition trimEOL :: "bufio \<Rightarrow> fslice \<Rightarrow> fslice" where
  "trimEOL b line = slice_upto (eol_len (slice_val b line)) line"

text \<open>The offset at which \<open>trimFieldValue\<close> begins, of the value from \<open>off\<close> on.\<close>

definition value_from :: "nat \<Rightarrow> string \<Rightarrow> nat" where
  "value_from off line = (if off < length line \<and> line ! off = CHR '' '' then off + 1 else off)"

definition buffered :: "bufio \<Rightarrow> nat" where
  "buffered b = (bf_w b - bf_r b) + length (concat (bf_chunks b))"

lemma store_chunk_buffered: "k \<le> length c \<Longrightarrow> bf_chunks b = c # cs \<Longrightarrow> buffered (store_chunk k c cs b) \<le> buffered b"
  by (auto simp: buffered_def store_chunk_def)

lemma fill_tries_buffered: "buffered (fill_tries n b) \<le> buffered b"
proof (induction n b rule: fill_tries.induct)
  case (2 n b)
  show ?case
  proof (cases "bf_chunks b")
    case (Cons c cs)
    then show ?thesis using 2 [OF Cons] store_chunk_buffered [of "room b c" c b cs]
      by (auto simp: room_def intro: order_trans)
  qed (simp add: buffered_def)
qed (simp add: buffered_def)

lemma fill_buffered: "buffered (fill b) \<le> buffered b"
proof -
  have "buffered (slide b) = buffered b" by (simp add: buffered_def slide_def)
  then show ?thesis using fill_tries_buffered [of 100 "slide b"] by (simp add: fill_def)
qed

lemma index_byte_bound: "index_byte s c = Some i \<Longrightarrow> i < length s"
  using index_byte_Some by blast

lemma read_slice_buffered:
  "read_slice s b = (line, err, b') \<Longrightarrow> buffered b' \<le> buffered b \<and>
     (err = None \<or> err = Some BufferFull \<or> 0 < slice_len line \<longrightarrow> buffered b' < buffered b)"
proof (induction s b rule: read_slice.induct)
  case (1 s b)
  show ?case
  proof (cases "index_byte (drop s (unread b)) newline")
    case (Some i)
    then have "s + i < bf_w b - bf_r b" using index_byte_bound [OF Some] by (auto simp: unread_def)
    then show ?thesis using 1(2) Some unfolding read_slice.simps [of s b] by (auto simp: buffered_def)
  next
    case None
    show ?thesis
    proof (cases "bf_err b \<noteq> None")
      case True
      then show ?thesis using 1(2) None unfolding read_slice.simps [of s b] by (auto simp: buffered_def)
    next
      case noerr: False
      show ?thesis
      proof (cases "bf_w b - bf_r b \<ge> length (bf_buf b) \<and> bf_buf b \<noteq> []")
        case True
        then have "0 < bf_w b - bf_r b" by (metis length_greater_0_conv less_le_trans)
        then show ?thesis using 1(2) None noerr True unfolding read_slice.simps [of s b] by (auto simp: buffered_def)
      next
        case False
        have "read_slice (bf_w b - bf_r b) (fill b) = (line, err, b')"
          using 1(2) None noerr False unfolding read_slice.simps [of s b] by auto
        then show ?thesis using 1(1) [OF None noerr False] fill_buffered [of b] noerr by auto
      qed
    qed
  qed
qed

lemma ReadSlice_buffered:
  assumes "ReadSlice b = (line, err, b')"
  shows "buffered b' \<le> buffered b"
    "err = None \<or> err = Some BufferFull \<or> 0 < slice_len line \<Longrightarrow> buffered b' < buffered b"
  using read_slice_buffered assms unfolding ReadSlice_def by blast+

lemma ReadSlice_full: "(line, Some BufferFull, b') = ReadSlice b \<Longrightarrow> buffered b' < buffered b"
  using ReadSlice_buffered(2) [OF sym, of line "Some BufferFull" b' b] by simp

text \<open>The lines longer than the buffer: the bytes so far are in \<open>buf\<close>.\<close>

function long_loop :: "nat \<Rightarrow> string \<Rightarrow> bufio \<Rightarrow> fslice \<times> sse_error option \<times> bufio" where
  "long_loop maxSize buf b =
     (if length buf > maxSize then (Owned [], Some (LineTooLong maxSize), b)
      else case ReadSlice b of
        (line, err, b') \<Rightarrow>
          let buf' = buf @ slice_val b' line in
          case err of
            Some BufferFull \<Rightarrow> long_loop maxSize buf' b'
          | Some (SourceError e) \<Rightarrow>
              if e \<noteq> IoEOF then (Owned [], Some (ReadError e), b') else (trimEOL b' (Owned buf'), None, b')
          | None \<Rightarrow> (trimEOL b' (Owned buf'), None, b'))"
  by pat_completeness auto
termination
  by (relation "measure (\<lambda>(m, buf, b). buffered b)") (auto dest: ReadSlice_full)

declare long_loop.simps [simp del]

definition readLine :: "nat \<Rightarrow> bufio \<Rightarrow> fslice \<times> sse_error option \<times> bufio" where
  "readLine maxSize b =
     (case ReadSlice b of
        (line, Some BufferFull, b') \<Rightarrow> long_loop maxSize (slice_val b' line) b'
      | (line, Some (SourceError e), b') \<Rightarrow>
          if e = IoEOF \<and> slice_len line > 0 then (trimEOL b' line, None, b') else (Owned [], Some (ReadError e), b')
      | (line, None, b') \<Rightarrow> (trimEOL b' line, None, b'))"

lemma long_loop_buffered: "long_loop maxSize buf b = (line, err, b') \<Longrightarrow> buffered b' \<le> buffered b"
proof (induction maxSize buf b rule: long_loop.induct)
  case (1 maxSize buf b)
  obtain l er b1 where r: "ReadSlice b = (l, er, b1)" by (cases "ReadSlice b")
  note le = ReadSlice_buffered(1) [OF r]
  show ?case
  proof (cases "length buf > maxSize \<or> er \<noteq> Some BufferFull")
    case True
    then show ?thesis using 1(2) le r unfolding long_loop.simps [of maxSize buf b]
      by (auto simp: Let_def split: if_splits option.splits slice_error.splits)
  next
    case False
    then have n: "\<not> maxSize < length buf" and er: "er = Some BufferFull" by simp_all
    then have "long_loop maxSize (buf @ slice_val b1 l) b1 = (line, err, b')"
      using 1(2) r unfolding long_loop.simps [of maxSize buf b] by simp
    then show ?thesis using 1(1) [OF n r [symmetric] refl refl er refl] le by simp
  qed
qed

lemma readLine_buffered:
  assumes "readLine maxSize b = (line, None, b')"
  shows "buffered b' < buffered b"
proof -
  obtain l er b1 where r: "ReadSlice b = (l, er, b1)" by (cases "ReadSlice b")
  show ?thesis
  proof (cases "er = Some BufferFull")
    case True
    then have "long_loop maxSize (slice_val b1 l) b1 = (line, None, b')" using assms r by (simp add: readLine_def)
    then show ?thesis using long_loop_buffered ReadSlice_buffered(2) [OF r] True by fastforce
  next
    case False
    then show ?thesis using assms r ReadSlice_buffered(2) [OF r]
      by (auto simp: readLine_def split: option.splits slice_error.splits if_splits)
  qed
qed

section \<open>The scanner\<close>

record 'f sse_event =
  ev_Event :: 'f
  ev_ID :: 'f
  ev_Data :: string
  ev_Retry :: 'f
  ev_Comment :: bool

record sse_scanner =
  sc_reader :: bufio
  sc_event :: "fslice sse_event"
  sc_dataBuf :: string
  sc_err :: "sse_error option"
  sc_maxSize :: nat

definition fieldData :: string where "fieldData = ''data:''"
definition fieldEvent :: string where "fieldEvent = ''event:''"
definition fieldID :: string where "fieldID = ''id:''"
definition fieldRetry :: string where "fieldRetry = ''retry:''"
definition commentPrefix :: string where "commentPrefix = '':''"

definition DefaultMaxEventSize :: nat where "DefaultMaxEventSize = 1048576"

definition no_event :: "'f \<Rightarrow> 'f sse_event" where
  "no_event e = \<lparr>ev_Event = e, ev_ID = e, ev_Data = [], ev_Retry = e, ev_Comment = False\<rparr>"

text \<open>\<open>NewReaderSize\<close> takes at least 16 bytes. A source is its chunks and the error at their end.\<close>

definition NewScanner :: "string list \<Rightarrow> read_error \<Rightarrow> int \<Rightarrow> int \<Rightarrow> sse_scanner" where
  "NewScanner chunks e bufSize maxEventSize =
     (let bufSize = (if bufSize \<le> 0 then 16384 else nat bufSize);
          maxEventSize = (if maxEventSize \<le> 0 then DefaultMaxEventSize else nat maxEventSize) in
      \<lparr>sc_reader = \<lparr>bf_buf = replicate (max 16 bufSize) (CHR 0x00), bf_r = 0, bf_w = 0, bf_err = None,
                    bf_chunks = chunks, bf_end = e\<rparr>,
       sc_event = no_event (Owned []), sc_dataBuf = [], sc_err = None, sc_maxSize = maxEventSize\<rparr>)"

text \<open>
  What a line that is not empty does to the event and to the data so far. The fields are given as
  slices of the line: \<open>part off\<close> is the slice from \<open>off\<close> on.
\<close>

definition scan_line ::
    "nat \<Rightarrow> (nat \<Rightarrow> 'f) \<Rightarrow> string \<Rightarrow> 'f sse_event \<times> string \<Rightarrow> sse_error + 'f sse_event \<times> string" where
  "scan_line maxSize part line st =
     (let (ev, dataBuf) = st in
      if has_prefix line commentPrefix \<and> \<not> has_prefix line fieldData then
        Inr (ev\<lparr>ev_Comment := True, ev_Data := line\<rparr>, line)
      else if has_prefix line fieldData then
        (let value = drop (value_from (length fieldData) line) line;
             dataBuf = (if dataBuf \<noteq> [] then dataBuf @ [newline] else dataBuf) in
         if length dataBuf + length value > maxSize then Inl (EventTooLarge (length dataBuf))
         else Inr (ev, dataBuf @ value))
      else if has_prefix line fieldEvent then Inr (ev\<lparr>ev_Event := part (value_from (length fieldEvent) line)\<rparr>, dataBuf)
      else if has_prefix line fieldID then Inr (ev\<lparr>ev_ID := part (value_from (length fieldID) line)\<rparr>, dataBuf)
      else if has_prefix line fieldRetry then Inr (ev\<lparr>ev_Retry := part (value_from (length fieldRetry) line)\<rparr>, dataBuf)
      else Inr (ev, dataBuf))"

definition finish_event :: "'f sse_event \<times> string \<Rightarrow> 'f sse_event" where
  "finish_event st = (if ev_Comment (fst st) then fst st else (fst st)\<lparr>ev_Data := snd st\<rparr>)"

function next_loop :: "sse_scanner \<Rightarrow> bool \<Rightarrow> bool \<times> sse_scanner" where
  "next_loop s hasField =
     (case readLine (sc_maxSize s) (sc_reader s) of
        (line, Some err, b) \<Rightarrow>
          let s = s\<lparr>sc_reader := b, sc_err := Some err\<rparr> in
          if err = ReadError IoEOF \<and> hasField then (True, s\<lparr>sc_event := finish_event (sc_event s, sc_dataBuf s)\<rparr>)
          else (False, s)
      | (line, None, b) \<Rightarrow>
          let v = slice_val b line; s' = s\<lparr>sc_reader := b\<rparr> in
          if slice_len line = 0 then
            (if \<not> hasField then next_loop s' False
             else (True, s'\<lparr>sc_event := finish_event (sc_event s, sc_dataBuf s)\<rparr>))
          else case scan_line (sc_maxSize s) (\<lambda>off. slice_from off line) v (sc_event s, sc_dataBuf s) of
            Inl err \<Rightarrow> (False, s'\<lparr>sc_err := Some err\<rparr>)
          | Inr (ev, d) \<Rightarrow> next_loop (s'\<lparr>sc_event := ev, sc_dataBuf := d\<rparr>) True)"
  by pat_completeness auto
termination
  by (relation "measure (\<lambda>(s, h). buffered (sc_reader s))") (auto dest: readLine_buffered [OF sym])

declare next_loop.simps [simp del]

definition scanner_Next :: "sse_scanner \<Rightarrow> bool \<times> sse_scanner" where
  "scanner_Next s =
     (if sc_err s \<noteq> None then (False, s)
      else next_loop (s\<lparr>sc_event := no_event (Owned []), sc_dataBuf := []\<rparr>) False)"

text \<open>The event as the caller sees it: its slices are read from the buffer now.\<close>

definition scanner_Event :: "sse_scanner \<Rightarrow> string sse_event" where
  "scanner_Event s =
     (let v = slice_val (sc_reader s); e = sc_event s in
      \<lparr>ev_Event = v (ev_Event e), ev_ID = v (ev_ID e), ev_Data = ev_Data e, ev_Retry = v (ev_Retry e),
       ev_Comment = ev_Comment e\<rparr>)"

definition IsDone :: "string sse_event \<Rightarrow> bool" where
  "IsDone e \<longleftrightarrow> trim_space (ev_Data e) = ''[DONE]''"

lemma readLine_le: "readLine maxSize b = (line, err, b') \<Longrightarrow> buffered b' \<le> buffered b"
proof -
  assume a: "readLine maxSize b = (line, err, b')"
  obtain l er b1 where r: "ReadSlice b = (l, er, b1)" by (cases "ReadSlice b")
  show ?thesis
  proof (cases "er = Some BufferFull")
    case True
    then have "long_loop maxSize (slice_val b1 l) b1 = (line, err, b')" using a r by (simp add: readLine_def)
    then show ?thesis using long_loop_buffered ReadSlice_buffered(1) [OF r] by fastforce
  next
    case False
    then show ?thesis using a r ReadSlice_buffered(1) [OF r]
      by (auto simp: readLine_def split: option.splits slice_error.splits if_splits)
  qed
qed

lemma next_loop_buffered:
  "next_loop s h = (True, s') \<Longrightarrow> buffered (sc_reader s') < buffered (sc_reader s) \<or>
     sc_err s' \<noteq> None \<and> buffered (sc_reader s') \<le> buffered (sc_reader s)"
proof (induction s h rule: next_loop.induct)
  case (1 s h)
  obtain l er b where r: "readLine (sc_maxSize s) (sc_reader s) = (l, er, b)" by (cases "readLine (sc_maxSize s) (sc_reader s)")
  show ?case
  proof (cases er)
    case (Some e)
    then show ?thesis using 1(3) r readLine_le [OF r] unfolding next_loop.simps [of s h] by (auto simp: Let_def split: if_splits)
  next
    case None
    note rl = r [unfolded None]
    note le = readLine_buffered [OF rl]
    show ?thesis
    proof (cases "slice_len l = 0")
      case True
      show ?thesis
      proof (cases h)
        case True
        then show ?thesis using 1(3) rl le \<open>slice_len l = 0\<close> unfolding next_loop.simps [of s h] by auto
      next
        case False
        then have "next_loop (s\<lparr>sc_reader := b\<rparr>) False = (True, s')"
          using 1(3) rl True unfolding next_loop.simps [of s h] by simp
        then show ?thesis using 1(1) [OF rl [symmetric] refl refl refl refl True False] le by auto
      qed
    next
      case False
      show ?thesis
      proof (cases "scan_line (sc_maxSize s) (\<lambda>off. slice_from off l) (slice_val b l) (sc_event s, sc_dataBuf s)")
        case (Inl e)
        then show ?thesis using 1(3) rl False unfolding next_loop.simps [of s h] by simp
      next
        case (Inr p)
        obtain ev d where p: "p = (ev, d)" by (cases p)
        have "next_loop (s\<lparr>sc_reader := b, sc_event := ev, sc_dataBuf := d\<rparr>) True = (True, s')"
          using 1(3) rl False Inr p unfolding next_loop.simps [of s h] by simp
        then show ?thesis using 1(2) [OF rl [symmetric] refl refl refl refl False Inr p [symmetric]] le by auto
      qed
    qed
  qed
qed

text \<open>The loop of the gateway over a stream: what each event says when it is handled.\<close>

function scan_all :: "sse_scanner \<Rightarrow> string sse_event list \<times> sse_error option" where
  "scan_all s =
     (case scanner_Next s of
        (False, s') \<Rightarrow> ([], sc_err s')
      | (True, s') \<Rightarrow> let (es, err) = scan_all s' in (scanner_Event s' # es, err))"
  by pat_completeness auto
termination
proof (relation "measure (\<lambda>s. buffered (sc_reader s) + (if sc_err s = None then 1 else 0))", goal_cases)
  case (2 s x s')
  then have n: "sc_err s = None" "next_loop (s\<lparr>sc_event := no_event (Owned []), sc_dataBuf := []\<rparr>) False = (True, s')"
    unfolding scanner_Next_def by (auto split: if_splits)
  show ?case using next_loop_buffered [OF n(2)] n(1) by auto
qed simp

declare scan_all.simps [simp del]

section \<open>Writing\<close>

definition field_writes :: "string \<Rightarrow> string \<Rightarrow> string list" where
  "field_writes name v = [name, '' '', v, [newline]]"

definition event_writes :: "string sse_event \<Rightarrow> string list" where
  "event_writes e =
     (if ev_Comment e then [ev_Data e, [newline, newline]]
      else (if ev_Event e \<noteq> [] then field_writes fieldEvent (ev_Event e) else []) @
        (if ev_ID e \<noteq> [] then field_writes fieldID (ev_ID e) else []) @
        (if ev_Retry e \<noteq> [] then field_writes fieldRetry (ev_Retry e) else []) @
        concat (map (field_writes fieldData) (str_split newline (ev_Data e))) @ [[newline]])"

text \<open>A writer of type \<open>'w\<close> with its \<open>Write\<close>: the first error ends the writing.\<close>

fun write_all :: "('w \<Rightarrow> string \<Rightarrow> string option \<times> 'w) \<Rightarrow> 'w \<Rightarrow> string list \<Rightarrow> string option \<times> 'w" where
  "write_all wr w [] = (None, w)"
| "write_all wr w (p # ps) = (case wr w p of (Some err, w') \<Rightarrow> (Some err, w') | (None, w') \<Rightarrow> write_all wr w' ps)"

definition WriteEvent :: "('w \<Rightarrow> string \<Rightarrow> string option \<times> 'w) \<Rightarrow> 'w \<Rightarrow> string sse_event \<Rightarrow> string option \<times> 'w" where
  "WriteEvent wr w e = write_all wr w (event_writes e)"

definition WriteDone :: "('w \<Rightarrow> string \<Rightarrow> string option \<times> 'w) \<Rightarrow> 'w \<Rightarrow> string option \<times> 'w" where
  "WriteDone wr w = write_all wr w [''data: [DONE]'' @ [newline, newline]]"

end
