(* ===== verification/SseFacts.thy ===== *)
theory SseFacts imports Sse begin

text \<open>
  The scanner of server-sent events against its stream: the lines are those of the bytes that
  the source delivers, and the text of the events does not depend on how they are cut into chunks.
\<close>

section \<open>The buffer\<close>

definition rd_ok :: "bufio \<Rightarrow> bool" where
  "rd_ok b \<longleftrightarrow> bf_r b \<le> bf_w b \<and> bf_w b \<le> length (bf_buf b) \<and> bf_buf b \<noteq> [] \<and> [] \<notin> set (bf_chunks b) \<and>
     (bf_err b \<noteq> None \<longrightarrow> bf_chunks b = [] \<and> bf_err b = Some (bf_end b))"

definition stream_of :: "bufio \<Rightarrow> string" where
  "stream_of b = unread b @ concat (bf_chunks b)"

lemma length_window: "rd_ok b \<Longrightarrow> length (unread b) = bf_w b - bf_r b"
  by (auto simp: rd_ok_def unread_def)

lemma take_length_append: "take (length xs) (xs @ ys) = xs"
  by simp

lemma window_store:
  assumes "rd_ok b" "bf_w b + k \<le> length (bf_buf b)" "k \<le> length c"
  shows "unread (store_chunk k c cs b) = unread b @ take k c"
proof -
  let ?rest = "drop (bf_w b + k) (bf_buf b)" and ?xs = "unread b @ take k c"
  have "drop (bf_r b) (take (bf_w b) (bf_buf b)) = unread b"
    by (simp add: unread_def drop_take)
  then have d: "drop (bf_r b) (take (bf_w b) (bf_buf b) @ take k c @ ?rest) = ?xs @ ?rest"
    using assms by (simp add: rd_ok_def)
  have n: "bf_w b + k - bf_r b = length ?xs"
    using assms length_window [OF assms(1)] by (simp add: rd_ok_def)
  have "unread (store_chunk k c cs b) = take (bf_w b + k - bf_r b) (drop (bf_r b) (take (bf_w b) (bf_buf b) @ take k c @ ?rest))"
    by (simp add: unread_def store_chunk_def)
  then show ?thesis unfolding d n take_length_append .
qed

lemma store_ok:
  assumes "rd_ok b" "bf_err b = None" "bf_chunks b = c # cs" "0 < room b c"
  shows "rd_ok (store_chunk (room b c) c cs b)"
    "unread (store_chunk (room b c) c cs b) = unread b @ take (room b c) c"
    "stream_of (store_chunk (room b c) c cs b) = stream_of b"
proof -
  have k: "room b c \<le> length c" "bf_w b + room b c \<le> length (bf_buf b)"
    using assms(4) by (auto simp: room_def)
  show w: "unread (store_chunk (room b c) c cs b) = unread b @ take (room b c) c"
    using window_store [OF assms(1) k(2,1)] .
  have "take (room b c) c @ concat (bf_chunks (store_chunk (room b c) c cs b)) = concat (bf_chunks b)"
    using assms(3) by (simp add: store_chunk_def)
  then show "stream_of (store_chunk (room b c) c cs b) = stream_of b" by (simp add: stream_of_def w)
  show "rd_ok (store_chunk (room b c) c cs b)"
    using assms k by (auto simp: rd_ok_def store_chunk_def)
qed

lemma slide_ok:
  assumes "rd_ok b"
  shows "rd_ok (slide b)" "unread (slide b) = unread b" "stream_of (slide b) = stream_of b" "bf_r (slide b) = 0"
    "length (bf_buf (slide b)) = length (bf_buf b)" "bf_w (slide b) = bf_w b - bf_r b"
proof -
  have l: "length (unread b) = bf_w b - bf_r b" "length (unread b) \<le> length (bf_buf b)"
    using length_window [OF assms] assms by (auto simp: rd_ok_def)
  show "length (bf_buf (slide b)) = length (bf_buf b)" using l by (simp add: slide_def)
  moreover show "bf_r (slide b) = 0" "bf_w (slide b) = bf_w b - bf_r b" by (simp_all add: slide_def)
  moreover have "bf_buf (slide b) \<noteq> []" using calculation(1) assms by (metis length_0_conv rd_ok_def)
  ultimately show "rd_ok (slide b)" using assms by (auto simp: rd_ok_def)
  show w: "unread (slide b) = unread b"
    using l by (cases "0 < bf_r b") (simp_all add: slide_def unread_def [of "b\<lparr>bf_buf := x, bf_w := y, bf_r := z\<rparr>" for x y z])
  show "stream_of (slide b) = stream_of b" by (simp add: stream_of_def w)
qed

lemma fill_tries_ok:
  assumes "rd_ok b" "bf_err b = None" "bf_w b < length (bf_buf b)"
  shows "rd_ok (fill_tries (Suc n) b) \<and> (\<exists>u. unread (fill_tries (Suc n) b) = unread b @ u) \<and>
    stream_of (fill_tries (Suc n) b) = stream_of b \<and> bf_end (fill_tries (Suc n) b) = bf_end b"
proof (cases "bf_chunks b")
  case Nil
  then show ?thesis using assms by (auto simp: rd_ok_def unread_def stream_of_def)
next
  case (Cons c cs)
  then have "c \<noteq> []" using assms(1) by (auto simp: rd_ok_def)
  then have "0 < room b c" using assms(3) by (simp add: room_def)
  then show ?thesis using Cons store_ok [OF assms(1,2) Cons] by (simp add: store_chunk_def)
qed

lemma fill_ok:
  assumes "rd_ok b" "bf_err b = None" "bf_w b - bf_r b < length (bf_buf b)"
  shows "rd_ok (fill b)" "\<exists>u. unread (fill b) = unread b @ u" "stream_of (fill b) = stream_of b" "bf_end (fill b) = bf_end b"
proof -
  have "bf_w (slide b) < length (bf_buf (slide b))" using slide_ok [OF assms(1)] assms(3) by simp
  from fill_tries_ok [OF slide_ok(1) [OF assms(1)] _ this, of 99]
  show "rd_ok (fill b)" "\<exists>u. unread (fill b) = unread b @ u" "stream_of (fill b) = stream_of b" "bf_end (fill b) = bf_end b"
    using assms(2) slide_ok [OF assms(1)] by (simp_all add: fill_def eval_nat_numeral)
qed

section \<open>Slices\<close>

text \<open>What one \<open>ReadSlice\<close> hands out.\<close>

definition slice_ok :: "bufio \<Rightarrow> fslice \<times> slice_error option \<times> bufio \<Rightarrow> bool" where
  "slice_ok b r \<longleftrightarrow> (case r of (line, err, b') \<Rightarrow>
     rd_ok b' \<and> bf_end b' = bf_end b \<and> stream_of b = slice_val b' line @ stream_of b' \<and>
     slice_len line = length (slice_val b' line) \<and>
     (case err of
        None \<Rightarrow> \<exists>x. slice_val b' line = x @ [newline] \<and> newline \<notin> set x
      | Some BufferFull \<Rightarrow> newline \<notin> set (slice_val b' line) \<and> slice_val b' line \<noteq> []
      | Some (SourceError e) \<Rightarrow> newline \<notin> set (slice_val b' line) \<and> e = bf_end b \<and> stream_of b' = []))"

lemma index_byte_first: "index_byte s c = Some i \<Longrightarrow> c \<notin> set (take i s)"
proof (induction s arbitrary: i)
  case (Cons d s)
  then show ?case by (cases "c = d") (auto split: option.splits)
qed simp

lemma window_split: "bf_r b + k \<le> bf_w b \<Longrightarrow> unread (b\<lparr>bf_r := bf_r b + k\<rparr>) = drop k (unread b)"
  by (simp add: unread_def drop_take add.commute)

lemma read_slice_ok:
  assumes "rd_ok b" "newline \<notin> set (take s (unread b))" "s \<le> length (unread b)"
  shows "slice_ok b (read_slice s b)"
  using assms
proof (induction s b rule: read_slice.induct)
  case (1 s b)
  note lw = length_window [OF 1(2)]
  have rw: "bf_r b \<le> bf_w b" "bf_w b \<le> length (bf_buf b)" using 1(2) by (simp_all add: rd_ok_def)
  show ?case
  proof (cases "index_byte (drop s (unread b)) newline")
    case (Some i)
    let ?k = "s + i + 1"
    have i: "i < length (drop s (unread b))" "drop s (unread b) ! i = newline" using index_byte_Some [OF Some] by simp_all
    then have k: "?k \<le> bf_w b - bf_r b" "s + i < length (unread b)" using lw by auto
    have v: "take ?k (drop (bf_r b) (bf_buf b)) = take ?k (unread b)" using k by (simp add: unread_def min_def)
    have "take ?k (unread b) = take (s + i) (unread b) @ [newline]"
      using i k(2) by (simp add: take_Suc_conv_app_nth)
    moreover have "take (s + i) (unread b) = take s (unread b) @ take i (drop s (unread b))" by (rule take_add)
    ultimately have x: "\<exists>x. take ?k (unread b) = x @ [newline] \<and> newline \<notin> set x"
      using 1(3) index_byte_first [OF Some] by (metis Un_iff set_append)
    have w: "unread (b\<lparr>bf_r := bf_r b + ?k\<rparr>) = drop ?k (unread b)" using window_split [of b ?k] k(1) rw by simp
    have ok: "rd_ok (b\<lparr>bf_r := bf_r b + ?k\<rparr>)" using 1(2) k(1) rw unfolding rd_ok_def by simp
    have st: "stream_of b = take ?k (unread b) @ stream_of (b\<lparr>bf_r := bf_r b + ?k\<rparr>)"
      unfolding stream_of_def w by simp
    have len: "length (take ?k (unread b)) = ?k" using k(2) by simp
    have eq: "read_slice s b = (InBuf (bf_r b) ?k, None, b\<lparr>bf_r := bf_r b + ?k\<rparr>)"
      unfolding read_slice.simps [of s b] using Some by simp
    have sv: "slice_val (b\<lparr>bf_r := bf_r b + ?k\<rparr>) (InBuf (bf_r b) ?k) = take ?k (unread b)" using v by simp
    have "?k \<le> length (bf_buf b) - bf_r b" using k rw by linarith
    then show ?thesis unfolding eq slice_ok_def using ok st x len sv by (simp add: min_absorb2)
  next
    case None
    have "newline \<notin> set (drop s (unread b))" using None index_byte_None by metis
    then have nn: "newline \<notin> set (unread b)" using 1(3) by (metis Un_iff append_take_drop_id set_append)
    have e: "unread (b\<lparr>bf_r := bf_w b\<rparr>) = []" "unread (b\<lparr>bf_r := bf_w b, bf_err := None\<rparr>) = []" by (simp_all add: unread_def)
    show ?thesis
    proof (cases "bf_err b \<noteq> None")
      case True
      then have ch: "bf_chunks b = []" "bf_err b = Some (bf_end b)" using 1(2) by (auto simp: rd_ok_def)
      have eq: "read_slice s b = (InBuf (bf_r b) (bf_w b - bf_r b), Some (SourceError (bf_end b)), b\<lparr>bf_r := bf_w b, bf_err := None\<rparr>)"
        unfolding read_slice.simps [of s b] using None ch by simp
      have "rd_ok (b\<lparr>bf_r := bf_w b, bf_err := None\<rparr>)" using 1(2) by (simp add: rd_ok_def)
      moreover have "bf_w b - bf_r b \<le> length (bf_buf b) - bf_r b" using rw by simp
      ultimately show ?thesis unfolding eq slice_ok_def using nn ch lw e
        by (simp add: stream_of_def min_absorb2 flip: unread_def)
    next
      case noerr: False
      show ?thesis
      proof (cases "bf_w b - bf_r b \<ge> length (bf_buf b) \<and> bf_buf b \<noteq> []")
        case True
        then have z: "bf_r b = 0" "bf_w b = length (bf_buf b)" using rw by (cases "bf_buf b"; auto)+
        then have wb: "unread b = bf_buf b" by (simp add: unread_def)
        have eq: "read_slice s b = (InBuf 0 (length (bf_buf b)), Some BufferFull, b\<lparr>bf_r := bf_w b\<rparr>)"
          unfolding read_slice.simps [of s b] using None noerr True by simp
        have "rd_ok (b\<lparr>bf_r := bf_w b\<rparr>)" using 1(2) by (simp add: rd_ok_def)
        then show ?thesis unfolding eq slice_ok_def using nn wb True e by (simp add: stream_of_def)
      next
        case False
        then have small: "bf_w b - bf_r b < length (bf_buf b)" using 1(2) by (auto simp: rd_ok_def)
        from noerr have ne: "bf_err b = None" by simp
        note f = fill_ok [OF 1(2) ne small]
        obtain u where u: "unread (fill b) = unread b @ u" using f(2) by blast
        have eq: "read_slice s b = read_slice (bf_w b - bf_r b) (fill b)"
          unfolding read_slice.simps [of s b] using None ne False by auto
        have "slice_ok (fill b) (read_slice (bf_w b - bf_r b) (fill b))"
          using 1(1) [OF None noerr False f(1)] u nn lw by simp
        then show ?thesis unfolding eq slice_ok_def f(3,4) .
      qed
    qed
  qed
qed

lemma ReadSlice_ok: "rd_ok b \<Longrightarrow> slice_ok b (ReadSlice b)"
  unfolding ReadSlice_def by (rule read_slice_ok) simp_all

section \<open>Lines\<close>

text \<open>The first line of a stream with its end, and the rest; the line without its end.\<close>

definition raw_line :: "string \<Rightarrow> string \<times> string" where
  "raw_line s = (case index_byte s newline of None \<Rightarrow> (s, []) | Some i \<Rightarrow> (take (Suc i) s, drop (Suc i) s))"

definition trimmed :: "string \<Rightarrow> string" where
  "trimmed v = take (eol_len v) v"

definition short_lines :: "nat \<Rightarrow> string \<Rightarrow> bool" where
  "short_lines m s \<longleftrightarrow> (\<forall>x v y. s = x @ v @ y \<longrightarrow> newline \<notin> set v \<longrightarrow> length v < m)"

lemma short_lines_suffix: "short_lines m (x @ s) \<Longrightarrow> short_lines m s"
  unfolding short_lines_def by (metis append_assoc)

lemma raw_line_break: "newline \<notin> set v \<Longrightarrow> raw_line (v @ newline # s) = (v @ [newline], s)"
proof -
  assume "newline \<notin> set v"
  then have "index_byte (v @ newline # s) newline = Some (length v)" by (induction v) auto
  then show ?thesis by (simp add: raw_line_def)
qed

lemma raw_line_last: "newline \<notin> set v \<Longrightarrow> raw_line v = (v, [])"
  using index_byte_None [of v newline] by (simp add: raw_line_def)

lemma raw_line_parts: "raw_line s = (v, rest) \<Longrightarrow> s = v @ rest \<and> (s \<noteq> [] \<longrightarrow> v \<noteq> [])"
  by (auto simp: raw_line_def split: option.splits)

lemma eol_len_le: "eol_len v \<le> length v"
  by (auto simp: eol_len_def Let_def)

lemma slice_val_upto: "slice_val b (slice_upto k l) = take k (slice_val b l)"
  by (cases l) simp_all

lemma slice_val_from: "slice_val b (slice_from k l) = drop k (slice_val b l)"
  by (cases l) (simp_all add: drop_take add.commute)

lemma slice_len_upto: "slice_len l = length (slice_val b l) \<Longrightarrow> slice_len (slice_upto k l) = length (slice_val b (slice_upto k l))"
  by (cases l) auto

lemma trimEOL_ok:
  assumes "slice_len l = length (slice_val b l)"
  shows "slice_val b (trimEOL b l) = trimmed (slice_val b l)" "slice_len (trimEOL b l) = length (trimmed (slice_val b l))"
  using slice_len_upto [OF assms] by (simp_all add: trimEOL_def trimmed_def slice_val_upto)

text \<open>A reader that delivers the line \<open>v\<close> of its stream, of which \<open>buf\<close> was read before.\<close>

definition line_ok :: "bufio \<Rightarrow> string \<Rightarrow> string \<Rightarrow> fslice \<times> sse_error option \<times> bufio \<Rightarrow> bool" where
  "line_ok b v rest r \<longleftrightarrow> (case r of (line, err, b') \<Rightarrow>
     err = None \<and> rd_ok b' \<and> bf_end b' = bf_end b \<and> slice_val b' line = trimmed v \<and>
     slice_len line = length (trimmed v) \<and> stream_of b' = rest)"

lemma slice_cases:
  assumes "rd_ok b" "ReadSlice b = (l, er, b')"
  obtains (full) "er = Some BufferFull" "newline \<notin> set (slice_val b' l)" "slice_val b' l \<noteq> []"
  | (line) x where "er = None" "slice_val b' l = x @ [newline]" "newline \<notin> set x"
  | (at_end) "er = Some (SourceError (bf_end b))" "newline \<notin> set (slice_val b' l)" "stream_of b' = []"
  using ReadSlice_ok [OF assms(1)] assms(2) that unfolding slice_ok_def
  by (cases er; auto split: slice_error.splits)

lemma slice_rest:
  assumes "rd_ok b" "ReadSlice b = (l, er, b')"
  shows "rd_ok b'" "bf_end b' = bf_end b" "stream_of b = slice_val b' l @ stream_of b'" "slice_len l = length (slice_val b' l)"
  using ReadSlice_ok [OF assms(1)] assms(2) unfolding slice_ok_def by simp_all

lemma long_loop_ok:
  assumes "rd_ok b" "bf_end b = IoEOF" "newline \<notin> set buf" "raw_line (buf @ stream_of b) = (v, rest)"
    and "short_lines maxSize (buf @ stream_of b)"
  shows "line_ok b v rest (long_loop maxSize buf b)"
  using assms
proof (induction maxSize buf b rule: long_loop.induct)
  case (1 maxSize buf b)
  obtain l er b' where r: "ReadSlice b = (l, er, b')" by (cases "ReadSlice b")
  note sr = slice_rest [OF 1(2) r]
  have n: "\<not> maxSize < length buf"
    using 1(4,6) unfolding short_lines_def by (metis append_Nil not_less_iff_gr_or_eq)
  have tr: "slice_val b'' (trimEOL b'' (Owned w)) = trimmed w" "slice_len (trimEOL b'' (Owned w)) = length (trimmed w)" for b'' w
    using trimEOL_ok [of "Owned w" b''] by simp_all
  from 1(2) r show ?case
  proof (cases rule: slice_cases)
    case full
    have "long_loop maxSize buf b = long_loop maxSize (buf @ slice_val b' l) b'"
      unfolding long_loop.simps [of maxSize buf b] using n r full by simp
    moreover have "line_ok b' v rest (long_loop maxSize (buf @ slice_val b' l) b')"
      using 1(1) [OF n r [symmetric] refl refl full(1) refl sr(1)] 1(3-6) sr full by simp
    ultimately show ?thesis using sr(2) by (simp add: line_ok_def case_prod_beta)
  next
    case (line x)
    have "long_loop maxSize buf b = (trimEOL b' (Owned (buf @ x @ [newline])), None, b')"
      unfolding long_loop.simps [of maxSize buf b] using n r line by simp
    moreover have "v = buf @ x @ [newline]" "rest = stream_of b'"
      using 1(4,5) raw_line_break [of "buf @ x" "stream_of b'"] line sr(3) by simp_all
    ultimately show ?thesis using sr tr by (simp add: line_ok_def)
  next
    case at_end
    have "long_loop maxSize buf b = (trimEOL b' (Owned (buf @ slice_val b' l)), None, b')"
      unfolding long_loop.simps [of maxSize buf b] using n r at_end 1(3) by simp
    moreover have "v = buf @ slice_val b' l" "rest = []"
      using 1(4,5) raw_line_last [of "buf @ slice_val b' l"] at_end sr(3) by simp_all
    ultimately show ?thesis using sr tr at_end by (simp add: line_ok_def)
  qed
qed

lemma readLine_ok:
  assumes "rd_ok b" "bf_end b = IoEOF" "stream_of b \<noteq> []" "raw_line (stream_of b) = (v, rest)" "short_lines maxSize (stream_of b)"
  shows "line_ok b v rest (readLine maxSize b)"
proof -
  obtain l er b' where r: "ReadSlice b = (l, er, b')" by (cases "ReadSlice b")
  note sr = slice_rest [OF assms(1) r]
  note tr = trimEOL_ok [OF sr(4)]
  from assms(1) r show ?thesis
  proof (cases rule: slice_cases)
    case full
    then have "readLine maxSize b = long_loop maxSize (slice_val b' l) b'" using r by (simp add: readLine_def)
    moreover have "line_ok b' v rest (long_loop maxSize (slice_val b' l) b')"
      using long_loop_ok [OF sr(1), of "slice_val b' l" v rest maxSize] assms sr full by simp
    ultimately show ?thesis using sr(2) by (simp add: line_ok_def case_prod_beta)
  next
    case (line x)
    then have "readLine maxSize b = (trimEOL b' l, None, b')" using r by (simp add: readLine_def)
    moreover have "v = x @ [newline]" "rest = stream_of b'"
      using assms(4) raw_line_break [of x "stream_of b'"] line sr(3) by simp_all
    ultimately show ?thesis using sr tr line by (simp add: line_ok_def)
  next
    case at_end
    then have "readLine maxSize b = (trimEOL b' l, None, b')" using r assms sr by (simp add: readLine_def)
    moreover have "v = slice_val b' l" "rest = []"
      using assms(4) raw_line_last [of "slice_val b' l"] at_end sr(3) by simp_all
    ultimately show ?thesis using sr tr at_end by (simp add: line_ok_def)
  qed
qed

lemma readLine_at_end:
  assumes "rd_ok b" "stream_of b = []"
  shows "\<exists>b'. readLine maxSize b = (Owned [], Some (ReadError (bf_end b)), b') \<and> rd_ok b' \<and> stream_of b' = [] \<and> bf_end b' = bf_end b"
proof -
  obtain l er b' where r: "ReadSlice b = (l, er, b')" by (cases "ReadSlice b")
  note sr = slice_rest [OF assms(1) r]
  have "slice_val b' l = []" "stream_of b' = []" using sr(3) assms(2) by simp_all
  with assms(1) r show ?thesis
    by (cases rule: slice_cases) (use sr r in \<open>auto simp: readLine_def\<close>)
qed

section \<open>Events\<close>

text \<open>The scanner on the bytes of the stream: the event, the error and the rest of the bytes.\<close>

lemma raw_line_shorter: "s \<noteq> [] \<Longrightarrow> length (snd (raw_line s)) < length s"
  using raw_line_parts [of s "fst (raw_line s)" "snd (raw_line s)"] by (metis length_append length_greater_0_conv less_add_same_cancel2 prod.collapse)

function spec_next ::
    "nat \<Rightarrow> string \<Rightarrow> string sse_event \<times> string \<Rightarrow> bool \<Rightarrow> string sse_event option \<times> sse_error option \<times> string" where
  "spec_next m s st hasField =
     (if s = [] then ((if hasField then Some (finish_event st) else None), Some (ReadError IoEOF), [])
      else
        let l = trimmed (fst (raw_line s)); rest = snd (raw_line s) in
        if l = [] then (if hasField then (Some (finish_event st), None, rest) else spec_next m rest st False)
        else case scan_line m (\<lambda>off. drop off l) l st of
          Inl err \<Rightarrow> (None, Some err, rest)
        | Inr st' \<Rightarrow> spec_next m rest st' True)"
  by pat_completeness auto
termination
  by (relation "measure (\<lambda>(m, s, st, h). length s)") (use raw_line_shorter in auto)

declare spec_next.simps [simp del]

text \<open>What of an event does not depend on the buffer.\<close>

definition core :: "'f sse_event \<Rightarrow> bool \<times> string" where
  "core e = (ev_Comment e, ev_Data e)"

lemma core_simps [simp]: "core (e\<lparr>ev_Event := x\<rparr>) = core e" "core (e\<lparr>ev_ID := x\<rparr>) = core e" "core (e\<lparr>ev_Retry := x\<rparr>) = core e"
  by (simp_all add: core_def)

definition same_scan :: "sse_error + 'f sse_event \<times> string \<Rightarrow> sse_error + 'g sse_event \<times> string \<Rightarrow> bool" where
  "same_scan x y \<longleftrightarrow> (case x of
      Inl e \<Rightarrow> y = Inl e
    | Inr (ev, d) \<Rightarrow> (\<exists>ev'. y = Inr (ev', d) \<and> core ev' = core ev))"

lemma scan_line_same: "core ev = core ev' \<Longrightarrow> same_scan (scan_line m f l (ev, d)) (scan_line m g l (ev', d))"
  by (simp add: same_scan_def scan_line_def Let_def core_def)

lemma finish_core: "core ev = core ev' \<Longrightarrow> core (finish_event (ev, d)) = core (finish_event (ev', d))"
  by (simp add: core_def finish_event_def)

definition scanner_ok :: "sse_scanner \<Rightarrow> bool" where
  "scanner_ok s \<longleftrightarrow> rd_ok (sc_reader s) \<and> bf_end (sc_reader s) = IoEOF \<and> short_lines (sc_maxSize s) (stream_of (sc_reader s))"

definition next_ok :: "sse_scanner \<Rightarrow> string sse_event option \<times> sse_error option \<times> string \<Rightarrow> bool \<times> sse_scanner \<Rightarrow> bool" where
  "next_ok s spec r \<longleftrightarrow> (case spec of (ev, err, rest) \<Rightarrow> case r of (found, s') \<Rightarrow>
     sc_err s' = (case err of None \<Rightarrow> sc_err s | Some e \<Rightarrow> Some e) \<and> sc_maxSize s' = sc_maxSize s \<and>
     scanner_ok s' \<and> stream_of (sc_reader s') = rest \<and>
     (found \<longleftrightarrow> ev \<noteq> None) \<and> (\<forall>e. ev = Some e \<longrightarrow> core (sc_event s') = core e))"

lemma next_ok_cong:
  assumes "sc_err s' = sc_err s" "sc_maxSize s' = sc_maxSize s"
  shows "next_ok s' = next_ok s"
  unfolding next_ok_def fun_eq_iff assms by simp

lemma next_loop_ok:
  "scanner_ok s \<Longrightarrow> core (sc_event s) = core ev \<Longrightarrow>
     next_ok s (spec_next (sc_maxSize s) (stream_of (sc_reader s)) (ev, sc_dataBuf s) h) (next_loop s h)"
proof (induction s h arbitrary: ev rule: next_loop.induct)
  case (1 s h)
  let ?b = "sc_reader s" and ?m = "sc_maxSize s"
  have ok: "rd_ok ?b" "bf_end ?b = IoEOF" "short_lines ?m (stream_of ?b)" using 1(3) by (simp_all add: scanner_ok_def)
  show ?case
  proof (cases "stream_of ?b = []")
    case True
    obtain b where b: "readLine ?m ?b = (Owned [], Some (ReadError IoEOF), b)" "rd_ok b" "stream_of b = []" "bf_end b = IoEOF"
      using readLine_at_end [OF ok(1) True, of ?m] ok(2) by metis
    have "short_lines ?m []" using ok(3) True by simp
    then show ?thesis using True b finish_core [OF 1(4), of "sc_dataBuf s"]
      unfolding next_loop.simps [of s h] spec_next.simps [of ?m "stream_of ?b"]
      by (auto simp: next_ok_def scanner_ok_def Let_def)
  next
    case False
    obtain v rest where vr: "raw_line (stream_of ?b) = (v, rest)" by (cases "raw_line (stream_of ?b)")
    have lo: "line_ok ?b v rest (readLine ?m ?b)" using readLine_ok [OF ok(1,2) False vr ok(3)] .
    obtain l b where rl: "readLine ?m ?b = (l, None, b)" using lo by (auto simp: line_ok_def split: prod.splits)
    have b: "rd_ok b" "bf_end b = IoEOF" "slice_val b l = trimmed v" "slice_len l = length (trimmed v)" "stream_of b = rest"
      using lo rl ok(2) by (simp_all add: line_ok_def)
    have sm: "short_lines ?m rest" using ok(3) raw_line_parts [OF vr] short_lines_suffix by metis
    show ?thesis
    proof (cases "trimmed v = []")
      case True
      show ?thesis
      proof (cases h)
        case True
        then show ?thesis using \<open>trimmed v = []\<close> False rl b vr sm finish_core [OF 1(4), of "sc_dataBuf s"]
          unfolding next_loop.simps [of s h] spec_next.simps [of ?m "stream_of ?b"]
          by (simp add: next_ok_def scanner_ok_def)
      next
        case nh: False
        let ?s = "s\<lparr>sc_reader := b\<rparr>"
        have "next_ok ?s (spec_next ?m rest (ev, sc_dataBuf s) False) (next_loop ?s False)"
          using 1(1) [OF rl [symmetric] refl refl refl refl _ nh, of ev] True b sm 1(4) by (simp add: scanner_ok_def)
        moreover have "next_loop s h = next_loop ?s False" using nh rl True b unfolding next_loop.simps [of s h] by simp
        moreover have "spec_next ?m (stream_of ?b) (ev, sc_dataBuf s) h = spec_next ?m rest (ev, sc_dataBuf s) False"
          using nh True False vr unfolding spec_next.simps [of ?m "stream_of ?b"] by simp
        ultimately show ?thesis using next_ok_cong [of ?s s] by simp
      qed
    next
      case ne: False
      let ?scan = "scan_line ?m (\<lambda>off. slice_from off l) (trimmed v) (sc_event s, sc_dataBuf s)"
      let ?spec = "scan_line ?m (\<lambda>off. drop off (trimmed v)) (trimmed v) (ev, sc_dataBuf s)"
      have same: "same_scan ?scan ?spec" using scan_line_same [OF 1(4)] .
      have nz: "slice_len l \<noteq> 0" using ne b by simp
      show ?thesis
      proof (cases ?scan)
        case (Inl err)
        then have sp: "?spec = Inl err" using same by (simp add: same_scan_def)
        show ?thesis using ne False rl b vr sm nz Inl sp
          unfolding next_loop.simps [of s h] spec_next.simps [of ?m "stream_of ?b"]
          by (simp add: next_ok_def scanner_ok_def)
      next
        case (Inr p)
        obtain e d where p: "p = (e, d)" by (cases p)
        obtain e' where e': "?spec = Inr (e', d)" "core e' = core e"
          using same Inr p by (auto simp: same_scan_def)
        let ?s = "s\<lparr>sc_reader := b, sc_event := e, sc_dataBuf := d\<rparr>"
        have "next_ok ?s (spec_next ?m rest (e', d) True) (next_loop ?s True)"
          using 1(2) [OF rl [symmetric] refl refl refl refl nz _ p [symmetric], of e'] Inr e' b sm by (simp add: scanner_ok_def)
        moreover have "next_loop s h = next_loop ?s True" using rl nz b Inr p unfolding next_loop.simps [of s h] by simp
        moreover have "spec_next ?m (stream_of ?b) (ev, sc_dataBuf s) h = spec_next ?m rest (e', d) True"
          using ne False vr e' unfolding spec_next.simps [of ?m "stream_of ?b"] by simp
        ultimately show ?thesis using next_ok_cong [of ?s s] by simp
      qed
    qed
  qed
qed

section \<open>What was written is read\<close>

definition event_bytes :: "string sse_event \<Rightarrow> string" where
  "event_bytes e = concat (event_writes e)"

definition one_line :: "string \<Rightarrow> bool" where
  "one_line v \<longleftrightarrow> newline \<notin> set v \<and> creturn \<notin> set v"

text \<open>The events that survive: comments are one line, and data do not begin with a line break.\<close>

definition relayable :: "nat \<Rightarrow> string sse_event \<Rightarrow> bool" where
  "relayable m e \<longleftrightarrow>
     (if ev_Comment e then (\<exists>v. ev_Data e = CHR '':'' # v \<and> one_line v) \<and> ev_Event e = [] \<and> ev_ID e = [] \<and> ev_Retry e = []
      else ev_Data e \<noteq> [] \<and> hd (ev_Data e) \<noteq> newline \<and> creturn \<notin> set (ev_Data e) \<and> length (ev_Data e) \<le> m \<and>
        one_line (ev_Event e) \<and> one_line (ev_ID e) \<and> one_line (ev_Retry e))"

lemma trimmed_line: "one_line v \<Longrightarrow> trimmed (v @ [newline]) = v"
proof -
  assume v: "one_line v"
  have "\<not> has_suffix v [creturn]" using v by (auto simp: has_suffix_iff one_line_def)
  then have "eol_len (v @ [newline]) = length v" by (simp add: eol_len_def has_suffix_iff)
  then show ?thesis by (simp add: trimmed_def)
qed

text \<open>One written line.\<close>

lemma spec_line:
  assumes "one_line l" "l \<noteq> []"
  shows "spec_next m (l @ newline # s) st h =
    (case scan_line m (\<lambda>off. drop off l) l st of Inl err \<Rightarrow> (None, Some err, s) | Inr st' \<Rightarrow> spec_next m s st' True)"
  using assms raw_line_break [of l s] trimmed_line [OF assms(1)]
  by (subst spec_next.simps) (simp add: one_line_def)

lemma spec_blank: "spec_next m (newline # s) st True = (Some (finish_event st), None, s)"
proof -
  have "raw_line (newline # s) = ([newline], s)" using raw_line_break [of "[]" s] by simp
  moreover have "trimmed [newline] = []" using trimmed_line [of "[]"] by (simp add: one_line_def)
  ultimately show ?thesis by (subst spec_next.simps) simp
qed

lemma value_line: "drop (value_from (length n) (n @ CHR '' '' # v)) (n @ CHR '' '' # v) = v"
  by (simp add: value_from_def)

definition field_line :: "string \<Rightarrow> string \<Rightarrow> string" where
  "field_line n v = n @ CHR '' '' # v"

lemma field_bytes: "concat (field_writes n v) @ s = field_line n v @ newline # s"
  by (simp add: field_writes_def field_line_def)

lemmas field_names = fieldData_def fieldEvent_def fieldID_def fieldRetry_def commentPrefix_def

lemma scan_fields:
  "scan_line m (\<lambda>off. drop off (field_line fieldEvent v)) (field_line fieldEvent v) (ev, d) = Inr (ev\<lparr>ev_Event := v\<rparr>, d)"
  "scan_line m (\<lambda>off. drop off (field_line fieldID v)) (field_line fieldID v) (ev, d) = Inr (ev\<lparr>ev_ID := v\<rparr>, d)"
  "scan_line m (\<lambda>off. drop off (field_line fieldRetry v)) (field_line fieldRetry v) (ev, d) = Inr (ev\<lparr>ev_Retry := v\<rparr>, d)"
  by (simp_all add: scan_line_def field_line_def value_from_def field_names)

lemma scan_data:
  "scan_line m p (field_line fieldData v) (ev, d) =
     (let d' = (if d \<noteq> [] then d @ [newline] else d) in
      if length d' + length v > m then Inl (EventTooLarge (length d')) else Inr (ev, d' @ v))"
  by (simp add: scan_line_def field_line_def value_from_def field_names)

lemma line_names: "one_line v \<Longrightarrow> one_line (field_line fieldEvent v)" "one_line v \<Longrightarrow> one_line (field_line fieldID v)"
  "one_line v \<Longrightarrow> one_line (field_line fieldRetry v)" "one_line v \<Longrightarrow> one_line (field_line fieldData v)"
  by (simp_all add: one_line_def field_line_def field_names newline_def creturn_def)

lemma field_line_nonempty: "field_line n v \<noteq> []"
  by (simp add: field_line_def)

lemma spec_field:
  assumes "one_line v"
  shows "spec_next m ((if v \<noteq> [] then concat (field_writes fieldEvent v) else []) @ s) (ev\<lparr>ev_Event := []\<rparr>, d) h =
      spec_next m s (ev\<lparr>ev_Event := v\<rparr>, d) (v \<noteq> [] \<or> h)"
    "spec_next m ((if v \<noteq> [] then concat (field_writes fieldID v) else []) @ s) (ev\<lparr>ev_ID := []\<rparr>, d) h =
      spec_next m s (ev\<lparr>ev_ID := v\<rparr>, d) (v \<noteq> [] \<or> h)"
    "spec_next m ((if v \<noteq> [] then concat (field_writes fieldRetry v) else []) @ s) (ev\<lparr>ev_Retry := []\<rparr>, d) h =
      spec_next m s (ev\<lparr>ev_Retry := v\<rparr>, d) (v \<noteq> [] \<or> h)"
  using line_names [OF assms] by (simp_all add: field_bytes spec_line field_line_nonempty scan_fields)

lemma split_newline: "v \<in> set (str_split newline s) \<Longrightarrow> newline \<notin> set v \<and> set v \<subseteq> set s"
  by (induction newline s arbitrary: v rule: str_split.induct) (fastforce split: list.splits if_splits)+

text \<open>The lines of the data, all but the first of them.\<close>

lemma spec_data_lines:
  assumes "\<forall>v \<in> set vs. one_line v" "d \<noteq> []" "length (d @ concat (map (\<lambda>v. newline # v) vs)) \<le> m"
  shows "spec_next m (concat (concat (map (field_writes fieldData) vs)) @ newline # s) (ev, d) True =
    (Some (finish_event (ev, d @ concat (map (\<lambda>v. newline # v) vs))), None, s)"
  using assms
proof (induction vs arbitrary: d)
  case Nil
  then show ?case by (simp add: spec_blank)
next
  case (Cons v vs)
  let ?s = "concat (concat (map (field_writes fieldData) vs)) @ newline # s"
  have l: "one_line (field_line fieldData v)" using Cons(2) line_names(4) by simp
  have "spec_next m (concat (concat (map (field_writes fieldData) (v # vs))) @ newline # s) (ev, d) True =
      spec_next m (field_line fieldData v @ newline # ?s) (ev, d) True"
    using field_bytes [of fieldData v ?s] by simp
  also have "\<dots> = spec_next m ?s (ev, d @ newline # v) True"
    unfolding spec_line [OF l field_line_nonempty] scan_data using Cons(3,4) by simp
  also have "\<dots> = (Some (finish_event (ev, d @ concat (map (\<lambda>v. newline # v) (v # vs)))), None, s)"
    using Cons(1) [of "d @ newline # v"] Cons(2-4) by simp
  finally show ?case .
qed

lemma split_concat: "str_split newline s = v # vs \<Longrightarrow> s = v @ concat (map (\<lambda>v. newline # v) vs)"
  by (induction newline s arbitrary: v vs rule: str_split.induct) (auto simp: str_split_nonempty split: list.splits if_splits)

lemma spec_event:
  assumes "relayable m e"
  shows "spec_next m (event_bytes e @ s) (no_event [], []) False = (Some e, None, s)"
proof (cases "ev_Comment e")
  case True
  then obtain v where v: "ev_Data e = CHR '':'' # v" "one_line v" "ev_Event e = []" "ev_ID e = []" "ev_Retry e = []"
    using assms by (auto simp: relayable_def)
  have l: "one_line (CHR '':'' # v)" using v(2) by (simp add: one_line_def newline_def creturn_def)
  have "event_bytes e @ s = (CHR '':'' # v) @ newline # newline # s"
    using True v by (simp add: event_bytes_def event_writes_def)
  moreover have "spec_next m ((CHR '':'' # v) @ newline # newline # s) (no_event [], []) False =
      spec_next m (newline # s) ((no_event [])\<lparr>ev_Comment := True, ev_Data := CHR '':'' # v\<rparr>, CHR '':'' # v) True"
    by (subst spec_line [OF l]) (simp_all add: scan_line_def field_names)
  ultimately have "spec_next m (event_bytes e @ s) (no_event [], []) False =
      spec_next m (newline # s) ((no_event [])\<lparr>ev_Comment := True, ev_Data := CHR '':'' # v\<rparr>, CHR '':'' # v) True"
    by simp
  also have "\<dots> = (Some e, None, s)" unfolding spec_blank
    using True v by (cases e) (simp add: finish_event_def no_event_def)
  finally show ?thesis .
next
  case False
  then have e: "ev_Data e \<noteq> []" "hd (ev_Data e) \<noteq> newline" "creturn \<notin> set (ev_Data e)" "length (ev_Data e) \<le> m"
    "one_line (ev_Event e)" "one_line (ev_ID e)" "one_line (ev_Retry e)"
    using assms by (auto simp: relayable_def)
  obtain v vs where vs: "str_split newline (ev_Data e) = v # vs" using str_split_nonempty by (metis neq_Nil_conv)
  have lines: "\<forall>u \<in> set (v # vs). one_line u"
    using split_newline [of _ "ev_Data e"] vs e(3) by (auto simp: one_line_def)
  have d: "ev_Data e = v @ concat (map (\<lambda>v. newline # v) vs)" using split_concat [OF vs] .
  then have ne: "v \<noteq> []" using e(1,2) by (cases vs) auto
  let ?tail = "concat (concat (map (field_writes fieldData) vs)) @ newline # s"
  let ?data = "field_line fieldData v @ newline # ?tail"
  let ?f = "\<lambda>n v. if v \<noteq> [] then concat (field_writes n v) else []"
  have bytes: "event_bytes e @ s = ?f fieldEvent (ev_Event e) @ ?f fieldID (ev_ID e) @ ?f fieldRetry (ev_Retry e) @ ?data"
    using False vs field_bytes [of fieldData v ?tail] by (simp add: event_bytes_def event_writes_def)
  define ev where "ev = (no_event [])\<lparr>ev_Event := ev_Event e, ev_ID := ev_ID e, ev_Retry := ev_Retry e\<rparr>"
  have upd: "no_event [] = (no_event [])\<lparr>ev_Event := []\<rparr>"
    "(no_event [])\<lparr>ev_Event := ev_Event e\<rparr> = (no_event [])\<lparr>ev_Event := ev_Event e, ev_ID := []\<rparr>"
    "(no_event [])\<lparr>ev_Event := ev_Event e, ev_ID := ev_ID e\<rparr> = (no_event [])\<lparr>ev_Event := ev_Event e, ev_ID := ev_ID e, ev_Retry := []\<rparr>"
    by (simp_all add: no_event_def)
  obtain h where h: "spec_next m (event_bytes e @ s) (no_event [], []) False = spec_next m ?data (ev, []) h"
    unfolding bytes ev_def using spec_field(1) [OF e(5)] spec_field(2) [OF e(6)] spec_field(3) [OF e(7)] upd by metis
  have l: "one_line (field_line fieldData v)" using lines line_names(4) by simp
  have "spec_next m ?data (ev, []) h = spec_next m ?tail (ev, v) True"
    unfolding spec_line [OF l field_line_nonempty] scan_data using e(4) d by simp
  also have "\<dots> = (Some (finish_event (ev, ev_Data e)), None, s)"
    using spec_data_lines [of vs v m s ev] lines ne e(4) d by simp
  also have "finish_event (ev, ev_Data e) = e" using False by (cases e) (simp add: finish_event_def ev_def no_event_def)
  finally show ?thesis unfolding h .
qed

section \<open>Whole streams\<close>

lemma scanner_Next_ok:
  assumes "scanner_ok s" "sc_err s = None"
  shows "next_ok s (spec_next (sc_maxSize s) (stream_of (sc_reader s)) (no_event [], []) False) (scanner_Next s)"
proof -
  let ?s = "s\<lparr>sc_event := no_event (Owned []), sc_dataBuf := []\<rparr>"
  have "next_ok ?s (spec_next (sc_maxSize ?s) (stream_of (sc_reader ?s)) (no_event [], sc_dataBuf ?s) False) (next_loop ?s False)"
    by (rule next_loop_ok) (use assms in \<open>simp_all add: scanner_ok_def core_def no_event_def\<close>)
  then show ?thesis using assms(2) next_ok_cong [of ?s s] by (simp add: scanner_Next_def)
qed

lemma core_Event: "core (scanner_Event s) = core (sc_event s)"
  by (simp add: scanner_Event_def core_def Let_def)

lemma scan_all_end:
  assumes "scanner_ok s" "sc_err s = None" "stream_of (sc_reader s) = []"
  shows "scan_all s = ([], Some (ReadError IoEOF))"
proof -
  obtain ok s' where n: "scanner_Next s = (ok, s')" by (cases "scanner_Next s")
  have "spec_next (sc_maxSize s) [] (no_event [], []) False = (None, Some (ReadError IoEOF), [])"
    by (subst spec_next.simps) simp
  then have "\<not> ok \<and> sc_err s' = Some (ReadError IoEOF)"
    using scanner_Next_ok [OF assms(1,2)] assms(3) n by (simp add: next_ok_def)
  then show ?thesis using n by (simp add: scan_all.simps [of s])
qed

lemma scan_all_step:
  assumes "scanner_ok s" "sc_err s = None"
    and "spec_next (sc_maxSize s) (stream_of (sc_reader s)) (no_event [], []) False = (Some e, None, rest)"
  shows "\<exists>s' x. scan_all s = (x # fst (scan_all s'), snd (scan_all s')) \<and> core x = core e \<and> scanner_ok s' \<and> sc_err s' = None \<and>
    sc_maxSize s' = sc_maxSize s \<and> stream_of (sc_reader s') = rest"
proof -
  obtain ok s' where n: "scanner_Next s = (ok, s')" by (cases "scanner_Next s")
  have "ok \<and> sc_err s' = None \<and> sc_maxSize s' = sc_maxSize s \<and> scanner_ok s' \<and> stream_of (sc_reader s') = rest \<and>
      core (sc_event s') = core e"
    using scanner_Next_ok [OF assms(1,2)] assms(2,3) n by (simp add: next_ok_def)
  then show ?thesis using n by (intro exI [of _ s'] exI [of _ "scanner_Event s'"])
      (simp add: scan_all.simps [of s] core_Event case_prod_beta Let_def)
qed

lemma scan_all_events:
  assumes "scanner_ok s" "sc_err s = None" "stream_of (sc_reader s) = concat (map event_bytes es)"
    and "\<forall>e \<in> set es. relayable (sc_maxSize s) e"
  shows "\<exists>rs. scan_all s = (rs, Some (ReadError IoEOF)) \<and> map core rs = map core es"
  using assms
proof (induction es arbitrary: s)
  case Nil
  then show ?case using scan_all_end by simp
next
  case (Cons e es)
  have "spec_next (sc_maxSize s) (stream_of (sc_reader s)) (no_event [], []) False = (Some e, None, concat (map event_bytes es))"
    using spec_event Cons(4,5) by simp
  from scan_all_step [OF Cons(2,3) this] obtain s' x where
    s': "scan_all s = (x # fst (scan_all s'), snd (scan_all s'))" "core x = core e" "scanner_ok s'" "sc_err s' = None"
      "sc_maxSize s' = sc_maxSize s" "stream_of (sc_reader s') = concat (map event_bytes es)" by blast
  obtain rs where "scan_all s' = (rs, Some (ReadError IoEOF))" "map core rs = map core es"
    using Cons(1) [OF s'(3,4,6)] Cons(5) s'(5) by auto
  then show ?case using s'(1,2) by simp
qed

lemma NewScanner_ok:
  assumes "[] \<notin> set chunks" "0 < m" "short_lines m (concat chunks)"
  shows "scanner_ok (NewScanner chunks IoEOF bufSize (int m)) \<and> sc_err (NewScanner chunks IoEOF bufSize (int m)) = None \<and>
    stream_of (sc_reader (NewScanner chunks IoEOF bufSize (int m))) = concat chunks \<and>
    sc_maxSize (NewScanner chunks IoEOF bufSize (int m)) = m"
proof -
  have "rd_ok (sc_reader (NewScanner chunks IoEOF bufSize (int m)))"
    using assms(1) by (simp add: NewScanner_def Let_def rd_ok_def)
  moreover have "stream_of (sc_reader (NewScanner chunks IoEOF bufSize (int m))) = concat chunks"
    by (simp add: NewScanner_def Let_def stream_of_def unread_def)
  ultimately show ?thesis using assms by (simp add: scanner_ok_def NewScanner_def Let_def)
qed

text \<open>A writer that takes everything.\<close>

definition take_all :: "string \<Rightarrow> string \<Rightarrow> string option \<times> string" where
  "take_all w p = (None, w @ p)"

definition write_events :: "string sse_event list \<Rightarrow> string" where
  "write_events es = fold (\<lambda>e w. snd (WriteEvent take_all w e)) es []"

lemma write_all_take: "write_all take_all w ps = (None, w @ concat ps)"
  by (induction ps arbitrary: w) (simp_all add: take_all_def)

lemma write_events_bytes: "write_events es = concat (map event_bytes es)"
proof -
  have "fold (\<lambda>e w. snd (WriteEvent take_all w e)) es w = w @ concat (map event_bytes es)" for w
    by (induction es arbitrary: w) (simp_all add: WriteEvent_def write_all_take event_bytes_def)
  then show ?thesis by (simp add: write_events_def)
qed

lemma written_events_read:
  assumes "\<forall>e \<in> set es. relayable m e" "concat chunks = write_events es" "[] \<notin> set chunks" "0 < m" "short_lines m (concat chunks)"
  shows "\<exists>rs. scan_all (NewScanner chunks IoEOF bufSize (int m)) = (rs, Some (ReadError IoEOF)) \<and> map core rs = map core es"
  using scan_all_events [of "NewScanner chunks IoEOF bufSize (int m)" es] NewScanner_ok [OF assms(3-5), of bufSize] assms(1,2)
  by (simp add: write_events_bytes)

text \<open>
  C32: What the gateway writes as server-sent events, its own scanner reads back: the data and the
  comments of every event, in order and up to the end of the stream, whatever the size of the
  buffer and however the network cuts the bytes into chunks. The data must not begin with a line
  break or hold carriage returns.
\<close>

theorem sse_roundtrip:
  assumes "\<forall>e \<in> set es. relayable m e" "concat chunks = write_events es" "[] \<notin> set chunks" "0 < m" "short_lines m (concat chunks)"
  shows "\<exists>rs. scan_all (NewScanner chunks IoEOF bufSize (int m)) = (rs, Some (ReadError IoEOF)) \<and>
    map (\<lambda>e. (ev_Comment e, ev_Data e)) rs = map (\<lambda>e. (ev_Comment e, ev_Data e)) es"
  using written_events_read [OF assms, of bufSize] by (simp add: core_def [abs_def])

definition demo_event :: "string sse_event" where
  "demo_event = (no_event [])\<lparr>ev_Data := ''hello'', ev_Event := ''delta''\<rparr>"

lemma short_linesI: "length s < m \<Longrightarrow> short_lines m s"
  by (auto simp: short_lines_def)

theorem sse_roundtrip_witness:
  "\<exists>rs. scan_all (NewScanner [''event: delta'', newline # ''data: hel'', ''lo'' @ [newline, newline]] IoEOF 0 64) = (rs, Some (ReadError IoEOF)) \<and>
     map (\<lambda>e. (ev_Comment e, ev_Data e)) rs = [(False, ''hello'')]"
proof -
  have r: "\<forall>e \<in> set [demo_event]. relayable 64 e"
    by (simp add: demo_event_def relayable_def no_event_def one_line_def newline_def creturn_def)
  have b: "concat [''event: delta'', newline # ''data: hel'', ''lo'' @ [newline, newline]] = write_events [demo_event]"
    by (simp add: write_events_bytes event_bytes_def event_writes_def demo_event_def no_event_def field_writes_def field_names newline_def)
  have s: "short_lines 64 (concat [''event: delta'', newline # ''data: hel'', ''lo'' @ [newline, newline]])"
    by (rule short_linesI) simp
  have "[] \<notin> set [''event: delta'', newline # ''data: hel'', ''lo'' @ [newline, newline]]" "(0::nat) < 64" by simp_all
  from sse_roundtrip [OF r b this s, of 0] show ?thesis by (simp add: demo_event_def no_event_def)
qed

section \<open>What is lost\<close>

text \<open>A comment inside an event takes the place of its data.\<close>

lemma spec_comment_data:
  assumes "one_line v" "one_line d" "length v + length d + 2 \<le> m"
    and "s = (CHR '':'' # v) @ newline # field_line fieldData d @ newline # newline # r \<or>
         s = field_line fieldData d @ newline # (CHR '':'' # v) @ newline # newline # r"
  shows "\<exists>e. spec_next m s (no_event [], []) False = (Some e, None, r) \<and> core e = (True, CHR '':'' # v)"
proof -
  have l: "one_line (CHR '':'' # v)" "one_line (field_line fieldData d)"
    using assms(1) line_names(4) [OF assms(2)] by (simp_all add: one_line_def newline_def creturn_def)
  have c: "scan_line m p (CHR '':'' # v) (ev, x) = Inr (ev\<lparr>ev_Comment := True, ev_Data := CHR '':'' # v\<rparr>, CHR '':'' # v)" for p and ev :: "string sse_event" and x
    by (simp add: scan_line_def field_names)
  from assms(4) show ?thesis
  proof
    assume s: "s = (CHR '':'' # v) @ newline # field_line fieldData d @ newline # newline # r"
    show ?thesis unfolding s
      by (subst spec_line [OF l(1)], simp, subst c, simp, subst spec_line [OF l(2) field_line_nonempty], subst scan_data)
        (use assms(3) in \<open>simp add: spec_blank finish_event_def core_def\<close>)
  next
    assume s: "s = field_line fieldData d @ newline # (CHR '':'' # v) @ newline # newline # r"
    show ?thesis unfolding s
      by (subst spec_line [OF l(2) field_line_nonempty], subst scan_data, use assms(3) in simp, subst spec_line [OF l(1), simplified])
        (simp add: c spec_blank finish_event_def core_def)
  qed
qed

lemma comment_data_lost:
  assumes "one_line v" "one_line d" "length v + length d + 2 \<le> m" "[] \<notin> set chunks" "short_lines m (concat chunks)"
    and "concat chunks = (CHR '':'' # v) @ [newline] @ ''data: '' @ d @ [newline, newline] \<or>
         concat chunks = ''data: '' @ d @ [newline] @ (CHR '':'' # v) @ [newline, newline]"
  shows "\<exists>rs. scan_all (NewScanner chunks IoEOF bufSize (int m)) = (rs, Some (ReadError IoEOF)) \<and> map core rs = [(True, CHR '':'' # v)]"
proof -
  let ?s = "NewScanner chunks IoEOF bufSize (int m)"
  have m: "0 < m" using assms(3) by simp
  note n = NewScanner_ok [OF assms(4) m assms(5), of bufSize]
  have "\<exists>e. spec_next m (concat chunks) (no_event [], []) False = (Some e, None, []) \<and> core e = (True, CHR '':'' # v)"
    by (rule spec_comment_data [OF assms(1,2,3)]) (use assms(6) in \<open>auto simp: field_line_def fieldData_def\<close>)
  then obtain e where e: "spec_next m (concat chunks) (no_event [], []) False = (Some e, None, [])" "core e = (True, CHR '':'' # v)"
    by blast
  then obtain s' x where s': "scan_all ?s = (x # fst (scan_all s'), snd (scan_all s'))" "core x = core e" "scanner_ok s'" "sc_err s' = None"
      "stream_of (sc_reader s') = []"
    using scan_all_step [of ?s e "[]"] n by auto
  then show ?thesis using scan_all_end [OF s'(3,4,5)] e(2) by simp
qed

text \<open>A comment inside an event swallows the event: when a keep-alive line stands before or after
  the data line of the same event, which the format allows and tells a reader to ignore, the
  scanner reports a comment, and the data are dropped without an error.\<close>

theorem comment_swallows_data:
  assumes "one_line v" "one_line d" "length v + length d + 2 \<le> m" "[] \<notin> set chunks" "short_lines m (concat chunks)"
    and "concat chunks = (CHR '':'' # v) @ [newline] @ ''data: '' @ d @ [newline, newline] \<or>
         concat chunks = ''data: '' @ d @ [newline] @ (CHR '':'' # v) @ [newline, newline]"
  shows "\<exists>rs. scan_all (NewScanner chunks IoEOF bufSize (int m)) = (rs, Some (ReadError IoEOF)) \<and>
    map (\<lambda>e. (ev_Comment e, ev_Data e)) rs = [(True, CHR '':'' # v)]"
  using comment_data_lost [OF assms, of bufSize] by (simp add: core_def [abs_def])

theorem comment_swallows_data_witness:
  "\<exists>rs. scan_all (NewScanner ['':ping'' @ [newline], ''data: the answer'' @ [newline, newline]] IoEOF 0 64) = (rs, Some (ReadError IoEOF)) \<and>
     map (\<lambda>e. (ev_Comment e, ev_Data e)) rs = [(True, '':ping'')]"
proof -
  have o: "one_line ''ping''" "one_line ''the answer''" by (simp_all add: one_line_def newline_def creturn_def)
  have l: "length ''ping'' + length ''the answer'' + 2 \<le> (64::nat)" by simp
  have s: "short_lines 64 (concat ['':ping'' @ [newline], ''data: the answer'' @ [newline, newline]])"
    by (rule short_linesI) simp
  have c: "[] \<notin> set ['':ping'' @ [newline], ''data: the answer'' @ [newline, newline]]"
    "concat ['':ping'' @ [newline], ''data: the answer'' @ [newline, newline]] =
       (CHR '':'' # ''ping'') @ [newline] @ ''data: '' @ ''the answer'' @ [newline, newline] \<or>
     concat ['':ping'' @ [newline], ''data: the answer'' @ [newline, newline]] =
       ''data: '' @ ''the answer'' @ [newline] @ (CHR '':'' # ''ping'') @ [newline, newline]"
    by simp_all
  from comment_swallows_data [OF o l c(1) s c(2), of 0] show ?thesis by simp
qed

text \<open>
  The name of an event is a slice of the buffer: when the network cuts the stream after its line,
  the next read moves the buffer and writes the data line over the name.
\<close>

lemma ReadSlice_chunk:
  assumes "bf_r b = bf_w b" "bf_err b = None" "bf_chunks b = c # cs" "c = x @ newline # y" "newline \<notin> set x"
    and "length c \<le> length (bf_buf b)" "bf_w b \<le> length (bf_buf b)"
  shows "ReadSlice b = (InBuf 0 (Suc (length x)), None,
    b\<lparr>bf_buf := c @ drop (length c) (bf_buf b), bf_r := Suc (length x), bf_w := length c, bf_chunks := cs\<rparr>)"
proof -
  have c: "0 < length c" using assms(4) by simp
  have w: "unread b = []" using assms(1) by (simp add: unread_def)
  have nf: "\<not> (bf_w b - bf_r b \<ge> length (bf_buf b) \<and> bf_buf b \<noteq> [])" using assms(1) by simp
  have sl: "slide b = b\<lparr>bf_w := 0, bf_r := 0\<rparr>" using assms(1) w by (cases "bf_r b") (simp_all add: slide_def)
  have rm: "room (slide b) c = length c" using assms(6) unfolding sl by (simp add: room_def)
  have "fill b = store_chunk (length c) c cs (slide b)"
    using c rm assms(3) by (simp add: fill_def eval_nat_numeral)
  then have f: "fill b = b\<lparr>bf_buf := c @ drop (length c) (bf_buf b), bf_r := 0, bf_w := length c, bf_chunks := cs\<rparr>"
    unfolding sl by (simp add: store_chunk_def)
  have "index_byte c newline = Some (length x)" unfolding assms(4) using assms(5) by (induction x) auto
  moreover have "unread (fill b) = c" unfolding f by (simp add: unread_def)
  ultimately have "read_slice 0 (fill b) = (InBuf 0 (Suc (length x)), None, (fill b)\<lparr>bf_r := Suc (length x)\<rparr>)"
    by (subst read_slice.simps) (simp add: f)
  moreover have "ReadSlice b = read_slice 0 (fill b)"
    unfolding ReadSlice_def by (subst read_slice.simps) (use w nf assms(1,2) in simp)
  ultimately show ?thesis unfolding f by simp
qed

lemma ReadSlice_buffered_line:
  assumes "unread b = x @ newline # y" "newline \<notin> set x"
  shows "ReadSlice b = (InBuf (bf_r b) (Suc (length x)), None, b\<lparr>bf_r := bf_r b + Suc (length x)\<rparr>)"
proof -
  have "index_byte (unread b) newline = Some (length x)" unfolding assms(1) using assms(2) by (induction x) auto
  then show ?thesis unfolding ReadSlice_def by (subst read_slice.simps) simp
qed

lemma eol_len_line: "one_line v \<Longrightarrow> eol_len (v @ [newline]) = length v"
proof -
  assume v: "one_line v"
  have "\<not> has_suffix v [creturn]" using v by (auto simp: has_suffix_iff one_line_def)
  then show ?thesis by (simp add: eol_len_def has_suffix_iff)
qed

lemma name_overwritten:
  assumes "one_line n" "one_line d" "length n < length d" "length d + 8 \<le> bufSize" "16 \<le> bufSize" "length d \<le> m"
  defines "s \<equiv> NewScanner [''event: '' @ n @ [newline], ''data: '' @ d @ [newline, newline]] IoEOF (int bufSize) (int m)"
  shows "\<exists>s'. scanner_Next s = (True, s') \<and> ev_Event (scanner_Event s') = take (length n) (drop 1 d) \<and> ev_Data (scanner_Event s') = d"
proof -
  let ?c1 = "''event: '' @ n @ [newline]" and ?c2 = "''data: '' @ d @ [newline, newline]"
  let ?s = "s\<lparr>sc_event := no_event (Owned []), sc_dataBuf := []\<rparr>"
  let ?Z = "replicate bufSize (CHR 0x00)"
  have m: "0 < m" using assms(3,6) by simp
  define b0 where "b0 = sc_reader s"
  have b0: "b0 = \<lparr>bf_buf = ?Z, bf_r = 0, bf_w = 0, bf_err = None, bf_chunks = [?c1, ?c2], bf_end = IoEOF\<rparr>"
    using assms(5) by (simp add: b0_def s_def NewScanner_def Let_def max_def)
  have st: "sc_err s = None" "sc_maxSize s = m" using m by (simp_all add: s_def NewScanner_def Let_def)
  define b1 where "b1 = b0\<lparr>bf_buf := ?c1 @ drop (length ?c1) ?Z, bf_r := length ?c1, bf_w := length ?c1, bf_chunks := [?c2]\<rparr>"
  have e1: "one_line (''event: '' @ n)" using assms(1) by (simp add: one_line_def newline_def creturn_def)
  have r1: "ReadSlice b0 = (InBuf 0 (length ?c1), None, b1)"
    using ReadSlice_chunk [of b0 ?c1 "[?c2]" "''event: '' @ n" "[]"] e1 assms(3,4) unfolding b1_def b0 by (simp add: one_line_def)
  have v1: "slice_val b1 (InBuf 0 (length ?c1)) = ?c1" by (simp add: b1_def)
  have "eol_len ?c1 = length (''event: '' @ n)" using eol_len_line [OF e1] by simp
  then have "trimEOL b1 (InBuf 0 (length ?c1)) = InBuf 0 (7 + length n)" unfolding trimEOL_def v1 by simp
  then have l1: "readLine m b0 = (InBuf 0 (7 + length n), None, b1)" using r1 by (simp add: readLine_def)
  have v1': "slice_val b1 (InBuf 0 (7 + length n)) = field_line fieldEvent n"
    by (simp add: b1_def field_line_def fieldEvent_def numeral_eq_Suc)
  define ev where "ev = (no_event (Owned []))\<lparr>ev_Event := InBuf 7 (length n)\<rparr>"
  have sc1: "scan_line m (\<lambda>off. slice_from off (InBuf 0 (7 + length n))) (field_line fieldEvent n) (no_event (Owned []), []) = Inr (ev, [])"
    by (simp add: scan_line_def field_line_def value_from_def field_names ev_def)
  have n1: "next_loop ?s False = next_loop (s\<lparr>sc_reader := b1, sc_event := ev, sc_dataBuf := []\<rparr>) True"
    using l1 v1' sc1 st b0_def by (subst next_loop.simps) (simp add: Let_def)
  define b2 where "b2 = b1\<lparr>bf_buf := ?c2 @ drop (length ?c2) (bf_buf b1), bf_r := 7 + length d, bf_w := length ?c2, bf_chunks := []\<rparr>"
  have e2: "one_line (''data: '' @ d)" using assms(2) by (simp add: one_line_def newline_def creturn_def)
  have lb: "length (bf_buf b1) = bufSize" using assms(3,4) by (simp add: b1_def)
  have r2: "ReadSlice b1 = (InBuf 0 (7 + length d), None, b2)"
    using ReadSlice_chunk [of b1 ?c2 "[]" "''data: '' @ d" "[newline]"] e2 assms(3,4) lb unfolding b2_def
    by (simp add: b1_def b0 one_line_def)
  have v2: "slice_val b2 (InBuf 0 (7 + length d)) = (''data: '' @ d) @ [newline]" by (simp add: b2_def numeral_eq_Suc)
  have "trimEOL b2 (InBuf 0 (7 + length d)) = InBuf 0 (6 + length d)" unfolding trimEOL_def v2 eol_len_line [OF e2] by simp
  then have l2: "readLine m b1 = (InBuf 0 (6 + length d), None, b2)" using r2 by (simp add: readLine_def)
  have v2': "slice_val b2 (InBuf 0 (6 + length d)) = field_line fieldData d" by (simp add: b2_def field_line_def fieldData_def numeral_eq_Suc)
  have sc2: "scan_line m (\<lambda>off. slice_from off (InBuf 0 (6 + length d))) (field_line fieldData d) (ev, []) = Inr (ev, d)"
    unfolding scan_data using assms(6) by simp
  have n2: "next_loop (s\<lparr>sc_reader := b1, sc_event := ev, sc_dataBuf := []\<rparr>) True = next_loop (s\<lparr>sc_reader := b2, sc_event := ev, sc_dataBuf := d\<rparr>) True"
    using l2 v2' sc2 st by (subst next_loop.simps) (simp add: Let_def)
  define b3 where "b3 = b2\<lparr>bf_r := bf_r b2 + Suc 0\<rparr>"
  have rb: "bf_r b2 = 7 + length d" by (simp add: b2_def)
  have bb: "bf_buf b2 = ''data: '' @ d @ newline # newline # drop (length ?c2) (bf_buf b1)" "bf_w b2 = 8 + length d"
    by (simp_all add: b2_def)
  have db: "drop (7 + length d) (bf_buf b2) = newline # drop (length ?c2) (bf_buf b1)"
    unfolding bb by (simp add: numeral_eq_Suc)
  have "unread b2 = [] @ newline # []" unfolding unread_def rb db bb(2) by simp
  then have r3: "ReadSlice b2 = (InBuf (7 + length d) 1, None, b3)"
    using ReadSlice_buffered_line [of b2 "[]" "[]"] by (simp add: b3_def rb)
  have v3: "slice_val b3 (InBuf (7 + length d) 1) = [newline]" using db by (simp add: b3_def)
  have "eol_len [newline] = 0" using eol_len_line [of "[]"] by (simp add: one_line_def)
  then have "trimEOL b3 (InBuf (7 + length d) 1) = InBuf (7 + length d) 0" unfolding trimEOL_def v3 by simp
  then have l3: "readLine m b2 = (InBuf (7 + length d) 0, None, b3)" using r3 by (simp add: readLine_def)
  let ?s' = "s\<lparr>sc_reader := b3, sc_event := finish_event (ev, d), sc_dataBuf := d\<rparr>"
  have n3: "next_loop (s\<lparr>sc_reader := b2, sc_event := ev, sc_dataBuf := d\<rparr>) True = (True, ?s')"
    using l3 st by (subst next_loop.simps) (simp add: Let_def)
  have "scanner_Next s = (True, ?s')" using n1 n2 n3 st by (simp add: scanner_Next_def)
  moreover have "ev_Data (scanner_Event ?s') = d"
    by (simp add: scanner_Event_def Let_def finish_event_def ev_def no_event_def)
  moreover have "ev_Event (scanner_Event ?s') = take (length n) (drop 1 d)"
    using assms(3) by (simp add: scanner_Event_def Let_def finish_event_def ev_def no_event_def b3_def b2_def)
  ultimately show ?thesis by blast
qed

text \<open>
  C33: The name of an event is overwritten by its data: it is a slice of the read buffer, and when
  the network cuts the stream after the line of the name, the next read slides the buffer and puts
  the data line over it. For every name and every longer datum, and every size of the buffer, what
  the gateway sends on as the name is then a part of the data.
\<close>

theorem event_name_overwritten:
  assumes "one_line n" "one_line d" "length n < length d" "length d + 8 \<le> bufSize" "16 \<le> bufSize" "length d \<le> m"
  shows "\<exists>s' rs err. scanner_Next (NewScanner [''event: '' @ n @ [newline], ''data: '' @ d @ [newline, newline]] IoEOF (int bufSize) (int m)) = (True, s') \<and>
    scan_all (NewScanner [''event: '' @ n @ [newline], ''data: '' @ d @ [newline, newline]] IoEOF (int bufSize) (int m)) = (scanner_Event s' # rs, err) \<and>
    ev_Event (scanner_Event s') = take (length n) (drop 1 d) \<and> ev_Data (scanner_Event s') = d"
proof -
  obtain s' where s': "scanner_Next (NewScanner [''event: '' @ n @ [newline], ''data: '' @ d @ [newline, newline]] IoEOF (int bufSize) (int m)) = (True, s')"
    "ev_Event (scanner_Event s') = take (length n) (drop 1 d)" "ev_Data (scanner_Event s') = d"
    using name_overwritten [OF assms] by blast
  then show ?thesis by (subst scan_all.simps) (simp add: case_prod_beta Let_def)
qed

theorem event_name_overwritten_witness:
  "\<exists>s'. scanner_Next (NewScanner [''event: '' @ ''delta'' @ [newline], ''data: '' @ ''x-message'' @ [newline, newline]] IoEOF (int 32768) (int 1048576)) = (True, s') \<and>
     ev_Event (scanner_Event s') = ''-mess''"
proof -
  have o: "one_line ''delta''" "one_line ''x-message''" by (simp_all add: one_line_def newline_def creturn_def)
  have l: "length ''delta'' < length ''x-message''" "length ''x-message'' + 8 \<le> 32768" "(16::nat) \<le> 32768" "length ''x-message'' \<le> 1048576"
    by simp_all
  from event_name_overwritten [OF o l] show ?thesis by auto
qed

end
