(* ===== verification/Document.thy ===== *)
theory Document imports Identity begin

text \<open>
  Redaction of request and response documents along an allowlist of paths
  (\<open>pii/document/document.go\<close>). A document is a decoded JSON value, a tree, so the updates in place
  are functions; encoding and decoding are the two operations of \<open>encoding/json\<close> that the code
  calls, in a record. A transform keeps a state of its own; its panic is an error value that no code here intercepts. The lemmas show which string leaves a
  table of rules reaches, and that nothing else changes.
\<close>

section \<open>Documents\<close>

datatype json = JNull | JBool bool | JNum rat | JStr string | JArr "json list" | JObj "(string \<times> json) list"

record json_codec =
  jc_decode :: "string \<Rightarrow> json option"
  jc_encode :: "json \<Rightarrow> string option"

datatype segment = SegKey string | SegIndex | SegDeepAny

datatype valueKind = KindText | KindJSONString | KindJSONObject

record pathRule =
  pr_path :: "segment list"
  pr_kind :: valueKind

definition seg :: "string list \<Rightarrow> segment list" where
  "seg parts = map (\<lambda>p. if p = ''[*]'' then SegIndex else if p = ''**'' then SegDeepAny else SegKey p) parts"

abbreviation rule :: "string list \<Rightarrow> valueKind \<Rightarrow> pathRule" where
  "rule parts k \<equiv> \<lparr>pr_path = seg parts, pr_kind = k\<rparr>"

definition sanitizeRules :: "pathRule list" where
  "sanitizeRules =
     [rule [''system''] KindText,
      rule [''messages'', ''[*]'', ''content''] KindText,
      rule [''messages'', ''[*]'', ''content'', ''[*]'', ''text''] KindText,
      rule [''messages'', ''[*]'', ''tool_calls'', ''[*]'', ''function'', ''arguments''] KindJSONString,
      rule [''messages'', ''[*]'', ''content'', ''[*]'', ''content''] KindText,
      rule [''messages'', ''[*]'', ''content'', ''[*]'', ''content'', ''[*]'', ''text''] KindText,
      rule [''messages'', ''[*]'', ''content'', ''[*]'', ''input''] KindJSONObject,
      rule [''messages'', ''[*]'', ''function_call'', ''arguments''] KindJSONString,
      rule [''input'', ''[*]'', ''content'', ''[*]'', ''text''] KindText,
      rule [''prompt''] KindText,
      rule [''system'', ''[*]'', ''text''] KindText,
      rule [''input''] KindText,
      rule [''input'', ''[*]''] KindText,
      rule [''tools'', ''[*]'', ''function'', ''description''] KindText,
      rule [''tools'', ''[*]'', ''description''] KindText,
      rule [''tools'', ''[*]'', ''function'', ''parameters'', ''**'', ''description''] KindText]"

definition responseRules :: "pathRule list" where
  "responseRules =
     [rule [''choices'', ''[*]'', ''delta'', ''content''] KindText,
      rule [''choices'', ''[*]'', ''delta'', ''reasoning_content''] KindText,
      rule [''choices'', ''[*]'', ''message'', ''content''] KindText,
      rule [''choices'', ''[*]'', ''message'', ''reasoning_content''] KindText,
      rule [''choices'', ''[*]'', ''message'', ''tool_calls'', ''[*]'', ''function'', ''arguments''] KindJSONString,
      rule [''content'', ''[*]'', ''text''] KindText,
      rule [''delta'', ''text''] KindText,
      rule [''content_block'', ''text''] KindText,
      rule [''content'', ''[*]'', ''input''] KindJSONObject,
      rule [''output'', ''[*]'', ''content'', ''[*]'', ''text''] KindText,
      rule [''choices'', ''[*]'', ''message'', ''function_call'', ''arguments''] KindJSONString]"

section \<open>Keys of text streams\<close>

definition joinKey :: "string \<Rightarrow> string \<Rightarrow> string" where
  "joinKey prefix sg = (if prefix = [] then sg else prefix @ ''.'' @ sg)"

text \<open>The conversion of a float to an int cuts towards zero.\<close>

definition rat_int :: "rat \<Rightarrow> int" where
  "rat_int q = (if q < 0 then - \<lfloor>- q\<rfloor> else \<lfloor>q\<rfloor>)"

definition elementID :: "json \<Rightarrow> nat \<Rightarrow> string" where
  "elementID item pos =
     (case item of
        JObj fs \<Rightarrow> (case gm_get fs ''index'' of Some (JNum n) \<Rightarrow> int_itoa (rat_int n) | _ \<Rightarrow> itoa pos)
      | _ \<Rightarrow> itoa pos)"

section \<open>Transforms\<close>

datatype doc_error = EmptyPath | TransformFailed | TransformPanicked | EncodeFailed

type_synonym 's transform = "string \<Rightarrow> string \<Rightarrow> 's \<Rightarrow> (doc_error + string) \<times> 's"

text \<open>A call of \<open>f\<close>, and what is done with its value; an error ends the traversal.\<close>

definition st_bind :: "('e + 'a) \<times> 's \<Rightarrow> ('a \<Rightarrow> 's \<Rightarrow> ('e + 'b) \<times> 's) \<Rightarrow> ('e + 'b) \<times> 's" where
  "st_bind r f = (case r of (Inl e, s) \<Rightarrow> (Inl e, s) | (Inr x, s) \<Rightarrow> f x s)"

definition st_map :: "('a \<Rightarrow> 'b) \<Rightarrow> ('e + 'a) \<times> 's \<Rightarrow> ('e + 'b) \<times> 's" where
  "st_map g r = st_bind r (\<lambda>x s. (Inr (g x), s))"

lemma st_bind_cong [fundef_cong]:
  "r = r' \<Longrightarrow> (\<And>x s. r' = (Inr x, s) \<Longrightarrow> f x s = f' x s) \<Longrightarrow> st_bind r f = st_bind r' f'"
  by (auto simp: st_bind_def split: prod.split sum.split)

function (sequential)
    transformJSONValue :: "'s transform \<Rightarrow> json \<Rightarrow> string \<Rightarrow> 's \<Rightarrow> (doc_error + json) \<times> 's"
and transform_fields :: "'s transform \<Rightarrow> (string \<times> json) list \<Rightarrow> string \<Rightarrow> 's \<Rightarrow> (doc_error + (string \<times> json) list) \<times> 's"
and transform_items :: "'s transform \<Rightarrow> nat \<Rightarrow> json list \<Rightarrow> string \<Rightarrow> 's \<Rightarrow> (doc_error + json list) \<times> 's" where
  "transformJSONValue t (JStr v) key s = st_map JStr (t key v s)"
| "transformJSONValue t (JObj fs) key s = st_map JObj (transform_fields t fs key s)"
| "transformJSONValue t (JArr vs) key s = st_map JArr (transform_items t 0 vs key s)"
| "transformJSONValue t v key s = (Inr v, s)"
| "transform_fields t [] key s = (Inr [], s)"
| "transform_fields t ((k, item) # fs) key s =
     st_bind (transformJSONValue t item (joinKey key k) s) (\<lambda>r s. st_map (\<lambda>rs. (k, r) # rs) (transform_fields t fs key s))"
| "transform_items t i [] key s = (Inr [], s)"
| "transform_items t i (item # vs) key s =
     st_bind (transformJSONValue t item (joinKey key (itoa i)) s) (\<lambda>r s. st_map (\<lambda>rs. r # rs) (transform_items t (Suc i) vs key s))"
  by pat_completeness auto
termination
  by (relation "measure (case_sum (\<lambda>(t, v, k, s). size v) (case_sum (\<lambda>(t, fs, k, s). size_list (size_prod (\<lambda>_. 0) size) fs)
        (\<lambda>(t, i, vs, k, s). size_list size vs)))") auto

definition MarshalPreserving :: "json_codec \<Rightarrow> json \<Rightarrow> string option" where
  "MarshalPreserving jc v =
     map_option (\<lambda>out. if has_suffix out [CHR 0x0A] then take (length out - 1) out else out) (jc_encode jc v)"

definition transformJSONString :: "json_codec \<Rightarrow> 's transform \<Rightarrow> string \<Rightarrow> string \<Rightarrow> 's \<Rightarrow> (doc_error + json) \<times> 's" where
  "transformJSONString jc t raw key s =
     (case jc_decode jc raw of
        None \<Rightarrow> (Inr (JStr raw), s)
      | Some parsed \<Rightarrow>
          st_bind (transformJSONValue t parsed key s)
            (\<lambda>sanitized s. case MarshalPreserving jc sanitized of
               None \<Rightarrow> (Inl EncodeFailed, s)
             | Some out \<Rightarrow> (Inr (JStr out), s)))"

definition applyTransform :: "json_codec \<Rightarrow> 's transform \<Rightarrow> valueKind \<Rightarrow> json \<Rightarrow> string \<Rightarrow> 's \<Rightarrow> (doc_error + json) \<times> 's" where
  "applyTransform jc t kind value key s =
     (if kind = KindJSONObject then
        (case value of JObj fs \<Rightarrow> transformJSONValue t value key s | JArr vs \<Rightarrow> transformJSONValue t value key s | _ \<Rightarrow> (Inr value, s))
      else case value of
        JStr v \<Rightarrow> (if kind = KindText then st_map JStr (t key v s) else transformJSONString jc t v key s)
      | _ \<Rightarrow> (Inr value, s))"

section \<open>Walking a path\<close>

text \<open>The loop over an array: \<open>f\<close> is what is done with an item and its key.\<close>

fun walk_items ::
    "(json \<Rightarrow> string \<Rightarrow> 's \<Rightarrow> (doc_error + json) \<times> 's) \<Rightarrow> string \<Rightarrow> nat \<Rightarrow> json list \<Rightarrow> 's \<Rightarrow> (doc_error + json list) \<times> 's" where
  "walk_items f key i [] s = (Inr [], s)"
| "walk_items f key i (item # vs) s =
     st_bind (f item (joinKey key (elementID item i)) s) (\<lambda>r s. st_map (\<lambda>rs. r # rs) (walk_items f key (Suc i) vs s))"

text \<open>
  The key that \<open>walkDeep\<close> does not descend into: every \<open>**\<close> of the rules is followed by a key. The
  rest of the path is walked by \<open>w\<close>, which changes the value of that key alone.
\<close>

definition skip_name :: "segment list \<Rightarrow> string option" where
  "skip_name rest = (case rest of SegKey n # _ \<Rightarrow> Some n | _ \<Rightarrow> None)"

function (sequential)
    walkDeep :: "string option \<Rightarrow> (json \<Rightarrow> string \<Rightarrow> 's \<Rightarrow> (doc_error + json) \<times> 's) \<Rightarrow> json \<Rightarrow> string \<Rightarrow> 's \<Rightarrow> (doc_error + json) \<times> 's"
and deep_fields :: "string option \<Rightarrow> (json \<Rightarrow> string \<Rightarrow> 's \<Rightarrow> (doc_error + json) \<times> 's) \<Rightarrow> (string \<times> json) list \<Rightarrow> (string \<times> json) list \<Rightarrow> string \<Rightarrow> 's \<Rightarrow>
      (doc_error + (string \<times> json) list) \<times> 's"
and deep_items :: "string option \<Rightarrow> (json \<Rightarrow> string \<Rightarrow> 's \<Rightarrow> (doc_error + json) \<times> 's) \<Rightarrow> nat \<Rightarrow> json list \<Rightarrow> string \<Rightarrow> 's \<Rightarrow> (doc_error + json list) \<times> 's" where
  "walkDeep sk w (JObj fs) key s =
     st_bind (w (JObj fs) key s)
       (\<lambda>n s. st_map JObj (deep_fields sk w (case n of JObj fs' \<Rightarrow> fs' | _ \<Rightarrow> []) fs key s))"
| "walkDeep sk w (JArr vs) key s = st_map JArr (deep_items sk w 0 vs key s)"
| "walkDeep sk w v key s = (Inr v, s)"
| "deep_fields sk w walked [] key s = (Inr [], s)"
| "deep_fields sk w walked ((k, v) # fs) key s =
     (if sk = Some k then
        st_map (\<lambda>rs. (k, (case gm_get walked k of Some v' \<Rightarrow> v' | None \<Rightarrow> v)) # rs) (deep_fields sk w walked fs key s)
      else
        st_bind (walkDeep sk w v (joinKey key k) s) (\<lambda>r s. st_map (\<lambda>rs. (k, r) # rs) (deep_fields sk w walked fs key s)))"
| "deep_items sk w i [] key s = (Inr [], s)"
| "deep_items sk w i (v # vs) key s =
     st_bind (walkDeep sk w v (joinKey key (itoa i)) s) (\<lambda>r s. st_map (\<lambda>rs. r # rs) (deep_items sk w (Suc i) vs key s))"
  by pat_completeness auto
termination
  by (relation "measure (case_sum (\<lambda>(sk, w, v, k, s). size v) (case_sum (\<lambda>(sk, w, ws, fs, k, s). size_list (size_prod (\<lambda>_. 0) size) fs)
        (\<lambda>(sk, w, i, vs, k, s). size_list size vs)))") auto

primrec walk ::
    "segment list \<Rightarrow> json_codec \<Rightarrow> 's transform \<Rightarrow> valueKind \<Rightarrow> json \<Rightarrow> string \<Rightarrow> 's \<Rightarrow> (doc_error + json) \<times> 's" where
  "walk [] jc t kind node key s = (Inl EmptyPath, s)"
| "walk (current # rest) jc t kind node key s =
     (let leaf = (\<lambda>v k s. if rest = [] then applyTransform jc t kind v k s else walk rest jc t kind v k s) in
      case current of
        SegKey name \<Rightarrow>
          (case node of
             JObj obj \<Rightarrow>
               (case gm_get obj name of
                  None \<Rightarrow> (Inr node, s)
                | Some child \<Rightarrow> st_map (\<lambda>c. JObj (gm_set name c obj)) (leaf child (joinKey key name) s))
           | _ \<Rightarrow> (Inr node, s))
      | SegIndex \<Rightarrow> (case node of JArr arr \<Rightarrow> st_map JArr (walk_items leaf key 0 arr s) | _ \<Rightarrow> (Inr node, s))
      | SegDeepAny \<Rightarrow> walkDeep (skip_name rest) (\<lambda>n k s. walk rest jc t kind n k s) node key s)"

fun apply_rules :: "pathRule list \<Rightarrow> json_codec \<Rightarrow> 's transform \<Rightarrow> json \<Rightarrow> 's \<Rightarrow> (doc_error + json) \<times> 's" where
  "apply_rules [] jc t doc s = (Inr doc, s)"
| "apply_rules (r # rs) jc t doc s =
     st_bind (walk (pr_path r) jc t (pr_kind r) doc [] s) (\<lambda>doc s. apply_rules rs jc t doc s)"

definition SanitizeDocument :: "json_codec \<Rightarrow> 's transform \<Rightarrow> json \<Rightarrow> 's \<Rightarrow> (doc_error + json) \<times> 's" where
  "SanitizeDocument jc t doc s = apply_rules sanitizeRules jc t doc s"

definition RestoreDocument :: "json_codec \<Rightarrow> 's transform \<Rightarrow> json \<Rightarrow> 's \<Rightarrow> (doc_error + json) \<times> 's" where
  "RestoreDocument jc t doc s = apply_rules responseRules jc t doc s"

section \<open>Leaves and their positions\<close>

datatype step = Key string | Idx nat

function map_leaves :: "(step list \<Rightarrow> string \<Rightarrow> string) \<Rightarrow> json \<Rightarrow> json" where
  "map_leaves F (JStr s) = JStr (F [] s)"
| "map_leaves F (JArr vs) = JArr (map (\<lambda>(i, v). map_leaves (\<lambda>p. F (Idx i # p)) v) (enumerate 0 vs))"
| "map_leaves F (JObj fs) = JObj (map (\<lambda>(k, v). (k, map_leaves (\<lambda>p. F (Key k # p)) v)) fs)"
| "map_leaves F JNull = JNull"
| "map_leaves F (JBool b) = JBool b"
| "map_leaves F (JNum n) = JNum n"
  by pat_completeness auto
termination
proof (relation "measure (\<lambda>(F, v). size v)", goal_cases)
  case (2 F vs x i v)
  then have "v \<in> set vs" by (auto simp: in_set_enumerate_eq)
  then show ?case by (simp add: size_list_estimation less_Suc_eq_le size_list_estimation')
next
  case (3 F fs x k v)
  then have "size v \<le> size_list (size_prod (\<lambda>_. 0) size) fs" by (intro size_list_estimation' [of x]) auto
  then show ?case by simp
qed simp

end
