(* ===== verification/DocFacts.thy ===== *)
theory DocFacts imports Document begin

text \<open>
  Which leaves of a document the tables of \<open>pii/document/document.go\<close> reach. The position of a
  string in a document is the list of steps that leads to it; a rule reaches a position when its
  path can be followed along it. The walks are then maps over the leaves: a listed leaf gets the
  answer of the transform, and every other leaf, every key and the shape stay.
\<close>

section \<open>Positions and rules\<close>

fun doc_wf :: "json \<Rightarrow> bool" where
  "doc_wf (JArr vs) = (\<forall>v \<in> set vs. doc_wf v)"
| "doc_wf (JObj fs) = (gm_wf fs \<and> (\<forall>f \<in> set fs. doc_wf (snd f)))"
| "doc_wf _ = True"

fun skip_to :: "string option \<Rightarrow> step list \<Rightarrow> step list option" where
  "skip_to sk [] = None"
| "skip_to sk (Key k # p) = (if sk = Some k then Some (Key k # p) else skip_to sk p)"
| "skip_to sk (Idx i # p) = skip_to sk p"

text \<open>What is left of a position once a path has been followed along it.\<close>

fun after :: "segment list \<Rightarrow> step list \<Rightarrow> step list option" where
  "after [] p = Some p"
| "after (SegKey n # r) (Key k # p) = (if k = n then after r p else None)"
| "after (SegIndex # r) (Idx i # p) = after r p"
| "after (SegDeepAny # r) p = Option.bind (skip_to (skip_name r) p) (after r)"
| "after (_ # r) p = None"

definition fits :: "valueKind \<Rightarrow> step list \<Rightarrow> bool" where
  "fits kind q \<longleftrightarrow> kind = KindJSONObject \<and> q \<noteq> [] \<or> kind \<noteq> KindJSONObject \<and> q = []"

definition reaches_leaf :: "pathRule \<Rightarrow> step list \<Rightarrow> bool" where
  "reaches_leaf r p \<longleftrightarrow> (case after (pr_path r) p of Some q \<Rightarrow> fits (pr_kind r) q | None \<Rightarrow> False)"

text \<open>A leaf that holds a JSON text of its own: its strings are transformed and it is written again.\<close>

definition json_text :: "json_codec \<Rightarrow> (string \<Rightarrow> string) \<Rightarrow> string \<Rightarrow> string" where
  "json_text jc f s =
     (case jc_decode jc s of None \<Rightarrow> s | Some v \<Rightarrow> the (MarshalPreserving jc (map_leaves (\<lambda>_. f) v)))"

definition leaf_value :: "json_codec \<Rightarrow> (string \<Rightarrow> string) \<Rightarrow> valueKind \<Rightarrow> string \<Rightarrow> string" where
  "leaf_value jc f kind s = (if kind = KindJSONString then json_text jc f s else f s)"

definition path_leaf :: "json_codec \<Rightarrow> (string \<Rightarrow> string) \<Rightarrow> segment list \<Rightarrow> valueKind \<Rightarrow> step list \<Rightarrow> string \<Rightarrow> string" where
  "path_leaf jc f path kind p s =
     (case after path p of Some q \<Rightarrow> if fits kind q then leaf_value jc f kind s else s | None \<Rightarrow> s)"

definition listed_leaf :: "json_codec \<Rightarrow> (string \<Rightarrow> string) \<Rightarrow> pathRule list \<Rightarrow> step list \<Rightarrow> string \<Rightarrow> string" where
  "listed_leaf jc f rules p s =
     (case filter (\<lambda>r. reaches_leaf r p) rules of [] \<Rightarrow> s | r # _ \<Rightarrow> leaf_value jc f (pr_kind r) s)"

text \<open>A transform whose answers do not depend on what it was asked before, and a codec that encodes every value.\<close>

definition answers :: "'s transform \<Rightarrow> (string \<Rightarrow> string) \<Rightarrow> bool" where
  "answers t f \<longleftrightarrow> (\<forall>k v s. fst (t k v s) = Inr (f v))"

definition encodes_all :: "json_codec \<Rightarrow> bool" where
  "encodes_all jc \<longleftrightarrow> (\<forall>v. jc_encode jc v \<noteq> None)"

section \<open>Maps over leaves\<close>

lemma map_enumerate_snd: "map (\<lambda>(i, v). g v) (enumerate n vs) = map g vs"
  by (induction vs arbitrary: n) simp_all

lemma map_leaves_same: "map_leaves (\<lambda>p s. s) v = v"
proof (induction v)
  case (JArr vs)
  then show ?case by (simp add: map_enumerate_snd [of "map_leaves (\<lambda>p s. s)"] map_idI)
next
  case (JObj fs)
  have "(\<lambda>(k, v). (k, map_leaves (\<lambda>p s. s) v)) x = x" if "x \<in> set fs" for x using JObj that by (cases x) auto
  then show ?case by (simp add: map_idI)
qed simp_all

lemma map_leaves_items: "map (map_leaves (\<lambda>p s. s)) vs = vs" "map_leaves (\<lambda>p s. s) = (\<lambda>v. v)"
  by (simp_all add: map_leaves_same fun_eq_iff map_idI)

lemma enumerate_map: "enumerate n (map (\<lambda>(i, v). h i v) (enumerate n vs)) = map (\<lambda>(i, v). (i, h i v)) (enumerate n vs)"
  by (induction vs arbitrary: n) simp_all

lemma enumerate_mem: "(i, v) \<in> set (enumerate n vs) \<Longrightarrow> v \<in> set vs"
  by (auto simp: in_set_enumerate_eq)

lemma map_leaves_comp: "map_leaves G (map_leaves F v) = map_leaves (\<lambda>p s. G p (F p s)) v"
proof (induction v arbitrary: F G)
  case (JArr vs)
  then have "map_leaves G' (map_leaves F' v) = map_leaves (\<lambda>p s. G' p (F' p s)) v" if "(i, v) \<in> set (enumerate 0 vs)" for i v F' G'
    using enumerate_mem [OF that] by blast
  then show ?case by (auto simp: enumerate_map)
next
  case (JObj fs)
  then have "map_leaves G' (map_leaves F' v) = map_leaves (\<lambda>p s. G' p (F' p s)) v" if "(k, v) \<in> set fs" for k v F' G'
    using that by (metis prod_set_simps(2) singletonI snd_conv)
  then show ?case by auto
qed simp_all

lemma doc_wf_map: "doc_wf v \<Longrightarrow> doc_wf (map_leaves F v)"
proof (induction v arbitrary: F)
  case (JArr vs)
  then show ?case by (auto dest: enumerate_mem)
next
  case (JObj fs)
  have "doc_wf (map_leaves F' v)" if "(k, v) \<in> set fs" for k v F'
  proof -
    have "v \<in> Basic_BNFs.snds (k, v)" by simp
    from JObj(1) [OF that this] show ?thesis using JObj(2) that by force
  qed
  moreover have "map (fst \<circ> (\<lambda>(k, v). (k, map_leaves (\<lambda>p. F (Key k # p)) v))) fs = map fst fs" by auto
  ultimately show ?case using JObj(2) by (auto simp: gm_wf_def simp del: map_eq_conv)
qed simp_all

section \<open>One rule\<close>

lemma fst_bind: "fst r = Inr x \<Longrightarrow> (\<And>s. r = (Inr x, s) \<Longrightarrow> fst (f x s) = Inr y) \<Longrightarrow> fst (st_bind r f) = Inr y"
  by (cases r) (auto simp: st_bind_def)

lemma fst_map: "fst r = Inr x \<Longrightarrow> y = g x \<Longrightarrow> fst (st_map g r) = Inr y"
  by (simp add: st_map_def fst_bind)

lemma answers_fst: "answers t f \<Longrightarrow> fst (t k v s) = Inr (f v)"
  by (simp add: answers_def)

lemma transform_value:
  "answers t f \<Longrightarrow> fst (transformJSONValue t v key s) = Inr (map_leaves (\<lambda>_. f) v)"
  "answers t f \<Longrightarrow> fst (transform_fields t fs key s) = Inr (map (\<lambda>(k, v). (k, map_leaves (\<lambda>_. f) v)) fs)"
  "answers t f \<Longrightarrow> fst (transform_items t i vs key s) = Inr (map (map_leaves (\<lambda>_. f)) vs)"
  by (induction t v key s and t fs key s and t i vs key s rule: transformJSONValue_transform_fields_transform_items.induct)
    (auto simp: map_enumerate_snd [of "map_leaves (\<lambda>_. f)"] intro!: fst_bind fst_map answers_fst)

lemma json_text_value:
  assumes "answers t f" "encodes_all jc"
  shows "fst (transformJSONString jc t raw key s) = Inr (JStr (json_text jc f raw))"
proof (cases "jc_decode jc raw")
  case None
  then show ?thesis by (simp add: transformJSONString_def json_text_def)
next
  case (Some v)
  obtain out where "MarshalPreserving jc (map_leaves (\<lambda>_. f) v) = Some out"
    using assms(2) by (fastforce simp: encodes_all_def MarshalPreserving_def)
  then show ?thesis using Some
    by (auto simp: transformJSONString_def json_text_def intro!: fst_bind transform_value(1) [OF assms(1)])
qed

lemma map_leaves_all: "\<forall>s. v \<noteq> JStr s \<Longrightarrow> (\<And>st p. F (st # p) = g) \<Longrightarrow> map_leaves F v = map_leaves (\<lambda>_. g) v"
  by (cases v) simp_all

lemma map_leaves_plain: "\<forall>s. v \<noteq> JStr s \<Longrightarrow> (\<And>st p. F (st # p) = (\<lambda>s. s)) \<Longrightarrow> map_leaves F v = v"
  using map_leaves_all [of v F "\<lambda>s. s"] by (simp add: map_leaves_same)

lemma path_leaf_nil: "path_leaf jc f [] kind p s = (if fits kind p then leaf_value jc f kind s else s)"
  by (simp add: path_leaf_def)

lemma apply_object:
  assumes "answers t f" "\<forall>s. v \<noteq> JStr s"
  shows "fst (transformJSONValue t v key s) = Inr (map_leaves (path_leaf jc f [] KindJSONObject) v)"
proof -
  have "path_leaf jc f [] KindJSONObject (st # p) = f" for st p
    by (rule ext) (simp add: path_leaf_nil fits_def leaf_value_def)
  then show ?thesis using map_leaves_all [OF assms(2), of "path_leaf jc f [] KindJSONObject" f]
    by (simp add: transform_value(1) [OF assms(1)])
qed

lemma apply_value:
  assumes "answers t f" "encodes_all jc"
  shows "fst (applyTransform jc t kind v key s) = Inr (map_leaves (path_leaf jc f [] kind) v)"
proof (cases "kind = KindJSONObject")
  case True
  then show ?thesis using apply_object [OF assms(1), of v key s jc]
    by (cases v) (simp_all add: applyTransform_def path_leaf_nil fits_def)
next
  case False
  have stay: "path_leaf jc f [] kind (st # p) = (\<lambda>s. s)" for st p
    by (rule ext) (use False in \<open>simp add: path_leaf_nil fits_def\<close>)
  show ?thesis
  proof (cases v)
    case (JStr x)
    have "fst (transformJSONString jc t x key s) = Inr (JStr (json_text jc f x))" by (rule json_text_value [OF assms])
    then show ?thesis using False JStr
      by (cases kind) (auto simp: applyTransform_def path_leaf_nil fits_def leaf_value_def intro!: fst_map answers_fst [OF assms(1)])
  next
    case (JArr vs)
    then show ?thesis using False map_leaves_plain [of v "path_leaf jc f [] kind"] stay by (simp add: applyTransform_def)
  next
    case (JObj fs)
    then show ?thesis using False map_leaves_plain [of v "path_leaf jc f [] kind"] stay by (simp add: applyTransform_def)
  qed (simp_all add: applyTransform_def False)
qed

lemma items_value:
  assumes "\<And>i v k s. (i, v) \<in> set (enumerate n vs) \<Longrightarrow> fst (g v k s) = Inr (h i v)"
  shows "fst (walk_items g key n vs s) = Inr (map (\<lambda>(i, v). h i v) (enumerate n vs))"
  using assms
proof (induction vs arbitrary: n s)
  case (Cons v vs)
  have 1: "fst (g v k s) = Inr (h n v)" for k s using Cons(2) [of n v] by simp
  have 2: "fst (walk_items g key (Suc n) vs s) = Inr (map (\<lambda>(i, v). h i v) (enumerate (Suc n) vs))" for s
    by (rule Cons(1)) (use Cons(2) in simp)
  show ?case by (auto intro!: fst_bind fst_map 1 2)
qed simp

definition deep_leaf :: "string \<Rightarrow> (step list \<Rightarrow> string \<Rightarrow> string) \<Rightarrow> step list \<Rightarrow> string \<Rightarrow> string" where
  "deep_leaf n G p s = (case skip_to (Some n) p of Some q \<Rightarrow> G q s | None \<Rightarrow> s)"

lemma deep_leaf_step:
  "(\<lambda>p. deep_leaf n G (Key k # p)) = (if k = n then \<lambda>p. G (Key k # p) else deep_leaf n G)"
  "(\<lambda>p. deep_leaf n G (Idx i # p)) = deep_leaf n G"
  "deep_leaf n G [] = (\<lambda>s. s)"
  by (auto simp: deep_leaf_def fun_eq_iff)

lemma deep_value:
  assumes "\<And>v k s. doc_wf v \<Longrightarrow> fst (w v k s) = Inr (map_leaves G v)" "\<And>k p s. k \<noteq> n \<Longrightarrow> G (Key k # p) s = s"
  shows "sk = Some n \<Longrightarrow> w' = w \<Longrightarrow> doc_wf v \<Longrightarrow> fst (walkDeep sk w' v key s) = Inr (map_leaves (deep_leaf n G) v)"
    and "sk = Some n \<Longrightarrow> w' = w \<Longrightarrow> \<forall>f \<in> set fs. doc_wf (snd f) \<and> (fst f = n \<longrightarrow> gm_get walked n = Some (map_leaves (\<lambda>p. G (Key n # p)) (snd f))) \<Longrightarrow>
      fst (deep_fields sk w' walked fs key s) = Inr (map (\<lambda>(k, v). (k, map_leaves (\<lambda>p. deep_leaf n G (Key k # p)) v)) fs)"
    and "sk = Some n \<Longrightarrow> w' = w \<Longrightarrow> \<forall>v \<in> set vs. doc_wf v \<Longrightarrow>
      fst (deep_items sk w' i vs key s) = Inr (map (map_leaves (deep_leaf n G)) vs)"
proof (induction sk w' v key s and sk w' walked fs key s and sk w' i vs key s rule: walkDeep_deep_fields_deep_items.induct)
  case (1 sk w' fs key s)
  have ok: "gm_wf fs" "\<forall>f \<in> set fs. doc_wf (snd f)" using 1 by auto
  have g: "gm_get (map (\<lambda>(k, v). (k, map_leaves (\<lambda>p. G (Key k # p)) v)) fs) n = Some (map_leaves (\<lambda>p. G (Key n # p)) (snd f))"
    if "f \<in> set fs" "fst f = n" for f
  proof -
    have "(n, map_leaves (\<lambda>p. G (Key n # p)) (snd f)) \<in> set (map (\<lambda>(k, v). (k, map_leaves (\<lambda>p. G (Key k # p)) v)) fs)"
      using that by (auto simp: image_iff intro!: bexI [of _ f] split: prod.split)
    moreover have "gm_wf (map (\<lambda>(k, v). (k, map_leaves (\<lambda>p. G (Key k # p)) v)) fs)"
      using doc_wf_map [of "JObj fs" G] 1(4) by simp
    ultimately show ?thesis using gm_get_in by fast
  qed
  have w: "fst (w' (JObj fs) key s) = Inr (map_leaves G (JObj fs))" using assms(1) [OF 1(4)] 1(3) by simp
  have f: "fst (deep_fields sk w' (map (\<lambda>(k, v). (k, map_leaves (\<lambda>p. G (Key k # p)) v)) fs) fs key s') =
      Inr (map (\<lambda>(k, v). (k, map_leaves (\<lambda>p. deep_leaf n G (Key k # p)) v)) fs)"
    if "w' (JObj fs) key s = (Inr (map_leaves G (JObj fs)), s')" for s'
    using 1(1) [OF that 1(2,3)] ok(2) g by simp
  show ?case unfolding walkDeep.simps
  proof (rule fst_bind [OF w], goal_cases)
    case (1 s')
    then show ?case using f [OF 1] by (auto intro: fst_map)
  qed
qed (auto simp: deep_leaf_step map_enumerate_snd [of "map_leaves (deep_leaf n G)"] map_leaves_same intro!: fst_bind fst_map)

definition deep_ok :: "segment list \<Rightarrow> bool" where
  "deep_ok path \<longleftrightarrow> (\<forall>pre rest. path = pre @ SegDeepAny # rest \<longrightarrow> skip_name rest \<noteq> None)"

lemma deep_ok_Cons: "deep_ok (sg # rest) \<Longrightarrow> deep_ok rest"
  unfolding deep_ok_def by (metis append_Cons)

lemma path_leaf_step:
  "(\<lambda>p. path_leaf jc f (SegKey n # r) kind (Key k # p)) = (\<lambda>p s. if k = n then path_leaf jc f r kind p s else s)"
  "(\<lambda>p. path_leaf jc f (SegIndex # r) kind (Idx i # p)) = path_leaf jc f r kind"
  "path_leaf jc f (SegKey n # r) kind [] = (\<lambda>s. s)"
  "path_leaf jc f (SegIndex # r) kind [] = (\<lambda>s. s)"
  "path_leaf jc f (SegKey n # r) kind (Idx i # p) = (\<lambda>s. s)"
  "path_leaf jc f (SegIndex # r) kind (Key k # p) = (\<lambda>s. s)"
  by (auto simp: path_leaf_def fun_eq_iff)

lemma path_leaf_deep:
  "skip_name r = Some n \<Longrightarrow> path_leaf jc f (SegDeepAny # r) kind = deep_leaf n (path_leaf jc f r kind)"
  by (intro ext) (auto simp: path_leaf_def deep_leaf_def split: option.split)

lemma map_key_absent:
  assumes "gm_get obj n = None"
  shows "map (\<lambda>(k, v). (k, map_leaves (\<lambda>p s. if k = n then F p s else s) v)) obj = obj"
proof (rule map_idI)
  fix y assume "y \<in> set obj"
  then have "fst y \<noteq> n" using assms by (auto simp: map_of_eq_None_iff)
  then show "(\<lambda>(k, v). (k, map_leaves (\<lambda>p s. if k = n then F p s else s) v)) y = y"
    by (cases "y") (simp add: map_leaves_same)
qed

lemma map_key:
  assumes "gm_wf obj" "gm_get obj n = Some child"
  shows "gm_set n (map_leaves F child) obj = map (\<lambda>(k, v). (k, map_leaves (\<lambda>p s. if k = n then F p s else s) v)) obj"
  using assms
proof (induction obj)
  case (Cons x obj)
  obtain k v where x: "x = (k, v)" by fastforce
  show ?case
  proof (cases "k = n")
    case True
    have "gm_get obj n = None" using Cons(2) True x by (simp add: gm_wf_def map_of_eq_None_iff)
    then show ?thesis using Cons(3) x True map_key_absent [of obj n F] by simp
  next
    case False
    then show ?thesis using Cons x by (simp add: gm_wf_def map_leaves_same)
  qed
qed simp

lemma walk_value:
  assumes "answers t f" "encodes_all jc"
  shows "path \<noteq> [] \<Longrightarrow> deep_ok path \<Longrightarrow> doc_wf v \<Longrightarrow> fst (walk path jc t kind v key s) = Inr (map_leaves (path_leaf jc f path kind) v)"
proof (induction path arbitrary: v key s)
  case (Cons current rest)
  define leaf where "leaf = (\<lambda>v k s. if rest = [] then applyTransform jc t kind v k s else walk rest jc t kind v k s)"
  have leaf: "fst (leaf c k s) = Inr (map_leaves (path_leaf jc f rest kind) c)" if "doc_wf c" for c k s
    using Cons(1) [OF _ deep_ok_Cons [OF Cons(3)] that] apply_value [OF assms] by (cases "rest = []") (simp_all add: leaf_def)
  show ?case
  proof (cases current)
    case (SegKey n)
    show ?thesis
    proof (cases v)
      case (JObj obj)
      have wf: "gm_wf obj" "\<forall>f \<in> set obj. doc_wf (snd f)" using Cons(4) JObj by auto
      show ?thesis
      proof (cases "gm_get obj n")
        case None
        have "map (\<lambda>(k, v). (k, map_leaves (\<lambda>p s. if k = n then path_leaf jc f rest kind p s else s) v)) obj = obj"
          using map_key_absent [OF None] .
        then show ?thesis using JObj SegKey None by (simp add: path_leaf_step)
      next
        case (Some child)
        have "doc_wf child" using wf(2) map_of_SomeD [OF Some] by force
        then show ?thesis using leaf [of child] JObj SegKey Some map_key [OF wf(1) Some]
          by (auto simp: path_leaf_step Let_def leaf_def intro!: fst_map)
      qed
    qed (use SegKey in \<open>simp_all add: path_leaf_step map_enumerate_snd [of "\<lambda>v. v"] map_leaves_items\<close>)
  next
    case SegIndex
    show ?thesis
    proof (cases v)
      case (JArr vs)
      have "fst (walk_items leaf key 0 vs s) = Inr (map (\<lambda>(i, v). map_leaves (path_leaf jc f rest kind) v) (enumerate 0 vs))"
        by (rule items_value) (use Cons(4) JArr leaf enumerate_mem in fastforce)
      then show ?thesis using JArr SegIndex by (auto simp: path_leaf_step leaf_def Let_def intro!: fst_map)
    qed (use SegIndex in \<open>simp_all add: path_leaf_step map_leaves_same\<close>)
  next
    case SegDeepAny
    have "deep_ok (SegDeepAny # rest)" using Cons(3) SegDeepAny by simp
    then obtain n where sk: "skip_name rest = Some n" unfolding deep_ok_def by force
    then obtain r where rest: "rest = SegKey n # r" by (auto simp: skip_name_def split: list.splits segment.splits)
    have other: "path_leaf jc f rest kind (Key k # p) s = s" if "k \<noteq> n" for k p s
      using that rest by (simp add: path_leaf_def)
    have w: "fst (walk rest jc t kind v k s) = Inr (map_leaves (path_leaf jc f rest kind) v)" if "doc_wf v" for v k s
      using Cons(1) [OF _ deep_ok_Cons [OF Cons(3)] that] rest by simp
    have "fst (walkDeep (Some n) (\<lambda>n k s. walk rest jc t kind n k s) v key s) = Inr (map_leaves (deep_leaf n (path_leaf jc f rest kind)) v)"
      by (rule deep_value(1) [OF w other refl refl Cons(4)])
    then show ?thesis unfolding path_leaf_deep [OF sk, symmetric] using SegDeepAny sk by simp
  qed
qed simp

section \<open>The tables\<close>

lemma rules_value:
  assumes "answers t f" "encodes_all jc"
  shows "\<forall>r \<in> set rules. pr_path r \<noteq> [] \<and> deep_ok (pr_path r) \<Longrightarrow> doc_wf doc \<Longrightarrow>
    fst (apply_rules rules jc t doc s) =
      Inr (map_leaves (\<lambda>p. fold (\<lambda>r. path_leaf jc f (pr_path r) (pr_kind r) p) rules) doc)"
proof (induction rules arbitrary: doc s)
  case Nil
  then show ?case by (simp add: map_leaves_same id_def)
next
  case (Cons r rules)
  have 1: "fst (walk (pr_path r) jc t (pr_kind r) doc [] s) = Inr (map_leaves (path_leaf jc f (pr_path r) (pr_kind r)) doc)"
    using Cons(2) by (intro walk_value [OF assms _ _ Cons(3)]) auto
  have 2: "fst (apply_rules rules jc t (map_leaves (path_leaf jc f (pr_path r) (pr_kind r)) doc) s') =
      Inr (map_leaves (\<lambda>p. fold (\<lambda>r. path_leaf jc f (pr_path r) (pr_kind r) p) (r # rules)) doc)" for s'
    using Cons(1) [of "map_leaves (path_leaf jc f (pr_path r) (pr_kind r)) doc" s'] Cons(2) doc_wf_map [OF Cons(3)]
    by (simp add: map_leaves_comp comp_def)
  show ?case unfolding apply_rules.simps by (rule fst_bind [OF 1]) (rule 2)
qed

text \<open>Two rules that no position fits.\<close>

fun apart :: "segment list \<Rightarrow> valueKind \<Rightarrow> segment list \<Rightarrow> valueKind \<Rightarrow> bool" where
  "apart (SegKey a # r) k (SegKey b # r') k' = (a \<noteq> b \<or> apart r k r' k')"
| "apart (SegIndex # r) k (SegIndex # r') k' = apart r k r' k'"
| "apart (SegKey a # r) k (SegIndex # r') k' = True"
| "apart (SegIndex # r) k (SegKey a # r') k' = True"
| "apart [] k (SegKey a # r') k' = (k \<noteq> KindJSONObject)"
| "apart [] k (SegIndex # r') k' = (k \<noteq> KindJSONObject)"
| "apart (SegKey a # r) k [] k' = (k' \<noteq> KindJSONObject)"
| "apart (SegIndex # r) k [] k' = (k' \<noteq> KindJSONObject)"
| "apart [] k [] k' = ((k = KindJSONObject) \<noteq> (k' = KindJSONObject))"
| "apart _ _ _ _ = False"

lemma apart_never: "apart path k path' k' \<Longrightarrow> after path p = Some q \<Longrightarrow> after path' p = Some q' \<Longrightarrow> \<not> (fits k q \<and> fits k' q')"
proof (induction path k path' k' arbitrary: p rule: apart.induct)
  case (1 a r k b r' k')
  then show ?case by (cases "(SegKey a # r, p)" rule: after.cases) (auto split: if_splits)
next
  case (2 r k r' k')
  then show ?case by (cases "(SegIndex # r, p)" rule: after.cases) auto
next
  case (3 a r k r' k')
  then show ?case by (cases "(SegKey a # r, p)" rule: after.cases) auto
next
  case (4 r k a r' k')
  then show ?case by (cases "(SegIndex # r, p)" rule: after.cases) auto
next
  case (5 k a r' k')
  then show ?case by (cases "(SegKey a # r', p)" rule: after.cases) (auto simp: fits_def)
next
  case (6 k r' k')
  then show ?case by (cases "(SegIndex # r', p)" rule: after.cases) (auto simp: fits_def)
next
  case (7 a r k k')
  then show ?case by (cases "(SegKey a # r, p)" rule: after.cases) (auto simp: fits_def)
next
  case (8 r k k')
  then show ?case by (cases "(SegIndex # r, p)" rule: after.cases) (auto simp: fits_def)
qed (auto simp: fits_def)

abbreviation rules_apart :: "pathRule list \<Rightarrow> bool" where
  "rules_apart \<equiv> sorted_wrt (\<lambda>r r'. apart (pr_path r) (pr_kind r) (pr_path r') (pr_kind r'))"

lemma reaches_once:
  assumes "apart (pr_path r) (pr_kind r) (pr_path r') (pr_kind r')" "reaches_leaf r p"
  shows "\<not> reaches_leaf r' p"
  using assms apart_never [OF assms(1)] by (fastforce simp: reaches_leaf_def split: option.splits)

lemma path_leaf_rule: "path_leaf jc f (pr_path r) (pr_kind r) p s = (if reaches_leaf r p then leaf_value jc f (pr_kind r) s else s)"
  by (simp add: path_leaf_def reaches_leaf_def split: option.split)

lemma fold_listed:
  assumes "rules_apart rules"
  shows "fold (\<lambda>r. path_leaf jc f (pr_path r) (pr_kind r) p) rules s = listed_leaf jc f rules p s"
  using assms
proof (induction rules arbitrary: s)
  case (Cons r rules)
  show ?case
  proof (cases "reaches_leaf r p")
    case True
    have none: "filter (\<lambda>r. reaches_leaf r p) rules = []"
      using Cons(2) reaches_once [OF _ True] by (auto simp: filter_empty_conv)
    show ?thesis using Cons(1,2) True none by (simp add: listed_leaf_def path_leaf_rule)
  next
    case False
    then show ?thesis using Cons by (simp add: listed_leaf_def path_leaf_rule)
  qed
qed (simp add: listed_leaf_def)

lemma deep_ok_simps:
  "deep_ok []" "deep_ok (SegKey n # r) = deep_ok r" "deep_ok (SegIndex # r) = deep_ok r"
  "deep_ok (SegDeepAny # SegKey n # r) = deep_ok r"
  by (auto simp: deep_ok_def Cons_eq_append_conv skip_name_def)

lemma table_ok:
  "\<forall>r \<in> set sanitizeRules. pr_path r \<noteq> [] \<and> deep_ok (pr_path r)"
  "\<forall>r \<in> set responseRules. pr_path r \<noteq> [] \<and> deep_ok (pr_path r)"
  by (simp_all add: sanitizeRules_def responseRules_def seg_def deep_ok_simps)

lemma sanitize_apart: "rules_apart sanitizeRules"
  by (simp add: sanitizeRules_def seg_def)

lemma response_apart: "rules_apart responseRules"
  by (simp add: responseRules_def seg_def)

text \<open>
  C36: Exactly the listed leaves are transformed. With a transform that answers a text by \<open>f\<close> of it, a
  codec that can encode every value and a well-formed document, sanitizing the document and restoring
  it succeed, and the result is the document with each leaf that a rule of the table reaches replaced:
  by \<open>f\<close> of it, or, where the leaf holds JSON text, by that text written again with \<open>f\<close> applied to its
  strings. Every other leaf, every key, every number and the shape stay; and no leaf is
  transformed twice.
\<close>
theorem listed_leaves_transformed:
  assumes "answers t f" "encodes_all jc" "doc_wf doc"
  shows "fst (SanitizeDocument jc t doc s) = Inr (map_leaves (listed_leaf jc f sanitizeRules) doc) \<and>
    fst (RestoreDocument jc t doc s) = Inr (map_leaves (listed_leaf jc f responseRules) doc)"
proof -
  have "(\<lambda>p. fold (\<lambda>r. path_leaf jc f (pr_path r) (pr_kind r) p) sanitizeRules) = listed_leaf jc f sanitizeRules"
    "(\<lambda>p. fold (\<lambda>r. path_leaf jc f (pr_path r) (pr_kind r) p) responseRules) = listed_leaf jc f responseRules"
    by (intro ext fold_listed sanitize_apart response_apart)+
  then show ?thesis
    using rules_value [OF assms(1,2) table_ok(1) assms(3)] rules_value [OF assms(1,2) table_ok(2) assms(3)]
    by (simp add: SanitizeDocument_def RestoreDocument_def)
qed

text \<open>A request with a message, a tool call that carries its arguments as text, and a model name.\<close>

definition sample_codec :: json_codec where
  "sample_codec = \<lparr>jc_decode = (\<lambda>s. if s = ''A'' then Some (JStr ''Bob'') else None), jc_encode = (\<lambda>v. Some ''B'')\<rparr>"

definition sample_request :: json where
  "sample_request =
     JObj [(''model'', JStr ''Bob''),
           (''messages'', JArr [JObj [(''role'', JStr ''user''), (''content'', JStr ''Bob'')],
              JObj [(''tool_calls'', JArr [JObj [(''function'', JObj [(''name'', JStr ''Bob''), (''arguments'', JStr ''A'')])]])]])]"

definition hide :: "string \<Rightarrow> string" where
  "hide s = (if s = ''Bob'' then ''x'' else s)"

theorem listed_leaves_transformed_witness:
  "fst (SanitizeDocument sample_codec (\<lambda>k v n. (Inr (hide v), n + 1)) sample_request (0::nat)) =
     Inr (JObj [(''model'', JStr ''Bob''),
           (''messages'', JArr [JObj [(''role'', JStr ''user''), (''content'', JStr ''x'')],
              JObj [(''tool_calls'', JArr [JObj [(''function'', JObj [(''name'', JStr ''Bob''), (''arguments'', JStr ''B'')])]])]])])"
proof -
  have "answers (\<lambda>k v n. (Inr (hide v), n + 1)) hide" "encodes_all sample_codec" "doc_wf sample_request"
    by (simp_all add: answers_def encodes_all_def sample_codec_def sample_request_def gm_wf_def)
  from conjunct1 [OF listed_leaves_transformed [OF this, of "0::nat"]] show ?thesis
    by (simp add: sample_request_def sample_codec_def listed_leaf_def reaches_leaf_def sanitizeRules_def seg_def fits_def
        leaf_value_def json_text_def MarshalPreserving_def hide_def has_suffix_def skip_name_def)
qed

section \<open>Text the table does not list\<close>

text \<open>A tool whose parameter is itself named \<open>description\<close>; the text describes that parameter.\<close>

definition tool_request :: "string \<Rightarrow> json" where
  "tool_request x =
     JObj [(''tools'', JArr [JObj [(''function'', JObj [(''parameters'', JObj [(''properties'',
        JObj [(''description'', JObj [(''type'', JStr ''string''), (''description'', JStr x)])])])])]])]"

text \<open>The description of a parameter that is named \<open>description\<close> is never sanitized: the search for
  \<open>description\<close> at any depth does not descend below a key of that name, so the transform is not called
  and the request leaves as it came.\<close>
theorem nested_description_missed: "SanitizeDocument jc t (tool_request x) s = (Inr (tool_request x), s)"
  by (simp add: SanitizeDocument_def sanitizeRules_def seg_def tool_request_def st_bind_def st_map_def applyTransform_def
      skip_name_def Let_def elementID_def)

text \<open>A Responses API request: instructions, and an input message whose content is a plain string.\<close>

definition responses_request :: "string \<Rightarrow> string \<Rightarrow> json" where
  "responses_request x y =
     JObj [(''instructions'', JStr x), (''input'', JArr [JObj [(''role'', JStr ''user''), (''content'', JStr y)]])]"

text \<open>A Responses API request whose messages hold plain strings leaves as it came: the table lists
  the content blocks of \<open>input\<close> and its strings, but neither \<open>input[*].content\<close> nor \<open>instructions\<close>.\<close>
theorem plain_responses_request_missed: "SanitizeDocument jc t (responses_request x y) s = (Inr (responses_request x y), s)"
  by (simp add: SanitizeDocument_def sanitizeRules_def seg_def responses_request_def st_bind_def st_map_def applyTransform_def
      skip_name_def Let_def elementID_def)

end
