(* ===== verification/DocStream.thy ===== *)
theory DocStream imports Document StreamRestore begin

text \<open>
  Restoration of response bodies and of streams of response frames
  (\<open>pii/document/document.go\<close>, \<open>StreamRestorer\<close>): every text stream of the protocol has a buffer of its
  own, and the arguments of tool calls are held until the call is complete. The frames that the
  code holds by reference are not read again where later assignments change them, so copies do.
  Iteration over a Go map follows the order of its association list.
\<close>

section \<open>State\<close>

record 's stream_env =
  se_codec :: json_codec
  se_tables :: case_tables
  se_tops :: "'s token_ops"
  se_redactor :: redactor
  se_scope :: "'s scope"

record stream_restorer =
  sr_buffers :: "(string, stream_unredactor) gomap"
  sr_phantom :: "string list"
  sr_toolArgs :: "(string, string) gomap"
  sr_toolShape :: "(string, (string \<times> json) list) gomap"
  sr_toolOrder :: "string list"
  sr_pendingFrames :: "string list"

definition NewStreamRestorer :: stream_restorer where
  "NewStreamRestorer =
     \<lparr>sr_buffers = [], sr_phantom = [], sr_toolArgs = [], sr_toolShape = [], sr_toolOrder = [], sr_pendingFrames = []\<rparr>"

text \<open>\<open>json.Unmarshal\<close> into a map: \<open>null\<close> leaves the map nil, and nothing is found in it.\<close>

definition decode_map :: "json_codec \<Rightarrow> string \<Rightarrow> json option" where
  "decode_map jc data =
     (case jc_decode jc data of Some (JObj fs) \<Rightarrow> Some (JObj fs) | Some JNull \<Rightarrow> Some JNull | _ \<Rightarrow> None)"

fun field :: "json \<Rightarrow> string \<Rightarrow> json option" where
  "field (JObj fs) k = gm_get fs k"
| "field _ k = None"

fun set_field :: "string \<Rightarrow> json \<Rightarrow> json \<Rightarrow> json" where
  "set_field k v (JObj fs) = JObj (gm_set k v fs)"
| "set_field k v d = d"

section \<open>The barrier of tool calls\<close>

text \<open>One fragment of the arguments of a call is held back; the first one of a key opens its builder.\<close>

definition hold_fragment :: "string \<Rightarrow> string \<Rightarrow> (string \<times> json) list option \<Rightarrow> stream_restorer \<Rightarrow> stream_restorer" where
  "hold_fragment key frag shape s =
     (case gm_get (sr_toolArgs s) key of
        Some b \<Rightarrow> s\<lparr>sr_toolArgs := gm_set key (b @ frag) (sr_toolArgs s)\<rparr>
      | None \<Rightarrow>
          s\<lparr>sr_toolArgs := gm_set key frag (sr_toolArgs s),
            sr_toolShape := (case shape of Some call \<Rightarrow> gm_set key call (sr_toolShape s) | None \<Rightarrow> sr_toolShape s),
            sr_toolOrder := sr_toolOrder s @ [key]\<rparr>)"

definition absorb_call :: "string \<Rightarrow> nat \<Rightarrow> json \<Rightarrow> stream_restorer \<Rightarrow> json \<times> stream_restorer" where
  "absorb_call choiceID pos raw s =
     (case raw of
        JObj call \<Rightarrow>
          (case gm_get call ''function'' of
             Some (JObj fn) \<Rightarrow>
               (case gm_get fn ''arguments'' of
                  Some (JStr frag) \<Rightarrow>
                    (JObj (gm_set ''function'' (JObj (gm_set ''arguments'' (JStr []) fn)) call),
                     hold_fragment (choiceID @ '':'' @ elementID raw pos) frag (Some call) s)
                | _ \<Rightarrow> (raw, s))
           | _ \<Rightarrow> (raw, s))
      | _ \<Rightarrow> (raw, s))"

fun absorb_calls :: "string \<Rightarrow> nat \<Rightarrow> json list \<Rightarrow> stream_restorer \<Rightarrow> json list \<times> stream_restorer" where
  "absorb_calls choiceID pos [] s = ([], s)"
| "absorb_calls choiceID pos (raw # calls) s =
     (let (raw', s) = absorb_call choiceID pos raw s;
          (calls', s) = absorb_calls choiceID (Suc pos) calls s in (raw' # calls', s))"

definition absorb_choice :: "nat \<Rightarrow> json \<Rightarrow> stream_restorer \<Rightarrow> json \<times> stream_restorer \<times> string list" where
  "absorb_choice ci c s =
     (case c of
        JObj choice \<Rightarrow>
          let choiceID = elementID c ci;
              (c', s) =
                (case gm_get choice ''delta'' of
                   Some (JObj delta) \<Rightarrow>
                     (case gm_get delta ''tool_calls'' of
                        Some (JArr calls) \<Rightarrow>
                          (let (calls', s) = absorb_calls choiceID 0 calls s in
                           (JObj (gm_set ''delta'' (JObj (gm_set ''tool_calls'' (JArr calls') delta)) choice), s))
                      | _ \<Rightarrow> (c, s))
                 | _ \<Rightarrow> (c, s));
              released =
                (case gm_get choice ''finish_reason'' of
                   None \<Rightarrow> []
                 | Some JNull \<Rightarrow> []
                 | Some _ \<Rightarrow> filter (\<lambda>key. has_prefix key (choiceID @ '':'')) (sr_toolOrder s)) in
          (c', s, released)
      | _ \<Rightarrow> (c, s, []))"

fun absorb_choices :: "nat \<Rightarrow> json list \<Rightarrow> stream_restorer \<Rightarrow> json list \<times> stream_restorer \<times> string list" where
  "absorb_choices ci [] s = ([], s, [])"
| "absorb_choices ci (c # cs) s =
     (let (c', s, r) = absorb_choice ci c s;
          (cs', s, r') = absorb_choices (Suc ci) cs s in (c' # cs', s, r @ r'))"

definition absorbToolCalls :: "json \<Rightarrow> stream_restorer \<Rightarrow> json \<times> stream_restorer \<times> string list" where
  "absorbToolCalls doc s =
     (case field doc ''choices'' of
        Some (JArr choices) \<Rightarrow>
          (let (choices', s, r) = absorb_choices 0 choices s in (set_field ''choices'' (JArr choices') doc, s, r))
      | _ \<Rightarrow> (doc, s, []))"

definition absorbAnthropicToolCalls :: "json \<Rightarrow> stream_restorer \<Rightarrow> json \<times> stream_restorer \<times> string list" where
  "absorbAnthropicToolCalls doc s =
     (case field doc ''index'' of
        Some (JNum idx) \<Rightarrow>
          (let key = ''anthropic:'' @ int_itoa (rat_int idx);
               kind = field doc ''type'' in
           if kind = Some (JStr ''content_block_start'') then
             (case field doc ''content_block'' of
                Some (JObj cb) \<Rightarrow>
                  (doc, (if gm_get cb ''type'' = Some (JStr ''tool_use'') then s\<lparr>sr_toolShape := gm_set key cb (sr_toolShape s)\<rparr> else s), [])
              | _ \<Rightarrow> (doc, s, []))
           else if kind = Some (JStr ''content_block_delta'') then
             (case field doc ''delta'' of
                Some (JObj delta) \<Rightarrow>
                  (if gm_get delta ''type'' = Some (JStr ''input_json_delta'') then
                     (case gm_get delta ''partial_json'' of
                        Some (JStr frag) \<Rightarrow>
                          (set_field ''delta'' (JObj (gm_set ''partial_json'' (JStr []) delta)) doc, hold_fragment key frag None s, [])
                      | _ \<Rightarrow> (doc, s, []))
                   else (doc, s, []))
              | _ \<Rightarrow> (doc, s, []))
           else if kind = Some (JStr ''content_block_stop'') then
             (doc, s, if gm_get (sr_toolArgs s) key \<noteq> None then [key] else [])
           else (doc, s, []))
      | _ \<Rightarrow> (doc, s, []))"

section \<open>Release\<close>

text \<open>The transform of complete arguments collects the placeholders that nobody issued.\<close>

definition plain_restore :: "'s stream_env \<Rightarrow> stream_restorer transform" where
  "plain_restore env key text s =
     (case Unredact (se_tops env) (se_redactor env) text (se_scope env) of
        Inl e \<Rightarrow> (Inl TransformFailed, s)
      | Inr res \<Rightarrow> (Inr (ur_Text res), s\<lparr>sr_phantom := sr_phantom s @ ur_Phantom res\<rparr>))"

definition restoreArgs :: "'s stream_env \<Rightarrow> string \<Rightarrow> stream_restorer \<Rightarrow> string \<times> stream_restorer" where
  "restoreArgs env raw s =
     (case transformJSONString (se_codec env) (plain_restore env) raw [] s of
        (Inl e, s) \<Rightarrow> (raw, s)
      | (Inr (JStr out), s) \<Rightarrow> (out, s)
      | (Inr v, s) \<Rightarrow> (raw, s))"

definition key_parts :: "string \<Rightarrow> string \<times> string" where
  "key_parts key = (takeWhile (\<lambda>c. c \<noteq> CHR '':'') key, drop 1 (dropWhile (\<lambda>c. c \<noteq> CHR '':'') key))"

definition anthropic_frame :: "string \<Rightarrow> string \<Rightarrow> json" where
  "anthropic_frame index_text whole =
     JObj [(''type'', JStr ''content_block_delta''),
           (''index'', JNum (of_int (case atoi index_text of Some n \<Rightarrow> n | None \<Rightarrow> 0))),
           (''delta'', JObj [(''type'', JStr ''input_json_delta''), (''partial_json'', JStr whole)])]"

text \<open>A call as the client expects it: its index, id, type and name are taken from the first fragment.\<close>

definition whole_call :: "(string \<times> json) list \<Rightarrow> string \<Rightarrow> json" where
  "whole_call shape whole =
     (let fn = [(''arguments'', JStr whole)];
          fn = (case gm_get shape ''function'' of
                  Some (JObj sf) \<Rightarrow> (case gm_get sf ''name'' of Some n \<Rightarrow> gm_set ''name'' n fn | None \<Rightarrow> fn)
                | _ \<Rightarrow> fn) in
      JObj (fold (\<lambda>f call. case gm_get shape f of Some v \<Rightarrow> gm_set f v call | None \<Rightarrow> call)
              [''index'', ''id'', ''type''] [(''function'', JObj fn)]))"

fun render_keys ::
    "'s stream_env \<Rightarrow> string list \<Rightarrow> (string, json list) gomap \<Rightarrow> stream_restorer \<Rightarrow> (string, json list) gomap \<times> stream_restorer" where
  "render_keys env [] byChoice s = (byChoice, s)"
| "render_keys env (key # keys) byChoice s =
     (case gm_get (sr_toolArgs s) key of
        None \<Rightarrow> render_keys env keys byChoice s
      | Some b \<Rightarrow>
          let s = s\<lparr>sr_toolArgs := gm_del key (sr_toolArgs s)\<rparr>;
              (choiceID, rest) = key_parts key;
              (whole, s) = restoreArgs env b s in
          if choiceID = ''anthropic'' then
            render_keys env keys byChoice
              (case MarshalPreserving (se_codec env) (anthropic_frame rest whole) of
                 Some out \<Rightarrow> s\<lparr>sr_pendingFrames := sr_pendingFrames s @ [out]\<rparr>
               | None \<Rightarrow> s)
          else
            let shape = (case gm_get (sr_toolShape s) key of Some sh \<Rightarrow> sh | None \<Rightarrow> []);
                calls = (case gm_get byChoice choiceID of Some cs \<Rightarrow> cs | None \<Rightarrow> []) in
            render_keys env keys (gm_set choiceID (calls @ [whole_call shape whole]) byChoice) s)"

definition choice_frame :: "(string, json list) gomap \<Rightarrow> json" where
  "choice_frame byChoice =
     JObj [(''choices'', JArr (map (\<lambda>(choiceID, calls).
        JObj ((''delta'', JObj [(''tool_calls'', JArr calls)]) #
          (case atoi choiceID of Some n \<Rightarrow> [(''index'', JNum (of_int n))] | None \<Rightarrow> []))) byChoice))]"

definition renderReleased :: "'s stream_env \<Rightarrow> string list \<Rightarrow> stream_restorer \<Rightarrow> string option \<times> stream_restorer" where
  "renderReleased env keys s =
     (if keys = [] then (None, s)
      else let (byChoice, s) = render_keys env keys [] s in
        if byChoice = [] then
          (case sr_pendingFrames s of
             out # outs \<Rightarrow> (Some out, s\<lparr>sr_pendingFrames := outs\<rparr>)
           | [] \<Rightarrow> (None, s))
        else (MarshalPreserving (se_codec env) (choice_frame byChoice), s))"

text \<open>
  The loop of \<open>Frame\<close> asks again, without keys, until nothing is rendered. Fuel 2 is enough: a round
  without keys renders nothing (\<open>render_twice\<close>).
\<close>

fun render_loop :: "nat \<Rightarrow> 's stream_env \<Rightarrow> string list \<Rightarrow> stream_restorer \<Rightarrow> string list \<times> stream_restorer" where
  "render_loop 0 env released s = ([], s)"
| "render_loop (Suc fuel) env released s =
     (case renderReleased env released s of
        (None, s) \<Rightarrow> ([], s)
      | (Some extra, s) \<Rightarrow> (let (frames, s) = render_loop fuel env [] s in (extra # frames, s)))"

section \<open>Frames\<close>

definition feed_leaf :: "'s stream_env \<Rightarrow> stream_restorer transform" where
  "feed_leaf env key text s =
     (let su = (case gm_get (sr_buffers s) key of Some b \<Rightarrow> b | None \<Rightarrow> NewStreamUnredactor) in
      case Feed (se_tables env) (se_tops env) (se_redactor env) (se_scope env) su text of
        None \<Rightarrow> (Inl TransformPanicked, s)
      | Some (r, su') \<Rightarrow>
          (case r of Inl e \<Rightarrow> Inl TransformFailed | Inr out \<Rightarrow> Inr out, s\<lparr>sr_buffers := gm_set key su' (sr_buffers s)\<rparr>))"

text \<open>None is a panic of a buffer.\<close>

definition Frame :: "'s stream_env \<Rightarrow> string \<Rightarrow> stream_restorer \<Rightarrow> (string list \<times> stream_restorer) option" where
  "Frame env data s =
     (case decode_map (se_codec env) data of
        None \<Rightarrow> Some ([data], s)
      | Some doc \<Rightarrow>
          let (doc, s, r) = absorbToolCalls doc s;
              (doc, s, r') = absorbAnthropicToolCalls doc s in
          case RestoreDocument (se_codec env) (feed_leaf env) doc s of
            (Inl TransformPanicked, s) \<Rightarrow> None
          | (Inl e, s) \<Rightarrow> Some ([data], s)
          | (Inr doc, s) \<Rightarrow>
              (case MarshalPreserving (se_codec env) doc of
                 None \<Rightarrow> Some ([data], s)
               | Some out \<Rightarrow> (let (frames, s) = render_loop 2 env (r @ r') s in Some (frames @ [out], s))))"

definition FlushToolCalls :: "'s stream_env \<Rightarrow> stream_restorer \<Rightarrow> string option \<times> stream_restorer" where
  "FlushToolCalls env s =
     (if sr_toolArgs s = [] then (None, s)
      else renderReleased env (filter (\<lambda>k. gm_get (sr_toolArgs s) k \<noteq> None) (sr_toolOrder s)) s)"

fun flush_buffers ::
    "'s stream_env \<Rightarrow> (string, stream_unredactor) gomap \<Rightarrow> string list \<Rightarrow>
     (unredact_error + string) \<times> (string, stream_unredactor) gomap \<times> string list" where
  "flush_buffers env [] ph = (Inr [], [], ph)"
| "flush_buffers env ((k, su) # bufs) ph =
     (case Flush (se_tops env) (se_redactor env) (se_scope env) su of
        (Inl e, su) \<Rightarrow> (Inl e, (k, su) # bufs, ph)
      | (Inr text, su) \<Rightarrow>
          (case flush_buffers env bufs (ph @ su_phantom su) of
             (Inl e, bufs, ph) \<Rightarrow> (Inl e, (k, su) # bufs, ph)
           | (Inr rest, bufs, ph) \<Rightarrow> (Inr (text @ rest), (k, su) # bufs, ph)))"

definition restorer_Flush :: "'s stream_env \<Rightarrow> stream_restorer \<Rightarrow> (unredact_error + string) \<times> stream_restorer" where
  "restorer_Flush env s =
     (case flush_buffers env (sr_buffers s) (sr_phantom s) of
        (r, bufs, ph) \<Rightarrow> (r, s\<lparr>sr_buffers := bufs, sr_phantom := ph\<rparr>))"

definition restorer_Phantom :: "stream_restorer \<Rightarrow> string list" where
  "restorer_Phantom s = sr_phantom s @ concat (map (\<lambda>(k, su). su_phantom su) (sr_buffers s))"

section \<open>Whole bodies and the class of a frame\<close>

definition body_restore :: "'s stream_env \<Rightarrow> unit transform" where
  "body_restore env key text u =
     (case Unredact (se_tops env) (se_redactor env) text (se_scope env) of
        Inl e \<Rightarrow> (Inl TransformFailed, u)
      | Inr res \<Rightarrow> (Inr (ur_Text res), u))"

definition RestoreBody :: "'s stream_env \<Rightarrow> string \<Rightarrow> string" where
  "RestoreBody env body =
     (case decode_map (se_codec env) body of
        None \<Rightarrow> body
      | Some doc \<Rightarrow>
          (case RestoreDocument (se_codec env) (body_restore env) doc () of
             (Inl e, u) \<Rightarrow> body
           | (Inr doc, u) \<Rightarrow> (case MarshalPreserving (se_codec env) doc of None \<Rightarrow> body | Some out \<Rightarrow> out)))"

datatype FrameClass = FrameOther | FrameText | FrameToolCall

definition is_text :: "json option \<Rightarrow> bool" where
  "is_text v \<longleftrightarrow> (case v of Some (JStr s) \<Rightarrow> s \<noteq> [] | _ \<Rightarrow> False)"

fun classify_choices :: "json list \<Rightarrow> FrameClass" where
  "classify_choices [] = FrameOther"
| "classify_choices (c # cs) =
     (case field c ''delta'' of
        Some (JObj delta) \<Rightarrow>
          (if \<exists>f \<in> set [''content'', ''reasoning_content'', ''text'']. is_text (gm_get delta f) then FrameText
           else (case gm_get delta ''tool_calls'' of
                   Some (JArr (call # calls)) \<Rightarrow> FrameToolCall
                 | _ \<Rightarrow> classify_choices cs))
      | _ \<Rightarrow> classify_choices cs)"

definition ClassifyFrame :: "json_codec \<Rightarrow> string \<Rightarrow> FrameClass" where
  "ClassifyFrame jc data =
     (case decode_map jc data of
        None \<Rightarrow> FrameOther
      | Some doc \<Rightarrow> (case field doc ''choices'' of Some (JArr choices) \<Rightarrow> classify_choices choices | _ \<Rightarrow> FrameOther))"

end
