(* ===== verification/DocStreamFacts.thy ===== *)
theory DocStreamFacts imports DocStream DocFacts begin

text \<open>
  What a client assembles from the frames that a stream restorer emits
  (\<open>pii/document/document.go\<close>): the text of every choice is restored on its own, whatever the order in
  which the choices take turns; the arguments of a tool call arrive in one piece. The last section
  holds what is lost at the end of a stream.
\<close>

section \<open>Frames in a row\<close>

fun run_frames :: "'s stream_env \<Rightarrow> string list \<Rightarrow> stream_restorer \<Rightarrow> (string list \<times> stream_restorer) option" where
  "run_frames env [] s = Some ([], s)"
| "run_frames env (d # ds) s =
     (case Frame env d s of
        None \<Rightarrow> None
      | Some (outs, s) \<Rightarrow> map_option (\<lambda>(rest, s). (outs @ rest, s)) (run_frames env ds s))"

definition written :: "json_codec \<Rightarrow> json \<Rightarrow> string" where
  "written jc v = the (MarshalPreserving jc v)"

lemma Marshal_written: "encodes_all jc \<Longrightarrow> MarshalPreserving jc v = Some (written jc v)"
  by (simp add: written_def MarshalPreserving_def encodes_all_def)

lemma render_no_keys: "render_loop n env [] s = ([], s)"
  by (cases n) (simp_all add: renderReleased_def)

lemma render_twice: "render_loop (Suc (Suc n)) env released s = render_loop 2 env released s"
  by (simp add: numeral_2_eq_2 render_no_keys split: prod.split option.split)

section \<open>Text streams\<close>

definition chat_delta :: "nat \<Rightarrow> string \<Rightarrow> json" where
  "chat_delta i c =
     JObj [(''choices'', JArr [JObj [(''index'', JNum (of_nat i)), (''delta'', JObj [(''content'', JStr c)])]])]"

definition content_key :: "nat \<Rightarrow> string" where
  "content_key i = ''choices.'' @ itoa i @ ''.delta.content''"

lemma content_key_inj [simp]: "content_key i = content_key j \<longleftrightarrow> i = j"
  by (simp add: content_key_def itoa_inj)

definition buffer_of :: "stream_restorer \<Rightarrow> string \<Rightarrow> stream_unredactor" where
  "buffer_of s key = (case gm_get (sr_buffers s) key of Some b \<Rightarrow> b | None \<Rightarrow> NewStreamUnredactor)"

lemma rat_int_nat [simp]: "rat_int (of_nat n) = int n"
  by (simp add: rat_int_def)

lemma int_itoa_nat [simp]: "int_itoa (int n) = itoa n"
  by (simp add: int_itoa_def)

lemma chat_absorbed:
  "absorbToolCalls (chat_delta i c) s = (chat_delta i c, s, [])"
  "absorbAnthropicToolCalls (chat_delta i c) s = (chat_delta i c, s, [])"
  by (simp_all add: absorbToolCalls_def absorbAnthropicToolCalls_def absorb_choice_def chat_delta_def)

lemma chat_restored:
  assumes "t (content_key i) c s = (Inr out, s')"
  shows "RestoreDocument jc t (chat_delta i c) s = (Inr (chat_delta i out), s')"
  using assms
  by (simp add: RestoreDocument_def responseRules_def seg_def chat_delta_def st_bind_def st_map_def applyTransform_def
      Let_def elementID_def joinKey_def content_key_def)

lemma chat_frame:
  assumes "jc_decode (se_codec env) d = Some (chat_delta i c)" "encodes_all (se_codec env)"
    and "Feed (se_tables env) (se_tops env) (se_redactor env) (se_scope env) (buffer_of s (content_key i)) c = Some (Inr out, su)"
  shows "Frame env d s = Some ([written (se_codec env) (chat_delta i out)], s\<lparr>sr_buffers := gm_set (content_key i) su (sr_buffers s)\<rparr>)"
proof -
  have d: "decode_map (se_codec env) d = Some (chat_delta i c)" by (simp add: decode_map_def assms(1) chat_delta_def)
  have f: "feed_leaf env (content_key i) c s = (Inr out, s\<lparr>sr_buffers := gm_set (content_key i) su (sr_buffers s)\<rparr>)"
    using assms(3) by (simp add: feed_leaf_def buffer_of_def)
  show ?thesis
    by (simp add: Frame_def d chat_absorbed chat_restored [of "feed_leaf env" i c s out, OF f] Marshal_written [OF assms(2)] render_no_keys)
qed

definition of_choice :: "nat \<Rightarrow> (nat \<times> string) list \<Rightarrow> string list" where
  "of_choice i fs = map snd (filter (\<lambda>f. fst f = i) fs)"

lemma of_choice_simps [simp]:
  "of_choice i [] = []"
  "of_choice i ((j, c) # fs) = (if j = i then c # of_choice i fs else of_choice i fs)"
  by (simp_all add: of_choice_def)

definition flushed :: "'s stream_env \<Rightarrow> stream_unredactor \<Rightarrow> unredact_error + string" where
  "flushed env su = fst (Flush (se_tops env) (se_redactor env) (se_scope env) su)"

lemma choices_apart:
  assumes "encodes_all (se_codec env)"
    and "\<forall>f \<in> set fs. jc_decode (se_codec env) (data f) = Some (chat_delta (fst f) (snd f))"
    and "\<forall>i. stream_all (se_tables env) (se_tops env) (se_redactor env) (se_scope env) (buffer_of s (content_key i)) (of_choice i fs) = Some (R i)"
  shows "\<exists>outs s'. run_frames env (map data fs) s = Some (map (\<lambda>(i, out). written (se_codec env) (chat_delta i out)) outs, s') \<and>
    map fst outs = map fst fs \<and>
    (\<forall>i. \<exists>rest. flushed env (buffer_of s' (content_key i)) = Inr rest \<and> concat (of_choice i outs) @ rest = R i)"
  using assms(2,3)
proof (induction fs arbitrary: s R)
  case Nil
  have "\<exists>rest. flushed env (buffer_of s (content_key i)) = Inr rest \<and> rest = R i" for i
    using Nil(2) [rule_format, of i] by (auto simp: flushed_def split: prod.splits sum.splits)
  then show ?case by simp
next
  case (Cons f fs)
  obtain j c where f: "f = (j, c)" by fastforce
  let ?all = "stream_all (se_tables env) (se_tops env) (se_redactor env) (se_scope env)"
  obtain out su R' where o: "Feed (se_tables env) (se_tops env) (se_redactor env) (se_scope env) (buffer_of s (content_key j)) c = Some (Inr out, su)"
    "?all su (of_choice j fs) = Some R'" "R j = out @ R'"
    using Cons.prems(2) [rule_format, of j] f by (auto split: option.splits prod.splits sum.splits)
  define s1 where "s1 = s\<lparr>sr_buffers := gm_set (content_key j) su (sr_buffers s)\<rparr>"
  have b: "buffer_of s1 (content_key i) = (if i = j then su else buffer_of s (content_key i))" for i
    by (simp add: s1_def buffer_of_def gm_get_set)
  have "\<forall>i. ?all (buffer_of s1 (content_key i)) (of_choice i fs) = Some (if i = j then R' else R i)"
  proof
    fix i
    show "?all (buffer_of s1 (content_key i)) (of_choice i fs) = Some (if i = j then R' else R i)"
      using Cons.prems(2) [rule_format, of i] f o(2) by (auto simp: b)
  qed
  from Cons.IH [OF _ this] Cons.prems(1) obtain outs s' where r:
    "run_frames env (map data fs) s1 = Some (map (\<lambda>(i, out). written (se_codec env) (chat_delta i out)) outs, s')"
    "map fst outs = map fst fs"
    "\<forall>i. \<exists>rest. flushed env (buffer_of s' (content_key i)) = Inr rest \<and> concat (of_choice i outs) @ rest = (if i = j then R' else R i)"
    by auto
  have "Frame env (data f) s = Some ([written (se_codec env) (chat_delta j out)], s1)"
    unfolding s1_def by (rule chat_frame) (use Cons.prems(1) f assms(1) o(1) in auto)
  moreover have "\<exists>rest. flushed env (buffer_of s' (content_key i)) = Inr rest \<and> concat (of_choice i ((j, out) # outs)) @ rest = R i" for i
    using r(3) [rule_format, of i] o(3) by auto
  ultimately show ?case using r(1,2) f by (intro exI [of _ "(j, out) # outs"] exI [of _ s']) simp
qed

text \<open>
  C37: The text of every choice is restored on its own. For chat frames that carry text of numbered
  choices, in any order and with placeholders divided between frames, the restorer emits one frame
  for each, for the same choice; and for every choice the texts emitted for it, followed by the
  flush of its buffer, are the restored whole text, under the conditions on texts of
  \<open>stream_equals_batch\<close>.
\<close>
theorem choice_streams_restored:
  assumes "encodes_all (se_codec env)"
    and "\<forall>f \<in> set fs. jc_decode (se_codec env) (data f) = Some (chat_delta (fst f) (snd f))"
    and "sc_Vault (se_scope env) = Some v" "rd_tokens (se_redactor env) = False"
    and "\<forall>i. wf_chunks (cs i) (z i) \<and> plain_text (assemble (cs i) (z i)) \<and> concat (of_choice i fs) = assemble (cs i) (z i)"
  shows "\<exists>outs s'. run_frames env (map data fs) NewStreamRestorer =
      Some (map (\<lambda>(i, out). written (se_codec env) (chat_delta i out)) outs, s') \<and>
    map fst outs = map fst fs \<and>
    (\<forall>i. \<exists>rest. flushed env (buffer_of s' (content_key i)) = Inr rest \<and>
      concat (of_choice i outs) @ rest = restored (Vault_Resolve v) (cs i) (z i))"
proof (rule choices_apart [OF assms(1,2)], rule allI)
  fix i
  show "stream_all (se_tables env) (se_tops env) (se_redactor env) (se_scope env) (buffer_of NewStreamRestorer (content_key i)) (of_choice i fs) =
      Some (restored (Vault_Resolve v) (cs i) (z i))"
    by (rule stream_restored [OF assms(3,4)]) (use assms(5) in \<open>auto simp: buffer_of_def NewStreamRestorer_def NewStreamUnredactor_def\<close>)
qed

text \<open>Two choices take turns; the second one stands at the first place of its frame.\<close>

definition chat_codec :: json_codec where
  "chat_codec =
     \<lparr>jc_decode = (\<lambda>s. case s of d # c \<Rightarrow> Some (chat_delta (digit_val d) c) | [] \<Rightarrow> None), jc_encode = (\<lambda>v. Some [])\<rparr>"

definition chat_env :: "unit stream_env" where
  "chat_env = \<lparr>se_codec = chat_codec, se_tables = id_tables, se_tops = no_tokens, se_redactor = demo_redactor, se_scope = two_people\<rparr>"

definition chat_turns :: "(nat \<times> string) list" where
  "chat_turns = [(0, ''Hi ANONYM''), (1, ''Yo''), (0, ''IZED_NAME_1, bye'')]"

theorem choice_streams_restored_witness:
  "\<exists>outs s'. run_frames chat_env [''0Hi ANONYM'', ''1Yo'', ''0IZED_NAME_1, bye''] NewStreamRestorer =
      Some (map (\<lambda>(i, out). written chat_codec (chat_delta i out)) outs, s') \<and>
    map fst outs = [0, 1, 0] \<and>
    (\<exists>rest. flushed chat_env (buffer_of s' (content_key 0)) = Inr rest \<and> concat (of_choice 0 outs) @ rest = ''Hi Al, bye'')"
proof -
  let ?cs = "\<lambda>i::nat. if i = 0 then [(''Hi '', ''NAME'', 1::nat)] else []"
  let ?z = "\<lambda>i::nat. if i = 0 then '', bye'' else if i = 1 then ''Yo'' else []"
  let ?data = "\<lambda>(i, c). digit_char i # c"
  obtain v where v: "sc_Vault two_people = Some v" "Vault_Resolve v (placeholder ''NAME'' 1) = Some ''Al''"
    using two_people_resolve by blast
  have e: "assemble (?cs 0) (?z 0) = ''Hi ANONYMIZED_NAME_1, bye''"
    by (simp add: placeholder_def PlaceholderPrefix_def one_digit)
  have o: "\<not> ends_open ''Hi ''" by (rule calm_not_open) (simp add: calm_def byte_def)
  have n: "no_marker ''Hi ''" "no_marker '', bye''" "no_digit '', bye''" "no_marker ''Yo''" "no_digit ''Yo''"
    by (simp_all add: no_digit_def is_digit_def in_range_def byte_def no_marker_def contains_def str_index_def
        PlaceholderPrefix_def upper1_def is_lower_def)
  have "length (placeholder ''NAME'' 1) \<le> maxPlaceholderLen"
    by (simp add: placeholder_def PlaceholderPrefix_def one_digit maxPlaceholderLen_def)
  then have w: "wf_chunks (?cs i) (?z i)" for i using n name_ok o by (simp add: wf_chunks_def chunk_ok_def tame_def far_apart_def)
  have p: "plain_text (assemble (?cs i) (?z i))" for i
    using e by (auto simp: plain_text_def ascii_def byte_def)
  have c: "concat (of_choice i chat_turns) = assemble (?cs i) (?z i)" for i
    using e by (simp add: chat_turns_def)
  have "encodes_all (se_codec chat_env)" by (simp add: encodes_all_def chat_env_def chat_codec_def)
  moreover have "\<forall>f \<in> set chat_turns. jc_decode (se_codec chat_env) (?data f) = Some (chat_delta (fst f) (snd f))"
    by (simp add: chat_turns_def chat_env_def chat_codec_def)
  moreover have "sc_Vault (se_scope chat_env) = Some v" "rd_tokens (se_redactor chat_env) = False"
    using v(1) by (simp_all add: chat_env_def demo_redactor_def NewRedactor_def)
  ultimately obtain outs s' where r: "run_frames chat_env (map ?data chat_turns) NewStreamRestorer =
      Some (map (\<lambda>(i, out). written (se_codec chat_env) (chat_delta i out)) outs, s')" "map fst outs = map fst chat_turns"
    "\<exists>rest. flushed chat_env (buffer_of s' (content_key 0)) = Inr rest \<and> concat (of_choice 0 outs) @ rest = restored (Vault_Resolve v) (?cs 0) (?z 0)"
    using choice_streams_restored [of chat_env chat_turns ?data v ?cs ?z] w p c by blast
  have "map ?data chat_turns = [''0Hi ANONYM'', ''1Yo'', ''0IZED_NAME_1, bye'']"
    by (simp add: chat_turns_def) code_simp
  then show ?thesis using r v(2) by (intro exI [of _ outs] exI [of _ s']) (simp add: chat_env_def chat_turns_def)
qed

section \<open>Tool calls in one piece\<close>

text \<open>A fragment: the number of its call, the call object of the frame and the text of the arguments.\<close>

type_synonym fragment = "nat \<times> (string \<times> json) list \<times> string"

definition fragment_ok :: "fragment \<Rightarrow> bool" where
  "fragment_ok f = (case f of (i, call, frag) \<Rightarrow>
     gm_get call ''index'' = Some (JNum (of_nat i)) \<and>
     (\<exists>fn. gm_get call ''function'' = Some (JObj fn) \<and> gm_get fn ''arguments'' = Some (JStr frag)))"

definition call_delta :: "nat \<Rightarrow> (string \<times> json) list \<Rightarrow> json" where
  "call_delta ch call =
     JObj [(''choices'', JArr [JObj [(''index'', JNum (of_nat ch)), (''delta'', JObj [(''tool_calls'', JArr [JObj call])])]])]"

definition call_finish :: "nat \<Rightarrow> json" where
  "call_finish ch =
     JObj [(''choices'', JArr [JObj [(''index'', JNum (of_nat ch)), (''delta'', JObj []), (''finish_reason'', JStr ''tool_calls'')]])]"

definition blank_call :: "(string \<times> json) list \<Rightarrow> (string \<times> json) list" where
  "blank_call call =
     (case gm_get call ''function'' of
        Some (JObj fn) \<Rightarrow> gm_set ''function'' (JObj (gm_set ''arguments'' (JStr []) fn)) call
      | _ \<Rightarrow> call)"

definition call_key :: "nat \<Rightarrow> nat \<Rightarrow> string" where
  "call_key ch i = itoa ch @ '':'' @ itoa i"

text \<open>The numbers of the calls in the order of their first fragments, a call's first object, and all its text.\<close>

definition call_order :: "fragment list \<Rightarrow> nat list" where
  "call_order fs = rev (remdups (rev (map fst fs)))"

definition first_shape :: "fragment list \<Rightarrow> nat \<Rightarrow> (string \<times> json) list" where
  "first_shape fs i = (case find (\<lambda>f. fst f = i) fs of Some (_, call, _) \<Rightarrow> call | None \<Rightarrow> [])"

definition whole_args :: "fragment list \<Rightarrow> nat \<Rightarrow> string" where
  "whole_args fs i = concat (map (\<lambda>(_, _, frag). frag) (filter (\<lambda>f. fst f = i) fs))"

lemma itoa_no_colon: "CHR '':'' \<notin> set (itoa n)"
  using itoa_digits [of "CHR '':''" n] by (auto simp: is_digit_def in_range_def byte_def)

lemma call_key_parts [simp]: "key_parts (call_key ch i) = (itoa ch, itoa i)"
proof -
  have "\<forall>c \<in> set (itoa ch). c \<noteq> CHR '':''" using itoa_no_colon [of ch] by auto
  then show ?thesis
    by (simp add: key_parts_def call_key_def takeWhile_append2 dropWhile_append2)
qed

lemma call_key_inj [simp]: "call_key ch i = call_key ch j \<longleftrightarrow> i = j"
  by (simp add: call_key_def itoa_inj)

lemma itoa_not_name: "itoa n \<noteq> ''anthropic''"
  using itoa_digits [of "CHR ''a''" n] by (auto simp: is_digit_def in_range_def byte_def)

text \<open>What the restorer holds after some fragments.\<close>

definition holds_calls :: "nat \<Rightarrow> fragment list \<Rightarrow> stream_restorer \<Rightarrow> bool" where
  "holds_calls ch fs s \<longleftrightarrow>
     sr_toolOrder s = map (call_key ch) (call_order fs) \<and>
     (\<forall>i. gm_get (sr_toolArgs s) (call_key ch i) = (if i \<in> fst ` set fs then Some (whole_args fs i) else None)) \<and>
     (\<forall>i \<in> fst ` set fs. gm_get (sr_toolShape s) (call_key ch i) = Some (first_shape fs i)) \<and> sr_pendingFrames s = []"

lemma call_order_snoc: "call_order (fs @ [f]) = (if fst f \<in> fst ` set fs then call_order fs else call_order fs @ [fst f])"
  by (simp add: call_order_def)

lemma call_order_set: "set (call_order fs) = fst ` set fs" "distinct (call_order fs)"
  by (simp_all add: call_order_def)

lemma first_shape_snoc:
  "first_shape (fs @ [f]) i = (if i \<in> fst ` set fs then first_shape fs i else if fst f = i then fst (snd f) else [])"
  by (induction fs) (auto simp: first_shape_def split: prod.split)

lemma whole_args_snoc: "whole_args (fs @ [(j, call, frag)]) i = (if i = j then whole_args fs i @ frag else whole_args fs i)"
  by (auto simp: whole_args_def)

lemma whole_args_none: "i \<notin> fst ` set fs \<Longrightarrow> whole_args fs i = []"
  by (force simp: whole_args_def filter_empty_conv)

lemma hold_step:
  assumes "holds_calls ch fs s"
  shows "holds_calls ch (fs @ [(j, call, frag)]) (hold_fragment (call_key ch j) frag (Some call) s)"
  using assms
  by (auto simp: holds_calls_def hold_fragment_def call_order_snoc first_shape_snoc whole_args_snoc whole_args_none gm_get_set)

lemma fragment_absorbed:
  assumes "fragment_ok (i, call, frag)"
  shows "absorbToolCalls (call_delta ch call) s = (call_delta ch (blank_call call), hold_fragment (call_key ch i) frag (Some call) s, [])"
    "absorbAnthropicToolCalls (call_delta ch call) s = (call_delta ch call, s, [])"
    "RestoreDocument jc t (call_delta ch call) u = (Inr (call_delta ch call), u)"
  using assms
  by (auto simp: fragment_ok_def absorbToolCalls_def absorbAnthropicToolCalls_def absorb_choice_def absorb_call_def call_delta_def
      blank_call_def elementID_def call_key_def RestoreDocument_def responseRules_def seg_def st_bind_def st_map_def applyTransform_def Let_def)

lemma finish_absorbed:
  "absorbToolCalls (call_finish ch) s = (call_finish ch, s, filter (\<lambda>key. has_prefix key (itoa ch @ '':'')) (sr_toolOrder s))"
  "absorbAnthropicToolCalls (call_finish ch) s = (call_finish ch, s, [])"
  "RestoreDocument jc t (call_finish ch) u = (Inr (call_finish ch), u)"
  by (simp_all add: absorbToolCalls_def absorbAnthropicToolCalls_def absorb_choice_def call_finish_def elementID_def
      RestoreDocument_def responseRules_def seg_def st_bind_def st_map_def applyTransform_def Let_def)

lemma fragment_frame:
  assumes "fragment_ok (i, call, frag)" "encodes_all (se_codec env)" "jc_decode (se_codec env) d = Some (call_delta ch call)"
  shows "Frame env d s = Some ([written (se_codec env) (call_delta ch (blank_call call))], hold_fragment (call_key ch i) frag (Some call) s)"
proof -
  have d: "decode_map (se_codec env) d = Some (call_delta ch call)" by (simp add: decode_map_def assms(3) call_delta_def)
  obtain fn where fn: "gm_get call ''function'' = Some (JObj fn)" using assms(1) by (auto simp: fragment_ok_def)
  then have "fragment_ok (i, blank_call call, [])" using assms(1) by (simp add: fragment_ok_def blank_call_def gm_get_set)
  then show ?thesis
    by (simp add: Frame_def d fragment_absorbed(1) [OF assms(1)] fragment_absorbed(2,3) Marshal_written [OF assms(2)] render_no_keys)
qed

lemma fragments_run:
  assumes "encodes_all (se_codec env)"
  shows "\<forall>f \<in> set fs. fragment_ok f \<and> jc_decode (se_codec env) (data f) = Some (call_delta ch (fst (snd f))) \<Longrightarrow> holds_calls ch pre s \<Longrightarrow>
    \<exists>s'. run_frames env (map data fs @ ds) s = map_option (\<lambda>(rest, s). (map (\<lambda>(i, call, frag). written (se_codec env) (call_delta ch (blank_call call))) fs @ rest, s))
        (run_frames env ds s') \<and> holds_calls ch (pre @ fs) s'"
proof (induction fs arbitrary: pre s)
  case Nil
  then show ?case by (intro exI [of _ s]) (simp add: map_option.id [unfolded id_def])
next
  case (Cons f fs)
  obtain i call frag where f: "f = (i, call, frag)" by (cases f)
  have fr: "Frame env (data f) s = Some ([written (se_codec env) (call_delta ch (blank_call call))], hold_fragment (call_key ch i) frag (Some call) s)"
    using fragment_frame [of i call frag env "data f" ch s] Cons.prems(1) assms f by simp
  from Cons.IH [OF _ hold_step [OF Cons.prems(2), of i call frag]] Cons.prems(1) obtain s' where
    "run_frames env (map data fs @ ds) (hold_fragment (call_key ch i) frag (Some call) s) =
      map_option (\<lambda>(rest, s). (map (\<lambda>(i, call, frag). written (se_codec env) (call_delta ch (blank_call call))) fs @ rest, s)) (run_frames env ds s')"
    "holds_calls ch ((pre @ [(i, call, frag)]) @ fs) s'" by auto
  then show ?case using fr f
    by (intro exI [of _ s']) (simp add: option.map_comp comp_def case_prod_unfold)
qed

section \<open>The released call\<close>

lemma st_bind_snd: "P (snd r) \<Longrightarrow> (\<And>x s. r = (Inr x, s) \<Longrightarrow> P s \<Longrightarrow> P (snd (f x s))) \<Longrightarrow> P (snd (st_bind r f))"
  by (cases r) (auto simp: st_bind_def split: sum.split)

lemma st_map_snd [simp]: "snd (st_map g r) = snd r"
  by (cases r) (auto simp: st_map_def st_bind_def split: sum.split)

lemma transform_keeps:
  assumes "\<And>k v s. P s \<Longrightarrow> P (snd (t k v s))"
  shows "t' = t \<Longrightarrow> P s \<Longrightarrow> P (snd (transformJSONValue t' v key s))"
    and "t' = t \<Longrightarrow> P s \<Longrightarrow> P (snd (transform_fields t' fs key s))"
    and "t' = t \<Longrightarrow> P s \<Longrightarrow> P (snd (transform_items t' i vs key s))"
proof (induction t' v key s and t' fs key s and t' i vs key s rule: transformJSONValue_transform_fields_transform_items.induct)
qed (simp_all add: assms st_bind_snd)

lemma text_keeps:
  assumes "\<And>k v s. P s \<Longrightarrow> P (snd (t k v s))" "P s"
  shows "P (snd (transformJSONString jc t raw key s))"
proof (cases "jc_decode jc raw")
  case None
  then show ?thesis using assms(2) by (simp add: transformJSONString_def)
next
  case (Some v)
  have "P (snd (transformJSONValue t v key s))" by (rule transform_keeps(1) [OF assms(1) refl assms(2)])
  then show ?thesis using Some
    by (cases "transformJSONValue t v key s") (simp add: transformJSONString_def st_bind_def split: sum.split option.split)
qed

definition same_calls :: "stream_restorer \<Rightarrow> stream_restorer \<Rightarrow> bool" where
  "same_calls s s' \<longleftrightarrow> sr_toolArgs s' = sr_toolArgs s \<and> sr_toolShape s' = sr_toolShape s \<and> sr_pendingFrames s' = sr_pendingFrames s"

lemma restoreArgs_whole:
  assumes "answers (plain_restore env) f" "encodes_all (se_codec env)"
  shows "\<exists>s'. restoreArgs env raw s = (json_text (se_codec env) f raw, s') \<and> same_calls s s'"
proof -
  have "same_calls s (snd (plain_restore env k v s1))" if "same_calls s s1" for k v s1
    using that by (simp add: plain_restore_def same_calls_def split: sum.split)
  then have "same_calls s (snd (transformJSONString (se_codec env) (plain_restore env) raw [] s))"
    by (rule text_keeps) (simp_all add: same_calls_def)
  moreover have "fst (transformJSONString (se_codec env) (plain_restore env) raw [] s) = Inr (JStr (json_text (se_codec env) f raw))"
    by (rule json_text_value [OF assms])
  ultimately show ?thesis
    by (cases "transformJSONString (se_codec env) (plain_restore env) raw [] s") (auto simp: restoreArgs_def)
qed

lemma render_calls:
  assumes "answers (plain_restore env) f" "encodes_all (se_codec env)"
  shows "distinct is \<Longrightarrow> \<forall>i \<in> set is. gm_get (sr_toolArgs s) (call_key ch i) = Some (args i) \<and> gm_get (sr_toolShape s) (call_key ch i) = Some (shape i) \<Longrightarrow>
    \<exists>s'. render_keys env (map (call_key ch) is) [(itoa ch, calls)] s =
      ([(itoa ch, calls @ map (\<lambda>i. whole_call (shape i) (json_text (se_codec env) f (args i))) is)], s') \<and> sr_pendingFrames s' = sr_pendingFrames s"
proof (induction "is" arbitrary: s calls)
  case (Cons i rest)
  define s1 where "s1 = s\<lparr>sr_toolArgs := gm_del (call_key ch i) (sr_toolArgs s)\<rparr>"
  obtain s2 where r: "restoreArgs env (args i) s1 = (json_text (se_codec env) f (args i), s2)" "same_calls s1 s2"
    using restoreArgs_whole [OF assms] by blast
  have h: "\<forall>j \<in> set rest. gm_get (sr_toolArgs s2) (call_key ch j) = Some (args j) \<and> gm_get (sr_toolShape s2) (call_key ch j) = Some (shape j)"
    using Cons.prems r(2) by (auto simp: same_calls_def s1_def gm_get_del)
  obtain s' where "render_keys env (map (call_key ch) rest) [(itoa ch, calls @ [whole_call (shape i) (json_text (se_codec env) f (args i))])] s2 =
      ([(itoa ch, (calls @ [whole_call (shape i) (json_text (se_codec env) f (args i))]) @ map (\<lambda>i. whole_call (shape i) (json_text (se_codec env) f (args i))) rest)], s')"
    "sr_pendingFrames s' = sr_pendingFrames s2"
    using Cons.IH [OF _ h, of "calls @ [whole_call (shape i) (json_text (se_codec env) f (args i))]"] Cons.prems(1) by auto
  moreover have "gm_get (sr_toolShape s2) (call_key ch i) = Some (shape i)"
    using Cons.prems(2) r(2) by (simp add: same_calls_def s1_def)
  ultimately show ?case
    using Cons.prems(2) r by (intro exI [of _ s']) (simp add: s1_def [symmetric] itoa_not_name same_calls_def, simp add: s1_def)
qed simp

definition restored_text :: "'s stream_env \<Rightarrow> string \<Rightarrow> string" where
  "restored_text env t =
     (case Unredact (se_tops env) (se_redactor env) t (se_scope env) of Inr u \<Rightarrow> ur_Text u | Inl e \<Rightarrow> t)"

lemma vault_answers:
  assumes "sc_Vault (se_scope env) = Some v" "rd_tokens (se_redactor env) = False"
  shows "answers (plain_restore env) (restored_text env)"
proof -
  have "\<exists>u. Unredact (se_tops env) (se_redactor env) t (se_scope env) = Inr u" for t
    using assms by (simp add: Unredact_def Let_def split: option.split)
  then show ?thesis unfolding answers_def plain_restore_def restored_text_def by (metis (mono_tags, lifting) fst_conv sum.case(2))
qed

text \<open>What the client gets for call \<open>i\<close>.\<close>

definition delivered_call :: "'s stream_env \<Rightarrow> fragment list \<Rightarrow> nat \<Rightarrow> json" where
  "delivered_call env fs i =
     whole_call (first_shape fs i) (json_text (se_codec env) (restored_text env) (whole_args fs i))"

lemma finish_frame:
  assumes "encodes_all (se_codec env)" "jc_decode (se_codec env) d = Some (call_finish ch)"
    and "answers (plain_restore env) (restored_text env)" "holds_calls ch fs s" "fs \<noteq> []"
  shows "\<exists>s'. Frame env d s = Some ([written (se_codec env) (choice_frame [(itoa ch, map (delivered_call env fs) (call_order fs))]),
    written (se_codec env) (call_finish ch)], s')"
proof -
  have d: "decode_map (se_codec env) d = Some (call_finish ch)" by (simp add: decode_map_def assms(2) call_finish_def)
  have keys: "filter (\<lambda>key. has_prefix key (itoa ch @ '':'')) (sr_toolOrder s) = map (call_key ch) (call_order fs)"
    using assms(4) by (simp add: holds_calls_def filter_id_conv call_key_def has_prefix_iff)
  obtain i rest where o: "call_order fs = i # rest" using assms(5) call_order_set(1) [of fs] by (cases "call_order fs") auto
  have i: "i \<in> fst ` set fs" using o call_order_set(1) [of fs] by auto
  define s1 where "s1 = s\<lparr>sr_toolArgs := gm_del (call_key ch i) (sr_toolArgs s)\<rparr>"
  obtain s2 where r: "restoreArgs env (whole_args fs i) s1 = (json_text (se_codec env) (restored_text env) (whole_args fs i), s2)" "same_calls s1 s2"
    using restoreArgs_whole [OF assms(3,1)] by blast
  have h: "\<forall>j \<in> set rest. gm_get (sr_toolArgs s2) (call_key ch j) = Some (whole_args fs j) \<and>
      gm_get (sr_toolShape s2) (call_key ch j) = Some (first_shape fs j)"
    using assms(4) o r(2) call_order_set [of fs] by (auto simp: holds_calls_def same_calls_def s1_def gm_get_del)
  have "distinct rest" using o call_order_set(2) [of fs] by simp
  from render_calls [OF assms(3,1) this h, of "[delivered_call env fs i]"] obtain s3 where
    k: "render_keys env (map (call_key ch) rest) [(itoa ch, [delivered_call env fs i])] s2 =
      ([(itoa ch, map (delivered_call env fs) (call_order fs))], s3)" "sr_pendingFrames s3 = sr_pendingFrames s2"
    by (auto simp: o delivered_call_def)
  have "gm_get (sr_toolShape s2) (call_key ch i) = Some (first_shape fs i)" "gm_get (sr_toolArgs s) (call_key ch i) = Some (whole_args fs i)"
    using assms(4) r(2) i by (auto simp: holds_calls_def same_calls_def s1_def)
  then have "render_keys env (map (call_key ch) (call_order fs)) [] s = ([(itoa ch, map (delivered_call env fs) (call_order fs))], s3)"
    using r(1) k(1) by (simp add: o s1_def [symmetric] itoa_not_name delivered_call_def)
  then show ?thesis
    by (simp add: Frame_def d finish_absorbed keys numeral_2_eq_2 renderReleased_def o Marshal_written [OF assms(1)])
qed

text \<open>
  C38: The arguments of tool calls arrive in one piece. When the fragments of the calls of a choice come
  in any interleaving and then the choice finishes, every fragment is passed on with empty
  arguments, and before the finishing frame one frame delivers every call, in the order in which the
  calls began, with its index, id, type and name and all its arguments in order: the fragments joined,
  parsed as one JSON text, with each string value restored and no key touched.
\<close>
theorem tool_calls_in_one_piece:
  assumes "encodes_all (se_codec env)" "fs \<noteq> []"
    and "\<forall>f \<in> set fs. fragment_ok f \<and> jc_decode (se_codec env) (data f) = Some (call_delta ch (fst (snd f)))"
    and "jc_decode (se_codec env) fin = Some (call_finish ch)"
    and "sc_Vault (se_scope env) = Some v" "rd_tokens (se_redactor env) = False"
  shows "\<exists>s'. run_frames env (map data fs @ [fin]) NewStreamRestorer =
    Some (map (\<lambda>(i, call, frag). written (se_codec env) (call_delta ch (blank_call call))) fs @
      [written (se_codec env) (choice_frame [(itoa ch, map (delivered_call env fs) (call_order fs))]),
       written (se_codec env) (call_finish ch)], s')"
proof -
  have "holds_calls ch [] NewStreamRestorer" by (simp add: holds_calls_def NewStreamRestorer_def call_order_def)
  from fragments_run [OF assms(1,3) this, of "[fin]"] obtain s' where
    r: "run_frames env (map data fs @ [fin]) NewStreamRestorer =
      map_option (\<lambda>(rest, s). (map (\<lambda>(i, call, frag). written (se_codec env) (call_delta ch (blank_call call))) fs @ rest, s))
        (run_frames env [fin] s')" "holds_calls ch fs s'" by auto
  from finish_frame [OF assms(1,4) vault_answers [OF assms(5,6)] r(2) assms(2)] r(1) show ?thesis by auto
qed

text \<open>One call in two fragments; its arguments name a placeholder.\<close>

definition first_part :: "(string \<times> json) list" where
  "first_part =
     [(''index'', JNum 0), (''id'', JStr ''c1''), (''function'', JObj [(''name'', JStr ''mail''), (''arguments'', JStr ''A'')])]"

definition second_part :: "(string \<times> json) list" where
  "second_part = [(''index'', JNum 0), (''function'', JObj [(''arguments'', JStr ''B'')])]"

definition call_codec :: json_codec where
  "call_codec =
     \<lparr>jc_decode = (\<lambda>s. if s = ''f'' then Some (call_delta 0 first_part) else if s = ''g'' then Some (call_delta 0 second_part)
        else if s = ''e'' then Some (call_finish 0) else if s = ''AB'' then Some (JObj [(''to'', JStr (placeholder ''NAME'' 1))]) else None),
      jc_encode = (\<lambda>v. case v of JObj [(k, JStr x)] \<Rightarrow> Some (k @ ''='' @ x) | _ \<Rightarrow> Some ''doc'')\<rparr>"

definition call_env :: "unit stream_env" where
  "call_env = \<lparr>se_codec = call_codec, se_tables = id_tables, se_tops = no_tokens, se_redactor = demo_redactor, se_scope = two_people\<rparr>"

lemma call_codec_encodes: "encodes_all call_codec"
  by (auto simp: encodes_all_def call_codec_def split: json.split list.split prod.split)

lemma call_env_vault:
  obtains v where "sc_Vault (se_scope call_env) = Some v" "rd_tokens (se_redactor call_env) = False"
    "Vault_Resolve v (placeholder ''NAME'' 1) = Some ''Al''"
  using two_people_resolve by (auto simp: call_env_def demo_redactor_def NewRedactor_def)

lemma call_env_restores: "restored_text call_env (placeholder ''NAME'' 1) = ''Al''"
proof -
  obtain v where v: "sc_Vault (se_scope call_env) = Some v" "rd_tokens (se_redactor call_env) = False"
    "Vault_Resolve v (placeholder ''NAME'' 1) = Some ''Al''" by (rule call_env_vault)
  have "length (placeholder ''NAME'' 1) \<le> maxPlaceholderLen"
    by (simp add: placeholder_def PlaceholderPrefix_def one_digit maxPlaceholderLen_def)
  then have "wf_chunks [([], ''NAME'', 1)] []"
    using name_ok by (simp add: wf_chunks_def chunk_ok_def tame_def far_apart_def no_digit_def)
  from Unredact_restored [OF this v(1,2), of "se_tops call_env"] show ?thesis
    using v(3) by (auto simp: restored_text_def)
qed

theorem tool_calls_in_one_piece_witness:
  "\<exists>s'. run_frames call_env [''f'', ''g'', ''e''] NewStreamRestorer =
    Some ([''doc'', ''doc'', written call_codec (choice_frame [(''0'',
      [JObj [(''function'', JObj [(''arguments'', JStr ''to=Al''), (''name'', JStr ''mail'')]), (''index'', JNum 0), (''id'', JStr ''c1'')]])]),
      ''doc''], s')"
proof -
  let ?fs = "[(0, first_part, ''A''), (0, second_part, ''B'')] :: fragment list"
  let ?data = "\<lambda>f. if f = (0::nat, first_part, ''A'') then ''f'' else ''g''"
  obtain v where v: "sc_Vault (se_scope call_env) = Some v" "rd_tokens (se_redactor call_env) = False"
    by (rule call_env_vault)
  have c: "se_codec call_env = call_codec" by (simp add: call_env_def)
  have ok: "\<forall>f \<in> set ?fs. fragment_ok f \<and> jc_decode (se_codec call_env) (?data f) = Some (call_delta 0 (fst (snd f)))"
    by (simp add: c fragment_ok_def call_codec_def first_part_def second_part_def)
  have fin: "jc_decode (se_codec call_env) ''e'' = Some (call_finish 0)" by (simp add: c call_codec_def)
  have enc: "encodes_all (se_codec call_env)" by (simp add: c call_codec_encodes)
  have d: "delivered_call call_env ?fs 0 =
      JObj [(''function'', JObj [(''arguments'', JStr ''to=Al''), (''name'', JStr ''mail'')]), (''index'', JNum 0), (''id'', JStr ''c1'')]"
    by (simp add: delivered_call_def first_shape_def whole_args_def c json_text_def call_codec_def call_env_restores [simplified]
        MarshalPreserving_def whole_call_def first_part_def has_suffix_def)
  have w: "written call_codec (call_delta 0 x) = ''doc''" "written call_codec (call_finish 0) = ''doc''" for x
    by (simp_all add: written_def MarshalPreserving_def call_codec_def call_delta_def call_finish_def has_suffix_def)
  have z: "itoa 0 = ''0''" by code_simp
  have "?fs \<noteq> []" "call_order ?fs = [0]" by (simp_all add: call_order_def)
  with tool_calls_in_one_piece [OF enc this(1) ok fin v] show ?thesis
    by (simp add: c w d z del: run_frames.simps)
qed

section \<open>Losses at the end of a stream\<close>

text \<open>Arguments that are not JSON are handed to the client with their placeholders.\<close>

lemma malformed_arguments_stay: "jc_decode (se_codec env) raw = None \<Longrightarrow> restoreArgs env raw s = (raw, s)"
  by (simp add: restoreArgs_def transformJSONString_def)

text \<open>A text delta of the Responses API is a string of its own, which no rule of responses reaches.\<close>

lemma responses_delta_stays:
  "RestoreDocument jc t (JObj [(''type'', JStr kind), (''delta'', JStr x)]) s = (Inr (JObj [(''type'', JStr kind), (''delta'', JStr x)]), s)"
  by (simp add: RestoreDocument_def responseRules_def seg_def st_bind_def st_map_def)

definition block_key :: "nat \<Rightarrow> string" where
  "block_key i = ''anthropic:'' @ itoa i"

lemma block_key_parts [simp]: "key_parts (block_key i) = (''anthropic'', itoa i)"
  by (simp add: block_key_def key_parts_def)

lemma block_key_inj [simp]: "block_key i = block_key j \<longleftrightarrow> i = j"
  by (simp add: block_key_def itoa_inj)

text \<open>When a stream ends with two tool calls of content blocks unfinished, only the first one is
  delivered: flushing renders both frames and returns one; the other stays in the pending frames, no call
  is held any more, and flushing again returns nothing.\<close>
theorem unfinished_calls_lost:
  assumes "encodes_all (se_codec env)" "sc_Vault (se_scope env) = Some v" "rd_tokens (se_redactor env) = False"
    and "i \<noteq> j" "sr_toolArgs s = [(block_key i, a), (block_key j, b)]" "sr_toolOrder s = [block_key i, block_key j]" "sr_pendingFrames s = []"
  shows "\<exists>s'. FlushToolCalls env s = (Some (written (se_codec env) (anthropic_frame (itoa i) (json_text (se_codec env) (restored_text env) a))), s') \<and>
    sr_toolArgs s' = [] \<and>
    sr_pendingFrames s' = [written (se_codec env) (anthropic_frame (itoa j) (json_text (se_codec env) (restored_text env) b))] \<and>
    FlushToolCalls env s' = (None, s')"
proof -
  have an: "answers (plain_restore env) (restored_text env)" by (rule vault_answers [OF assms(2,3)])
  define s1 where "s1 = s\<lparr>sr_toolArgs := [(block_key j, b)]\<rparr>"
  obtain s2 where r: "restoreArgs env a s1 = (json_text (se_codec env) (restored_text env) a, s2)" "same_calls s1 s2"
    using restoreArgs_whole [OF an assms(1)] by blast
  let ?fa = "written (se_codec env) (anthropic_frame (itoa i) (json_text (se_codec env) (restored_text env) a))"
  define s3 where "s3 = s2\<lparr>sr_pendingFrames := [?fa], sr_toolArgs := []\<rparr>"
  obtain s4 where q: "restoreArgs env b s3 = (json_text (se_codec env) (restored_text env) b, s4)" "same_calls s3 s4"
    using restoreArgs_whole [OF an assms(1)] by blast
  have "sr_pendingFrames s2 = []" "sr_toolArgs s2 = [(block_key j, b)]"
    using r(2) assms(7) by (simp_all add: same_calls_def s1_def)
  moreover have "sr_toolArgs s4 = []" "sr_pendingFrames s4 = [?fa]" using q(2) by (simp_all add: same_calls_def s3_def)
  ultimately show ?thesis
    using assms(4-7) r(1) q(1)
    by (simp add: FlushToolCalls_def renderReleased_def s1_def [symmetric] s3_def [symmetric] Marshal_written [OF assms(1)])
qed

theorem unfinished_calls_lost_witness:
  "\<exists>s'. FlushToolCalls call_env (NewStreamRestorer\<lparr>sr_toolArgs := [(block_key 1, ''AB''), (block_key 2, ''{'')],
      sr_toolOrder := [block_key 1, block_key 2]\<rparr>) =
      (Some (written call_codec (anthropic_frame (itoa 1) (json_text call_codec (restored_text call_env) ''AB''))), s') \<and>
    sr_pendingFrames s' \<noteq> [] \<and> FlushToolCalls call_env s' = (None, s')"
proof -
  have c: "se_codec call_env = call_codec" by (simp add: call_env_def)
  obtain v where v: "sc_Vault (se_scope call_env) = Some v" "rd_tokens (se_redactor call_env) = False"
    by (rule call_env_vault)
  have "encodes_all (se_codec call_env)" by (simp add: c call_codec_encodes)
  moreover have "(1::nat) \<noteq> 2" by simp
  ultimately show ?thesis
    using unfinished_calls_lost [of call_env v 1 2 "NewStreamRestorer\<lparr>sr_toolArgs := [(block_key 1, ''AB''), (block_key 2, ''{'')],
      sr_toolOrder := [block_key 1, block_key 2]\<rparr>" "''AB''" "''{''"] v
    by (fastforce simp: c NewStreamRestorer_def)
qed

text \<open>Flushing adds the phantoms of the buffers to those of the stream, and the buffers keep them.\<close>

lemma flush_phantoms:
  "flush_buffers env bufs ph = (Inr t, bufs', ph') \<Longrightarrow> ph' = ph @ concat (map (\<lambda>(k, su). su_phantom su) bufs')"
proof (induction bufs arbitrary: ph t bufs' ph')
  case (Cons b bufs)
  obtain k su where b: "b = (k, su)" by fastforce
  show ?case using Cons.prems Cons.IH b by (fastforce split: prod.splits sum.splits)
qed simp

text \<open>After the flush at the end of a stream every invented placeholder of a text stream is reported
  twice: once from the restorer's own list, once from the buffer.\<close>
theorem phantoms_reported_twice:
  assumes "restorer_Flush env s = (Inr t, s')"
  shows "restorer_Phantom s' = sr_phantom s @ concat (map (\<lambda>(k, su). su_phantom su) (sr_buffers s')) @
    concat (map (\<lambda>(k, su). su_phantom su) (sr_buffers s'))"
  using assms flush_phantoms by (fastforce simp: restorer_Flush_def restorer_Phantom_def split: prod.splits)

theorem phantoms_reported_twice_witness:
  "\<exists>t s'. restorer_Flush call_env (NewStreamRestorer\<lparr>sr_buffers := [(''k'', \<lparr>su_buffer = [], su_phantom = [''P'']\<rparr>)]\<rparr>) = (Inr t, s') \<and>
    restorer_Phantom s' = [''P'', ''P'']"
proof -
  let ?s = "NewStreamRestorer\<lparr>sr_buffers := [(''k'', \<lparr>su_buffer = [], su_phantom = [''P'']\<rparr>)]\<rparr>"
  have f: "restorer_Flush call_env ?s = (Inr [], ?s\<lparr>sr_phantom := [''P'']\<rparr>)"
    by (simp add: restorer_Flush_def NewStreamRestorer_def Flush_def release_def)
  from phantoms_reported_twice [OF f] show ?thesis unfolding f by (simp add: NewStreamRestorer_def)
qed

end
