(* ===== verification/Relay.thy ===== *)
theory Relay imports DocStream Sse RateLimit begin

text \<open>
  The relay between an upstream's answer and the client (\<open>internal/proxy/handler.go\<close>: \<open>stream\<close>,
  \<open>passthrough\<close>, \<open>redactBody\<close> and their helpers). The client is a state with its \<open>Write\<close>
  and \<open>Flush\<close>; the events are those that the scanner of \<open>Sse\<close> hands over, and the loop stops reading
  where it returns. Clock readings are left out: of the times to the first token the model keeps how
  many were recorded. Decoding the usage record of a frame is a parameter.
\<close>

section \<open>Helpers\<close>

definition isSSE :: "string \<Rightarrow> bool" where
  "isSSE contentType \<longleftrightarrow> has_prefix (to_lower (trim_space contentType)) ''text/event-stream''"

definition sessionKey :: "identity \<Rightarrow> header \<Rightarrow> string" where
  "sessionKey i h =
     (if id_SessionID i \<noteq> [] then id_SessionID i
      else if header_get h ''X-Conversation-Id'' \<noteq> [] then header_get h ''X-Conversation-Id''
      else RateLimitSubject i)"

text \<open>The result of decoding the usage record: None where that fails or the record is absent.\<close>

definition accumulateUsage :: "(string \<Rightarrow> (int \<times> int) option) \<Rightarrow> usage \<Rightarrow> string \<Rightarrow> usage" where
  "accumulateUsage parse dst data =
     (if \<not> contains data ([CHR 0x22] @ ''usage'' @ [CHR 0x22]) then dst
      else case parse data of None \<Rightarrow> dst | Some (i, out) \<Rightarrow> dst\<lparr>u_input := i, u_output := out\<rparr>)"

section \<open>Redaction of a request body\<close>

record 's redaction =
  rn_scope :: "'s scope"
  rn_typeCounts :: "(string, int) gomap"
  rn_strategies :: "(string, int) gomap"

definition add_counts :: "(string, int) gomap \<Rightarrow> (string, int) gomap \<Rightarrow> (string, int) gomap" where
  "add_counts res m = fold (\<lambda>(k, n) m. gm_set k ((case gm_get m k of None \<Rightarrow> 0 | Some x \<Rightarrow> x) + n) m) res m"

definition redact_leaf :: "crypto \<Rightarrow> case_tables \<Rightarrow> 's token_ops \<Rightarrow> redactor \<Rightarrow> 's redaction transform" where
  "redact_leaf cr ct tops rd key text s =
     (case Redact cr ct tops rd text (rn_scope s) of
        ((res, Some RedactPanic), scope) \<Rightarrow> (Inl TransformPanicked, s\<lparr>rn_scope := scope\<rparr>)
      | ((res, Some err), scope) \<Rightarrow> (Inl TransformFailed, s\<lparr>rn_scope := scope\<rparr>)
      | ((res, None), scope) \<Rightarrow>
          (Inr (rr_Text res),
           s\<lparr>rn_scope := scope, rn_typeCounts := add_counts (rr_TypeCounts res) (rn_typeCounts s),
             rn_strategies := add_counts (rr_StrategyCounts res) (rn_strategies s)\<rparr>))"

datatype body_error = BodyNotJSON | BodyFailed doc_error | BodyNotEncoded

text \<open>The body to send, what the auditor is told, and the scope afterwards.\<close>

definition redactBody ::
    "json_codec \<Rightarrow> crypto \<Rightarrow> case_tables \<Rightarrow> 's token_ops \<Rightarrow> redactor \<Rightarrow> string \<Rightarrow> 's scope \<Rightarrow>
     (body_error + string) \<times> ((string, int) gomap \<times> (string, int) gomap) option \<times> 's scope" where
  "redactBody jc cr ct tops rd body scope =
     (case decode_map jc body of
        None \<Rightarrow> (Inl BodyNotJSON, None, scope)
      | Some doc \<Rightarrow>
          (case SanitizeDocument jc (redact_leaf cr ct tops rd) doc \<lparr>rn_scope = scope, rn_typeCounts = [], rn_strategies = []\<rparr> of
             (Inl e, s) \<Rightarrow> (Inl (BodyFailed e), None, rn_scope s)
           | (Inr doc, s) \<Rightarrow>
               (case MarshalPreserving jc doc of None \<Rightarrow> Inl BodyNotEncoded | Some out \<Rightarrow> Inr out,
                Some (rn_typeCounts s, rn_strategies s), rn_scope s)))"

section \<open>The relay of events\<close>

record 'w client =
  cl_write :: "'w \<Rightarrow> string \<Rightarrow> string option \<times> 'w"
  cl_flush :: "'w \<Rightarrow> string option \<times> 'w"

record 'w relay =
  rl_client :: 'w
  rl_restorer :: "stream_restorer option"
  rl_usage :: usage
  rl_firstToken :: bool
  rl_frameSeen :: bool
  rl_TTFTCount :: nat
  rl_ToolCallTTFTCount :: nat
  rl_ClientAbort :: nat
  rl_Streamed :: nat

datatype relay_error = WriteFailed string | RestoreFailed unredact_error | ScanFailed sse_error

definition data_event :: "string \<Rightarrow> string sse_event" where
  "data_event d = \<lparr>ev_Event = [], ev_ID = [], ev_Data = d, ev_Retry = [], ev_Comment = False\<rparr>"

definition send :: "'w client \<Rightarrow> string sse_event \<Rightarrow> 'w relay \<Rightarrow> string option \<times> 'w relay" where
  "send cl e r = (case WriteEvent (cl_write cl) (rl_client r) e of (err, w) \<Rightarrow> (err, r\<lparr>rl_client := w\<rparr>))"

definition flush_client :: "'w client \<Rightarrow> 'w relay \<Rightarrow> string option \<times> 'w relay" where
  "flush_client cl r = (case cl_flush cl (rl_client r) of (err, w) \<Rightarrow> (err, r\<lparr>rl_client := w\<rparr>))"

definition recordFallbackTTFT :: "'w relay \<Rightarrow> 'w relay" where
  "recordFallbackTTFT r = (if rl_firstToken r \<and> rl_frameSeen r then r\<lparr>rl_TTFTCount := rl_TTFTCount r + 1\<rparr> else r)"

text \<open>What is emitted for the restorer when the stream says that it is done; an error ends the stream.\<close>

definition tail_frame :: "json_codec \<Rightarrow> string \<Rightarrow> string option" where
  "tail_frame jc tail =
     MarshalPreserving jc (JObj [(''choices'', JArr [JObj [(''delta'', JObj [(''content'', JStr tail)])]])])"

definition flush_restorer :: "'s stream_env \<Rightarrow> 'w client \<Rightarrow> 'w relay \<Rightarrow> unredact_error option \<times> 'w relay" where
  "flush_restorer env cl r =
     (case rl_restorer r of
        None \<Rightarrow> (None, r)
      | Some s \<Rightarrow>
          let (calls, s) = FlushToolCalls env s;
              r = (case calls of None \<Rightarrow> r | Some frame \<Rightarrow> snd (send cl (data_event frame) r));
              (tail, s) = restorer_Flush env s;
              r = r\<lparr>rl_restorer := Some s\<rparr> in
          case tail of
            Inl e \<Rightarrow> (Some e, r)
          | Inr t \<Rightarrow>
              (None, if t = [] then r
                     else case tail_frame (se_codec env) t of None \<Rightarrow> r | Some frame \<Rightarrow> snd (send cl (data_event frame) r)))"

definition relay_done :: "'s stream_env \<Rightarrow> 'w client \<Rightarrow> 'w relay \<Rightarrow> relay_error option \<times> 'w relay" where
  "relay_done env cl r =
     (case flush_restorer env cl r of
        (Some e, r) \<Rightarrow> (Some (RestoreFailed e), r)
      | (None, r) \<Rightarrow>
          let r = (recordFallbackTTFT r)\<lparr>rl_firstToken := False\<rparr>;
              r = r\<lparr>rl_client := snd (WriteDone (cl_write cl) (rl_client r))\<rparr> in
          (None, snd (flush_client cl r)))"

definition classify :: "json_codec \<Rightarrow> string \<Rightarrow> 'w relay \<Rightarrow> 'w relay" where
  "classify jc data r =
     (if \<not> rl_firstToken r then r
      else
        let r = r\<lparr>rl_frameSeen := True\<rparr> in
        case ClassifyFrame jc data of
          FrameText \<Rightarrow> r\<lparr>rl_firstToken := False, rl_TTFTCount := rl_TTFTCount r + 1\<rparr>
        | FrameToolCall \<Rightarrow> r\<lparr>rl_firstToken := False, rl_ToolCallTTFTCount := rl_ToolCallTTFTCount r + 1\<rparr>
        | FrameOther \<Rightarrow> r)"

text \<open>The event and id of the event go with the last frame.\<close>

fun frame_events :: "string sse_event \<Rightarrow> string list \<Rightarrow> string sse_event list" where
  "frame_events e [] = []"
| "frame_events e [f] = [(data_event f)\<lparr>ev_Event := ev_Event e, ev_ID := ev_ID e\<rparr>]"
| "frame_events e (f # fs) = data_event f # frame_events e fs"

fun send_all :: "'w client \<Rightarrow> string sse_event list \<Rightarrow> 'w relay \<Rightarrow> string option \<times> 'w relay" where
  "send_all cl [] r = (None, r)"
| "send_all cl (e # es) r =
     (case send cl e r of
        (Some err, r) \<Rightarrow> (Some err, r\<lparr>rl_ClientAbort := rl_ClientAbort r + 1\<rparr>)
      | (None, r) \<Rightarrow> send_all cl es r)"

text \<open>One event that is neither a comment nor the end: None is a panic of the restorer.\<close>

definition relay_frame ::
    "'s stream_env \<Rightarrow> (string \<Rightarrow> (int \<times> int) option) \<Rightarrow> 'w client \<Rightarrow> string sse_event \<Rightarrow> 'w relay \<Rightarrow> (string option \<times> 'w relay) option" where
  "relay_frame env parse cl e r =
     (let r = classify (se_codec env) (ev_Data e) r;
          r = r\<lparr>rl_usage := accumulateUsage parse (rl_usage r) (ev_Data e)\<rparr> in
      case (case rl_restorer r of
              None \<Rightarrow> Some ([e], r)
            | Some s \<Rightarrow> map_option (\<lambda>(frames, s). (frame_events e frames, r\<lparr>rl_restorer := Some s\<rparr>)) (Frame env (ev_Data e) s)) of
        None \<Rightarrow> None
      | Some (outs, r) \<Rightarrow>
          (case send_all cl outs r of
             (Some err, r) \<Rightarrow> Some (Some err, r)
           | (None, r) \<Rightarrow> Some (flush_client cl r)))"

text \<open>The loop. The last component tells whether it ended by reading to the end of the events.\<close>

fun relay_loop ::
    "'s stream_env \<Rightarrow> (string \<Rightarrow> (int \<times> int) option) \<Rightarrow> 'w client \<Rightarrow> string sse_event list \<Rightarrow> 'w relay \<Rightarrow>
     (relay_error option \<times> 'w relay \<times> bool) option" where
  "relay_loop env parse cl [] r = Some (None, r, True)"
| "relay_loop env parse cl (e # es) r =
     (if ev_Comment e then
        (case send cl e r of
           (Some err, r) \<Rightarrow> Some (Some (WriteFailed err), r, False)
         | (None, r) \<Rightarrow> relay_loop env parse cl es (snd (flush_client cl r)))
      else if IsDone e then
        (case relay_done env cl r of (err, r) \<Rightarrow> Some (err, r, False))
      else
        (case relay_frame env parse cl e r of
           None \<Rightarrow> None
         | Some (Some err, r) \<Rightarrow> Some (Some (WriteFailed err), r, False)
         | Some (None, r) \<Rightarrow> relay_loop env parse cl es r))"

text \<open>
  After the loop: the fallback once more, and the error of the scanner, if it is not the end of the
  input. A scanner that the loop left early has no other error than that one.
\<close>

definition stream_events ::
    "'s stream_env \<Rightarrow> (string \<Rightarrow> (int \<times> int) option) \<Rightarrow> 'w client \<Rightarrow> bool \<Rightarrow> string sse_event list \<Rightarrow> sse_error option \<Rightarrow> 'w relay \<Rightarrow>
     (relay_error option \<times> 'w relay) option" where
  "stream_events env parse cl redacting events scan_err r =
     (let r = snd (flush_client cl r);
          r = r\<lparr>rl_restorer := (if redacting \<and> sc_Vault (se_scope env) \<noteq> None then Some NewStreamRestorer else None),
                rl_firstToken := True, rl_frameSeen := False, rl_Streamed := rl_Streamed r + 1\<rparr> in
      case relay_loop env parse cl events r of
        None \<Rightarrow> None
      | Some (Some e, r, at_end) \<Rightarrow> Some (Some e, r)
      | Some (None, r, at_end) \<Rightarrow>
          let r = recordFallbackTTFT r in
          (case (if at_end then scan_err else None) of
             Some e \<Rightarrow> if e = ReadError IoEOF then Some (None, r) else Some (Some (ScanFailed e), r)
           | None \<Rightarrow> Some (None, r)))"

text \<open>An answer that is not a stream: read whole, restored as one document, and written.\<close>

definition passthrough ::
    "'s stream_env \<Rightarrow> (string \<Rightarrow> (int \<times> int) option) \<Rightarrow> 'w client \<Rightarrow> bool \<Rightarrow> (string + string) \<Rightarrow> 'w \<Rightarrow>
     usage \<times> string option \<times> 'w" where
  "passthrough env parse cl redacting upstream w =
     (case upstream of
        Inl err \<Rightarrow> (\<lparr>u_input = 0, u_output = 0\<rparr>, Some err, w)
      | Inr body \<Rightarrow>
          let body = take (32 * 2 ^ 20) body;
              used = accumulateUsage parse \<lparr>u_input = 0, u_output = 0\<rparr> body;
              body = (if redacting \<and> sc_Vault (se_scope env) \<noteq> None then RestoreBody env body else body);
              (err, w) = cl_write cl w body in
          (used, err, w))"

end
