(* ===== verification/RelayFacts.thy ===== *)
theory RelayFacts imports Relay DocStreamFacts begin

text \<open>
  The relay of \<open>internal/proxy/handler.go\<close> with a client that takes every write: a chat answer that
  ends with the done event reaches the client with all its text restored; without that event the held
  back tail of the text never does.
\<close>

section \<open>A client that takes everything\<close>

definition taker :: "string client" where
  "taker = \<lparr>cl_write = (\<lambda>w p. (None, w @ p)), cl_flush = (\<lambda>w. (None, w))\<rparr>"

definition wrote :: "string list \<Rightarrow> string" where
  "wrote ds = concat (map (\<lambda>d. concat (event_writes (data_event d))) ds)"

lemma wrote_simps [simp]: "wrote [] = []" "wrote (d # ds) = concat (event_writes (data_event d)) @ wrote ds" "wrote (xs @ ys) = wrote xs @ wrote ys"
  by (simp_all add: wrote_def)

lemma taker_writes: "write_all (cl_write taker) w ps = (None, w @ concat ps)"
  by (induction ps arbitrary: w) (simp_all add: taker_def)

lemma taker_send [simp]: "send taker e r = (None, r\<lparr>rl_client := rl_client r @ concat (event_writes e)\<rparr>)"
  by (simp add: send_def WriteEvent_def taker_writes)

lemma taker_flush [simp]: "flush_client taker r = (None, r)"
  by (simp add: flush_client_def taker_def)

lemma taker_send_all: "send_all taker (map data_event ds) r = (None, r\<lparr>rl_client := rl_client r @ wrote ds\<rparr>)"
  by (induction ds arbitrary: r) simp_all

lemma data_event_id: "(data_event f)\<lparr>ev_Event := ev_Event (data_event d), ev_ID := ev_ID (data_event d)\<rparr> = data_event f"
  by (simp add: data_event_def)

lemma frames_of_data: "frame_events (data_event d) fs = map data_event fs"
  by (induction "data_event d" fs rule: frame_events.induct) (simp_all add: data_event_id)

lemma data_event_fields [simp]: "ev_Data (data_event d) = d" "ev_Comment (data_event d) = False"
  by (simp_all add: data_event_def)

lemma classify_fields [simp]: "rl_client (classify jc d r) = rl_client r" "rl_restorer (classify jc d r) = rl_restorer r"
  by (simp_all add: classify_def Let_def split: FrameClass.split)

definition not_done :: "string \<Rightarrow> bool" where
  "not_done d \<longleftrightarrow> \<not> IsDone (data_event d)"

lemma relay_frames:
  "run_frames env ds s = Some (outs, s') \<Longrightarrow> \<forall>d \<in> set ds. not_done d \<Longrightarrow> rl_restorer r = Some s \<Longrightarrow>
    \<exists>r'. relay_loop env parse taker (map data_event ds @ es) r = relay_loop env parse taker es r' \<and>
      rl_client r' = rl_client r @ wrote outs \<and> rl_restorer r' = Some s'"
proof (induction ds arbitrary: s outs r)
  case Nil
  then show ?case by auto
next
  case (Cons d ds)
  obtain os s1 rest where f: "Frame env d s = Some (os, s1)" "run_frames env ds s1 = Some (rest, s')" "outs = os @ rest"
    using Cons.prems(1) by (auto split: option.splits)
  define r0 where "r0 = classify (se_codec env) d r"
  define r1 where "r1 = r0\<lparr>rl_client := rl_client r @ wrote os, rl_restorer := Some s1, rl_usage := accumulateUsage parse (rl_usage r0) d\<rparr>"
  have "relay_frame env parse taker (data_event d) r = Some (None, r1)"
    using Cons.prems(3) f(1)
    by (simp add: relay_frame_def Let_def frames_of_data taker_send_all r1_def r0_def)
  moreover obtain r' where "relay_loop env parse taker (map data_event ds @ es) r1 = relay_loop env parse taker es r'"
    "rl_client r' = rl_client r1 @ wrote rest" "rl_restorer r' = Some s'"
    using Cons.IH [OF f(2), of r1] Cons.prems(2) by (auto simp: r1_def)
  ultimately show ?case using Cons.prems(2) f(3) by (auto simp: not_done_def r1_def)
qed

section \<open>One choice\<close>

definition one_buffer :: "stream_unredactor option \<Rightarrow> stream_restorer" where
  "one_buffer su = NewStreamRestorer\<lparr>sr_buffers := (case su of None \<Rightarrow> [] | Some b \<Rightarrow> [(content_key 0, b)])\<rparr>"

lemma one_choice:
  assumes "encodes_all (se_codec env)"
  shows "\<forall>c \<in> set cs. jc_decode (se_codec env) (data c) = Some (chat_delta 0 c) \<Longrightarrow>
    stream_all (se_tables env) (se_tops env) (se_redactor env) (se_scope env) (case su of None \<Rightarrow> NewStreamUnredactor | Some b \<Rightarrow> b) cs = Some R \<Longrightarrow>
    \<exists>outs su' rest. run_frames env (map data cs) (one_buffer su) =
        Some (map (\<lambda>out. written (se_codec env) (chat_delta 0 out)) outs, one_buffer su') \<and>
      flushed env (case su' of None \<Rightarrow> NewStreamUnredactor | Some b \<Rightarrow> b) = Inr rest \<and> concat outs @ rest = R"
proof (induction cs arbitrary: su R)
  case Nil
  then have "flushed env (case su of None \<Rightarrow> NewStreamUnredactor | Some b \<Rightarrow> b) = Inr R"
    by (auto simp: flushed_def split: prod.splits sum.splits)
  then show ?case by - (rule exI [of _ "[]"], rule exI [of _ su], rule exI [of _ R], simp)
next
  case (Cons c cs)
  let ?su = "case su of None \<Rightarrow> NewStreamUnredactor | Some b \<Rightarrow> b"
  obtain out b R' where o: "Feed (se_tables env) (se_tops env) (se_redactor env) (se_scope env) ?su c = Some (Inr out, b)"
    "stream_all (se_tables env) (se_tops env) (se_redactor env) (se_scope env) b cs = Some R'" "R = out @ R'"
    using Cons.prems(2) by (auto split: option.splits prod.splits sum.splits)
  have b: "buffer_of (one_buffer su) (content_key 0) = ?su" "(one_buffer su)\<lparr>sr_buffers := gm_set (content_key 0) b (sr_buffers (one_buffer su))\<rparr> = one_buffer (Some b)"
    by (simp_all add: buffer_of_def one_buffer_def NewStreamRestorer_def split: option.split)
  have "Frame env (data c) (one_buffer su) = Some ([written (se_codec env) (chat_delta 0 out)], one_buffer (Some b))"
    unfolding b(2) [symmetric] by (rule chat_frame) (use Cons.prems(1) assms o(1) b(1) in auto)
  moreover obtain outs su' rest where "run_frames env (map data cs) (one_buffer (Some b)) =
        Some (map (\<lambda>out. written (se_codec env) (chat_delta 0 out)) outs, one_buffer su')"
      "flushed env (case su' of None \<Rightarrow> NewStreamUnredactor | Some b \<Rightarrow> b) = Inr rest" "concat outs @ rest = R'"
    using Cons.IH [of "Some b" R'] Cons.prems(1) o(2) by auto
  ultimately show ?case using o(3) by (intro exI [of _ "out # outs"] exI [of _ su'] exI [of _ rest]) simp
qed

lemma one_buffer_flush:
  assumes "flushed env (case su of None \<Rightarrow> NewStreamUnredactor | Some b \<Rightarrow> b) = Inr rest"
  shows "FlushToolCalls env (one_buffer su) = (None, one_buffer su)" "fst (restorer_Flush env (one_buffer su)) = Inr rest"
proof -
  show "FlushToolCalls env (one_buffer su) = (None, one_buffer su)"
    by (simp add: FlushToolCalls_def one_buffer_def NewStreamRestorer_def)
  show "fst (restorer_Flush env (one_buffer su)) = Inr rest"
  proof (cases su)
    case None
    then show ?thesis using assms
      by (simp add: restorer_Flush_def one_buffer_def NewStreamRestorer_def flushed_def Flush_def release_def NewStreamUnredactor_def)
  next
    case (Some b)
    then show ?thesis using assms
      by (cases "Flush (se_tops env) (se_redactor env) (se_scope env) b")
        (simp add: restorer_Flush_def one_buffer_def NewStreamRestorer_def flushed_def)
  qed
qed

definition done_bytes :: string where
  "done_bytes = ''data: [DONE]'' @ [newline, newline]"

lemma relay_ends:
  assumes "rl_restorer r = Some (one_buffer su)" "encodes_all (se_codec env)"
    and "flushed env (case su of None \<Rightarrow> NewStreamUnredactor | Some b \<Rightarrow> b) = Inr rest"
  shows "\<exists>r'. relay_done env taker r = (None, r') \<and>
    rl_client r' = rl_client r @ wrote (if rest = [] then [] else [the (tail_frame (se_codec env) rest)]) @ done_bytes"
proof -
  obtain s where s: "restorer_Flush env (one_buffer su) = (Inr rest, s)"
    using one_buffer_flush(2) [OF assms(3)] by (cases "restorer_Flush env (one_buffer su)") auto
  have fb: "rl_client (recordFallbackTTFT x) = rl_client x" for x :: "string relay" by (simp add: recordFallbackTTFT_def)
  show ?thesis
    using assms(1) one_buffer_flush(1) [OF assms(3)] s
    by (simp add: relay_done_def flush_restorer_def Let_def WriteDone_def taker_writes done_bytes_def tail_frame_def fb
        Marshal_written [OF assms(2)] del: write_all.simps)
qed

text \<open>
  C39: A chat answer that is streamed and ends with the done event reaches the client whole. The
  bytes written are the frames with restored text, in order, one more frame with the held back rest
  if there is any, and the done event; the texts of those frames put together are the restored
  answer, under the conditions on texts of \<open>stream_equals_batch\<close>.
\<close>
theorem relay_delivers_answer:
  assumes "encodes_all (se_codec env)"
    and "\<forall>c \<in> set cs. jc_decode (se_codec env) (data c) = Some (chat_delta 0 c) \<and> not_done (data c)"
    and "sc_Vault (se_scope env) = Some v" "rd_tokens (se_redactor env) = False"
    and "wf_chunks ch z" "plain_text (assemble ch z)" "concat cs = assemble ch z"
    and "rl_restorer r = Some NewStreamRestorer"
  shows "\<exists>outs rest r'. relay_loop env parse taker (map (data_event \<circ> data) cs @ [data_event ''[DONE]'']) r = Some (None, r', False) \<and>
    rl_client r' = rl_client r @ wrote (map (\<lambda>out. written (se_codec env) (chat_delta 0 out)) outs) @
      wrote (if rest = [] then [] else [the (tail_frame (se_codec env) rest)]) @ done_bytes \<and>
    concat outs @ rest = restored (Vault_Resolve v) ch z"
proof -
  have "stream_all (se_tables env) (se_tops env) (se_redactor env) (se_scope env) NewStreamUnredactor cs = Some (restored (Vault_Resolve v) ch z)"
    by (rule stream_restored [OF assms(3,4,5,6)]) (use assms(7) in \<open>simp add: NewStreamUnredactor_def\<close>)
  then obtain outs su rest where o: "run_frames env (map data cs) (one_buffer None) =
        Some (map (\<lambda>out. written (se_codec env) (chat_delta 0 out)) outs, one_buffer su)"
      "flushed env (case su of None \<Rightarrow> NewStreamUnredactor | Some b \<Rightarrow> b) = Inr rest" "concat outs @ rest = restored (Vault_Resolve v) ch z"
    using one_choice [OF assms(1), of cs data None] assms(2) by auto
  have n: "rl_restorer r = Some (one_buffer None)" using assms(8) by (simp add: one_buffer_def NewStreamRestorer_def)
  have nd: "\<forall>d \<in> set (map data cs). not_done d" using assms(2) by auto
  obtain r1 where r1: "relay_loop env parse taker (map data_event (map data cs) @ [data_event ''[DONE]'']) r = relay_loop env parse taker [data_event ''[DONE]''] r1"
    "rl_client r1 = rl_client r @ wrote (map (\<lambda>out. written (se_codec env) (chat_delta 0 out)) outs)" "rl_restorer r1 = Some (one_buffer su)"
    using relay_frames [OF o(1) nd n] by blast
  obtain r' where r': "relay_done env taker r1 = (None, r')"
    "rl_client r' = rl_client r1 @ wrote (if rest = [] then [] else [the (tail_frame (se_codec env) rest)]) @ done_bytes"
    using relay_ends [OF r1(3) assms(1) o(2)] by blast
  have "IsDone (data_event ''[DONE]'')" by (simp add: IsDone_def data_event_def) code_simp
  then have "relay_loop env parse taker [data_event ''[DONE]''] r1 = Some (None, r', False)" by (simp add: r'(1))
  then have "relay_loop env parse taker (map (data_event \<circ> data) cs @ [data_event ''[DONE]'']) r = Some (None, r', False)"
    using r1(1) by (simp only: map_map)
  moreover have "rl_client r' = rl_client r @ wrote (map (\<lambda>out. written (se_codec env) (chat_delta 0 out)) outs) @
      wrote (if rest = [] then [] else [the (tail_frame (se_codec env) rest)]) @ done_bytes"
    unfolding r'(2) r1(2) by (simp only: append.assoc)
  ultimately show ?thesis using o(3) by blast
qed

text \<open>The answer comes in two frames that divide a placeholder.\<close>

definition idle_relay :: "string relay" where
  "idle_relay = \<lparr>rl_client = [], rl_restorer = Some NewStreamRestorer, rl_usage = \<lparr>u_input = 0, u_output = 0\<rparr>, rl_firstToken = True,
     rl_frameSeen = False, rl_TTFTCount = 0, rl_ToolCallTTFTCount = 0, rl_ClientAbort = 0, rl_Streamed = 0\<rparr>"

theorem relay_delivers_answer_witness:
  "\<exists>outs rest r'. relay_loop chat_env (\<lambda>_. None) taker [data_event ''0Hi ANONYM'', data_event ''0IZED_NAME_1, bye'', data_event ''[DONE]''] idle_relay =
      Some (None, r', False) \<and>
    rl_client r' = wrote (map (\<lambda>out. written chat_codec (chat_delta 0 out)) outs) @
      wrote (if rest = [] then [] else [the (tail_frame chat_codec rest)]) @ done_bytes \<and>
    concat outs @ rest = ''Hi Al, bye''"
proof -
  let ?cs = "[(''Hi '', ''NAME'', 1::nat)]" and ?z = "'', bye''" and ?data = "\<lambda>c. CHR ''0'' # c"
  let ?p = "[''Hi ANONYM'', ''IZED_NAME_1, bye'']"
  obtain v where v: "sc_Vault two_people = Some v" "Vault_Resolve v (placeholder ''NAME'' 1) = Some ''Al''"
    using two_people_resolve by blast
  have e: "assemble ?cs ?z = ''Hi ANONYMIZED_NAME_1, bye''"
    by (simp add: placeholder_def PlaceholderPrefix_def one_digit)
  have o: "\<not> ends_open ''Hi ''" by (rule calm_not_open) (simp add: calm_def byte_def)
  have n: "no_marker ''Hi ''" "no_marker ?z" "no_digit ?z"
    by (simp_all add: no_digit_def is_digit_def in_range_def byte_def no_marker_def contains_def str_index_def
        PlaceholderPrefix_def upper1_def is_lower_def)
  have "length (placeholder ''NAME'' 1) \<le> maxPlaceholderLen"
    by (simp add: placeholder_def PlaceholderPrefix_def one_digit maxPlaceholderLen_def)
  then have w: "wf_chunks ?cs ?z" using n name_ok o by (simp add: wf_chunks_def chunk_ok_def tame_def far_apart_def)
  have p: "plain_text (assemble ?cs ?z)" unfolding e by (simp add: plain_text_def ascii_def byte_def)
  have "digit_val CHR ''0'' = 0" by (simp add: digit_val_def byte_def)
  moreover have "not_done ''0Hi ANONYM''" "not_done ''0IZED_NAME_1, bye''"
    by (simp_all add: not_done_def IsDone_def data_event_def) code_simp+
  ultimately have d: "\<forall>c \<in> set ?p. jc_decode (se_codec chat_env) (?data c) = Some (chat_delta 0 c) \<and> not_done (?data c)"
    by (simp add: chat_env_def chat_codec_def)
  have enc: "encodes_all (se_codec chat_env)" by (simp add: encodes_all_def chat_env_def chat_codec_def)
  have s: "sc_Vault (se_scope chat_env) = Some v" "rd_tokens (se_redactor chat_env) = False"
    using v(1) by (simp_all add: chat_env_def demo_redactor_def NewRedactor_def)
  have c: "concat ?p = assemble ?cs ?z" unfolding e by simp
  have i: "rl_restorer idle_relay = Some NewStreamRestorer" "se_codec chat_env = chat_codec" "rl_client idle_relay = []"
    by (simp_all add: idle_relay_def chat_env_def)
  have g: "restored (Vault_Resolve v) ?cs ?z = ''Hi Al, bye''" using v(2) by simp
  from relay_delivers_answer [OF enc d s w p c i(1), of "\<lambda>_. None"] show ?thesis
    unfolding g i(2,3) by (simp only: list.map o_apply append.simps)
qed

section \<open>Without the done event\<close>

definition block_delta :: "string \<Rightarrow> json" where
  "block_delta x =
     JObj [(''type'', JStr ''content_block_delta''), (''index'', JNum 0),
           (''delta'', JObj [(''type'', JStr ''text_delta''), (''text'', JStr x)])]"

lemma letter_held:
  assumes "plain_text x" "no_marker (x @ ''A'')"
  shows "splitSafePrefix ct (x @ ''A'') = Some (x, ''A'')"
proof -
  have p: "plain_text (x @ ''A'')" using assms(1) by (auto simp: plain_text_def ascii_def byte_def)
  have "no_marker (window (x @ ''A''))"
    using assms(2) unfolding no_marker_iff window_def by (metis drop_drop drop_map)
  note cut = split_plain [OF p hold_no_marker [OF p this]]
  have "up (x @ ''A'') = up x @ take 1 PlaceholderPrefix"
    by (simp add: PlaceholderPrefix_def upper1_def is_lower_def in_range_def byte_def)
  from held_partial_exact [OF this] cut show ?thesis by simp
qed

lemma no_marker_restored:
  assumes "no_marker x" "sc_Vault scope = Some v" "rd_tokens rd = False"
  shows "\<exists>su'. release tops rd scope x su = (Inr x, su') \<and> su_buffer su' = su_buffer su"
proof -
  have "wf_chunks [] x" using assms(1) by (simp add: wf_chunks_def far_apart_def)
  from release_restored [OF this assms(2,3)] show ?thesis by simp
qed

lemma block_absorbed:
  "absorbToolCalls (block_delta x) s = (block_delta x, s, [])"
  "absorbAnthropicToolCalls (block_delta x) s = (block_delta x, s, [])"
  by (simp_all add: absorbToolCalls_def absorbAnthropicToolCalls_def block_delta_def Let_def)

lemma block_restored:
  assumes "t ''delta.text'' x s = (Inr out, s')"
  shows "RestoreDocument jc t (block_delta x) s = (Inr (block_delta out), s')"
  using assms
  by (simp add: RestoreDocument_def responseRules_def seg_def block_delta_def st_bind_def st_map_def applyTransform_def
      Let_def joinKey_def)

text \<open>
  C40: A stream that ends without the done event loses the text that is held back. An answer of
  content blocks whose text ends with the letter A, where a placeholder could begin, and that
  then ends, as the protocol of content blocks does, reaches the client without its last letter; the
  relay reports no error.
\<close>
theorem letter_lost_without_done:
  assumes "encodes_all (se_codec env)" "jc_decode (se_codec env) d = Some (block_delta (x @ ''A''))" "not_done d"
    and "sc_Vault (se_scope env) = Some v" "rd_tokens (se_redactor env) = False"
    and "plain_text x" "no_marker (x @ ''A'')"
  shows "\<exists>r'. stream_events env parse taker True [data_event d] (Some (ReadError IoEOF)) r = Some (None, r') \<and>
    rl_client r' = rl_client r @ wrote [written (se_codec env) (block_delta x)]"
proof -
  have dm: "decode_map (se_codec env) d = Some (block_delta (x @ ''A''))" by (simp add: decode_map_def assms(2) block_delta_def)
  obtain su where su: "release (se_tops env) (se_redactor env) (se_scope env) x (NewStreamUnredactor\<lparr>su_buffer := ''A''\<rparr>) = (Inr x, su)"
    using no_marker_restored [OF no_marker_prefix [OF assms(7)] assms(4,5)] by blast
  have "Feed (se_tables env) (se_tops env) (se_redactor env) (se_scope env) NewStreamUnredactor (x @ ''A'') = Some (Inr x, su)"
    using letter_held [OF assms(6,7)] su by (simp add: Feed_def NewStreamUnredactor_def)
  then have f: "feed_leaf env ''delta.text'' (x @ ''A'') NewStreamRestorer =
      (Inr x, NewStreamRestorer\<lparr>sr_buffers := [(''delta.text'', su)]\<rparr>)"
    by (simp add: feed_leaf_def NewStreamRestorer_def)
  have fr: "run_frames env [d] NewStreamRestorer =
      Some ([written (se_codec env) (block_delta x)], NewStreamRestorer\<lparr>sr_buffers := [(''delta.text'', su)]\<rparr>)"
    by (simp add: Frame_def dm block_absorbed block_restored [of "feed_leaf env", OF f] Marshal_written [OF assms(1)] render_no_keys)
  define r0 where "r0 = r\<lparr>rl_restorer := Some NewStreamRestorer, rl_firstToken := True, rl_frameSeen := False, rl_Streamed := Suc (rl_Streamed r)\<rparr>"
  have n: "rl_restorer r0 = Some NewStreamRestorer" "\<forall>d' \<in> set [d]. not_done d'" using assms(3) by (simp_all add: r0_def)
  obtain r1 where r1: "relay_loop env parse taker (map data_event [d] @ []) r0 = relay_loop env parse taker [] r1"
    "rl_client r1 = rl_client r0 @ wrote [written (se_codec env) (block_delta x)]"
    using relay_frames [OF fr n(2,1)] by blast
  have "relay_loop env parse taker [data_event d] r0 = Some (None, r1, True)" using r1(1) by (simp only: list.map append.simps relay_loop.simps)
  moreover have "rl_client r0 = rl_client r" by (simp add: r0_def)
  ultimately show ?thesis using assms(4) r1(2)
    by (simp add: stream_events_def r0_def [symmetric] Let_def recordFallbackTTFT_def del: relay_loop.simps wrote_simps)
qed

theorem letter_lost_without_done_witness:
  "\<exists>r'. stream_events (chat_env\<lparr>se_codec := chat_codec\<lparr>jc_decode := (\<lambda>s. Some (block_delta ''Plan A''))\<rparr>\<rparr>) (\<lambda>_. None) taker True
      [data_event ''x''] (Some (ReadError IoEOF)) idle_relay = Some (None, r') \<and>
    rl_client r' = wrote [written (chat_codec\<lparr>jc_decode := (\<lambda>s. Some (block_delta ''Plan A''))\<rparr>) (block_delta ''Plan '')]"
proof -
  let ?jc = "chat_codec\<lparr>jc_decode := (\<lambda>s. Some (block_delta ''Plan A''))\<rparr>"
  let ?env = "chat_env\<lparr>se_codec := ?jc\<rparr>"
  obtain v where v: "sc_Vault (se_scope ?env) = Some v" "rd_tokens (se_redactor ?env) = False"
    using two_people_resolve by (auto simp: chat_env_def demo_redactor_def NewRedactor_def)
  have e: "encodes_all (se_codec ?env)" by (simp add: encodes_all_def chat_codec_def)
  have d: "jc_decode (se_codec ?env) ''x'' = Some (block_delta (''Plan '' @ ''A''))" by simp
  have n: "not_done ''x''" by (simp add: not_done_def IsDone_def data_event_def) code_simp
  have p: "plain_text ''Plan ''" by (auto simp: plain_text_def ascii_def byte_def)
  have m: "no_marker (''Plan '' @ ''A'')"
    by (simp add: no_marker_def contains_def str_index_def PlaceholderPrefix_def upper1_def is_lower_def in_range_def byte_def)
  from letter_lost_without_done [OF e d n v p m, of "\<lambda>_. None" idle_relay] show ?thesis
    by (simp add: idle_relay_def del: wrote_simps)
qed

end
