(* ===== verification/Spec2Isabelle.thy ===== *)
theory Spec2Isabelle imports Prelude GoStrings UTF8 Validators ValidatorsEU Detector RateLimit RateLedger Identity PathMatch Routing Breaker GpuLoad Affinity Lifecycle Gateway Vault TokenRecord TokenStore TokenCrypto CacheStore SqlStore GoRegexp GoCase Strategy FlowMatrix Placeholder Redactor StreamRestore StreamLeaks AhoCorasick AcTrie AcLinks AcScan Gazetteer RegexFacts Recognizer Packs PackDetect CreditCode Scanner ScanLeaks RuneFacts Surname Cascade CascadeFacts Sse SseFacts Document DocFacts DocStream DocStreamFacts Relay RelayFacts begin

text \<open>
  A verification library of the airlock agent, a gateway that sits between applications and
  language-model backends: it routes requests by workload identity, limits tokens, sheds load,
  fails over, and replaces personal data by placeholders before a request leaves and puts it
  back into the answer.

  The parts of the program and the theories that model them:

  \<^item> \<open>Prelude\<close>, \<open>GoStrings\<close>, \<open>UTF8\<close>: the vocabulary of Go that the program uses (errors
    as sums, maps as association lists, 64-bit integers that wrap, byte strings, runes).
  \<^item> \<open>Validators\<close>, \<open>ValidatorsEU\<close> (\<open>pii/detect/validators*.go\<close>): the check digits; a
    locale of weighted checks carries the detection lemmas of three of them.
  \<^item> \<open>Detector\<close> (\<open>pii/detect/detector.go\<close>, \<open>registry.go\<close>): entities, overlap resolution,
    the composite detector and the registry.
  \<^item> \<open>RateLimit\<close>, \<open>RateLedger\<close> (\<open>internal/ratelimit/window.go\<close>): the sliding-window token
    limiter, and its refinement of a ledger of charges when the window is aligned.
  \<^item> \<open>Identity\<close>, \<open>PathMatch\<close>, \<open>Routing\<close> (\<open>internal/identity\<close>, \<open>internal/routing/policy.go\<close>):
    workload identity from headers, Go's path.Match, the routing policy.
  \<^item> \<open>Breaker\<close>, \<open>GpuLoad\<close>, \<open>Affinity\<close>, \<open>Lifecycle\<close>: circuit breaker, admission by GPU
    pressure, bounded-load hash ring, shutdown and snapshot.
  \<^item> \<open>Gateway\<close> (\<open>internal/proxy/handler.go\<close>): the request path over all of these.
  \<^item> \<open>Vault\<close> (\<open>pii/anonymize/vault.go\<close>): session vaults and their sharded registry.
  \<^item> \<open>TokenRecord\<close>, \<open>TokenStore\<close>, \<open>TokenCrypto\<close>, \<open>CacheStore\<close>, \<open>SqlStore\<close>
    (\<open>pii/anonymize/tokenrecord.go\<close>, \<open>tokenstore.go\<close>, \<open>tenant.go\<close>, \<open>tokencrypto.go\<close>): the token
    vault. The locale \<open>token_store\<close> states its contract; the in-memory store is an
    interpretation, the cache-backed and the relational store are shown to satisfy it over any
    cache that keeps the locale \<open>cache_backend\<close> and over the table of the schema.

  \<^item> \<open>GoRegexp\<close>, \<open>GoCase\<close>: Go's regular expressions, as a backtracking matcher with the leftmost-first
    preference of the engine, and the case conversions of the strings package, with the tables of
    Unicode beyond ASCII as a parameter.
  \<^item> \<open>Strategy\<close>, \<open>FlowMatrix\<close> (\<open>pii/anonymize/strategy.go\<close>, \<open>generalize.go\<close>, \<open>matrix.go\<close>): the redaction
    operators and the matrix that assigns them to flows.
  \<^item> \<open>Placeholder\<close>, \<open>Redactor\<close> (\<open>pii/anonymize/redactor.go\<close>): what the placeholder pattern finds in a
    text put together from placeholders and inert text, redaction and restoration, and their
    round trip.
  \<^item> \<open>StreamRestore\<close>, \<open>StreamLeaks\<close> (\<open>pii/anonymize/redactor.go\<close>, \<open>StreamUnredactor\<close>): restoration of a
    streamed answer. Every cut spares the placeholders when they stand a window apart in ASCII
    text, so the stream equals restoring at once; the three ways in which it fails otherwise.

  \<^item> \<open>AhoCorasick\<close>, \<open>AcTrie\<close>, \<open>AcLinks\<close>, \<open>AcScan\<close> (\<open>pii/detect/ahocorasick.go\<close>): the automaton of the
    roster as an arena of nodes; the invariants of insertion and of the breadth-first linking; its
    scan finds every occurrence once. \<open>Gazetteer\<close> (\<open>pii/detect/detector.go\<close>) is the detector over it.

  \<^item> \<open>RegexFacts\<close>, \<open>Recognizer\<close> (\<open>pii/detect/pattern.go\<close>, \<open>prefilter.go\<close>): what every match of a pattern is and must
    contain; recognizers with prefilter, boundary, validator and context window. \<open>Packs\<close> and
    \<open>PackDetect\<close> (\<open>pii/detect/packs\<close>): the country packs entry by entry, their loading, and what a
    registry built from them detects. \<open>CreditCode\<close>: the one prefilter that is not sound.
  \<^item> \<open>Scanner\<close>, \<open>ScanLeaks\<close> (\<open>pii/detect/scanner.go\<close>): the chunked scanner over such a registry; what its
    chunks cover, and the tokens longer than its margin, which it misses.

  \<^item> \<open>RuneFacts\<close>, \<open>Surname\<close> (\<open>pii/detect/surname.go\<close>): decoding inverts encoding, and where runes begin; the
    recognizer of Chinese surnames, whose candidates are given exactly.

  \<^item> \<open>Cascade\<close>, \<open>CascadeFacts\<close> (\<open>pii/detect/cascade.go\<close>, \<open>language.go\<close>, \<open>degrade.go\<close>): the fast layers and
    the model behind them; masking and the way back of its offsets; the model only adds.
  \<^item> \<open>Sse\<close>, \<open>SseFacts\<close> (\<open>internal/proxy/sse.go\<close>): the scanner of server-sent events over a buffered
    reader with its buffer, so that a slice of a line is what the buffer holds when it is used;
    what is written is read back, whatever the chunks, except for the names of events.

  \<^item> \<open>Document\<close>, \<open>DocFacts\<close> (\<open>pii/document/document.go\<close>): redaction and restoration of JSON documents along
    tables of paths, with the codec and the transform as parameters; exactly the listed leaves change.
  \<^item> \<open>DocStream\<close>, \<open>DocStreamFacts\<close> (the same file, \<open>StreamRestorer\<close>): a buffer for every text stream and the
    barrier of tool calls; what the client assembles. \<open>Relay\<close>, \<open>RelayFacts\<close> (\<open>internal/proxy/handler.go\<close>,
    \<open>stream\<close>, \<open>passthrough\<close>, \<open>redactBody\<close>): the loop from the events of the upstream to the bytes for the
    client, and what it delivers with and without the done event.

  Conventions. State is passed explicitly, in records with the fields of the source's structs;
  a lock makes the operations of one object atomic, so they are functions. Clock readings,
  random draws and the answers of code that is not in the repository are parameters. A panic
  is a value. Prices and confidences are rationals in place of floats; where NaN matters it
  is a constructor of its own. Recursion is structural or has a measure, so every
  model terminates: the fallback chain by the tiers not yet visited, the loops over text by
  the text that is left. Loops whose end the code does not show (failure links, output links, the
  queue of the linking) are partial functions, and that they return is proved. No fuel is used.

  Not modelled: network and file input and output, logging, YAML and JSON decoding, the
  evidence pipeline, the sidecar's HTTP surface, generated protocol code and the commands.
\<close>

end
